(* ===== verification/Prelude.thy ===== *)
theory Prelude
  imports Main "HOL-Library.Word" "HOL-Library.Monad_Syntax"
begin

section \<open>Shared vocabulary of the NetPlay development\<close>

text \<open>
  Types, automation and generic lemmas that every component theory uses.

  \<^item> Machine integers. Bytes are \<open>8 word\<close>. Counters, offsets, identifiers and tokens
    (\<open>size_t\<close>, \<open>uint64_t\<close>, \<open>uint32_t\<close>, \<open>uint16_t\<close> of the code) are natural numbers, and
    every conversion or addition that can lose bits is written out as
    \<open>take_bit w\<close> (the value modulo \<open>2 ^ w\<close>).
  \<^item> Undefined behaviour. An operation that dereferences a null pointer, indexes an array
    outside its bounds or reads an indeterminate value of a non-byte type has no result:
    it returns \<open>None\<close> of the \<open>option\<close> monad, and so does a loop that never ends. A theorem
    that an operation is safe states that it returns \<open>Some\<close>.
  \<^item> Memory. An array on the heap is a partial map from positions to values; a position
    that is not in the map holds an indeterminate value.
\<close>

type_synonym u8 = "8 word"
type_synonym u16 = "16 word"
type_synonym u32 = "32 word"
type_synonym u64 = "64 word"

type_synonym 'a cells = "nat \<rightharpoonup> 'a"
type_synonym 'a bucket_array = "nat \<rightharpoonup> 'a cells"

abbreviation UINT16_MAX :: nat where "UINT16_MAX \<equiv> 65535"
abbreviation UINT32_MAX :: nat where "UINT32_MAX \<equiv> 4294967295"
abbreviation UINT64_MAX :: nat where "UINT64_MAX \<equiv> 18446744073709551615"

text \<open>Facts that close the arithmetic of one representation or the other.\<close>

named_theorems wrap_simps \<open>additions and conversions that do not lose bits\<close>
named_theorems log_simps \<open>observations of a log after one of its operations\<close>

section \<open>Wrap-around\<close>

lemma take_bit_id [wrap_simps]: "n < 2 ^ w \<Longrightarrow> take_bit w n = (n::nat)"
  by (rule take_bit_nat_eq_self)

lemma take_bit_less [simp]: "take_bit w (n::nat) < 2 ^ w"
  by simp

lemma take_bit_le: "take_bit w (n::nat) \<le> n"
  by (rule take_bit_nat_less_eq_self)

lemma take_bit_64_id: "n < 18446744073709551616 \<Longrightarrow> take_bit 64 n = (n::nat)"
  by (rule take_bit_id) simp

lemma take_bit_32_id: "n < 4294967296 \<Longrightarrow> take_bit 32 n = (n::nat)"
  by (rule take_bit_id) simp

lemma take_bit_16_id: "n < 65536 \<Longrightarrow> take_bit 16 n = (n::nat)"
  by (rule take_bit_id) simp

lemmas take_bit_ids = take_bit_64_id take_bit_32_id take_bit_16_id

section \<open>Powers of two\<close>

lemma two_power_interval_unique:
  fixes n :: nat
  assumes "2 ^ a \<le> n" "n < 2 ^ Suc a" "2 ^ b \<le> n" "n < 2 ^ Suc b"
  shows "a = b"
proof -
  have "2 ^ a < (2::nat) ^ Suc b" "2 ^ b < (2::nat) ^ Suc a"
    using assms by linarith+
  then have "a < Suc b" "b < Suc a"
    by (meson nat_power_less_imp_less zero_less_numeral)+
  then show ?thesis by simp
qed

lemma bit_nat_top:
  fixes n :: nat
  assumes "2 ^ k \<le> n" "n < 2 ^ Suc k"
  shows "bit n k"
proof -
  have "n div 2 ^ k = 1"
    using assms by (intro div_nat_eqI) auto
  then show ?thesis by (simp add: bit_iff_odd)
qed

lemma bit_nat_above:
  fixes n :: nat
  assumes "n < 2 ^ Suc k" "k < i"
  shows "\<not> bit n i"
proof -
  have "n < 2 ^ i"
    using assms by (meson Suc_leI less_le_trans one_le_numeral power_increasing)
  then show ?thesis by (simp add: bit_iff_odd)
qed

lemma xor_top_bit:
  fixes n :: nat
  assumes "2 ^ k \<le> n" "n < 2 ^ Suc k"
  shows "xor n (2 ^ k) = n - 2 ^ k"
proof -
  have bits: "bit (xor n (2 ^ k)) i = bit (take_bit k n) i" for i
    using bit_nat_top [OF assms] bit_nat_above [OF assms(2), of i]
    by (cases i k rule: linorder_cases) (auto simp: bit_simps)
  have "xor n (2 ^ k) = take_bit k n"
    by (rule bit_eqI) (simp add: bits)
  also have "\<dots> = n - 2 ^ k"
    using assms by (simp add: take_bit_eq_mod le_mod_geq)
  finally show ?thesis .
qed

section \<open>The option monad\<close>

lemma bind_Some_iff: "(m \<bind> f = Some y) = (\<exists>x. m = Some x \<and> f x = Some y)"
  by (cases m) auto

lemma bind_None_iff: "(m \<bind> f = None) = (\<forall>x. m = Some x \<longrightarrow> f x = None)"
  by (cases m) auto

lemma bind_Some_map: "m \<bind> (\<lambda>x. Some (f x)) = map_option f m"
  by (cases m) auto

section \<open>Runs of bytes\<close>

text \<open>Runs of bytes, as offset and length: apart from each other, and one inside another.\<close>

definition apart :: "nat \<times> nat \<Rightarrow> nat \<times> nat \<Rightarrow> bool" where
  "apart r r' \<longleftrightarrow> fst r + snd r \<le> fst r' \<or> fst r' + snd r' \<le> fst r"

definition inside :: "nat \<times> nat \<Rightarrow> nat \<times> nat \<Rightarrow> bool" where
  "inside r r' \<longleftrightarrow> fst r' \<le> fst r \<and> fst r + snd r \<le> fst r' + snd r'"

lemma apart_inside: "apart r r' \<Longrightarrow> inside q r' \<Longrightarrow> apart r q"
  by (auto simp: apart_def inside_def)

lemma apart_later:
  assumes "q' = (0, 0) \<or> inside q' r \<or> d \<le> fst q'" "apart q r" "fst q + snd q \<le> d"
  shows "apart q q'"
  using assms by (auto simp: apart_def inside_def)

lemma apart_sym: "apart r r' = apart r' r"
  by (auto simp: apart_def)

lemma apart_zero [simp]: "apart r (0, 0)" "apart (0, 0) r"
  by (simp_all add: apart_def)

lemma inside_refl [simp]: "inside r r"
  by (simp add: inside_def)

end
