(* ===== verification/Bit_Utils.thy ===== *)
theory Bit_Utils
  imports Prelude
begin

unbundle bit_operations_syntax

section \<open>Bit and cast helpers (logstore/include/utils.h)\<close>

text \<open>
  \<open>bit_utils::highest_bit\<close> in both of its variants: the \<open>bsr\<close> instruction that the build
  selects (\<open>#define BSR\<close>) and the shift loop of the \<open>#else\<close> branch; and the
  \<open>cast_utils\<close> family that assembles an integer from the bytes of a buffer. A buffer is a
  list of bytes; reading a position it does not have is undefined (\<open>None\<close>).
\<close>

text \<open>
  \<^verbatim>\<open>bsr\<close> returns the position of the most significant set bit of its 32-bit source. For a
  zero source the destination register is undefined, hence \<open>None\<close>.
\<close>

definition highest_bit :: "nat \<Rightarrow> nat option" where
  "highest_bit x = List.find (\<lambda>i. bit (take_bit 32 x) i) (rev [0..<32])"

text \<open>The portable variant: \<^verbatim>\<open>while (x >>= 1) ++y;\<close>\<close>

function highest_bit_loop_from :: "nat \<Rightarrow> nat \<Rightarrow> nat" where
  "highest_bit_loop_from x y =
     (let x' = drop_bit 1 x in if x' = 0 then y else highest_bit_loop_from x' (Suc y))"
  by pat_completeness auto
termination
  by (relation "measure fst") (auto simp: drop_bit_eq_div)

declare highest_bit_loop_from.simps [simp del]

definition highest_bit_loop :: "nat \<Rightarrow> nat" where
  "highest_bit_loop x = highest_bit_loop_from (take_bit 32 x) 0"

text \<open>One byte of the buffer, widened to \<open>uint64_t\<close>.\<close>

definition buf_byte :: "u8 list \<Rightarrow> nat \<Rightarrow> u64 option" where
  "buf_byte buf i = (if i < length buf then Some (ucast (buf ! i)) else None)"

definition as_uint64_1 :: "u8 list \<Rightarrow> u64 option" where
  "as_uint64_1 buf = buf_byte buf 0"

definition as_uint64_2 :: "u8 list \<Rightarrow> u64 option" where
  "as_uint64_2 buf = do {
     b0 \<leftarrow> buf_byte buf 0; b1 \<leftarrow> buf_byte buf 1;
     Some (push_bit 8 b0 OR b1) }"

definition as_uint64_3 :: "u8 list \<Rightarrow> u64 option" where
  "as_uint64_3 buf = do {
     b0 \<leftarrow> buf_byte buf 0; b1 \<leftarrow> buf_byte buf 1; b2 \<leftarrow> buf_byte buf 2;
     Some (push_bit 16 b0 OR push_bit 8 b1 OR b2) }"

definition as_uint64_4 :: "u8 list \<Rightarrow> u64 option" where
  "as_uint64_4 buf = do {
     b0 \<leftarrow> buf_byte buf 0; b1 \<leftarrow> buf_byte buf 1; b2 \<leftarrow> buf_byte buf 2;
     b3 \<leftarrow> buf_byte buf 3;
     Some (push_bit 24 b0 OR push_bit 16 b1 OR push_bit 8 b2 OR b3) }"

definition as_uint64_5 :: "u8 list \<Rightarrow> u64 option" where
  "as_uint64_5 buf = do {
     b0 \<leftarrow> buf_byte buf 0; b1 \<leftarrow> buf_byte buf 1; b2 \<leftarrow> buf_byte buf 2;
     b3 \<leftarrow> buf_byte buf 3; b4 \<leftarrow> buf_byte buf 4;
     Some (push_bit 32 b0 OR push_bit 24 b1 OR push_bit 16 b2 OR push_bit 8 b3 OR b4) }"

definition as_uint64_6 :: "u8 list \<Rightarrow> u64 option" where
  "as_uint64_6 buf = do {
     b0 \<leftarrow> buf_byte buf 0; b1 \<leftarrow> buf_byte buf 1; b2 \<leftarrow> buf_byte buf 2;
     b3 \<leftarrow> buf_byte buf 3; b4 \<leftarrow> buf_byte buf 4; b5 \<leftarrow> buf_byte buf 5;
     Some (push_bit 40 b0 OR push_bit 32 b1 OR push_bit 24 b2 OR push_bit 16 b3
       OR push_bit 8 b4 OR b5) }"

definition as_uint64_7 :: "u8 list \<Rightarrow> u64 option" where
  "as_uint64_7 buf = do {
     b0 \<leftarrow> buf_byte buf 0; b1 \<leftarrow> buf_byte buf 1; b2 \<leftarrow> buf_byte buf 2;
     b3 \<leftarrow> buf_byte buf 3; b4 \<leftarrow> buf_byte buf 4; b5 \<leftarrow> buf_byte buf 5;
     b6 \<leftarrow> buf_byte buf 6;
     Some (push_bit 48 b0 OR push_bit 40 b1 OR push_bit 32 b2 OR push_bit 24 b3
       OR push_bit 16 b4 OR push_bit 8 b5 OR b6) }"

text \<open>The first byte is shifted by 54, as the source has it.\<close>

definition as_uint64_8 :: "u8 list \<Rightarrow> u64 option" where
  "as_uint64_8 buf = do {
     b0 \<leftarrow> buf_byte buf 0; b1 \<leftarrow> buf_byte buf 1; b2 \<leftarrow> buf_byte buf 2;
     b3 \<leftarrow> buf_byte buf 3; b4 \<leftarrow> buf_byte buf 4; b5 \<leftarrow> buf_byte buf 5;
     b6 \<leftarrow> buf_byte buf 6; b7 \<leftarrow> buf_byte buf 7;
     Some (push_bit 54 b0 OR push_bit 48 b1 OR push_bit 40 b2 OR push_bit 32 b3
       OR push_bit 24 b4 OR push_bit 16 b5 OR push_bit 8 b6 OR b7) }"

definition as_uint64 :: "u8 list \<Rightarrow> nat \<Rightarrow> u64 option" where
  "as_uint64 buf len =
     (if len = 1 then as_uint64_1 buf
      else if len = 2 then as_uint64_2 buf
      else if len = 3 then as_uint64_3 buf
      else if len = 4 then as_uint64_4 buf
      else if len = 5 then as_uint64_5 buf
      else if len = 6 then as_uint64_6 buf
      else if len = 7 then as_uint64_7 buf
      else if len = 8 then as_uint64_8 buf
      else Some 0)"

section \<open>The highest set bit\<close>

lemma find_rev_upt:
  "List.find P (rev [0..<n]) = Some k \<longleftrightarrow> k < n \<and> P k \<and> (\<forall>i. k < i \<and> i < n \<longrightarrow> \<not> P i)"
  by (induction n) (auto simp: less_Suc_eq)

lemma highest_bitI:
  assumes "2 ^ k \<le> x" "x < 2 ^ Suc k" "x < 2 ^ 32"
  shows "highest_bit x = Some k"
proof -
  have "k < 32"
    using assms by (meson le_less_trans nat_power_less_imp_less zero_less_numeral)
  then show ?thesis
    using assms bit_nat_top [OF assms(1,2)] bit_nat_above [OF assms(2)]
    by (auto simp: highest_bit_def find_rev_upt take_bit_nat_eq_self)
qed

lemma ex_top_bit:
  assumes "0 < (n::nat)"
  obtains k where "2 ^ k \<le> n" "n < 2 ^ Suc k"
  using assms ex_power_ivl1 [of 2 n] by auto

lemma highest_bit_None_iff: "highest_bit x = None \<longleftrightarrow> take_bit 32 x = 0"
proof
  assume "highest_bit x = None"
  then have none: "\<not> bit (take_bit 32 x) i" if "i < 32" for i
    using that by (auto simp: highest_bit_def find_None_iff)
  show "take_bit 32 x = 0"
    by (rule bit_eqI) (use none in \<open>auto simp: bit_simps\<close>)
qed (simp add: highest_bit_def find_None_iff)

lemma highest_bit_loop_from_eq:
  "2 ^ k \<le> x \<Longrightarrow> x < 2 ^ Suc k \<Longrightarrow> highest_bit_loop_from x y = y + k"
proof (induction k arbitrary: x y)
  case 0
  then have "x = 1" by simp
  then show ?case by (simp add: highest_bit_loop_from.simps drop_bit_Suc)
next
  case (Suc k)
  have ivl: "2 ^ k \<le> x div 2" "x div 2 < 2 ^ Suc k"
    using Suc.prems by auto
  then have "x div 2 \<noteq> 0" by (metis le_zero_eq power_not_zero zero_neq_numeral)
  then show ?case
    using Suc.IH [OF ivl, of "Suc y"]
    by (simp add: highest_bit_loop_from.simps [of x y] drop_bit_Suc Let_def)
qed

text \<open>
  For every 32-bit source that is not zero, the \<^verbatim>\<open>bsr\<close> variant of
  \<^verbatim>\<open>bit_utils::highest_bit\<close> and the portable shift loop return the same position; for a zero
  source the first is undefined (the loop would return 0).
\<close>

theorem highest_bit_variants_agree:
  "highest_bit x = (if take_bit 32 x = 0 then None else Some (highest_bit_loop x))"
proof (cases "take_bit 32 x = 0")
  case True
  then show ?thesis using highest_bit_None_iff by simp
next
  case False
  then obtain k where k: "2 ^ k \<le> take_bit 32 x" "take_bit 32 x < 2 ^ Suc k"
    using ex_top_bit by blast
  have "highest_bit x = highest_bit (take_bit 32 x)"
    by (simp add: highest_bit_def)
  also have "\<dots> = Some k"
    using k take_bit_less [of 32 x] by (intro highest_bitI)
  finally show ?thesis
    using False k by (simp add: highest_bit_loop_def highest_bit_loop_from_eq)
qed

section \<open>Big-endian casts\<close>

text \<open>What the casts are meant to compute: the bytes as the digits of a base-256 number.\<close>

definition be_value :: "u8 list \<Rightarrow> nat" where
  "be_value bs = foldl (\<lambda>acc b. acc * 256 + unat b) 0 bs"

text \<open>The same digits, gathered with the shift and or operations of the casts.\<close>

definition gather :: "u8 list \<Rightarrow> u64" where
  "gather bs = foldl (\<lambda>acc b. push_bit 8 acc OR ucast b) 0 bs"

lemma be_value_less: "be_value bs < 256 ^ length bs"
proof (induction bs rule: rev_induct)
  case Nil
  then show ?case by (simp add: be_value_def)
next
  case (snoc b bs)
  have "unat b < 256" using unsigned_less [of b] by simp
  moreover have "be_value bs + 1 \<le> 256 ^ length bs" using snoc by simp
  then have "(be_value bs + 1) * 256 \<le> 256 ^ length bs * 256" by (rule mult_le_mono1)
  ultimately show ?case by (simp add: be_value_def)
qed

lemma unat_shift_in_byte:
  fixes a :: u64 and b :: u8
  assumes "unat a < 2 ^ 56"
  shows "unat (push_bit 8 a OR ucast b) = unat a * 256 + unat b"
proof -
  have "push_bit 8 a AND ucast b = 0"
    by (rule bit_word_eqI) (auto simp: bit_simps dest: bit_imp_le_length)
  then have "push_bit 8 a OR ucast b = push_bit 8 a + ucast b"
    by (simp add: disjunctive_add_eq_or)
  moreover have "unat (push_bit 8 a) = unat a * 256"
    using assms by (simp add: push_bit_eq_mult unat_word_ariths mult.commute)
  moreover have small: "unat b < 256" using unsigned_less [of b] by simp
  moreover have "unat (ucast b :: u64) = unat b"
    using small by (simp add: unsigned_ucast_eq take_bit_nat_eq_self)
  ultimately show ?thesis
    using assms by (simp add: unat_word_ariths)
qed

lemma unat_gather: "length bs \<le> 8 \<Longrightarrow> unat (gather bs) = be_value bs"
proof (induction bs rule: rev_induct)
  case Nil
  then show ?case by (simp add: gather_def be_value_def)
next
  case (snoc b bs)
  then have "be_value bs < 256 ^ 7"
    using be_value_less [of bs] power_increasing [of "length bs" 7 "256::nat"] by simp
  then have "unat (gather bs) < 2 ^ 56"
    using snoc by simp
  then show ?case
    using snoc unat_shift_in_byte [of "gather bs" b] by (simp add: gather_def be_value_def)
qed

lemmas as_uint64_defs =
  as_uint64_1_def as_uint64_2_def as_uint64_3_def as_uint64_4_def as_uint64_5_def
  as_uint64_6_def as_uint64_7_def

lemma as_uint64_gather_digits:
  "as_uint64_1 (b0 # bs) = Some (gather [b0])"
  "as_uint64_2 (b0 # b1 # bs) = Some (gather [b0, b1])"
  "as_uint64_3 (b0 # b1 # b2 # bs) = Some (gather [b0, b1, b2])"
  "as_uint64_4 (b0 # b1 # b2 # b3 # bs) = Some (gather [b0, b1, b2, b3])"
  "as_uint64_5 (b0 # b1 # b2 # b3 # b4 # bs) = Some (gather [b0, b1, b2, b3, b4])"
  "as_uint64_6 (b0 # b1 # b2 # b3 # b4 # b5 # bs) = Some (gather [b0, b1, b2, b3, b4, b5])"
  "as_uint64_7 (b0 # b1 # b2 # b3 # b4 # b5 # b6 # bs) =
     Some (gather [b0, b1, b2, b3, b4, b5, b6])"
  by (simp_all add: as_uint64_defs buf_byte_def gather_def or.assoc)

lemma as_uint64_gather:
  assumes "1 \<le> len" "len \<le> 7" "len \<le> length buf"
  shows "as_uint64 buf len = Some (gather (take len buf))"
proof -
  consider "len = Suc 0" | "len = Suc (Suc 0)" | "len = Suc (Suc (Suc 0))"
    | "len = Suc (Suc (Suc (Suc 0)))" | "len = Suc (Suc (Suc (Suc (Suc 0))))"
    | "len = Suc (Suc (Suc (Suc (Suc (Suc 0)))))"
    | "len = Suc (Suc (Suc (Suc (Suc (Suc (Suc 0))))))"
    using assms(1,2) by linarith
  then show ?thesis
    using assms(3) by cases (auto simp: Suc_le_length_iff as_uint64_def as_uint64_gather_digits)
qed

text \<open>
  \<^verbatim>\<open>cast_utils::as_uint64\<close> of a length from 1 to 7 on a buffer that holds at least that
  many bytes returns the big-endian number those bytes spell.
\<close>

theorem as_uint64_big_endian:
  assumes "1 \<le> len" "len \<le> 7" "len \<le> length buf"
  shows "map_option unat (as_uint64 buf len) = Some (be_value (take len buf))"
  using assms by (simp add: as_uint64_gather unat_gather)

theorem as_uint64_big_endian_witness:
  "map_option unat (as_uint64 [192, 168, 0, 1, 9] 4) = Some 3232235521"
  using as_uint64_big_endian [of 4 "[192, 168, 0, 1, 9]"] by (simp add: be_value_def)

text \<open>
  The 8-byte cast is not a big-endian read: its first byte is shifted by 54 where the
  layout of the other casts asks for 56, so its bits land on those of the second byte. Two
  different buffers give the same token, and the value of the first differs from the
  number its bytes spell.
\<close>

theorem as_uint64_8_collides:
  "as_uint64 [1, 0, 0, 0, 0, 0, 0, 0] 8 = as_uint64 [0, 64, 0, 0, 0, 0, 0, 0] 8
   \<and> map_option unat (as_uint64 [1, 0, 0, 0, 0, 0, 0, 0] 8)
     \<noteq> Some (be_value [1, 0, 0, 0, 0, 0, 0, 0])"
  by (simp add: as_uint64_def as_uint64_8_def buf_byte_def be_value_def)

end
