(* ===== verification/Log_Interfaces.thy ===== *)
theory Log_Interfaces
  imports Prelude
begin

section \<open>The contracts between the layers of the log store\<close>

text \<open>
  Two interfaces, each a locale that its providers interpret on the model of the code:
  \<^item> \<open>array_log\<close>: an array of values addressed by index, as the appending logs and the offset
    log use it. Provided by the bucketed base (\<open>Monolog_Base\<close>) and by the linear base
    (\<open>Monolog_Linear\<close>).
  \<^item> \<open>append_log\<close>: a log that grows at its end, with the abstraction to the list of the values
    appended so far. Provided by both appending logs of \<open>Monolog\<close>, used by indexes and streams.
\<close>

text \<open>Values written one after the other from an index on, as the loop of \<open>push_back_range\<close> does.\<close>

fun set_seq :: "(nat \<Rightarrow> 'a \<Rightarrow> 'm \<Rightarrow> 'm option) \<Rightarrow> nat \<Rightarrow> 'a list \<Rightarrow> 'm \<Rightarrow> 'm option" where
  "set_seq set_at i [] m = Some m"
| "set_seq set_at i (v # vs) m = set_at i v m \<bind> set_seq set_at (Suc i) vs"

locale array_log =
  fixes valid :: "nat \<Rightarrow> bool"
    and set_at :: "nat \<Rightarrow> 'a \<Rightarrow> 'm \<Rightarrow> 'm option"
    and get_at :: "nat \<Rightarrow> 'm \<Rightarrow> 'a option"
  assumes set_at_total: "valid i \<Longrightarrow> \<exists>m'. set_at i v m = Some m'"
    and get_set_at: "valid i \<Longrightarrow> valid j \<Longrightarrow> set_at i v m = Some m' \<Longrightarrow>
      get_at j m' = (if j = i then Some v else get_at j m)"
begin

lemma get_set_same: "valid i \<Longrightarrow> set_at i v m = Some m' \<Longrightarrow> get_at i m' = Some v"
  by (simp add: get_set_at)

lemma get_set_other:
  "valid i \<Longrightarrow> valid j \<Longrightarrow> j \<noteq> i \<Longrightarrow> set_at i v m = Some m' \<Longrightarrow> get_at j m' = get_at j m"
  by (simp add: get_set_at)

lemma set_seq_total:
  "\<forall>j. i \<le> j \<and> j < i + length vs \<longrightarrow> valid j \<Longrightarrow> \<exists>m'. set_seq set_at i vs m = Some m'"
proof (induction vs arbitrary: i m)
  case (Cons v vs)
  then have "valid i" by simp
  then obtain m1 where "set_at i v m = Some m1" using set_at_total by blast
  then show ?case using Cons.IH [of "Suc i" m1] Cons.prems by simp
qed simp

lemma get_set_seq:
  assumes "\<forall>j. i \<le> j \<and> j < i + length vs \<longrightarrow> valid j" "valid j"
    and "set_seq set_at i vs m = Some m'"
  shows "get_at j m' = (if i \<le> j \<and> j < i + length vs then Some (vs ! (j - i)) else get_at j m)"
  using assms
proof (induction vs arbitrary: i m)
  case (Cons v vs)
  obtain m1 where m1: "set_at i v m = Some m1" "set_seq set_at (Suc i) vs m1 = Some m'"
    using Cons.prems(3) by (auto simp: bind_Some_iff)
  have "get_at j m' = (if Suc i \<le> j \<and> j < Suc i + length vs then Some (vs ! (j - Suc i))
      else get_at j m1)"
    using Cons.IH [OF _ Cons.prems(2) m1(2)] Cons.prems(1) by simp
  moreover have "get_at j m1 = (if j = i then Some v else get_at j m)"
    using Cons.prems m1 by (intro get_set_at) auto
  ultimately show ?case
    by (auto simp: nth_Cons' Suc_le_eq)
qed auto

end

text \<open>
  An appending log of values: \<open>contents\<close> is the list it stands for. The log accepts a value
  while it has room (\<open>room\<close> is about the length, the buckets being finite).
\<close>

locale append_log =
  fixes invar :: "'m \<Rightarrow> bool"
    and contents :: "'m \<Rightarrow> 'a list"
    and room :: "nat \<Rightarrow> bool"
    and fresh :: 'm
    and push :: "'a \<Rightarrow> 'm \<Rightarrow> ('m \<times> nat) option"
    and at_pos :: "nat \<Rightarrow> 'm \<Rightarrow> 'a option"
    and size_of :: "'m \<Rightarrow> nat"
  assumes invar_fresh: "invar fresh"
    and contents_fresh: "contents fresh = []"
    and push_ok: "invar m \<Longrightarrow> room (length (contents m)) \<Longrightarrow>
      \<exists>m'. push v m = Some (m', length (contents m)) \<and> invar m' \<and> contents m' = contents m @ [v]"
    and at_contents: "invar m \<Longrightarrow> i < length (contents m) \<Longrightarrow> at_pos i m = Some (contents m ! i)"
    and size_contents: "invar m \<Longrightarrow> size_of m = length (contents m)"
begin

text \<open>A prefix that was readable stays as it was: logs are monotonic.\<close>

lemma push_monotonic:
  assumes "invar m" "room (length (contents m))" "push v m = Some (m', k)" "i < size_of m"
  shows "at_pos i m' = at_pos i m"
proof -
  obtain m1 where "push v m = Some (m1, length (contents m))" "invar m1"
    "contents m1 = contents m @ [v]"
    using push_ok assms(1,2) by blast
  then show ?thesis
    using assms at_contents [of m i] at_contents [of m' i]
    by (simp add: size_contents nth_append)
qed

lemma push_then_at:
  assumes "invar m" "room (length (contents m))" "push v m = Some (m', k)"
  shows "k = size_of m" "at_pos k m' = Some v" "size_of m' = Suc (size_of m)"
proof -
  obtain m1 where "push v m = Some (m1, length (contents m))" "invar m1"
    "contents m1 = contents m @ [v]"
    using push_ok assms(1,2) by blast
  then show "k = size_of m" "at_pos k m' = Some v" "size_of m' = Suc (size_of m)"
    using assms at_contents [of m' k] by (simp_all add: size_contents)
qed

end

end
