(* ===== verification/Monolog_Base.thy ===== *)
theory Monolog_Base
  imports Bit_Utils Log_Interfaces
begin

unbundle bit_operations_syntax

section \<open>The bucketed monotonic log (logstore/include/monolog.h, class __monolog_base)\<close>

text \<open>
  A log of unbounded growth kept in \<open>NBUCKETS\<close> buckets of doubling size: bucket \<open>b\<close> holds
  \<open>2 ^ (b + 4)\<close> values and the position of index \<open>idx\<close> is found from the highest set bit of
  \<open>idx + 16\<close>. The template parameter \<open>NBUCKETS\<close> is the argument \<open>nb\<close>, \<open>sizeof(T)\<close> the
  argument \<open>sz\<close> where the code depends on it. The array of atomic bucket references is a
  partial map: a bucket that is not in it is a null reference.

  The allocation of a bucket is a compare-and-swap against null, so here, as one step of one
  thread, it installs a fresh bucket exactly when the reference is null.
\<close>

definition FBS :: nat where "FBS = 16"
definition FBS_HIBIT :: nat where "FBS_HIBIT = 4"

record 'a monolog_base =
  buckets :: "'a bucket_array"

definition monolog_base_init :: "'a bucket_array" where
  "monolog_base_init = [0 \<mapsto> Map.empty]"

text \<open>
  \<open>1 << hibit\<close> is an \<open>int\<close>: shifting into the sign bit and widening to \<open>size_t\<close> sets the upper
  half of the word. \<open>hibit - FBS_HIBIT\<close> is an unsigned subtraction.
\<close>

definition shl_int :: "nat \<Rightarrow> nat" where
  "shl_int h = (if h < 31 then 2 ^ h else 2 ^ 64 - 2 ^ 31)"

definition bucket_pos :: "nat \<Rightarrow> (nat \<times> nat) option" where
  "bucket_pos idx =
     (let pos = take_bit 64 (idx + FBS) in do {
        hibit \<leftarrow> highest_bit pos;
        Some (take_bit 64 (hibit + (2 ^ 64 - FBS_HIBIT)), pos XOR shl_int hibit) })"

definition bucket_size :: "nat \<Rightarrow> nat" where
  "bucket_size b = 2 ^ (b + FBS_HIBIT)"

text \<open>\<open>buckets[b].load()\<close>: an index outside the array is undefined.\<close>

definition load_bucket :: "nat \<Rightarrow> nat \<Rightarrow> ('a, 'm) monolog_base_scheme \<Rightarrow> 'a cells option option" where
  "load_bucket nb b m = (if b < nb then Some (buckets m b) else None)"

text \<open>
  The size computation \<open>1U << (bucket_idx + FBS_HIBIT)\<close> is undefined from 32 on. Returns the
  new state and the size.
\<close>

definition try_allocate_bucket ::
  "nat \<Rightarrow> nat \<Rightarrow> ('a, 'm) monolog_base_scheme \<Rightarrow> (('a, 'm) monolog_base_scheme \<times> nat) option" where
  "try_allocate_bucket nb b m =
     (if b + FBS_HIBIT < 32 \<and> b < nb
      then Some (case buckets m b of
                   None \<Rightarrow> m\<lparr>buckets := (buckets m)(b \<mapsto> Map.empty)\<rparr>
                 | Some _ \<Rightarrow> m, bucket_size b)
      else None)"

definition ensure_bucket ::
  "nat \<Rightarrow> nat \<Rightarrow> ('a, 'm) monolog_base_scheme \<Rightarrow> ('a, 'm) monolog_base_scheme option" where
  "ensure_bucket nb b m = do {
     ref \<leftarrow> load_bucket nb b m;
     (case ref of None \<Rightarrow> map_option fst (try_allocate_bucket nb b m) | Some _ \<Rightarrow> Some m) }"

function alloc_range ::
  "nat \<Rightarrow> nat \<Rightarrow> nat \<Rightarrow> ('a, 'm) monolog_base_scheme \<Rightarrow> ('a, 'm) monolog_base_scheme option" where
  "alloc_range nb i j m =
     (if i \<le> j then ensure_bucket nb i m \<bind> alloc_range nb (Suc i) j else Some m)"
  by pat_completeness auto
termination
  by (relation "measure (\<lambda>(nb, i, j, m). Suc j - i)") auto

declare alloc_range.simps [simp del]

definition ensure_alloc ::
  "nat \<Rightarrow> nat \<Rightarrow> nat \<Rightarrow> ('a, 'm) monolog_base_scheme \<Rightarrow> ('a, 'm) monolog_base_scheme option" where
  "ensure_alloc nb start_idx end_idx m = do {
     hibit1 \<leftarrow> highest_bit (take_bit 64 (start_idx + FBS));
     hibit2 \<leftarrow> highest_bit (take_bit 64 (end_idx + FBS));
     alloc_range nb (take_bit 64 (hibit1 + (2 ^ 64 - FBS_HIBIT)))
       (take_bit 64 (hibit2 + (2 ^ 64 - FBS_HIBIT))) m }"

text \<open>Dereferencing the bucket reference, for a write and for a read.\<close>

definition store_cell ::
  "nat \<Rightarrow> nat \<Rightarrow> nat \<Rightarrow> 'a \<Rightarrow> ('a, 'm) monolog_base_scheme \<Rightarrow> ('a, 'm) monolog_base_scheme option" where
  "store_cell nb b off v m = do {
     ref \<leftarrow> load_bucket nb b m;
     c \<leftarrow> ref;
     (if off < bucket_size b then Some (m\<lparr>buckets := (buckets m)(b \<mapsto> c(off \<mapsto> v))\<rparr>) else None) }"

definition load_cell :: "nat \<Rightarrow> nat \<Rightarrow> nat \<Rightarrow> ('a, 'm) monolog_base_scheme \<Rightarrow> 'a option" where
  "load_cell nb b off m = do {
     ref \<leftarrow> load_bucket nb b m;
     c \<leftarrow> ref;
     (if off < bucket_size b then c off else None) }"

definition monolog_set ::
  "nat \<Rightarrow> nat \<Rightarrow> 'a \<Rightarrow> ('a, 'm) monolog_base_scheme \<Rightarrow> ('a, 'm) monolog_base_scheme option" where
  "monolog_set nb idx val m = do {
     (b, off) \<leftarrow> bucket_pos idx;
     m' \<leftarrow> ensure_bucket nb b m;
     store_cell nb b off val m' }"

definition monolog_set_unsafe ::
  "nat \<Rightarrow> nat \<Rightarrow> 'a \<Rightarrow> ('a, 'm) monolog_base_scheme \<Rightarrow> ('a, 'm) monolog_base_scheme option" where
  "monolog_set_unsafe nb idx val m = do {
     (b, off) \<leftarrow> bucket_pos idx;
     store_cell nb b off val m }"

definition monolog_get :: "nat \<Rightarrow> nat \<Rightarrow> ('a, 'm) monolog_base_scheme \<Rightarrow> 'a option" where
  "monolog_get nb idx m = do {
     (b, off) \<leftarrow> bucket_pos idx;
     load_cell nb b off m }"

text \<open>\<open>operator[]\<close> allocates and returns a reference: the location of the cell.\<close>

definition monolog_ref ::
  "nat \<Rightarrow> nat \<Rightarrow> ('a, 'm) monolog_base_scheme \<Rightarrow> (('a, 'm) monolog_base_scheme \<times> nat \<times> nat) option" where
  "monolog_ref nb idx m = do {
     (b, off) \<leftarrow> bucket_pos idx;
     m' \<leftarrow> ensure_bucket nb b m;
     Some (m', b, off) }"

definition storage_size ::
  "nat \<Rightarrow> nat \<Rightarrow> ('a, 'm) monolog_base_scheme \<Rightarrow> nat" where
  "storage_size nb sz m =
     nb * 8 + (\<Sum>i\<leftarrow>[0..<nb]. if buckets m i \<noteq> None then bucket_size i * sz else 0)"

section \<open>Contiguous regions\<close>

text \<open>
  \<open>memcpy\<close> into a bucket from the caller's buffer \<open>data\<close>, starting at its element \<open>src\<close>:
  reading past the buffer or writing past the bucket is undefined.
\<close>

definition copy_in ::
  "nat \<Rightarrow> nat \<Rightarrow> nat \<Rightarrow> 'a list \<Rightarrow> nat \<Rightarrow> nat \<Rightarrow> ('a, 'm) monolog_base_scheme
    \<Rightarrow> ('a, 'm) monolog_base_scheme option" where
  "copy_in nb b off data src n m = do {
     ref \<leftarrow> load_bucket nb b m;
     c \<leftarrow> ref;
     (if src + n \<le> length data \<and> off + n \<le> bucket_size b
      then Some (m\<lparr>buckets := (buckets m)(b \<mapsto> (\<lambda>i. if off \<le> i \<and> i < off + n
                  then Some (data ! (src + (i - off))) else c i))\<rparr>)
      else None) }"

text \<open>
  The copying loop of \<open>set(idx, data, len)\<close> (\<open>alloc = True\<close>) and of
  \<open>set_unsafe(idx, data, len)\<close> (\<open>alloc = False\<close>). \<open>data_off\<close> is advanced before the copy and
  counts bytes, while \<open>data + data_off\<close> counts elements.
\<close>

function set_range_loop ::
  "bool \<Rightarrow> nat \<Rightarrow> nat \<Rightarrow> 'a list \<Rightarrow> nat \<Rightarrow> nat \<Rightarrow> nat \<Rightarrow> nat \<Rightarrow> ('a, 'm) monolog_base_scheme
    \<Rightarrow> ('a, 'm) monolog_base_scheme option" where
  "set_range_loop alloc nb sz data b off remaining data_off m =
     (if remaining = 0 then Some m
      else if nb \<le> b then None
      else do {
        m1 \<leftarrow> (if alloc then ensure_bucket nb b m else Some m);
        (let bucket_remaining = (bucket_size b - off) * sz;
             bytes = min bucket_remaining remaining;
             data_off' = data_off + bytes
         in do {
           m2 \<leftarrow> copy_in nb b off data data_off' (bytes div sz) m1;
           set_range_loop alloc nb sz data (Suc b) 0 (remaining - bytes) data_off' m2 }) })"
  by pat_completeness auto
termination
  by (relation "measure (\<lambda>(alloc, nb, sz, data, b, _). nb - b)") auto

declare set_range_loop.simps [simp del]

definition monolog_set_range ::
  "nat \<Rightarrow> nat \<Rightarrow> nat \<Rightarrow> 'a list \<Rightarrow> nat \<Rightarrow> ('a, 'm) monolog_base_scheme
    \<Rightarrow> ('a, 'm) monolog_base_scheme option" where
  "monolog_set_range nb sz idx data len m = do {
     (b, off) \<leftarrow> bucket_pos idx;
     set_range_loop True nb sz data b off (len * sz) 0 m }"

definition monolog_set_unsafe_range ::
  "nat \<Rightarrow> nat \<Rightarrow> nat \<Rightarrow> 'a list \<Rightarrow> nat \<Rightarrow> ('a, 'm) monolog_base_scheme
    \<Rightarrow> ('a, 'm) monolog_base_scheme option" where
  "monolog_set_unsafe_range nb sz idx data len m = do {
     (b, off) \<leftarrow> bucket_pos idx;
     set_range_loop False nb sz data b off (len * sz) 0 m }"

text \<open>
  \<open>get(data, idx, len)\<close> copies out of the log into the caller's buffer of \<open>cap\<close> elements; the
  buffer is a partial map, initially indeterminate.
\<close>

definition copy_out ::
  "nat \<Rightarrow> nat \<Rightarrow> nat \<Rightarrow> nat \<Rightarrow> 'a cells \<Rightarrow> nat \<Rightarrow> nat \<Rightarrow> ('a, 'm) monolog_base_scheme
    \<Rightarrow> 'a cells option" where
  "copy_out nb b off cap buf into n m = do {
     ref \<leftarrow> load_bucket nb b m;
     c \<leftarrow> ref;
     (if into + n \<le> cap \<and> off + n \<le> bucket_size b
      then Some (\<lambda>i. if into \<le> i \<and> i < into + n then c (off + (i - into)) else buf i)
      else None) }"

function get_range_loop ::
  "nat \<Rightarrow> nat \<Rightarrow> nat \<Rightarrow> nat \<Rightarrow> nat \<Rightarrow> nat \<Rightarrow> nat \<Rightarrow> 'a cells \<Rightarrow> ('a, 'm) monolog_base_scheme
    \<Rightarrow> 'a cells option" where
  "get_range_loop nb sz cap b off remaining data_off buf m =
     (if remaining = 0 then Some buf
      else if nb \<le> b then None
      else (let bucket_remaining = (bucket_size b - off) * sz;
                bytes = min bucket_remaining remaining;
                data_off' = data_off + bytes
            in do {
              buf' \<leftarrow> copy_out nb b off cap buf data_off' (bytes div sz) m;
              get_range_loop nb sz cap (Suc b) 0 (remaining - bytes) data_off' buf' m }))"
  by pat_completeness auto
termination
  by (relation "measure (\<lambda>(nb, sz, cap, b, _). nb - b)") auto

declare get_range_loop.simps [simp del]

definition monolog_get_range ::
  "nat \<Rightarrow> nat \<Rightarrow> nat \<Rightarrow> nat \<Rightarrow> nat \<Rightarrow> ('a, 'm) monolog_base_scheme \<Rightarrow> 'a cells option" where
  "monolog_get_range nb sz cap idx len m = do {
     (b, off) \<leftarrow> bucket_pos idx;
     get_range_loop nb sz cap b off (len * sz) 0 Map.empty m }"

section \<open>Addressing\<close>

text \<open>The indexes a log of \<open>nb\<close> buckets can hold.\<close>

definition valid_index :: "nat \<Rightarrow> nat \<Rightarrow> bool" where
  "valid_index nb idx \<longleftrightarrow> idx + FBS < 2 ^ 31 \<and> idx + FBS < 2 ^ (nb + FBS_HIBIT)"

lemma bucket_posE:
  assumes "idx + FBS < 2 ^ 31"
  obtains k where "4 \<le> k" "k < 31" "2 ^ k \<le> idx + FBS" "idx + FBS < 2 ^ Suc k"
    "bucket_pos idx = Some (k - FBS_HIBIT, idx + FBS - 2 ^ k)"
proof -
  have "0 < idx + FBS" by (simp add: FBS_def)
  then obtain k where k: "2 ^ k \<le> idx + FBS" "idx + FBS < 2 ^ Suc k"
    by (rule ex_top_bit)
  have "(2::nat) ^ 4 < 2 ^ Suc k"
    using k(2) by (simp add: FBS_def)
  then have lo: "4 \<le> k"
    by (meson nat_power_less_imp_less not_less_eq not_less zero_less_numeral)
  have "(2::nat) ^ k < 2 ^ 31" using k(1) assms by linarith
  then have hi: "k < 31" by (meson nat_power_less_imp_less zero_less_numeral)
  have pos: "take_bit 64 (idx + FBS) = idx + FBS"
    using assms by (intro take_bit_nat_eq_self) simp
  have "highest_bit (idx + FBS) = Some k"
    using k assms by (intro highest_bitI) auto
  moreover have "take_bit 64 (k + (2 ^ 64 - FBS_HIBIT)) = k - FBS_HIBIT"
  proof -
    obtain j where j: "k = j + 4" using lo by (metis le_add_diff_inverse2)
    then have "k + (2 ^ 64 - FBS_HIBIT) = j + 2 ^ 64" by (simp add: FBS_HIBIT_def)
    then show ?thesis
      using hi by (simp only: take_bit_eq_mod mod_add_self2) (simp add: j FBS_HIBIT_def)
  qed
  moreover have "(idx + FBS) XOR shl_int k = idx + FBS - 2 ^ k"
    using xor_top_bit [OF k] hi by (simp add: shl_int_def)
  ultimately have "bucket_pos idx = Some (k - FBS_HIBIT, idx + FBS - 2 ^ k)"
    by (simp add: bucket_pos_def pos Let_def)
  then show ?thesis using that lo hi k by blast
qed

lemma valid_pos:
  assumes "valid_index nb idx"
  obtains b off where "bucket_pos idx = Some (b, off)" "b < nb" "b + FBS_HIBIT < 31"
    "off < bucket_size b" "idx + FBS = bucket_size b + off"
proof -
  obtain k where k: "4 \<le> k" "k < 31" "2 ^ k \<le> idx + FBS" "idx + FBS < 2 ^ Suc k"
    "bucket_pos idx = Some (k - FBS_HIBIT, idx + FBS - 2 ^ k)"
    using assms bucket_posE by (auto simp: valid_index_def)
  have "(2::nat) ^ k < 2 ^ (nb + FBS_HIBIT)"
    using k(3) assms unfolding valid_index_def by linarith
  then have "k < nb + FBS_HIBIT" by (meson nat_power_less_imp_less zero_less_numeral)
  then have "k - FBS_HIBIT < nb" using k(1) by (simp add: FBS_HIBIT_def)
  moreover have "bucket_size (k - FBS_HIBIT) = 2 ^ k"
    using k(1) by (simp add: bucket_size_def FBS_HIBIT_def)
  ultimately show ?thesis
    using k by (intro that [OF k(5)]) (auto simp: FBS_HIBIT_def)
qed

lemma bucket_pos_inj:
  assumes "valid_index nb i" "valid_index nb j" "bucket_pos i = bucket_pos j"
  shows "i = j"
  using assms valid_pos [OF assms(1)] valid_pos [OF assms(2)]
  by (metis Pair_inject add_right_cancel option.inject)

section \<open>Reads after writes\<close>

lemma monolog_set_unfold:
  assumes "valid_index nb idx"
  obtains b off c where "bucket_pos idx = Some (b, off)" "b < nb" "off < bucket_size b"
    "c = (case buckets m b of None \<Rightarrow> Map.empty | Some c \<Rightarrow> c)"
    "monolog_set nb idx v m = Some (m\<lparr>buckets := (buckets m)(b \<mapsto> c(off \<mapsto> v))\<rparr>)"
proof -
  obtain b off where pos: "bucket_pos idx = Some (b, off)" "b < nb" "b + FBS_HIBIT < 31"
    "off < bucket_size b"
    using valid_pos [OF assms] by metis
  then show ?thesis
    by (intro that [OF pos(1,2,4) refl])
      (auto simp: monolog_set_def ensure_bucket_def try_allocate_bucket_def load_bucket_def
        store_cell_def split: option.split)
qed

lemma monolog_get_set:
  assumes "valid_index nb i" "valid_index nb j" "monolog_set nb i v m = Some m'"
  shows "monolog_get nb j m' = (if j = i then Some v else monolog_get nb j m)"
proof -
  obtain b off c where i: "bucket_pos i = Some (b, off)" "b < nb" "off < bucket_size b"
    "c = (case buckets m b of None \<Rightarrow> Map.empty | Some c \<Rightarrow> c)"
    "m' = m\<lparr>buckets := (buckets m)(b \<mapsto> c(off \<mapsto> v))\<rparr>"
    using monolog_set_unfold [OF assms(1), of m v] assms(3) by (auto split: option.splits)
  obtain b' off' where j: "bucket_pos j = Some (b', off')" "b' < nb" "off' < bucket_size b'"
    using valid_pos [OF assms(2)] by metis
  have "j = i \<longleftrightarrow> b' = b \<and> off' = off"
    using bucket_pos_inj [OF assms(1,2)] i(1) j(1) by auto
  then show ?thesis
    using i j by (auto simp: monolog_get_def load_cell_def load_bucket_def split: option.split)
qed

lemma monolog_set_total: "valid_index nb i \<Longrightarrow> \<exists>m'. monolog_set nb i v m = Some m'"
  by (meson monolog_set_unfold)

text \<open>A write touches the buckets only, so it keeps the tails of the logs built on top.\<close>

lemma monolog_set_more:
  "valid_index nb i \<Longrightarrow> monolog_set nb i v m = Some m' \<Longrightarrow> monolog_base.more m' = monolog_base.more m"
  by (erule monolog_set_unfold [of nb i m v]) auto

interpretation base_array: array_log "valid_index nb" "monolog_set nb" "monolog_get nb" for nb
  by unfold_locales (simp_all add: monolog_set_total monolog_get_set)

section \<open>The bounds of the addressing\<close>

lemma drop_bit_32_small: "h < 32 \<Longrightarrow> drop_bit 32 ((2::nat) ^ h) = 0"
  using power_strict_increasing [of h 32 "2::nat"] by (simp only: drop_bit_eq_div div_less)

lemma xor_high_part:
  assumes "drop_bit 32 (a XOR b) \<noteq> (0::nat)"
  shows "2 ^ 32 \<le> a XOR b"
  using assms by (metis drop_bit_eq_div div_less not_less)

lemma shl_int_escapes:
  assumes "2 ^ 31 \<le> pos" "pos < 2 ^ 63" "h < 32" "pos < 2 ^ 32 \<longrightarrow> h = 31"
  shows "2 ^ 32 \<le> pos XOR shl_int h"
proof (rule xor_high_part)
  show "drop_bit 32 (pos XOR shl_int h) \<noteq> 0"
  proof (cases "h < 31")
    case True
    then have "2 ^ 32 \<le> pos" using assms(4) by (cases "pos < 2 ^ 32") auto
    then have "drop_bit 32 pos \<noteq> 0" by (simp add: drop_bit_eq_div div_greater_zero_iff)
    then show ?thesis using True by (simp add: shl_int_def drop_bit_32_small)
  next
    case False
    have "\<not> bit pos 63" using assms(2) by (simp add: bit_iff_odd)
    moreover have "bit (shl_int h) 63" using False by (simp add: shl_int_def bit_iff_odd)
    ultimately have "bit (drop_bit 32 (pos XOR shl_int h)) 31" by (simp add: bit_simps)
    then show ?thesis by (metis bit_0_eq bot_apply bot_bool_def)
  qed
qed

lemma highest_bit_SomeD:
  assumes "highest_bit x = Some h"
  shows "h < 32" "2 ^ h \<le> take_bit 32 x" "take_bit 32 x < 2 ^ Suc h"
proof -
  have "take_bit 32 x \<noteq> 0" using assms by (auto simp flip: highest_bit_None_iff)
  then have "0 < take_bit 32 x" by simp
  then obtain k where k: "2 ^ k \<le> take_bit 32 x" "take_bit 32 x < 2 ^ Suc k"
    by (rule ex_top_bit)
  have "highest_bit (take_bit 32 x) = Some k"
    using k take_bit_less [of 32 x] by (intro highest_bitI)
  then have "k = h" using assms by (simp add: highest_bit_def)
  then show "2 ^ h \<le> take_bit 32 x" "take_bit 32 x < 2 ^ Suc h" using k by simp_all
  show "h < 32" using assms by (simp add: highest_bit_def find_rev_upt)
qed

lemma invalid_index_escapes:
  assumes "idx + FBS < 2 ^ 63" "nb \<le> 32" "\<not> valid_index nb idx"
    and "bucket_pos idx = Some (b, off)" "b < nb"
  shows "bucket_size b \<le> off"
proof (cases "idx + FBS < 2 ^ 31")
  case True
  then obtain k where k: "4 \<le> k" "2 ^ k \<le> idx + FBS" "idx + FBS < 2 ^ Suc k"
    "bucket_pos idx = Some (k - FBS_HIBIT, idx + FBS - 2 ^ k)"
    by (rule bucket_posE)
  then have "Suc k \<le> nb + FBS_HIBIT"
    using assms(4,5) by (auto simp: FBS_HIBIT_def)
  then have "(2::nat) ^ Suc k \<le> 2 ^ (nb + FBS_HIBIT)"
    by (intro power_increasing) simp_all
  then have "valid_index nb idx"
    using True k(3) by (auto simp: valid_index_def)
  then show ?thesis using assms(3) by simp
next
  case False
  let ?pos = "idx + FBS"
  have pos: "take_bit 64 ?pos = ?pos"
    using assms(1) by (intro take_bit_nat_eq_self) simp
  obtain h where h: "highest_bit ?pos = Some h" "off = ?pos XOR shl_int h"
    "b = take_bit 64 (h + (2 ^ 64 - FBS_HIBIT))"
    using assms(4) by (auto simp: bucket_pos_def pos Let_def bind_Some_iff)
  note hb = highest_bit_SomeD [OF h(1)]
  have "h = 31" if "?pos < 2 ^ 32"
    using that False hb two_power_interval_unique [of h ?pos 31]
    by (simp add: take_bit_nat_eq_self)
  then have off: "2 ^ 32 \<le> off"
    unfolding h(2) using False assms(1) hb(1) by (intro shl_int_escapes impI) (auto simp: not_less)
  have "b + FBS_HIBIT \<le> 32"
  proof (cases "FBS_HIBIT \<le> h")
    case True
    then have "h + (2 ^ 64 - FBS_HIBIT) = (h - FBS_HIBIT) + 2 ^ 64"
      by (simp add: FBS_HIBIT_def)
    then have "b = take_bit 64 (h - FBS_HIBIT)"
      by (simp only: h(3) take_bit_eq_mod mod_add_self2)
    then show ?thesis
      using hb(1) True take_bit_le [of 64 "h - FBS_HIBIT"] by linarith
  next
    case False
    then have "b = h + (2 ^ 64 - FBS_HIBIT)"
      unfolding h(3) by (intro take_bit_nat_eq_self) (simp add: FBS_HIBIT_def)
    then show ?thesis using assms(2,5) by (simp add: FBS_HIBIT_def)
  qed
  then have "bucket_size b \<le> 2 ^ 32"
    unfolding bucket_size_def by (intro power_increasing) simp_all
  then show ?thesis using off by linarith
qed

text \<open>
  \<^verbatim>\<open>__monolog_base::set\<close> is defined exactly on the indexes whose position fits the
  buckets: for any index below \<open>2 ^ 63 - 16\<close> it completes if and only if
  \<open>idx + 16 < 2 ^ (NBUCKETS + 4)\<close> and \<open>idx + 16 < 2 ^ 31\<close>. Every other index, the ones that the 32-bit
  \<^verbatim>\<open>highest_bit\<close> argument truncates included, leads outside the bucket array or outside
  its bucket.
\<close>

theorem monolog_set_defined_iff:
  assumes "idx + FBS < 2 ^ 63" "nb \<le> 32"
  shows "(\<exists>m'. monolog_set nb idx v m = Some m') \<longleftrightarrow> valid_index nb idx"
proof
  assume "\<exists>m'. monolog_set nb idx v m = Some m'"
  then obtain b off where "bucket_pos idx = Some (b, off)" "b < nb" "off < bucket_size b"
    by (auto simp: monolog_set_def bind_Some_iff store_cell_def load_bucket_def split: if_splits)
  then show "valid_index nb idx"
    using invalid_index_escapes [OF assms, of b off] by (meson not_le)
qed (rule monolog_set_total)

theorem monolog_set_defined_iff_witness:
  "monolog_set 24 268435440 (7::nat) \<lparr>buckets = monolog_base_init\<rparr> = None"
  using monolog_set_defined_iff [of 268435440 24 7 "\<lparr>buckets = monolog_base_init\<rparr>"]
  by (simp add: valid_index_def FBS_def FBS_HIBIT_def)

section \<open>Memory shape\<close>

text \<open>
  Every bucket lies inside the array, its size is computable, and its values lie inside the
  bucket: what the destructor and the readers rely on.
\<close>

definition monolog_wf :: "nat \<Rightarrow> ('a, 'm) monolog_base_scheme \<Rightarrow> bool" where
  "monolog_wf nb m \<longleftrightarrow> (\<forall>b c. buckets m b = Some c \<longrightarrow>
     b < nb \<and> b + FBS_HIBIT < 32 \<and> (\<forall>i. c i \<noteq> None \<longrightarrow> i < bucket_size b))"

lemma wf_try_allocate_bucket:
  "monolog_wf nb m \<Longrightarrow> try_allocate_bucket nb b m = Some (m', n) \<Longrightarrow> monolog_wf nb m'"
  by (auto simp: monolog_wf_def try_allocate_bucket_def split: if_splits option.splits)

lemma wf_ensure_bucket: "monolog_wf nb m \<Longrightarrow> ensure_bucket nb b m = Some m' \<Longrightarrow> monolog_wf nb m'"
  by (auto simp: ensure_bucket_def bind_Some_iff split: option.splits
      intro: wf_try_allocate_bucket)

lemma wf_alloc_range: "monolog_wf nb m \<Longrightarrow> alloc_range nb i j m = Some m' \<Longrightarrow> monolog_wf nb m'"
proof (induction nb i j m rule: alloc_range.induct)
  case (1 nb i j m)
  then show ?case
    by (auto simp: alloc_range.simps [of nb i j m] bind_Some_iff split: if_splits
        dest: wf_ensure_bucket)
qed

lemma wf_store_cell: "monolog_wf nb m \<Longrightarrow> store_cell nb b off v m = Some m' \<Longrightarrow> monolog_wf nb m'"
  by (fastforce simp: monolog_wf_def store_cell_def load_bucket_def bind_Some_iff split: if_splits)

lemma wf_copy_in:
  assumes "monolog_wf nb m" "copy_in nb b off data src n m = Some m'"
  shows "monolog_wf nb m'"
proof -
  obtain c where c: "buckets m b = Some c" "b < nb" "off + n \<le> bucket_size b"
    "m' = m\<lparr>buckets := (buckets m)(b \<mapsto> (\<lambda>i. if off \<le> i \<and> i < off + n
       then Some (data ! (src + (i - off))) else c i))\<rparr>"
    using assms(2) by (auto simp: copy_in_def load_bucket_def bind_Some_iff split: if_splits)
  then show ?thesis
    using assms(1) by (auto simp: monolog_wf_def split: if_splits)
qed

lemma wf_set_range_loop:
  "monolog_wf nb m \<Longrightarrow> set_range_loop alloc nb sz data b off remaining data_off m = Some m' \<Longrightarrow>
     monolog_wf nb m'"
proof (induction alloc nb sz data b off remaining data_off m rule: set_range_loop.induct)
  case (1 alloc nb sz data b off remaining data_off m)
  show ?case
  proof (cases "remaining = 0 \<or> nb \<le> b")
    case True
    then show ?thesis
      using "1.prems" by (auto simp: set_range_loop.simps [of alloc nb sz data b] split: if_splits)
  next
    case False
    let ?n = "min ((bucket_size b - off) * sz) remaining"
    obtain m1 m2 where
      m1: "(if alloc then ensure_bucket nb b m else Some m) = Some m1" and
      m2: "copy_in nb b off data (data_off + ?n) (?n div sz) m1 = Some m2" and
      rest: "set_range_loop alloc nb sz data (Suc b) 0 (remaining - ?n) (data_off + ?n) m2 = Some m'"
      using "1.prems"(2) False
      by (auto simp: set_range_loop.simps [of alloc nb sz data b] Let_def bind_Some_iff)
    have "monolog_wf nb m1" using m1 "1.prems"(1) by (auto split: if_splits dest: wf_ensure_bucket)
    then have "monolog_wf nb m2" using m2 by (rule wf_copy_in)
    then show ?thesis using "1.IH" [OF _ _ m1 refl refl refl m2] False rest by simp
  qed
qed

lemma wf_monolog_base_init: "0 < nb \<Longrightarrow> monolog_wf nb \<lparr>buckets = monolog_base_init\<rparr>"
  by (simp add: monolog_base_init_def monolog_wf_def FBS_HIBIT_def)

lemmas wf_steps = wf_alloc_range wf_ensure_bucket wf_store_cell wf_set_range_loop

text \<open>
  Every operation of \<^verbatim>\<open>__monolog_base\<close> keeps the shape of the log: buckets stay inside
  the bucket array and values inside their buckets, from the freshly constructed log on.
\<close>

theorem monolog_base_wf:
  assumes "monolog_wf nb m"
  shows "(\<forall>i j m'. ensure_alloc nb i j m = Some m' \<longrightarrow> monolog_wf nb m')
    \<and> (\<forall>i v m'. monolog_set nb i v m = Some m' \<longrightarrow> monolog_wf nb m')
    \<and> (\<forall>i v m'. monolog_set_unsafe nb i v m = Some m' \<longrightarrow> monolog_wf nb m')
    \<and> (\<forall>i m' loc. monolog_ref nb i m = Some (m', loc) \<longrightarrow> monolog_wf nb m')
    \<and> (\<forall>sz i data len m'. monolog_set_range nb sz i data len m = Some m' \<longrightarrow> monolog_wf nb m')
    \<and> (\<forall>sz i data len m'. monolog_set_unsafe_range nb sz i data len m = Some m'
          \<longrightarrow> monolog_wf nb m')"
proof (intro conjI allI impI)
  show "monolog_wf nb m'" if "ensure_alloc nb i j m = Some m'" for i j m'
    using that assms by (auto simp: ensure_alloc_def bind_Some_iff intro: wf_steps)
  show "monolog_wf nb m'" if "monolog_set nb i v m = Some m'" for i v m'
    using that assms by (auto simp: monolog_set_def bind_Some_iff intro: wf_steps)
  show "monolog_wf nb m'" if "monolog_set_unsafe nb i v m = Some m'" for i v m'
    using that assms by (auto simp: monolog_set_unsafe_def bind_Some_iff intro: wf_steps)
  show "monolog_wf nb m'" if "monolog_ref nb i m = Some (m', loc)" for i m' loc
    using that assms by (auto simp: monolog_ref_def bind_Some_iff intro: wf_steps)
  show "monolog_wf nb m'" if "monolog_set_range nb sz i data len m = Some m'" for sz i data len m'
    using that assms by (auto simp: monolog_set_range_def bind_Some_iff intro: wf_steps)
  show "monolog_wf nb m'" if "monolog_set_unsafe_range nb sz i data len m = Some m'"
    for sz i data len m'
    using that assms by (auto simp: monolog_set_unsafe_range_def bind_Some_iff intro: wf_steps)
qed

theorem monolog_base_wf_witness:
  "\<exists>m'. monolog_set 24 100 (5::nat) \<lparr>buckets = monolog_base_init\<rparr> = Some m' \<and> monolog_wf 24 m'"
proof -
  let ?m = "\<lparr>buckets = monolog_base_init\<rparr> :: nat monolog_base"
  have "valid_index 24 100" by (simp add: valid_index_def FBS_def FBS_HIBIT_def)
  then obtain m' where m': "monolog_set 24 100 5 ?m = Some m'"
    by (rule exE [OF monolog_set_total])
  have "monolog_wf 24 ?m" by (rule wf_monolog_base_init) simp
  from monolog_base_wf [OF this] m' have "monolog_wf 24 m'" by (elim conjE) metis
  then show ?thesis using m' by (intro exI conjI)
qed

section \<open>Allocating ahead\<close>

lemma ensure_bucket_eq:
  assumes "b < nb" "b + FBS_HIBIT < 32"
  shows "ensure_bucket nb b m = Some (if buckets m b = None
    then m\<lparr>buckets := (buckets m)(b \<mapsto> Map.empty)\<rparr> else m)"
  using assms by (auto simp: ensure_bucket_def load_bucket_def try_allocate_bucket_def
      split: option.split)

lemma alloc_range_allocates:
  assumes "j < nb" "j + FBS_HIBIT < 32"
  shows "\<exists>m'. alloc_range nb i j m = Some m' \<and> (\<forall>b. i \<le> b \<and> b \<le> j \<longrightarrow> buckets m' b \<noteq> None)
    \<and> (\<forall>b. buckets m' b = buckets m b \<or> buckets m b = None \<and> buckets m' b = Some Map.empty)"
  using assms
proof (induction nb i j m rule: alloc_range.induct)
  case (1 nb i j m)
  show ?case
  proof (cases "i \<le> j")
    case True
    define m1 where "m1 = (if buckets m i = None
      then m\<lparr>buckets := (buckets m)(i \<mapsto> Map.empty)\<rparr> else m)"
    have m1: "ensure_bucket nb i m = Some m1"
      unfolding m1_def using "1.prems" True by (intro ensure_bucket_eq) linarith+
    obtain m' where m': "alloc_range nb (Suc i) j m1 = Some m'"
      "\<forall>b. Suc i \<le> b \<and> b \<le> j \<longrightarrow> buckets m' b \<noteq> None"
      "\<forall>b. buckets m' b = buckets m1 b \<or> buckets m1 b = None \<and> buckets m' b = Some Map.empty"
      using "1.IH" [OF True m1 "1.prems"] by (elim exE conjE)
    have "buckets m1 i \<noteq> None" by (simp add: m1_def)
    then have "buckets m' i \<noteq> None" using m'(3) by metis
    then have "\<forall>b. i \<le> b \<and> b \<le> j \<longrightarrow> buckets m' b \<noteq> None"
      using m'(2) by (metis le_antisym not_less_eq_eq)
    moreover have "\<forall>b. buckets m1 b = buckets m b \<or> buckets m b = None \<and> buckets m1 b = Some Map.empty"
      by (simp add: m1_def)
    then have "\<forall>b. buckets m' b = buckets m b \<or> buckets m b = None \<and> buckets m' b = Some Map.empty"
      using m'(3) by metis
    ultimately show ?thesis
      using True m1 m' by (simp add: alloc_range.simps [of nb i j m])
  qed (auto simp: alloc_range.simps [of nb i j m])
qed

lemma bucket_pos_mono:
  assumes "valid_index nb i" "valid_index nb j" "i \<le> j"
    and "bucket_pos i = Some (b, off)" "bucket_pos j = Some (b', off')"
  shows "b \<le> b'"
proof (rule ccontr)
  assume "\<not> b \<le> b'"
  then have le: "bucket_size (Suc b') \<le> bucket_size b"
    unfolding bucket_size_def by (intro power_increasing) simp_all
  have "i + FBS = bucket_size b + off" "j + FBS = bucket_size b' + off'" "off' < bucket_size b'"
    using assms valid_pos [OF assms(1)] valid_pos [OF assms(2)]
    by (metis Pair_inject option.inject)+
  moreover have "bucket_size (Suc b') = 2 * bucket_size b'"
    by (simp add: bucket_size_def)
  ultimately show False using le assms(3) by linarith
qed

lemma ensure_alloc_eq:
  assumes "valid_index nb i" "valid_index nb j"
    and "bucket_pos i = Some (b, off)" "bucket_pos j = Some (b', off')"
  shows "ensure_alloc nb i j m = alloc_range nb b b' m"
  using assms by (auto simp: ensure_alloc_def bucket_pos_def Let_def bind_Some_iff)

text \<open>
  \<^verbatim>\<open>ensure_alloc(start, end)\<close> makes the unchecked write safe: on a range of indexes the
  log can hold it completes, keeps every value already stored, and afterwards
  \<^verbatim>\<open>set_unsafe\<close> completes on every index of the range (the end included) with the same
  result as the allocating \<^verbatim>\<open>set\<close>.
\<close>

theorem ensure_alloc_makes_set_unsafe_safe:
  assumes "valid_index nb i" "valid_index nb j" "i \<le> j"
  shows "\<exists>m'. ensure_alloc nb i j m = Some m'
    \<and> (\<forall>k. valid_index nb k \<longrightarrow> monolog_get nb k m' = monolog_get nb k m)
    \<and> (\<forall>k v. i \<le> k \<and> k \<le> j \<longrightarrow> (\<exists>m''. monolog_set_unsafe nb k v m' = Some m''
          \<and> monolog_set nb k v m' = Some m''))"
proof -
  obtain b off where i: "bucket_pos i = Some (b, off)" "b < nb"
    using valid_pos [OF assms(1)] by metis
  obtain b' off' where j: "bucket_pos j = Some (b', off')" "b' < nb" "b' + FBS_HIBIT < 31"
    using valid_pos [OF assms(2)] by metis
  obtain m' where m': "alloc_range nb b b' m = Some m'"
    "\<forall>x. b \<le> x \<and> x \<le> b' \<longrightarrow> buckets m' x \<noteq> None"
    "\<forall>x. buckets m' x = buckets m x \<or> buckets m x = None \<and> buckets m' x = Some Map.empty"
    using alloc_range_allocates [of b' nb b m] j by auto
  have "monolog_get nb k m' = monolog_get nb k m" if "valid_index nb k" for k
  proof -
    obtain x y where "bucket_pos k = Some (x, y)" by (rule valid_pos [OF \<open>valid_index nb k\<close>])
    then show ?thesis
      using spec [OF m'(3), of x] by (auto simp: monolog_get_def load_cell_def load_bucket_def)
  qed
  moreover have "\<exists>m''. monolog_set_unsafe nb k v m' = Some m'' \<and> monolog_set nb k v m' = Some m''"
    if "i \<le> k" "k \<le> j" for k v
  proof -
    have k: "valid_index nb k" using that assms(2) by (auto simp: valid_index_def)
    then obtain x y where x: "bucket_pos k = Some (x, y)" "x < nb" "y < bucket_size x"
      using valid_pos by metis
    then have "b \<le> x" "x \<le> b'"
      using bucket_pos_mono assms that i j k by blast+
    then have "buckets m' x \<noteq> None" using m'(2) by blast
    then show ?thesis
      using x by (auto simp: monolog_set_unsafe_def monolog_set_def ensure_bucket_def
          load_bucket_def store_cell_def)
  qed
  ultimately show ?thesis
    using m'(1) ensure_alloc_eq [OF assms(1,2) i(1) j(1), of m] by auto
qed

theorem ensure_alloc_makes_set_unsafe_safe_witness:
  "\<exists>m'. ensure_alloc 32 5 100 (\<lparr>buckets = monolog_base_init\<rparr> :: nat monolog_base) = Some m'
     \<and> (\<exists>m''. monolog_set_unsafe 32 100 9 m' = Some m'')"
proof -
  let ?m = "\<lparr>buckets = monolog_base_init\<rparr> :: nat monolog_base"
  have "valid_index 32 5" "valid_index 32 100" "(5::nat) \<le> 100"
    by (simp_all add: valid_index_def FBS_def FBS_HIBIT_def)
  from ensure_alloc_makes_set_unsafe_safe [OF this, of ?m]
  obtain m' where m': "ensure_alloc 32 5 100 ?m = Some m'"
    "\<forall>k v. 5 \<le> k \<and> k \<le> 100 \<longrightarrow> (\<exists>m''. monolog_set_unsafe 32 k v m' = Some m''
       \<and> monolog_set 32 k v m' = Some m'')"
    by (elim exE conjE)
  from spec [OF spec [OF m'(2), of 100], of 9] m'(1) show ?thesis by auto
qed

section \<open>The contiguous copies overrun the caller's buffer\<close>

lemma set_range_loop_overruns:
  assumes "0 < sz" "0 < remaining" "sz dvd remaining" "length data \<le> data_off + remaining"
  shows "set_range_loop alloc nb sz data b off remaining data_off m = None"
  using assms
proof (induction alloc nb sz data b off remaining data_off m rule: set_range_loop.induct)
  case (1 alloc nb sz data b off remaining data_off m)
  let ?n = "min ((bucket_size b - off) * sz) remaining"
  have dvd: "sz dvd ?n" using "1.prems"(3) by (simp add: min_def)
  have step: "copy_in nb b off data (data_off + ?n) (?n div sz) m1
      \<bind> set_range_loop alloc nb sz data (Suc b) 0 (remaining - ?n) (data_off + ?n) = None"
    if ok: "\<not> (remaining = 0)" "\<not> nb \<le> b"
      and m1: "(if alloc then ensure_bucket nb b m else Some m) = Some m1" for m1
  proof (cases "?n = remaining")
    case True
    have "0 < ?n div sz"
      using "1.prems"(1,2) dvd True by (metis dvd_div_eq_0_iff neq0_conv)
    then have "\<not> data_off + ?n + ?n div sz \<le> length data"
      using True "1.prems"(4) by linarith
    then show ?thesis
      by (auto simp: copy_in_def load_bucket_def bind_None_iff)
  next
    case False
    then have "0 < remaining - ?n" by linarith
    moreover have "sz dvd remaining - ?n" using dvd "1.prems"(3) by (rule dvd_diff_nat [rotated])
    ultimately have "set_range_loop alloc nb sz data (Suc b) 0 (remaining - ?n) (data_off + ?n) m2 = None"
      if "copy_in nb b off data (data_off + ?n) (?n div sz) m1 = Some m2" for m2
      using "1.IH" [OF ok m1 refl refl refl that] "1.prems" by auto
    then show ?thesis by (auto simp: bind_None_iff)
  qed
  then show ?case
    using "1.prems"(2)
    by (auto simp: set_range_loop.simps [of alloc nb sz data b] Let_def bind_None_iff)
qed

lemma get_range_loop_overruns:
  assumes "0 < sz" "0 < remaining" "sz dvd remaining" "cap \<le> data_off + remaining"
  shows "get_range_loop nb sz cap b off remaining data_off buf m = None"
  using assms
proof (induction nb sz cap b off remaining data_off buf m rule: get_range_loop.induct)
  case (1 nb sz cap b off remaining data_off buf m)
  let ?n = "min ((bucket_size b - off) * sz) remaining"
  have dvd: "sz dvd ?n" using "1.prems"(3) by (simp add: min_def)
  have step: "copy_out nb b off cap buf (data_off + ?n) (?n div sz) m
      \<bind> (\<lambda>buf'. get_range_loop nb sz cap (Suc b) 0 (remaining - ?n) (data_off + ?n) buf' m) = None"
    if ok: "\<not> (remaining = 0)" "\<not> nb \<le> b"
  proof (cases "?n = remaining")
    case True
    have "0 < ?n div sz"
      using "1.prems"(1,2) dvd True by (metis dvd_div_eq_0_iff neq0_conv)
    then have "\<not> data_off + ?n + ?n div sz \<le> cap"
      using True "1.prems"(4) by linarith
    then show ?thesis
      by (auto simp: copy_out_def load_bucket_def bind_None_iff)
  next
    case False
    then have "0 < remaining - ?n" by linarith
    moreover have "sz dvd remaining - ?n" using dvd "1.prems"(3) by (rule dvd_diff_nat [rotated])
    ultimately have "get_range_loop nb sz cap (Suc b) 0 (remaining - ?n) (data_off + ?n) buf' m = None"
      if "copy_out nb b off cap buf (data_off + ?n) (?n div sz) m = Some buf'" for buf'
      using "1.IH" [OF ok refl refl refl that] "1.prems" by auto
    then show ?thesis by (auto simp: bind_None_iff)
  qed
  then show ?case
    using "1.prems"(2)
    by (auto simp: get_range_loop.simps [of nb sz cap b] Let_def bind_None_iff)
qed

text \<open>
  The contiguous copies \<^verbatim>\<open>set(idx, data, len)\<close>, \<^verbatim>\<open>set_unsafe(idx, data, len)\<close> and
  \<^verbatim>\<open>get(data, idx, len)\<close> advance the buffer offset before the \<^verbatim>\<open>memcpy\<close> that should use it,
  so a call with a buffer of exactly \<open>len > 0\<close> elements always accesses the buffer past its
  end, whatever the log, the index and the element size.
\<close>

theorem contiguous_copies_overrun:
  assumes "0 < sz" "0 < len" "length data = len"
  shows "monolog_set_range nb sz idx data len m = None
    \<and> monolog_set_unsafe_range nb sz idx data len m = None
    \<and> monolog_get_range nb sz len idx len m = None"
  using assms
  by (auto simp: monolog_set_range_def monolog_set_unsafe_range_def monolog_get_range_def
      bind_None_iff intro!: set_range_loop_overruns get_range_loop_overruns)

theorem contiguous_copies_overrun_witness:
  "monolog_set_range 32 1 0 [1, 2, 3 :: u8] 3 \<lparr>buckets = monolog_base_init\<rparr> = None"
  using contiguous_copies_overrun [of 1 3 "[1, 2, 3 :: u8]" 32 0 "\<lparr>buckets = monolog_base_init\<rparr>"]
  by simp

end
