(* ===== verification/Monolog.thy ===== *)
theory Monolog
  imports Monolog_Base
begin

section \<open>The appending logs (monolog.h: monolog_relaxed, monolog_linearizable; entrylist.h)\<close>

text \<open>
  Both logs add tails to the bucketed base, as record extensions of it. This theory has their
  operations as one thread runs them; \<open>Monolog_Concurrent\<close> has the interleavings. A thread
  that runs alone sees no other thread's step between two of its own, so the loop of the
  linearizable log is unfolded here with the values it reads.
\<close>

record 'a monolog_relaxed = "'a monolog_base" +
  tail :: nat

record 'a monolog_linearizable = "'a monolog_base" +
  write_tail :: nat
  read_tail :: nat

definition relaxed_init :: "'a monolog_relaxed" where
  "relaxed_init = \<lparr>buckets = monolog_base_init, tail = 0\<rparr>"

definition linearizable_init :: "'a monolog_linearizable" where
  "linearizable_init = \<lparr>buckets = monolog_base_init, write_tail = 0, read_tail = 0\<rparr>"

subsection \<open>The relaxed log\<close>

definition relaxed_push_back ::
  "nat \<Rightarrow> 'a \<Rightarrow> 'a monolog_relaxed \<Rightarrow> ('a monolog_relaxed \<times> nat) option" where
  "relaxed_push_back nb val m =
     (let idx = tail m; m1 = m\<lparr>tail := take_bit 64 (idx + 1)\<rparr> in do {
        m2 \<leftarrow> monolog_set nb idx val m1;
        Some (m2, idx) })"

text \<open>
  \<open>push_back_range(start, end)\<close> appends the integers from \<open>start\<close> to \<open>end\<close>; \<open>end - start + 1\<close>
  wraps, so an \<open>end\<close> of \<open>start - 1\<close> appends nothing.
\<close>

definition range_count :: "nat \<Rightarrow> nat \<Rightarrow> nat" where
  "range_count start fin = take_bit 64 (fin + (2 ^ 64 - start) + 1)"

definition range_values :: "nat \<Rightarrow> nat \<Rightarrow> nat list" where
  "range_values start cnt = map (\<lambda>i. take_bit 64 (start + i)) [0..<cnt]"

definition relaxed_push_back_range ::
  "nat \<Rightarrow> nat \<Rightarrow> nat \<Rightarrow> nat monolog_relaxed \<Rightarrow> (nat monolog_relaxed \<times> nat) option" where
  "relaxed_push_back_range nb start fin m =
     (let cnt = range_count start fin; idx = tail m;
          m1 = m\<lparr>tail := take_bit 64 (idx + cnt)\<rparr> in do {
        m2 \<leftarrow> set_seq (monolog_set nb) idx (range_values start cnt) m1;
        Some (m2, idx) })"

definition relaxed_at :: "nat \<Rightarrow> nat \<Rightarrow> 'a monolog_relaxed \<Rightarrow> 'a option" where
  "relaxed_at nb idx m = monolog_get nb idx m"

definition relaxed_size :: "'a monolog_relaxed \<Rightarrow> nat" where
  "relaxed_size m = tail m"

subsection \<open>The linearizable log\<close>

text \<open>
  \<open>while (!compare_exchange_weak(&read_tail_, &idx, idx + cnt));\<close> where a failed exchange
  writes the current read tail into \<open>idx\<close>. Returns the new read tail and the final \<open>idx\<close>. (A
  spurious failure stores the value the exchange read, so it changes nothing here.)
\<close>

function publish_loop :: "nat \<Rightarrow> nat \<Rightarrow> nat \<Rightarrow> nat \<times> nat" where
  "publish_loop rt idx cnt =
     (if rt = idx then (take_bit 64 (idx + cnt), idx) else publish_loop rt rt cnt)"
  by pat_completeness auto
termination
  by (relation "measure (\<lambda>(rt, idx, cnt). if rt = idx then 0 else 1)") auto

declare publish_loop.simps [simp del]

definition linearizable_push_back ::
  "nat \<Rightarrow> 'a \<Rightarrow> 'a monolog_linearizable \<Rightarrow> ('a monolog_linearizable \<times> nat) option" where
  "linearizable_push_back nb val m =
     (let idx = write_tail m; m1 = m\<lparr>write_tail := take_bit 64 (idx + 1)\<rparr> in do {
        m2 \<leftarrow> monolog_set nb idx val m1;
        (let (rt, idx') = publish_loop (read_tail m2) idx 1
         in Some (m2\<lparr>read_tail := rt\<rparr>, idx')) })"

definition linearizable_push_back_range ::
  "nat \<Rightarrow> nat \<Rightarrow> nat \<Rightarrow> nat monolog_linearizable \<Rightarrow> (nat monolog_linearizable \<times> nat) option" where
  "linearizable_push_back_range nb start fin m =
     (let cnt = range_count start fin; idx = write_tail m;
          m1 = m\<lparr>write_tail := take_bit 64 (idx + cnt)\<rparr> in do {
        m2 \<leftarrow> set_seq (monolog_set nb) idx (range_values start cnt) m1;
        (let (rt, idx') = publish_loop (read_tail m2) idx cnt
         in Some (m2\<lparr>read_tail := rt\<rparr>, idx')) })"

definition linearizable_at :: "nat \<Rightarrow> nat \<Rightarrow> 'a monolog_linearizable \<Rightarrow> 'a option" where
  "linearizable_at nb idx m = monolog_get nb idx m"

definition linearizable_size :: "'a monolog_linearizable \<Rightarrow> nat" where
  "linearizable_size m = read_tail m"

subsection \<open>Iterators\<close>

text \<open>
  A \<open>monolog_iterator\<close> is a position in a log. Its constructor sets the position it is given
  in the initialiser list and then assigns 0 to it in its body.
\<close>

definition monolog_iterator :: "nat \<Rightarrow> nat" where
  "monolog_iterator pos = (let p = pos; p = 0 in p)"

definition iterator_deref :: "nat \<Rightarrow> nat \<Rightarrow> 'a monolog_relaxed \<Rightarrow> 'a option" where
  "iterator_deref nb pos m = monolog_get nb pos m"

definition iterator_next :: "nat \<Rightarrow> nat" where
  "iterator_next pos = take_bit 64 (pos + 1)"

definition relaxed_begin :: "'a monolog_relaxed \<Rightarrow> nat" where
  "relaxed_begin m = monolog_iterator 0"

definition relaxed_end :: "'a monolog_relaxed \<Rightarrow> nat" where
  "relaxed_end m = monolog_iterator (relaxed_size m)"

subsection \<open>Entry lists\<close>

text \<open>\<open>typedef monolog_relaxed<uint64_t, 24> entry_list;\<close>\<close>

type_synonym entry_list = "nat monolog_relaxed"

definition entry_list_nbuckets :: nat where "entry_list_nbuckets = 24"

definition new_entry_list :: entry_list where "new_entry_list = relaxed_init"

definition el_push_back :: "nat \<Rightarrow> entry_list \<Rightarrow> (entry_list \<times> nat) option" where
  "el_push_back v l = relaxed_push_back entry_list_nbuckets v l"

definition el_push_back_range :: "nat \<Rightarrow> nat \<Rightarrow> entry_list \<Rightarrow> (entry_list \<times> nat) option" where
  "el_push_back_range start fin l = relaxed_push_back_range entry_list_nbuckets start fin l"

definition el_at :: "nat \<Rightarrow> entry_list \<Rightarrow> nat option" where
  "el_at i l = relaxed_at entry_list_nbuckets i l"

definition el_size :: "entry_list \<Rightarrow> nat" where
  "el_size l = relaxed_size l"

section \<open>The logs as lists\<close>

lemma monolog_get_cong: "buckets m = buckets m' \<Longrightarrow> monolog_get nb i m = monolog_get nb i m'"
  by (cases "bucket_pos i") (auto simp: monolog_get_def load_cell_def load_bucket_def)

lemma get_tail_update [simp]: "monolog_get nb i (m\<lparr>tail := t\<rparr>) = monolog_get nb i m"
  by (rule monolog_get_cong) simp

lemma get_tails_update [simp]:
  "monolog_get nb i (l\<lparr>write_tail := t\<rparr>) = monolog_get nb i l"
  "monolog_get nb i (l\<lparr>read_tail := t\<rparr>) = monolog_get nb i l"
  by (rule monolog_get_cong, simp)+

text \<open>The values of the first \<open>n\<close> positions, and that they are all there.\<close>

definition prefix_values :: "nat \<Rightarrow> nat \<Rightarrow> ('a, 'm) monolog_base_scheme \<Rightarrow> 'a list" where
  "prefix_values nb n m = map (\<lambda>i. the (monolog_get nb i m)) [0..<n]"

definition prefix_ok :: "nat \<Rightarrow> nat \<Rightarrow> ('a, 'm) monolog_base_scheme \<Rightarrow> bool" where
  "prefix_ok nb n m \<longleftrightarrow> (\<forall>i<n. valid_index nb i \<and> monolog_get nb i m \<noteq> None)"

definition relaxed_invar :: "nat \<Rightarrow> 'a monolog_relaxed \<Rightarrow> bool" where
  "relaxed_invar nb m \<longleftrightarrow> prefix_ok nb (tail m) m"

definition relaxed_contents :: "nat \<Rightarrow> 'a monolog_relaxed \<Rightarrow> 'a list" where
  "relaxed_contents nb m = prefix_values nb (tail m) m"

definition linearizable_invar :: "nat \<Rightarrow> 'a monolog_linearizable \<Rightarrow> bool" where
  "linearizable_invar nb m \<longleftrightarrow> write_tail m = read_tail m \<and> prefix_ok nb (read_tail m) m"

definition linearizable_contents :: "nat \<Rightarrow> 'a monolog_linearizable \<Rightarrow> 'a list" where
  "linearizable_contents nb m = prefix_values nb (read_tail m) m"

lemma length_prefix_values [simp]: "length (prefix_values nb n m) = n"
  by (simp add: prefix_values_def)

lemma nth_prefix_values: "prefix_ok nb n m \<Longrightarrow> i < n \<Longrightarrow> monolog_get nb i m = Some (prefix_values nb n m ! i)"
  by (auto simp: prefix_ok_def prefix_values_def)

lemma valid_index_down: "valid_index nb n \<Longrightarrow> i \<le> n \<Longrightarrow> valid_index nb i"
  by (auto simp: valid_index_def)

lemma valid_index_wrap: "valid_index nb n \<Longrightarrow> take_bit 64 (n + 1) = n + 1"
  by (rule take_bit_nat_eq_self) (simp add: valid_index_def)

lemma prefix_extend:
  assumes "prefix_ok nb n m" "\<forall>j. n \<le> j \<and> j < n + length vs \<longrightarrow> valid_index nb j"
    and "set_seq (monolog_set nb) n vs m = Some m'"
  shows "prefix_ok nb (n + length vs) m'"
    and "prefix_values nb (n + length vs) m' = prefix_values nb n m @ vs"
proof -
  have valid: "valid_index nb j" if "j < n + length vs" for j
    using that assms(1,2) by (cases "j < n") (auto simp: prefix_ok_def)
  have get: "monolog_get nb j m' = (if n \<le> j then Some (vs ! (j - n)) else monolog_get nb j m)"
    if "j < n + length vs" for j
    using base_array.get_set_seq [OF assms(2) valid [OF that] assms(3)] that by simp
  show "prefix_ok nb (n + length vs) m'"
    using assms(1) valid get by (auto simp: prefix_ok_def)
  show "prefix_values nb (n + length vs) m' = prefix_values nb n m @ vs"
    by (rule nth_equalityI) (auto simp: prefix_values_def get nth_append)
qed

lemma set_seq_single: "set_seq set_at i [v] m = set_at i v m"
  by (cases "set_at i v m") auto

lemma prefix_extend_one:
  assumes "prefix_ok nb n m" "valid_index nb n" "monolog_set nb n v m = Some m'"
  shows "prefix_ok nb (Suc n) m'" and "prefix_values nb (Suc n) m' = prefix_values nb n m @ [v]"
proof -
  have valid: "\<forall>j. n \<le> j \<and> j < n + length [v] \<longrightarrow> valid_index nb j"
    using assms(2) by (metis add_Suc_right add_0_right le_antisym length_Cons less_Suc_eq_le list.size(3))
  have seq: "set_seq (monolog_set nb) n [v] m = Some m'"
    using assms(3) by (simp add: set_seq_single)
  show "prefix_ok nb (Suc n) m'" "prefix_values nb (Suc n) m' = prefix_values nb n m @ [v]"
    using prefix_extend [OF assms(1) valid seq] by simp_all
qed

lemma set_keeps_tail [log_simps]:
  "valid_index nb i \<Longrightarrow> monolog_set nb i v m = Some m' \<Longrightarrow> tail m' = tail m"
  by (erule monolog_set_unfold [of nb i m v]) auto

lemma set_keeps_tails [log_simps]:
  "valid_index nb i \<Longrightarrow> monolog_set nb i v l = Some l' \<Longrightarrow> write_tail l' = write_tail l"
  "valid_index nb i \<Longrightarrow> monolog_set nb i v l = Some l' \<Longrightarrow> read_tail l' = read_tail l"
  by (erule monolog_set_unfold [of nb i l v], auto)+

lemma set_seq_keeps_tail:
  "\<forall>j. i \<le> j \<and> j < i + length vs \<longrightarrow> valid_index nb j \<Longrightarrow>
     set_seq (monolog_set nb) i vs m = Some m' \<Longrightarrow> tail m' = tail m"
proof (induction vs arbitrary: i m)
  case (Cons v vs)
  obtain m1 where m1: "monolog_set nb i v m = Some m1" "set_seq (monolog_set nb) (Suc i) vs m1 = Some m'"
    using Cons.prems(2) by (auto simp: bind_Some_iff)
  have "tail m' = tail m1" using Cons.IH [OF _ m1(2)] Cons.prems(1) by simp
  then show ?case using set_keeps_tail [OF _ m1(1)] Cons.prems(1) by simp
qed simp

subsection \<open>Appending\<close>

lemma relaxed_push_spec:
  assumes "relaxed_invar nb m" "valid_index nb (tail m)"
  shows "\<exists>m'. relaxed_push_back nb v m = Some (m', tail m) \<and> relaxed_invar nb m'
    \<and> relaxed_contents nb m' = relaxed_contents nb m @ [v]"
proof -
  let ?m1 = "m\<lparr>tail := take_bit 64 (tail m + 1)\<rparr>"
  obtain m2 where m2: "monolog_set nb (tail m) v ?m1 = Some m2"
    using monolog_set_total [OF assms(2)] by (rule exE)
  have ok: "prefix_ok nb (tail m) ?m1" and vals: "prefix_values nb (tail m) ?m1 = relaxed_contents nb m"
    using assms(1) by (auto simp: relaxed_invar_def prefix_ok_def prefix_values_def relaxed_contents_def)
  have t: "tail m2 = tail m + 1"
    using set_keeps_tail [OF assms(2) m2] valid_index_wrap [OF assms(2)] by simp
  show ?thesis
    using prefix_extend_one [OF ok assms(2) m2] m2 t vals
    by (auto simp: relaxed_push_back_def Let_def relaxed_invar_def relaxed_contents_def)
qed

interpretation relaxed: append_log "relaxed_invar nb" "relaxed_contents nb" "valid_index nb"
    relaxed_init "relaxed_push_back nb" "relaxed_at nb" relaxed_size for nb
proof unfold_locales
  show "relaxed_invar nb relaxed_init"
    by (simp add: relaxed_invar_def relaxed_init_def prefix_ok_def)
  show "relaxed_contents nb relaxed_init = []"
    by (simp add: relaxed_contents_def relaxed_init_def prefix_values_def)
  show "\<exists>m'. relaxed_push_back nb v m = Some (m', length (relaxed_contents nb m)) \<and>
      relaxed_invar nb m' \<and> relaxed_contents nb m' = relaxed_contents nb m @ [v]"
    if "relaxed_invar nb m" "valid_index nb (length (relaxed_contents nb m))" for m v
    using relaxed_push_spec [of nb m v] that by (simp add: relaxed_contents_def)
  show "relaxed_at nb i m = Some (relaxed_contents nb m ! i)"
    if "relaxed_invar nb m" "i < length (relaxed_contents nb m)" for m i
    using that nth_prefix_values [of nb "tail m" m i]
    by (simp add: relaxed_at_def relaxed_contents_def relaxed_invar_def)
  show "relaxed_size m = length (relaxed_contents nb m)" for m
    by (simp add: relaxed_size_def relaxed_contents_def)
qed

lemma publish_loop_eq: "publish_loop rt idx cnt = (take_bit 64 (rt + cnt), rt)"
  by (cases "rt = idx") (simp_all add: publish_loop.simps)

lemma linearizable_push_spec:
  assumes "linearizable_invar nb m" "valid_index nb (read_tail m)"
  shows "\<exists>m'. linearizable_push_back nb v m = Some (m', read_tail m) \<and> linearizable_invar nb m'
    \<and> linearizable_contents nb m' = linearizable_contents nb m @ [v]"
proof -
  let ?n = "read_tail m" and ?m1 = "m\<lparr>write_tail := take_bit 64 (write_tail m + 1)\<rparr>"
  have wt: "write_tail m = ?n" using assms(1) by (simp add: linearizable_invar_def)
  obtain m2 where m2: "monolog_set nb ?n v ?m1 = Some m2"
    using monolog_set_total [OF assms(2)] by (rule exE)
  have ok: "prefix_ok nb ?n ?m1" and vals: "prefix_values nb ?n ?m1 = linearizable_contents nb m"
    using assms(1)
    by (auto simp: linearizable_invar_def prefix_ok_def prefix_values_def linearizable_contents_def)
  have t: "write_tail m2 = ?n + 1" "read_tail m2 = ?n"
    using set_keeps_tails [OF assms(2) m2] valid_index_wrap [OF assms(2)] wt by simp_all
  show ?thesis
    using prefix_extend_one [OF ok assms(2) m2] m2 t vals wt valid_index_wrap [OF assms(2)]
    by (auto simp: linearizable_push_back_def Let_def publish_loop_eq linearizable_invar_def
        linearizable_contents_def prefix_ok_def prefix_values_def)
qed

interpretation linearizable: append_log "linearizable_invar nb" "linearizable_contents nb"
    "valid_index nb" linearizable_init "linearizable_push_back nb" "linearizable_at nb"
    linearizable_size for nb
proof unfold_locales
  show "linearizable_invar nb linearizable_init"
    by (simp add: linearizable_invar_def linearizable_init_def prefix_ok_def)
  show "linearizable_contents nb linearizable_init = []"
    by (simp add: linearizable_contents_def linearizable_init_def prefix_values_def)
  show "\<exists>m'. linearizable_push_back nb v m = Some (m', length (linearizable_contents nb m)) \<and>
      linearizable_invar nb m' \<and> linearizable_contents nb m' = linearizable_contents nb m @ [v]"
    if "linearizable_invar nb m" "valid_index nb (length (linearizable_contents nb m))" for m v
    using linearizable_push_spec [of nb m v] that by (simp add: linearizable_contents_def)
  show "linearizable_at nb i m = Some (linearizable_contents nb m ! i)"
    if "linearizable_invar nb m" "i < length (linearizable_contents nb m)" for m i
    using that nth_prefix_values [of nb "read_tail m" m i]
    by (simp add: linearizable_at_def linearizable_contents_def linearizable_invar_def)
  show "linearizable_size m = length (linearizable_contents nb m)" for m
    by (simp add: linearizable_size_def linearizable_contents_def)
qed

subsection \<open>Ranges\<close>

lemma range_count_eq:
  "start \<le> 2 ^ 64 - cnt \<Longrightarrow> 0 < cnt \<Longrightarrow> cnt < 2 ^ 64 \<Longrightarrow> range_count start (start + cnt - 1) = cnt"
  by (simp add: range_count_def take_bit_eq_mod)

lemma range_values_eq:
  "start + cnt \<le> 2 ^ 64 \<Longrightarrow> range_values start cnt = [start..<start + cnt]"
  by (rule nth_equalityI) (auto simp: range_values_def intro!: take_bit_nat_eq_self)

lemma relaxed_push_range:
  assumes "relaxed_invar nb m" "0 < cnt" "valid_index nb (tail m + cnt - 1)"
    and "start + cnt \<le> 2 ^ 64"
  shows "\<exists>m'. relaxed_push_back_range nb start (start + cnt - 1) m = Some (m', tail m)
    \<and> relaxed_invar nb m' \<and> relaxed_contents nb m' = relaxed_contents nb m @ [start..<start + cnt]"
proof -
  let ?m1 = "m\<lparr>tail := take_bit 64 (tail m + cnt)\<rparr>"
  have wrap: "take_bit 64 (tail m + cnt) = tail m + cnt"
    using assms(2,3) by (intro take_bit_nat_eq_self) (auto simp: valid_index_def FBS_def)
  have "cnt < 2 ^ 64" using assms(2,3) by (auto simp: valid_index_def FBS_def)
  then have cnt: "range_count start (start + cnt - 1) = cnt"
    using assms(2,4) by (intro range_count_eq) auto
  have valid: "\<forall>j. tail m \<le> j \<and> j < tail m + length [start..<start + cnt] \<longrightarrow> valid_index nb j"
    using valid_index_down [OF assms(3)] by auto
  obtain m2 where m2: "set_seq (monolog_set nb) (tail m) [start..<start + cnt] ?m1 = Some m2"
    using base_array.set_seq_total [OF valid] by (rule exE)
  have ok: "prefix_ok nb (tail m) ?m1" and vals: "prefix_values nb (tail m) ?m1 = relaxed_contents nb m"
    using assms(1) by (auto simp: relaxed_invar_def prefix_ok_def prefix_values_def relaxed_contents_def)
  have "tail m2 = tail m + cnt" using set_seq_keeps_tail [OF valid m2] wrap by simp
  moreover have "relaxed_push_back_range nb start (start + cnt - 1) m = Some (m2, tail m)"
    unfolding relaxed_push_back_range_def cnt Let_def using m2 by (simp add: range_values_eq [OF assms(4)])
  ultimately show ?thesis
    using prefix_extend [OF ok valid m2] vals by (simp add: relaxed_invar_def relaxed_contents_def)
qed

text \<open>
  Appending to \<^verbatim>\<open>monolog_relaxed\<close> refines list append. On a log of \<open>n\<close> complete entries
  with room for \<open>cnt\<close> more, \<^verbatim>\<open>push_back_range(start, start + cnt - 1)\<close> completes, returns \<open>n\<close>, leaves a
  log of \<open>n + cnt\<close> complete entries and appends exactly the integers from \<open>start\<close> to
  \<open>start + cnt - 1\<close> in order.
\<close>

theorem relaxed_push_back_range_appends:
  assumes "relaxed_invar nb m" "0 < cnt" "valid_index nb (tail m + cnt - 1)"
    and "start + cnt \<le> 2 ^ 64"
  shows "\<exists>m'. relaxed_push_back_range nb start (start + cnt - 1) m = Some (m', tail m)
    \<and> relaxed_invar nb m' \<and> relaxed_contents nb m' = relaxed_contents nb m @ [start..<start + cnt]"
  using assms by (rule relaxed_push_range)

theorem relaxed_push_back_range_appends_witness:
  "\<exists>m'. relaxed_push_back_range 24 7 9 relaxed_init = Some (m', 0)
     \<and> relaxed_contents 24 m' = [7, 8, 9]"
proof -
  have "relaxed_invar 24 (relaxed_init :: entry_list)" by (rule relaxed.invar_fresh)
  moreover have "valid_index 24 (tail (relaxed_init :: entry_list) + 3 - 1)"
    by (simp add: relaxed_init_def valid_index_def FBS_def FBS_HIBIT_def)
  moreover have "relaxed_contents 24 (relaxed_init :: entry_list) = []"
    by (rule relaxed.contents_fresh)
  ultimately show ?thesis
    using relaxed_push_back_range_appends [of 24 relaxed_init 3 7]
    by (auto simp: relaxed_init_def upt_rec)
qed

text \<open>
  An empty burst appends nothing but still leaves the log in place: \<^verbatim>\<open>push_back_range\<close> with
  an \<open>end\<close> one below \<open>start\<close>, the wrap-around below 0 included, changes no value and no tail.
\<close>

lemma relaxed_push_back_range_empty:
  assumes "start < 2 ^ 64" "tail m < 2 ^ 64"
  shows "relaxed_push_back_range nb start (take_bit 64 (start + (2 ^ 64 - 1))) m = Some (m, tail m)"
proof -
  have "range_count start (take_bit 64 (start + (2 ^ 64 - 1))) = 0"
  proof (cases "start = 0")
    case False
    then have "start + (2 ^ 64 - 1) = (start - 1) + 2 ^ 64" by simp
    then have "take_bit 64 (start + (2 ^ 64 - 1)) = start - 1"
      using assms(1) by (simp only: take_bit_eq_mod mod_add_self2) simp
    then show ?thesis using False assms(1) by (simp add: range_count_def)
  qed (simp add: range_count_def)
  then show ?thesis
    using assms(2) by (simp add: relaxed_push_back_range_def range_values_def take_bit_64_id)
qed

text \<open>
  Logs are monotonic, and \<^verbatim>\<open>push_back\<close> by one thread on a quiescent
  \<^verbatim>\<open>monolog_linearizable\<close> with room returns the next index, publishes exactly the pushed value
  there, and leaves every entry that was readable unchanged.
\<close>

theorem linearizable_push_back_sequential:
  assumes "linearizable_invar nb m" "valid_index nb (linearizable_size m)"
  shows "\<exists>m'. linearizable_push_back nb v m = Some (m', linearizable_size m)
    \<and> linearizable_invar nb m'
    \<and> linearizable_size m' = linearizable_size m + 1
    \<and> linearizable_at nb (linearizable_size m) m' = Some v
    \<and> (\<forall>i < linearizable_size m. linearizable_at nb i m' = linearizable_at nb i m)"
proof -
  have room: "valid_index nb (length (linearizable_contents nb m))"
    using assms by (simp add: linearizable.size_contents)
  obtain m' where m': "linearizable_push_back nb v m = Some (m', length (linearizable_contents nb m))"
    "linearizable_invar nb m'"
    using linearizable.push_ok [OF assms(1) room] by blast
  note facts = linearizable.push_then_at [OF assms(1) room m'(1)]
    linearizable.push_monotonic [OF assms(1) room m'(1)]
  show ?thesis using m' facts by auto
qed

theorem linearizable_push_back_sequential_witness:
  "\<exists>m'. linearizable_push_back 32 (5::nat) linearizable_init = Some (m', 0)
     \<and> linearizable_at 32 0 m' = Some 5"
proof -
  have "linearizable_invar 32 (linearizable_init :: nat monolog_linearizable)"
    by (rule linearizable.invar_fresh)
  moreover have "valid_index 32 (linearizable_size (linearizable_init :: nat monolog_linearizable))"
    by (simp add: linearizable_init_def linearizable_size_def valid_index_def FBS_def FBS_HIBIT_def)
  ultimately show ?thesis
    using linearizable_push_back_sequential [of 32 linearizable_init 5]
    by (auto simp: linearizable_size_def linearizable_init_def)
qed

text \<open>
  The constructor of \<^verbatim>\<open>monolog_iterator\<close> discards the position it is given, so
  \<^verbatim>\<open>begin()\<close> and \<^verbatim>\<open>end()\<close> are equal for every log.
\<close>

lemma monolog_iterator_begin_is_end:
  "relaxed_begin m = relaxed_end (m :: 'a monolog_relaxed)"
  by (simp add: relaxed_begin_def relaxed_end_def monolog_iterator_def)

end
