(* ===== verification/Monolog_Concurrent.thy ===== *)
theory Monolog_Concurrent
  imports Monolog
begin

section \<open>Concurrent appends to the linearizable log (monolog.h, monolog_linearizable::push_back)\<close>

text \<open>
  Threads that call \<open>push_back\<close> on one log. The atomic steps of a call are the fetch-and-add of
  the write tail, the store of the value, and each turn of the compare-and-exchange loop on the
  read tail; the local variable \<open>idx\<close> of the call, which a failed exchange overwrites with
  the read tail it found, is part of the thread's state. \<open>claimed\<close> is auxiliary: the value for
  which each position was reserved. Runs stay inside the capacity of the log.
\<close>

datatype 'a pusher = Ready | Storing 'a nat | Publishing nat | Returned nat

record 'a push_system =
  mlog :: "'a monolog_linearizable"
  pushers :: "nat \<Rightarrow> 'a pusher"
  claimed :: "nat \<rightharpoonup> 'a"

definition push_init :: "'a push_system" where
  "push_init = \<lparr>mlog = linearizable_init, pushers = (\<lambda>_. Ready), claimed = Map.empty\<rparr>"

inductive push_step :: "nat \<Rightarrow> 'a push_system \<Rightarrow> 'a push_system \<Rightarrow> bool" for nb where
  claim: "pushers s t = Ready \<Longrightarrow> idx = write_tail (mlog s) \<Longrightarrow> valid_index nb idx \<Longrightarrow>
     push_step nb s (s\<lparr>mlog := (mlog s)\<lparr>write_tail := take_bit 64 (idx + 1)\<rparr>,
       pushers := (pushers s)(t := Storing val idx), claimed := (claimed s)(idx \<mapsto> val)\<rparr>)"
| store: "pushers s t = Storing val idx \<Longrightarrow> monolog_set nb idx val (mlog s) = Some l \<Longrightarrow>
     push_step nb s (s\<lparr>mlog := l, pushers := (pushers s)(t := Publishing idx)\<rparr>)"
| publish: "pushers s t = Publishing idx \<Longrightarrow> read_tail (mlog s) = idx \<Longrightarrow>
     push_step nb s (s\<lparr>mlog := (mlog s)\<lparr>read_tail := take_bit 64 (idx + 1)\<rparr>,
       pushers := (pushers s)(t := Returned idx)\<rparr>)"
| retry: "pushers s t = Publishing idx \<Longrightarrow> read_tail (mlog s) \<noteq> idx \<Longrightarrow>
     push_step nb s (s\<lparr>pushers := (pushers s)(t := Publishing (read_tail (mlog s)))\<rparr>)"
| again: "pushers s t = Returned idx \<Longrightarrow> push_step nb s (s\<lparr>pushers := (pushers s)(t := Ready)\<rparr>)"

inductive push_reach :: "nat \<Rightarrow> 'a push_system \<Rightarrow> 'a push_system \<Rightarrow> bool" for nb where
  push_refl: "push_reach nb s s"
| push_more: "push_reach nb s s' \<Longrightarrow> push_step nb s' s'' \<Longrightarrow> push_reach nb s s''"

definition active :: "'a pusher \<Rightarrow> bool" where
  "active p = (case p of Storing _ _ \<Rightarrow> True | Publishing _ \<Rightarrow> True | _ \<Rightarrow> False)"

lemma active_simps [simp]: "\<not> active Ready" "active (Storing v i)" "active (Publishing i)" "\<not> active (Returned i)"
  by (simp_all add: active_def)

definition quiescent :: "'a push_system \<Rightarrow> bool" where
  "quiescent s \<longleftrightarrow> (\<forall>t. \<not> active (pushers s t))"

definition entry_ok :: "nat \<Rightarrow> 'a push_system \<Rightarrow> nat \<Rightarrow> bool" where
  "entry_ok nb s i \<longleftrightarrow> valid_index nb i \<and> (\<exists>v. claimed s i = Some v
     \<and> (monolog_get nb i (mlog s) = Some v \<or> (\<exists>t. pushers s t = Storing v i)))"

definition push_inv :: "nat \<Rightarrow> 'a push_system \<Rightarrow> bool" where
  "push_inv nb s \<longleftrightarrow>
     finite {t. active (pushers s t)}
     \<and> read_tail (mlog s) + card {t. active (pushers s t)} = write_tail (mlog s)
     \<and> (\<forall>i < write_tail (mlog s). entry_ok nb s i)
     \<and> (\<forall>t v i. pushers s t = Storing v i \<longrightarrow> i < write_tail (mlog s) \<and> claimed s i = Some v)"

lemma push_inv_init: "push_inv nb push_init"
  by (simp add: push_inv_def push_init_def active_def linearizable_init_def)

lemma push_invD:
  assumes "push_inv nb s"
  shows "finite {t. active (pushers s t)}"
    "read_tail (mlog s) + card {t. active (pushers s t)} = write_tail (mlog s)"
    "i < write_tail (mlog s) \<Longrightarrow> entry_ok nb s i"
    "pushers s t = Storing v i \<Longrightarrow> i < write_tail (mlog s)"
    "pushers s t = Storing v i \<Longrightarrow> claimed s i = Some v"
  using assms unfolding push_inv_def by auto

lemma entry_ok_mono:
  assumes "entry_ok nb s i" "claimed s' i = claimed s i"
    and "\<And>v. monolog_get nb i (mlog s) = Some v \<Longrightarrow> claimed s i = Some v \<Longrightarrow> monolog_get nb i (mlog s') = Some v"
    and "\<And>t v. pushers s t = Storing v i \<Longrightarrow> claimed s i = Some v \<Longrightarrow>
        monolog_get nb i (mlog s') = Some v \<or> pushers s' t = Storing v i"
  shows "entry_ok nb s' i"
proof -
  obtain v where v: "valid_index nb i" "claimed s i = Some v"
    "monolog_get nb i (mlog s) = Some v \<or> (\<exists>t. pushers s t = Storing v i)"
    using assms(1) by (auto simp: entry_ok_def)
  from v(3) have "monolog_get nb i (mlog s') = Some v \<or> (\<exists>t. pushers s' t = Storing v i)"
    using v(2) assms(3,4) by auto
  then show ?thesis using v assms(2) by (simp add: entry_ok_def)
qed

lemma push_inv_claim:
  assumes inv: "push_inv nb s" and t: "pushers s t = Ready" and room: "valid_index nb (write_tail (mlog s))"
  shows "push_inv nb (s\<lparr>mlog := (mlog s)\<lparr>write_tail := take_bit 64 (write_tail (mlog s) + 1)\<rparr>,
       pushers := (pushers s)(t := Storing val (write_tail (mlog s))),
       claimed := (claimed s)(write_tail (mlog s) \<mapsto> val)\<rparr>)" (is "push_inv nb ?s")
proof -
  have w: "write_tail (mlog ?s) = write_tail (mlog s) + 1" using valid_index_wrap [OF room] by simp
  have act: "{u. active (pushers ?s u)} = insert t {u. active (pushers s u)}"
    by (auto simp: active_def)
  have "t \<notin> {u. active (pushers s u)}" using t by (simp add: active_def)
  then have card: "card {u. active (pushers ?s u)} = Suc (card {u. active (pushers s u)})"
    unfolding act by (rule card_insert_disjoint [OF push_invD(1) [OF inv]])
  have entries: "entry_ok nb ?s i" if i: "i < write_tail (mlog ?s)" for i
  proof (cases "i = write_tail (mlog s)")
    case True
    then show ?thesis using room by (auto simp: entry_ok_def)
  next
    case False
    then have "entry_ok nb s i" using push_invD(3) [OF inv, of i] i w by simp
    then show ?thesis using False t by (rule_tac entry_ok_mono [of nb s i]) auto
  qed
  have owners: "i < write_tail (mlog ?s) \<and> claimed ?s i = Some v" if "pushers ?s u = Storing v i" for u v i
    using that push_invD(4,5) [OF inv, of u v i] w by (auto split: if_splits)
  show ?thesis
    unfolding push_inv_def using entries owners w card act push_invD(1,2) [OF inv] by simp
qed

lemma push_inv_store:
  assumes inv: "push_inv nb s" and t: "pushers s t = Storing val idx"
    and set: "monolog_set nb idx val (mlog s) = Some l"
  shows "push_inv nb (s\<lparr>mlog := l, pushers := (pushers s)(t := Publishing idx)\<rparr>)" (is "push_inv nb ?s")
proof -
  have idx: "idx < write_tail (mlog s)" "claimed s idx = Some val"
    using push_invD(4,5) [OF inv t] by auto
  have v: "valid_index nb idx" using push_invD(3) [OF inv idx(1)] by (simp add: entry_ok_def)
  note tails = set_keeps_tails [OF v set]
  have act: "{u. active (pushers ?s u)} = {u. active (pushers s u)}"
    using t by (auto simp: active_def)
  have entries: "entry_ok nb ?s i" if i: "i < write_tail (mlog s)" for i
  proof -
    have ok: "entry_ok nb s i" using push_invD(3) [OF inv i] .
    have "monolog_get nb i l = (if i = idx then Some val else monolog_get nb i (mlog s))"
      using ok by (intro base_array.get_set_at [OF v _ set]) (simp add: entry_ok_def)
    then show ?thesis using idx(2) t by (intro entry_ok_mono [OF ok]) auto
  qed
  have owners: "i < write_tail (mlog ?s) \<and> claimed ?s i = Some v" if "pushers ?s u = Storing v i" for u v i
    using that push_invD(4,5) [OF inv, of u v i] tails by (auto split: if_splits)
  show ?thesis
    unfolding push_inv_def using entries owners act tails push_invD(1,2) [OF inv] by simp
qed

lemma push_inv_other:
  assumes inv: "push_inv nb s" and t: "\<nexists>v i. pushers s t = Storing v i"
    and p: "\<nexists>v i. p = Storing v i" and tail: "write_tail l = write_tail (mlog s)"
    and get: "\<And>i. monolog_get nb i l = monolog_get nb i (mlog s)"
    and rt: "read_tail l + card {u. active (((pushers s)(t := p)) u)} = write_tail l"
  shows "push_inv nb (s\<lparr>mlog := l, pushers := (pushers s)(t := p)\<rparr>)" (is "push_inv nb ?s")
proof -
  have "{u. active (((pushers s)(t := p)) u)} \<subseteq> insert t {u. active (pushers s u)}" by auto
  then have fin: "finite {u. active (((pushers s)(t := p)) u)}"
    using push_invD(1) [OF inv] by (meson finite.insertI finite_subset)
  have entries: "entry_ok nb ?s i" if i: "i < write_tail (mlog s)" for i
    using push_invD(3) [OF inv i] t get by (intro entry_ok_mono [of nb s i ?s]) auto
  have owners: "i < write_tail (mlog ?s) \<and> claimed ?s i = Some v" if "pushers ?s u = Storing v i" for u v i
    using that push_invD(4,5) [OF inv, of u v i] tail p by (auto split: if_splits)
  show ?thesis
    unfolding push_inv_def using entries owners fin rt tail by simp
qed

lemma push_inv_step: "push_step nb s s' \<Longrightarrow> push_inv nb s \<Longrightarrow> push_inv nb s'"
proof (induction rule: push_step.induct)
  case (claim s t idx val)
  show ?case using push_inv_claim [OF claim(4,1)] claim(2,3) by simp
next
  case (store s t val idx l)
  show ?case by (rule push_inv_store [OF store(3,1,2)])
next
  case (publish s t idx)
  have fin: "finite {u. active (pushers s u)}" using push_invD(1) [OF publish(3)] .
  have t: "t \<in> {u. active (pushers s u)}" using publish(1) by (simp add: active_def)
  have act: "{u. active (((pushers s)(t := Returned idx)) u)} = {u. active (pushers s u)} - {t}"
    by (auto simp: active_def)
  have c: "card {u. active (pushers s u)} = Suc (card ({u. active (pushers s u)} - {t}))"
    using card.remove [OF fin t] .
  have "read_tail (mlog s) < write_tail (mlog s)" using push_invD(2) [OF publish(3)] c by simp
  then have "valid_index nb (read_tail (mlog s))" using push_invD(3) [OF publish(3)] by (simp add: entry_ok_def)
  then have "take_bit 64 (idx + 1) = idx + 1" using publish(2) valid_index_wrap by blast
  moreover have "idx + 1 + card {u. active (((pushers s)(t := Returned idx)) u)} = write_tail (mlog s)"
    unfolding act using push_invD(2) [OF publish(3)] c publish(2) by simp
  ultimately show ?case
    using publish(1) by (intro push_inv_other publish(3)) (simp_all del: fun_upd_apply)
next
  case (retry s t idx)
  have act: "{u. active (((pushers s)(t := Publishing (read_tail (mlog s)))) u)} = {u. active (pushers s u)}"
    using retry(1) by (auto simp: active_def)
  have "push_inv nb (s\<lparr>mlog := mlog s, pushers := (pushers s)(t := Publishing (read_tail (mlog s)))\<rparr>)"
    using retry push_invD(2) [OF retry(3)] by (intro push_inv_other) (simp_all add: act del: fun_upd_apply)
  then show ?case by simp
next
  case (again s t idx)
  have act: "{u. active (((pushers s)(t := Ready)) u)} = {u. active (pushers s u)}"
    using again(1) by (auto simp: active_def)
  have "push_inv nb (s\<lparr>mlog := mlog s, pushers := (pushers s)(t := Ready)\<rparr>)"
    using again push_invD(2) [OF again(2)] by (intro push_inv_other) (simp_all add: act del: fun_upd_apply)
  then show ?case by simp
qed

lemma push_inv_reach: "push_reach nb s s' \<Longrightarrow> push_inv nb s \<Longrightarrow> push_inv nb s'"
  by (induction rule: push_reach.induct) (auto intro: push_inv_step)

text \<open>
  C31. What the linearizable log guarantees under concurrency. In every state that threads calling
  \<^verbatim>\<open>push_back\<close> can reach, the size never exceeds the number of positions handed out; and
  whenever no call is in progress, the size is exactly the number of positions handed out and
  every entry below it holds the value pushed for its position.
\<close>

theorem concurrent_push_back_quiescent:
  assumes "push_reach nb push_init s"
  shows "linearizable_size (mlog s) \<le> write_tail (mlog s)
    \<and> (quiescent s \<longrightarrow> linearizable_size (mlog s) = write_tail (mlog s)
         \<and> (\<forall>i < linearizable_size (mlog s). \<exists>v. claimed s i = Some v \<and> linearizable_at nb i (mlog s) = Some v))"
proof -
  have inv: "push_inv nb s" using push_inv_reach [OF assms push_inv_init] .
  have "linearizable_size (mlog s) = write_tail (mlog s)
      \<and> (\<forall>i < linearizable_size (mlog s). \<exists>v. claimed s i = Some v \<and> linearizable_at nb i (mlog s) = Some v)"
    if q: "quiescent s"
  proof -
    have none: "{t. active (pushers s t)} = {}" using q by (simp add: quiescent_def)
    have eq: "read_tail (mlog s) = write_tail (mlog s)" using push_invD(2) [OF inv] none by simp
    have "pushers s t \<noteq> Storing v i" for t v i using q by (metis quiescent_def active_simps(2))
    then show ?thesis
      using push_invD(3) [OF inv] eq by (simp add: linearizable_size_def linearizable_at_def entry_ok_def)
  qed
  then show ?thesis using push_invD(2) [OF inv] by (simp add: linearizable_size_def)
qed

lemma single_push_run:
  "\<exists>s :: nat push_system. push_reach 32 push_init s \<and> quiescent s
     \<and> linearizable_size (mlog s) = 1 \<and> claimed s 0 = Some 10"
proof -
  have v: "valid_index 32 0" by (simp add: valid_index_def FBS_def FBS_HIBIT_def)
  define s1 :: "nat push_system" where "s1 = push_init\<lparr>mlog := (mlog push_init)\<lparr>write_tail := take_bit 64 (0 + 1)\<rparr>,
       pushers := (pushers push_init)(1 := Storing 10 0), claimed := (claimed push_init)(0 \<mapsto> 10)\<rparr>"
  have 1: "push_step 32 push_init s1"
    unfolding s1_def using v by (intro push_step.claim) (simp_all add: push_init_def linearizable_init_def)
  obtain l where l: "monolog_set 32 0 10 (mlog s1) = Some l" using monolog_set_total [OF v] by (rule exE)
  define s2 where "s2 = s1\<lparr>mlog := l, pushers := (pushers s1)(1 := Publishing 0)\<rparr>"
  have 2: "push_step 32 s1 s2"
    unfolding s2_def using l by (intro push_step.store) (simp_all add: s1_def)
  have rt: "read_tail l = 0"
    using set_keeps_tails(2) [OF v l] by (simp add: s1_def push_init_def linearizable_init_def)
  define s3 where "s3 = s2\<lparr>mlog := (mlog s2)\<lparr>read_tail := take_bit 64 (0 + 1)\<rparr>,
       pushers := (pushers s2)(1 := Returned 0)\<rparr>"
  have 3: "push_step 32 s2 s3"
    unfolding s3_def using rt by (intro push_step.publish) (simp_all add: s2_def)
  have "push_reach 32 push_init s3" using 1 2 3 by (meson push_reach.intros)
  then show ?thesis
    by (intro exI [of _ s3]) (simp add: s3_def s2_def s1_def push_init_def quiescent_def
        linearizable_size_def take_bit_eq_mod)
qed

theorem concurrent_push_back_quiescent_witness:
  "\<exists>s :: nat push_system. push_reach 32 push_init s \<and> linearizable_size (mlog s) = 1
     \<and> linearizable_at 32 0 (mlog s) = Some 10"
proof -
  obtain s :: "nat push_system" where s: "push_reach 32 push_init s" "quiescent s"
    "linearizable_size (mlog s) = 1" "claimed s 0 = Some 10"
    using single_push_run by blast
  then show ?thesis using concurrent_push_back_quiescent [OF s(1)] by auto
qed

lemma get_fresh_None: "buckets m = monolog_base_init \<Longrightarrow> monolog_get nb i m = None"
  by (cases "bucket_pos i")
    (auto simp: monolog_get_def load_cell_def load_bucket_def monolog_base_init_def bind_None_iff split: if_splits)

text \<open>
  Two threads: thread 1 claims position 0 and is delayed; thread 2 claims position 1, stores
  its value there and enters the loop, where its first exchange fails.
\<close>

lemma overtaking_run:
  assumes "0 < nb"
  shows "\<exists>s :: nat push_system. push_reach nb push_init s
    \<and> pushers s 1 = Storing 10 0 \<and> pushers s 2 = Returned 0
    \<and> linearizable_size (mlog s) = 1 \<and> linearizable_at nb 0 (mlog s) = None
    \<and> linearizable_at nb 1 (mlog s) = Some 20"
proof -
  have v: "valid_index nb 0" "valid_index nb 1"
    using power_increasing [of "5::nat" "nb + 4" "2::nat"] assms
    by (simp_all add: valid_index_def FBS_def FBS_HIBIT_def)
  define s1 :: "nat push_system" where "s1 = push_init\<lparr>mlog := (mlog push_init)\<lparr>write_tail := take_bit 64 (0 + 1)\<rparr>,
       pushers := (pushers push_init)(1 := Storing 10 0), claimed := (claimed push_init)(0 \<mapsto> 10)\<rparr>"
  have 1: "push_step nb push_init s1"
    unfolding s1_def using v by (intro push_step.claim) (simp_all add: push_init_def linearizable_init_def)
  define s2 where "s2 = s1\<lparr>mlog := (mlog s1)\<lparr>write_tail := take_bit 64 (1 + 1)\<rparr>,
       pushers := (pushers s1)(2 := Storing 20 1), claimed := (claimed s1)(1 \<mapsto> 20)\<rparr>"
  have 2: "push_step nb s1 s2"
    unfolding s2_def using v
    by (intro push_step.claim) (simp_all add: s1_def push_init_def linearizable_init_def take_bit_eq_mod)
  obtain l where l: "monolog_set nb 1 20 (mlog s2) = Some l" using monolog_set_total [OF v(2)] by (rule exE)
  define s3 where "s3 = s2\<lparr>mlog := l, pushers := (pushers s2)(2 := Publishing 1)\<rparr>"
  have 3: "push_step nb s2 s3"
    unfolding s3_def using l by (intro push_step.store) (simp_all add: s2_def)
  have rt: "read_tail l = 0"
    using set_keeps_tails(2) [OF v(2) l] by (simp add: s2_def s1_def push_init_def linearizable_init_def)
  define s4 where "s4 = s3\<lparr>pushers := (pushers s3)(2 := Publishing 0)\<rparr>"
  have 4: "push_step nb s3 s4"
    unfolding s4_def using rt push_step.retry [of s3 2 1 nb] by (simp add: s3_def)
  define s5 where "s5 = s4\<lparr>mlog := (mlog s4)\<lparr>read_tail := take_bit 64 (0 + 1)\<rparr>,
       pushers := (pushers s4)(2 := Returned 0)\<rparr>"
  have 5: "push_step nb s4 s5"
    unfolding s5_def using rt by (intro push_step.publish) (simp_all add: s4_def s3_def)
  have "monolog_get nb 0 (mlog s2) = None"
    by (rule get_fresh_None) (simp add: s2_def s1_def push_init_def linearizable_init_def)
  then have "monolog_get nb 0 l = None" "monolog_get nb 1 l = Some 20"
    using base_array.get_set_at [OF v(2) v(1) l] base_array.get_set_at [OF v(2) v(2) l] by simp_all
  moreover have "push_reach nb push_init s5"
    using 1 2 3 4 5 by (meson push_reach.intros)
  ultimately show ?thesis
    by (intro exI [of _ s5]) (simp add: s5_def s4_def s3_def s2_def s1_def linearizable_size_def
        linearizable_at_def take_bit_eq_mod)
qed

text \<open>
  C30. Concurrent calls of \<^verbatim>\<open>push_back\<close> break what the class promises (``read operations can only
  access data for completed writes''). The failed exchange of the loop overwrites \<^verbatim>\<open>idx\<close> with the
  read tail, so a thread publishes a position that is not its own: for every number of buckets
  there is a run after which the size is 1 while entry 0 was never written, its writer still being in
  the middle of its call; and the thread that pushed 20 got index 0 though its value is at index 1.
\<close>

theorem concurrent_push_back_publishes_unwritten:
  assumes "0 < nb"
  shows "\<exists>s :: nat push_system. push_reach nb push_init s
    \<and> pushers s 1 = Storing 10 0 \<and> pushers s 2 = Returned 0
    \<and> linearizable_size (mlog s) = 1 \<and> linearizable_at nb 0 (mlog s) = None
    \<and> linearizable_at nb 1 (mlog s) = Some 20"
  using overtaking_run [OF assms] .

theorem concurrent_push_back_publishes_unwritten_witness:
  "\<exists>s :: nat push_system. push_reach 32 push_init s
    \<and> linearizable_size (mlog s) = 1 \<and> linearizable_at 32 0 (mlog s) = None"
  using concurrent_push_back_publishes_unwritten [of 32] by auto

end
