(* ===== verification/Monolog_Atomic.thy ===== *)
theory Monolog_Atomic
  imports Monolog_Base
begin

section \<open>The bucketed log of atomic cells (monolog.h, class __atomic_monolog_base)\<close>

text \<open>
  The same addressing as \<open>__monolog_base\<close> over cells of type \<^verbatim>\<open>std::atomic<T>\<close>. A bucket that is allocated later is
  filled with \<^verbatim>\<open>T(0)\<close>, the argument \<open>z\<close>; the cells of the first bucket, which the constructor allocates, are left
  uninitialised. \<^verbatim>\<open>operator[]\<close> and \<^verbatim>\<open>cas\<close> do not compile when they are instantiated (a reference to a
  temporary, and a member that \<^verbatim>\<open>std::atomic\<close> does not have) and have no model.
\<close>

definition atomic_new_bucket :: "'a \<Rightarrow> nat \<Rightarrow> 'a cells" where
  "atomic_new_bucket z n = (\<lambda>i. if i < n then Some z else None)"

definition atomic_try_allocate ::
  "'a \<Rightarrow> nat \<Rightarrow> nat \<Rightarrow> ('a, 'm) monolog_base_scheme \<Rightarrow> (('a, 'm) monolog_base_scheme \<times> nat) option" where
  "atomic_try_allocate z nb b m =
     (if b + FBS_HIBIT < 32 \<and> b < nb
      then Some (case buckets m b of
                   None \<Rightarrow> m\<lparr>buckets := (buckets m)(b \<mapsto> atomic_new_bucket z (bucket_size b))\<rparr>
                 | Some _ \<Rightarrow> m, bucket_size b)
      else None)"

definition atomic_ensure ::
  "'a \<Rightarrow> nat \<Rightarrow> nat \<Rightarrow> ('a, 'm) monolog_base_scheme \<Rightarrow> ('a, 'm) monolog_base_scheme option" where
  "atomic_ensure z nb b m = do {
     ref \<leftarrow> load_bucket nb b m;
     (case ref of None \<Rightarrow> map_option fst (atomic_try_allocate z nb b m) | Some _ \<Rightarrow> Some m) }"

definition atomic_alloc ::
  "'a \<Rightarrow> nat \<Rightarrow> nat \<Rightarrow> ('a, 'm) monolog_base_scheme \<Rightarrow> ('a, 'm) monolog_base_scheme option" where
  "atomic_alloc z nb idx m = do {
     hibit \<leftarrow> highest_bit (take_bit 64 (idx + FBS));
     atomic_ensure z nb (take_bit 64 (hibit + (2 ^ 64 - FBS_HIBIT))) m }"

definition atomic_store ::
  "'a \<Rightarrow> nat \<Rightarrow> nat \<Rightarrow> 'a \<Rightarrow> ('a, 'm) monolog_base_scheme \<Rightarrow> ('a, 'm) monolog_base_scheme option" where
  "atomic_store z nb idx val m = do {
     (b, off) \<leftarrow> bucket_pos idx;
     m' \<leftarrow> atomic_ensure z nb b m;
     store_cell nb b off val m' }"

definition atomic_set ::
  "'a \<Rightarrow> nat \<Rightarrow> nat \<Rightarrow> 'a \<Rightarrow> ('a, 'm) monolog_base_scheme \<Rightarrow> ('a, 'm) monolog_base_scheme option" where
  "atomic_set z nb idx val m = atomic_store z nb idx val m"

definition atomic_load :: "nat \<Rightarrow> nat \<Rightarrow> ('a, 'm) monolog_base_scheme \<Rightarrow> 'a option" where
  "atomic_load nb idx m = do {
     (b, off) \<leftarrow> bucket_pos idx;
     load_cell nb b off m }"

definition atomic_get :: "nat \<Rightarrow> nat \<Rightarrow> ('a, 'm) monolog_base_scheme \<Rightarrow> 'a option" where
  "atomic_get nb idx m = atomic_load nb idx m"

section \<open>Reads after writes\<close>

text \<open>
  Allocation changes what can be loaded, from undefined to zero. The contents a log stands for count the cells
  of buckets not yet allocated as zero.
\<close>

definition atomic_view :: "'a \<Rightarrow> nat \<Rightarrow> nat \<Rightarrow> ('a, 'm) monolog_base_scheme \<Rightarrow> 'a option" where
  "atomic_view z nb idx m = (case bucket_pos idx of
     None \<Rightarrow> None
   | Some (b, off) \<Rightarrow> if buckets m b = None then Some z else atomic_load nb idx m)"

definition atomic_cells :: "'a \<Rightarrow> nat \<Rightarrow> ('a, 'm) monolog_base_scheme \<Rightarrow> 'a cells" where
  "atomic_cells z b m = (case buckets m b of None \<Rightarrow> atomic_new_bucket z (bucket_size b) | Some c \<Rightarrow> c)"

lemma atomic_ensure_eq:
  assumes "b < nb" "b + FBS_HIBIT < 32"
  shows "atomic_ensure z nb b m = Some (m\<lparr>buckets := (buckets m)(b \<mapsto> atomic_cells z b m)\<rparr>)"
  using assms by (auto simp: atomic_ensure_def atomic_try_allocate_def load_bucket_def atomic_cells_def
      fun_upd_idem split: option.split)

lemma atomic_store_eq:
  assumes "bucket_pos i = Some (b, off)" "b < nb" "b + FBS_HIBIT < 32" "off < bucket_size b"
  shows "atomic_store z nb i v m = Some (m\<lparr>buckets := (buckets m)(b \<mapsto> (atomic_cells z b m)(off \<mapsto> v))\<rparr>)"
  using assms by (simp add: atomic_store_def atomic_ensure_eq store_cell_def load_bucket_def)

lemma atomic_view_eq:
  assumes "bucket_pos i = Some (b, off)" "b < nb" "off < bucket_size b"
  shows "atomic_view z nb i m = atomic_cells z b m off"
  using assms by (auto simp: atomic_view_def atomic_load_def load_cell_def load_bucket_def atomic_cells_def
      atomic_new_bucket_def split: option.split)

lemma atomic_view_store:
  assumes "valid_index nb i" "valid_index nb j" "atomic_store z nb i v m = Some m'"
  shows "atomic_view z nb j m' = (if j = i then Some v else atomic_view z nb j m)"
proof -
  obtain b off where "bucket_pos i = Some (b, off)" "b < nb" "b + FBS_HIBIT < 31" "off < bucket_size b"
    using valid_pos [OF assms(1)] by metis
  then have i: "bucket_pos i = Some (b, off)" "b < nb" "b + FBS_HIBIT < 32" "off < bucket_size b" by simp_all
  obtain b' off' where j: "bucket_pos j = Some (b', off')" "b' < nb" "off' < bucket_size b'"
    using valid_pos [OF assms(2)] by metis
  have eq: "j = i \<longleftrightarrow> b' = b \<and> off' = off" using bucket_pos_inj [OF assms(1,2)] i(1) j(1) by auto
  have m': "m' = m\<lparr>buckets := (buckets m)(b \<mapsto> (atomic_cells z b m)(off \<mapsto> v))\<rparr>"
    using assms(3) by (simp add: atomic_store_eq [OF i])
  show ?thesis
    unfolding atomic_view_eq [OF j] eq by (auto simp: m' atomic_cells_def)
qed

lemma atomic_store_total:
  assumes "valid_index nb i"
  shows "\<exists>m'. atomic_store z nb i v m = Some m'"
proof -
  obtain b off where i: "bucket_pos i = Some (b, off)" "b < nb" "b + FBS_HIBIT < 31" "off < bucket_size b"
    using valid_pos [OF assms] by metis
  then show ?thesis by (simp add: atomic_store_eq [OF i(1,2) _ i(4)])
qed

interpretation atomic_array: array_log "valid_index nb" "atomic_set z nb" "atomic_view z nb" for z nb
  by unfold_locales (simp_all add: atomic_set_def atomic_store_total atomic_view_store)

text \<open>A load of an allocated cell is the view; a value stored is loaded.\<close>

lemma atomic_load_view:
  assumes "bucket_pos i = Some (b, off)" "buckets m b \<noteq> None"
  shows "atomic_get nb i m = atomic_view z nb i m"
  using assms by (auto simp: atomic_view_def atomic_get_def)

lemma atomic_get_set:
  assumes "valid_index nb i" "atomic_set z nb i v m = Some m'"
  shows "atomic_get nb i m' = Some v"
proof -
  obtain b off where i: "bucket_pos i = Some (b, off)" "b < nb" "b + FBS_HIBIT < 31" "off < bucket_size b"
    using valid_pos [OF assms(1)] by metis
  have "buckets m' b \<noteq> None" using assms(2) i(3) by (auto simp: atomic_set_def atomic_store_eq [OF i(1,2) _ i(4)])
  then show ?thesis
    using atomic_load_view [OF i(1), of m' nb z] atomic_array.get_set_same [OF assms] by simp
qed

text \<open>
  \<^verbatim>\<open>alloc\<close> keeps the contents and makes them loadable. On a new log, indexes from 16 on then load as
  zero, but those below are indeterminate.
\<close>

lemma atomic_alloc_spec:
  assumes "valid_index nb i"
  shows "\<exists>m'. atomic_alloc z nb i m = Some m' \<and> atomic_get nb i m' = atomic_view z nb i m
    \<and> (\<forall>j. valid_index nb j \<longrightarrow> atomic_view z nb j m' = atomic_view z nb j m)"
proof -
  obtain b off where i: "bucket_pos i = Some (b, off)" "b < nb" "b + FBS_HIBIT < 31" "off < bucket_size b"
    using valid_pos [OF assms] by metis
  let ?m = "m\<lparr>buckets := (buckets m)(b \<mapsto> atomic_cells z b m)\<rparr>"
  have "atomic_alloc z nb i m = atomic_ensure z nb b m"
    using i(1) by (auto simp: atomic_alloc_def bucket_pos_def Let_def bind_Some_iff)
  then have run: "atomic_alloc z nb i m = Some ?m" using i by (simp add: atomic_ensure_eq)
  have view: "atomic_view z nb j ?m = atomic_view z nb j m" if j: "valid_index nb j" for j
  proof -
    obtain b' off' where j: "bucket_pos j = Some (b', off')" "b' < nb" "off' < bucket_size b'"
      using valid_pos [OF j] by metis
    show ?thesis unfolding atomic_view_eq [OF j] by (auto simp: atomic_cells_def)
  qed
  have "atomic_get nb i ?m = atomic_view z nb i ?m" by (rule atomic_load_view [OF i(1)]) simp
  then show ?thesis using run view assms by auto
qed

lemma atomic_first_bucket_indeterminate:
  assumes "valid_index nb i"
  shows "atomic_view z nb i \<lparr>buckets = monolog_base_init\<rparr> = (if i < 16 then None else Some z)"
proof -
  obtain b off where i: "bucket_pos i = Some (b, off)" "b < nb" "b + FBS_HIBIT < 31" "off < bucket_size b"
    "i + FBS = bucket_size b + off"
    using valid_pos [OF assms] by metis
  have "b = 0 \<longleftrightarrow> i < 16"
  proof
    assume "b = 0"
    then show "i < 16" using i(4,5) by (simp add: bucket_size_def FBS_HIBIT_def FBS_def)
  next
    assume "i < 16"
    then have "(2::nat) ^ (b + FBS_HIBIT) < 2 ^ Suc FBS_HIBIT" using i(5) by (simp add: bucket_size_def FBS_def FBS_HIBIT_def)
    then have "b + FBS_HIBIT < Suc FBS_HIBIT" by (rule power_less_imp_less_exp [rotated]) simp
    then show "b = 0" by simp
  qed
  then show ?thesis
    unfolding atomic_view_eq [OF i(1,2,4)] using i(4)
    by (auto simp: atomic_cells_def monolog_base_init_def atomic_new_bucket_def)
qed

end
