(* ===== verification/Tiered_Index.thy ===== *)
theory Tiered_Index
  imports Monolog
begin

section \<open>Tiered indexes (tieredindex.h)\<close>

text \<open>
  A tiered index maps a key to an entry list through up to four levels of fixed-size arrays of
  pointers (\<open>indexlet\<close>). A pointer is modelled by the object it owns, every object of an
  index having one owner; \<open>get\<close> creates the object when the pointer is null, and \<open>store\<close>
  is the write through the pointer that \<open>get\<close> returned. The template parameters \<open>SIZE1\<close>, \dots{}
  are arguments, and so is the value \<open>fresh\<close> of a default-constructed object. The argument of
  an indexlet is a \<open>uint32_t\<close>, so a key is truncated to 32 bits on the way; an access outside
  the array is undefined.
\<close>

type_synonym 'v indexlet = "nat \<rightharpoonup> 'v"

definition indexlet_init :: "'v indexlet" where
  "indexlet_init = Map.empty"

definition indexlet_get :: "nat \<Rightarrow> 'v \<Rightarrow> nat \<Rightarrow> 'v indexlet \<Rightarrow> ('v indexlet \<times> 'v) option" where
  "indexlet_get sz fresh key idx =
     (let i = take_bit 32 key in
      if i < sz then Some (case idx i of None \<Rightarrow> (idx(i \<mapsto> fresh), fresh) | Some v \<Rightarrow> (idx, v))
      else None)"

definition indexlet_at :: "nat \<Rightarrow> nat \<Rightarrow> 'v indexlet \<Rightarrow> 'v option option" where
  "indexlet_at sz key idx =
     (let i = take_bit 32 key in if i < sz then Some (idx i) else None)"

definition indexlet_store :: "nat \<Rightarrow> 'v \<Rightarrow> 'v indexlet \<Rightarrow> 'v indexlet" where
  "indexlet_store key v idx = idx(take_bit 32 key \<mapsto> v)"

definition indexlet_size :: "nat \<Rightarrow> nat" where
  "indexlet_size sz = sz"

definition indexlet_storage_size :: "nat \<Rightarrow> ('v \<Rightarrow> nat) \<Rightarrow> 'v indexlet \<Rightarrow> nat" where
  "indexlet_storage_size sz val_size idx =
     sz * 8 + (\<Sum>i\<leftarrow>[0..<sz]. case idx i of None \<Rightarrow> 0 | Some v \<Rightarrow> val_size v)"

subsection \<open>Depth 1\<close>

definition d1_get :: "nat \<Rightarrow> 'v \<Rightarrow> nat \<Rightarrow> 'v indexlet \<Rightarrow> ('v indexlet \<times> 'v) option" where
  "d1_get sz fresh key idx = indexlet_get sz fresh key idx"

definition d1_store :: "nat \<Rightarrow> 'v \<Rightarrow> 'v indexlet \<Rightarrow> 'v indexlet" where
  "d1_store key v idx = indexlet_store key v idx"

definition d1_at :: "nat \<Rightarrow> nat \<Rightarrow> 'v indexlet \<Rightarrow> 'v option option" where
  "d1_at sz key idx = indexlet_at sz key idx"

definition d1_max_size :: "nat \<Rightarrow> nat" where
  "d1_max_size sz = sz"

definition d1_storage_size :: "nat \<Rightarrow> ('v \<Rightarrow> nat) \<Rightarrow> 'v indexlet \<Rightarrow> nat" where
  "d1_storage_size sz val_size idx = indexlet_storage_size sz val_size idx"

subsection \<open>One level on top of another\<close>

text \<open>
  The classes of depth 2, 3 and 4 have the same bodies: the key divided by the number \<open>blk\<close>
  of keys below selects the inner index, the remainder is looked up there.
\<close>

definition tier_get :: "nat \<Rightarrow> nat \<Rightarrow> (nat \<Rightarrow> 'i \<Rightarrow> ('i \<times> 'v) option) \<Rightarrow> 'i \<Rightarrow> nat \<Rightarrow>
    'i indexlet \<Rightarrow> ('i indexlet \<times> 'v) option" where
  "tier_get sz blk inner_get inner_fresh key idx = do {
     (idx', ilet) \<leftarrow> indexlet_get sz inner_fresh (key div blk) idx;
     (ilet', v) \<leftarrow> inner_get (key mod blk) ilet;
     Some (indexlet_store (key div blk) ilet' idx', v) }"

definition tier_store :: "nat \<Rightarrow> (nat \<Rightarrow> 'v \<Rightarrow> 'i \<Rightarrow> 'i) \<Rightarrow> nat \<Rightarrow> 'v \<Rightarrow> 'i indexlet \<Rightarrow> 'i indexlet" where
  "tier_store blk inner_store key v idx =
     (case idx (take_bit 32 (key div blk)) of
        None \<Rightarrow> idx
      | Some ilet \<Rightarrow> indexlet_store (key div blk) (inner_store (key mod blk) v ilet) idx)"

definition tier_at :: "nat \<Rightarrow> nat \<Rightarrow> (nat \<Rightarrow> 'i \<Rightarrow> 'v option option) \<Rightarrow> nat \<Rightarrow>
    'i indexlet \<Rightarrow> 'v option option" where
  "tier_at sz blk inner_at key idx = do {
     ref \<leftarrow> indexlet_at sz (key div blk) idx;
     (case ref of Some ilet \<Rightarrow> inner_at (key mod blk) ilet | None \<Rightarrow> Some None) }"

subsection \<open>Depths 2, 3 and 4\<close>

definition d2_get :: "nat \<Rightarrow> nat \<Rightarrow> 'v \<Rightarrow> nat \<Rightarrow> 'v indexlet indexlet \<Rightarrow> ('v indexlet indexlet \<times> 'v) option" where
  "d2_get s1 s2 fresh = tier_get s1 s2 (d1_get s2 fresh) indexlet_init"

definition d2_store :: "nat \<Rightarrow> nat \<Rightarrow> 'v \<Rightarrow> 'v indexlet indexlet \<Rightarrow> 'v indexlet indexlet" where
  "d2_store s2 = tier_store s2 d1_store"

definition d2_at :: "nat \<Rightarrow> nat \<Rightarrow> nat \<Rightarrow> 'v indexlet indexlet \<Rightarrow> 'v option option" where
  "d2_at s1 s2 = tier_at s1 s2 (d1_at s2)"

definition d2_max_size :: "nat \<Rightarrow> nat \<Rightarrow> nat" where
  "d2_max_size s1 s2 = take_bit 64 (s1 * s2)"

definition d2_storage_size :: "nat \<Rightarrow> nat \<Rightarrow> ('v \<Rightarrow> nat) \<Rightarrow> 'v indexlet indexlet \<Rightarrow> nat" where
  "d2_storage_size s1 s2 val_size = indexlet_storage_size s1 (d1_storage_size s2 val_size)"

definition d3_get :: "nat \<Rightarrow> nat \<Rightarrow> nat \<Rightarrow> 'v \<Rightarrow> nat \<Rightarrow> 'v indexlet indexlet indexlet \<Rightarrow>
    ('v indexlet indexlet indexlet \<times> 'v) option" where
  "d3_get s1 s2 s3 fresh = tier_get s1 (s2 * s3) (d2_get s2 s3 fresh) indexlet_init"

definition d3_store :: "nat \<Rightarrow> nat \<Rightarrow> nat \<Rightarrow> 'v \<Rightarrow> 'v indexlet indexlet indexlet \<Rightarrow> 'v indexlet indexlet indexlet" where
  "d3_store s2 s3 = tier_store (s2 * s3) (d2_store s3)"

definition d3_at :: "nat \<Rightarrow> nat \<Rightarrow> nat \<Rightarrow> nat \<Rightarrow> 'v indexlet indexlet indexlet \<Rightarrow> 'v option option" where
  "d3_at s1 s2 s3 = tier_at s1 (s2 * s3) (d2_at s2 s3)"

definition d3_max_size :: "nat \<Rightarrow> nat \<Rightarrow> nat \<Rightarrow> nat" where
  "d3_max_size s1 s2 s3 = take_bit 64 (s1 * s2 * s3)"

definition d3_storage_size :: "nat \<Rightarrow> nat \<Rightarrow> nat \<Rightarrow> ('v \<Rightarrow> nat) \<Rightarrow> 'v indexlet indexlet indexlet \<Rightarrow> nat" where
  "d3_storage_size s1 s2 s3 val_size = indexlet_storage_size s1 (d2_storage_size s2 s3 val_size)"

definition d4_get :: "nat \<Rightarrow> nat \<Rightarrow> nat \<Rightarrow> nat \<Rightarrow> 'v \<Rightarrow> nat \<Rightarrow> 'v indexlet indexlet indexlet indexlet \<Rightarrow>
    ('v indexlet indexlet indexlet indexlet \<times> 'v) option" where
  "d4_get s1 s2 s3 s4 fresh = tier_get s1 (s2 * s3 * s4) (d3_get s2 s3 s4 fresh) indexlet_init"

definition d4_store :: "nat \<Rightarrow> nat \<Rightarrow> nat \<Rightarrow> nat \<Rightarrow> 'v \<Rightarrow> 'v indexlet indexlet indexlet indexlet \<Rightarrow>
    'v indexlet indexlet indexlet indexlet" where
  "d4_store s2 s3 s4 = tier_store (s2 * s3 * s4) (d3_store s3 s4)"

definition d4_at :: "nat \<Rightarrow> nat \<Rightarrow> nat \<Rightarrow> nat \<Rightarrow> nat \<Rightarrow> 'v indexlet indexlet indexlet indexlet \<Rightarrow> 'v option option" where
  "d4_at s1 s2 s3 s4 = tier_at s1 (s2 * s3 * s4) (d3_at s2 s3 s4)"

text \<open>The class of depth 4 leaves \<open>SIZE4\<close> out of its maximum size.\<close>

definition d4_max_size :: "nat \<Rightarrow> nat \<Rightarrow> nat \<Rightarrow> nat \<Rightarrow> nat" where
  "d4_max_size s1 s2 s3 s4 = take_bit 64 (s1 * s2 * s3)"

definition d4_storage_size :: "nat \<Rightarrow> nat \<Rightarrow> nat \<Rightarrow> nat \<Rightarrow> ('v \<Rightarrow> nat) \<Rightarrow> 'v indexlet indexlet indexlet indexlet \<Rightarrow> nat" where
  "d4_storage_size s1 s2 s3 s4 val_size = indexlet_storage_size s1 (d3_storage_size s2 s3 s4 val_size)"

subsection \<open>Adding entries\<close>

text \<open>\<open>add_entry\<close>, the same in all four classes: \<open>get\<close>, then \<open>push_back\<close> through the pointer.\<close>

definition index_add_entry :: "(nat \<Rightarrow> 'ix \<Rightarrow> ('ix \<times> entry_list) option) \<Rightarrow> (nat \<Rightarrow> entry_list \<Rightarrow> 'ix \<Rightarrow> 'ix) \<Rightarrow>
    nat \<Rightarrow> nat \<Rightarrow> 'ix \<Rightarrow> 'ix option" where
  "index_add_entry get store key val ix = do {
     (ix', list) \<leftarrow> get key ix;
     (list', _) \<leftarrow> el_push_back val list;
     Some (store key list' ix') }"

definition d1_add_entry :: "nat \<Rightarrow> nat \<Rightarrow> nat \<Rightarrow> entry_list indexlet \<Rightarrow> entry_list indexlet option" where
  "d1_add_entry sz = index_add_entry (d1_get sz new_entry_list) d1_store"

definition d2_add_entry :: "nat \<Rightarrow> nat \<Rightarrow> nat \<Rightarrow> nat \<Rightarrow> entry_list indexlet indexlet \<Rightarrow>
    entry_list indexlet indexlet option" where
  "d2_add_entry s1 s2 = index_add_entry (d2_get s1 s2 new_entry_list) (d2_store s2)"

definition d3_add_entry :: "nat \<Rightarrow> nat \<Rightarrow> nat \<Rightarrow> nat \<Rightarrow> nat \<Rightarrow> entry_list indexlet indexlet indexlet \<Rightarrow>
    entry_list indexlet indexlet indexlet option" where
  "d3_add_entry s1 s2 s3 = index_add_entry (d3_get s1 s2 s3 new_entry_list) (d3_store s2 s3)"

definition d4_add_entry :: "nat \<Rightarrow> nat \<Rightarrow> nat \<Rightarrow> nat \<Rightarrow> nat \<Rightarrow> nat \<Rightarrow> entry_list indexlet indexlet indexlet indexlet \<Rightarrow>
    entry_list indexlet indexlet indexlet indexlet option" where
  "d4_add_entry s1 s2 s3 s4 = index_add_entry (d4_get s1 s2 s3 s4 new_entry_list) (d4_store s2 s3 s4)"

section \<open>The contract of an index\<close>

text \<open>
  What the log store relies on: on the keys the index covers, \<open>at\<close> returns the value or null,
  \<open>get\<close> creates the value if it is missing and changes nothing else, and a write through the
  pointer changes the value of its key only.
\<close>

locale key_index =
  fixes covers :: "nat \<Rightarrow> bool"
    and fresh :: 'v
    and get :: "nat \<Rightarrow> 'ix \<Rightarrow> ('ix \<times> 'v) option"
    and store :: "nat \<Rightarrow> 'v \<Rightarrow> 'ix \<Rightarrow> 'ix"
    and at :: "nat \<Rightarrow> 'ix \<Rightarrow> 'v option option"
    and init :: 'ix
  assumes at_total: "covers k \<Longrightarrow> at k ix \<noteq> None"
    and at_init: "covers k \<Longrightarrow> at k init = Some None"
    and get_at: "covers k \<Longrightarrow> \<exists>ix'. get k ix = Some (ix', case the (at k ix) of None \<Rightarrow> fresh | Some v \<Rightarrow> v)
      \<and> at k ix' = Some (Some (case the (at k ix) of None \<Rightarrow> fresh | Some v \<Rightarrow> v))
      \<and> (\<forall>k'. covers k' \<longrightarrow> k' \<noteq> k \<longrightarrow> at k' ix' = at k' ix)"
    and store_at: "covers k \<Longrightarrow> covers k' \<Longrightarrow> at k ix = Some (Some old) \<Longrightarrow>
      at k' (store k v ix) = (if k' = k then Some (Some v) else at k' ix)"
begin

lemma get_store_at:
  assumes "covers k"
  shows "\<exists>ix'. get k ix = Some (ix', case the (at k ix) of None \<Rightarrow> fresh | Some v \<Rightarrow> v)
    \<and> at k (store k v ix') = Some (Some v)
    \<and> (\<forall>k'. covers k' \<longrightarrow> k' \<noteq> k \<longrightarrow> at k' (store k v ix') = at k' ix)"
proof -
  obtain ix' where ix': "get k ix = Some (ix', case the (at k ix) of None \<Rightarrow> fresh | Some v \<Rightarrow> v)"
    "at k ix' = Some (Some (case the (at k ix) of None \<Rightarrow> fresh | Some v \<Rightarrow> v))"
    "\<forall>k'. covers k' \<longrightarrow> k' \<noteq> k \<longrightarrow> at k' ix' = at k' ix"
    using get_at [OF assms] by (rule exE) auto
  show ?thesis
    using ix' store_at [OF assms _ ix'(2)] assms by (intro exI [of _ ix']) simp
qed

end

text \<open>An index of one level keeps the contract, and so does a level on top of an index that does.\<close>

definition d1_covers :: "nat \<Rightarrow> nat \<Rightarrow> bool" where
  "d1_covers sz k \<longleftrightarrow> k < sz \<and> k < 2 ^ 32"

definition tier_covers :: "nat \<Rightarrow> nat \<Rightarrow> (nat \<Rightarrow> bool) \<Rightarrow> nat \<Rightarrow> bool" where
  "tier_covers sz blk inner k \<longleftrightarrow> d1_covers sz (k div blk) \<and> inner (k mod blk)"

interpretation d1: key_index "d1_covers sz" fresh "d1_get sz fresh" d1_store "d1_at sz" indexlet_init
  for sz fresh
proof unfold_locales
  show "d1_at sz k ix \<noteq> None" "d1_at sz k indexlet_init = Some None" if "d1_covers sz k" for k ix
    using that by (simp_all add: d1_covers_def d1_at_def indexlet_at_def take_bit_32_id indexlet_init_def)
  show "\<exists>ix'. d1_get sz fresh k ix = Some (ix', case the (d1_at sz k ix) of None \<Rightarrow> fresh | Some v \<Rightarrow> v)
      \<and> d1_at sz k ix' = Some (Some (case the (d1_at sz k ix) of None \<Rightarrow> fresh | Some v \<Rightarrow> v))
      \<and> (\<forall>k'. d1_covers sz k' \<longrightarrow> k' \<noteq> k \<longrightarrow> d1_at sz k' ix' = d1_at sz k' ix)" if "d1_covers sz k" for k ix
    using that by (cases "ix k") (auto simp: d1_covers_def d1_get_def d1_at_def indexlet_at_def
        indexlet_get_def take_bit_32_id)
  show "d1_at sz k' (d1_store k v ix) = (if k' = k then Some (Some v) else d1_at sz k' ix)"
    if "d1_covers sz k" "d1_covers sz k'" for k k' ix v
    using that by (simp add: d1_covers_def d1_at_def d1_store_def indexlet_at_def indexlet_store_def take_bit_32_id)
qed

lemma tier_at_eq:
  assumes "tier_covers sz blk inner k"
  shows "tier_at sz blk inner_at k ix =
    (case ix (k div blk) of None \<Rightarrow> Some None | Some il \<Rightarrow> inner_at (k mod blk) il)"
  using assms by (auto simp: tier_covers_def d1_covers_def tier_at_def indexlet_at_def take_bit_32_id
      split: option.split)

lemma tier_get_eq:
  assumes "tier_covers sz blk inner k"
    and "inner_get (k mod blk) (case ix (k div blk) of None \<Rightarrow> inner_fresh | Some il \<Rightarrow> il) = Some (il', v)"
  shows "tier_get sz blk inner_get inner_fresh k ix = Some (ix(k div blk \<mapsto> il'), v)"
  using assms by (cases "ix (k div blk)")
    (auto simp: tier_covers_def d1_covers_def tier_get_def indexlet_get_def indexlet_store_def take_bit_32_id)

lemma tier_at_upd:
  assumes "tier_covers sz blk inner k'"
    and "\<And>r. inner r \<Longrightarrow> inner_at r il' = (if r = k mod blk then w else inner_at r il)"
    and "\<And>r. inner r \<Longrightarrow> inner_at r il = (case ix (k div blk) of None \<Rightarrow> Some None | Some il \<Rightarrow> inner_at r il)"
  shows "tier_at sz blk inner_at k' (ix(k div blk \<mapsto> il')) = (if k' = k then w else tier_at sz blk inner_at k' ix)"
proof (cases "k' div blk = k div blk")
  case True
  have inner: "inner (k' mod blk)" using assms(1) by (simp add: tier_covers_def)
  have "k' mod blk = k mod blk \<longleftrightarrow> k' = k" using True by (metis div_mult_mod_eq)
  then show ?thesis
    using True assms(2) [OF inner] assms(3) [OF inner] by (simp add: tier_at_eq [OF assms(1)])
next
  case False
  then show ?thesis by (auto simp: tier_at_eq [OF assms(1)])
qed

lemma tier_key_index:
  assumes "key_index inner fresh inner_get inner_store inner_at inner_init"
  shows "key_index (tier_covers sz blk inner) fresh (tier_get sz blk inner_get inner_init)
    (tier_store blk inner_store) (tier_at sz blk inner_at) indexlet_init"
proof
  note laws = key_index.at_total [OF assms] key_index.at_init [OF assms]
  fix k assume k: "tier_covers sz blk inner k"
  then have r: "inner (k mod blk)" by (simp add: tier_covers_def)
  show "tier_at sz blk inner_at k ix \<noteq> None" for ix
    using laws(1) [OF r] by (auto simp: tier_at_eq [OF k] split: option.split)
  show "tier_at sz blk inner_at k indexlet_init = Some None"
    by (simp add: tier_at_eq [OF k] indexlet_init_def)
  show "\<exists>ix'. tier_get sz blk inner_get inner_init k ix
        = Some (ix', case the (tier_at sz blk inner_at k ix) of None \<Rightarrow> fresh | Some v \<Rightarrow> v)
      \<and> tier_at sz blk inner_at k ix' = Some (Some (case the (tier_at sz blk inner_at k ix) of None \<Rightarrow> fresh | Some v \<Rightarrow> v))
      \<and> (\<forall>k'. tier_covers sz blk inner k' \<longrightarrow> k' \<noteq> k \<longrightarrow> tier_at sz blk inner_at k' ix' = tier_at sz blk inner_at k' ix)" for ix
  proof -
    define il where "il = (case ix (k div blk) of None \<Rightarrow> inner_init | Some il \<Rightarrow> il)"
    have il: "inner_at q il = (case ix (k div blk) of None \<Rightarrow> Some None | Some il \<Rightarrow> inner_at q il)" if "inner q" for q
      using laws(2) [OF that] by (auto simp: il_def split: option.split)
    define v where "v = (case the (inner_at (k mod blk) il) of None \<Rightarrow> fresh | Some v \<Rightarrow> v)"
    obtain il' where il': "inner_get (k mod blk) il = Some (il', v)" "inner_at (k mod blk) il' = Some (Some v)"
      "\<forall>q. inner q \<longrightarrow> q \<noteq> k mod blk \<longrightarrow> inner_at q il' = inner_at q il"
      unfolding v_def using key_index.get_at [OF assms r, of il] by (rule exE) auto
    have upd: "tier_at sz blk inner_at k' (ix(k div blk \<mapsto> il')) = (if k' = k then Some (Some v) else tier_at sz blk inner_at k' ix)"
      if "tier_covers sz blk inner k'" for k'
      using that il' il by (intro tier_at_upd [where inner = inner and il = il]) auto
    have v: "v = (case the (tier_at sz blk inner_at k ix) of None \<Rightarrow> fresh | Some v \<Rightarrow> v)"
      unfolding v_def tier_at_eq [OF k] il [OF r] ..
    show ?thesis
      using tier_get_eq [OF k, where inner_get = inner_get and ix = ix, OF il'(1) [unfolded il_def]] upd k unfolding v [symmetric] by auto
  qed
  show "tier_at sz blk inner_at k' (tier_store blk inner_store k v ix)
      = (if k' = k then Some (Some v) else tier_at sz blk inner_at k' ix)"
    if k': "tier_covers sz blk inner k'" and old: "tier_at sz blk inner_at k ix = Some (Some old)" for k' ix old v
  proof -
    obtain il where il: "ix (k div blk) = Some il" "inner_at (k mod blk) il = Some (Some old)"
      using old by (auto simp: tier_at_eq [OF k] split: option.splits)
    have eq: "tier_store blk inner_store k v ix = ix(k div blk \<mapsto> inner_store (k mod blk) v il)"
      using k il(1) by (simp add: tier_store_def indexlet_store_def tier_covers_def d1_covers_def take_bit_32_id)
    show ?thesis
      unfolding eq
      by (rule tier_at_upd [OF k', where il = il])
        (simp_all add: il(1) key_index.store_at [OF assms r _ il(2)])
  qed
qed

definition d2_covers :: "nat \<Rightarrow> nat \<Rightarrow> nat \<Rightarrow> bool" where
  "d2_covers s1 s2 = tier_covers s1 s2 (d1_covers s2)"

definition d3_covers :: "nat \<Rightarrow> nat \<Rightarrow> nat \<Rightarrow> nat \<Rightarrow> bool" where
  "d3_covers s1 s2 s3 = tier_covers s1 (s2 * s3) (d2_covers s2 s3)"

definition d4_covers :: "nat \<Rightarrow> nat \<Rightarrow> nat \<Rightarrow> nat \<Rightarrow> nat \<Rightarrow> bool" where
  "d4_covers s1 s2 s3 s4 = tier_covers s1 (s2 * s3 * s4) (d3_covers s2 s3 s4)"

interpretation d2: key_index "d2_covers s1 s2" fresh "d2_get s1 s2 fresh" "d2_store s2" "d2_at s1 s2" indexlet_init
  for s1 s2 fresh
  unfolding d2_covers_def d2_get_def d2_store_def d2_at_def
  by (rule tier_key_index [OF d1.key_index_axioms])

interpretation d3: key_index "d3_covers s1 s2 s3" fresh "d3_get s1 s2 s3 fresh" "d3_store s2 s3" "d3_at s1 s2 s3" indexlet_init
  for s1 s2 s3 fresh
  unfolding d3_covers_def d3_get_def d3_store_def d3_at_def
  by (rule tier_key_index [OF d2.key_index_axioms])

interpretation d4: key_index "d4_covers s1 s2 s3 s4" fresh "d4_get s1 s2 s3 s4 fresh" "d4_store s2 s3 s4" "d4_at s1 s2 s3 s4" indexlet_init
  for s1 s2 s3 s4 fresh
  unfolding d4_covers_def d4_get_def d4_store_def d4_at_def
  by (rule tier_key_index [OF d3.key_index_axioms])

section \<open>Indexes of entry lists as multimaps\<close>

text \<open>The entries an index has for a key, and that all its lists are complete and not empty.\<close>

definition index_list :: "(nat \<Rightarrow> 'ix \<Rightarrow> entry_list option option) \<Rightarrow> nat \<Rightarrow> 'ix \<Rightarrow> nat list" where
  "index_list at k ix =
     (case at k ix of Some (Some l) \<Rightarrow> relaxed_contents entry_list_nbuckets l | _ \<Rightarrow> [])"

definition index_ok :: "(nat \<Rightarrow> bool) \<Rightarrow> (nat \<Rightarrow> 'ix \<Rightarrow> entry_list option option) \<Rightarrow> 'ix \<Rightarrow> bool" where
  "index_ok covers at ix \<longleftrightarrow>
     (\<forall>k l. covers k \<longrightarrow> at k ix = Some (Some l) \<longrightarrow>
        relaxed_invar entry_list_nbuckets l \<and> relaxed_contents entry_list_nbuckets l \<noteq> [])"

text \<open>An entry list has room for \<open>2 ^ 28 - 16\<close> entries.\<close>

definition list_room :: "nat \<Rightarrow> bool" where
  "list_room n \<longleftrightarrow> valid_index entry_list_nbuckets n"

lemma list_room_iff: "list_room n \<longleftrightarrow> n < 2 ^ 28 - 16"
  by (auto simp: list_room_def valid_index_def entry_list_nbuckets_def FBS_def FBS_HIBIT_def)

lemma new_entry_list_invar: "relaxed_invar entry_list_nbuckets new_entry_list"
  "relaxed_contents entry_list_nbuckets new_entry_list = []"
  unfolding new_entry_list_def by (rule relaxed.invar_fresh relaxed.contents_fresh)+

locale entry_index = key_index covers new_entry_list get store at init
  for covers and get :: "nat \<Rightarrow> 'ix \<Rightarrow> ('ix \<times> entry_list) option" and store at init
begin

lemma index_list_init: "covers k \<Longrightarrow> index_list at k init = []"
  by (simp add: index_list_def at_init)

lemma index_ok_init: "index_ok covers at init"
  by (simp add: index_ok_def at_init)

lemma get_list:
  assumes "covers k" "index_ok covers at ix"
  shows "\<exists>ix' l. get k ix = Some (ix', l) \<and> relaxed_invar entry_list_nbuckets l
    \<and> relaxed_contents entry_list_nbuckets l = index_list at k ix
    \<and> (\<forall>l'. at k (store k l' ix') = Some (Some l')
         \<and> (\<forall>k'. covers k' \<longrightarrow> k' \<noteq> k \<longrightarrow> at k' (store k l' ix') = at k' ix))"
proof -
  define l where "l = (case the (at k ix) of None \<Rightarrow> new_entry_list | Some v \<Rightarrow> v)"
  obtain r where r: "at k ix = Some r" using at_total [OF assms(1), of ix] by auto
  have l: "relaxed_invar entry_list_nbuckets l" "relaxed_contents entry_list_nbuckets l = index_list at k ix"
    using assms r new_entry_list_invar by (auto simp: l_def index_ok_def index_list_def split: option.splits)
  show ?thesis
    using get_store_at [OF assms(1), of ix, folded l_def] l by (metis prod.inject option.inject)
qed

lemma store_list:
  assumes "covers k" "index_ok covers at ix"
    and "relaxed_invar entry_list_nbuckets l'" "relaxed_contents entry_list_nbuckets l' \<noteq> []"
    and "at k ix' = Some (Some l')" "\<forall>k'. covers k' \<longrightarrow> k' \<noteq> k \<longrightarrow> at k' ix' = at k' ix"
  shows "index_ok covers at ix'"
    and "covers k' \<Longrightarrow> index_list at k' ix' = (if k' = k then relaxed_contents entry_list_nbuckets l' else index_list at k' ix)"
proof -
  show "index_ok covers at ix'"
    unfolding index_ok_def
  proof (intro allI impI)
    fix k' l assume "covers k'" "at k' ix' = Some (Some l)"
    then show "relaxed_invar entry_list_nbuckets l \<and> relaxed_contents entry_list_nbuckets l \<noteq> []"
      using assms by (cases "k' = k") (auto simp: index_ok_def)
  qed
  show "index_list at k' ix' = (if k' = k then relaxed_contents entry_list_nbuckets l' else index_list at k' ix)" if "covers k'"
    using that assms(5,6) by (simp add: index_list_def)
qed

lemma add_entry_appends:
  assumes "covers k" "index_ok covers at ix" "list_room (length (index_list at k ix))"
  shows "\<exists>ix'. index_add_entry get store k v ix = Some ix' \<and> index_ok covers at ix'
    \<and> (\<forall>k'. covers k' \<longrightarrow> index_list at k' ix' = (if k' = k then index_list at k ix @ [v] else index_list at k' ix))"
proof -
  obtain ix1 l where g: "get k ix = Some (ix1, l)" "relaxed_invar entry_list_nbuckets l"
    "relaxed_contents entry_list_nbuckets l = index_list at k ix"
    "\<forall>l'. at k (store k l' ix1) = Some (Some l')
       \<and> (\<forall>k'. covers k' \<longrightarrow> k' \<noteq> k \<longrightarrow> at k' (store k l' ix1) = at k' ix)"
    using get_list [OF assms(1,2)] by (elim exE conjE) auto
  have "valid_index entry_list_nbuckets (length (relaxed_contents entry_list_nbuckets l))"
    using assms(3) g(3) by (simp add: list_room_def)
  then obtain l' where l': "el_push_back v l = Some (l', length (index_list at k ix))"
    "relaxed_invar entry_list_nbuckets l'" "relaxed_contents entry_list_nbuckets l' = index_list at k ix @ [v]"
    using relaxed.push_ok [OF g(2)] g(3) by (auto simp: el_push_back_def)
  have "index_add_entry get store k v ix = Some (store k l' ix1)"
    using g(1) l'(1) by (simp add: index_add_entry_def)
  then show ?thesis
    using store_list [OF assms(1,2) l'(2), of "store k l' ix1"] g(4) l'(3) by auto
qed

end

interpretation e1: entry_index "d1_covers sz" "d1_get sz new_entry_list" d1_store "d1_at sz" indexlet_init for sz
  by unfold_locales

interpretation e2: entry_index "d2_covers s1 s2" "d2_get s1 s2 new_entry_list" "d2_store s2" "d2_at s1 s2" indexlet_init for s1 s2
  by unfold_locales

interpretation e3: entry_index "d3_covers s1 s2 s3" "d3_get s1 s2 s3 new_entry_list" "d3_store s2 s3" "d3_at s1 s2 s3" indexlet_init for s1 s2 s3
  by unfold_locales

interpretation e4: entry_index "d4_covers s1 s2 s3 s4" "d4_get s1 s2 s3 s4 new_entry_list" "d4_store s2 s3 s4" "d4_at s1 s2 s3 s4" indexlet_init for s1 s2 s3 s4
  by unfold_locales

section \<open>The index types\<close>

text \<open>
  The eight instances for keys of one to eight bytes, one constructor per class the log store
  can hold, and the virtual \<open>at\<close>.
\<close>

datatype index_obj =
    Index1 "entry_list indexlet" | Index2 "entry_list indexlet"
  | Index3 "entry_list indexlet indexlet" | Index4 "entry_list indexlet indexlet"
  | Index5 "entry_list indexlet indexlet indexlet" | Index6 "entry_list indexlet indexlet indexlet"
  | Index7 "entry_list indexlet indexlet indexlet indexlet" | Index8 "entry_list indexlet indexlet indexlet indexlet"

fun obj_at :: "nat \<Rightarrow> index_obj \<Rightarrow> entry_list option option" where
  "obj_at k (Index1 ix) = d1_at 256 k ix"
| "obj_at k (Index2 ix) = d1_at 65536 k ix"
| "obj_at k (Index3 ix) = d2_at 65536 256 k ix"
| "obj_at k (Index4 ix) = d2_at 65536 65536 k ix"
| "obj_at k (Index5 ix) = d3_at 65536 65536 256 k ix"
| "obj_at k (Index6 ix) = d3_at 65536 65536 65536 k ix"
| "obj_at k (Index7 ix) = d4_at 65536 65536 65536 256 k ix"
| "obj_at k (Index8 ix) = d4_at 65536 65536 65536 65536 k ix"

fun obj_get :: "nat \<Rightarrow> index_obj \<Rightarrow> (index_obj \<times> entry_list) option" where
  "obj_get k (Index1 ix) = map_option (apfst Index1) (d1_get 256 new_entry_list k ix)"
| "obj_get k (Index2 ix) = map_option (apfst Index2) (d1_get 65536 new_entry_list k ix)"
| "obj_get k (Index3 ix) = map_option (apfst Index3) (d2_get 65536 256 new_entry_list k ix)"
| "obj_get k (Index4 ix) = map_option (apfst Index4) (d2_get 65536 65536 new_entry_list k ix)"
| "obj_get k (Index5 ix) = map_option (apfst Index5) (d3_get 65536 65536 256 new_entry_list k ix)"
| "obj_get k (Index6 ix) = map_option (apfst Index6) (d3_get 65536 65536 65536 new_entry_list k ix)"
| "obj_get k (Index7 ix) = map_option (apfst Index7) (d4_get 65536 65536 65536 256 new_entry_list k ix)"
| "obj_get k (Index8 ix) = map_option (apfst Index8) (d4_get 65536 65536 65536 65536 new_entry_list k ix)"

fun obj_store :: "nat \<Rightarrow> entry_list \<Rightarrow> index_obj \<Rightarrow> index_obj" where
  "obj_store k l (Index1 ix) = Index1 (d1_store k l ix)"
| "obj_store k l (Index2 ix) = Index2 (d1_store k l ix)"
| "obj_store k l (Index3 ix) = Index3 (d2_store 256 k l ix)"
| "obj_store k l (Index4 ix) = Index4 (d2_store 65536 k l ix)"
| "obj_store k l (Index5 ix) = Index5 (d3_store 65536 256 k l ix)"
| "obj_store k l (Index6 ix) = Index6 (d3_store 65536 65536 k l ix)"
| "obj_store k l (Index7 ix) = Index7 (d4_store 65536 65536 256 k l ix)"
| "obj_store k l (Index8 ix) = Index8 (d4_store 65536 65536 65536 k l ix)"

definition obj_add_entry :: "nat \<Rightarrow> nat \<Rightarrow> index_obj \<Rightarrow> index_obj option" where
  "obj_add_entry = index_add_entry obj_get obj_store"

definition new_index :: "nat \<Rightarrow> index_obj option" where
  "new_index bytes =
     (if bytes = 1 then Some (Index1 indexlet_init) else if bytes = 2 then Some (Index2 indexlet_init)
      else if bytes = 3 then Some (Index3 indexlet_init) else if bytes = 4 then Some (Index4 indexlet_init)
      else if bytes = 5 then Some (Index5 indexlet_init) else if bytes = 6 then Some (Index6 indexlet_init)
      else if bytes = 7 then Some (Index7 indexlet_init) else if bytes = 8 then Some (Index8 indexlet_init)
      else None)"

fun obj_bytes :: "index_obj \<Rightarrow> nat" where
  "obj_bytes (Index1 _) = 1" | "obj_bytes (Index2 _) = 2" | "obj_bytes (Index3 _) = 3" | "obj_bytes (Index4 _) = 4"
| "obj_bytes (Index5 _) = 5" | "obj_bytes (Index6 _) = 6" | "obj_bytes (Index7 _) = 7" | "obj_bytes (Index8 _) = 8"

text \<open>An index for tokens of \<open>n\<close> bytes covers exactly the keys of \<open>n\<close> bytes.\<close>

lemmas covers_defs = d1_covers_def d2_covers_def d3_covers_def d4_covers_def tier_covers_def

fun obj_covers :: "nat \<Rightarrow> index_obj \<Rightarrow> bool" where
  "obj_covers k (Index1 _) = d1_covers 256 k"
| "obj_covers k (Index2 _) = d1_covers 65536 k"
| "obj_covers k (Index3 _) = d2_covers 65536 256 k"
| "obj_covers k (Index4 _) = d2_covers 65536 65536 k"
| "obj_covers k (Index5 _) = d3_covers 65536 65536 256 k"
| "obj_covers k (Index6 _) = d3_covers 65536 65536 65536 k"
| "obj_covers k (Index7 _) = d4_covers 65536 65536 65536 256 k"
| "obj_covers k (Index8 _) = d4_covers 65536 65536 65536 65536 k"

lemma obj_covers_iff: "obj_covers k ix \<longleftrightarrow> k < 256 ^ obj_bytes ix"
  by (cases ix) (auto simp: covers_defs div_less_iff_less_mult)

definition obj_list :: "nat \<Rightarrow> index_obj \<Rightarrow> nat list" where
  "obj_list = index_list obj_at"

definition obj_ok :: "index_obj \<Rightarrow> bool" where
  "obj_ok ix \<longleftrightarrow> (\<forall>k l. obj_covers k ix \<longrightarrow> obj_at k ix = Some (Some l) \<longrightarrow>
     relaxed_invar entry_list_nbuckets l \<and> relaxed_contents entry_list_nbuckets l \<noteq> [])"

lemma add_entry_wrap:
  assumes "obj_get k (C ix) = map_option (apfst C) (get k ix)"
    and "\<And>k l ix. obj_store k l (C ix) = C (store k l ix)"
  shows "obj_add_entry k v (C ix) = map_option C (index_add_entry get store k v ix)"
proof (cases "get k ix")
  case (Some p)
  obtain ix' l where "p = (ix', l)" by fastforce
  then show ?thesis
    using Some by (cases "el_push_back v l") (auto simp: obj_add_entry_def index_add_entry_def assms)
qed (simp add: obj_add_entry_def index_add_entry_def assms)

lemma wrapped_add_entry:
  assumes app: "\<And>ix. covers k \<Longrightarrow> index_ok covers at ix \<Longrightarrow> list_room (length (index_list at k ix)) \<Longrightarrow>
    \<exists>ix'. index_add_entry get store k v ix = Some ix' \<and> index_ok covers at ix'
    \<and> (\<forall>k'. covers k' \<longrightarrow> index_list at k' ix' = (if k' = k then index_list at k ix @ [v] else index_list at k' ix))"
    and C: "\<And>k ix. obj_get k (C ix) = map_option (apfst C) (get k ix)"
      "\<And>k l ix. obj_store k l (C ix) = C (store k l ix)"
      "\<And>k ix. obj_at k (C ix) = at k ix" "\<And>k ix. obj_covers k (C ix) = covers k"
      "\<And>ix ix'. obj_bytes (C ix) = obj_bytes (C ix')"
    and pre: "obj_covers k (C ix)" "obj_ok (C ix)" "list_room (length (obj_list k (C ix)))"
  shows "\<exists>ob. obj_add_entry k v (C ix) = Some ob \<and> obj_ok ob \<and> obj_bytes ob = obj_bytes (C ix)
    \<and> (\<forall>k'. obj_covers k' (C ix) \<longrightarrow> obj_list k' ob = (if k' = k then obj_list k (C ix) @ [v] else obj_list k' (C ix)))"
proof -
  have list: "obj_list k (C y) = index_list at k y" for k y by (simp add: obj_list_def index_list_def C(3))
  have ok: "obj_ok (C y) = index_ok covers at y" for y by (simp add: obj_ok_def index_ok_def C)
  obtain ix' where ix': "index_add_entry get store k v ix = Some ix'" "index_ok covers at ix'"
    "\<forall>k'. covers k' \<longrightarrow> index_list at k' ix' = (if k' = k then index_list at k ix @ [v] else index_list at k' ix)"
    using app [of ix] pre by (auto simp: list ok C(4))
  moreover have "obj_add_entry k v (C ix) = Some (C ix')"
    using ix'(1) add_entry_wrap [of k C ix get store v, OF C(1) C(2)] by simp
  ultimately show ?thesis using C(5) by (auto simp: list ok C(4))
qed

lemma obj_add_entry_cases:
  assumes "obj_covers k ix" "obj_ok ix" "list_room (length (obj_list k ix))"
  shows "\<exists>ob. obj_add_entry k v ix = Some ob \<and> obj_ok ob \<and> obj_bytes ob = obj_bytes ix
    \<and> (\<forall>k'. obj_covers k' ix \<longrightarrow> obj_list k' ob = (if k' = k then obj_list k ix @ [v] else obj_list k' ix))"
proof (cases ix)
  case (Index1 y)
  show ?thesis using assms unfolding Index1
    by - (rule wrapped_add_entry [where C = Index1, OF e1.add_entry_appends [where sz = 256]], simp_all)
next
  case (Index2 y)
  show ?thesis using assms unfolding Index2
    by - (rule wrapped_add_entry [where C = Index2, OF e1.add_entry_appends [where sz = 65536]], simp_all)
next
  case (Index3 y)
  show ?thesis using assms unfolding Index3
    by - (rule wrapped_add_entry [where C = Index3, OF e2.add_entry_appends [where ?s1.0 = 65536 and ?s2.0 = 256]], simp_all)
next
  case (Index4 y)
  show ?thesis using assms unfolding Index4
    by - (rule wrapped_add_entry [where C = Index4, OF e2.add_entry_appends [where ?s1.0 = 65536 and ?s2.0 = 65536]], simp_all)
next
  case (Index5 y)
  show ?thesis using assms unfolding Index5
    by - (rule wrapped_add_entry [where C = Index5, OF e3.add_entry_appends [where ?s1.0 = 65536 and ?s2.0 = 65536 and ?s3.0 = 256]], simp_all)
next
  case (Index6 y)
  show ?thesis using assms unfolding Index6
    by - (rule wrapped_add_entry [where C = Index6, OF e3.add_entry_appends [where ?s1.0 = 65536 and ?s2.0 = 65536 and ?s3.0 = 65536]], simp_all)
next
  case (Index7 y)
  show ?thesis using assms unfolding Index7
    by - (rule wrapped_add_entry [where C = Index7, OF e4.add_entry_appends [where ?s1.0 = 65536 and ?s2.0 = 65536 and ?s3.0 = 65536 and ?s4.0 = 256]], simp_all)
next
  case (Index8 y)
  show ?thesis using assms unfolding Index8
    by - (rule wrapped_add_entry [where C = Index8, OF e4.add_entry_appends [where ?s1.0 = 65536 and ?s2.0 = 65536 and ?s3.0 = 65536 and ?s4.0 = 65536]], simp_all)
qed

text \<open>
  C32. A tiered index is a multimap. For all eight index classes, \<^verbatim>\<open>add_entry(key, val)\<close> with a key of
  the index's token length, into a list that has room, completes and appends \<open>val\<close> to the list of
  \<open>key\<close>; the lists of all other keys, lists that stay absent included, are unchanged, and all lists of the index stay complete and nonempty.
\<close>

theorem add_entry_refines_multimap:
  assumes "k < 256 ^ obj_bytes ix" "obj_ok ix" "list_room (length (obj_list k ix))"
  shows "\<exists>ix'. obj_add_entry k v ix = Some ix' \<and> obj_ok ix' \<and> obj_bytes ix' = obj_bytes ix
    \<and> (\<forall>k' < 256 ^ obj_bytes ix. obj_list k' ix' = (if k' = k then obj_list k ix @ [v] else obj_list k' ix))"
  using obj_add_entry_cases [of k ix v] assms by (simp add: obj_covers_iff)

theorem add_entry_refines_multimap_witness:
  "\<exists>ix'. obj_add_entry 300 7 (Index2 indexlet_init) = Some ix' \<and> obj_list 300 ix' = [7] \<and> obj_list 301 ix' = []"
proof -
  have ok: "obj_ok (Index2 indexlet_init)" using e1.index_ok_init by (simp add: obj_ok_def index_ok_def)
  have none: "obj_list k (Index2 indexlet_init) = []" for k
    by (simp add: obj_list_def index_list_def d1_at_def indexlet_at_def indexlet_init_def Let_def)
  show ?thesis
    using add_entry_refines_multimap [of 300 "Index2 indexlet_init" 7] ok none by (auto simp: list_room_iff)
qed

end
