(* ===== verification/Entry_Cursor.thy ===== *)
theory Entry_Cursor
  imports Prelude
begin

section \<open>Cursors over entries\<close>

text \<open>
  The iterators of filter results and of complex characters have the same shape: \<open>++\<close> advances to the
  next entry until it is visible, that is below \<open>max_rid\<close>, and a loop visits entries until the iterator
  equals \<open>end()\<close>. The locale states what both rely on: an iterator stands for the list of the
  entries it has not left behind, \<open>advance\<close> removes the first of them, and the iterator is at the end exactly
  when none is left. Its lemmas say what \<open>++\<close> and the loop do.
\<close>

locale entry_cursor =
  fixes rest :: "'it \<Rightarrow> nat list \<Rightarrow> bool"
    and get :: "'it \<Rightarrow> nat option"
    and adv :: "'it \<Rightarrow> 'it option"
    and nxt :: "'it \<Rightarrow> 'it option"
    and at_end :: "'it \<Rightarrow> bool"
    and iter :: "'it \<Rightarrow> nat list option"
    and mrid :: nat
  assumes get_rest: "rest it (x # xs) \<Longrightarrow> get it = Some x"
    and adv_rest: "rest it (x # xs) \<Longrightarrow> \<exists>it'. adv it = Some it' \<and> rest it' xs"
    and end_rest: "rest it xs \<Longrightarrow> at_end it \<longleftrightarrow> xs = []"
    and nxt_unfold: "rest it (x # xs) \<Longrightarrow> nxt it = do {
        it1 \<leftarrow> adv it;
        (if at_end it1 then Some it1 else do { v \<leftarrow> get it1; (if mrid \<le> v then nxt it1 else Some it1) }) }"
    and iter_unfold: "rest it xs \<Longrightarrow> iter it = (if at_end it then Some []
        else do { v \<leftarrow> get it; it' \<leftarrow> nxt it; vs \<leftarrow> iter it'; Some (v # vs) })"
begin

lemma nxt_rest: "rest it (x # xs) \<Longrightarrow> \<exists>it'. nxt it = Some it' \<and> rest it' (dropWhile (\<lambda>v. mrid \<le> v) xs)"
proof (induction xs arbitrary: it x)
  case Nil
  obtain it' where it': "adv it = Some it'" "rest it' []" using adv_rest [OF Nil] by blast
  then show ?case using nxt_unfold [OF Nil] end_rest [OF it'(2)] by simp
next
  case (Cons y ys)
  obtain it' where it': "adv it = Some it'" "rest it' (y # ys)" using adv_rest [OF Cons.prems] by blast
  have "nxt it = (if mrid \<le> y then nxt it' else Some it')"
    using nxt_unfold [OF Cons.prems] it'(1) end_rest [OF it'(2)] get_rest [OF it'(2)] by simp
  then show ?case using Cons.IH [OF it'(2)] it'(2) by simp
qed

lemma iter_rest:
  "rest it xs \<Longrightarrow> iter it = Some (case xs of [] \<Rightarrow> [] | y # ys \<Rightarrow> y # filter (\<lambda>v. v < mrid) ys)"
proof (induction "length xs" arbitrary: it xs rule: less_induct)
  case less
  show ?case
  proof (cases xs)
    case Nil
    then show ?thesis using iter_unfold [OF less.prems] end_rest [OF less.prems] by simp
  next
    case (Cons y ys)
    let ?r = "dropWhile (\<lambda>v. mrid \<le> v) ys"
    obtain it' where it': "nxt it = Some it'" "rest it' ?r" using nxt_rest less.prems Cons by blast
    have "length ?r < length xs" using Cons length_dropWhile_le [of _ ys] by (simp add: le_imp_less_Suc)
    note ih = less.hyps [OF this it'(2)]
    have "filter (\<lambda>v. v < mrid) ys = (case ?r of [] \<Rightarrow> [] | z # zs \<Rightarrow> z # filter (\<lambda>v. v < mrid) zs)"
      by (induction ys) auto
    then show ?thesis
      using iter_unfold [OF less.prems] end_rest [OF less.prems] it'(1) ih get_rest less.prems Cons by simp
  qed
qed

end

end
