(* ===== verification/Filter_Result.thy ===== *)
theory Filter_Result
  imports Tiered_Index Entry_Cursor
begin

section \<open>Filter results and their iterators (filterresult.h)\<close>

text \<open>
  A filter result is a range of tokens of an index together with the number of readable
  records at the time of the query; its iterator walks the entry lists of the tokens in
  order. The iterator holds the pointer to its result and to the current entry list; iterations run
  on the index as it is at the query (a snapshot). The loops that scan tokens
  and skip entries end only when the index lets them, so they are partial functions.
\<close>

record filter_result =
  fr_index :: "index_obj option"
  tok_min :: nat
  tok_max :: nat
  max_rid :: nat

definition filter_result_default :: filter_result where
  "filter_result_default = \<lparr>fr_index = None, tok_min = 1, tok_max = 0, max_rid = 0\<rparr>"

record filter_iterator =
  it_res :: "filter_result option"
  cur_tok :: nat
  cur_entry_list :: "entry_list option"
  cur_idx :: int

text \<open>\<open>tok_max_ + 1\<close>\<close>

definition stop_tok :: "filter_result \<Rightarrow> nat" where
  "stop_tok fr = take_bit 64 (tok_max fr + 1)"

text \<open>\<open>while ((cur_entry_list_ = res_->index_->at(++cur_tok_)) == NULL && cur_tok_ <= res_->tok_max_);\<close>\<close>

partial_function (option) scan_tokens :: "filter_result \<Rightarrow> nat \<Rightarrow> (nat \<times> entry_list option) option" where
  "scan_tokens fr tok = do {
     ix \<leftarrow> fr_index fr;
     l \<leftarrow> obj_at (take_bit 64 (tok + 1)) ix;
     (if l = None \<and> take_bit 64 (tok + 1) \<le> tok_max fr then scan_tokens fr (take_bit 64 (tok + 1))
      else Some (take_bit 64 (tok + 1), l)) }"

definition list_exhausted :: "int \<Rightarrow> entry_list option \<Rightarrow> bool" where
  "list_exhausted idx l = (case l of None \<Rightarrow> True | Some es \<Rightarrow> take_bit 64 idx = int (el_size es))"

definition advance :: "filter_result \<Rightarrow> filter_iterator \<Rightarrow> filter_iterator option" where
  "advance fr it =
     (if cur_tok it = stop_tok fr then Some it
      else (let it1 = it\<lparr>cur_idx := cur_idx it + 1\<rparr> in
        if list_exhausted (cur_idx it1) (cur_entry_list it1) then do {
          (t, l) \<leftarrow> scan_tokens fr (cur_tok it1);
          Some (it1\<lparr>cur_idx := 0, cur_tok := t, cur_entry_list := l\<rparr>) }
        else Some it1))"

text \<open>\<open>filter_iterator(const filter_result *res)\<close>\<close>

definition filter_begin :: "filter_result \<Rightarrow> filter_iterator option" where
  "filter_begin fr = do {
     l \<leftarrow> (case fr_index fr of None \<Rightarrow> Some None | Some ix \<Rightarrow> obj_at (tok_min fr) ix);
     advance fr \<lparr>it_res = Some fr, cur_tok = tok_min fr, cur_entry_list = l, cur_idx = - 1\<rparr> }"

text \<open>\<open>filter_iterator(uint64_t tok, int64_t idx)\<close>\<close>

definition filter_end :: "filter_result \<Rightarrow> filter_iterator" where
  "filter_end fr = \<lparr>it_res = None, cur_tok = stop_tok fr, cur_entry_list = None, cur_idx = 0\<rparr>"

definition iter_default :: filter_iterator where
  "iter_default = \<lparr>it_res = None, cur_tok = UINT64_MAX, cur_entry_list = None, cur_idx = - 1\<rparr>"

definition iter_get :: "filter_iterator \<Rightarrow> nat option" where
  "iter_get it = do {
     l \<leftarrow> cur_entry_list it;
     monolog_get entry_list_nbuckets (nat (take_bit 64 (cur_idx it))) l }"

partial_function (option) iter_next :: "filter_iterator \<Rightarrow> filter_iterator option" where
  "iter_next it = do {
     fr \<leftarrow> it_res it;
     it1 \<leftarrow> advance fr it;
     (if cur_tok it1 \<noteq> stop_tok fr then do {
        v \<leftarrow> iter_get it1;
        (if v \<ge> max_rid fr then iter_next it1 else Some it1) }
      else Some it1) }"

definition iter_eq :: "filter_iterator \<Rightarrow> filter_iterator \<Rightarrow> bool" where
  "iter_eq a b \<longleftrightarrow> cur_tok a = cur_tok b \<and> cur_idx a = cur_idx b"

definition iter_finished :: "filter_iterator \<Rightarrow> bool option" where
  "iter_finished it = do { fr \<leftarrow> it_res it; Some (cur_tok it = stop_tok fr) }"

text \<open>The loop \<open>for (auto it = res.begin(); it != res.end(); it++)\<close> with the values it visits.\<close>

partial_function (option) iterate_from :: "filter_result \<Rightarrow> filter_iterator \<Rightarrow> nat list option" where
  "iterate_from fr it =
     (if iter_eq it (filter_end fr) then Some []
      else do {
        v \<leftarrow> iter_get it;
        it' \<leftarrow> iter_next it;
        vs \<leftarrow> iterate_from fr it';
        Some (v # vs) })"

definition filter_iterate :: "filter_result \<Rightarrow> nat list option" where
  "filter_iterate fr = filter_begin fr \<bind> iterate_from fr"

section \<open>What a filter result enumerates\<close>

text \<open>
  A result is well formed when its range is not empty, the token behind the range is one the
  index covers, and the lists of the range are complete and not empty.
\<close>

definition fr_ok :: "filter_result \<Rightarrow> index_obj \<Rightarrow> bool" where
  "fr_ok fr ix \<longleftrightarrow> fr_index fr = Some ix \<and> obj_ok ix \<and> tok_min fr \<le> tok_max fr
     \<and> tok_max fr + 1 < 256 ^ obj_bytes ix
     \<and> (\<forall>k l. tok_min fr \<le> k \<longrightarrow> k \<le> tok_max fr \<longrightarrow> obj_at k ix = Some (Some l) \<longrightarrow> obj_list k ix \<noteq> [])"

definition range_entries :: "index_obj \<Rightarrow> nat \<Rightarrow> nat \<Rightarrow> nat list" where
  "range_entries ix a b = concat (map (\<lambda>k. obj_list k ix) [a..<b + 1])"

lemma obj_bytes_le: "256 ^ obj_bytes ix \<le> (2 ^ 64 :: nat)"
  by (cases ix) auto

lemma fr_ok_tok:
  assumes "fr_ok fr ix" "k \<le> tok_max fr + 1"
  shows "take_bit 64 k = k" "obj_covers k ix"
proof -
  have k: "k < 256 ^ obj_bytes ix" using assms by (simp add: fr_ok_def)
  then show "take_bit 64 k = k" using obj_bytes_le [of ix] by (intro take_bit_nat_eq_self) simp
  show "obj_covers k ix" using k by (simp add: obj_covers_iff)
qed

lemma stop_tok_ok: "fr_ok fr ix \<Longrightarrow> stop_tok fr = tok_max fr + 1"
  using fr_ok_tok(1) by (simp add: stop_tok_def)

lemma obj_at_total: "obj_covers k ix \<Longrightarrow> obj_at k ix \<noteq> None"
  by (cases ix) (simp_all only: obj_covers.simps obj_at.simps d1.at_total d2.at_total d3.at_total d4.at_total not_False_eq_True)

lemma range_entries_Cons:
  "a \<le> b \<Longrightarrow> range_entries ix a b = obj_list a ix @ range_entries ix (Suc a) b"
  by (simp add: range_entries_def upt_conv_Cons del: upt_Suc)

lemma range_entries_empty: "b < a \<Longrightarrow> range_entries ix a b = []"
  by (simp add: range_entries_def)

lemma obj_list_None: "obj_at k ix = Some None \<Longrightarrow> obj_list k ix = []"
  by (simp add: obj_list_def index_list_def)

lemma obj_list_Some: "obj_at k ix = Some (Some l) \<Longrightarrow> obj_list k ix = relaxed_contents entry_list_nbuckets l"
  by (simp add: obj_list_def index_list_def)

text \<open>The scan stops at the next token that has a list, or behind the range.\<close>

lemma scan_tokens_spec:
  assumes "fr_ok fr ix" "t \<le> tok_max fr" "tok_min fr \<le> t"
  shows "\<exists>t' l. scan_tokens fr t = Some (t', l) \<and>
    (t' = tok_max fr + 1 \<and> range_entries ix (Suc t) (tok_max fr) = []
     \<or> (\<exists>es. t < t' \<and> t' \<le> tok_max fr \<and> l = Some es \<and> obj_at t' ix = Some (Some es)
         \<and> range_entries ix (Suc t) (tok_max fr) = obj_list t' ix @ range_entries ix (Suc t') (tok_max fr)))"
  using assms(2,3)
proof (induction "tok_max fr - t" arbitrary: t)
  case 0
  have "take_bit 64 (t + 1) = tok_max fr + 1" using 0 fr_ok_tok(1) [OF assms(1), of "t + 1"] by simp
  moreover obtain l where "obj_at (tok_max fr + 1) ix = Some l"
    using obj_at_total [OF fr_ok_tok(2) [OF assms(1), of "tok_max fr + 1"]] by auto
  ultimately show ?case
    using assms(1) 0 by (simp add: scan_tokens.simps [of fr t] fr_ok_def range_entries_empty)
next
  case (Suc n)
  have t: "take_bit 64 (t + 1) = Suc t" using Suc fr_ok_tok(1) [OF assms(1), of "t + 1"] by simp
  have le: "Suc t \<le> tok_max fr" using Suc.hyps(2) by simp
  obtain r where r: "obj_at (Suc t) ix = Some r"
    using obj_at_total [OF fr_ok_tok(2) [OF assms(1), of "Suc t"]] le by auto
  show ?case
  proof (cases r)
    case None
    have "scan_tokens fr t = scan_tokens fr (Suc t)"
      using assms(1) r None le t by (simp add: scan_tokens.simps [of fr t] fr_ok_def)
    moreover have "range_entries ix (Suc t) (tok_max fr) = range_entries ix (Suc (Suc t)) (tok_max fr)"
      using range_entries_Cons [OF le] obj_list_None r None by simp
    ultimately show ?thesis using Suc.hyps(1) [of "Suc t"] Suc.hyps(2) le Suc.prems by fastforce
  next
    case (Some es)
    have "scan_tokens fr t = Some (Suc t, Some es)"
      using assms(1) r Some t by (simp add: scan_tokens.simps [of fr t] fr_ok_def)
    then show ?thesis using r Some le range_entries_Cons [OF le] by auto
  qed
qed

text \<open>An iterator stands for the entries it has not left behind yet.\<close>

definition it_rest :: "filter_result \<Rightarrow> index_obj \<Rightarrow> filter_iterator \<Rightarrow> nat list \<Rightarrow> bool" where
  "it_rest fr ix it xs \<longleftrightarrow> it_res it = Some fr \<and>
     (xs = [] \<and> cur_tok it = tok_max fr + 1 \<and> cur_idx it = 0
      \<or> (\<exists>es i. tok_min fr \<le> cur_tok it \<and> cur_tok it \<le> tok_max fr \<and> cur_entry_list it = Some es
           \<and> obj_at (cur_tok it) ix = Some (Some es) \<and> cur_idx it = int i \<and> i < el_size es
           \<and> xs = drop i (obj_list (cur_tok it) ix) @ range_entries ix (Suc (cur_tok it)) (tok_max fr)))"

lemma list_of_at:
  assumes "fr_ok fr ix" "k \<le> tok_max fr" "obj_at k ix = Some (Some es)"
  shows "relaxed_invar entry_list_nbuckets es" "el_size es = length (obj_list k ix)"
    "i < el_size es \<Longrightarrow> monolog_get entry_list_nbuckets i es = Some (obj_list k ix ! i)"
    "el_size es < 2 ^ 64"
proof -
  have "obj_covers k ix" using fr_ok_tok(2) [OF assms(1)] assms(2) by simp
  then show inv: "relaxed_invar entry_list_nbuckets es"
    using assms(1,3) by (auto simp: fr_ok_def obj_ok_def)
  show size: "el_size es = length (obj_list k ix)"
    using relaxed.size_contents [OF inv] by (simp add: el_size_def obj_list_Some [OF assms(3)])
  show "monolog_get entry_list_nbuckets i es = Some (obj_list k ix ! i)" if "i < el_size es"
    using relaxed.at_contents [OF inv, of i] that size
    by (simp add: relaxed_at_def obj_list_Some [OF assms(3)])
  have "valid_index entry_list_nbuckets i" if "i < el_size es" for i
    using inv that by (simp add: relaxed_invar_def prefix_ok_def el_size_def relaxed_size_def)
  then have "\<not> 2 ^ 64 \<le> el_size es"
    using valid_index_def [of entry_list_nbuckets "2 ^ 64 - 1"] by (auto simp: FBS_def)
  then show "el_size es < 2 ^ 64" by simp
qed

lemma take_bit_64_int: "int i < 2 ^ 64 \<Longrightarrow> take_bit 64 (int i) = int i"
  by (simp add: take_bit_int_eq_self)

lemma not_exhausted:
  assumes "fr_ok fr ix" "k \<le> tok_max fr" "obj_at k ix = Some (Some es)" "i \<le> el_size es"
  shows "list_exhausted (int i) (Some es) \<longleftrightarrow> i = el_size es"
proof -
  have "i < 2 ^ 64" using assms(4) list_of_at(4) [OF assms(1-3)] by (rule le_less_trans)
  then have "int i < 2 ^ 64" by simp
  then show ?thesis using take_bit_64_int [of i] by (simp add: list_exhausted_def)
qed

lemma scan_rest:
  assumes "fr_ok fr ix" "it_res it = Some fr" "tok_min fr \<le> cur_tok it" "cur_tok it \<le> tok_max fr"
  shows "\<exists>t l. scan_tokens fr (cur_tok it) = Some (t, l) \<and>
    it_rest fr ix (it\<lparr>cur_idx := 0, cur_tok := t, cur_entry_list := l\<rparr>)
      (range_entries ix (Suc (cur_tok it)) (tok_max fr))"
proof -
  let ?c = "cur_tok it"
  obtain t l where s: "scan_tokens fr ?c = Some (t, l)" and
    c: "t = tok_max fr + 1 \<and> range_entries ix (Suc ?c) (tok_max fr) = []
     \<or> (\<exists>es. ?c < t \<and> t \<le> tok_max fr \<and> l = Some es \<and> obj_at t ix = Some (Some es)
         \<and> range_entries ix (Suc ?c) (tok_max fr) = obj_list t ix @ range_entries ix (Suc t) (tok_max fr))"
    using scan_tokens_spec [OF assms(1,4,3)] by (elim exE conjE)
  from c show ?thesis
  proof
    assume "t = tok_max fr + 1 \<and> range_entries ix (Suc ?c) (tok_max fr) = []"
    then show ?thesis using s assms(2) by (auto simp: it_rest_def)
  next
    assume "\<exists>es. ?c < t \<and> t \<le> tok_max fr \<and> l = Some es \<and> obj_at t ix = Some (Some es)
         \<and> range_entries ix (Suc ?c) (tok_max fr) = obj_list t ix @ range_entries ix (Suc t) (tok_max fr)"
    then obtain es where es: "?c < t" "t \<le> tok_max fr" "l = Some es" "obj_at t ix = Some (Some es)"
      "range_entries ix (Suc ?c) (tok_max fr) = obj_list t ix @ range_entries ix (Suc t) (tok_max fr)"
      by (elim exE conjE)
    have "obj_list t ix \<noteq> []" using assms(1,3) es by (auto simp: fr_ok_def)
    then have "0 < el_size es" using list_of_at(2) [OF assms(1) es(2,4)] by simp
    then show ?thesis using s es assms(2,3) by (auto simp: it_rest_def)
  qed
qed

lemma begin_rest:
  assumes "fr_ok fr ix"
  shows "\<exists>it. filter_begin fr = Some it \<and> it_rest fr ix it (range_entries ix (tok_min fr) (tok_max fr))"
proof -
  have le: "tok_min fr \<le> tok_max fr" and idx: "fr_index fr = Some ix" using assms by (auto simp: fr_ok_def)
  obtain l where l: "obj_at (tok_min fr) ix = Some l"
    using obj_at_total [OF fr_ok_tok(2) [OF assms, of "tok_min fr"]] le by auto
  let ?it = "\<lparr>it_res = Some fr, cur_tok = tok_min fr, cur_entry_list = l, cur_idx = 0\<rparr>"
  have "filter_begin fr = (if list_exhausted 0 l then do {
          (t, l') \<leftarrow> scan_tokens fr (tok_min fr);
          Some (?it\<lparr>cur_idx := 0, cur_tok := t, cur_entry_list := l'\<rparr>) } else Some ?it)"
    using idx l le stop_tok_ok [OF assms] by (simp add: filter_begin_def advance_def)
  moreover have "\<exists>t l'. scan_tokens fr (tok_min fr) = Some (t, l') \<and>
      it_rest fr ix (?it\<lparr>cur_idx := 0, cur_tok := t, cur_entry_list := l'\<rparr>) (range_entries ix (Suc (tok_min fr)) (tok_max fr))"
    using scan_rest [OF assms, of ?it] le by simp
  moreover have "list_exhausted 0 l \<Longrightarrow> obj_list (tok_min fr) ix = []"
    using l not_exhausted [OF assms le, of _ 0] list_of_at(2) [OF assms le] obj_list_None [of _ ix]
    by (cases l) auto
  moreover have "it_rest fr ix ?it (range_entries ix (tok_min fr) (tok_max fr))" if "\<not> list_exhausted 0 l"
  proof -
    obtain es where es: "l = Some es" using \<open>\<not> list_exhausted 0 l\<close> by (cases l) (auto simp: list_exhausted_def)
    have "0 < el_size es" using that not_exhausted [OF assms le, of es 0] l es by simp
    then show ?thesis using l es le range_entries_Cons [OF le] by (simp add: it_rest_def)
  qed
  ultimately show ?thesis using range_entries_Cons [OF le, of ix] by (cases "list_exhausted 0 l") auto
qed

lemma rest_Cons:
  assumes "it_rest fr ix it (x # xs)"
  obtains es i where "it_res it = Some fr" "tok_min fr \<le> cur_tok it" "cur_tok it \<le> tok_max fr"
    "cur_entry_list it = Some es" "obj_at (cur_tok it) ix = Some (Some es)" "cur_idx it = int i"
    "i < el_size es" "x # xs = drop i (obj_list (cur_tok it) ix) @ range_entries ix (Suc (cur_tok it)) (tok_max fr)"
  using assms by (auto simp: it_rest_def)

lemma drop_append_Cons:
  "i < length l \<Longrightarrow> x # xs = drop i l @ r \<longleftrightarrow> x = l ! i \<and> xs = drop (Suc i) l @ r"
  by (simp add: Cons_nth_drop_Suc [symmetric])

lemma rest_get:
  assumes "fr_ok fr ix" "it_rest fr ix it (x # xs)"
  shows "iter_get it = Some x"
  using assms(2)
proof (rule rest_Cons)
  fix es i
  assume it: "cur_tok it \<le> tok_max fr" "cur_entry_list it = Some es" "obj_at (cur_tok it) ix = Some (Some es)"
    "cur_idx it = int i" "i < el_size es"
    "x # xs = drop i (obj_list (cur_tok it) ix) @ range_entries ix (Suc (cur_tok it)) (tok_max fr)"
  note l = list_of_at [OF assms(1) it(1,3)]
  have "i < 2 ^ 64" using it(5) l(4) by simp
  then have "take_bit 64 (int i) = int i" by (intro take_bit_64_int) simp
  moreover have "x = obj_list (cur_tok it) ix ! i"
    using it(5,6) l(2) drop_append_Cons [of i "obj_list (cur_tok it) ix" x xs] by simp
  ultimately show ?thesis using it l(3) [OF it(5)] by (simp add: iter_get_def)
qed

lemma rest_advance:
  assumes "fr_ok fr ix" "it_rest fr ix it (x # xs)"
  shows "\<exists>it'. advance fr it = Some it' \<and> it_rest fr ix it' xs"
  using assms(2)
proof (rule rest_Cons)
  fix es i
  assume it: "it_res it = Some fr" "tok_min fr \<le> cur_tok it" "cur_tok it \<le> tok_max fr" "cur_entry_list it = Some es"
    "obj_at (cur_tok it) ix = Some (Some es)" "cur_idx it = int i" "i < el_size es"
    "x # xs = drop i (obj_list (cur_tok it) ix) @ range_entries ix (Suc (cur_tok it)) (tok_max fr)"
  note l = list_of_at [OF assms(1) it(3,5)]
  have xs: "xs = drop (Suc i) (obj_list (cur_tok it) ix) @ range_entries ix (Suc (cur_tok it)) (tok_max fr)"
    using it(7,8) l(2) drop_append_Cons [of i "obj_list (cur_tok it) ix" x xs] by simp
  have ex: "list_exhausted (cur_idx it + 1) (cur_entry_list it) \<longleftrightarrow> Suc i = el_size es"
    using not_exhausted [OF assms(1) it(3,5), of "Suc i"] it(4,6,7) by (simp add: add.commute)
  have run: "cur_tok it \<noteq> stop_tok fr" using stop_tok_ok [OF assms(1)] it(3) by simp
  show ?thesis
  proof (cases "Suc i = el_size es")
    case True
    then have "xs = range_entries ix (Suc (cur_tok it)) (tok_max fr)" using xs l(2) by simp
    then show ?thesis
      using scan_rest [OF assms(1), of "it\<lparr>cur_idx := cur_idx it + 1\<rparr>"] it ex run True
      by (auto simp: advance_def)
  next
    case False
    then have "it_rest fr ix (it\<lparr>cur_idx := cur_idx it + 1\<rparr>) xs"
      using it xs by (auto simp: it_rest_def intro!: exI [of _ "Suc i"])
    then show ?thesis using ex run False by (simp add: advance_def)
  qed
qed

lemma rest_nonempty_tok: "fr_ok fr ix \<Longrightarrow> it_rest fr ix it (x # xs) \<Longrightarrow> cur_tok it \<noteq> stop_tok fr"
  by (auto simp: it_rest_def stop_tok_ok)

lemma rest_empty_tok: "fr_ok fr ix \<Longrightarrow> it_rest fr ix it [] \<Longrightarrow> cur_tok it = stop_tok fr \<and> cur_idx it = 0"
  using list_of_at(2) by (fastforce simp: it_rest_def stop_tok_ok)

interpretation fit: entry_cursor "\<lambda>it xs. fr_ok fr ix \<and> it_rest fr ix it xs" iter_get "advance fr" iter_next
  "\<lambda>it. cur_tok it = stop_tok fr" "iterate_from fr" "max_rid fr" for fr ix
proof
  fix it :: filter_iterator and x xs
  assume r: "fr_ok fr ix \<and> it_rest fr ix it (x # xs)"
  show "iter_get it = Some x" using rest_get r by blast
  show "\<exists>it'. advance fr it = Some it' \<and> fr_ok fr ix \<and> it_rest fr ix it' xs" using rest_advance r by blast
  show "iter_next it = advance fr it \<bind> (\<lambda>it1. if cur_tok it1 = stop_tok fr then Some it1
      else iter_get it1 \<bind> (\<lambda>v. if max_rid fr \<le> v then iter_next it1 else Some it1))"
    using r by (auto simp: iter_next.simps [of it] it_rest_def intro!: Option.bind_cong)
next
  fix it :: filter_iterator and xs
  assume r: "fr_ok fr ix \<and> it_rest fr ix it xs"
  then show e: "cur_tok it = stop_tok fr \<longleftrightarrow> xs = []"
    using rest_nonempty_tok rest_empty_tok by (cases xs) blast+
  have "iter_eq it (filter_end fr) \<longleftrightarrow> cur_tok it = stop_tok fr"
    using r e rest_empty_tok by (cases xs) (auto simp: iter_eq_def filter_end_def)
  then show "iterate_from fr it = (if cur_tok it = stop_tok fr then Some []
      else iter_get it \<bind> (\<lambda>v. iter_next it \<bind> (\<lambda>it'. iterate_from fr it' \<bind> (\<lambda>vs. Some (v # vs)))))"
    by (simp add: iterate_from.simps [of fr it])
qed

lemma rest_next:
  assumes "fr_ok fr ix" "it_rest fr ix it (x # xs)"
  shows "\<exists>it'. iter_next it = Some it' \<and> it_rest fr ix it' (dropWhile (\<lambda>v. max_rid fr \<le> v) xs)"
  using fit.nxt_rest assms by blast

lemma iterate_rest:
  assumes "fr_ok fr ix" "it_rest fr ix it xs"
  shows "iterate_from fr it = Some (case xs of [] \<Rightarrow> [] | y # ys \<Rightarrow> y # filter (\<lambda>v. v < max_rid fr) ys)"
  using fit.iter_rest assms by blast

lemma filter_iterate_spec:
  assumes "fr_ok fr ix"
  shows "filter_iterate fr = Some (case range_entries ix (tok_min fr) (tok_max fr) of
     [] \<Rightarrow> [] | e # es \<Rightarrow> e # filter (\<lambda>v. v < max_rid fr) es)"
  using begin_rest [OF assms] iterate_rest [OF assms] by (auto simp: filter_iterate_def)

lemma filter_all_below:
  "\<forall>v \<in> set vs. v < n \<Longrightarrow> (case vs of [] \<Rightarrow> [] | e # es \<Rightarrow> e # filter (\<lambda>v. v < n) es) = vs" for n :: nat
  by (cases vs) simp_all

text \<open>When all entries are visible, the loop visits all of them.\<close>

lemma filter_iterate_all:
  assumes "fr_ok fr ix" "\<forall>v \<in> set (range_entries ix (tok_min fr) (tok_max fr)). v < max_rid fr"
  shows "filter_iterate fr = Some (range_entries ix (tok_min fr) (tok_max fr))"
  using filter_iterate_spec [OF assms(1)] filter_all_below [OF assms(2)] by simp

text \<open>
  C27. What a query enumerates. For a well-formed filter result the loop over its iterators ends
  and visits, in token order and insertion order, the entries of all tokens of the range: the
  first of them whatever it is, then exactly those below \<^verbatim>\<open>max_rid\<close>.
\<close>

theorem filter_iterate_result:
  assumes "fr_ok fr ix"
  shows "filter_iterate fr = Some (case range_entries ix (tok_min fr) (tok_max fr) of
     [] \<Rightarrow> [] | e # es \<Rightarrow> e # filter (\<lambda>v. v < max_rid fr) es)"
  by (rule filter_iterate_spec [OF assms])

lemma one_entry_index:
  "\<exists>ix. obj_add_entry 300 7 (Index2 indexlet_init) = Some ix \<and> obj_ok ix \<and> obj_bytes ix = 2 \<and> obj_list 300 ix = [7]"
proof -
  have "obj_ok (Index2 indexlet_init)" using e1.index_ok_init by (simp add: obj_ok_def index_ok_def)
  moreover have "obj_list 300 (Index2 indexlet_init) = []"
    by (simp add: obj_list_def index_list_def d1_at_def indexlet_at_def indexlet_init_def Let_def)
  ultimately show ?thesis
    using obj_add_entry_cases [of 300 "Index2 indexlet_init" 7] by (auto simp: list_room_iff obj_covers_iff)
qed

theorem filter_iterate_result_witness:
  "\<exists>ix. obj_add_entry 300 7 (Index2 indexlet_init) = Some ix
     \<and> filter_iterate \<lparr>fr_index = Some ix, tok_min = 300, tok_max = 300, max_rid = 9\<rparr> = Some [7]"
proof -
  obtain ix where ix: "obj_add_entry 300 7 (Index2 indexlet_init) = Some ix" "obj_ok ix" "obj_bytes ix = 2"
    "obj_list 300 ix = [7]"
    using one_entry_index by blast
  let ?fr = "\<lparr>fr_index = Some ix, tok_min = 300, tok_max = 300, max_rid = 9\<rparr>"
  have "fr_ok ?fr ix" using ix by (auto simp: fr_ok_def dest: le_antisym)
  moreover have "range_entries ix 300 300 = [7]" using ix by (simp add: range_entries_def)
  ultimately show ?thesis using filter_iterate_result [of ?fr ix] ix by auto
qed

section \<open>Queries that have no result\<close>

lemma obj_at_outside: "obj_bytes ix < 8 \<Longrightarrow> obj_at (256 ^ obj_bytes ix) ix = None"
  by (cases ix) (simp_all add: d1_at_def d2_at_def d3_at_def d4_at_def tier_at_def indexlet_at_def take_bit_eq_mod Let_def)

definition full_range :: "filter_result \<Rightarrow> index_obj \<Rightarrow> bool" where
  "full_range fr ix \<longleftrightarrow> fr_index fr = Some ix \<and> obj_bytes ix < 8 \<and> tok_max fr + 1 = 256 ^ obj_bytes ix"

lemma full_range_stop: "full_range fr ix \<Longrightarrow> stop_tok fr = tok_max fr + 1"
  using obj_bytes_le [of ix] power_strict_increasing [of "obj_bytes ix" 8 "256::nat"]
  by (auto simp: full_range_def stop_tok_def intro!: take_bit_nat_eq_self)

lemma full_range_scan:
  assumes "full_range fr ix"
  shows "scan_tokens fr t = Some (t', l) \<Longrightarrow> t \<le> tok_max fr \<Longrightarrow> t' \<le> tok_max fr"
proof -
  have "scan_tokens f t = Some y \<Longrightarrow> f = fr \<longrightarrow> t \<le> tok_max fr \<longrightarrow> fst y \<le> tok_max fr" for f y
  proof (rule scan_tokens.raw_induct [of "\<lambda>f t y. f = fr \<longrightarrow> t \<le> tok_max fr \<longrightarrow> fst y \<le> tok_max fr"], intro impI)
    fix scan f t y
    assume ih: "\<And>f t y. scan f t = Some y \<Longrightarrow> f = fr \<longrightarrow> t \<le> tok_max fr \<longrightarrow> fst y \<le> tok_max fr"
      and run: "do { ix \<leftarrow> fr_index f; l \<leftarrow> obj_at (take_bit 64 (t + 1)) ix;
         (if l = None \<and> take_bit 64 (t + 1) \<le> tok_max f then scan f (take_bit 64 (t + 1))
          else Some (take_bit 64 (t + 1), l)) } = Some y"
      and f: "f = fr" and t: "t \<le> tok_max fr"
    have le: "take_bit 64 (t + 1) \<le> t + 1" by (rule take_bit_le)
    have "take_bit 64 (t + 1) \<noteq> tok_max fr + 1"
      using run f assms obj_at_outside [of ix] by (auto simp: full_range_def)
    then have "take_bit 64 (t + 1) \<le> tok_max fr" using le t by linarith
    then show "fst y \<le> tok_max fr"
      using run f ih [of fr "take_bit 64 (t + 1)" y] by (auto simp: bind_Some_iff split: if_splits)
  qed
  then show "scan_tokens fr t = Some (t', l) \<Longrightarrow> t \<le> tok_max fr \<Longrightarrow> t' \<le> tok_max fr" by fastforce
qed

lemma full_range_advance:
  assumes "full_range fr ix" "advance fr it = Some it'" "cur_tok it \<le> tok_max fr"
  shows "cur_tok it' \<le> tok_max fr \<and> it_res it' = it_res it"
  using assms full_range_scan [OF assms(1)]
  by (auto simp: advance_def Let_def bind_Some_iff split: if_splits)

lemma full_range_next:
  assumes fr: "full_range fr ix"
  shows "iter_next it = Some it' \<Longrightarrow> it_res it = Some fr \<Longrightarrow> cur_tok it \<le> tok_max fr \<Longrightarrow>
    cur_tok it' \<le> tok_max fr \<and> it_res it' = Some fr"
proof -
  let ?P = "\<lambda>it it'. it_res it = Some fr \<longrightarrow> cur_tok it \<le> tok_max fr \<longrightarrow> cur_tok it' \<le> tok_max fr \<and> it_res it' = Some fr"
  have "iter_next it = Some it' \<Longrightarrow> ?P it it'"
  proof (rule iter_next.raw_induct [of ?P], intro impI)
    fix nxt it it'
    assume ih: "\<And>it it'. nxt it = Some it' \<Longrightarrow> ?P it it'"
      and run: "do { fr \<leftarrow> it_res it; it1 \<leftarrow> advance fr it;
         (if cur_tok it1 \<noteq> stop_tok fr then do { v \<leftarrow> iter_get it1; (if v \<ge> max_rid fr then nxt it1 else Some it1) }
          else Some it1) } = Some it'"
      and it: "it_res it = Some fr" "cur_tok it \<le> tok_max fr"
    obtain it1 where it1: "advance fr it = Some it1" using run it by (auto simp: bind_Some_iff)
    have 1: "cur_tok it1 \<le> tok_max fr" "it_res it1 = Some fr"
      using full_range_advance [OF fr it1 it(2)] it(1) by auto
    then show "cur_tok it' \<le> tok_max fr \<and> it_res it' = Some fr"
      using run it it1 ih [of it1 it'] by (auto simp: bind_Some_iff split: if_splits)
  qed
  then show "iter_next it = Some it' \<Longrightarrow> it_res it = Some fr \<Longrightarrow> cur_tok it \<le> tok_max fr \<Longrightarrow>
    cur_tok it' \<le> tok_max fr \<and> it_res it' = Some fr" by blast
qed

lemma full_range_iterate:
  assumes fr: "full_range fr ix"
  shows "iterate_from fr it = Some vs \<Longrightarrow> it_res it = Some fr \<Longrightarrow> cur_tok it \<le> tok_max fr \<Longrightarrow> False"
proof -
  let ?P = "\<lambda>f it vs. f = fr \<longrightarrow> it_res it = Some fr \<longrightarrow> \<not> cur_tok it \<le> tok_max fr"
  have "iterate_from f it = Some vs \<Longrightarrow> ?P f it vs" for f
  proof (rule iterate_from.raw_induct [of ?P], intro impI notI)
    fix iterate f it vs
    assume ih: "\<And>f it vs. iterate f it = Some vs \<Longrightarrow> ?P f it vs"
      and run: "(if iter_eq it (filter_end f) then Some []
         else do { v \<leftarrow> iter_get it; it' \<leftarrow> iter_next it; vs \<leftarrow> iterate f it'; Some (v # vs) }) = Some vs"
      and it: "f = fr" "it_res it = Some fr" "cur_tok it \<le> tok_max fr"
    have "\<not> iter_eq it (filter_end fr)"
      using full_range_stop [OF fr] it(3) by (simp add: iter_eq_def filter_end_def)
    then obtain it' vs' where "iter_next it = Some it'" "iterate fr it' = Some vs'"
      using run it(1) by (auto simp: bind_Some_iff)
    then show False using full_range_next [OF fr, of it it'] it ih [of fr it' vs'] by auto
  qed
  then show "iterate_from fr it = Some vs \<Longrightarrow> it_res it = Some fr \<Longrightarrow> cur_tok it \<le> tok_max fr \<Longrightarrow> False" by blast
qed

text \<open>
  A range that reaches the largest token of its index has no defined enumeration. After the
  last token \<^verbatim>\<open>advance()\<close> reads the entry of \<^verbatim>\<open>tok_max_ + 1\<close>, which for the indexes of one to
  seven bytes lies behind the array of the top level; so whatever the index holds, the loop over
  the result does not complete.
\<close>

theorem filter_full_range_undefined:
  assumes "fr_index fr = Some ix" "obj_bytes ix < 8" "tok_max fr + 1 = 256 ^ obj_bytes ix"
    and "tok_min fr \<le> tok_max fr"
  shows "filter_iterate fr = None"
proof -
  have fr: "full_range fr ix" using assms(1-3) by (simp add: full_range_def)
  have "iterate_from fr it \<noteq> Some vs" if start: "filter_begin fr = Some it" for it vs
  proof -
    obtain l where adv: "advance fr \<lparr>it_res = Some fr, cur_tok = tok_min fr, cur_entry_list = l, cur_idx = - 1\<rparr> = Some it"
      using start unfolding filter_begin_def bind_Some_iff by blast
    have "cur_tok it \<le> tok_max fr" "it_res it = Some fr"
      using full_range_advance [OF fr adv] assms(4) by auto
    then show ?thesis using full_range_iterate [OF fr] by blast
  qed
  then have "filter_iterate fr \<noteq> Some vs" for vs by (auto simp: filter_iterate_def bind_Some_iff)
  then show ?thesis by (cases "filter_iterate fr") auto
qed

theorem filter_full_range_undefined_witness:
  "filter_iterate \<lparr>fr_index = Some (Index2 indexlet_init), tok_min = 1024, tok_max = 65535, max_rid = 10\<rparr> = None"
  by (rule filter_full_range_undefined [where ix = "Index2 indexlet_init"]) simp_all

text \<open>
  The result of a query on an index that does not exist: \<^verbatim>\<open>begin()\<close> and \<^verbatim>\<open>end()\<close> differ in their
  position, so the loop reads through a null list.
\<close>

lemma filter_default_undefined: "filter_iterate filter_result_default = None"
  by (simp add: filter_iterate_def filter_begin_def filter_result_default_def advance_def stop_tok_def
      take_bit_eq_mod iterate_from.simps iter_eq_def filter_end_def iter_get_def)

end
