(* ===== verification/Step_Refinement.thy ===== *)
theory Step_Refinement
  imports Prelude
begin

section \<open>Refinement of step relations\<close>

text \<open>
  A detailed system refines an abstract one along a function from its states to the abstract ones:
  under an invariant every step is an abstract step or is not visible. Then every run of
  the detailed system is a run of the abstract one, and what the abstract system never reaches
  the detailed one does not show either.
\<close>

locale step_refinement =
  fixes initial :: "'c \<Rightarrow> bool"
    and step :: "'c \<Rightarrow> 'c \<Rightarrow> bool"
    and abs_start :: 'a
    and abs_step :: "'a \<Rightarrow> 'a \<Rightarrow> bool"
    and abstraction :: "'c \<Rightarrow> 'a"
    and invar :: "'c \<Rightarrow> bool"
  assumes initial_abs: "initial s \<Longrightarrow> abstraction s = abs_start"
    and initial_invar: "initial s \<Longrightarrow> invar s"
    and step_invar: "step s s' \<Longrightarrow> invar s \<Longrightarrow> invar s'"
    and step_abs: "step s s' \<Longrightarrow> invar s \<Longrightarrow>
      abstraction s' = abstraction s \<or> abs_step (abstraction s) (abstraction s')"
begin

lemma run_invar: "step\<^sup>*\<^sup>* s s' \<Longrightarrow> invar s \<Longrightarrow> invar s'"
  by (induction rule: rtranclp_induct) (auto intro: step_invar)

lemma run_abs: "step\<^sup>*\<^sup>* s s' \<Longrightarrow> invar s \<Longrightarrow> abs_step\<^sup>*\<^sup>* (abstraction s) (abstraction s')"
proof (induction rule: rtranclp_induct)
  case (step s1 s2)
  have "abstraction s2 = abstraction s1 \<or> abs_step (abstraction s1) (abstraction s2)"
    using step_abs step(2) run_invar [OF step(1) step(4)] by blast
  then show ?case using step(3,4) by (auto intro: rtranclp.rtrancl_into_rtrancl)
qed simp

lemma reach_invar: "initial s0 \<Longrightarrow> step\<^sup>*\<^sup>* s0 s \<Longrightarrow> invar s"
  using run_invar initial_invar by blast

lemma reach_abs: "initial s0 \<Longrightarrow> step\<^sup>*\<^sup>* s0 s \<Longrightarrow> abs_step\<^sup>*\<^sup>* abs_start (abstraction s)"
  using run_abs initial_invar initial_abs by fastforce

text \<open>What holds in all reachable states of the abstract system holds of what is seen of the detailed one.\<close>

lemma transfer_safety:
  assumes "\<And>a. abs_step\<^sup>*\<^sup>* abs_start a \<Longrightarrow> P a" "initial s0" "step\<^sup>*\<^sup>* s0 s"
  shows "P (abstraction s)"
  using assms reach_abs by blast

end

section \<open>What the threads have still to do\<close>

text \<open>Disjoint sets, one for each thread: a thread that finishes a part, and a thread that begins.\<close>

lemma UN_update:
  assumes "W \<subseteq> f t" "\<And>u. t \<noteq> u \<Longrightarrow> f t \<inter> f u = {}"
  shows "(\<Union>u. (f(t := W)) u) = (\<Union>u. f u) - (f t - W)"
proof (intro set_eqI iffI)
  fix x assume "x \<in> (\<Union>u. (f(t := W)) u)"
  then obtain u where "x \<in> (f(t := W)) u" by blast
  then show "x \<in> (\<Union>u. f u) - (f t - W)" using assms(1) assms(2) [of u] by (cases "u = t") auto
next
  fix x assume x: "x \<in> (\<Union>u. f u) - (f t - W)"
  then obtain u where "x \<in> f u" by blast
  then have "x \<in> (f(t := W)) u" using x by (cases "u = t") auto
  then show "x \<in> (\<Union>u. (f(t := W)) u)" by blast
qed

lemma UN_add: "f t = {} \<Longrightarrow> (\<Union>u. (f(t := W)) u) = (\<Union>u. f u) \<union> W"
  by (auto split: if_splits)

end
