(* ===== verification/Relaxed_Concurrent.thy ===== *)
theory Relaxed_Concurrent
  imports Filter_Result Step_Refinement
begin

section \<open>Concurrent appends to the lists of entries (monolog.h, monolog_relaxed)\<close>

text \<open>
  Threads that call \<open>push_back\<close> and \<open>push_back_range\<close> on one list, in the atomic operations of the code: the fetch-and-add of the
  tail, which gives a call its positions; then for each value the load of the reference to its bucket, the
  compare-and-exchange that installs a new bucket if the reference was null, and the store of the value. A call that has
  claimed positions is \<open>Appending\<close> with its place in \<open>set\<close>, the next position, and the values it has still to store. A range
  without values claims nothing. \<open>handed\<close> is auxiliary: the values that positions were handed out for, in the order of the positions.
\<close>

datatype set_phase = At_load | At_alloc | At_store

datatype appender = Resting | Appending set_phase nat "nat list"

record append_system =
  rlog :: "nat monolog_relaxed"
  appenders :: "nat \<Rightarrow> appender"
  handed :: "nat list"

definition append_init :: append_system where
  "append_init = \<lparr>rlog = relaxed_init, appenders = (\<lambda>_. Resting), handed = []\<rparr>"

definition claim_values :: "nat \<Rightarrow> nat list \<Rightarrow> append_system \<Rightarrow> append_system" where
  "claim_values t vs s = s\<lparr>rlog := (rlog s)\<lparr>tail := take_bit 64 (tail (rlog s) + length vs)\<rparr>,
     appenders := (appenders s)(t := Appending At_load (tail (rlog s)) vs), handed := handed s @ vs\<rparr>"

definition move_to :: "nat \<Rightarrow> appender \<Rightarrow> append_system \<Rightarrow> append_system" where
  "move_to t p s = s\<lparr>appenders := (appenders s)(t := p)\<rparr>"

definition with_rlog :: "nat monolog_relaxed \<Rightarrow> append_system \<Rightarrow> append_system" where
  "with_rlog l s = s\<lparr>rlog := l\<rparr>"

lemma append_system_simps [simp]:
  "handed (move_to t p s) = handed s" "rlog (move_to t p s) = rlog s" "appenders (move_to t p s) = (appenders s)(t := p)"
  "handed (with_rlog l s) = handed s" "rlog (with_rlog l s) = l" "appenders (with_rlog l s) = appenders s"
  by (simp_all add: move_to_def with_rlog_def)

inductive append_step :: "nat \<Rightarrow> nat \<Rightarrow> append_system \<Rightarrow> append_system \<Rightarrow> bool" for nb t where
  claim_one: "appenders s t = Resting \<Longrightarrow> valid_index nb (tail (rlog s)) \<Longrightarrow>
     append_step nb t s (claim_values t [val] s)"
| claim_range: "appenders s t = Resting \<Longrightarrow> cnt = range_count start fin \<Longrightarrow> 0 < cnt \<Longrightarrow>
     valid_index nb (tail (rlog s) + cnt - 1) \<Longrightarrow> append_step nb t s (claim_values t (range_values start cnt) s)"
| found: "appenders s t = Appending At_load i vs \<Longrightarrow> bucket_pos i = Some (b, off) \<Longrightarrow>
     load_bucket nb b (rlog s) = Some (Some c) \<Longrightarrow> append_step nb t s (move_to t (Appending At_store i vs) s)"
| missing: "appenders s t = Appending At_load i vs \<Longrightarrow> bucket_pos i = Some (b, off) \<Longrightarrow>
     load_bucket nb b (rlog s) = Some None \<Longrightarrow> append_step nb t s (move_to t (Appending At_alloc i vs) s)"
| install: "appenders s t = Appending At_alloc i vs \<Longrightarrow> bucket_pos i = Some (b, off) \<Longrightarrow>
     try_allocate_bucket nb b (rlog s) = Some (l, n) \<Longrightarrow>
     append_step nb t s (move_to t (Appending At_store i vs) (with_rlog l s))"
| store_value: "appenders s t = Appending At_store i (v # vs) \<Longrightarrow> bucket_pos i = Some (b, off) \<Longrightarrow>
     store_cell nb b off v (rlog s) = Some l \<Longrightarrow>
     append_step nb t s (move_to t (if vs = [] then Resting else Appending At_load (Suc i) vs) (with_rlog l s))"

definition any_step :: "nat \<Rightarrow> append_system \<Rightarrow> append_system \<Rightarrow> bool" where
  "any_step nb s s' \<longleftrightarrow> (\<exists>t. append_step nb t s s')"

section \<open>The invariant\<close>

fun due :: "appender \<Rightarrow> nat set" where
  "due Resting = {}"
| "due (Appending ph i vs) = {i..<i + length vs}"

text \<open>A call inside \<open>set\<close> has values left, they are those its positions were handed out for, and the bucket is there when it stores.\<close>

definition appender_ok :: "nat \<Rightarrow> append_system \<Rightarrow> appender \<Rightarrow> bool" where
  "appender_ok nb s p \<longleftrightarrow> (\<forall>ph i vs. p = Appending ph i vs \<longrightarrow> vs \<noteq> [] \<and> i + length vs \<le> length (handed s)
     \<and> vs = take (length vs) (drop i (handed s))
     \<and> (ph = At_store \<longrightarrow> (\<exists>b off. bucket_pos i = Some (b, off) \<and> buckets (rlog s) b \<noteq> None)))"

definition undone :: "append_system \<Rightarrow> nat set" where
  "undone s = (\<Union>t. due (appenders s t))"

definition append_inv :: "nat \<Rightarrow> append_system \<Rightarrow> bool" where
  "append_inv nb s \<longleftrightarrow> tail (rlog s) = length (handed s) \<and> (\<forall>i < length (handed s). valid_index nb i)
     \<and> (\<forall>t. appender_ok nb s (appenders s t))
     \<and> (\<forall>t u. t \<noteq> u \<longrightarrow> due (appenders s t) \<inter> due (appenders s u) = {})
     \<and> (\<forall>i. valid_index nb i \<longrightarrow> monolog_get nb i (rlog s) =
          (if i < length (handed s) \<and> i \<notin> undone s then Some (handed s ! i) else None))"

lemma append_invD:
  assumes "append_inv nb s"
  shows "tail (rlog s) = length (handed s)" "i < length (handed s) \<Longrightarrow> valid_index nb i" "appender_ok nb s (appenders s t)"
    "t \<noteq> u \<Longrightarrow> due (appenders s t) \<inter> due (appenders s u) = {}"
    "valid_index nb i \<Longrightarrow> monolog_get nb i (rlog s) = (if i < length (handed s) \<and> i \<notin> undone s then Some (handed s ! i) else None)"
  using assms unfolding append_inv_def by blast+

lemma appenderD:
  assumes "append_inv nb s" "appenders s t = Appending ph i vs"
  shows "vs \<noteq> []" "i + length vs \<le> length (handed s)" "vs = take (length vs) (drop i (handed s))" "valid_index nb i"
    "ph = At_store \<Longrightarrow> \<exists>b off. bucket_pos i = Some (b, off) \<and> buckets (rlog s) b \<noteq> None"
proof -
  have ok: "vs \<noteq> [] \<and> i + length vs \<le> length (handed s) \<and> vs = take (length vs) (drop i (handed s))
     \<and> (ph = At_store \<longrightarrow> (\<exists>b off. bucket_pos i = Some (b, off) \<and> buckets (rlog s) b \<noteq> None))"
    using append_invD(3) [OF assms(1), of t] assms(2) by (simp add: appender_ok_def)
  then show "vs \<noteq> []" "i + length vs \<le> length (handed s)" "vs = take (length vs) (drop i (handed s))"
    "ph = At_store \<Longrightarrow> \<exists>b off. bucket_pos i = Some (b, off) \<and> buckets (rlog s) b \<noteq> None" by blast+
  have "i < length (handed s)" using ok by (cases vs) simp_all
  then show "valid_index nb i" by (rule append_invD(2) [OF assms(1)])
qed

lemma due_handed: "append_inv nb s \<Longrightarrow> due (appenders s t) \<subseteq> {..<length (handed s)}"
  using appenderD(2) [of nb s t] by (cases "appenders s t") fastforce+

lemma undone_update:
  assumes "append_inv nb s" "appenders s' = (appenders s)(t := p)" "due p \<subseteq> due (appenders s t)"
  shows "undone s' = undone s - (due (appenders s t) - due p)"
proof -
  have eq: "(\<lambda>u. due (appenders s' u)) = (\<lambda>u. due (appenders s u))(t := due p)"
    unfolding assms(2) by (simp add: fun_eq_iff)
  show ?thesis
    unfolding undone_def eq
    by (rule UN_update [of "due p" "\<lambda>u. due (appenders s u)", OF assms(3) append_invD(4) [OF assms(1)]])
qed

lemma append_inv_init: "append_inv nb append_init"
proof -
  have "monolog_get nb i (relaxed_init :: nat monolog_relaxed) = None" for i
    by (cases "bucket_pos i") (auto simp: monolog_get_def load_cell_def load_bucket_def relaxed_init_def monolog_base_init_def)
  then show ?thesis by (simp add: append_inv_def append_init_def appender_ok_def relaxed_init_def)
qed

section \<open>Every step keeps it\<close>

lemma claim_inv:
  assumes inv: "append_inv nb s" and t: "appenders s t = Resting" and vs: "vs \<noteq> []"
    and room: "valid_index nb (tail (rlog s) + length vs - 1)"
  shows "append_inv nb (claim_values t vs s)"
proof -
  let ?n = "length (handed s)" and ?s = "claim_values t vs s"
  note D = append_invD [OF inv]
  have sz: "?n + length vs < 2 ^ 64"
    using room vs D(1) by (cases vs) (auto simp: valid_index_def)
  have tail: "tail (rlog ?s) = ?n + length vs" using D(1) sz by (simp add: claim_values_def take_bit_nat_eq_self)
  have h: "handed ?s = handed s @ vs" "appenders ?s = (appenders s)(t := Appending At_load ?n vs)"
    using D(1) by (simp_all add: claim_values_def)
  have get: "monolog_get nb i (rlog ?s) = monolog_get nb i (rlog s)" for i by (simp add: claim_values_def)
  have bk: "buckets (rlog ?s) = buckets (rlog s)" by (simp add: claim_values_def)
  have old: "due (appenders s u) \<subseteq> {..<?n}" for u by (rule due_handed [OF inv])
  have eq: "(\<lambda>u. due (appenders ?s u)) = (\<lambda>u. due (appenders s u))(t := {?n..<?n + length vs})"
    unfolding h(2) by (simp add: fun_eq_iff)
  have un: "undone ?s = undone s \<union> {?n..<?n + length vs}"
    unfolding undone_def eq using UN_add [of "\<lambda>u. due (appenders s u)" t] t by simp
  have un': "undone s \<subseteq> {..<?n}" using old by (auto simp: undone_def)
  show ?thesis
    unfolding append_inv_def
  proof (intro conjI allI impI)
    show "tail (rlog ?s) = length (handed ?s)" by (simp add: tail h(1))
    show "valid_index nb i" if "i < length (handed ?s)" for i
      using valid_index_down [OF room, of i] that D(1) by (simp add: h(1))
    show "appender_ok nb ?s (appenders ?s u)" for u
    proof (cases "u = t")
      case False
      then show ?thesis using D(3) [of u] by (auto simp: appender_ok_def h bk)
    qed (use vs in \<open>simp add: appender_ok_def h\<close>)
    show "due (appenders ?s u) \<inter> due (appenders ?s w) = {}" if "u \<noteq> w" for u w
      using that D(4) [OF that] old [of u] old [of w] by (auto simp: h(2))
    show "monolog_get nb i (rlog ?s) = (if i < length (handed ?s) \<and> i \<notin> undone ?s then Some (handed ?s ! i) else None)"
      if "valid_index nb i" for i
      using D(5) [OF that] un' by (auto simp: get un h(1) nth_append)
  qed
qed

text \<open>A step that moves one thread and changes no value that can be read.\<close>

lemma move_inv:
  assumes inv: "append_inv nb s" and t: "appenders s t = Appending ph i vs"
    and l: "tail l = tail (rlog s)" "\<And>j. valid_index nb j \<Longrightarrow> monolog_get nb j l = monolog_get nb j (rlog s)"
      "\<And>b. buckets (rlog s) b \<noteq> None \<Longrightarrow> buckets l b \<noteq> None"
    and store: "ph' = At_store \<Longrightarrow> \<exists>b off. bucket_pos i = Some (b, off) \<and> buckets l b \<noteq> None"
  shows "append_inv nb (move_to t (Appending ph' i vs) (with_rlog l s))" (is "append_inv nb ?s")
proof -
  note D = append_invD [OF inv] and A = appenderD [OF inv t]
  have h: "handed ?s = handed s" "appenders ?s = (appenders s)(t := Appending ph' i vs)" "rlog ?s = l"
    by simp_all
  have due: "due (appenders ?s u) = due (appenders s u)" for u using t by (simp add: h(2))
  have un: "undone ?s = undone s" unfolding undone_def by (simp only: due)
  show ?thesis
    unfolding append_inv_def
  proof (intro conjI allI impI)
    show "tail (rlog ?s) = length (handed ?s)" using D(1) l(1) by (simp add: h)
    show "valid_index nb j" if "j < length (handed ?s)" for j using D(2) that by (simp add: h)
    show "appender_ok nb ?s (appenders ?s u)" for u
    proof (cases "u = t")
      case True
      then show ?thesis using A(1-3) store by (simp add: appender_ok_def h)
    next
      case False
      then show ?thesis using D(3) [of u] l(3) unfolding appender_ok_def h by fastforce
    qed
    show "due (appenders ?s u) \<inter> due (appenders ?s w) = {}" if "u \<noteq> w" for u w using D(4) [OF that] unfolding due .
    show "monolog_get nb j (rlog ?s) = (if j < length (handed ?s) \<and> j \<notin> undone ?s then Some (handed ?s ! j) else None)"
      if "valid_index nb j" for j using D(5) [OF that] l(2) [OF that] by (simp add: h un)
  qed
qed

lemma allocate_spec:
  assumes "try_allocate_bucket nb b m = Some (l, n)"
  shows "tail l = tail m" "monolog_get nb j l = monolog_get nb j m" "buckets m a \<noteq> None \<Longrightarrow> buckets l a \<noteq> None" "buckets l b \<noteq> None"
proof -
  have l: "l = (case buckets m b of None \<Rightarrow> m\<lparr>buckets := (buckets m)(b \<mapsto> Map.empty)\<rparr> | Some _ \<Rightarrow> m)"
    using assms by (auto simp: try_allocate_bucket_def split: if_splits)
  show "tail l = tail m" "buckets m a \<noteq> None \<Longrightarrow> buckets l a \<noteq> None" "buckets l b \<noteq> None"
    using l by (auto split: option.splits if_splits)
  show "monolog_get nb j l = monolog_get nb j m"
    using l by (cases "bucket_pos j") (auto simp: monolog_get_def load_cell_def load_bucket_def split: option.splits)
qed

lemma store_cell_spec:
  assumes "store_cell nb b off v m = Some l" "bucket_pos i = Some (b, off)" "valid_index nb i"
  shows "tail l = tail m" "valid_index nb j \<Longrightarrow> monolog_get nb j l = (if j = i then Some v else monolog_get nb j m)"
    "buckets m a \<noteq> None \<Longrightarrow> buckets l a \<noteq> None"
proof -
  obtain c where c: "buckets m b = Some c" "l = m\<lparr>buckets := (buckets m)(b \<mapsto> c(off \<mapsto> v))\<rparr>"
    using assms(1) by (auto simp: store_cell_def load_bucket_def bind_Some_iff split: if_splits)
  have "monolog_set nb i v m = Some l"
    using assms(1,2) c(1) by (auto simp: monolog_set_def ensure_bucket_def store_cell_def load_bucket_def split: if_splits)
  from monolog_get_set [OF assms(3) _ this]
  show "valid_index nb j \<Longrightarrow> monolog_get nb j l = (if j = i then Some v else monolog_get nb j m)" .
  show "tail l = tail m" "buckets m a \<noteq> None \<Longrightarrow> buckets l a \<noteq> None" using c by auto
qed

lemma store_inv:
  assumes inv: "append_inv nb s" and t: "appenders s t = Appending At_store i (v # vs)"
    and st: "bucket_pos i = Some (b, off)" "store_cell nb b off v (rlog s) = Some l"
  shows "append_inv nb (move_to t (if vs = [] then Resting else Appending At_load (Suc i) vs) (with_rlog l s))"
    (is "append_inv nb (move_to t ?p _)")
proof -
  note D = append_invD [OF inv] and A = appenderD [OF inv t]
  note S = store_cell_spec [OF st(2,1) A(4)]
  let ?s = "move_to t ?p (with_rlog l s)"
  have h: "handed ?s = handed s" "appenders ?s = (appenders s)(t := ?p)" "rlog ?s = l" by simp_all
  have due: "due ?p = due (appenders s t) - {i}" by (auto simp: t)
  have i: "i \<in> due (appenders s t)" by (simp add: t)
  have val: "handed s ! i = v"
  proof -
    have "take (length (v # vs)) (drop i (handed s)) ! 0 = handed s ! i" using A(2) by simp
    then show ?thesis unfolding A(3) [symmetric] by simp
  qed
  have rest: "vs = take (length vs) (drop (Suc i) (handed s))"
  proof -
    have "vs = tl (take (Suc (length vs)) (drop i (handed s)))" unfolding A(3) [symmetric, simplified] by simp
    also have "\<dots> = take (length vs) (drop (Suc i) (handed s))" by (simp add: tl_take tl_drop drop_Suc)
    finally show ?thesis .
  qed
  have "undone ?s = undone s - (due (appenders s t) - due ?p)"
    by (rule undone_update [OF inv h(2)]) (use due in auto)
  then have un: "undone ?s = undone s - {i}" using due i by auto
  show ?thesis
    unfolding append_inv_def
  proof (intro conjI allI impI)
    show "tail (rlog ?s) = length (handed ?s)" using D(1) S(1) by (simp add: h)
    show "valid_index nb j" if "j < length (handed ?s)" for j using D(2) that by (simp add: h)
    show "appender_ok nb ?s (appenders ?s u)" for u
    proof (cases "u = t")
      case True
      then show ?thesis using A(2) rest by (simp add: appender_ok_def h)
    next
      case False
      then show ?thesis using D(3) [of u] S(3) unfolding appender_ok_def h by fastforce
    qed
    show "due (appenders ?s u) \<inter> due (appenders ?s w) = {}" if "u \<noteq> w" for u w
      using that D(4) [of u w] due unfolding h(2) fun_upd_apply by (cases "u = t"; cases "w = t") auto
    show "monolog_get nb j (rlog ?s) = (if j < length (handed ?s) \<and> j \<notin> undone ?s then Some (handed ?s ! j) else None)"
      if "valid_index nb j" for j
    proof (cases "j = i")
      case True
      then show ?thesis using S(2) [OF that] un val A(2) by (simp add: h)
    next
      case False
      then show ?thesis using S(2) [OF that] D(5) [OF that] un by (simp add: h)
    qed
  qed
qed

lemma append_inv_step: "append_step nb t s s' \<Longrightarrow> append_inv nb s \<Longrightarrow> append_inv nb s'"
proof (induction rule: append_step.induct)
  case (claim_one s val)
  then show ?case using claim_inv [of nb s t "[val]"] by simp
next
  case (claim_range s cnt start fin)
  then show ?case using claim_inv [of nb s t "range_values start cnt"] by (simp add: range_values_def)
next
  case (found s i vs b off c)
  then have "append_inv nb (move_to t (Appending At_store i vs) (with_rlog (rlog s) s))"
    by (intro move_inv) (auto simp: load_bucket_def split: if_splits)
  then show ?case by (simp add: with_rlog_def)
next
  case (missing s i vs b off)
  then have "append_inv nb (move_to t (Appending At_alloc i vs) (with_rlog (rlog s) s))" by (intro move_inv) auto
  then show ?case by (simp add: with_rlog_def)
next
  case (install s i vs b off l n)
  show ?case
    by (rule move_inv [OF install(4,1)]) (use install(2) allocate_spec [OF install(3)] in auto)
next
  case (store_value s i v vs b off l)
  show ?case by (rule store_inv [OF store_value(4,1-3)])
qed

section \<open>What readers and writers can rely on\<close>

interpretation ap: step_refinement "\<lambda>s. s = append_init" "any_step nb" "[]" "\<lambda>a a'. \<exists>vs. a' = a @ vs" handed "append_inv nb" for nb
proof
  show "append_inv nb s'" if "any_step nb s s'" "append_inv nb s" for s s'
    using that append_inv_step by (auto simp: any_step_def)
  show "handed s' = handed s \<or> (\<exists>vs. handed s' = handed s @ vs)" if "any_step nb s s'" "append_inv nb s" for s s'
    using that(1) by (auto simp: any_step_def elim!: append_step.cases simp: claim_values_def)
qed (simp_all add: append_inv_init, simp add: append_init_def)

text \<open>The steps a call has still to make at most: three for each value.\<close>

fun steps_left :: "appender \<Rightarrow> nat" where
  "steps_left Resting = 0"
| "steps_left (Appending ph i vs) = 3 * length vs - (case ph of At_load \<Rightarrow> 0 | At_alloc \<Rightarrow> 1 | At_store \<Rightarrow> 2)"

lemma append_step_other: "append_step nb t s s' \<Longrightarrow> u \<noteq> t \<Longrightarrow> appenders s' u = appenders s u"
  by (auto elim!: append_step.cases simp: claim_values_def)

lemma append_step_nearer:
  assumes "append_inv nb s" "appenders s t = Appending ph i vs" "append_step nb t s s'"
  shows "steps_left (appenders s' t) < steps_left (appenders s t)"
proof -
  have "vs \<noteq> []" using appenderD(1) [OF assms(1,2)] .
  then have "3 \<le> 3 * length vs" by (cases vs) simp_all
  then show ?thesis using assms(3,2) by (auto elim!: append_step.cases split: if_splits)
qed

lemma append_step_enabled:
  assumes inv: "append_inv nb s" and t: "appenders s t = Appending ph i vs"
  shows "\<exists>s'. append_step nb t s s'"
proof -
  note A = appenderD [OF inv t]
  obtain b off where b: "bucket_pos i = Some (b, off)" "b < nb" "b + FBS_HIBIT < 31" "off < bucket_size b"
    by (rule valid_pos [OF A(4)])
  show ?thesis
  proof (cases ph)
    case At_load
    show ?thesis
    proof (cases "buckets (rlog s) b")
      case None
      then show ?thesis using append_step.missing [of s t i vs b off nb] t At_load b by (auto simp: load_bucket_def)
    next
      case (Some c)
      then show ?thesis using append_step.found [of s t i vs b off nb c] t At_load b by (auto simp: load_bucket_def)
    qed
  next
    case At_alloc
    obtain l n where "try_allocate_bucket nb b (rlog s) = Some (l, n)" using b(2,3) by (simp add: try_allocate_bucket_def)
    then show ?thesis using append_step.install [of s t i vs b off nb l n] t At_alloc b(1) by auto
  next
    case At_store
    obtain v ws where vs: "vs = v # ws" using A(1) by (cases vs) auto
    obtain c where "buckets (rlog s) b = Some c" using A(5) [OF At_store] b(1) by auto
    then obtain l where "store_cell nb b off v (rlog s) = Some l" using b(2,4) by (simp add: store_cell_def load_bucket_def)
    then show ?thesis using append_step.store_value [of s t i v ws b off nb l] t At_store vs b(1) by auto
  qed
qed

lemma append_run_stable:
  assumes "(any_step nb)\<^sup>*\<^sup>* s s'" "append_inv nb s" "i < length (handed s)" "i \<notin> undone s"
  shows "handed s' ! i = handed s ! i \<and> i < length (handed s') \<and> i \<notin> undone s'"
  using assms
proof (induction rule: rtranclp_induct)
  case (step s1 s2)
  note ih = step.IH [OF step.prems]
  have inv: "append_inv nb s1" by (rule ap.run_invar [OF step.hyps(1) step.prems(1)])
  obtain t where t: "append_step nb t s1 s2" using step.hyps(2) by (auto simp: any_step_def)
  obtain xs where xs: "handed s2 = handed s1 @ xs" using ap.step_abs [OF step.hyps(2) inv] by auto
  have "i \<notin> due (appenders s2 u)" for u
  proof (cases "u = t")
    case False
    then show ?thesis using append_step_other [OF t False] ih by (auto simp: undone_def)
  next
    case True
    have "due (appenders s2 t) \<subseteq> due (appenders s1 t) \<union> {length (handed s1)..}"
      using t append_invD(1) [OF inv] by (auto elim!: append_step.cases simp: claim_values_def split: if_splits)
    then show ?thesis using True ih by (auto simp: undone_def)
  qed
  then show ?case using xs ih by (auto simp: undone_def nth_append)
qed simp

text \<open>What can be read of a list, at any time and when no call is in progress.\<close>

lemma append_readable:
  assumes "append_inv nb s" "i < length (handed s)"
  shows "relaxed_at nb i (rlog s) = (if i \<in> undone s then None else Some (handed s ! i))"
  using append_invD(5) [OF assms(1) append_invD(2) [OF assms]] assms(2) by (simp add: relaxed_at_def)

lemma append_stays:
  assumes "(any_step nb)\<^sup>*\<^sup>* s s'" "append_inv nb s" "i < length (handed s)" "i \<notin> undone s"
  shows "relaxed_at nb i (rlog s') = relaxed_at nb i (rlog s)"
  using append_run_stable [OF assms] append_readable [OF assms(2,3)] append_readable [OF ap.run_invar [OF assms(1,2)], of i] assms(4)
  by simp

lemma append_quiescent:
  assumes inv: "append_inv nb s" and rest: "\<And>t. appenders s t = Resting"
  shows "relaxed_invar nb (rlog s) \<and> relaxed_contents nb (rlog s) = handed s"
proof -
  have get: "monolog_get nb i (rlog s) = Some (handed s ! i)" if "i < length (handed s)" for i
    using append_readable [OF inv that] rest by (simp add: undone_def relaxed_at_def)
  then have "prefix_values nb (length (handed s)) (rlog s) = handed s"
    by (intro nth_equalityI) (simp_all add: prefix_values_def)
  then show ?thesis using append_invD(1,2) [OF inv] get by (auto simp: relaxed_invar_def prefix_ok_def relaxed_contents_def)
qed

text \<open>
  C14. Lists of entries under concurrent appends. In every state that threads calling \<^verbatim>\<open>push_back\<close> and \<^verbatim>\<open>push_back_range\<close> on one
  list can reach, the size of the list is the number of positions handed out; a position can be read, with the value it was handed out for,
  as soon as its value is stored, and from then on for ever; and when no call is in progress the list is well formed and holds
  exactly the values of the calls, in the order in which they claimed their positions.
\<close>

theorem concurrent_appends_exact:
  assumes "(any_step nb)\<^sup>*\<^sup>* append_init s" "(any_step nb)\<^sup>*\<^sup>* s s'"
  shows "relaxed_size (rlog s) = length (handed s)
    \<and> (\<forall>i < length (handed s). relaxed_at nb i (rlog s) = (if i \<in> undone s then None else Some (handed s ! i)))
    \<and> (\<forall>i < length (handed s). i \<notin> undone s \<longrightarrow> relaxed_at nb i (rlog s') = relaxed_at nb i (rlog s))
    \<and> ((\<forall>t. appenders s t = Resting) \<longrightarrow> relaxed_invar nb (rlog s) \<and> relaxed_contents nb (rlog s) = handed s)"
proof -
  have inv: "append_inv nb s" using ap.reach_invar [OF refl assms(1)] .
  show ?thesis
    using append_readable [OF inv] append_stays [OF assms(2) inv] append_quiescent [OF inv] append_invD(1) [OF inv]
    by (simp add: relaxed_size_def)
qed

text \<open>
  Appending is wait-free. A thread that is inside a call can always make its next step, whatever the other threads do; each of its steps
  brings it nearer to the end of the call, which is three steps for each value at most, and no step of another thread takes it away from there.
\<close>

theorem appends_wait_free:
  assumes "(any_step nb)\<^sup>*\<^sup>* append_init s" "appenders s t = Appending ph i vs"
  shows "(\<exists>s'. append_step nb t s s') \<and> steps_left (appenders s t) \<le> 3 * length vs
    \<and> (\<forall>s'. append_step nb t s s' \<longrightarrow> steps_left (appenders s' t) < steps_left (appenders s t))
    \<and> (\<forall>u s'. u \<noteq> t \<longrightarrow> append_step nb u s s' \<longrightarrow> appenders s' t = appenders s t)"
proof -
  have inv: "append_inv nb s" using ap.reach_invar [OF refl assms(1)] .
  show ?thesis
    using append_step_enabled [OF inv assms(2)] append_step_nearer [OF inv assms(2)] append_step_other assms(2) by auto
qed

section \<open>A query meets a position that is not stored yet\<close>

lemma filter_first_unwritten:
  assumes "fr_index fr = Some ix" "obj_at (tok_min fr) ix = Some (Some l)" "relaxed_size l \<noteq> 0"
    and "relaxed_at entry_list_nbuckets 0 l = None" "tok_min fr \<le> tok_max fr" "tok_max fr + 1 < 2 ^ 64"
  shows "filter_iterate fr = None"
proof -
  have stop: "stop_tok fr = tok_max fr + 1" using assms(6) by (simp add: stop_tok_def take_bit_nat_eq_self)
  let ?it = "\<lparr>it_res = Some fr, cur_tok = tok_min fr, cur_entry_list = Some l, cur_idx = 0\<rparr>"
  have "filter_begin fr = Some ?it"
    using assms(1-3,5) stop by (simp add: filter_begin_def advance_def list_exhausted_def el_size_def)
  moreover have "iterate_from fr ?it = None"
    using assms(4,5) stop by (subst iterate_from.simps) (simp add: iter_eq_def filter_end_def iter_get_def relaxed_at_def)
  ultimately show ?thesis by (simp add: filter_iterate_def)
qed

text \<open>One call from its claim to its end, when the bucket of its position is there.\<close>

lemma push_alone:
  assumes inv: "append_inv nb s" and t: "appenders s t = Resting" and room: "valid_index nb (tail (rlog s))"
    and there: "bucket_pos (tail (rlog s)) = Some (b, off)" "buckets (rlog s) b \<noteq> None"
  shows "\<exists>s'. (any_step nb)\<^sup>*\<^sup>* s s' \<and> appenders s' = appenders s \<and> handed s' = handed s @ [v]"
proof -
  let ?i = "tail (rlog s)"
  define s1 where "s1 = claim_values t [v] s"
  have 1: "append_step nb t s s1" unfolding s1_def by (rule append_step.claim_one [OF t room])
  have s1: "appenders s1 t = Appending At_load ?i [v]" "buckets (rlog s1) = buckets (rlog s)" by (simp_all add: s1_def claim_values_def)
  obtain b' off' where b: "bucket_pos ?i = Some (b', off')" "b' < nb" "off' < bucket_size b'" by (rule valid_pos [OF room])
  obtain c where c: "buckets (rlog s) b' = Some c" using there b(1) by auto
  define s2 where "s2 = move_to t (Appending At_store ?i [v]) s1"
  have 2: "append_step nb t s1 s2"
    unfolding s2_def by (rule append_step.found [OF s1(1) b(1)]) (use b(2) c s1(2) in \<open>simp add: load_bucket_def\<close>)
  obtain l where l: "store_cell nb b' off' v (rlog s2) = Some l"
    using b(2,3) c s1(2) by (simp add: s2_def store_cell_def load_bucket_def)
  define s3 where "s3 = move_to t Resting (with_rlog l s2)"
  have 3: "append_step nb t s2 s3"
    using append_step.store_value [of s2 t ?i v "[]" b' off' nb l] b(1) l by (simp add: s3_def) (simp add: s2_def)
  have "any_step nb s s1" "any_step nb s1 s2" "any_step nb s2 s3" using 1 2 3 by (auto simp: any_step_def)
  then have "(any_step nb)\<^sup>*\<^sup>* s s3" by (meson converse_rtranclp_into_rtranclp rtranclp.rtrancl_refl)
  moreover have "appenders s3 = appenders s" using t by (simp add: s3_def s2_def s1_def claim_values_def fun_upd_idem)
  moreover have "handed s3 = handed s @ [v]" by (simp add: s3_def s2_def s1_def claim_values_def)
  ultimately show ?thesis by blast
qed

lemma overtaken_run:
  "\<exists>s. (any_step entry_list_nbuckets)\<^sup>*\<^sup>* append_init s \<and> appenders s 1 = Appending At_load 0 [5] \<and> appenders s 2 = Resting
     \<and> handed s = [5, 0] \<and> undone s = {0}"
proof -
  let ?nb = entry_list_nbuckets
  have v: "valid_index ?nb 0" "valid_index ?nb 1" by (simp_all add: valid_index_def FBS_def FBS_HIBIT_def entry_list_nbuckets_def)
  define s1 where "s1 = claim_values 1 [5] append_init"
  have 1: "append_step ?nb 1 append_init s1"
    unfolding s1_def using v by (intro append_step.claim_one) (simp_all add: append_init_def relaxed_init_def)
  have s1: "appenders s1 = (\<lambda>_. Resting)(1 := Appending At_load 0 [5])" "handed s1 = [5]" "tail (rlog s1) = 1"
    "buckets (rlog s1) = monolog_base_init"
    by (simp_all add: s1_def claim_values_def append_init_def relaxed_init_def take_bit_eq_mod)
  obtain b off where b: "bucket_pos 1 = Some (b, off)" "1 + FBS = bucket_size b + off" "off < bucket_size b"
    by (rule valid_pos [OF v(2)])
  have "b = 0"
  proof (rule ccontr)
    assume "b \<noteq> 0"
    then have "(2 :: nat) ^ 5 \<le> bucket_size b" unfolding bucket_size_def FBS_HIBIT_def by (intro power_increasing) simp_all
    then show False using b(2) by (simp add: FBS_def)
  qed
  have inv: "append_inv ?nb s1" by (rule append_inv_step [OF 1 append_inv_init])
  obtain s where s: "(any_step ?nb)\<^sup>*\<^sup>* s1 s" "appenders s = appenders s1" "handed s = [5] @ [0]"
    using push_alone [OF inv, of 2 b off 0] s1 b(1) v(2) \<open>b = 0\<close> by (auto simp: monolog_base_init_def)
  have "any_step ?nb append_init s1" using 1 by (auto simp: any_step_def)
  then have "(any_step ?nb)\<^sup>*\<^sup>* append_init s" using s(1) by (rule converse_rtranclp_into_rtranclp)
  moreover have "undone s = {0}" by (auto simp: undone_def s(2) s1(1) split: if_splits)
  ultimately show ?thesis using s s1 by (intro exI [of _ s]) simp
qed

text \<open>
  C16. A query can meet a position that is not stored yet. Thread 1 appends identifier 5 to the list of a key, claims its position and is
  delayed; thread 2 appends identifier 0 to the same list and returns, and packet 0 is published. The list has size two and
  the entry of packet 0 is at position 1; position 0 was never written. The loop over the filter result of this key reads position 0 first, and compares
  nothing before: it has no defined result, although the only published packet of the key is complete.
\<close>

theorem query_reads_unwritten_entry:
  "\<exists>s. (any_step entry_list_nbuckets)\<^sup>*\<^sup>* append_init s \<and> appenders s 2 = Resting
     \<and> relaxed_size (rlog s) = 2 \<and> relaxed_at entry_list_nbuckets 1 (rlog s) = Some 0
     \<and> filter_iterate \<lparr>fr_index = Some (Index1 [80 \<mapsto> rlog s]), tok_min = 80, tok_max = 80, max_rid = 1\<rparr> = None"
proof -
  obtain s where s: "(any_step entry_list_nbuckets)\<^sup>*\<^sup>* append_init s" "appenders s 2 = Resting" "handed s = [5, 0]" "undone s = {0}"
    using overtaken_run by blast
  note D = append_invD [OF ap.reach_invar [OF refl s(1)]]
  have at: "relaxed_at entry_list_nbuckets i (rlog s) = (if i = 0 then None else Some (handed s ! i))" if "i < 2" for i
    using D(5) [OF D(2), of i] that s(3,4) by (simp add: relaxed_at_def)
  have "filter_iterate \<lparr>fr_index = Some (Index1 [80 \<mapsto> rlog s]), tok_min = 80, tok_max = 80, max_rid = 1\<rparr> = None"
    by (rule filter_first_unwritten [where ix = "Index1 [80 \<mapsto> rlog s]" and l = "rlog s"])
      (use at [of 0] D(1) s(3) in \<open>simp_all add: d1_at_def indexlet_at_def relaxed_size_def take_bit_eq_mod\<close>)
  then show ?thesis using s at [of 1] D(1) by (intro exI [of _ s]) (simp add: relaxed_size_def)
qed

text \<open>The run above, in which the second value can be read and stays.\<close>

theorem concurrent_appends_exact_witness:
  "\<exists>s. (any_step entry_list_nbuckets)\<^sup>*\<^sup>* append_init s \<and> relaxed_size (rlog s) = 2
     \<and> relaxed_at entry_list_nbuckets 0 (rlog s) = None \<and> relaxed_at entry_list_nbuckets 1 (rlog s) = Some 0"
proof -
  obtain s where s: "(any_step entry_list_nbuckets)\<^sup>*\<^sup>* append_init s" "handed s = [5, 0]" "undone s = {0}"
    using overtaken_run by blast
  note c = concurrent_appends_exact [OF s(1) rtranclp.rtrancl_refl]
  have "\<forall>i < 2. relaxed_at entry_list_nbuckets i (rlog s) = (if i = 0 then None else Some ([5, 0] ! i))"
    using c [THEN conjunct2, THEN conjunct1] s(2,3) by simp
  from this [THEN spec, of 0] this [THEN spec, of 1] c [THEN conjunct1] s(2) have
    "relaxed_size (rlog s) = 2" "relaxed_at entry_list_nbuckets 0 (rlog s) = None" "relaxed_at entry_list_nbuckets 1 (rlog s) = Some 0"
    by simp_all
  then show ?thesis using s(1) by blast
qed

theorem appends_wait_free_witness:
  "\<exists>s s'. (any_step entry_list_nbuckets)\<^sup>*\<^sup>* append_init s \<and> append_step entry_list_nbuckets 1 s s' \<and> steps_left (appenders s' 1) < 3"
proof -
  obtain s where s: "(any_step entry_list_nbuckets)\<^sup>*\<^sup>* append_init s" "appenders s 1 = Appending At_load 0 [5]"
    using overtaken_run by blast
  note w = appends_wait_free [OF s]
  obtain s' where "append_step entry_list_nbuckets 1 s s'" using w [THEN conjunct1] by blast
  moreover have "steps_left (appenders s' 1) < steps_left (appenders s 1)"
    using w [THEN conjunct2, THEN conjunct2, THEN conjunct1] calculation by blast
  ultimately have "append_step entry_list_nbuckets 1 s s' \<and> steps_left (appenders s' 1) < 3" using s(2) by simp
  then show ?thesis using s(1) by blast
qed

end
