(* ===== verification/Concurrent_Tiers.thy ===== *)
theory Concurrent_Tiers
  imports Relaxed_Concurrent Tiered_Index
begin

section \<open>Threads that add entries to one index (tieredindex.h)\<close>

text \<open>
  The objects of an index in memory, with addresses: address 0 is the index, \<open>slots n i\<close> is the pointer \<open>idx_[i]\<close> of the object at
  \<open>n\<close>, \<open>lists n\<close> the list of entries at \<open>n\<close> if it is one. Threads that call \<open>add_entry\<close>, or \<open>get\<close> and \<open>push_back_range\<close>, go down from
  the index level by level. At each level \<open>indexlet::get\<close> loads the pointer; if it was null it makes an object and
  tries to exchange the null pointer for it, deletes the object if another thread was faster, and then loads the pointer
  again, which the code follows without a test. The address of a deleted object is not used again, as no thread has it. At the last level the thread
  appends to the list, in the atomic steps of \<open>append_step\<close>. \<open>added\<close> is auxiliary: the entries with their keys, in the order their positions were claimed.
\<close>

datatype get_phase = At_first_load | At_exchange | At_second_load

datatype walker =
    Idle | Walking get_phase nat "nat list" nat "nat list" | At_list nat nat "nat list" | Inside nat

record tree_system =
  slots :: "nat \<Rightarrow> nat \<Rightarrow> nat option"
  next_obj :: nat
  lists :: "nat \<Rightarrow> append_system"
  walkers :: "nat \<Rightarrow> walker"
  added :: "(nat \<times> nat) list"

text \<open>The indexes of a key in the arrays of the levels, for arrays of the given sizes.\<close>

fun key_path :: "nat list \<Rightarrow> nat \<Rightarrow> nat list" where
  "key_path [] k = []"
| "key_path (z # zs) k = take_bit 32 (k div prod_list zs) # key_path zs (k mod prod_list zs)"

definition tree_init :: tree_system where
  "tree_init = \<lparr>slots = (\<lambda>_ _. None), next_obj = 1, lists = (\<lambda>_. append_init), walkers = (\<lambda>_. Idle), added = []\<rparr>"

definition go_to :: "nat \<Rightarrow> walker \<Rightarrow> tree_system \<Rightarrow> tree_system" where
  "go_to t w s = s\<lparr>walkers := (walkers s)(t := w)\<rparr>"

definition with_list :: "nat \<Rightarrow> append_system \<Rightarrow> tree_system \<Rightarrow> tree_system" where
  "with_list n l s = s\<lparr>lists := (lists s)(n := l)\<rparr>"

definition note_added :: "nat \<Rightarrow> nat list \<Rightarrow> tree_system \<Rightarrow> tree_system" where
  "note_added k vs s = s\<lparr>added := added s @ map (Pair k) vs\<rparr>"

text \<open>A new object, constructed at the next address, and the exchange of a null pointer for it.\<close>

definition new_object :: "tree_system \<Rightarrow> tree_system" where
  "new_object s = s\<lparr>next_obj := Suc (next_obj s), slots := (slots s)(next_obj s := (\<lambda>_. None)),
     lists := (lists s)(next_obj s := append_init)\<rparr>"

definition exchange_slot :: "nat \<Rightarrow> nat \<Rightarrow> tree_system \<Rightarrow> tree_system" where
  "exchange_slot n i s = (case slots s n i of
     None \<Rightarrow> (new_object s)\<lparr>slots := (slots (new_object s))(n := (slots (new_object s) n)(i \<mapsto> next_obj s))\<rparr>
   | Some c \<Rightarrow> new_object s)"

lemma tree_system_simps [simp]:
  "slots (go_to t w s) = slots s" "next_obj (go_to t w s) = next_obj s" "lists (go_to t w s) = lists s"
  "walkers (go_to t w s) = (walkers s)(t := w)" "added (go_to t w s) = added s"
  "slots (with_list n l s) = slots s" "next_obj (with_list n l s) = next_obj s" "lists (with_list n l s) = (lists s)(n := l)"
  "walkers (with_list n l s) = walkers s" "added (with_list n l s) = added s"
  "slots (note_added k vs s) = slots s" "next_obj (note_added k vs s) = next_obj s" "lists (note_added k vs s) = lists s"
  "walkers (note_added k vs s) = walkers s" "added (note_added k vs s) = added s @ map (Pair k) vs"
  "lists (exchange_slot n i s) = (lists s)(next_obj s := append_init)" "walkers (exchange_slot n i s) = walkers s"
  "next_obj (exchange_slot n i s) = Suc (next_obj s)" "added (exchange_slot n i s) = added s"
  by (simp_all add: go_to_def with_list_def note_added_def exchange_slot_def new_object_def split: option.split)

text \<open>A key outside the arrays is undefined, so a call begins with a key of the index.\<close>

inductive tree_step :: "nat list \<Rightarrow> nat \<Rightarrow> tree_system \<Rightarrow> tree_system \<Rightarrow> bool" for zs t where
  begin_entry: "walkers s t = Idle \<Longrightarrow> k < prod_list zs \<Longrightarrow>
     tree_step zs t s (go_to t (Walking At_first_load 0 (key_path zs k) k [val]) s)"
| begin_range: "walkers s t = Idle \<Longrightarrow> k < prod_list zs \<Longrightarrow> cnt = range_count start fin \<Longrightarrow> 0 < cnt \<Longrightarrow>
     tree_step zs t s (go_to t (Walking At_first_load 0 (key_path zs k) k (range_values start cnt)) s)"
| slot_there: "walkers s t = Walking At_first_load n (i # p) k vs \<Longrightarrow> slots s n i = Some c \<Longrightarrow>
     tree_step zs t s (go_to t (Walking At_second_load n (i # p) k vs) s)"
| slot_null: "walkers s t = Walking At_first_load n (i # p) k vs \<Longrightarrow> slots s n i = None \<Longrightarrow>
     tree_step zs t s (go_to t (Walking At_exchange n (i # p) k vs) s)"
| exchange: "walkers s t = Walking At_exchange n (i # p) k vs \<Longrightarrow>
     tree_step zs t s (go_to t (Walking At_second_load n (i # p) k vs) (exchange_slot n i s))"
| follow_slot: "walkers s t = Walking At_second_load n (i # p) k vs \<Longrightarrow> slots s n i = Some c \<Longrightarrow>
     tree_step zs t s (go_to t (if p = [] then At_list c k vs else Walking At_first_load c p k vs) s)"
| claim: "walkers s t = At_list n k vs \<Longrightarrow> valid_index entry_list_nbuckets (tail (rlog (lists s n)) + length vs - 1) \<Longrightarrow>
     tree_step zs t s (go_to t (Inside n) (note_added k vs (with_list n (claim_values t vs (lists s n)) s)))"
| append: "walkers s t = Inside n \<Longrightarrow> appenders (lists s n) t \<noteq> Resting \<Longrightarrow>
     append_step entry_list_nbuckets t (lists s n) l \<Longrightarrow>
     tree_step zs t s (go_to t (if appenders l t = Resting then Idle else Inside n) (with_list n l s))"

definition some_step :: "nat list \<Rightarrow> tree_system \<Rightarrow> tree_system \<Rightarrow> bool" where
  "some_step zs s s' \<longleftrightarrow> (\<exists>t. tree_step zs t s s')"

text \<open>The sizes of the arrays in the index for keys of so many bytes.\<close>

definition index_sizes :: "nat \<Rightarrow> nat list" where
  "index_sizes bytes = replicate (bytes div 2) 65536 @ replicate (bytes mod 2) 256"

section \<open>Paths\<close>

fun follow :: "(nat \<Rightarrow> nat \<Rightarrow> nat option) \<Rightarrow> nat \<Rightarrow> nat list \<Rightarrow> nat option" where
  "follow sl n [] = Some n"
| "follow sl n (i # p) = (case sl n i of None \<Rightarrow> None | Some c \<Rightarrow> follow sl c p)"

definition sizes_ok :: "nat list \<Rightarrow> bool" where
  "sizes_ok zs \<longleftrightarrow> zs \<noteq> [] \<and> (\<forall>z \<in> set zs. 0 < z \<and> z \<le> 2 ^ 16)"

lemma length_key_path [simp]: "length (key_path zs k) = length zs"
  by (induction zs arbitrary: k) simp_all

lemma sizes_pos: "\<forall>z \<in> set zs. 0 < z \<Longrightarrow> 0 < prod_list (zs :: nat list)"
  by (induction zs) simp_all

lemma key_digit:
  assumes "\<forall>z \<in> set (z # zs). 0 < z \<and> z \<le> (2 :: nat) ^ 16" "k < prod_list (z # zs)"
  shows "take_bit 32 (k div prod_list zs) = k div prod_list zs" "k div prod_list zs < z" "k mod prod_list zs < prod_list zs"
proof -
  have pos: "0 < prod_list zs" using assms(1) by (intro sizes_pos) simp
  show lt: "k div prod_list zs < z" using assms(2) by (simp add: less_mult_imp_div_less)
  then have "k div prod_list zs < 2 ^ 32" using assms(1) by simp
  then show "take_bit 32 (k div prod_list zs) = k div prod_list zs" by (rule take_bit_nat_eq_self)
  show "k mod prod_list zs < prod_list zs" using pos by simp
qed

lemma key_path_inj:
  assumes "\<forall>z \<in> set zs. 0 < z \<and> z \<le> (2 :: nat) ^ 16" "k < prod_list zs" "k' < prod_list zs" "key_path zs k = key_path zs k'"
  shows "k = k'"
  using assms
proof (induction zs arbitrary: k k')
  case (Cons z zs)
  note d = key_digit [OF Cons.prems(1,2)] and d' = key_digit [OF Cons.prems(1,3)]
  have "k div prod_list zs = k' div prod_list zs" using Cons.prems(4) d(1) d'(1) by simp
  moreover have "k mod prod_list zs = k' mod prod_list zs" using Cons d(3) d'(3) by simp
  ultimately show ?case by (metis div_mult_mod_eq)
qed simp

lemma follow_append: "follow sl n (p @ q) = (case follow sl n p of None \<Rightarrow> None | Some m \<Rightarrow> follow sl m q)"
  by (induction p arbitrary: n) (simp_all split: option.split)

lemma follow_mono:
  assumes "\<And>n i c. sl n i = Some c \<Longrightarrow> sl' n i = Some c" "follow sl n p = Some m"
  shows "follow sl' n p = Some m"
  using assms(2) by (induction p arbitrary: n) (auto split: option.splits dest: assms(1))

text \<open>Pointers form a tree: an object has one pointer to it, and none leads to the root.\<close>

definition tree_shaped :: "(nat \<Rightarrow> nat \<Rightarrow> nat option) \<Rightarrow> nat \<Rightarrow> bool" where
  "tree_shaped sl lim \<longleftrightarrow> 0 < lim \<and> (\<forall>n i c. sl n i = Some c \<longrightarrow> n < lim \<and> 0 < c \<and> c < lim)
     \<and> (\<forall>n m i j c. sl n i = Some c \<longrightarrow> sl m j = Some c \<longrightarrow> n = m \<and> i = j)"

lemma follow_less: "tree_shaped sl lim \<Longrightarrow> n < lim \<Longrightarrow> follow sl n p = Some m \<Longrightarrow> m < lim"
  by (induction p arbitrary: n) (auto simp: tree_shaped_def split: option.splits)

lemma follow_inj:
  assumes "tree_shaped sl lim" "follow sl 0 p = Some x" "follow sl 0 q = Some x"
  shows "p = q"
  using assms(2,3)
proof (induction p arbitrary: x q rule: rev_induct)
  case Nil
  then show ?case using assms(1) by (cases q rule: rev_cases) (auto simp: follow_append tree_shaped_def split: option.splits)
next
  case (snoc i p)
  obtain n where n: "follow sl 0 p = Some n" "sl n i = Some x" using snoc.prems(1) by (auto simp: follow_append split: option.splits)
  show ?case
  proof (cases q rule: rev_cases)
    case Nil
    then show ?thesis using snoc.prems n assms(1) by (auto simp: tree_shaped_def)
  next
    case (snoc q' j)
    then obtain m where m: "follow sl 0 q' = Some m" "sl m j = Some x"
      using snoc.prems(2) by (auto simp: follow_append split: option.splits)
    have "n = m \<and> i = j" using n(2) m(2) assms(1) unfolding tree_shaped_def by blast
    then show ?thesis using snoc.IH [OF n(1), of q'] m(1) snoc by simp
  qed
qed

section \<open>The invariant\<close>

definition list_of_key :: "nat list \<Rightarrow> tree_system \<Rightarrow> nat \<Rightarrow> nat option" where
  "list_of_key zs s k = follow (slots s) 0 (key_path zs k)"

definition values_of :: "nat \<Rightarrow> (nat \<times> nat) list \<Rightarrow> nat list" where
  "values_of k xs = map snd (filter (\<lambda>x. fst x = k) xs)"

text \<open>The values a call appends: one, or a range.\<close>

definition claimable :: "nat list \<Rightarrow> bool" where
  "claimable vs \<longleftrightarrow> (\<exists>v. vs = [v]) \<or> (\<exists>start fin. vs = range_values start (range_count start fin) \<and> 0 < range_count start fin)"

lemma claimable_not_empty: "claimable vs \<Longrightarrow> vs \<noteq> []"
  by (auto simp: claimable_def range_values_def)

lemma claim_step:
  assumes "claimable vs" "appenders l t = Resting" "valid_index nb (tail (rlog l) + length vs - 1)"
  shows "append_step nb t l (claim_values t vs l)"
proof -
  consider v where "vs = [v]" | start fin where "vs = range_values start (range_count start fin)" "0 < range_count start fin"
    using assms(1) by (auto simp: claimable_def)
  then show ?thesis
  proof cases
    case 1
    then show ?thesis using append_step.claim_one [of l t nb v] assms(2,3) by simp
  next
    case 2
    then show ?thesis using append_step.claim_range [of l t "range_count start fin" start fin nb] assms(2,3) by (simp add: range_values_def)
  qed
qed

text \<open>A thread inside \<open>get\<close> stands at the object its key leads to and has the rest of the path before it.\<close>

definition walker_ok :: "nat list \<Rightarrow> tree_system \<Rightarrow> walker \<Rightarrow> bool" where
  "walker_ok zs s w \<longleftrightarrow> (\<forall>ph n p k vs. w = Walking ph n p k vs \<longrightarrow> claimable vs \<and> p \<noteq> [] \<and> k < prod_list zs
       \<and> (\<exists>pre. key_path zs k = pre @ p \<and> follow (slots s) 0 pre = Some n) \<and> (ph = At_second_load \<longrightarrow> slots s n (hd p) \<noteq> None))
     \<and> (\<forall>n k vs. w = At_list n k vs \<longrightarrow> claimable vs \<and> k < prod_list zs \<and> list_of_key zs s k = Some n)
     \<and> (\<forall>n. w = Inside n \<longrightarrow> n < next_obj s)"

lemma same_tree [simp]:
  "list_of_key zs (go_to t w s) = list_of_key zs s" "list_of_key zs (with_list n l s) = list_of_key zs s"
  "list_of_key zs (note_added k vs s) = list_of_key zs s" "walker_ok zs (go_to t w s) = walker_ok zs s"
  "walker_ok zs (with_list n l s) = walker_ok zs s" "walker_ok zs (note_added k vs s) = walker_ok zs s"
  by (simp_all add: list_of_key_def walker_ok_def fun_eq_iff)

lemma values_of_add: "values_of k' (xs @ map (Pair k) vs) = values_of k' xs @ (if k' = k then vs else [])"
  by (simp add: values_of_def filter_map comp_def)

text \<open>The key a thread is on the way to append to.\<close>

fun aim :: "walker \<Rightarrow> nat option" where
  "aim (Walking ph n p k vs) = Some k" | "aim (At_list n k vs) = Some k" | "aim w = None"

text \<open>
  A list holds the positions handed out for its key; a list that is still empty was made by a thread that is on the way to it.
\<close>

definition tree_inv :: "nat list \<Rightarrow> tree_system \<Rightarrow> bool" where
  "tree_inv zs s \<longleftrightarrow> tree_shaped (slots s) (next_obj s) \<and> (\<forall>t. walker_ok zs s (walkers s t))
     \<and> (\<forall>t n. appenders (lists s n) t \<noteq> Resting \<longleftrightarrow> walkers s t = Inside n)
     \<and> (\<forall>n. append_inv entry_list_nbuckets (lists s n))
     \<and> (\<forall>k < prod_list zs. values_of k (added s) = (case list_of_key zs s k of None \<Rightarrow> [] | Some n \<Rightarrow> handed (lists s n)))
     \<and> (\<forall>k < prod_list zs. \<forall>n. list_of_key zs s k = Some n \<longrightarrow> handed (lists s n) = [] \<longrightarrow> (\<exists>t. aim (walkers s t) = Some k))"

lemma tree_invD:
  assumes "tree_inv zs s"
  shows "tree_shaped (slots s) (next_obj s)" "walker_ok zs s (walkers s t)"
    "appenders (lists s n) t \<noteq> Resting \<longleftrightarrow> walkers s t = Inside n" "append_inv entry_list_nbuckets (lists s n)"
    "k < prod_list zs \<Longrightarrow> values_of k (added s) = (case list_of_key zs s k of None \<Rightarrow> [] | Some n \<Rightarrow> handed (lists s n))"
    "k < prod_list zs \<Longrightarrow> list_of_key zs s k = Some n \<Longrightarrow> handed (lists s n) = [] \<Longrightarrow> \<exists>t. aim (walkers s t) = Some k"
  using assms unfolding tree_inv_def by blast+

lemma tree_invI:
  assumes "tree_shaped (slots s) (next_obj s)" "\<And>t. walker_ok zs s (walkers s t)"
    "\<And>t n. appenders (lists s n) t \<noteq> Resting \<longleftrightarrow> walkers s t = Inside n" "\<And>n. append_inv entry_list_nbuckets (lists s n)"
    "\<And>k. k < prod_list zs \<Longrightarrow> values_of k (added s) = (case list_of_key zs s k of None \<Rightarrow> [] | Some n \<Rightarrow> handed (lists s n))"
    "\<And>k n. k < prod_list zs \<Longrightarrow> list_of_key zs s k = Some n \<Longrightarrow> handed (lists s n) = [] \<Longrightarrow> \<exists>t. aim (walkers s t) = Some k"
  shows "tree_inv zs s"
  using assms unfolding tree_inv_def by blast

lemma walkingD:
  assumes "tree_inv zs s" "walkers s t = Walking ph n p k vs"
  shows "claimable vs" "p \<noteq> []" "k < prod_list zs" "\<exists>pre. key_path zs k = pre @ p \<and> follow (slots s) 0 pre = Some n"
    "ph = At_second_load \<Longrightarrow> slots s n (hd p) \<noteq> None"
  using tree_invD(2) [OF assms(1), of t] assms(2) unfolding walker_ok_def by blast+

lemma at_listD:
  assumes "tree_inv zs s" "walkers s t = At_list n k vs"
  shows "claimable vs" "k < prod_list zs" "list_of_key zs s k = Some n"
  using tree_invD(2) [OF assms(1), of t] assms(2) unfolding walker_ok_def by blast+

lemma list_of_key_less: "tree_inv zs s \<Longrightarrow> list_of_key zs s k = Some n \<Longrightarrow> n < next_obj s"
  using follow_less [OF tree_invD(1), of zs s 0] tree_invD(1) [of zs s] by (auto simp: list_of_key_def tree_shaped_def)

lemma list_of_key_inj:
  assumes "sizes_ok zs" "tree_inv zs s" "k < prod_list zs" "k' < prod_list zs"
    "list_of_key zs s k = Some n" "list_of_key zs s k' = Some n"
  shows "k = k'"
proof -
  have "key_path zs k = key_path zs k'"
    using follow_inj [OF tree_invD(1) [OF assms(2)]] assms(5,6) unfolding list_of_key_def by blast
  then show ?thesis using key_path_inj [of zs k k'] assms(1,3,4) by (auto simp: sizes_ok_def)
qed

lemma tree_inv_init: "sizes_ok zs \<Longrightarrow> tree_inv zs tree_init"
proof -
  assume ok: "sizes_ok zs"
  have "list_of_key zs tree_init k = None" for k
  proof -
    have "length (key_path zs k) \<noteq> 0" using ok unfolding length_key_path by (simp add: sizes_ok_def)
    then show ?thesis by (cases "key_path zs k") (simp_all add: list_of_key_def tree_init_def)
  qed
  then show ?thesis
    using append_inv_init
    by (simp add: tree_inv_def tree_shaped_def walker_ok_def values_of_def) (simp add: tree_init_def append_init_def)
qed

section \<open>Every step keeps it\<close>

text \<open>A thread that moves on its way.\<close>

lemma tree_inv_move:
  assumes inv: "tree_inv zs s" and w: "\<And>n. walkers s t \<noteq> Inside n" "\<And>n. w \<noteq> Inside n"
    and ok: "walker_ok zs s w" and aim: "\<And>k. aim (walkers s t) = Some k \<Longrightarrow> aim w = Some k"
  shows "tree_inv zs (go_to t w s)"
proof -
  note D = tree_invD [OF inv]
  show ?thesis
  proof (rule tree_invI)
    show "walker_ok zs (go_to t w s) (walkers (go_to t w s) u)" for u using D(2) ok by simp
    show "(appenders (lists (go_to t w s) n) u \<noteq> Resting) = (walkers (go_to t w s) u = Inside n)" for u n using D(3) w by simp
    fix k n assume k: "k < prod_list zs" "list_of_key zs (go_to t w s) k = Some n" "handed (lists (go_to t w s) n) = []"
    then have "\<exists>u. aim (walkers s u) = Some k" using D(6) [OF k(1)] by simp
    moreover have "aim (walkers (go_to t w s) u) = Some k" if "aim (walkers s u) = Some k" for u using aim that by auto
    ultimately show "\<exists>u. aim (walkers (go_to t w s) u) = Some k" by blast
  qed (use D(1,4,5) in \<open>simp_all cong: option.case_cong\<close>)
qed

lemma walker_ok_mono:
  assumes "\<And>m j c. slots s m j = Some c \<Longrightarrow> slots s' m j = Some c" "next_obj s \<le> next_obj s'" "walker_ok zs s w"
  shows "walker_ok zs s' w"
proof -
  have f: "follow (slots s') n q = Some m" if "follow (slots s) n q = Some m" for n q m by (rule follow_mono [OF assms(1) that])
  show ?thesis
  proof (cases w)
    case (Walking ph n p k vs)
    obtain pre where "key_path zs k = pre @ p" "follow (slots s) 0 pre = Some n"
      using assms(3) Walking unfolding walker_ok_def by blast
    then have "\<exists>pre. key_path zs k = pre @ p \<and> follow (slots s') 0 pre = Some n" using f by blast
    moreover have "slots s' n (hd p) \<noteq> None" if "slots s n (hd p) \<noteq> None" using assms(1) that by fastforce
    ultimately show ?thesis using assms(3) Walking by (simp add: walker_ok_def)
  qed (use assms(2,3) f in \<open>auto simp: walker_ok_def list_of_key_def\<close>)
qed

text \<open>The exchange of a null pointer.\<close>

lemma follow_insert:
  assumes "tree_shaped sl lim" "n < lim" "m < lim" "follow (sl(n := (sl n)(i \<mapsto> lim))) m p = Some x"
    and "sl n i = None"
  shows "follow sl m p = Some x \<or> x = lim \<and> follow sl m p = None"
proof -
  define sl' where "sl' = sl(n := (sl n)(i \<mapsto> lim))"
  have sl': "sl' a b = (if a = n \<and> b = i then Some lim else sl a b)" for a b by (simp add: sl'_def)
  have none: "sl' lim a = None" for a using assms(1,2) by (cases "sl lim a") (auto simp: sl' tree_shaped_def)
  have "follow sl' m p = Some x \<Longrightarrow> m < lim \<Longrightarrow> ?thesis"
  proof (induction p arbitrary: m)
    case (Cons j p)
    show ?case
    proof (cases "m = n \<and> j = i")
      case True
      then show ?thesis using Cons.prems assms(5) none by (cases p) (simp_all add: sl')
    next
      case False
      then have "sl' m j = sl m j" by (auto simp: sl')
      then obtain c where c: "sl m j = Some c" "follow sl' c p = Some x" using Cons.prems(1) by (auto split: option.splits)
      then show ?thesis using Cons.IH [OF c(2)] assms(1) by (auto simp: tree_shaped_def)
    qed
  qed simp
  then show ?thesis using assms(3,4) by (simp add: sl'_def)
qed

lemma tree_shaped_insert:
  assumes "tree_shaped sl lim" "n < lim"
  shows "tree_shaped (sl(n := (sl n)(i \<mapsto> lim))) (Suc lim)"
proof -
  have old: "m < lim \<and> 0 < c \<and> c < lim" if "sl m j = Some c" for m j c using assms(1) that by (auto simp: tree_shaped_def)
  have inj: "m = m' \<and> j = j'" if "sl m j = Some c" "sl m' j' = Some c" for m m' j j' c
    using assms(1) that unfolding tree_shaped_def by blast
  show ?thesis
    unfolding tree_shaped_def
  proof (intro conjI allI impI)
    fix m j c assume "(sl(n := (sl n)(i \<mapsto> lim))) m j = Some c"
    then have c: "m = n \<and> j = i \<and> c = lim \<or> sl m j = Some c" by (auto split: if_splits)
    then show "m < Suc lim" "0 < c" "c < Suc lim" using old [of m j c] assms(2) by (auto intro: less_SucI)
    fix m' j' assume "(sl(n := (sl n)(i \<mapsto> lim))) m' j' = Some c"
    then have "m' = n \<and> j' = i \<and> c = lim \<or> sl m' j' = Some c" by (auto split: if_splits)
    then have "m = m' \<and> j = j'" using c inj [of m j c m' j'] old [of m j c] old [of m' j' c] by blast
    then show "m = m'" "j = j'" by simp_all
  qed simp
qed

lemma slots_exchange:
  assumes "tree_inv zs s" "n < next_obj s"
  shows "slots (exchange_slot n i s) = (if slots s n i = None then (slots s)(n := (slots s n)(i \<mapsto> next_obj s)) else slots s)"
proof -
  have "slots s (next_obj s) = (\<lambda>_. None)"
  proof
    fix a show "slots s (next_obj s) a = None"
      using tree_invD(1) [OF assms(1)] by (cases "slots s (next_obj s) a") (auto simp: tree_shaped_def)
  qed
  then have "(slots s)(next_obj s := (\<lambda>_. None)) = slots s" by (metis fun_upd_triv)
  then show ?thesis using assms(2) by (auto simp: exchange_slot_def new_object_def split: option.split)
qed

lemma exchange_inv:
  assumes ok: "sizes_ok zs" and inv: "tree_inv zs s" and w: "walkers s t = Walking At_exchange n (i # p) k vs"
  shows "tree_inv zs (exchange_slot n i s) \<and> slots (exchange_slot n i s) n i \<noteq> None"
proof -
  let ?s = "exchange_slot n i s"
  note D = tree_invD [OF inv] and W = walkingD [OF inv w]
  have root: "0 < next_obj s" using D(1) by (simp add: tree_shaped_def)
  obtain pre where pre: "key_path zs k = pre @ i # p" "follow (slots s) 0 pre = Some n" using W(4) by blast
  have n: "n < next_obj s" by (rule follow_less [OF D(1) root pre(2)])
  note sl = slots_exchange [OF inv n, of i]
  have mono: "slots ?s m j = Some c" if "slots s m j = Some c" for m j c using that by (auto simp: sl)
  have keep: "list_of_key zs ?s k' = Some x" if "list_of_key zs s k' = Some x" for k' x
    using that follow_mono [OF mono] by (simp add: list_of_key_def)
  have new: "list_of_key zs s k' = Some x \<or> x = next_obj s \<and> list_of_key zs s k' = None \<and> slots s n i = None"
    if "list_of_key zs ?s k' = Some x" for k' x
    using that follow_insert [OF D(1) n root, of i "key_path zs k'" x] by (auto simp: list_of_key_def sl split: if_splits)
  have shape: "tree_shaped (slots ?s) (Suc (next_obj s))"
  proof (cases "slots s n i")
    case None
    then show ?thesis using tree_shaped_insert [OF D(1) n] by (simp add: sl)
  next
    case (Some c)
    then show ?thesis using D(1) by (simp add: sl tree_shaped_def) (meson less_SucI)
  qed
  have wok: "walker_ok zs ?s (walkers s u)" for u by (rule walker_ok_mono [OF mono _ D(2)]) simp_all
  have aim: "k' = k" if k': "k' < prod_list zs" "list_of_key zs ?s k' = Some (next_obj s)" "slots s n i = None" for k'
  proof -
    have "follow (slots ?s) 0 pre = Some n" by (rule follow_mono [OF mono pre(2)])
    moreover have "slots ?s n i = Some (next_obj s)" using k'(3) by (simp add: sl)
    ultimately have "follow (slots ?s) 0 (pre @ [i]) = Some (next_obj s)" by (simp add: follow_append)
    then have eq: "key_path zs k' = pre @ [i]" using follow_inj [OF shape] k'(2) unfolding list_of_key_def by blast
    have "length (key_path zs k) = length (key_path zs k')" by simp
    then have "key_path zs k' = key_path zs k" unfolding eq pre(1) by simp
    then show ?thesis using key_path_inj [of zs k' k] ok k'(1) W(3) by (simp add: sizes_ok_def)
  qed
  have "tree_inv zs ?s"
  proof (rule tree_invI)
    show "tree_shaped (slots ?s) (next_obj ?s)" using shape by simp
    fix u m
    show "walker_ok zs ?s (walkers ?s u)" using wok by simp
    have "walkers s u \<noteq> Inside (next_obj s)" using D(2) [of u] by (auto simp: walker_ok_def)
    then show "(appenders (lists ?s m) u \<noteq> Resting) = (walkers ?s u = Inside m)" using D(3) [of m u] by (simp add: append_init_def)
    show "append_inv entry_list_nbuckets (lists ?s m)" using D(4) append_inv_init by simp
  next
    fix k' assume k': "k' < prod_list zs"
    note H = D(5) [OF k']
    show "values_of k' (added ?s) = (case list_of_key zs ?s k' of None \<Rightarrow> [] | Some n \<Rightarrow> handed (lists ?s n))"
    proof (cases "list_of_key zs ?s k'")
      case None
      then have "list_of_key zs s k' = None" using keep by (cases "list_of_key zs s k'") simp_all
      then show ?thesis using None H by simp
    next
      case (Some x)
      then show ?thesis using new [OF Some] H list_of_key_less [OF inv, of k' x] by (auto simp: append_init_def)
    qed
    fix x assume x: "list_of_key zs ?s k' = Some x" "handed (lists ?s x) = []"
    show "\<exists>u. aim (walkers ?s u) = Some k'"
    proof (cases "list_of_key zs s k' = Some x")
      case True
      then show ?thesis using D(6) [OF k' True] x(2) list_of_key_less [OF inv True] by simp
    next
      case False
      then have "k' = k" using new [OF x(1)] aim [OF k'] x(1) by blast
      then have "aim (walkers ?s t) = Some k'" using w by simp
      then show ?thesis by blast
    qed
  qed
  then show ?thesis by (simp add: sl)
qed

text \<open>The claim of positions in the list of the key.\<close>

lemma claim_inv_tree:
  assumes ok: "sizes_ok zs" and inv: "tree_inv zs s" and w: "walkers s t = At_list n k vs"
    and room: "valid_index entry_list_nbuckets (tail (rlog (lists s n)) + length vs - 1)"
  shows "tree_inv zs (go_to t (Inside n) (note_added k vs (with_list n (claim_values t vs (lists s n)) s)))" (is "tree_inv zs ?s")
proof -
  note D = tree_invD [OF inv] and W = at_listD [OF inv w]
  have rest: "appenders (lists s m) t = Resting" for m using D(3) [of m t] w by auto
  have h: "handed (claim_values t vs l) = handed l @ vs" "appenders (claim_values t vs l) = (appenders l)(t := Appending At_load (tail (rlog l)) vs)"
    for l by (simp_all add: claim_values_def)
  show ?thesis
  proof (rule tree_invI)
    show "tree_shaped (slots ?s) (next_obj ?s)" using D(1) by simp
    fix u m
    have "walker_ok zs s (Inside n)" using list_of_key_less [OF inv W(3)] by (simp add: walker_ok_def)
    then show "walker_ok zs ?s (walkers ?s u)" using D(2) by simp
    show "(appenders (lists ?s m) u \<noteq> Resting) = (walkers ?s u = Inside m)"
      using D(3) [of m u] rest by (auto simp: h)
    show "append_inv entry_list_nbuckets (lists ?s m)" using D(4) append_inv_step [OF claim_step [OF W(1) rest room] D(4)] by simp
  next
    fix k' assume k': "k' < prod_list zs"
    have other: "m \<noteq> n" if "list_of_key zs s k' = Some m" "k' \<noteq> k" for m
      using list_of_key_inj [OF ok inv k' W(2), of m] that W(3) by auto
    show "values_of k' (added ?s) = (case list_of_key zs ?s k' of None \<Rightarrow> [] | Some n \<Rightarrow> handed (lists ?s n))"
      using other W(3) by (auto simp: h values_of_add D(5) [OF k'] split: option.split)
    fix m assume m': "list_of_key zs ?s k' = Some m" "handed (lists ?s m) = []"
    then have m: "list_of_key zs s k' = Some m" "handed (lists ?s m) = []" by simp_all
    have mn: "m \<noteq> n" using m(2) claimable_not_empty [OF W(1)] by (auto simp: h)
    obtain u where u: "aim (walkers s u) = Some k'" using D(6) [OF k' m(1)] m(2) mn by auto
    have "u \<noteq> t" using u w mn m(1) W(3) by auto
    then show "\<exists>u. aim (walkers ?s u) = Some k'" using u by (intro exI [of _ u]) simp
  qed
qed

text \<open>A step of an append.\<close>

lemma append_keeps_handed: "append_step nb t s s' \<Longrightarrow> appenders s t \<noteq> Resting \<Longrightarrow> handed s' = handed s"
  by (auto elim!: append_step.cases)

lemma append_inv_tree:
  assumes inv: "tree_inv zs s" and w: "walkers s t = Inside n" "appenders (lists s n) t \<noteq> Resting"
    and step: "append_step entry_list_nbuckets t (lists s n) l"
  shows "tree_inv zs (go_to t (if appenders l t = Resting then Idle else Inside n) (with_list n l s))" (is "tree_inv zs ?s")
proof -
  note D = tree_invD [OF inv]
  have h: "handed l = handed (lists s n)" by (rule append_keeps_handed [OF step w(2)])
  show ?thesis
  proof (rule tree_invI)
    show "tree_shaped (slots ?s) (next_obj ?s)" using D(1) by simp
    fix u m
    have "walker_ok zs s Idle" "walker_ok zs s (Inside n)" using D(2) [of t] w(1) by (simp_all add: walker_ok_def)
    then show "walker_ok zs ?s (walkers ?s u)" using D(2) by simp
    show "(appenders (lists ?s m) u \<noteq> Resting) = (walkers ?s u = Inside m)"
      using D(3) [of m u] w append_step_other [OF step, of u] by (cases "u = t") auto
    show "append_inv entry_list_nbuckets (lists ?s m)" using D(4) append_inv_step [OF step D(4)] by simp
  next
    fix k' assume k': "k' < prod_list zs"
    show "values_of k' (added ?s) = (case list_of_key zs ?s k' of None \<Rightarrow> [] | Some n \<Rightarrow> handed (lists ?s n))"
      using D(5) [OF k'] h by (auto split: option.split)
    fix m assume m': "list_of_key zs ?s k' = Some m" "handed (lists ?s m) = []"
    then have m: "list_of_key zs s k' = Some m" "handed (lists ?s m) = []" by simp_all
    then obtain u where u: "aim (walkers s u) = Some k'" using D(6) [OF k' m(1)] h by (auto split: if_splits)
    then have "u \<noteq> t" using w(1) by auto
    then show "\<exists>u. aim (walkers ?s u) = Some k'" using u by (intro exI [of _ u]) simp
  qed
qed

lemma tree_inv_step:
  assumes ok: "sizes_ok zs"
  shows "tree_step zs t s s' \<Longrightarrow> tree_inv zs s \<Longrightarrow> tree_inv zs s'"
proof (induction rule: tree_step.induct)
  case (begin_entry s k val)
  have "key_path zs k \<noteq> []" using ok length_key_path [of zs k] by (auto simp: sizes_ok_def simp del: length_key_path)
  then show ?case using begin_entry by (intro tree_inv_move) (auto simp: walker_ok_def claimable_def)
next
  case (begin_range s k cnt start fin)
  have "key_path zs k \<noteq> []" using ok length_key_path [of zs k] by (auto simp: sizes_ok_def simp del: length_key_path)
  then show ?case using begin_range by (intro tree_inv_move) (auto simp: walker_ok_def claimable_def)
next
  case (slot_there s n i p k vs c)
  show ?case by (rule tree_inv_move) (use slot_there walkingD [OF slot_there(3,1)] in \<open>auto simp: walker_ok_def\<close>)
next
  case (slot_null s n i p k vs)
  show ?case by (rule tree_inv_move) (use slot_null walkingD [OF slot_null(3,1)] in \<open>auto simp: walker_ok_def\<close>)
next
  case (exchange s n i p k vs)
  note e = exchange_inv [OF ok exchange(2,1)]
  have w: "walkers (exchange_slot n i s) t = Walking At_exchange n (i # p) k vs" using exchange(1) by simp
  show ?case by (rule tree_inv_move) (use e w walkingD [OF e [THEN conjunct1] w] in \<open>auto simp: walker_ok_def\<close>)
next
  case (follow_slot s n i p k vs c)
  note W = walkingD [OF follow_slot(3,1)]
  obtain pre where pre: "key_path zs k = pre @ i # p" "follow (slots s) 0 pre = Some n" using W(4) by blast
  have f: "follow (slots s) 0 (pre @ [i]) = Some c" using pre(2) follow_slot(2) by (simp add: follow_append)
  have "\<exists>pre. key_path zs k = pre @ p \<and> follow (slots s) 0 pre = Some c" using pre(1) f by (intro exI [of _ "pre @ [i]"]) simp
  moreover have "list_of_key zs s k = Some c" if "p = []" using pre(1) f that by (simp add: list_of_key_def)
  ultimately have "walker_ok zs s (if p = [] then At_list c k vs else Walking At_first_load c p k vs)"
    using W(1,3) by (auto simp: walker_ok_def)
  then show ?case by (rule tree_inv_move [OF follow_slot(3), rotated 2]) (use follow_slot(1) in auto)
next
  case (claim s n k vs)
  show ?case by (rule claim_inv_tree [OF ok claim(3,1,2)])
next
  case (append s n l)
  show ?case by (rule append_inv_tree [OF append(4,1-3)])
qed

section \<open>The index in memory as a tree of maps\<close>

text \<open>What an object holds, level by level: the index of \<open>Tiered_Index\<close> that the objects in memory stand for.\<close>

definition level :: "tree_system \<Rightarrow> (nat \<Rightarrow> 'v) \<Rightarrow> nat \<Rightarrow> 'v indexlet" where
  "level s f n = (\<lambda>i. map_option f (slots s n i))"

definition list_view :: "tree_system \<Rightarrow> nat \<Rightarrow> entry_list" where
  "list_view s n = rlog (lists s n)"

definition index_view :: "nat \<Rightarrow> tree_system \<Rightarrow> index_obj" where
  "index_view bytes s =
     (let v1 = level s (list_view s); v2 = level s v1; v3 = level s v2; v4 = level s v3 in
      if bytes = 1 then Index1 (v1 0) else if bytes = 2 then Index2 (v1 0)
      else if bytes = 3 then Index3 (v2 0) else if bytes = 4 then Index4 (v2 0)
      else if bytes = 5 then Index5 (v3 0) else if bytes = 6 then Index6 (v3 0)
      else if bytes = 7 then Index7 (v4 0) else Index8 (v4 0))"

definition views :: "tree_system \<Rightarrow> nat list \<Rightarrow> (nat \<Rightarrow> 'ix \<Rightarrow> entry_list option option) \<Rightarrow> (nat \<Rightarrow> 'ix) \<Rightarrow> bool" where
  "views s zs at f \<longleftrightarrow> (\<forall>n k. k < prod_list zs \<longrightarrow>
     at k (f n) = Some (map_option (list_view s) (follow (slots s) n (key_path zs k))))"

lemma views_one: "z \<le> 2 ^ 16 \<Longrightarrow> views s [z] (d1_at z) (level s (list_view s))"
  by (auto simp: views_def d1_at_def indexlet_at_def level_def take_bit_nat_eq_self split: option.split)

lemma views_tier:
  assumes sz: "\<forall>z \<in> set (z # zs). 0 < z \<and> z \<le> (2 :: nat) ^ 16" and v: "views s zs at f" and blk: "blk = prod_list zs"
  shows "views s (z # zs) (tier_at z blk at) (level s f)"
  unfolding views_def
proof (intro allI impI)
  fix n k assume k: "k < prod_list (z # zs)"
  note d = key_digit [OF sz k]
  have inner: "at (k mod prod_list zs) (f c) = Some (map_option (list_view s) (follow (slots s) c (key_path zs (k mod prod_list zs))))" for c
    using v d(3) by (simp add: views_def)
  show "tier_at z blk at k (level s f n) = Some (map_option (list_view s) (follow (slots s) n (key_path (z # zs) k)))"
    using d(1,2) by (simp add: blk tier_at_def indexlet_at_def level_def inner split: option.split)
qed

lemma bytes_cases: "1 \<le> bytes \<Longrightarrow> bytes \<le> 8 \<Longrightarrow> bytes \<in> {1, 2, 3, 4, 5, 6, 7, 8 :: nat}"
  by auto

lemma replicate_small: "replicate 2 x = [x, x]" "replicate 3 x = [x, x, x]" "replicate 4 x = [x, x, x, x]"
  by (simp_all add: numeral_eq_Suc)

lemma index_sizes_simps:
  "index_sizes 1 = [256]" "index_sizes 2 = [65536]" "index_sizes 3 = [65536, 256]" "index_sizes 4 = [65536, 65536]"
  "index_sizes 5 = [65536, 65536, 256]" "index_sizes 6 = [65536, 65536, 65536]" "index_sizes 7 = [65536, 65536, 65536, 256]"
  "index_sizes 8 = [65536, 65536, 65536, 65536]"
  by (simp_all add: index_sizes_def replicate_small)

lemma index_sizes_ok:
  assumes "1 \<le> bytes" "bytes \<le> 8"
  shows "sizes_ok (index_sizes bytes)" "prod_list (index_sizes bytes) = 256 ^ bytes"
  using bytes_cases [OF assms] by (auto simp: index_sizes_simps [simplified] sizes_ok_def)

lemma obj_at_view:
  assumes "1 \<le> bytes" "bytes \<le> 8" "k < 256 ^ bytes"
  shows "obj_at k (index_view bytes s) = Some (map_option (list_view s) (list_of_key (index_sizes bytes) s k))"
proof -
  let ?z = "65536 :: nat"
  let ?v1 = "level s (list_view s)"
  note one = views_one [of 256 s] views_one [of ?z s]
  have two: "views s [?z, 256] (d2_at ?z 256) (level s ?v1)" "views s [?z, ?z] (d2_at ?z ?z) (level s ?v1)"
    unfolding d2_at_def by (rule views_tier, simp_all add: one)+
  have three: "views s [?z, ?z, 256] (d3_at ?z ?z 256) (level s (level s ?v1))" "views s [?z, ?z, ?z] (d3_at ?z ?z ?z) (level s (level s ?v1))"
    unfolding d3_at_def by (rule views_tier, simp_all add: two)+
  have four: "views s [?z, ?z, ?z, 256] (d4_at ?z ?z ?z 256) (level s (level s (level s ?v1)))"
    "views s [?z, ?z, ?z, ?z] (d4_at ?z ?z ?z ?z) (level s (level s (level s ?v1)))"
    unfolding d4_at_def by (rule views_tier, simp_all add: three)+
  have k: "k < prod_list (index_sizes bytes)" using index_sizes_ok(2) [OF assms(1,2)] assms(3) by simp
  note at = one [unfolded views_def, rule_format, of k 0] two [unfolded views_def, rule_format, of k 0]
    three [unfolded views_def, rule_format, of k 0] four [unfolded views_def, rule_format, of k 0]
  consider "bytes = 1" | "bytes = 2" | "bytes = 3" | "bytes = 4" | "bytes = 5" | "bytes = 6" | "bytes = 7" | "bytes = 8"
    using bytes_cases [OF assms(1,2)] by blast
  then show ?thesis
    by cases (use k at in \<open>simp_all add: index_view_def list_of_key_def index_sizes_simps [simplified] Let_def del: key_path.simps prod_list.Cons\<close>)
qed

section \<open>What readers can rely on\<close>

interpretation tree: step_refinement "\<lambda>s. sizes_ok zs \<and> s = tree_init" "some_step zs" "[]" "\<lambda>xs ys. \<exists>k vs. ys = xs @ map (Pair k) vs"
  added "\<lambda>s. sizes_ok zs \<and> tree_inv zs s" for zs
proof
  show "sizes_ok zs \<and> tree_inv zs s'" if "some_step zs s s'" "sizes_ok zs \<and> tree_inv zs s" for s s'
    using that tree_inv_step by (auto simp: some_step_def)
  show "added s' = added s \<or> (\<exists>k vs. added s' = added s @ map (Pair k) vs)" if "some_step zs s s'" "sizes_ok zs \<and> tree_inv zs s" for s s'
    using that(1) by (auto simp: some_step_def elim!: tree_step.cases) blast
qed (simp_all add: tree_inv_init, simp add: tree_init_def)

lemma index_reach_inv:
  assumes "1 \<le> bytes" "bytes \<le> 8" "(some_step (index_sizes bytes))\<^sup>*\<^sup>* tree_init s"
  shows "tree_inv (index_sizes bytes) s"
  using tree.reach_invar [OF _ assms(3)] index_sizes_ok(1) [OF assms(1,2)] by simp

text \<open>The list of a key stays where it is, and what happens to it is what the steps of the list do.\<close>

lemma tree_step_slots:
  assumes "tree_inv zs s" "tree_step zs t s s'" "slots s n i = Some c"
  shows "slots s' n i = Some c"
  using assms(2)
proof (cases rule: tree_step.cases)
  case (exchange m j p k vs)
  have W: "\<exists>pre. key_path zs k = pre @ j # p \<and> follow (slots s) 0 pre = Some m" by (rule walkingD(4) [OF assms(1) exchange(2)])
  have "0 < next_obj s" using tree_invD(1) [OF assms(1)] by (simp add: tree_shaped_def)
  then have "m < next_obj s" using W follow_less [OF tree_invD(1) [OF assms(1)]] by blast
  then show ?thesis using slots_exchange [OF assms(1), of m j] exchange(1) assms(3) by auto
qed (use assms(3) in simp_all)

lemma list_stays:
  assumes "tree_inv zs s" "tree_step zs t s s'" "list_of_key zs s k = Some n"
  shows "list_of_key zs s' k = Some n"
  using follow_mono [OF tree_step_slots [OF assms(1,2)]] assms(3) by (simp add: list_of_key_def)

lemma tree_step_list:
  assumes "tree_inv zs s" "tree_step zs t s s'" "n < next_obj s"
  shows "(any_step entry_list_nbuckets)\<^sup>*\<^sup>* (lists s n) (lists s' n)"
proof -
  have one: "(any_step entry_list_nbuckets)\<^sup>*\<^sup>* l l'" if "append_step entry_list_nbuckets t l l'" for l l'
    using that unfolding any_step_def by blast
  show ?thesis
    using assms(2)
  proof (cases rule: tree_step.cases)
    case (claim m k vs)
    note W = at_listD [OF assms(1) claim(2)]
    have rest: "appenders (lists s m) t = Resting" using tree_invD(3) [OF assms(1), of m t] claim(2) by auto
    show ?thesis using one [OF claim_step [OF W(1) rest claim(3)]] claim(1) by simp
  next
    case (append m l)
    then show ?thesis using one [OF append(4)] by simp
  qed (use assms(3) in simp_all)
qed

text \<open>A list of the index, at any time.\<close>

lemma list_of_index:
  assumes "1 \<le> bytes" "bytes \<le> 8" "tree_inv (index_sizes bytes) s" "k < 256 ^ bytes"
    and "obj_at k (index_view bytes s) = Some (Some l)"
  obtains n where "list_of_key (index_sizes bytes) s k = Some n" "l = rlog (lists s n)" "handed (lists s n) = values_of k (added s)"
    "append_inv entry_list_nbuckets (lists s n)" "relaxed_size l = length (values_of k (added s))"
proof -
  obtain n where n: "list_of_key (index_sizes bytes) s k = Some n" "l = rlog (lists s n)"
    using assms(5) unfolding obj_at_view [OF assms(1,2,4)] by (auto simp: list_view_def)
  have k: "k < prod_list (index_sizes bytes)" using assms(4) index_sizes_ok(2) [OF assms(1,2)] by simp
  have h: "handed (lists s n) = values_of k (added s)" using tree_invD(5) [OF assms(3) k] n(1) by simp
  note inv = tree_invD(4) [OF assms(3), of n]
  have "relaxed_size l = length (values_of k (added s))" using append_invD(1) [OF inv] n(2) h by (simp add: relaxed_size_def)
  then show ?thesis by (rule that [OF n h inv])
qed

lemma tree_step_readable:
  assumes b: "1 \<le> bytes" "bytes \<le> 8" and inv: "tree_inv (index_sizes bytes) s" and step: "some_step (index_sizes bytes) s s'"
    and k: "k < 256 ^ bytes" and l: "obj_at k (index_view bytes s) = Some (Some l)" "i < relaxed_size l"
      "relaxed_at entry_list_nbuckets i l = Some v"
  shows "\<exists>l'. obj_at k (index_view bytes s') = Some (Some l') \<and> i < relaxed_size l' \<and> relaxed_at entry_list_nbuckets i l' = Some v"
proof -
  obtain t where t: "tree_step (index_sizes bytes) t s s'" using step by (auto simp: some_step_def)
  obtain n where n: "list_of_key (index_sizes bytes) s k = Some n" "l = rlog (lists s n)" "handed (lists s n) = values_of k (added s)"
    "append_inv entry_list_nbuckets (lists s n)" "relaxed_size l = length (values_of k (added s))"
    by (rule list_of_index [OF b inv k l(1)])
  have i: "i < length (handed (lists s n))" using l(2) n(3,5) by simp
  then have st: "i \<notin> undone (lists s n)" using append_readable [OF n(4) i] l(3) n(2) by (auto split: if_splits)
  note run = tree_step_list [OF inv t list_of_key_less [OF inv n(1)]]
  note stay = append_stays [OF run n(4) i st] and more = append_run_stable [OF run n(4) i st]
  have "relaxed_size (rlog (lists s' n)) = length (handed (lists s' n))"
    using append_invD(1) [OF ap.run_invar [OF run n(4)]] by (simp add: relaxed_size_def)
  then show ?thesis
    using obj_at_view [OF b k, of s'] list_stays [OF inv t n(1)] stay more l(3) n(2) by (simp add: list_view_def)
qed

lemma tree_run_readable:
  assumes run: "(some_step (index_sizes bytes))\<^sup>*\<^sup>* s s'" and b: "1 \<le> bytes" "bytes \<le> 8" "tree_inv (index_sizes bytes) s"
    and k: "k < 256 ^ bytes" and l: "obj_at k (index_view bytes s) = Some (Some l)" "i < relaxed_size l"
      "relaxed_at entry_list_nbuckets i l = Some v"
  shows "\<exists>l'. obj_at k (index_view bytes s') = Some (Some l') \<and> i < relaxed_size l' \<and> relaxed_at entry_list_nbuckets i l' = Some v"
  using run
proof (induction rule: rtranclp_induct)
  case base
  then show ?case using l by blast
next
  case (step s1 s2)
  have "tree_inv (index_sizes bytes) s1" using tree.run_invar [OF step(1)] b(3) index_sizes_ok(1) [OF b(1,2)] by blast
  then show ?case using tree_step_readable [OF b(1,2) _ step(2) k] step.IH by blast
qed

lemma index_quiescent:
  assumes b: "1 \<le> bytes" "bytes \<le> 8" and inv: "tree_inv (index_sizes bytes) s" and idle: "\<And>t. walkers s t = Idle"
  shows "obj_ok (index_view bytes s)" "k < 256 ^ bytes \<Longrightarrow> obj_list k (index_view bytes s) = values_of k (added s)"
proof -
  have quiet: "relaxed_invar entry_list_nbuckets (rlog (lists s n)) \<and> relaxed_contents entry_list_nbuckets (rlog (lists s n)) = handed (lists s n)" for n
    by (rule append_quiescent [OF tree_invD(4) [OF inv]]) (use tree_invD(3) [OF inv, of n] idle in auto)
  have bytes: "obj_bytes (index_view bytes s) = bytes" using bytes_cases [OF b] by (auto simp: index_view_def Let_def)
  show list: "obj_list k (index_view bytes s) = values_of k (added s)" if k: "k < 256 ^ bytes"
  proof -
    have "k < prod_list (index_sizes bytes)" using k index_sizes_ok(2) [OF b] by simp
    then show ?thesis
      using tree_invD(5) [OF inv, of k] quiet
      by (auto simp: obj_list_def index_list_def obj_at_view [OF b k] list_view_def split: option.split)
  qed
  show "obj_ok (index_view bytes s)"
    unfolding obj_ok_def obj_covers_iff bytes
  proof (intro allI impI)
    fix k l assume k: "k < 256 ^ bytes" and l: "obj_at k (index_view bytes s) = Some (Some l)"
    obtain n where n: "list_of_key (index_sizes bytes) s k = Some n" "l = rlog (lists s n)"
      by (rule list_of_index [OF b inv k l])
    have "k < prod_list (index_sizes bytes)" using k index_sizes_ok(2) [OF b] by simp
    then have "handed (lists s n) \<noteq> []" using tree_invD(6) [OF inv _ n(1)] idle by auto
    then show "relaxed_invar entry_list_nbuckets l \<and> relaxed_contents entry_list_nbuckets l \<noteq> []" using quiet [of n] n(2) by simp
  qed
qed

text \<open>
  C13. Concurrent additions to an index. Any number of threads add entries and ranges to one index of any of the eight types, and
  race to make the arrays and lists they miss. In every state they can reach, the list of a key counts exactly the entries
  added under this key by all of them, and an entry that can be read is the right one, and can be read from then on for ever:
  no array or list is replaced, and no entry goes into an object that was deleted. When no thread is inside a call, the index is
  well formed and holds for every key exactly the entries added under it, in the order in which they claimed their positions.
\<close>

theorem concurrent_index_exact:
  assumes "1 \<le> bytes" "bytes \<le> 8" "(some_step (index_sizes bytes))\<^sup>*\<^sup>* tree_init s" "(some_step (index_sizes bytes))\<^sup>*\<^sup>* s s'"
  shows "(\<forall>k < 256 ^ bytes. \<forall>l. obj_at k (index_view bytes s) = Some (Some l) \<longrightarrow> relaxed_size l = length (values_of k (added s))
      \<and> (\<forall>i < relaxed_size l. \<forall>v. relaxed_at entry_list_nbuckets i l = Some v \<longrightarrow> v = values_of k (added s) ! i
           \<and> (\<exists>l'. obj_at k (index_view bytes s') = Some (Some l') \<and> i < relaxed_size l' \<and> relaxed_at entry_list_nbuckets i l' = Some v)))
    \<and> ((\<forall>t. walkers s t = Idle) \<longrightarrow> obj_ok (index_view bytes s)
      \<and> (\<forall>k < 256 ^ bytes. obj_list k (index_view bytes s) = values_of k (added s)))"
proof -
  note b = assms(1,2) and inv = index_reach_inv [OF assms(1-3)]
  have "relaxed_size l = length (values_of k (added s)) \<and> (\<forall>i < relaxed_size l. \<forall>v. relaxed_at entry_list_nbuckets i l = Some v \<longrightarrow>
      v = values_of k (added s) ! i)" if k: "k < 256 ^ bytes" and l: "obj_at k (index_view bytes s) = Some (Some l)" for k l
    by (rule list_of_index [OF b inv k l]) (auto simp: append_readable split: if_splits)
  then show ?thesis using tree_run_readable [OF assms(4) b inv] index_quiescent [OF b inv] by blast
qed

section \<open>Every call ends\<close>

text \<open>The steps a call has still to make at most: three for each level, one for the claim, three for each value.\<close>

fun walk_left :: "walker \<Rightarrow> nat" where
  "walk_left (Walking ph n p k vs) = 3 * length p - (case ph of At_first_load \<Rightarrow> 0 | At_exchange \<Rightarrow> 1 | At_second_load \<Rightarrow> 2)
     + 1 + 3 * length vs"
| "walk_left (At_list n k vs) = 1 + 3 * length vs"
| "walk_left w = 0"

definition work_left :: "nat \<Rightarrow> tree_system \<Rightarrow> nat" where
  "work_left t s = (case walkers s t of Inside n \<Rightarrow> steps_left (appenders (lists s n) t) | w \<Rightarrow> walk_left w)"

lemma tree_step_nearer:
  assumes inv: "tree_inv zs s" and step: "tree_step zs t s s'" and w: "walkers s t \<noteq> Idle"
  shows "work_left t s' < work_left t s"
  using step
proof (cases rule: tree_step.cases)
  case (append n l)
  obtain ph i vs where a: "appenders (lists s n) t = Appending ph i vs"
    using append(3) by (cases "appenders (lists s n) t") auto
  have "steps_left (appenders l t) < steps_left (appenders (lists s n) t)"
    by (rule append_step_nearer [OF tree_invD(4) [OF inv] a append(4)])
  then show ?thesis using append(1,2) by (auto simp: work_left_def)
qed (use w in \<open>auto simp: work_left_def claim_values_def\<close>)

lemma tree_step_enabled:
  assumes inv: "tree_inv zs s" and w: "walkers s t \<noteq> Idle"
    and room: "\<forall>n k vs. walkers s t = At_list n k vs \<longrightarrow> valid_index entry_list_nbuckets (tail (rlog (lists s n)) + length vs - 1)"
  shows "\<exists>s'. tree_step zs t s s'"
proof (cases "walkers s t")
  case (Walking ph n p k vs)
  note W = walkingD [OF inv Walking]
  obtain i q where p: "p = i # q" using W(2) by (cases p) auto
  show ?thesis
  proof (cases ph)
    case At_first_load
    then show ?thesis using Walking p tree_step.slot_null tree_step.slot_there by (cases "slots s n i") blast+
  next
    case At_exchange
    then show ?thesis using Walking p tree_step.exchange by blast
  next
    case At_second_load
    then have "slots s n i \<noteq> None" using W(5) p by simp
    then show ?thesis using Walking p At_second_load tree_step.follow_slot by blast
  qed
next
  case (At_list n k vs)
  then show ?thesis using room tree_step.claim by blast
next
  case (Inside n)
  then have busy: "appenders (lists s n) t \<noteq> Resting" using tree_invD(3) [OF inv] by simp
  then obtain ph i vs where "appenders (lists s n) t = Appending ph i vs" by (cases "appenders (lists s n) t") auto
  then obtain l where "append_step entry_list_nbuckets t (lists s n) l" using append_step_enabled [OF tree_invD(4) [OF inv]] by blast
  then show ?thesis using tree_step.append [OF Inside busy] by blast
qed (use w in simp)

lemma tree_step_other:
  assumes inv: "tree_inv zs s" and step: "tree_step zs u s s'" and u: "u \<noteq> t"
  shows "walkers s' t = walkers s t \<and> work_left t s' = work_left t s"
proof -
  have "next_obj s \<noteq> n" if "walkers s t = Inside n" for n using tree_invD(2) [OF inv, of t] that by (auto simp: walker_ok_def)
  then have new: "steps_left (appenders (((lists s)(next_obj s := append_init)) n) t) = steps_left (appenders (lists s n) t)"
    if "walkers s t = Inside n" for n using that by simp
  show ?thesis
    using step
  proof (cases rule: tree_step.cases)
    case (append n l)
    then show ?thesis using u append_step_other [OF append(4), of t] by (auto simp: work_left_def split: walker.split)
  qed (use u new in \<open>auto simp: work_left_def claim_values_def split: walker.split\<close>)
qed

text \<open>
  C15. Adding to an index is wait-free. A thread that is inside \<^verbatim>\<open>add_entry\<close> can always make its next step, whatever the others do: the
  pointer it loads the second time is never null, and only a full list stops it. Each of its steps brings it nearer to the end of the call, three for each level and
  each value and one more at most; no step of another thread moves it.
\<close>

theorem add_entry_wait_free:
  assumes "1 \<le> bytes" "bytes \<le> 8" "(some_step (index_sizes bytes))\<^sup>*\<^sup>* tree_init s" "walkers s t \<noteq> Idle"
    and "\<forall>n k vs. walkers s t = At_list n k vs \<longrightarrow> valid_index entry_list_nbuckets (tail (rlog (lists s n)) + length vs - 1)"
  shows "(\<exists>s'. tree_step (index_sizes bytes) t s s')
    \<and> (\<forall>s'. tree_step (index_sizes bytes) t s s' \<longrightarrow> work_left t s' < work_left t s)
    \<and> (\<forall>ph n p k vs. walkers s t = Walking ph n p k vs \<longrightarrow> work_left t s \<le> 3 * (length (index_sizes bytes) + length vs) + 1)
    \<and> (\<forall>u s'. u \<noteq> t \<longrightarrow> tree_step (index_sizes bytes) u s s' \<longrightarrow> walkers s' t = walkers s t \<and> work_left t s' = work_left t s)"
proof -
  note inv = index_reach_inv [OF assms(1-3)]
  have "work_left t s \<le> 3 * (length (index_sizes bytes) + length vs) + 1" if w: "walkers s t = Walking ph n p k vs" for ph n p k vs
  proof -
    obtain pre where "key_path (index_sizes bytes) k = pre @ p" using walkingD(4) [OF inv w] by blast
    then have "length p \<le> length (index_sizes bytes)" by (metis length_key_path length_append le_add2)
    then show ?thesis using w by (simp add: work_left_def)
  qed
  then show ?thesis
    using tree_step_enabled [OF inv assms(4,5)] tree_step_nearer [OF inv _ assms(4)] tree_step_other [OF inv] by blast
qed

section \<open>Two threads that both miss a list\<close>

text \<open>A thread that has claimed its positions finishes, if the others wait.\<close>

lemma finish_append:
  assumes "sizes_ok zs" "tree_inv zs s" "walkers s t = Inside n"
  shows "\<exists>s'. (some_step zs)\<^sup>*\<^sup>* s s' \<and> walkers s' = (walkers s)(t := Idle) \<and> added s' = added s"
  using assms(2,3)
proof (induction "work_left t s" arbitrary: s rule: less_induct)
  case less
  have busy: "walkers s t \<noteq> Idle" using less.prems(2) by simp
  obtain s1 where s1: "tree_step zs t s s1" using tree_step_enabled [OF less.prems(1) busy] less.prems(2) by auto
  have same: "added s1 = added s" "walkers s1 = (walkers s)(t := walkers s1 t)" "walkers s1 t = Idle \<or> walkers s1 t = Inside n"
    using s1 less.prems(2) by (auto elim!: tree_step.cases split: if_splits)
  have step: "some_step zs s s1" using s1 by (auto simp: some_step_def)
  show ?case
  proof (cases "walkers s1 t = Idle")
    case True
    then show ?thesis using step same by (intro exI [of _ s1]) auto
  next
    case False
    obtain s' where s': "(some_step zs)\<^sup>*\<^sup>* s1 s'" "walkers s' = (walkers s1)(t := Idle)" "added s' = added s1"
      using less.hyps [OF tree_step_nearer [OF less.prems(1) s1 busy] tree_inv_step [OF assms(1) s1 less.prems(1)]] same(3) False by blast
    have "walkers s' = (walkers s)(t := Idle)" using s'(2) same(2) by (metis fun_upd_upd)
    then show ?thesis using converse_rtranclp_into_rtranclp [of "some_step zs", OF step s'(1)] s'(3) same(1) by (intro exI [of _ s']) simp
  qed
qed

text \<open>Both find the pointer of key 80 null; thread 1 is faster, the list of thread 2 is deleted, and both append to the list of thread 1.\<close>

lemma race_for_list:
  "\<exists>s6. (some_step [256])\<^sup>*\<^sup>* tree_init s6
     \<and> walkers s6 = (\<lambda>_. Idle)(1 := Walking At_second_load 0 [80] 80 [5], 2 := Walking At_second_load 0 [80] 80 [0])
     \<and> slots s6 0 80 = Some 1 \<and> added s6 = [] \<and> lists s6 1 = append_init"
proof -
  define s1 where "s1 = go_to 1 (Walking At_first_load 0 [80] 80 [5]) tree_init"
  define s2 where "s2 = go_to 2 (Walking At_first_load 0 [80] 80 [0]) s1"
  define s3 where "s3 = go_to 1 (Walking At_exchange 0 [80] 80 [5]) s2"
  define s4 where "s4 = go_to 2 (Walking At_exchange 0 [80] 80 [0]) s3"
  define s5 where "s5 = go_to 1 (Walking At_second_load 0 [80] 80 [5]) (exchange_slot 0 80 s4)"
  define s6 where "s6 = go_to 2 (Walking At_second_load 0 [80] 80 [0]) (exchange_slot 0 80 s5)"
  have path: "key_path [256] 80 = [80]" by (simp add: take_bit_eq_mod)
  have 0: "slots tree_init = (\<lambda>_ _. None)" "walkers tree_init = (\<lambda>_. Idle)" "next_obj tree_init = 1" "added tree_init = []"
    "lists tree_init = (\<lambda>_. append_init)" by (simp_all add: tree_init_def)
  have w4: "walkers s4 = (\<lambda>_. Idle)(1 := Walking At_exchange 0 [80] 80 [5], 2 := Walking At_exchange 0 [80] 80 [0])"
    "slots s4 = (\<lambda>_ _. None)" "next_obj s4 = 1" "added s4 = []" "lists s4 = (\<lambda>_. append_init)"
    by (simp_all add: s4_def s3_def s2_def s1_def 0 fun_upd_twist)
  have "some_step [256] tree_init s1" "some_step [256] s1 s2"
    using tree_step.begin_entry [of tree_init 1 80 "[256]" 5] tree_step.begin_entry [of s1 2 80 "[256]" 0]
    unfolding some_step_def path by (auto simp: s1_def s2_def 0)
  moreover have "some_step [256] s2 s3" "some_step [256] s3 s4"
    using tree_step.slot_null [of s2 1 0 80 "[]" 80 "[5]" "[256]"] tree_step.slot_null [of s3 2 0 80 "[]" 80 "[0]" "[256]"]
    unfolding some_step_def by (auto simp: s1_def s2_def s3_def s4_def 0)
  moreover have "some_step [256] s4 s5" "some_step [256] s5 s6"
    using tree_step.exchange [of s4 1 0 80 "[]" 80 "[5]" "[256]"] tree_step.exchange [of s5 2 0 80 "[]" 80 "[0]" "[256]"]
    unfolding some_step_def by (auto simp: s5_def s6_def w4)
  ultimately have run: "(some_step [256])\<^sup>*\<^sup>* tree_init s6" by (meson converse_rtranclp_into_rtranclp rtranclp.rtrancl_refl)
  have "walkers s6 = (\<lambda>_. Idle)(1 := Walking At_second_load 0 [80] 80 [5], 2 := Walking At_second_load 0 [80] 80 [0])"
    "slots s6 0 80 = Some 1" "added s6 = []" "lists s6 1 = append_init"
    by (simp_all add: s6_def s5_def w4 exchange_slot_def new_object_def fun_upd_twist)
  then show ?thesis using run by blast
qed

lemma race_run:
  "\<exists>s6 s. (some_step [256])\<^sup>*\<^sup>* tree_init s6 \<and> walkers s6 2 = Walking At_second_load 0 [80] 80 [0]
     \<and> (some_step [256])\<^sup>*\<^sup>* s6 s \<and> (\<forall>t. walkers s t = Idle) \<and> added s = [(80, 5), (80, 0)]"
proof -
  have v: "valid_index entry_list_nbuckets 0" "valid_index entry_list_nbuckets 1"
    by (simp_all add: valid_index_def FBS_def FBS_HIBIT_def entry_list_nbuckets_def)
  obtain s6 where run: "(some_step [256])\<^sup>*\<^sup>* tree_init s6" and w6:
    "walkers s6 = (\<lambda>_. Idle)(1 := Walking At_second_load 0 [80] 80 [5], 2 := Walking At_second_load 0 [80] 80 [0])"
    "slots s6 0 80 = Some 1" "added s6 = []" "lists s6 1 = append_init"
    using race_for_list by blast
  define s7 where "s7 = go_to 1 (At_list 1 80 [5]) s6"
  define s8 where "s8 = go_to 2 (At_list 1 80 [0]) s7"
  define s9 where "s9 = go_to 1 (Inside 1) (note_added 80 [5] (with_list 1 (claim_values 1 [5] (lists s8 1)) s8))"
  define s10 where "s10 = go_to 2 (Inside 1) (note_added 80 [0] (with_list 1 (claim_values 2 [0] (lists s9 1)) s9))"
  have "some_step [256] s6 s7" "some_step [256] s7 s8"
    using tree_step.follow_slot [of s6 1 0 80 "[]" 80 "[5]" 1 "[256]"] tree_step.follow_slot [of s7 2 0 80 "[]" 80 "[0]" 1 "[256]"]
    unfolding some_step_def by (auto simp: s7_def s8_def w6)
  moreover have "some_step [256] s8 s9"
    using tree_step.claim [of s8 1 1 80 "[5]" "[256]"] v(1)
    unfolding some_step_def by (auto simp: s9_def s8_def s7_def w6 w6(4) [unfolded One_nat_def] append_init_def relaxed_init_def)
  moreover have "some_step [256] s9 s10"
    using tree_step.claim [of s9 2 1 80 "[0]" "[256]"] v(2)
    unfolding some_step_def by (auto simp: s10_def s9_def s8_def s7_def w6 w6(4) [unfolded One_nat_def] append_init_def relaxed_init_def claim_values_def take_bit_eq_mod)
  ultimately have run': "(some_step [256])\<^sup>*\<^sup>* s6 s10" by (meson converse_rtranclp_into_rtranclp rtranclp.rtrancl_refl)
  have w10: "walkers s10 = (\<lambda>_. Idle)(1 := Inside 1, 2 := Inside 1)" "added s10 = [(80, 5), (80, 0)]"
    by (simp_all add: s10_def s9_def s8_def s7_def w6 fun_upd_twist)
  have ok: "sizes_ok [256]" by (simp add: sizes_ok_def)
  have inv: "tree_inv [256] s" if "(some_step [256])\<^sup>*\<^sup>* s6 s" for s
    using tree.reach_invar [of "[256]" tree_init s, OF _ rtranclp_trans [OF run that]] ok by simp
  obtain s11 where s11: "(some_step [256])\<^sup>*\<^sup>* s10 s11" "walkers s11 = (walkers s10)(1 := Idle)" "added s11 = added s10"
    using finish_append [OF ok inv [OF run'], of 1 1] w10(1) by auto
  have to11: "(some_step [256])\<^sup>*\<^sup>* s6 s11" using run' s11(1) by simp
  obtain s12 where s12: "(some_step [256])\<^sup>*\<^sup>* s11 s12" "walkers s12 = (walkers s11)(2 := Idle)" "added s12 = added s11"
    using finish_append [OF ok inv [OF to11], of 2 1] s11(2) w10(1) by auto
  have "\<forall>t. walkers s12 t = Idle" using s12(2) s11(2) w10(1) by simp
  moreover have "(some_step [256])\<^sup>*\<^sup>* s6 s12" using to11 s12(1) by simp
  moreover have "walkers s6 2 = Walking At_second_load 0 [80] 80 [0]" using w6(1) by simp
  ultimately show ?thesis using run s12(3) s11(3) w10(2) by (intro exI [of _ s6] exI [of _ s12]) simp
qed

theorem concurrent_index_exact_witness:
  "\<exists>s. (some_step (index_sizes 1))\<^sup>*\<^sup>* tree_init s \<and> obj_ok (index_view 1 s) \<and> obj_list 80 (index_view 1 s) = [5, 0]
     \<and> obj_list 81 (index_view 1 s) = []"
proof -
  obtain s6 s where s: "(some_step [256])\<^sup>*\<^sup>* tree_init s6" "(some_step [256])\<^sup>*\<^sup>* s6 s" "\<forall>t. walkers s t = Idle" "added s = [(80, 5), (80, 0)]"
    using race_run by blast
  have run: "(some_step (index_sizes 1))\<^sup>*\<^sup>* tree_init s" using s(1,2) unfolding index_sizes_simps by (rule rtranclp_trans)
  have "obj_ok (index_view 1 s) \<and> (\<forall>k < 256 ^ 1. obj_list k (index_view 1 s) = values_of k (added s))"
    using concurrent_index_exact [OF _ _ run rtranclp.rtrancl_refl] s(3) by simp
  then show ?thesis using run s(4) by (intro exI [of _ s]) (simp add: values_of_def)
qed

theorem add_entry_wait_free_witness:
  "\<exists>s s'. (some_step (index_sizes 1))\<^sup>*\<^sup>* tree_init s \<and> walkers s 2 = Walking At_second_load 0 [80] 80 [0]
     \<and> tree_step (index_sizes 1) 2 s s' \<and> work_left 2 s' < work_left 2 s"
proof -
  obtain s where s: "(some_step (index_sizes 1))\<^sup>*\<^sup>* tree_init s" "walkers s 2 = Walking At_second_load 0 [80] 80 [0]"
    using race_run unfolding index_sizes_simps by blast
  note w = add_entry_wait_free [of 1, OF _ _ s(1), of 2]
  have "\<exists>s'. tree_step (index_sizes 1) 2 s s'" "\<forall>s'. tree_step (index_sizes 1) 2 s s' \<longrightarrow> work_left 2 s' < work_left 2 s"
    using w s(2) by simp_all
  then show ?thesis using s by blast
qed

end
