(* ===== verification/Monolog_Linear.thy ===== *)
theory Monolog_Linear
  imports Log_Interfaces
begin

section \<open>The linear log (monolog.h, class __monolog_linear_base; datalog.h)\<close>

text \<open>
  A log in \<open>NBUCKETS\<close> blocks of \<open>BLOCK_SIZE\<close> values each; every block is allocated with
  \<open>BUFFER_SIZE\<close> extra values behind it, into which a record that starts near the end of the
  block runs over. The template parameters are the arguments \<open>nb\<close> and \<open>bs\<close>. The data log
  is the instance for bytes with 1024 blocks of \<open>2 ^ 30\<close> bytes.
\<close>

definition BUFFER_SIZE :: nat where "BUFFER_SIZE = 1024"

record 'a monolog_linear =
  blocks :: "'a bucket_array"

definition linear_init :: "'a monolog_linear" where
  "linear_init = \<lparr>blocks = [0 \<mapsto> Map.empty]\<rparr>"

definition lin_load :: "nat \<Rightarrow> nat \<Rightarrow> 'a monolog_linear \<Rightarrow> 'a cells option option" where
  "lin_load nb b m = (if b < nb then Some (blocks m b) else None)"

definition lin_try_allocate_bucket :: "nat \<Rightarrow> nat \<Rightarrow> 'a monolog_linear \<Rightarrow> 'a monolog_linear option" where
  "lin_try_allocate_bucket nb b m =
     (if b < nb then Some (case blocks m b of
          None \<Rightarrow> m\<lparr>blocks := (blocks m)(b \<mapsto> Map.empty)\<rparr> | Some _ \<Rightarrow> m)
      else None)"

definition lin_ensure_bucket :: "nat \<Rightarrow> nat \<Rightarrow> 'a monolog_linear \<Rightarrow> 'a monolog_linear option" where
  "lin_ensure_bucket nb b m = do {
     ref \<leftarrow> lin_load nb b m;
     (case ref of None \<Rightarrow> lin_try_allocate_bucket nb b m | Some _ \<Rightarrow> Some m) }"

function lin_alloc_range :: "nat \<Rightarrow> nat \<Rightarrow> nat \<Rightarrow> 'a monolog_linear \<Rightarrow> 'a monolog_linear option" where
  "lin_alloc_range nb i j m =
     (if i \<le> j then lin_ensure_bucket nb i m \<bind> lin_alloc_range nb (Suc i) j else Some m)"
  by pat_completeness auto
termination
  by (relation "measure (\<lambda>(nb, i, j, m). Suc j - i)") auto

declare lin_alloc_range.simps [simp del]

definition lin_ensure_alloc ::
  "nat \<Rightarrow> nat \<Rightarrow> nat \<Rightarrow> nat \<Rightarrow> 'a monolog_linear \<Rightarrow> 'a monolog_linear option" where
  "lin_ensure_alloc nb bs idx1 idx2 m = lin_alloc_range nb (idx1 div bs) (idx2 div bs) m"

text \<open>A run of values copied into a block: outside the block and its buffer is undefined.\<close>

definition overlay :: "nat \<Rightarrow> 'a list \<Rightarrow> 'a cells \<Rightarrow> 'a cells" where
  "overlay off data c = (\<lambda>i. if off \<le> i \<and> i < off + length data
     then Some (data ! (i - off)) else c i)"

definition lin_copy_in ::
  "nat \<Rightarrow> nat \<Rightarrow> nat \<Rightarrow> nat \<Rightarrow> 'a list \<Rightarrow> 'a monolog_linear \<Rightarrow> 'a monolog_linear option" where
  "lin_copy_in nb bs b off data m = do {
     ref \<leftarrow> lin_load nb b m;
     c \<leftarrow> ref;
     (if off + length data \<le> bs + BUFFER_SIZE
      then Some (m\<lparr>blocks := (blocks m)(b \<mapsto> overlay off data c)\<rparr>)
      else None) }"

definition lin_set :: "nat \<Rightarrow> nat \<Rightarrow> nat \<Rightarrow> 'a \<Rightarrow> 'a monolog_linear \<Rightarrow> 'a monolog_linear option" where
  "lin_set nb bs idx val m = do {
     m' \<leftarrow> lin_ensure_bucket nb (idx div bs) m;
     lin_copy_in nb bs (idx div bs) (idx mod bs) [val] m' }"

definition lin_set_unsafe ::
  "nat \<Rightarrow> nat \<Rightarrow> nat \<Rightarrow> 'a \<Rightarrow> 'a monolog_linear \<Rightarrow> 'a monolog_linear option" where
  "lin_set_unsafe nb bs idx val m = lin_copy_in nb bs (idx div bs) (idx mod bs) [val] m"

definition lin_write ::
  "nat \<Rightarrow> nat \<Rightarrow> nat \<Rightarrow> 'a list \<Rightarrow> 'a monolog_linear \<Rightarrow> 'a monolog_linear option" where
  "lin_write nb bs offset data m = do {
     m' \<leftarrow> lin_ensure_bucket nb (offset div bs) m;
     lin_copy_in nb bs (offset div bs) (offset mod bs) data m' }"

definition lin_write_unsafe ::
  "nat \<Rightarrow> nat \<Rightarrow> nat \<Rightarrow> 'a list \<Rightarrow> 'a monolog_linear \<Rightarrow> 'a monolog_linear option" where
  "lin_write_unsafe nb bs offset data m = lin_copy_in nb bs (offset div bs) (offset mod bs) data m"

text \<open>
  \<open>memcpy\<close> out of a block. The values copied may be indeterminate, so the result is a list of
  cells.
\<close>

definition lin_copy_out ::
  "nat \<Rightarrow> nat \<Rightarrow> nat \<Rightarrow> nat \<Rightarrow> nat \<Rightarrow> 'a monolog_linear \<Rightarrow> 'a option list option" where
  "lin_copy_out nb bs b off len m = do {
     ref \<leftarrow> lin_load nb b m;
     c \<leftarrow> ref;
     (if off + len \<le> bs + BUFFER_SIZE then Some (map c [off..<off + len]) else None) }"

definition lin_get :: "nat \<Rightarrow> nat \<Rightarrow> nat \<Rightarrow> 'a monolog_linear \<Rightarrow> 'a option" where
  "lin_get nb bs idx m = do {
     ref \<leftarrow> lin_load nb (idx div bs) m;
     c \<leftarrow> ref;
     c (idx mod bs) }"

definition lin_read ::
  "nat \<Rightarrow> nat \<Rightarrow> nat \<Rightarrow> nat \<Rightarrow> 'a monolog_linear \<Rightarrow> 'a option list option" where
  "lin_read nb bs offset len m = lin_copy_out nb bs (offset div bs) (offset mod bs) len m"

text \<open>\<open>operator[]\<close> allocates and returns a reference; \<open>ptr\<close> returns a pointer and does not.\<close>

definition lin_ref ::
  "nat \<Rightarrow> nat \<Rightarrow> nat \<Rightarrow> 'a monolog_linear \<Rightarrow> ('a monolog_linear \<times> nat \<times> nat) option" where
  "lin_ref nb bs idx m = do {
     m' \<leftarrow> lin_ensure_bucket nb (idx div bs) m;
     Some (m', idx div bs, idx mod bs) }"

definition lin_ptr :: "nat \<Rightarrow> nat \<Rightarrow> nat \<Rightarrow> 'a monolog_linear \<Rightarrow> (nat \<times> nat) option" where
  "lin_ptr nb bs offset m = do {
     ref \<leftarrow> lin_load nb (offset div bs) m;
     c \<leftarrow> ref;
     Some (offset div bs, offset mod bs) }"

definition lin_storage_size :: "nat \<Rightarrow> nat \<Rightarrow> nat \<Rightarrow> 'a monolog_linear \<Rightarrow> nat" where
  "lin_storage_size nb bs sz m =
     nb * 8 + (\<Sum>i\<leftarrow>[0..<nb]. if blocks m i \<noteq> None then bs * sz else 0)"

text \<open>\<open>typedef __monolog_linear_base<uint8_t> datalog;\<close>\<close>

type_synonym datalog = "u8 monolog_linear"

definition datalog_nb :: nat where "datalog_nb = 1024"
definition datalog_bs :: nat where "datalog_bs = 1073741824"

section \<open>Single values\<close>

definition lin_valid :: "nat \<Rightarrow> nat \<Rightarrow> nat \<Rightarrow> bool" where
  "lin_valid nb bs idx \<longleftrightarrow> 0 < bs \<and> idx div bs < nb"

lemma lin_ensure_bucket_eq:
  "b < nb \<Longrightarrow> lin_ensure_bucket nb b m =
     Some (if blocks m b = None then m\<lparr>blocks := (blocks m)(b \<mapsto> Map.empty)\<rparr> else m)"
  by (auto simp: lin_ensure_bucket_def lin_load_def lin_try_allocate_bucket_def split: option.split)

lemma lin_mod_fits: "0 < bs \<Longrightarrow> idx mod bs + 1 \<le> bs + BUFFER_SIZE"
  using mod_less_divisor [of bs idx] by linarith

lemma div_mod_inj: "(i::nat) div n = j div n \<Longrightarrow> i mod n = j mod n \<Longrightarrow> i = j"
  by (metis div_mult_mod_eq)

text \<open>What a block holds, a block that is not allocated holding nothing determinate.\<close>

definition block_cells :: "nat \<Rightarrow> 'a monolog_linear \<Rightarrow> 'a cells" where
  "block_cells b m = (case blocks m b of None \<Rightarrow> Map.empty | Some c \<Rightarrow> c)"

lemma lin_write_eq:
  assumes "offset div bs < nb" "offset mod bs + length data \<le> bs + BUFFER_SIZE"
  shows "lin_write nb bs offset data m = Some (m\<lparr>blocks := (blocks m)(offset div bs \<mapsto>
     overlay (offset mod bs) data (block_cells (offset div bs) m))\<rparr>)"
  using assms
  by (cases "blocks m (offset div bs)")
    (simp_all add: lin_write_def lin_ensure_bucket_eq lin_copy_in_def lin_load_def block_cells_def)

lemma lin_set_eq:
  assumes "lin_valid nb bs i"
  shows "lin_set nb bs i v m = Some (m\<lparr>blocks := (blocks m)(i div bs \<mapsto>
     overlay (i mod bs) [v] (block_cells (i div bs) m))\<rparr>)"
  using lin_write_eq [of i bs nb "[v]" m] assms lin_mod_fits [of bs i]
  by (simp add: lin_valid_def lin_set_def lin_write_def)

lemma lin_get_eq: "lin_valid nb bs j \<Longrightarrow> lin_get nb bs j m = block_cells (j div bs) m (j mod bs)"
  by (simp add: lin_valid_def lin_get_def lin_load_def block_cells_def split: option.split)

lemma overlay_one: "overlay k [v] c = c(k \<mapsto> v)"
  by (rule ext) (auto simp: overlay_def)

lemma lin_set_total: "lin_valid nb bs i \<Longrightarrow> \<exists>m'. lin_set nb bs i v m = Some m'"
  by (simp add: lin_set_eq)

lemma lin_get_set:
  assumes "lin_valid nb bs i" "lin_valid nb bs j" "lin_set nb bs i v m = Some m'"
  shows "lin_get nb bs j m' = (if j = i then Some v else lin_get nb bs j m)"
proof -
  have m': "m' = m\<lparr>blocks := (blocks m)(i div bs \<mapsto> (block_cells (i div bs) m)(i mod bs \<mapsto> v))\<rparr>"
    using assms(3) by (simp add: lin_set_eq [OF assms(1)] overlay_one)
  show ?thesis
  proof (cases "i div bs = j div bs \<and> i mod bs = j mod bs")
    case True
    then have "j = i" using div_mod_inj [of j bs i] by simp
    then show ?thesis using m' by (simp add: lin_get_eq assms(1) block_cells_def)
  next
    case False
    then have "j \<noteq> i" by auto
    then show ?thesis using m' False
      by (cases "i div bs = j div bs") (simp_all add: lin_get_eq [OF assms(2)] block_cells_def)
  qed
qed

interpretation linear_array: array_log "lin_valid nb bs" "lin_set nb bs" "lin_get nb bs" for nb bs
  by unfold_locales (simp_all add: lin_set_total lin_get_set)

section \<open>Runs of values\<close>

text \<open>A record fits where it starts when it ends inside the block or its buffer.\<close>

definition run_fits :: "nat \<Rightarrow> nat \<Rightarrow> nat \<Rightarrow> nat \<Rightarrow> bool" where
  "run_fits nb bs offset len \<longleftrightarrow> offset div bs < nb \<and> offset mod bs + len \<le> bs + BUFFER_SIZE"

lemma overlay_read: "map (overlay off data c) [off..<off + length data] = map Some data"
  by (rule nth_equalityI) (simp_all add: overlay_def)

lemma overlay_apart:
  "off + length data \<le> a \<or> b \<le> off \<Longrightarrow> map (overlay off data c) [a..<b] = map c [a..<b]"
  by (auto simp: overlay_def)

text \<open>
  C33. What \<^verbatim>\<open>write\<close> stores, \<^verbatim>\<open>read\<close> returns: a run of values that ends inside its block or the
  1024 values behind it is written completely, allocating the block if needed, and reading
  the same offset and length gives back exactly those values, also when the run crosses the end of the block.
\<close>

theorem lin_write_read:
  assumes "run_fits nb bs offset (length data)"
  shows "\<exists>m'. lin_write nb bs offset data m = Some m'
    \<and> lin_read nb bs offset (length data) m' = Some (map Some data)"
  using assms
  by (simp add: run_fits_def lin_write_eq lin_read_def lin_copy_out_def lin_load_def overlay_read)

theorem lin_write_read_witness:
  "\<exists>m'. lin_write 4 8 6 [1, 2, 3 :: u8] linear_init = Some m'
     \<and> lin_read 4 8 6 3 m' = Some [Some 1, Some 2, Some 3]"
  using lin_write_read [of 4 8 6 "[1, 2, 3 :: u8]" linear_init]
  by (simp add: run_fits_def BUFFER_SIZE_def numeral_3_eq_3)

text \<open>Two runs do not touch when they lie in different blocks or side by side in one block.\<close>

definition runs_apart :: "nat \<Rightarrow> nat \<Rightarrow> nat \<Rightarrow> nat \<Rightarrow> nat \<Rightarrow> bool" where
  "runs_apart bs o1 n1 o2 n2 \<longleftrightarrow> o1 div bs \<noteq> o2 div bs
     \<or> o1 mod bs + n1 \<le> o2 mod bs \<or> o2 mod bs + n2 \<le> o1 mod bs"

lemma disjoint_runs_apart: "o1 + n1 \<le> o2 \<or> o2 + n2 \<le> o1 \<Longrightarrow> runs_apart bs o1 n1 o2 n2"
proof (cases "o1 div bs = o2 div bs")
  case True
  assume d: "o1 + n1 \<le> o2 \<or> o2 + n2 \<le> o1"
  have "o1 = o1 div bs * bs + o1 mod bs" "o2 = o1 div bs * bs + o2 mod bs"
    using True by (metis div_mult_mod_eq)+
  then show ?thesis using d unfolding runs_apart_def by linarith
qed (simp add: runs_apart_def)

lemma lin_read_write_apart:
  assumes "lin_write nb bs o1 data m = Some m'" "run_fits nb bs o1 (length data)"
    and "runs_apart bs o1 (length data) o2 n" "blocks m (o2 div bs) \<noteq> None"
  shows "lin_read nb bs o2 n m' = lin_read nb bs o2 n m"
proof -
  have m': "m' = m\<lparr>blocks := (blocks m)(o1 div bs \<mapsto>
      overlay (o1 mod bs) data (block_cells (o1 div bs) m))\<rparr>"
    using assms(1,2) by (simp add: run_fits_def lin_write_eq)
  show ?thesis
  proof (cases "o1 div bs = o2 div bs")
    case True
    have "map (overlay (o1 mod bs) data c) [o2 mod bs..<o2 mod bs + n] = map c [o2 mod bs..<o2 mod bs + n]" for c
      using assms(3) True by (intro overlay_apart) (auto simp: runs_apart_def)
    then show ?thesis
      using m' True assms(4) by (auto simp: lin_read_def lin_copy_out_def lin_load_def block_cells_def)
  qed (use m' in \<open>simp add: lin_read_def lin_copy_out_def lin_load_def\<close>)
qed

text \<open>
  A write leaves the other records alone: after writing a run that fits, every run of an
  allocated block that does not overlap it in offsets reads as before.
\<close>

theorem lin_write_frame:
  assumes "lin_write nb bs o1 data m = Some m'" "run_fits nb bs o1 (length data)"
    and "o1 + length data \<le> o2 \<or> o2 + n \<le> o1" "blocks m (o2 div bs) \<noteq> None"
  shows "lin_read nb bs o2 n m' = lin_read nb bs o2 n m"
  using assms by (intro lin_read_write_apart disjoint_runs_apart)

theorem lin_write_frame_witness:
  "\<exists>m1 m2. lin_write 4 8 0 [1, 2 :: u8] linear_init = Some m1
     \<and> lin_write 4 8 2 [3 :: u8] m1 = Some m2
     \<and> lin_read 4 8 0 2 m2 = lin_read 4 8 0 2 m1"
proof -
  obtain m1 where m1: "lin_write 4 8 0 [1, 2 :: u8] linear_init = Some m1"
    and r: "lin_read 4 8 0 2 m1 = Some [Some 1, Some 2]"
    using lin_write_read [of 4 8 0 "[1, 2 :: u8]" linear_init]
    by (auto simp: run_fits_def BUFFER_SIZE_def numeral_2_eq_2)
  obtain m2 where m2: "lin_write 4 8 2 [3 :: u8] m1 = Some m2"
    using lin_write_read [of 4 8 2 "[3 :: u8]" m1] by (auto simp: run_fits_def BUFFER_SIZE_def)
  have "blocks m1 (0 div 8) \<noteq> None"
    using r by (auto simp: lin_read_def lin_copy_out_def lin_load_def bind_Some_iff)
  then have "lin_read 4 8 0 2 m2 = lin_read 4 8 0 2 m1"
    using m2 by (intro lin_write_frame [OF m2]) (auto simp: run_fits_def BUFFER_SIZE_def numeral_2_eq_2)
  then show ?thesis using m1 m2 by blast
qed

section \<open>Allocation ahead of unsafe writes\<close>

lemma lin_alloc_range_spec:
  assumes "j < nb"
  shows "\<exists>m'. lin_alloc_range nb i j m = Some m'
    \<and> (\<forall>b. i \<le> b \<and> b \<le> j \<longrightarrow> blocks m' b \<noteq> None)
    \<and> (\<forall>b. blocks m b \<noteq> None \<longrightarrow> blocks m' b \<noteq> None)
    \<and> (\<forall>b. block_cells b m' = block_cells b m)"
  using assms
proof (induction nb i j m rule: lin_alloc_range.induct)
  case (1 nb i j m)
  show ?case
  proof (cases "i \<le> j")
    case True
    define m1 where "m1 = (if blocks m i = None then m\<lparr>blocks := (blocks m)(i \<mapsto> Map.empty)\<rparr> else m)"
    have e: "lin_ensure_bucket nb i m = Some m1"
      using True "1.prems" by (simp add: lin_ensure_bucket_eq m1_def)
    have m1: "blocks m1 i \<noteq> None" "\<forall>b. blocks m b \<noteq> None \<longrightarrow> blocks m1 b \<noteq> None"
      "\<forall>b. block_cells b m1 = block_cells b m"
      by (auto simp: m1_def block_cells_def)
    obtain m' where m': "lin_alloc_range nb (Suc i) j m1 = Some m'"
      "\<forall>b. Suc i \<le> b \<and> b \<le> j \<longrightarrow> blocks m' b \<noteq> None" "\<forall>b. blocks m1 b \<noteq> None \<longrightarrow> blocks m' b \<noteq> None"
      "\<forall>b. block_cells b m' = block_cells b m1"
      using "1.IH" [OF True e "1.prems"] by blast
    have "blocks m' b \<noteq> None" if "i \<le> b" "b \<le> j" for b
      using that m' m1(1) by (cases "b = i") auto
    then show ?thesis
      using e m1 m' True by (auto simp: lin_alloc_range.simps [of nb i j m])
  qed (auto simp: lin_alloc_range.simps)
qed

lemma lin_alloc_range_in_bounds:
  "lin_alloc_range nb i j m = Some m' \<Longrightarrow> i \<le> j \<Longrightarrow> j < nb"
proof (induction nb i j m arbitrary: m' rule: lin_alloc_range.induct)
  case (1 nb i j m)
  obtain m1 where m1: "lin_ensure_bucket nb i m = Some m1" "lin_alloc_range nb (Suc i) j m1 = Some m'"
    using "1.prems" by (auto simp: lin_alloc_range.simps [of nb i j m] bind_Some_iff)
  show ?case
  proof (cases "i = j")
    case True
    then show ?thesis using m1(1) by (auto simp: lin_ensure_bucket_def lin_load_def split: if_splits)
  next
    case False
    then show ?thesis using "1.IH" [OF "1.prems"(2) m1] "1.prems"(2) by simp
  qed
qed

lemma lin_set_unsafe_eq:
  assumes "lin_valid nb bs i" "blocks m (i div bs) \<noteq> None"
  shows "lin_set_unsafe nb bs i v m = lin_set nb bs i v m"
  using assms by (auto simp: lin_valid_def lin_set_unsafe_def lin_set_def lin_ensure_bucket_eq)

lemma lin_set_keeps_blocks:
  "lin_valid nb bs i \<Longrightarrow> lin_set nb bs i v m = Some m' \<Longrightarrow> blocks m b \<noteq> None \<Longrightarrow> blocks m' b \<noteq> None"
  by (auto simp: lin_set_eq)

end
