(* ===== verification/Offset_Log.thy ===== *)
theory Offset_Log
  imports Monolog_Linear
begin

unbundle bit_operations_syntax

section \<open>The offset log (offsetlog.h)\<close>

text \<open>
  The offset log maps record identifiers to the offset and length of the record in the data
  log, packed in 64 bits. Identifiers are handed out by a write counter; a read counter is the
  number of identifiers whose records are complete. The first part has the operations, the
  second the protocol of the writers that share the log: a burst requests a block of
  identifiers, fills it, and publishes it once all earlier identifiers are published.
\<close>

definition offlens_nb :: nat where "offlens_nb = 1024"
definition offlens_bs :: nat where "offlens_bs = 16777216"

record offsetlog =
  offlens :: "nat monolog_linear"
  current_write_id :: nat
  current_read_id :: nat

definition offsetlog_init :: offsetlog where
  "offsetlog_init = \<lparr>offlens = linear_init, current_write_id = 0, current_read_id = 0\<rparr>"

text \<open>\<open>((uint64_t) length) << 48 | (offset & 0xFFFFFFFFFFFF)\<close>, and back.\<close>

definition pack_offlen :: "nat \<Rightarrow> nat \<Rightarrow> nat" where
  "pack_offlen offset len = take_bit 64 (push_bit 48 (take_bit 16 len)) OR (offset AND 0xFFFFFFFFFFFF)"

definition unpack_offlen :: "nat \<Rightarrow> nat \<times> nat" where
  "unpack_offlen ol = (ol AND 0xFFFFFFFFFFFF, take_bit 16 (drop_bit 48 ol))"

definition offset_set :: "nat \<Rightarrow> nat \<Rightarrow> nat \<Rightarrow> offsetlog \<Rightarrow> offsetlog option" where
  "offset_set record_id offset len l = do {
     ol \<leftarrow> lin_set offlens_nb offlens_bs record_id (pack_offlen offset len) (offlens l);
     Some (l\<lparr>offlens := ol\<rparr>) }"

definition set_without_alloc :: "nat \<Rightarrow> nat \<Rightarrow> nat \<Rightarrow> offsetlog \<Rightarrow> offsetlog option" where
  "set_without_alloc record_id offset len l = do {
     ol \<leftarrow> lin_set_unsafe offlens_nb offlens_bs record_id (pack_offlen offset len) (offlens l);
     Some (l\<lparr>offlens := ol\<rparr>) }"

definition offset_start :: "nat \<Rightarrow> nat \<Rightarrow> offsetlog \<Rightarrow> (offsetlog \<times> nat) option" where
  "offset_start offset len l =
     (let record_id = current_write_id l;
          l1 = l\<lparr>current_write_id := take_bit 64 (record_id + 1)\<rparr> in do {
        l2 \<leftarrow> offset_set record_id offset len l1;
        Some (l2, record_id) })"

definition request_id_block :: "nat \<Rightarrow> offsetlog \<Rightarrow> (offsetlog \<times> nat) option" where
  "request_id_block num_records l =
     (let start_id = current_write_id l;
          l1 = l\<lparr>current_write_id := take_bit 64 (start_id + num_records)\<rparr> in do {
        ol \<leftarrow> lin_ensure_alloc offlens_nb offlens_bs start_id (take_bit 64 (start_id + num_records)) (offlens l1);
        Some (l1\<lparr>offlens := ol\<rparr>, start_id) })"

text \<open>
  One turn of the loop of \<open>end\<close>: the exchange succeeds when the read counter is \<open>start_id\<close>; a
  failed exchange overwrites \<open>tmp\<close>, which the body of the loop sets back to \<open>start_id\<close>.
\<close>

definition end_try :: "nat \<Rightarrow> nat \<Rightarrow> offsetlog \<Rightarrow> offsetlog \<times> bool" where
  "end_try start_id cnt l =
     (if current_read_id l = start_id
      then (l\<lparr>current_read_id := take_bit 64 (start_id + cnt)\<rparr>, True) else (l, False))"

partial_function (option) end_block :: "nat \<Rightarrow> nat \<Rightarrow> offsetlog \<Rightarrow> offsetlog option" where
  "end_block start_id cnt l =
     (case end_try start_id cnt l of (l', b) \<Rightarrow> if b then Some l' else end_block start_id cnt l')"

definition end_one :: "nat \<Rightarrow> offsetlog \<Rightarrow> offsetlog option" where
  "end_one record_id l = end_block record_id 1 l"

definition offset_lookup :: "nat \<Rightarrow> offsetlog \<Rightarrow> (nat \<times> nat) option" where
  "offset_lookup record_id l = do {
     ol \<leftarrow> lin_get offlens_nb offlens_bs record_id (offlens l);
     Some (unpack_offlen ol) }"

definition is_valid :: "nat \<Rightarrow> offsetlog \<Rightarrow> bool" where
  "is_valid record_id l \<longleftrightarrow> record_id < current_write_id l"

definition is_valid_max :: "nat \<Rightarrow> nat \<Rightarrow> bool" where
  "is_valid_max record_id max_rid \<longleftrightarrow> record_id < max_rid"

definition num_ids :: "offsetlog \<Rightarrow> nat" where
  "num_ids l = current_read_id l"

definition offset_storage_size :: "offsetlog \<Rightarrow> nat" where
  "offset_storage_size l = lin_storage_size offlens_nb offlens_bs 8 (offlens l)"

section \<open>Packing\<close>

lemma mask_48: "n AND 0xFFFFFFFFFFFF = take_bit 48 (n :: nat)"
proof -
  have "(0xFFFFFFFFFFFF :: nat) = mask 48" by (simp add: mask_eq_exp_minus_1)
  then show ?thesis by (simp only: take_bit_eq_mask)
qed

lemma unpack_pack: "unpack_offlen (pack_offlen offset len) = (take_bit 48 offset, take_bit 16 len)"
proof -
  have w: "take_bit 64 (push_bit 48 (take_bit 16 len)) = push_bit 48 (take_bit 16 len)"
    by (rule bit_eqI) (auto simp: bit_simps)
  have "(pack_offlen offset len) AND 0xFFFFFFFFFFFF = take_bit 48 offset"
    unfolding pack_offlen_def w mask_48 by (rule bit_eqI) (auto simp: bit_simps)
  moreover have "take_bit 16 (drop_bit 48 (pack_offlen offset len)) = take_bit 16 len"
    unfolding pack_offlen_def w mask_48 by (rule bit_eqI) (auto simp: bit_simps)
  ultimately show ?thesis by (simp add: unpack_offlen_def)
qed

definition id_room :: "nat \<Rightarrow> bool" where
  "id_room i \<longleftrightarrow> i div offlens_bs < offlens_nb"

lemma id_room_valid: "id_room i \<longleftrightarrow> lin_valid offlens_nb offlens_bs i"
  by (simp add: id_room_def lin_valid_def offlens_bs_def)

lemma id_room_bound: "id_room i \<longleftrightarrow> i < 2 ^ 34"
  by (auto simp: id_room_def offlens_bs_def offlens_nb_def)

text \<open>
  The offset log gives back what was stored: after \<^verbatim>\<open>set\<close> of a record identifier that has
  a cell (there are \<open>2 ^ 34\<close> of them) \<^verbatim>\<open>lookup\<close> returns the low 48 bits of the offset and the
  16-bit length, and every other identifier looks up as before.
\<close>

theorem offset_set_lookup:
  assumes "record_id < 2 ^ 34" "other < 2 ^ 34"
  shows "\<exists>l'. offset_set record_id offset len l = Some l'
    \<and> offset_lookup record_id l' = Some (take_bit 48 offset, take_bit 16 len)
    \<and> (other \<noteq> record_id \<longrightarrow> offset_lookup other l' = offset_lookup other l)"
proof -
  have v: "lin_valid offlens_nb offlens_bs record_id" "lin_valid offlens_nb offlens_bs other"
    using assms by (simp_all only: id_room_bound flip: id_room_valid)
  obtain ol where ol: "lin_set offlens_nb offlens_bs record_id (pack_offlen offset len) (offlens l) = Some ol"
    using lin_set_total [OF v(1)] by (rule exE)
  show ?thesis
    using linear_array.get_set_at [OF v(1) v(1) ol] linear_array.get_set_at [OF v ol] ol
    by (simp add: offset_set_def offset_lookup_def unpack_pack)
qed

theorem offset_set_lookup_witness:
  "\<exists>l'. offset_set 5 1000 64 offsetlog_init = Some l' \<and> offset_lookup 5 l' = Some (1000, 64)"
  using offset_set_lookup [of 5 6 1000 64 offsetlog_init] by (auto simp: take_bit_eq_mod)

section \<open>Publishing alone\<close>

lemma end_block_Some: "end_block start_id cnt l = Some l' \<Longrightarrow> current_read_id l = start_id"
  by (rule end_block.raw_induct [of "\<lambda>s c l y. current_read_id l = s"])
    (auto simp: end_try_def split: if_splits)

lemma end_block_eq:
  "end_block start_id cnt l = (if current_read_id l = start_id
     then Some (l\<lparr>current_read_id := take_bit 64 (start_id + cnt)\<rparr>) else None)"
proof (cases "current_read_id l = start_id")
  case False
  then have "end_block start_id cnt l \<noteq> Some l'" for l' using end_block_Some by blast
  then show ?thesis using False by (cases "end_block start_id cnt l") auto
qed (simp add: end_block.simps end_try_def)

section \<open>Writers that share the log\<close>

text \<open>
  A writer is idle or inside a burst that was given the \<open>n\<close> identifiers from \<open>start\<close> on and has
  filled the first \<open>k\<close> of them. Each step is one of the operations above by one writer; which offset and length
  a writer fills in is its own business. A burst has fewer than \<open>2 ^ 16\<close> records, its size
  being a \<open>uint16_t\<close>. \<open>assigned\<close> is auxiliary: the record each identifier was given to.
\<close>

datatype burst = Idle | Filling nat nat nat

record id_system =
  olog :: offsetlog
  bursts :: "nat \<Rightarrow> burst"
  assigned :: "nat \<rightharpoonup> nat \<times> nat"

definition id_init :: id_system where
  "id_init = \<lparr>olog = offsetlog_init, bursts = (\<lambda>_. Idle), assigned = Map.empty\<rparr>"

inductive id_step :: "id_system \<Rightarrow> id_system \<Rightarrow> bool" where
  request: "bursts s t = Idle \<Longrightarrow> n < 2 ^ 16 \<Longrightarrow>
     request_id_block n (olog s) = Some (l, start) \<Longrightarrow>
     id_step s (s\<lparr>olog := l, bursts := (bursts s)(t := Filling start 0 n)\<rparr>)"
| fill: "bursts s t = Filling start k n \<Longrightarrow> k < n \<Longrightarrow>
     set_without_alloc (start + k) off len (olog s) = Some l \<Longrightarrow>
     id_step s (s\<lparr>olog := l, bursts := (bursts s)(t := Filling start (Suc k) n),
                assigned := (assigned s)(start + k \<mapsto> (off, len))\<rparr>)"
| finish: "bursts s t = Filling start n n \<Longrightarrow>
     end_try start n (olog s) = (l, True) \<Longrightarrow>
     id_step s (s\<lparr>olog := l, bursts := (bursts s)(t := Idle)\<rparr>)"
| spin: "bursts s t = Filling start n n \<Longrightarrow>
     end_try start n (olog s) = (l, False) \<Longrightarrow>
     id_step s (s\<lparr>olog := l\<rparr>)"

inductive id_reach :: "id_system \<Rightarrow> id_system \<Rightarrow> bool" where
  id_refl: "id_reach s s"
| id_more: "id_reach s s' \<Longrightarrow> id_step s' s'' \<Longrightarrow> id_reach s s''"

text \<open>What holds of a burst in progress, and of the system.\<close>

definition id_holds :: "nat \<Rightarrow> nat \<times> nat \<Rightarrow> offsetlog \<Rightarrow> bool" where
  "id_holds i r l \<longleftrightarrow> lin_get offlens_nb offlens_bs i (offlens l) = Some (pack_offlen (fst r) (snd r))"

definition burst_ok :: "id_system \<Rightarrow> nat \<Rightarrow> nat \<Rightarrow> nat \<Rightarrow> bool" where
  "burst_ok s start k n \<longleftrightarrow>
     start + n \<le> current_write_id (olog s) \<and> k \<le> n
     \<and> (n = 0 \<or> current_read_id (olog s) \<le> start)
     \<and> (\<forall>i < n. blocks (offlens (olog s)) ((start + i) div offlens_bs) \<noteq> None)
     \<and> (\<forall>i < k. \<exists>r. assigned s (start + i) = Some r \<and> id_holds (start + i) r (olog s))"

definition burst_ids :: "burst \<Rightarrow> nat set" where
  "burst_ids b = (case b of Idle \<Rightarrow> {} | Filling start k n \<Rightarrow> {start..<start + n})"

definition id_inv :: "id_system \<Rightarrow> bool" where
  "id_inv s \<longleftrightarrow>
     current_read_id (olog s) \<le> current_write_id (olog s) \<and> id_room (current_write_id (olog s))
     \<and> (\<forall>t start k n. bursts s t = Filling start k n \<longrightarrow> burst_ok s start k n)
     \<and> (\<forall>t t'. t \<noteq> t' \<longrightarrow> burst_ids (bursts s t) \<inter> burst_ids (bursts s t') = {})
     \<and> {current_read_id (olog s)..<current_write_id (olog s)} \<subseteq> (\<Union>t. burst_ids (bursts s t))
     \<and> (\<forall>i < current_read_id (olog s). \<exists>r. assigned s i = Some r \<and> id_holds i r (olog s))"

lemma id_room_down: "id_room i \<Longrightarrow> j \<le> i \<Longrightarrow> id_room j"
  by (simp add: id_room_bound)

lemma request_spec:
  assumes "request_id_block n l = Some (l', start)" "id_room (current_write_id l)" "n < 2 ^ 16"
  shows "start = current_write_id l" "current_write_id l' = start + n"
    "current_read_id l' = current_read_id l" "id_room (start + n)"
    "i \<le> n \<Longrightarrow> blocks (offlens l') ((start + i) div offlens_bs) \<noteq> None"
    "blocks (offlens l) b \<noteq> None \<Longrightarrow> blocks (offlens l') b \<noteq> None"
    "id_room j \<Longrightarrow> id_holds j r l' = id_holds j r l"
proof -
  have wrap: "take_bit 64 (current_write_id l + n) = current_write_id l + n"
    using assms(2,3) by (intro take_bit_64_id) (simp add: id_room_bound)
  obtain ol where ol: "lin_ensure_alloc offlens_nb offlens_bs start (start + n) (offlens l) = Some ol"
    and l': "start = current_write_id l" "l' = l\<lparr>current_write_id := start + n, offlens := ol\<rparr>"
    using assms(1) by (auto simp: request_id_block_def Let_def bind_Some_iff wrap)
  have le: "start div offlens_bs \<le> (start + n) div offlens_bs" by (simp add: div_le_mono)
  have room: "(start + n) div offlens_bs < offlens_nb"
    using lin_alloc_range_in_bounds [OF ol [unfolded lin_ensure_alloc_def] le] .
  have spec: "(\<forall>b. start div offlens_bs \<le> b \<and> b \<le> (start + n) div offlens_bs \<longrightarrow> blocks ol b \<noteq> None)
    \<and> (\<forall>b. blocks (offlens l) b \<noteq> None \<longrightarrow> blocks ol b \<noteq> None)
    \<and> (\<forall>b. block_cells b ol = block_cells b (offlens l))"
    using lin_alloc_range_spec [OF room, of "start div offlens_bs" "offlens l"] ol
    by (auto simp: lin_ensure_alloc_def)
  show "start = current_write_id l" "current_write_id l' = start + n"
    "current_read_id l' = current_read_id l"
    using l' by simp_all
  show "id_room (start + n)" using room by (simp add: id_room_def)
  show "blocks (offlens l') ((start + i) div offlens_bs) \<noteq> None" if "i \<le> n"
    using that spec l' by (simp add: div_le_mono)
  show "blocks (offlens l) b \<noteq> None \<Longrightarrow> blocks (offlens l') b \<noteq> None" using spec l' by simp
  show "id_holds j r l' = id_holds j r l" if "id_room j"
    using that spec l' by (simp add: id_holds_def id_room_valid lin_get_eq)
qed

lemma fill_spec:
  assumes "set_without_alloc i a c l = Some l'" "id_room i"
  shows "current_write_id l' = current_write_id l" "current_read_id l' = current_read_id l"
    "blocks (offlens l) b \<noteq> None \<Longrightarrow> blocks (offlens l') b \<noteq> None"
    "id_holds i (a, c) l'"
    "id_room j \<Longrightarrow> j \<noteq> i \<Longrightarrow> id_holds j r l' = id_holds j r l"
proof -
  have v: "lin_valid offlens_nb offlens_bs i" using assms(2) by (simp add: id_room_valid)
  obtain ol where ol: "lin_set_unsafe offlens_nb offlens_bs i (pack_offlen a c) (offlens l) = Some ol"
    and l': "l' = l\<lparr>offlens := ol\<rparr>"
    using assms(1) by (auto simp: set_without_alloc_def bind_Some_iff)
  have alloc: "blocks (offlens l) (i div offlens_bs) \<noteq> None"
    using ol by (auto simp: lin_set_unsafe_def lin_copy_in_def lin_load_def bind_Some_iff split: if_splits)
  have set: "lin_set offlens_nb offlens_bs i (pack_offlen a c) (offlens l) = Some ol"
    using ol lin_set_unsafe_eq [OF v alloc] by simp
  show "current_write_id l' = current_write_id l" "current_read_id l' = current_read_id l"
    using l' by simp_all
  show "blocks (offlens l) b \<noteq> None \<Longrightarrow> blocks (offlens l') b \<noteq> None"
    using lin_set_keeps_blocks [OF v set] l' by simp
  show "id_holds i (a, c) l'"
    using linear_array.get_set_same [OF v set] l' by (simp add: id_holds_def)
  show "id_holds j r l' = id_holds j r l" if "id_room j" "j \<noteq> i"
    using linear_array.get_set_other [OF v _ that(2) set] that(1) l'
    by (simp add: id_holds_def id_room_valid)
qed

lemma burst_ok_cong:
  assumes "burst_ok s start k n"
    and "current_write_id (olog s) \<le> current_write_id (olog s')"
    and "n \<noteq> 0 \<Longrightarrow> current_read_id (olog s') \<le> start"
    and "\<And>b. blocks (offlens (olog s)) b \<noteq> None \<Longrightarrow> blocks (offlens (olog s')) b \<noteq> None"
    and "\<And>i r. i < k \<Longrightarrow> assigned s (start + i) = Some r \<Longrightarrow> id_holds (start + i) r (olog s) \<Longrightarrow>
      assigned s' (start + i) = Some r \<and> id_holds (start + i) r (olog s')"
  shows "burst_ok s' start k n"
  unfolding burst_ok_def
proof (intro conjI allI impI)
  show "\<exists>r. assigned s' (start + i) = Some r \<and> id_holds (start + i) r (olog s')" if "i < k" for i
    using that assms(1) assms(5) [OF that] unfolding burst_ok_def by blast
qed (use assms in \<open>auto simp: burst_ok_def\<close>)

text \<open>Each step keeps the invariant.\<close>

lemma id_invD:
  assumes "id_inv s"
  shows "current_read_id (olog s) \<le> current_write_id (olog s)" "id_room (current_write_id (olog s))"
    "bursts s t = Filling start k n \<Longrightarrow> burst_ok s start k n"
    "t \<noteq> t' \<Longrightarrow> burst_ids (bursts s t) \<inter> burst_ids (bursts s t') = {}"
    "current_read_id (olog s) \<le> i \<Longrightarrow> i < current_write_id (olog s) \<Longrightarrow> \<exists>t. i \<in> burst_ids (bursts s t)"
    "i < current_read_id (olog s) \<Longrightarrow> \<exists>r. assigned s i = Some r \<and> id_holds i r (olog s)"
  using assms unfolding id_inv_def by auto

lemma burst_ids_below:
  assumes "id_inv s" "i \<in> burst_ids (bursts s t)"
  shows "i < current_write_id (olog s)" "id_room i" "current_read_id (olog s) \<le> i"
proof -
  obtain start k n where b: "bursts s t = Filling start k n" "start \<le> i" "i < start + n"
    using assms(2) by (auto simp: burst_ids_def split: burst.splits)
  have ok: "burst_ok s start k n" using id_invD(3) [OF assms(1) b(1)] .
  show lt: "i < current_write_id (olog s)" using ok b by (simp add: burst_ok_def)
  show "id_room i" using id_room_down [OF id_invD(2) [OF assms(1)]] lt by simp
  show "current_read_id (olog s) \<le> i" using ok b by (auto simp: burst_ok_def)
qed

lemma id_inv_request:
  assumes inv: "id_inv s" and t: "bursts s t = Idle" and n: "n < 2 ^ 16"
    and req: "request_id_block n (olog s) = Some (l, start)"
  shows "id_inv (s\<lparr>olog := l, bursts := (bursts s)(t := Filling start 0 n)\<rparr>)" (is "id_inv ?s")
proof -
  note spec = request_spec [OF req id_invD(2) [OF inv] n]
  note new = burst_ids_below(1) [OF inv]
  have old: "burst_ok ?s st k j" if b: "bursts s u = Filling st k j" for u st k j
  proof -
    have ids: "st + i \<in> burst_ids (bursts s u)" if "i < j" for i
      using b that by (simp add: burst_ids_def)
    have ok: "burst_ok s st k j" using id_invD(3) [OF inv b] .
    show ?thesis
    proof (rule burst_ok_cong [OF ok])
      show "assigned ?s (st + i) = Some r \<and> id_holds (st + i) r (olog ?s)"
        if "i < k" "assigned s (st + i) = Some r" "id_holds (st + i) r (olog s)" for i r
        using that ok spec(7) burst_ids_below(2) [OF inv ids [of i]] by (simp add: burst_ok_def)
    qed (use ok spec in \<open>auto simp: burst_ok_def\<close>)
  qed
  have mine: "burst_ok ?s start 0 n"
    using spec id_invD(1) [OF inv] by (simp add: burst_ok_def)
  have ids: "burst_ids (bursts ?s u) = (if u = t then {start..<start + n} else burst_ids (bursts s u))" for u
    by (simp add: burst_ids_def)
  have "i < start" if "i \<in> burst_ids (bursts s u)" for i u using new [OF that] spec(1) by simp
  then have fresh: "burst_ids (bursts s u) \<inter> {start..<start + n} = {}" for u
    by (meson atLeastLessThan_iff disjoint_iff not_less)
  show ?thesis
    unfolding id_inv_def
  proof (intro conjI allI impI)
    show "burst_ok ?s st k j" if "bursts ?s u = Filling st k j" for u st k j
      using that old mine by (auto split: if_splits)
    show "burst_ids (bursts ?s u) \<inter> burst_ids (bursts ?s u') = {}" if "u \<noteq> u'" for u u'
      using that id_invD(4) [OF inv that] fresh unfolding ids by (simp add: Int_commute)
    show "{current_read_id (olog ?s)..<current_write_id (olog ?s)} \<subseteq> (\<Union>u. burst_ids (bursts ?s u))"
    proof
      fix i assume i: "i \<in> {current_read_id (olog ?s)..<current_write_id (olog ?s)}"
      show "i \<in> (\<Union>u. burst_ids (bursts ?s u))"
      proof (cases "i < start")
        case True
        then obtain u where u: "i \<in> burst_ids (bursts s u)" using id_invD(5) [OF inv, of i] i spec(1-3) by auto
        then have "u \<noteq> t" using t by (auto simp: burst_ids_def)
        then show ?thesis using u unfolding ids by auto
      next
        case False
        then have "i \<in> burst_ids (bursts ?s t)" using i spec unfolding ids by simp
        then show ?thesis by (rule UN_I [OF UNIV_I])
      qed
    qed
    show "\<exists>r. assigned ?s i = Some r \<and> id_holds i r (olog ?s)" if "i < current_read_id (olog ?s)" for i
      using that id_invD(6) [OF inv, of i] spec id_invD(1) [OF inv] id_room_down [OF id_invD(2) [OF inv], of i]
      by auto
  qed (use spec id_invD(1) [OF inv] in auto)
qed

lemma id_inv_fill:
  assumes inv: "id_inv s" and t: "bursts s t = Filling start k n" and k: "k < n"
    and set: "set_without_alloc (start + k) off len (olog s) = Some l"
  shows "id_inv (s\<lparr>olog := l, bursts := (bursts s)(t := Filling start (Suc k) n),
                assigned := (assigned s)(start + k \<mapsto> (off, len))\<rparr>)" (is "id_inv ?s")
proof -
  have mine: "start + k \<in> burst_ids (bursts s t)" using t k by (simp add: burst_ids_def)
  note spec = fill_spec [OF set burst_ids_below(2) [OF inv mine]]
  have ids: "burst_ids (bursts ?s u) = burst_ids (bursts s u)" for u
    using t by (simp add: burst_ids_def)
  have keep: "burst_ok ?s st j m" if b: "bursts s u = Filling st j m" for u st j m
  proof -
    have ok: "burst_ok s st j m" using id_invD(3) [OF inv b] .
    show ?thesis
    proof (rule burst_ok_cong [OF ok])
      fix i r assume i: "i < j" "assigned s (st + i) = Some r" "id_holds (st + i) r (olog s)"
      have u: "st + i \<in> burst_ids (bursts s u)" using b i(1) ok by (simp add: burst_ids_def burst_ok_def)
      have "st + i \<noteq> start + k"
      proof
        assume e: "st + i = start + k"
        have "u = t" using id_invD(4) [OF inv, of u t] u mine e by auto
        then show False using e b t i(1) by simp
      qed
      then show "assigned ?s (st + i) = Some r \<and> id_holds (st + i) r (olog ?s)"
        using spec(5) [OF burst_ids_below(2) [OF inv u]] i by simp
    qed (use ok spec in \<open>auto simp: burst_ok_def\<close>)
  qed
  have grown: "burst_ok ?s start (Suc k) n"
    using keep [OF t] spec(4) k by (auto simp: burst_ok_def less_Suc_eq)
  show ?thesis
    unfolding id_inv_def ids
  proof (intro conjI allI impI)
    show "burst_ok ?s st j m" if "bursts ?s u = Filling st j m" for u st j m
      using that keep grown by (auto split: if_splits)
    show "\<exists>r. assigned ?s i = Some r \<and> id_holds i r (olog ?s)" if "i < current_read_id (olog ?s)" for i
    proof -
      have i: "i < current_read_id (olog s)" using that spec by simp
      have "i \<noteq> start + k" using burst_ids_below(3) [OF inv mine] i by simp
      moreover have "id_room i" using id_room_down [OF id_invD(2) [OF inv]] id_invD(1) [OF inv] i by simp
      ultimately show ?thesis using id_invD(6) [OF inv i] spec(5) by auto
    qed
  qed (use spec id_invD(1,2,4) [OF inv] inv in \<open>auto simp: id_inv_def\<close>)
qed

lemma id_inv_finish:
  assumes inv: "id_inv s" and t: "bursts s t = Filling start n n"
    and fin: "end_try start (n) (olog s) = (l, True)"
  shows "id_inv (s\<lparr>olog := l, bursts := (bursts s)(t := Idle)\<rparr>)" (is "id_inv ?s")
proof -
  have ok: "burst_ok s start n n" using id_invD(3) [OF inv t] .
  have "take_bit 64 (start + n) = start + n"
    using ok id_invD(2) [OF inv] by (intro take_bit_64_id) (simp add: burst_ok_def id_room_bound)
  then have rd: "current_read_id (olog s) = start"
    and l: "l = olog s\<lparr>current_read_id := start + n\<rparr>"
    using fin by (auto simp: end_try_def split: if_splits)
  have holds: "id_holds i r l = id_holds i r (olog s)" for i r by (simp add: l id_holds_def)
  have keep: "burst_ok ?s st j m" if b: "bursts s u = Filling st j m" and u: "u \<noteq> t" for u st j m
  proof -
    have ok': "burst_ok s st j m" using id_invD(3) [OF inv b] .
    have "start + n \<le> st" if "m \<noteq> 0"
    proof (rule ccontr)
      assume "\<not> start + n \<le> st"
      then have "st \<in> burst_ids (bursts s t)" "st \<in> burst_ids (bursts s u)"
        using ok' rd that t b by (auto simp: burst_ok_def burst_ids_def)
      then show False using id_invD(4) [OF inv u] by auto
    qed
    then show ?thesis using ok' by (auto simp: burst_ok_def l id_holds_def)
  qed
  have ids: "burst_ids (bursts ?s u) = (if u = t then {} else burst_ids (bursts s u))" for u
    by (simp add: burst_ids_def)
  show ?thesis
    unfolding id_inv_def
  proof (intro conjI allI impI)
    show "burst_ok ?s st j m" if "bursts ?s u = Filling st j m" for u st j m
      using that keep by (auto split: if_splits)
    show "burst_ids (bursts ?s u) \<inter> burst_ids (bursts ?s u') = {}" if "u \<noteq> u'" for u u'
      using that id_invD(4) [OF inv that] unfolding ids by simp
    show "{current_read_id (olog ?s)..<current_write_id (olog ?s)} \<subseteq> (\<Union>u. burst_ids (bursts ?s u))"
    proof
      fix i assume i: "i \<in> {current_read_id (olog ?s)..<current_write_id (olog ?s)}"
      then obtain u where u: "i \<in> burst_ids (bursts s u)" using id_invD(5) [OF inv, of i] l rd by auto
      then have "u \<noteq> t" using i t l by (auto simp: burst_ids_def)
      then show "i \<in> (\<Union>u. burst_ids (bursts ?s u))" using u unfolding ids by auto
    qed
    show "\<exists>r. assigned ?s i = Some r \<and> id_holds i r (olog ?s)" if "i < current_read_id (olog ?s)" for i
    proof (cases "i < start")
      case True
      then show ?thesis using id_invD(6) [OF inv, of i] rd holds by auto
    next
      case False
      then have i: "start + (i - start) = i" "i - start < n" using that l by auto
      have "\<exists>r. assigned s (start + (i - start)) = Some r \<and> id_holds (start + (i - start)) r (olog s)"
        using ok i(2) unfolding burst_ok_def by blast
      then show ?thesis using holds unfolding i(1) by simp
    qed
  qed (use ok id_invD(2) [OF inv] l in \<open>auto simp: burst_ok_def\<close>)
qed

lemma id_inv_step: "id_step s s' \<Longrightarrow> id_inv s \<Longrightarrow> id_inv s'"
proof (induction rule: id_step.induct)
  case (spin s t start n l)
  then have "l = olog s" by (auto simp: end_try_def split: if_splits)
  then show ?case using spin by simp
qed (auto intro: id_inv_request id_inv_fill id_inv_finish)

lemma id_inv_init: "id_inv id_init"
  by (simp add: id_inv_def id_init_def offsetlog_init_def id_room_bound burst_ids_def)

lemma id_inv_reach: "id_reach s s' \<Longrightarrow> id_inv s \<Longrightarrow> id_inv s'"
  by (induction rule: id_reach.induct) (auto intro: id_inv_step)

text \<open>
  A run of two writers: writer 1 asks for a block of no identifiers, writer 2 for one
  identifier, fills it and publishes it.
\<close>

lemma empty_then_one_run:
  "\<exists>s1 s. id_reach id_init s1 \<and> id_reach s1 s
     \<and> num_ids (olog s1) = 0 \<and> current_write_id (olog s1) = 1 \<and> bursts s1 1 = Filling 0 0 0
     \<and> num_ids (olog s) = 1 \<and> bursts s 1 = Filling 0 0 0 \<and> assigned s 0 = Some (7, 64)"
proof -
  have req0: "request_id_block 0 (olog id_init) = Some (offsetlog_init, 0)"
    by (simp add: request_id_block_def lin_ensure_alloc_def lin_alloc_range.simps id_init_def
        offsetlog_init_def linear_init_def lin_ensure_bucket_def lin_load_def offlens_nb_def
        offlens_bs_def)
  define s0 where "s0 = id_init\<lparr>olog := offsetlog_init, bursts := (bursts id_init)(1 := Filling 0 0 0)\<rparr>"
  have step0: "id_step id_init s0"
    unfolding s0_def by (rule id_step.request [OF _ _ req0]) (simp_all add: id_init_def)
  define l1 where "l1 = offsetlog_init\<lparr>current_write_id := 1\<rparr>"
  have req1: "request_id_block 1 (olog s0) = Some (l1, 0)"
    by (simp add: request_id_block_def lin_ensure_alloc_def lin_alloc_range.simps s0_def l1_def
        offsetlog_init_def linear_init_def lin_ensure_bucket_def lin_load_def offlens_nb_def
        offlens_bs_def take_bit_eq_mod)
  define s1 where "s1 = s0\<lparr>olog := l1, bursts := (bursts s0)(2 := Filling 0 0 1)\<rparr>"
  have step1: "id_step s0 s1"
    unfolding s1_def by (rule id_step.request [OF _ _ req1]) (simp_all add: s0_def id_init_def)
  obtain l2 where set: "set_without_alloc (0 + 0) 7 64 (olog s1) = Some l2"
    and l2: "current_read_id l2 = 0"
    by (simp add: s1_def l1_def set_without_alloc_def lin_set_unsafe_def lin_copy_in_def lin_load_def
        offsetlog_init_def linear_init_def offlens_nb_def offlens_bs_def)
  define s2 where "s2 = s1\<lparr>olog := l2, bursts := (bursts s1)(2 := Filling 0 (Suc 0) 1),
    assigned := (assigned s1)(0 + 0 \<mapsto> (7, 64))\<rparr>"
  have step2: "id_step s1 s2"
    unfolding s2_def by (rule id_step.fill [OF _ _ set]) (simp_all add: s1_def)
  define s3 where "s3 = s2\<lparr>olog := l2\<lparr>current_read_id := 1\<rparr>, bursts := (bursts s2)(2 := Idle)\<rparr>"
  have step3: "id_step s2 s3"
    unfolding s3_def
    by (rule id_step.finish [of _ _ 0 1]) (simp_all add: s2_def end_try_def l2 take_bit_eq_mod)
  have "id_reach id_init s1" using step0 step1 by (blast intro: id_reach.intros)
  moreover have "id_reach s1 s3" using step2 step3 by (blast intro: id_reach.intros)
  ultimately show ?thesis
    by (intro exI [of _ s1] exI [of _ s3])
      (simp add: s3_def s2_def s1_def s0_def id_init_def l1_def offsetlog_init_def num_ids_def)
qed

lemma id_reach_trans: "id_reach s' s'' \<Longrightarrow> id_reach s s' \<Longrightarrow> id_reach s s''"
  by (induction rule: id_reach.induct) (auto intro: id_reach.intros)

text \<open>
  Readers only see complete records. Whatever the writers do and however their steps
  interleave, every identifier below \<^verbatim>\<open>num_ids\<close> was given to a record by some burst, and
  \<^verbatim>\<open>lookup\<close> returns that record's offset and length.
\<close>

theorem published_ids_complete:
  assumes "id_reach id_init s" "i < num_ids (olog s)"
  shows "\<exists>offset len. assigned s i = Some (offset, len)
    \<and> offset_lookup i (olog s) = Some (take_bit 48 offset, take_bit 16 len)"
proof -
  have "id_inv s" using id_inv_reach [OF assms(1) id_inv_init] .
  then obtain r where "assigned s i = Some r" "id_holds i r (olog s)"
    using id_invD(6) [of s i] assms(2) by (auto simp: num_ids_def)
  then show ?thesis
    by (cases r) (simp add: id_holds_def offset_lookup_def unpack_pack)
qed

theorem published_ids_complete_witness:
  "\<exists>s. id_reach id_init s \<and> num_ids (olog s) = 1 \<and> offset_lookup 0 (olog s) = Some (7, 64)"
proof -
  obtain s where s: "id_reach id_init s" "num_ids (olog s) = 1" "assigned s 0 = Some (7, 64)"
    using empty_then_one_run id_reach_trans by blast
  then show ?thesis using published_ids_complete [OF s(1), of 0] by (auto simp: take_bit_eq_mod)
qed

text \<open>
  C28. The writers never deadlock. As long as an identifier has been handed out and is not
  published, some burst in progress owns the lowest of them, and that burst can make a
  step of its own: it fills its next identifier or publishes its whole block.
\<close>

theorem oldest_burst_progresses:
  assumes "id_reach id_init s" "num_ids (olog s) < current_write_id (olog s)"
  shows "\<exists>t k n s'. bursts s t = Filling (num_ids (olog s)) k n \<and> id_step s s'
    \<and> (if k < n then bursts s' t = Filling (num_ids (olog s)) (Suc k) n
       else bursts s' t = Idle \<and> num_ids (olog s') = num_ids (olog s) + n)"
proof -
  have inv: "id_inv s" using id_inv_reach [OF assms(1) id_inv_init] .
  let ?n = "num_ids (olog s)"
  obtain t where t: "?n \<in> burst_ids (bursts s t)"
    using id_invD(5) [OF inv, of ?n] assms(2) by (auto simp: num_ids_def)
  then obtain start k n where b: "bursts s t = Filling start k n" "start \<le> ?n" "?n < start + n"
    by (auto simp: burst_ids_def split: burst.splits)
  have ok: "burst_ok s start k n" using id_invD(3) [OF inv b(1)] .
  have start: "start = ?n" using ok b by (auto simp: burst_ok_def num_ids_def)
  show ?thesis
  proof (cases "k < n")
    case True
    have mem: "start + k \<in> burst_ids (bursts s t)" using b(1) True by (simp add: burst_ids_def)
    have v: "lin_valid offlens_nb offlens_bs (start + k)"
      using burst_ids_below(2) [OF inv mem] by (simp add: id_room_valid)
    have alloc: "blocks (offlens (olog s)) ((start + k) div offlens_bs) \<noteq> None"
      using ok True by (simp add: burst_ok_def)
    obtain ol where "lin_set offlens_nb offlens_bs (start + k)
        (pack_offlen 0 0) (offlens (olog s)) = Some ol"
      using lin_set_total [OF v] by (rule exE)
    then have "set_without_alloc (start + k) 0 0 (olog s)
        = Some (olog s\<lparr>offlens := ol\<rparr>)"
      by (simp add: set_without_alloc_def lin_set_unsafe_eq [OF v alloc])
    from id_step.fill [OF b(1) True this] show ?thesis using b(1) start True by fastforce
  next
    case False
    then have k: "k = n" using ok by (simp add: burst_ok_def)
    have "take_bit 64 (start + n) = start + n"
      using ok id_invD(2) [OF inv] by (intro take_bit_64_id) (simp add: burst_ok_def id_room_bound)
    then have "end_try start (n) (olog s)
        = (olog s\<lparr>current_read_id := start + n\<rparr>, True)"
      using start by (simp add: end_try_def num_ids_def)
    from id_step.finish [OF b(1) [unfolded k] this] show ?thesis
      using b(1) start False k by (fastforce simp: num_ids_def)
  qed
qed

theorem oldest_burst_progresses_witness:
  "\<exists>s t k n s'. id_reach id_init s \<and> bursts s t = Filling 0 k n \<and> id_step s s'
     \<and> bursts s' t \<noteq> bursts s t"
proof -
  obtain s where s: "id_reach id_init s" "num_ids (olog s) = 0" "current_write_id (olog s) = 1"
    using empty_then_one_run by blast
  then show ?thesis using oldest_burst_progresses [OF s(1)] by (fastforce split: if_splits)
qed

text \<open>A block of no identifiers whose start has been passed is never published.\<close>

lemma num_ids_mono_step: "id_step s s' \<Longrightarrow> id_inv s \<Longrightarrow> num_ids (olog s) \<le> num_ids (olog s')"
proof (induction rule: id_step.induct)
  case (request s t n l start)
  then show ?case using request_spec(3) [OF request(3)] id_invD(2) [OF request(4)] by (simp add: num_ids_def)
next
  case (fill s t start k n off len l)
  then show ?case by (auto simp: num_ids_def set_without_alloc_def bind_Some_iff)
next
  case (finish s t start n l)
  have "burst_ok s start n n" using id_invD(3) [OF finish(3) finish(1)] .
  then have "take_bit 64 (start + n) = start + n"
    using id_invD(2) [OF finish(3)] by (intro take_bit_64_id) (simp add: burst_ok_def id_room_bound)
  then show ?case using finish(2) by (auto simp: num_ids_def end_try_def split: if_splits)
next
  case (spin s t start n l)
  then show ?case by (auto simp: num_ids_def end_try_def split: if_splits)
qed

lemma empty_burst_step:
  "id_step s s' \<Longrightarrow> bursts s t = Filling start 0 0 \<Longrightarrow> start < num_ids (olog s) \<Longrightarrow>
     bursts s' t = Filling start 0 0"
  by (induction rule: id_step.induct) (auto simp: num_ids_def end_try_def split: if_splits)

text \<open>
  C29. A burst without records can hang its writer. It is given the identifier that the next
  burst is given too; when that burst publishes first, the read counter has passed the start of
  the empty block, and \<^verbatim>\<open>end(start_id, 0)\<close> waits for a value that never comes back, in every
  continuation of the run.
\<close>

theorem empty_burst_never_ends:
  assumes "id_reach id_init s" "bursts s t = Filling start 0 0" "start < num_ids (olog s)"
    and "id_reach s s'"
  shows "bursts s' t = Filling start 0 0"
proof -
  have "bursts s' t = Filling start 0 0 \<and> start < num_ids (olog s') \<and> id_inv s'"
    using assms(4) assms(2,3) id_inv_reach [OF assms(1) id_inv_init]
  proof (induction rule: id_reach.induct)
    case (id_more s s' s'')
    then show ?case
      using empty_burst_step [OF id_more(2)] num_ids_mono_step [OF id_more(2)] id_inv_step [OF id_more(2)]
      by fastforce
  qed simp
  then show ?thesis by simp
qed

theorem empty_burst_never_ends_witness:
  "\<exists>s. id_reach id_init s \<and> num_ids (olog s) = 1 \<and> bursts s 1 = Filling 0 0 0"
proof -
  obtain s where s: "id_reach id_init s" "num_ids (olog s) = 1" "bursts s 1 = Filling 0 0 0"
    using empty_then_one_run id_reach_trans by blast
  then have "bursts s 1 = Filling 0 0 0"
    by (intro empty_burst_never_ends [OF s(1) s(3)] id_refl) simp
  then show ?thesis using s by blast
qed

end
