(* ===== verification/Log_Store.thy ===== *)
theory Log_Store
  imports Offset_Log Filter_Result
begin

section \<open>The log store (logstore.h, tokens.h, streamlog.h)\<close>

text \<open>
  Records are appended to the data log, located through the offset log, and indexed by tokens.
  The operations here are those of one thread; what several writers do to the identifiers is in
  \<open>Offset_Log\<close>. The logs of indexes and streams hold pointers, which are positions in the
  store's heaps (\<open>index_heap\<close>, \<open>stream_heap\<close>); \<open>new\<close> appends to the heap. The eight
  members \<open>idx1_\<close> to \<open>idx8_\<close> are one function of the token length.
\<close>

subsection \<open>Tokens\<close>

record token_t =
  index_id :: nat
  token_data :: nat

definition new_token :: "nat \<Rightarrow> nat \<Rightarrow> token_t" where
  "new_token idx data = \<lparr>index_id = take_bit 32 idx, token_data = take_bit 64 data\<rparr>"

text \<open>\<open>*(uint64_t*) data\<close>: eight bytes, the least significant first.\<close>

definition token_of_bytes :: "nat \<Rightarrow> u8 list \<Rightarrow> token_t option" where
  "token_of_bytes idx bytes =
     (if length bytes < 8 then None
      else Some \<lparr>index_id = take_bit 32 idx,
        token_data = foldr (\<lambda>b acc. unat b + 256 * acc) (take 8 bytes) 0\<rparr>)"

definition update_data :: "nat \<Rightarrow> token_t \<Rightarrow> token_t" where
  "update_data data t = t\<lparr>token_data := take_bit 64 data\<rparr>"

subsection \<open>Streams\<close>

text \<open>
  A filter function takes the record identifier by reference, so it returns the identifier as
  it leaves it.
\<close>

type_synonym filter_function = "nat \<Rightarrow> u8 list \<Rightarrow> nat \<Rightarrow> token_t list \<Rightarrow> bool \<times> nat"

record streamlog =
  fn :: filter_function
  stream_log :: entry_list

definition new_streamlog :: "filter_function \<Rightarrow> streamlog" where
  "new_streamlog f = \<lparr>fn = f, stream_log = new_entry_list\<rparr>"

definition check_and_add :: "nat \<Rightarrow> u8 list \<Rightarrow> nat \<Rightarrow> token_t list \<Rightarrow> streamlog \<Rightarrow> streamlog option" where
  "check_and_add record_id rec rec_len tokens sl =
     (let (keep, record_id') = fn sl record_id rec rec_len tokens in
      if keep then do {
        (l, _) \<leftarrow> el_push_back record_id' (stream_log sl);
        Some (sl\<lparr>stream_log := l\<rparr>) }
      else Some sl)"

subsection \<open>The store\<close>

definition OFFSETMIN :: nat where "OFFSETMIN = 1024"

definition nindexes_nb :: nat where "nindexes_nb = 32"

record log_store =
  dlog :: datalog
  olog_of :: offsetlog
  dtail :: nat
  idx_log :: "nat \<Rightarrow> nat monolog_linearizable"
  streams :: "nat monolog_linearizable"
  index_heap :: "index_obj list"
  stream_heap :: "streamlog list"

definition log_store_init :: log_store where
  "log_store_init = \<lparr>dlog = linear_init, olog_of = offsetlog_init, dtail = 0,
     idx_log = (\<lambda>_. linearizable_init), streams = linearizable_init,
     index_heap = [], stream_heap = []\<rparr>"

text \<open>\<open>OFFSET1\<close> to \<open>OFFSET8\<close>, and the switch on \<open>index_id / OFFSETMIN\<close>.\<close>

definition idx_offset :: "nat \<Rightarrow> nat" where
  "idx_offset len = OFFSETMIN * 2 ^ (len - 1)"

definition idx_class :: "nat \<Rightarrow> nat option" where
  "idx_class idx =
     (if idx = 1 then Some 1 else if idx = 2 then Some 2 else if idx = 4 then Some 3
      else if idx = 8 then Some 4 else if idx = 16 then Some 5 else if idx = 32 then Some 6
      else if idx = 64 then Some 7 else if idx = 128 then Some 8 else None)"

definition add_index :: "nat \<Rightarrow> log_store \<Rightarrow> (log_store \<times> nat) option" where
  "add_index token_length s =
     (let len = take_bit 16 token_length in
      case new_index len of
        None \<Rightarrow> Some (s, 0)
      | Some ix \<Rightarrow> do {
          (l, i) \<leftarrow> linearizable_push_back nindexes_nb (length (index_heap s)) (idx_log s len);
          Some (s\<lparr>idx_log := (idx_log s)(len := l), index_heap := index_heap s @ [ix]\<rparr>,
                take_bit 32 (idx_offset len + i)) })"

definition add_stream :: "filter_function \<Rightarrow> log_store \<Rightarrow> (log_store \<times> nat) option" where
  "add_stream f s = do {
     (l, i) \<leftarrow> linearizable_push_back nindexes_nb (length (stream_heap s)) (streams s);
     Some (s\<lparr>streams := l, stream_heap := stream_heap s @ [new_streamlog f]\<rparr>, take_bit 32 i) }"

definition request_bytes :: "nat \<Rightarrow> log_store \<Rightarrow> (log_store \<times> nat) option" where
  "request_bytes n s =
     (let off = dtail s; s1 = s\<lparr>dtail := take_bit 64 (off + n)\<rparr> in do {
        d \<leftarrow> lin_ensure_alloc datalog_nb datalog_bs off (take_bit 64 (off + n)) (dlog s1);
        Some (s1\<lparr>dlog := d\<rparr>, off) })"

definition append_record :: "u8 list \<Rightarrow> nat \<Rightarrow> nat \<Rightarrow> log_store \<Rightarrow> log_store option" where
  "append_record rec rec_len offset s =
     (if length rec < rec_len then None
      else do {
        d \<leftarrow> lin_write datalog_nb datalog_bs offset (take rec_len rec) (dlog s);
        Some (s\<lparr>dlog := d\<rparr>) })"

text \<open>The pointer an index identifier selects.\<close>

definition index_ptr :: "nat \<Rightarrow> log_store \<Rightarrow> nat option option" where
  "index_ptr iid s =
     (case idx_class (iid div OFFSETMIN) of
        None \<Rightarrow> Some None
      | Some len \<Rightarrow> do {
          p \<leftarrow> linearizable_at nindexes_nb (iid mod OFFSETMIN) (idx_log s len);
          Some (Some p) })"

definition update_index :: "nat \<Rightarrow> token_t \<Rightarrow> log_store \<Rightarrow> log_store option" where
  "update_index record_id t s = do {
     r \<leftarrow> index_ptr (index_id t) s;
     (case r of
        None \<Rightarrow> Some s
      | Some p \<Rightarrow>
          if p < length (index_heap s) then do {
            ix \<leftarrow> obj_add_entry (token_data t) record_id (index_heap s ! p);
            Some (s\<lparr>index_heap := (index_heap s)[p := ix]\<rparr>) }
          else None) }"

fun update_indexes :: "nat \<Rightarrow> token_t list \<Rightarrow> log_store \<Rightarrow> log_store option" where
  "update_indexes record_id [] s = Some s"
| "update_indexes record_id (t # ts) s = update_index record_id t s \<bind> update_indexes record_id ts"

definition update_stream :: "nat \<Rightarrow> u8 list \<Rightarrow> nat \<Rightarrow> token_t list \<Rightarrow> nat \<Rightarrow> log_store \<Rightarrow> log_store option" where
  "update_stream record_id rec rec_len tokens i s = do {
     p \<leftarrow> linearizable_at nindexes_nb i (streams s);
     (if p < length (stream_heap s) then do {
        sl \<leftarrow> check_and_add record_id rec rec_len tokens (stream_heap s ! p);
        Some (s\<lparr>stream_heap := (stream_heap s)[p := sl]\<rparr>) }
      else None) }"

fun update_streams_from :: "nat list \<Rightarrow> nat \<Rightarrow> u8 list \<Rightarrow> nat \<Rightarrow> token_t list \<Rightarrow> log_store \<Rightarrow> log_store option" where
  "update_streams_from [] record_id rec rec_len tokens s = Some s"
| "update_streams_from (i # is) record_id rec rec_len tokens s =
     update_stream record_id rec rec_len tokens i s \<bind> update_streams_from is record_id rec rec_len tokens"

definition update_streams :: "nat \<Rightarrow> u8 list \<Rightarrow> nat \<Rightarrow> token_t list \<Rightarrow> log_store \<Rightarrow> log_store option" where
  "update_streams record_id rec rec_len tokens s =
     update_streams_from [0..<linearizable_size (streams s)] record_id rec rec_len tokens s"

definition log_insert :: "u8 list \<Rightarrow> nat \<Rightarrow> token_t list \<Rightarrow> log_store \<Rightarrow> (log_store \<times> nat) option" where
  "log_insert rec rec_len tokens s = do {
     (s1, offset) \<leftarrow> request_bytes rec_len s;
     (ol, record_id) \<leftarrow> offset_start offset rec_len (olog_of s1);
     s2 \<leftarrow> append_record rec rec_len offset (s1\<lparr>olog_of := ol\<rparr>);
     s3 \<leftarrow> update_indexes record_id tokens s2;
     s4 \<leftarrow> update_streams record_id rec rec_len tokens s3;
     ol' \<leftarrow> end_one record_id (olog_of s4);
     Some (s4\<lparr>olog_of := ol'\<rparr>, record_id) }"

text \<open>
  \<open>get\<close> and \<open>extract\<close> return false for an invalid identifier (\<open>Some None\<close>), else the bytes copied
  into the caller's buffer; these may be indeterminate.
\<close>

definition log_get :: "nat \<Rightarrow> log_store \<Rightarrow> u8 option list option option" where
  "log_get record_id s =
     (if is_valid record_id (olog_of s) then do {
        (offset, len) \<leftarrow> offset_lookup record_id (olog_of s);
        bytes \<leftarrow> lin_read datalog_nb datalog_bs offset len (dlog s);
        Some (Some bytes) }
      else Some None)"

definition log_extract :: "nat \<Rightarrow> nat \<Rightarrow> nat \<Rightarrow> log_store \<Rightarrow> u8 option list option option" where
  "log_extract record_id offset len s =
     (if is_valid record_id (olog_of s) then do {
        (record_offset, record_length) \<leftarrow> offset_lookup record_id (olog_of s);
        (let len' = min len (take_bit 16 (record_length + (2 ^ 64 - offset))) in do {
           bytes \<leftarrow> lin_read datalog_nb datalog_bs (take_bit 64 (record_offset + offset)) len' (dlog s);
           Some (Some bytes) }) }
      else Some None)"

definition log_filter_max :: "nat \<Rightarrow> nat \<Rightarrow> nat \<Rightarrow> nat \<Rightarrow> log_store \<Rightarrow> filter_result option" where
  "log_filter_max iid tmin tmax mrid s = do {
     r \<leftarrow> index_ptr iid s;
     (case r of
        None \<Rightarrow> Some filter_result_default
      | Some p \<Rightarrow> if p < length (index_heap s)
          then Some \<lparr>fr_index = Some (index_heap s ! p), tok_min = tmin, tok_max = tmax, max_rid = mrid\<rparr>
          else None) }"

definition num_records :: "log_store \<Rightarrow> nat" where
  "num_records s = num_ids (olog_of s)"

definition log_filter :: "nat \<Rightarrow> nat \<Rightarrow> nat \<Rightarrow> log_store \<Rightarrow> filter_result option" where
  "log_filter iid tmin tmax s = log_filter_max iid tmin tmax (num_records s) s"

definition get_stream :: "nat \<Rightarrow> log_store \<Rightarrow> entry_list option" where
  "get_stream stream_id s = do {
     p \<leftarrow> linearizable_at nindexes_nb stream_id (streams s);
     (if p < length (stream_heap s) then Some (stream_log (stream_heap s ! p)) else None) }"

definition log_size :: "log_store \<Rightarrow> nat" where
  "log_size s = dtail s"

subsection \<open>Counting and sweeping\<close>

text \<open>\<open>for (uint64_t i = tok_min; i <= tok_max; i++)\<close>, which never ends for the largest \<open>tok_max\<close>.\<close>

partial_function (option) filter_count_from :: "index_obj \<Rightarrow> nat \<Rightarrow> nat \<Rightarrow> nat \<Rightarrow> nat option" where
  "filter_count_from ix i tmax acc =
     (if i \<le> tmax then do {
        l \<leftarrow> obj_at i ix;
        filter_count_from ix (take_bit 64 (i + 1)) tmax
          (case l of None \<Rightarrow> acc | Some es \<Rightarrow> take_bit 64 (acc + el_size es)) }
      else Some acc)"

definition filter_count :: "nat \<Rightarrow> nat \<Rightarrow> nat \<Rightarrow> log_store \<Rightarrow> nat option" where
  "filter_count iid tmin tmax s = do {
     r \<leftarrow> index_ptr iid s;
     (case r of
        None \<Rightarrow> Some 0
      | Some p \<Rightarrow> if p < length (index_heap s)
          then filter_count_from (index_heap s ! p) tmin tmax 0 else None) }"

text \<open>\<open>populate_results\<close> and \<open>sweep_list\<close> insert identifiers into an unordered set.\<close>

definition populate_results :: "nat set \<Rightarrow> filter_result \<Rightarrow> nat set option" where
  "populate_results results fr = do { vs \<leftarrow> filter_iterate fr; Some (results \<union> set vs) }"

fun sweep_from :: "nat list \<Rightarrow> entry_list \<Rightarrow> nat \<Rightarrow> nat set \<Rightarrow> nat set option" where
  "sweep_from [] l mrid results = Some results"
| "sweep_from (i # is) l mrid results = do {
     record_id \<leftarrow> el_at i l;
     sweep_from is l mrid (if is_valid_max record_id mrid then insert record_id results else results) }"

definition sweep_list :: "nat set \<Rightarrow> entry_list \<Rightarrow> nat \<Rightarrow> nat set option" where
  "sweep_list results l mrid = sweep_from [0..<el_size l] l mrid results"

subsection \<open>Storage statistics\<close>

record logstore_storage =
  dlog_size :: nat
  olog_size :: nat
  idx_sizes :: "nat list"
  stream_sizes :: "nat list"

definition storage_total :: "logstore_storage \<Rightarrow> nat" where
  "storage_total st = dlog_size st + olog_size st + sum_list (idx_sizes st) + sum_list (stream_sizes st)"

definition el_storage_size :: "entry_list \<Rightarrow> nat" where
  "el_storage_size l = storage_size entry_list_nbuckets 8 l"

fun obj_storage_size :: "index_obj \<Rightarrow> nat" where
  "obj_storage_size (Index1 ix) = d1_storage_size 256 el_storage_size ix"
| "obj_storage_size (Index2 ix) = d1_storage_size 65536 el_storage_size ix"
| "obj_storage_size (Index3 ix) = d2_storage_size 65536 256 el_storage_size ix"
| "obj_storage_size (Index4 ix) = d2_storage_size 65536 65536 el_storage_size ix"
| "obj_storage_size (Index5 ix) = d3_storage_size 65536 65536 256 el_storage_size ix"
| "obj_storage_size (Index6 ix) = d3_storage_size 65536 65536 65536 el_storage_size ix"
| "obj_storage_size (Index7 ix) = d4_storage_size 65536 65536 65536 256 el_storage_size ix"
| "obj_storage_size (Index8 ix) = d4_storage_size 65536 65536 65536 65536 el_storage_size ix"

definition ptr_sizes :: "nat monolog_linearizable \<Rightarrow> ('o \<Rightarrow> nat) \<Rightarrow> 'o list \<Rightarrow> nat list option" where
  "ptr_sizes l size_fn heap =
     those (map (\<lambda>i. do {
       p \<leftarrow> linearizable_at nindexes_nb i l;
       (if p < length heap then Some (size_fn (heap ! p)) else None) }) [0..<linearizable_size l])"

definition storage_footprint :: "log_store \<Rightarrow> logstore_storage option" where
  "storage_footprint s = do {
     idx \<leftarrow> those (map (\<lambda>len. ptr_sizes (idx_log s len) obj_storage_size (index_heap s)) [1..<9]);
     st \<leftarrow> ptr_sizes (streams s) (\<lambda>sl. el_storage_size (stream_log sl)) (stream_heap s);
     Some \<lparr>dlog_size = lin_storage_size datalog_nb datalog_bs 1 (dlog s),
           olog_size = offset_storage_size (olog_of s), idx_sizes = concat idx, stream_sizes = st\<rparr> }"

subsection \<open>Handles\<close>

text \<open>A handle of a writer: it takes identifiers and bytes from the store in blocks.\<close>

record handle =
  data_block_size :: nat
  id_block_size :: nat
  cur_id :: nat
  remaining_ids :: nat
  cur_offset :: nat
  remaining_bytes :: nat

definition new_handle :: "nat \<Rightarrow> nat \<Rightarrow> handle" where
  "new_handle request_batch_size dbs = \<lparr>data_block_size = dbs, id_block_size = request_batch_size,
     cur_id = 0, remaining_ids = 0, cur_offset = 0, remaining_bytes = 0\<rparr>"

definition get_handle :: handle where
  "get_handle = new_handle 32 (32 * 40)"

definition handle_ids :: "handle \<Rightarrow> log_store \<Rightarrow> (handle \<times> log_store) option" where
  "handle_ids h s =
     (if remaining_ids h = 0 then do {
        (ol, start) \<leftarrow> request_id_block (id_block_size h) (olog_of s);
        Some (h\<lparr>cur_id := start, remaining_ids := id_block_size h\<rparr>, s\<lparr>olog_of := ol\<rparr>) }
      else Some (h, s))"

definition handle_bytes :: "nat \<Rightarrow> handle \<Rightarrow> log_store \<Rightarrow> (handle \<times> log_store) option" where
  "handle_bytes rec_len h s =
     (if remaining_bytes h < rec_len then do {
        (s', off) \<leftarrow> request_bytes (data_block_size h) s;
        Some (h\<lparr>cur_offset := off, remaining_bytes := data_block_size h\<rparr>, s') }
      else Some (h, s))"

definition handle_insert :: "u8 list \<Rightarrow> nat \<Rightarrow> token_t list \<Rightarrow> handle \<Rightarrow> log_store \<Rightarrow>
    ((handle \<times> log_store) \<times> nat) option" where
  "handle_insert rec rec_len tkns h s = do {
     (h1, s1) \<leftarrow> handle_ids h s;
     (h2, s2) \<leftarrow> handle_bytes rec_len h1 s1;
     s3 \<leftarrow> append_record rec rec_len (cur_offset h2) s2;
     s4 \<leftarrow> update_indexes (cur_id h2) tkns s3;
     s5 \<leftarrow> update_streams (cur_id h2) rec rec_len tkns s4;
     ol1 \<leftarrow> offset_set (cur_id h2) (cur_offset h2) rec_len (olog_of s5);
     ol2 \<leftarrow> end_one (cur_id h2) ol1;
     (let h3 = h2\<lparr>remaining_ids := take_bit 64 (remaining_ids h2 + (2 ^ 64 - 1)),
                  cur_offset := take_bit 64 (cur_offset h2 + rec_len),
                  cur_id := take_bit 64 (cur_id h2 + 1)\<rparr>
      in Some ((h3, s5\<lparr>olog_of := ol2\<rparr>), cur_id h3)) }"

section \<open>The indexes of a store\<close>

text \<open>
  Every index pointer leads to an index of the class its identifier names, no two
  identifiers share an index, and the logs hold nothing behind their ends.
\<close>

definition indexes_ok :: "log_store \<Rightarrow> bool" where
  "indexes_ok s \<longleftrightarrow>
     (\<forall>iid p. index_ptr iid s = Some (Some p) \<longrightarrow> p < length (index_heap s) \<and> obj_ok (index_heap s ! p)
        \<and> idx_class (iid div OFFSETMIN) = Some (obj_bytes (index_heap s ! p)))
     \<and> (\<forall>i j p. index_ptr i s = Some (Some p) \<longrightarrow> index_ptr j s = Some (Some p) \<longrightarrow> i = j)
     \<and> (\<forall>len. linearizable_invar nindexes_nb (idx_log s len)
          \<and> (\<forall>i. linearizable_size (idx_log s len) \<le> i \<longrightarrow> i < OFFSETMIN \<longrightarrow>
                linearizable_at nindexes_nb i (idx_log s len) = None))"

text \<open>The record identifiers an index has for a token.\<close>

definition index_entries :: "nat \<Rightarrow> nat \<Rightarrow> log_store \<Rightarrow> nat list" where
  "index_entries iid k s =
     (case index_ptr iid s of Some (Some p) \<Rightarrow> obj_list k (index_heap s ! p) | _ \<Rightarrow> [])"

definition key_fits :: "nat \<Rightarrow> nat \<Rightarrow> bool" where
  "key_fits iid k \<longleftrightarrow> (case idx_class (iid div OFFSETMIN) of None \<Rightarrow> True | Some n \<Rightarrow> k < 256 ^ n)"

text \<open>A token names an index that exists (or none), and its key has the index's length.\<close>

definition token_fits :: "token_t \<Rightarrow> log_store \<Rightarrow> bool" where
  "token_fits t s \<longleftrightarrow> index_ptr (index_id t) s \<noteq> None \<and> key_fits (index_id t) (token_data t)"

definition token_entries :: "nat \<Rightarrow> nat \<Rightarrow> nat \<Rightarrow> token_t list \<Rightarrow> nat list" where
  "token_entries iid k rid ts = concat (map (\<lambda>t. if index_id t = iid \<and> token_data t = k then [rid] else []) ts)"

lemma indexes_okD:
  assumes "indexes_ok s" "index_ptr iid s = Some (Some p)"
  shows "p < length (index_heap s)" "obj_ok (index_heap s ! p)"
    "idx_class (iid div OFFSETMIN) = Some (obj_bytes (index_heap s ! p))"
    "index_ptr j s = Some (Some p) \<Longrightarrow> j = iid"
  using assms unfolding indexes_ok_def by blast+

lemma index_ptr_heap [simp]: "index_ptr iid (s\<lparr>index_heap := h\<rparr>) = index_ptr iid s"
  by (simp add: index_ptr_def split: option.split)

lemma index_entries_none: "index_ptr iid s = Some None \<Longrightarrow> index_entries iid k s = []"
  by (simp add: index_entries_def)

lemma update_index_spec:
  assumes ok: "indexes_ok s" and t: "token_fits t s"
    and room: "list_room (length (index_entries (index_id t) (token_data t) s))"
  shows "\<exists>h. update_index rid t s = Some (s\<lparr>index_heap := h\<rparr>) \<and> indexes_ok (s\<lparr>index_heap := h\<rparr>)
    \<and> (\<forall>iid k. index_ptr iid s \<noteq> Some None \<longrightarrow> key_fits iid k \<longrightarrow>
        index_entries iid k (s\<lparr>index_heap := h\<rparr>) = index_entries iid k s @ token_entries iid k rid [t])"
proof -
  obtain r where r: "index_ptr (index_id t) s = Some r" using t by (auto simp: token_fits_def)
  show ?thesis
  proof (cases r)
    case None
    have "index_entries iid k s = index_entries iid k s @ token_entries iid k rid [t]"
      if "index_ptr iid s \<noteq> Some None" for iid k
      using that r None by (auto simp: token_entries_def)
    then show ?thesis
      using ok r None by (intro exI [of _ "index_heap s"]) (simp add: update_index_def)
  next
    case (Some p)
    let ?ix = "index_heap s ! p" and ?k = "token_data t"
    have p: "p < length (index_heap s)" "obj_ok ?ix" "idx_class (index_id t div OFFSETMIN) = Some (obj_bytes ?ix)"
      using ok r Some by (auto simp: indexes_ok_def)
    have k: "obj_covers ?k ?ix" using t p(3) by (simp add: token_fits_def key_fits_def obj_covers_iff)
    obtain ix' where ix': "obj_add_entry ?k rid ?ix = Some ix'" "obj_ok ix'" "obj_bytes ix' = obj_bytes ?ix"
      "\<forall>k'. obj_covers k' ?ix \<longrightarrow> obj_list k' ix' = (if k' = ?k then obj_list ?k ?ix @ [rid] else obj_list k' ?ix)"
      using obj_add_entry_cases [OF k p(2), of rid] room r Some by (auto simp: index_entries_def)
    let ?h = "(index_heap s)[p := ix']"
    have "update_index rid t s = Some (s\<lparr>index_heap := ?h\<rparr>)"
      using r Some p(1) ix'(1) by (simp add: update_index_def)
    moreover have "indexes_ok (s\<lparr>index_heap := ?h\<rparr>)"
      using ok p ix' unfolding indexes_ok_def by (simp add: nth_list_update)
    moreover have "index_entries iid k (s\<lparr>index_heap := ?h\<rparr>) = index_entries iid k s @ token_entries iid k rid [t]"
      if fits: "index_ptr iid s \<noteq> Some None" "key_fits iid k" for iid k
    proof (cases "index_ptr iid s = Some (Some p)")
      case True
      then have iid: "iid = index_id t" using ok r Some unfolding indexes_ok_def by blast
      then have "obj_covers k ?ix" using fits(2) p(3) by (simp add: key_fits_def obj_covers_iff)
      then show ?thesis
        using True iid p(1) ix'(4) by (auto simp: index_entries_def token_entries_def)
    next
      case False
      then have "iid \<noteq> index_id t" using r Some by auto
      then show ?thesis
        using False by (auto simp: index_entries_def token_entries_def split: option.split)
    qed
    ultimately show ?thesis by blast
  qed
qed

text \<open>Room for all the tokens of a record, whichever lists they go to.\<close>

definition tokens_room :: "token_t list \<Rightarrow> log_store \<Rightarrow> bool" where
  "tokens_room ts s \<longleftrightarrow> (\<forall>t \<in> set ts. token_fits t s
     \<and> length (index_entries (index_id t) (token_data t) s) + length ts \<le> 2 ^ 28 - 16)"

lemma length_token_entries_le: "length (token_entries iid k rid ts) \<le> length ts"
  by (induction ts) (auto simp: token_entries_def)

lemma update_indexes_spec:
  assumes "indexes_ok s" "tokens_room ts s"
  shows "\<exists>h. update_indexes rid ts s = Some (s\<lparr>index_heap := h\<rparr>) \<and> indexes_ok (s\<lparr>index_heap := h\<rparr>)
    \<and> (\<forall>iid k. index_ptr iid s \<noteq> Some None \<longrightarrow> key_fits iid k \<longrightarrow>
        index_entries iid k (s\<lparr>index_heap := h\<rparr>) = index_entries iid k s @ token_entries iid k rid ts)"
  using assms
proof (induction ts arbitrary: s)
  case Nil
  then show ?case by (intro exI [of _ "index_heap s"]) (simp add: token_entries_def)
next
  case (Cons t ts)
  have t: "token_fits t s" and room: "list_room (length (index_entries (index_id t) (token_data t) s))"
    using Cons.prems(2) by (auto simp: tokens_room_def list_room_iff)
  obtain h where h: "update_index rid t s = Some (s\<lparr>index_heap := h\<rparr>)" "indexes_ok (s\<lparr>index_heap := h\<rparr>)"
    and e: "\<And>iid k. index_ptr iid s \<noteq> Some None \<Longrightarrow> key_fits iid k \<Longrightarrow>
        index_entries iid k (s\<lparr>index_heap := h\<rparr>) = index_entries iid k s @ token_entries iid k rid [t]"
    using update_index_spec [OF Cons.prems(1) t room, of rid] by blast
  have "tokens_room ts (s\<lparr>index_heap := h\<rparr>)"
    unfolding tokens_room_def
  proof
    fix u assume u: "u \<in> set ts"
    have fu: "token_fits u s" and lu: "length (index_entries (index_id u) (token_data u) s) + Suc (length ts) \<le> 2 ^ 28 - 16"
      using Cons.prems(2) u by (auto simp: tokens_room_def)
    have "length (index_entries (index_id u) (token_data u) (s\<lparr>index_heap := h\<rparr>))
        \<le> Suc (length (index_entries (index_id u) (token_data u) s))"
      using e [of "index_id u" "token_data u"] fu length_token_entries_le [of _ _ rid "[t]"]
      by (cases "index_ptr (index_id u) s = Some None") (auto simp: token_fits_def index_entries_def)
    then show "token_fits u (s\<lparr>index_heap := h\<rparr>) \<and>
        length (index_entries (index_id u) (token_data u) (s\<lparr>index_heap := h\<rparr>)) + length ts \<le> 2 ^ 28 - 16"
      using fu lu by (simp add: token_fits_def)
  qed
  then obtain h' where h': "update_indexes rid ts (s\<lparr>index_heap := h\<rparr>) = Some (s\<lparr>index_heap := h'\<rparr>)"
      "indexes_ok (s\<lparr>index_heap := h'\<rparr>)"
    and e': "\<And>iid k. index_ptr iid s \<noteq> Some None \<Longrightarrow> key_fits iid k \<Longrightarrow>
        index_entries iid k (s\<lparr>index_heap := h'\<rparr>) = index_entries iid k (s\<lparr>index_heap := h\<rparr>) @ token_entries iid k rid ts"
    using Cons.IH [OF h(2)] by auto
  have "token_entries iid k rid [t] @ token_entries iid k rid ts = token_entries iid k rid (t # ts)" for iid k
    by (simp add: token_entries_def)
  then show ?case using h(1) h' e e' by (intro exI [of _ h']) simp
qed

section \<open>The streams of a store\<close>

text \<open>Stream \<open>i\<close> is the \<open>i\<close>-th stream created, and its list is complete.\<close>

definition streams_ok :: "log_store \<Rightarrow> bool" where
  "streams_ok s \<longleftrightarrow> linearizable_invar nindexes_nb (streams s)
     \<and> linearizable_contents nindexes_nb (streams s) = [0..<length (stream_heap s)]
     \<and> (\<forall>sl \<in> set (stream_heap s). relaxed_invar entry_list_nbuckets (stream_log sl))"

definition streams_room :: "log_store \<Rightarrow> bool" where
  "streams_room s \<longleftrightarrow>
     (\<forall>sl \<in> set (stream_heap s). list_room (length (relaxed_contents entry_list_nbuckets (stream_log sl))))"

definition stream_entries :: "streamlog \<Rightarrow> nat list" where
  "stream_entries sl = relaxed_contents entry_list_nbuckets (stream_log sl)"

definition stream_adds :: "nat \<Rightarrow> u8 list \<Rightarrow> nat \<Rightarrow> token_t list \<Rightarrow> streamlog \<Rightarrow> nat list" where
  "stream_adds rid rec rec_len ts sl =
     (case fn sl rid rec rec_len ts of (keep, rid') \<Rightarrow> if keep then [rid'] else [])"

lemma check_and_add_spec:
  assumes "relaxed_invar entry_list_nbuckets (stream_log sl)" "list_room (length (stream_entries sl))"
  shows "\<exists>sl'. check_and_add rid rec rec_len ts sl = Some sl' \<and> fn sl' = fn sl
    \<and> relaxed_invar entry_list_nbuckets (stream_log sl')
    \<and> stream_entries sl' = stream_entries sl @ stream_adds rid rec rec_len ts sl"
proof (cases "fn sl rid rec rec_len ts")
  case (Pair keep rid')
  have "valid_index entry_list_nbuckets (length (relaxed_contents entry_list_nbuckets (stream_log sl)))"
    using assms(2) by (simp add: list_room_def stream_entries_def)
  then obtain l where l: "relaxed_push_back entry_list_nbuckets rid' (stream_log sl)
      = Some (l, length (relaxed_contents entry_list_nbuckets (stream_log sl)))"
    "relaxed_invar entry_list_nbuckets l"
    "relaxed_contents entry_list_nbuckets l = relaxed_contents entry_list_nbuckets (stream_log sl) @ [rid']"
    using relaxed.push_ok [OF assms(1)] by blast
  show ?thesis
    using Pair l assms(1)
    by (cases keep) (simp_all add: check_and_add_def el_push_back_def stream_entries_def stream_adds_def)
qed

text \<open>The streams from \<open>i\<close> on are each updated once.\<close>

lemma update_streams_from_spec:
  assumes "\<forall>j < length (stream_heap s). linearizable_at nindexes_nb j (streams s) = Some j"
    and "\<forall>sl \<in> set (stream_heap s). relaxed_invar entry_list_nbuckets (stream_log sl)"
    and "\<forall>j. i \<le> j \<longrightarrow> j < length (stream_heap s) \<longrightarrow> list_room (length (stream_entries (stream_heap s ! j)))"
  shows "\<exists>h. update_streams_from [i..<length (stream_heap s)] rid rec rec_len ts s = Some (s\<lparr>stream_heap := h\<rparr>)
    \<and> length h = length (stream_heap s)
    \<and> (\<forall>sl \<in> set h. relaxed_invar entry_list_nbuckets (stream_log sl))
    \<and> (\<forall>j < length h. fn (h ! j) = fn (stream_heap s ! j) \<and> stream_entries (h ! j) = stream_entries (stream_heap s ! j)
         @ (if i \<le> j then stream_adds rid rec rec_len ts (stream_heap s ! j) else []))"
  using assms
proof (induction "length (stream_heap s) - i" arbitrary: i s)
  case 0
  then show ?case by (intro exI [of _ "stream_heap s"]) simp
next
  case (Suc n)
  let ?h = "stream_heap s"
  have i: "i < length ?h" using Suc.hyps(2) by simp
  then have upt: "[i..<length ?h] = i # [Suc i..<length ?h]" by (simp add: upt_conv_Cons)
  have inv_i: "relaxed_invar entry_list_nbuckets (stream_log (?h ! i))" using Suc.prems(2) i by simp
  have room_i: "list_room (length (stream_entries (?h ! i)))" using Suc.prems(3) i by simp
  obtain sl' where sl': "check_and_add rid rec rec_len ts (?h ! i) = Some sl'" "fn sl' = fn (?h ! i)"
    "relaxed_invar entry_list_nbuckets (stream_log sl')"
    "stream_entries sl' = stream_entries (?h ! i) @ stream_adds rid rec rec_len ts (?h ! i)"
    using check_and_add_spec [OF inv_i room_i, of rid rec rec_len ts] by (elim exE conjE)
  let ?s = "s\<lparr>stream_heap := ?h[i := sl']\<rparr>"
  have step: "update_stream rid rec rec_len ts i s = Some ?s"
    using Suc.prems(1) i sl'(1) by (simp add: update_stream_def)
  have "set (?h[i := sl']) \<subseteq> insert sl' (set ?h)" by (rule set_update_subset_insert)
  then have inv: "\<forall>sl \<in> set (stream_heap ?s). relaxed_invar entry_list_nbuckets (stream_log sl)"
    using Suc.prems(2) sl'(3) by auto
  have "\<exists>h. update_streams_from [Suc i..<length (stream_heap ?s)] rid rec rec_len ts ?s = Some (?s\<lparr>stream_heap := h\<rparr>)
    \<and> length h = length (stream_heap ?s)
    \<and> (\<forall>sl \<in> set h. relaxed_invar entry_list_nbuckets (stream_log sl))
    \<and> (\<forall>j < length h. fn (h ! j) = fn (stream_heap ?s ! j) \<and> stream_entries (h ! j) = stream_entries (stream_heap ?s ! j)
         @ (if Suc i \<le> j then stream_adds rid rec rec_len ts (stream_heap ?s ! j) else []))"
    by (rule Suc.hyps(1)) (use Suc.hyps(2) Suc.prems(1,3) inv in \<open>auto simp: nth_list_update\<close>)
  then obtain h where h: "update_streams_from [Suc i..<length ?h] rid rec rec_len ts ?s = Some (s\<lparr>stream_heap := h\<rparr>)"
    "length h = length ?h" "\<forall>sl \<in> set h. relaxed_invar entry_list_nbuckets (stream_log sl)"
    "\<forall>j < length h. fn (h ! j) = fn (?h[i := sl'] ! j) \<and> stream_entries (h ! j) = stream_entries (?h[i := sl'] ! j)
         @ (if Suc i \<le> j then stream_adds rid rec rec_len ts (?h[i := sl'] ! j) else [])"
    by auto
  have "fn (h ! j) = fn (?h ! j) \<and> stream_entries (h ! j) = stream_entries (?h ! j)
         @ (if i \<le> j then stream_adds rid rec rec_len ts (?h ! j) else [])" if "j < length h" for j
    using h(2,4) that sl' i by (cases "j = i") auto
  then show ?case
    using h(1-3) step unfolding upt by (intro exI [of _ h]) simp
qed

lemma update_streams_spec:
  assumes "streams_ok s" "streams_room s"
  shows "\<exists>h. update_streams rid rec rec_len ts s = Some (s\<lparr>stream_heap := h\<rparr>) \<and> streams_ok (s\<lparr>stream_heap := h\<rparr>)
    \<and> length h = length (stream_heap s)
    \<and> (\<forall>j < length h. fn (h ! j) = fn (stream_heap s ! j)
         \<and> stream_entries (h ! j) = stream_entries (stream_heap s ! j) @ stream_adds rid rec rec_len ts (stream_heap s ! j))"
proof -
  have inv: "linearizable_invar nindexes_nb (streams s)" and
    c: "linearizable_contents nindexes_nb (streams s) = [0..<length (stream_heap s)]"
    using assms(1) by (auto simp: streams_ok_def)
  have size: "linearizable_size (streams s) = length (stream_heap s)"
    using linearizable.size_contents [OF inv] c by simp
  have at: "\<forall>j < length (stream_heap s). linearizable_at nindexes_nb j (streams s) = Some j"
    using linearizable.at_contents [OF inv] c by simp
  show ?thesis
    using update_streams_from_spec [OF at, of 0 rid rec rec_len ts] assms size
    by (auto simp: update_streams_def streams_ok_def streams_room_def stream_entries_def)
qed

section \<open>The store as a list of records\<close>

text \<open>
  Between insertions all identifiers handed out are published; every record lies inside the
  part of the data log handed out, in an allocated block, with all its bytes written.
\<close>

definition record_at :: "nat \<Rightarrow> log_store \<Rightarrow> u8 option list option" where
  "record_at i s = do {
     (offset, len) \<leftarrow> offset_lookup i (olog_of s);
     lin_read datalog_nb datalog_bs offset len (dlog s) }"

definition records_ok :: "log_store \<Rightarrow> bool" where
  "records_ok s \<longleftrightarrow>
     (\<forall>i < num_records s. \<exists>offset len rec. offset_lookup i (olog_of s) = Some (offset, len)
        \<and> offset + len \<le> dtail s \<and> blocks (dlog s) (offset div datalog_bs) \<noteq> None
        \<and> record_at i s = Some (map Some rec))"

definition store_ok :: "log_store \<Rightarrow> bool" where
  "store_ok s \<longleftrightarrow> current_write_id (olog_of s) = current_read_id (olog_of s)
     \<and> num_records s \<le> 2 ^ 34 \<and> dtail s < 2 ^ 40 \<and> records_ok s"

definition the_record :: "nat \<Rightarrow> log_store \<Rightarrow> u8 list" where
  "the_record i s = map the (the (record_at i s))"

definition store_records :: "log_store \<Rightarrow> u8 list list" where
  "store_records s = map (\<lambda>i. the_record i s) [0..<num_records s]"

subsection \<open>The steps of an insertion\<close>

lemma lin_read_cong:
  assumes "blocks m (off div bs) \<noteq> None" "blocks m' (off div bs) \<noteq> None"
    and "block_cells (off div bs) m' = block_cells (off div bs) m"
  shows "lin_read nb bs off n m' = lin_read nb bs off n m"
  using assms by (auto simp: lin_read_def lin_copy_out_def lin_load_def block_cells_def)

lemma request_bytes_spec:
  assumes "dtail s + n < 2 ^ 40"
  shows "\<exists>d. request_bytes n s = Some (s\<lparr>dtail := dtail s + n, dlog := d\<rparr>, dtail s)
    \<and> (\<forall>b. blocks (dlog s) b \<noteq> None \<longrightarrow> blocks d b \<noteq> None)
    \<and> (\<forall>b. block_cells b d = block_cells b (dlog s))"
proof -
  have wrap: "take_bit 64 (dtail s + n) = dtail s + n" using assms by (intro take_bit_64_id) simp
  have room: "(dtail s + n) div datalog_bs < datalog_nb"
    using assms by (simp add: datalog_bs_def datalog_nb_def div_less_iff_less_mult)
  show ?thesis
    using lin_alloc_range_spec [OF room, of "dtail s div datalog_bs" "dlog s"]
    by (auto simp: request_bytes_def Let_def wrap lin_ensure_alloc_def)
qed

lemma offset_start_spec:
  assumes "id_room (current_write_id l)"
  shows "\<exists>l'. offset_start off len l = Some (l', current_write_id l)
    \<and> current_write_id l' = current_write_id l + 1 \<and> current_read_id l' = current_read_id l
    \<and> offset_lookup (current_write_id l) l' = Some (take_bit 48 off, take_bit 16 len)
    \<and> (\<forall>j. id_room j \<longrightarrow> j \<noteq> current_write_id l \<longrightarrow> offset_lookup j l' = offset_lookup j l)"
proof -
  let ?i = "current_write_id l"
  have v: "lin_valid offlens_nb offlens_bs ?i" using assms by (simp add: id_room_valid)
  obtain ol where ol: "lin_set offlens_nb offlens_bs ?i (pack_offlen off len) (offlens l) = Some ol"
    using lin_set_total [OF v] by (rule exE)
  have "take_bit 64 (?i + 1) = ?i + 1" using assms by (intro take_bit_64_id) (simp add: id_room_bound)
  then show ?thesis
    using ol linear_array.get_set_same [OF v ol] linear_array.get_set_other [OF v _ _ ol]
    by (auto simp: offset_start_def Let_def offset_set_def offset_lookup_def unpack_pack id_room_valid)
qed

lemma append_record_spec:
  assumes "run_fits datalog_nb datalog_bs off n" "n \<le> length rec"
  shows "\<exists>d. append_record rec n off s = Some (s\<lparr>dlog := d\<rparr>)
    \<and> lin_read datalog_nb datalog_bs off n d = Some (map Some (take n rec))
    \<and> blocks d (off div datalog_bs) \<noteq> None
    \<and> (\<forall>b. blocks (dlog s) b \<noteq> None \<longrightarrow> blocks d b \<noteq> None)
    \<and> (\<forall>o' k. o' + k \<le> off \<longrightarrow> blocks (dlog s) (o' div datalog_bs) \<noteq> None \<longrightarrow>
          lin_read datalog_nb datalog_bs o' k d = lin_read datalog_nb datalog_bs o' k (dlog s))"
proof -
  let ?r = "take n rec"
  have len: "length ?r = n" using assms(2) by simp
  have fits: "run_fits datalog_nb datalog_bs off (length ?r)" using assms(1) len by simp
  define d where "d = (dlog s)\<lparr>blocks := (blocks (dlog s))(off div datalog_bs \<mapsto>
      overlay (off mod datalog_bs) ?r (block_cells (off div datalog_bs) (dlog s)))\<rparr>"
  have w: "lin_write datalog_nb datalog_bs off ?r (dlog s) = Some d"
    using fits by (simp add: run_fits_def lin_write_eq d_def)
  have "lin_read datalog_nb datalog_bs off n d = Some (map Some ?r)"
    using fits overlay_read [of "off mod datalog_bs" ?r] len
    by (simp add: d_def run_fits_def lin_read_def lin_copy_out_def lin_load_def)
  moreover have "lin_read datalog_nb datalog_bs o' k d = lin_read datalog_nb datalog_bs o' k (dlog s)"
    if "o' + k \<le> off" "blocks (dlog s) (o' div datalog_bs) \<noteq> None" for o' k
    using lin_read_write_apart [OF w fits disjoint_runs_apart that(2)] that(1) by blast
  ultimately show ?thesis
    using w assms(2) by (auto simp: append_record_def d_def)
qed

text \<open>Room for one more record of \<open>n\<close> bytes: it ends in its block or the buffer behind it.\<close>

definition insert_room :: "nat \<Rightarrow> token_t list \<Rightarrow> log_store \<Rightarrow> bool" where
  "insert_room n ts s \<longleftrightarrow> n < 2 ^ 16 \<and> num_records s < 2 ^ 34 \<and> dtail s + n < 2 ^ 40
     \<and> dtail s mod datalog_bs + n \<le> datalog_bs + BUFFER_SIZE
     \<and> tokens_room ts s \<and> streams_room s"

definition log_store_ok :: "log_store \<Rightarrow> bool" where
  "log_store_ok s \<longleftrightarrow> store_ok s \<and> indexes_ok s \<and> streams_ok s"

lemma heap_updates [simp]:
  "record_at i (s\<lparr>index_heap := h\<rparr>) = record_at i s" "record_at i (s\<lparr>stream_heap := g\<rparr>) = record_at i s"
  by (simp_all add: record_at_def)

lemma index_view_cong:
  assumes "idx_log s' = idx_log s" "index_heap s' = index_heap s"
  shows "index_ptr iid s' = index_ptr iid s" "indexes_ok s' = indexes_ok s"
    "index_entries iid k s' = index_entries iid k s" "tokens_room ts s' = tokens_room ts s"
proof -
  have p: "index_ptr j s' = index_ptr j s" for j
    using assms(1) by (simp add: index_ptr_def split: option.split)
  then show "index_ptr iid s' = index_ptr iid s" .
  show "indexes_ok s' = indexes_ok s" by (simp add: indexes_ok_def p assms)
  have e: "index_entries j k s' = index_entries j k s" for j k
    by (simp add: index_entries_def p assms(2) split: option.split)
  then show "index_entries iid k s' = index_entries iid k s" .
  show "tokens_room ts s' = tokens_room ts s" by (simp add: tokens_room_def token_fits_def p e)
qed

lemma stream_view_cong:
  assumes "streams s' = streams s" "stream_heap s' = stream_heap s"
  shows "streams_ok s' = streams_ok s" "streams_room s' = streams_room s"
  using assms by (simp_all add: streams_ok_def streams_room_def)

text \<open>The data part: space, identifier, bytes.\<close>

lemma insert_data_spec:
  assumes ok: "store_ok s" and n: "n < 2 ^ 16" "n \<le> length rec" and ids: "num_records s < 2 ^ 34"
    and space: "dtail s + n < 2 ^ 40" "dtail s mod datalog_bs + n \<le> datalog_bs + BUFFER_SIZE"
  shows "\<exists>d1 ol d2. request_bytes n s = Some (s\<lparr>dtail := dtail s + n, dlog := d1\<rparr>, dtail s)
    \<and> offset_start (dtail s) n (olog_of s) = Some (ol, num_records s)
    \<and> append_record rec n (dtail s) (s\<lparr>dtail := dtail s + n, dlog := d1, olog_of := ol\<rparr>)
        = Some (s\<lparr>dtail := dtail s + n, dlog := d2, olog_of := ol\<rparr>)
    \<and> current_write_id ol = num_records s + 1 \<and> current_read_id ol = num_records s
    \<and> offset_lookup (num_records s) ol = Some (dtail s, n)
    \<and> lin_read datalog_nb datalog_bs (dtail s) n d2 = Some (map Some (take n rec))
    \<and> blocks d2 (dtail s div datalog_bs) \<noteq> None
    \<and> (\<forall>i < num_records s. offset_lookup i ol = offset_lookup i (olog_of s))
    \<and> (\<forall>b. blocks (dlog s) b \<noteq> None \<longrightarrow> blocks d2 b \<noteq> None)
    \<and> (\<forall>o' k. o' + k \<le> dtail s \<longrightarrow> blocks (dlog s) (o' div datalog_bs) \<noteq> None \<longrightarrow>
          lin_read datalog_nb datalog_bs o' k d2 = lin_read datalog_nb datalog_bs o' k (dlog s))"
proof -
  have w: "current_write_id (olog_of s) = num_records s" "current_read_id (olog_of s) = num_records s"
    using ok by (auto simp: store_ok_def num_records_def num_ids_def)
  obtain d1 where d1: "request_bytes n s = Some (s\<lparr>dtail := dtail s + n, dlog := d1\<rparr>, dtail s)"
    "\<And>b. blocks (dlog s) b \<noteq> None \<Longrightarrow> blocks d1 b \<noteq> None" "\<And>b. block_cells b d1 = block_cells b (dlog s)"
    using request_bytes_spec [OF space(1)] by blast
  have room: "id_room (current_write_id (olog_of s))" using ids w by (simp add: id_room_bound)
  have bits: "take_bit 48 (dtail s) = dtail s" "take_bit 16 n = n"
    using space n by (auto intro!: take_bit_nat_eq_self)
  obtain ol where ol: "offset_start (dtail s) n (olog_of s) = Some (ol, num_records s)"
    "current_write_id ol = num_records s + 1" "current_read_id ol = num_records s"
    "offset_lookup (num_records s) ol = Some (dtail s, n)"
    "\<And>j. id_room j \<Longrightarrow> j \<noteq> num_records s \<Longrightarrow> offset_lookup j ol = offset_lookup j (olog_of s)"
    using offset_start_spec [OF room, of "dtail s" n] unfolding w bits by blast
  let ?s1 = "s\<lparr>dtail := dtail s + n, dlog := d1, olog_of := ol\<rparr>"
  have fits: "run_fits datalog_nb datalog_bs (dtail s) n"
    using space by (simp add: run_fits_def datalog_bs_def datalog_nb_def div_less_iff_less_mult)
  obtain d2 where d2: "append_record rec n (dtail s) ?s1 = Some (?s1\<lparr>dlog := d2\<rparr>)"
    "lin_read datalog_nb datalog_bs (dtail s) n d2 = Some (map Some (take n rec))"
    "blocks d2 (dtail s div datalog_bs) \<noteq> None" "\<And>b. blocks d1 b \<noteq> None \<Longrightarrow> blocks d2 b \<noteq> None"
    "\<And>o' k. o' + k \<le> dtail s \<Longrightarrow> blocks d1 (o' div datalog_bs) \<noteq> None \<Longrightarrow>
          lin_read datalog_nb datalog_bs o' k d2 = lin_read datalog_nb datalog_bs o' k d1"
    using append_record_spec [OF fits n(2), of ?s1] by auto
  have "lin_read datalog_nb datalog_bs o' k d2 = lin_read datalog_nb datalog_bs o' k (dlog s)"
    if "o' + k \<le> dtail s" "blocks (dlog s) (o' div datalog_bs) \<noteq> None" for o' k
    using d2(5) [OF that(1) d1(2) [OF that(2)]] lin_read_cong [OF that(2) d1(2) [OF that(2)] d1(3)] by simp
  moreover have "offset_lookup i ol = offset_lookup i (olog_of s)" if "i < num_records s" for i
    using that ids by (intro ol(5)) (simp_all add: id_room_bound)
  ultimately show ?thesis
    using d1(1,2) ol(1-4) d2(1-4) by (intro exI [of _ d1] exI [of _ ol] exI [of _ d2]) simp
qed

text \<open>A store that has one record more and kept the others.\<close>

lemma records_extend:
  assumes st: "store_ok s" and num: "num_records s' = num_records s + 1" and tail: "dtail s \<le> dtail s'"
    and new: "offset_lookup (num_records s) (olog_of s') = Some (off, n)" "off + n \<le> dtail s'"
      "blocks (dlog s') (off div datalog_bs) \<noteq> None"
      "lin_read datalog_nb datalog_bs off n (dlog s') = Some (map Some r)"
    and look: "\<forall>i < num_records s. offset_lookup i (olog_of s') = offset_lookup i (olog_of s)"
    and alloc: "\<forall>b. blocks (dlog s) b \<noteq> None \<longrightarrow> blocks (dlog s') b \<noteq> None"
    and frame: "\<forall>o' k. o' + k \<le> dtail s \<longrightarrow> blocks (dlog s) (o' div datalog_bs) \<noteq> None \<longrightarrow>
      lin_read datalog_nb datalog_bs o' k (dlog s') = lin_read datalog_nb datalog_bs o' k (dlog s)"
  shows "records_ok s'" "record_at (num_records s) s' = Some (map Some r)"
    "i < num_records s \<Longrightarrow> record_at i s' = record_at i s"
proof -
  show rn: "record_at (num_records s) s' = Some (map Some r)" using new(1,4) by (simp add: record_at_def)
  have old: "record_at i s' = record_at i s \<and> (\<exists>o' k q. offset_lookup i (olog_of s') = Some (o', k) \<and> o' + k \<le> dtail s'
      \<and> blocks (dlog s') (o' div datalog_bs) \<noteq> None \<and> record_at i s' = Some (map Some q))" if i: "i < num_records s" for i
  proof -
    obtain o' k q where o': "offset_lookup i (olog_of s) = Some (o', k)" "o' + k \<le> dtail s"
      "blocks (dlog s) (o' div datalog_bs) \<noteq> None" "record_at i s = Some (map Some q)"
      using st i unfolding store_ok_def records_ok_def by blast
    then have "record_at i s' = record_at i s" using i look frame by (simp add: record_at_def)
    then show ?thesis using o' i look alloc tail by simp
  qed
  then show "i < num_records s \<Longrightarrow> record_at i s' = record_at i s" by blast
  show "records_ok s'"
    unfolding records_ok_def num
  proof (intro allI impI)
    fix i assume "i < num_records s + 1"
    then consider "i < num_records s" | "i = num_records s" by linarith
    then show "\<exists>o' k q. offset_lookup i (olog_of s') = Some (o', k) \<and> o' + k \<le> dtail s'
        \<and> blocks (dlog s') (o' div datalog_bs) \<noteq> None \<and> record_at i s' = Some (map Some q)"
      by cases (use old new rn in blast)+
  qed
qed

lemma log_insert_spec:
  assumes ok: "log_store_ok s" and room: "insert_room n ts s" and n: "n \<le> length rec"
  shows "\<exists>s'. log_insert rec n ts s = Some (s', num_records s) \<and> log_store_ok s'
    \<and> num_records s' = num_records s + 1
    \<and> record_at (num_records s) s' = Some (map Some (take n rec))
    \<and> (\<forall>i < num_records s. record_at i s' = record_at i s)
    \<and> (\<forall>iid. index_ptr iid s' = index_ptr iid s)
    \<and> (\<forall>iid k. index_ptr iid s \<noteq> Some None \<longrightarrow> key_fits iid k \<longrightarrow>
          index_entries iid k s' = index_entries iid k s @ token_entries iid k (num_records s) ts)
    \<and> length (stream_heap s') = length (stream_heap s)
    \<and> (\<forall>j < length (stream_heap s). stream_entries (stream_heap s' ! j) = stream_entries (stream_heap s ! j)
          @ stream_adds (num_records s) rec n ts (stream_heap s ! j))"
proof -
  let ?N = "num_records s"
  have st: "store_ok s" and ix: "indexes_ok s" and str: "streams_ok s"
    using ok by (auto simp: log_store_ok_def)
  obtain d1 ol d2 where d: "request_bytes n s = Some (s\<lparr>dtail := dtail s + n, dlog := d1\<rparr>, dtail s)"
    "offset_start (dtail s) n (olog_of s) = Some (ol, ?N)"
    "append_record rec n (dtail s) (s\<lparr>dtail := dtail s + n, dlog := d1, olog_of := ol\<rparr>)
        = Some (s\<lparr>dtail := dtail s + n, dlog := d2, olog_of := ol\<rparr>)"
    "current_write_id ol = ?N + 1" "current_read_id ol = ?N" "offset_lookup ?N ol = Some (dtail s, n)"
    "lin_read datalog_nb datalog_bs (dtail s) n d2 = Some (map Some (take n rec))"
    "blocks d2 (dtail s div datalog_bs) \<noteq> None"
    "\<forall>i < ?N. offset_lookup i ol = offset_lookup i (olog_of s)"
    "\<forall>b. blocks (dlog s) b \<noteq> None \<longrightarrow> blocks d2 b \<noteq> None"
    "\<forall>o' k. o' + k \<le> dtail s \<longrightarrow> blocks (dlog s) (o' div datalog_bs) \<noteq> None \<longrightarrow>
          lin_read datalog_nb datalog_bs o' k d2 = lin_read datalog_nb datalog_bs o' k (dlog s)"
    using insert_data_spec [OF st _ n] room unfolding insert_room_def by blast
  let ?s2 = "s\<lparr>dtail := dtail s + n, dlog := d2, olog_of := ol\<rparr>"
  note c2 = index_view_cong [of ?s2 s, simplified]
  have t2: "tokens_room ts ?s2" using room c2 by (simp add: insert_room_def)
  obtain h where h: "update_indexes ?N ts ?s2 = Some (?s2\<lparr>index_heap := h\<rparr>)" "indexes_ok (?s2\<lparr>index_heap := h\<rparr>)"
    "\<forall>iid k. index_ptr iid ?s2 \<noteq> Some None \<longrightarrow> key_fits iid k \<longrightarrow>
        index_entries iid k (?s2\<lparr>index_heap := h\<rparr>) = index_entries iid k ?s2 @ token_entries iid k ?N ts"
    using update_indexes_spec [OF c2(2) [THEN iffD2, OF ix] t2] by blast
  let ?s3 = "?s2\<lparr>index_heap := h\<rparr>"
  note c3 = stream_view_cong [of ?s3 s, simplified]
  have r3: "streams_room ?s3" using room c3 by (simp add: insert_room_def)
  obtain g where g: "update_streams ?N rec n ts ?s3 = Some (?s3\<lparr>stream_heap := g\<rparr>)"
    "streams_ok (?s3\<lparr>stream_heap := g\<rparr>)" "length g = length (stream_heap s)"
    "\<forall>j < length g. stream_entries (g ! j) = stream_entries (stream_heap s ! j) @ stream_adds ?N rec n ts (stream_heap s ! j)"
    using update_streams_spec [OF c3(1) [THEN iffD2, OF str] r3, of ?N rec n ts] by auto
  define ol' where "ol' = ol\<lparr>current_read_id := ?N + 1\<rparr>"
  define s' where "s' = ?s3\<lparr>stream_heap := g, olog_of := ol'\<rparr>"
  have "take_bit 64 (?N + 1) = ?N + 1" using room by (intro take_bit_64_id) (simp add: insert_room_def)
  then have ins: "log_insert rec n ts s = Some (s', ?N)"
    using d(1-3,5) h(1) g(1) by (simp add: log_insert_def s'_def ol'_def end_one_def end_block_eq)
  have look: "offset_lookup i ol' = offset_lookup i ol" for i by (simp add: ol'_def offset_lookup_def)
  have num': "num_records s' = ?N + 1" by (simp add: s'_def num_records_def num_ids_def ol'_def)
  have recs: "records_ok s'" "record_at ?N s' = Some (map Some (take n rec))"
      "\<forall>i < ?N. record_at i s' = record_at i s"
    using records_extend [OF st num', of "dtail s" n "take n rec"] d(6-11) look by (simp_all add: s'_def)
  then have "store_ok s'"
    using room num' d(4) by (simp add: store_ok_def insert_room_def s'_def ol'_def)
  moreover have "indexes_ok s'" "index_ptr iid s' = index_ptr iid s"
      "index_entries iid k s' = index_entries iid k ?s3" for iid k
    using index_view_cong [of s' ?s3] h(2) c2(1) by (simp_all add: s'_def)
  moreover have "streams_ok s'" using g(2) stream_view_cong [of s' "?s3\<lparr>stream_heap := g\<rparr>"] by (simp add: s'_def)
  ultimately show ?thesis
    using ins num' recs h(3) g(3,4) c2(1,3) by (intro exI [of _ s']) (simp add: log_store_ok_def s'_def)
qed

section \<open>New indexes and streams\<close>

lemma new_index_ok:
  assumes "new_index len = Some ix"
  shows "obj_ok ix" "obj_bytes ix = len" "obj_covers k ix \<Longrightarrow> obj_list k ix = []" "1 \<le> len" "len \<le> 8"
proof -
  have at: "obj_covers k ix \<Longrightarrow> obj_at k ix = Some None" for k
    using assms d1.at_init d2.at_init d3.at_init d4.at_init by (auto simp: new_index_def split: if_splits)
  then show "obj_ok ix" "obj_covers k ix \<Longrightarrow> obj_list k ix = []"
    by (auto simp: obj_ok_def obj_list_None)
  show "obj_bytes ix = len" "1 \<le> len" "len \<le> 8" using assms by (auto simp: new_index_def split: if_splits)
qed

lemma idx_class_iff: "idx_class c = Some len \<longleftrightarrow> 1 \<le> len \<and> len \<le> 8 \<and> c = 2 ^ (len - 1)"
proof
  assume "1 \<le> len \<and> len \<le> 8 \<and> c = 2 ^ (len - 1)"
  moreover from this have "len \<in> {1, 2, 3, 4, 5, 6, 7, 8}" by auto
  ultimately show "idx_class c = Some len" by (auto simp: idx_class_def)
qed (auto simp: idx_class_def split: if_splits)

lemma idx_offset_split:
  "i < OFFSETMIN \<Longrightarrow> (idx_offset len + i) div OFFSETMIN = 2 ^ (len - 1) \<and> (idx_offset len + i) mod OFFSETMIN = i"
  by (simp add: idx_offset_def OFFSETMIN_def)

lemma linearizable_push_at:
  assumes "linearizable_invar nb l" "valid_index nb (linearizable_size l)"
  shows "\<exists>l'. linearizable_push_back nb v l = Some (l', linearizable_size l) \<and> linearizable_invar nb l'
    \<and> linearizable_contents nb l' = linearizable_contents nb l @ [v]
    \<and> (\<forall>j. valid_index nb j \<longrightarrow> linearizable_at nb j l' = (if j = linearizable_size l then Some v else linearizable_at nb j l))"
proof -
  have v: "valid_index nb (read_tail l)" using assms(2) by (simp add: linearizable_size_def)
  obtain l' where l': "linearizable_push_back nb v l = Some (l', read_tail l)" "linearizable_invar nb l'"
    "linearizable_contents nb l' = linearizable_contents nb l @ [v]"
    using linearizable_push_spec [OF assms(1) v] by blast
  have wt: "write_tail l = read_tail l" using assms(1) by (simp add: linearizable_invar_def)
  obtain m where m: "monolog_set nb (read_tail l) v (l\<lparr>write_tail := take_bit 64 (read_tail l + 1)\<rparr>) = Some m"
    using monolog_set_total [OF v] by (rule exE)
  have "linearizable_at nb j l' = monolog_get nb j m" for j
    using l'(1) m by (auto simp: linearizable_push_back_def wt Let_def publish_loop_eq linearizable_at_def)
  then show ?thesis
    using l' base_array.get_set_at [OF v _ m] by (auto simp: linearizable_size_def linearizable_at_def)
qed

lemma valid_index_1024: "j < OFFSETMIN \<Longrightarrow> valid_index nindexes_nb j"
  by (simp add: valid_index_def nindexes_nb_def OFFSETMIN_def FBS_def FBS_HIBIT_def)

lemma add_index_ptr:
  assumes ok: "indexes_ok s" and ix: "new_index (take_bit 16 tlen) = Some ix"
    and few: "linearizable_size (idx_log s (take_bit 16 tlen)) < OFFSETMIN"
  defines "iid \<equiv> idx_offset (take_bit 16 tlen) + linearizable_size (idx_log s (take_bit 16 tlen))"
  shows "\<exists>l. add_index tlen s = Some (s\<lparr>idx_log := (idx_log s)(take_bit 16 tlen := l), index_heap := index_heap s @ [ix]\<rparr>, iid)
    \<and> linearizable_invar nindexes_nb l
    \<and> (\<forall>i. linearizable_size l \<le> i \<longrightarrow> i < OFFSETMIN \<longrightarrow> linearizable_at nindexes_nb i l = None)
    \<and> (\<forall>j. index_ptr j (s\<lparr>idx_log := (idx_log s)(take_bit 16 tlen := l), index_heap := index_heap s @ [ix]\<rparr>)
        = (if j = iid then Some (Some (length (index_heap s))) else index_ptr j s))"
proof -
  let ?n = "take_bit 16 tlen"
  let ?c = "linearizable_size (idx_log s ?n)"
  have n: "1 \<le> ?n" "?n \<le> 8" using new_index_ok(4,5) [OF ix] .
  have inv: "linearizable_invar nindexes_nb (idx_log s ?n)" using ok by (simp add: indexes_ok_def)
  obtain l where l: "linearizable_push_back nindexes_nb (length (index_heap s)) (idx_log s ?n) = Some (l, ?c)"
    "linearizable_invar nindexes_nb l" "linearizable_contents nindexes_nb l = linearizable_contents nindexes_nb (idx_log s ?n) @ [length (index_heap s)]"
    "\<And>j. valid_index nindexes_nb j \<Longrightarrow> linearizable_at nindexes_nb j l
       = (if j = ?c then Some (length (index_heap s)) else linearizable_at nindexes_nb j (idx_log s ?n))"
    using linearizable_push_at [OF inv valid_index_1024 [OF few], of "length (index_heap s)"] by blast
  have "(2::nat) ^ (?n - 1) \<le> 2 ^ 7" using n by (intro power_increasing) auto
  then have "iid < 4294967296" using few by (simp add: iid_def idx_offset_def OFFSETMIN_def)
  then have ret: "take_bit 32 iid = iid" by (rule take_bit_32_id)
  have add: "add_index tlen s = Some (s\<lparr>idx_log := (idx_log s)(?n := l), index_heap := index_heap s @ [ix]\<rparr>, iid)"
    using ix l(1) ret by (simp add: add_index_def Let_def iid_def)
  have ptr: "index_ptr j (s\<lparr>idx_log := (idx_log s)(?n := l), index_heap := index_heap s @ [ix]\<rparr>)
      = (if j = iid then Some (Some (length (index_heap s))) else index_ptr j s)" for j
  proof -
    have m: "j mod OFFSETMIN < OFFSETMIN" by (simp add: OFFSETMIN_def)
    have eq: "j = iid \<longleftrightarrow> j div OFFSETMIN = 2 ^ (?n - 1) \<and> j mod OFFSETMIN = ?c"
      using idx_offset_split [OF few, of ?n] div_mod_inj [of j OFFSETMIN iid] by (auto simp: iid_def)
    show ?thesis
    proof (cases "idx_class (j div OFFSETMIN) = Some ?n")
      case True
      then have "j = iid \<longleftrightarrow> j mod OFFSETMIN = ?c" using eq idx_class_iff by blast
      then show ?thesis
        using True l(4) [OF valid_index_1024 [OF m]] by (simp add: index_ptr_def)
    next
      case False
      then have "j \<noteq> iid" using eq n idx_class_iff by blast
      then show ?thesis using False by (auto simp: index_ptr_def split: option.split)
    qed
  qed
  have "linearizable_size l = ?c + 1"
    using linearizable.size_contents [OF l(2)] linearizable.size_contents [OF inv] l(3) by simp
  then have "linearizable_at nindexes_nb i l = None" if "linearizable_size l \<le> i" "i < OFFSETMIN" for i
    using ok that l(4) [OF valid_index_1024 [OF that(2)]] by (simp add: indexes_ok_def)
  then show ?thesis using add ptr l(2) by blast
qed

lemma add_index_spec:
  assumes ok: "log_store_ok s" and ix: "new_index (take_bit 16 tlen) = Some ix"
    and few: "linearizable_size (idx_log s (take_bit 16 tlen)) < OFFSETMIN"
  shows "\<exists>s' iid. add_index tlen s = Some (s', iid) \<and> log_store_ok s' \<and> store_records s' = store_records s
    \<and> index_ptr iid s = None \<and> index_ptr iid s' \<noteq> None
    \<and> idx_class (iid div OFFSETMIN) = Some (take_bit 16 tlen)
    \<and> (\<forall>k. key_fits iid k \<longrightarrow> index_entries iid k s' = [])
    \<and> (\<forall>j k. j \<noteq> iid \<longrightarrow> index_ptr j s' = index_ptr j s \<and> index_entries j k s' = index_entries j k s)"
proof -
  let ?n = "take_bit 16 tlen"
  define iid where "iid = idx_offset ?n + linearizable_size (idx_log s ?n)"
  have iok: "indexes_ok s" using ok by (simp add: log_store_ok_def)
  obtain l where l: "add_index tlen s = Some (s\<lparr>idx_log := (idx_log s)(?n := l), index_heap := index_heap s @ [ix]\<rparr>, iid)"
    "linearizable_invar nindexes_nb l"
    "\<forall>i. linearizable_size l \<le> i \<longrightarrow> i < OFFSETMIN \<longrightarrow> linearizable_at nindexes_nb i l = None"
    "\<forall>j. index_ptr j (s\<lparr>idx_log := (idx_log s)(?n := l), index_heap := index_heap s @ [ix]\<rparr>)
        = (if j = iid then Some (Some (length (index_heap s))) else index_ptr j s)"
    using add_index_ptr [OF iok ix few] unfolding iid_def by blast
  define s' where "s' = s\<lparr>idx_log := (idx_log s)(?n := l), index_heap := index_heap s @ [ix]\<rparr>"
  have ptr: "index_ptr j s' = (if j = iid then Some (Some (length (index_heap s))) else index_ptr j s)" for j
    using l(4) by (simp add: s'_def)
  have heap': "index_heap s' = index_heap s @ [ix]" by (simp add: s'_def)
  have cls: "idx_class (iid div OFFSETMIN) = Some ?n"
    using idx_offset_split [OF few] new_index_ok(4,5) [OF ix] by (simp add: iid_def idx_class_iff)
  have "linearizable_at nindexes_nb (linearizable_size (idx_log s ?n)) (idx_log s ?n) = None"
    using iok few by (simp add: indexes_ok_def)
  then have new: "index_ptr iid s = None"
    using cls idx_offset_split [OF few, of ?n] by (simp add: index_ptr_def iid_def)
  have old: "p < length (index_heap s)" if "index_ptr j s = Some (Some p)" for j p
    using iok that by (simp add: indexes_ok_def)
  have "indexes_ok s'"
    unfolding indexes_ok_def
  proof (intro conjI allI impI)
    fix j p assume j: "index_ptr j s' = Some (Some p)"
    have "p < length (index_heap s') \<and> obj_ok (index_heap s' ! p)
        \<and> idx_class (j div OFFSETMIN) = Some (obj_bytes (index_heap s' ! p))"
    proof (cases "j = iid")
      case True
      then show ?thesis using j ptr [of j] cls new_index_ok(1,2) [OF ix] by (simp add: s'_def)
    next
      case False
      then have "index_ptr j s = Some (Some p)" using j ptr [of j] by simp
      from indexes_okD(1-3) [OF iok this] show ?thesis by (simp add: s'_def nth_append)
    qed
    then show "p < length (index_heap s')" "obj_ok (index_heap s' ! p)"
      "idx_class (j div OFFSETMIN) = Some (obj_bytes (index_heap s' ! p))" by simp_all
  next
    fix i j p assume ij: "index_ptr i s' = Some (Some p)" "index_ptr j s' = Some (Some p)"
    show "i = j"
    proof (cases "i = iid \<or> j = iid")
      case True
      then show ?thesis using ij ptr [of i] ptr [of j] old [of i p] old [of j p] by (auto split: if_splits)
    next
      case False
      then show ?thesis using ij ptr [of i] ptr [of j] indexes_okD(4) [OF iok] by simp
    qed
  next
    show "linearizable_invar nindexes_nb (idx_log s' m)" for m
      using l(2) iok by (simp add: s'_def indexes_ok_def)
    show "linearizable_at nindexes_nb i (idx_log s' m) = None"
      if "linearizable_size (idx_log s' m) \<le> i" "i < OFFSETMIN" for m i
      using that l(3) iok by (auto simp: s'_def indexes_ok_def split: if_splits)
  qed
  moreover have "record_at i s' = record_at i s" for i by (simp add: s'_def record_at_def)
  moreover have "num_records s' = num_records s" by (simp add: s'_def num_records_def)
  ultimately have "log_store_ok s'" "store_records s' = store_records s"
    using ok by (simp_all add: log_store_ok_def store_ok_def records_ok_def streams_ok_def
        store_records_def the_record_def s'_def num_records_def)
  moreover have "index_entries iid k s' = []" if "key_fits iid k" for k
    using that cls new_index_ok(2,3) [OF ix]
    by (simp add: index_entries_def ptr heap' key_fits_def obj_covers_iff)
  moreover have "index_entries j k s' = index_entries j k s" if "j \<noteq> iid" for j k
    using that old [of j] by (auto simp: index_entries_def ptr heap' nth_append split: option.split)
  ultimately show ?thesis
    using l(1) new ptr cls by (intro exI [of _ s'] exI [of _ iid]) (simp add: iid_def s'_def)
qed

lemma add_stream_spec:
  assumes ok: "log_store_ok s" and room: "valid_index nindexes_nb (length (stream_heap s))"
    and id: "length (stream_heap s) < 2 ^ 32"
  shows "\<exists>l. add_stream f s = Some (s\<lparr>streams := l, stream_heap := stream_heap s @ [new_streamlog f]\<rparr>, length (stream_heap s))
    \<and> log_store_ok (s\<lparr>streams := l, stream_heap := stream_heap s @ [new_streamlog f]\<rparr>)"
proof -
  have inv: "linearizable_invar nindexes_nb (streams s)"
    and c: "linearizable_contents nindexes_nb (streams s) = [0..<length (stream_heap s)]"
    using ok by (auto simp: log_store_ok_def streams_ok_def)
  have size: "linearizable_size (streams s) = length (stream_heap s)"
    using linearizable.size_contents [OF inv] c by simp
  obtain l where l: "linearizable_push_back nindexes_nb (length (stream_heap s)) (streams s) = Some (l, length (stream_heap s))"
    "linearizable_invar nindexes_nb l" "linearizable_contents nindexes_nb l = [0..<length (stream_heap s)] @ [length (stream_heap s)]"
    using linearizable_push_at [OF inv, of "length (stream_heap s)"] room size c by auto
  let ?s = "s\<lparr>streams := l, stream_heap := stream_heap s @ [new_streamlog f]\<rparr>"
  have "indexes_ok ?s" using index_view_cong(2) [of ?s s] ok by (simp add: log_store_ok_def)
  moreover have "store_ok ?s"
    using ok by (simp add: log_store_ok_def store_ok_def records_ok_def num_records_def record_at_def)
  moreover have "streams_ok ?s"
    using ok l new_entry_list_invar by (auto simp: log_store_ok_def streams_ok_def new_streamlog_def)
  ultimately show ?thesis
    using l(1) id by (intro exI [of _ l]) (simp add: add_stream_def log_store_ok_def take_bit_32_id)
qed

section \<open>Properties of the store\<close>

lemma record_of_records:
  "log_store_ok s \<Longrightarrow> i < num_records s \<Longrightarrow> record_at i s = Some (map Some (store_records s ! i))"
  unfolding log_store_ok_def store_ok_def records_ok_def store_records_def the_record_def
  by (auto simp: comp_def)

lemma store_records_snoc:
  assumes "num_records s' = num_records s + 1" "record_at (num_records s) s' = Some (map Some r)"
    and "\<forall>i < num_records s. record_at i s' = record_at i s"
  shows "store_records s' = store_records s @ [r]"
  using assms by (simp add: store_records_def the_record_def comp_def)

text \<open>
  Insertion refines appending to a list of records. On a well-formed store with room,
  \<^verbatim>\<open>insert\<close> completes, returns the number of records so far as the new identifier, keeps the store well
  formed, and the store then holds exactly the old records followed by the new one.
\<close>

theorem log_insert_appends:
  assumes "log_store_ok s" "insert_room n ts s" "n \<le> length rec"
  shows "\<exists>s'. log_insert rec n ts s = Some (s', num_records s) \<and> log_store_ok s'
    \<and> store_records s' = store_records s @ [take n rec]"
  using log_insert_spec [OF assms] store_records_snoc by blast

lemma log_get_stored:
  assumes "log_store_ok s"
  shows "log_get i s = Some (if i < length (store_records s) then Some (map Some (store_records s ! i)) else None)"
proof -
  have "is_valid i (olog_of s) \<longleftrightarrow> i < num_records s"
    using assms by (simp add: log_store_ok_def store_ok_def is_valid_def num_records_def num_ids_def)
  moreover have "log_get i s = (if is_valid i (olog_of s) then map_option Some (record_at i s) else Some None)"
    by (cases "offset_lookup i (olog_of s)") (auto simp: log_get_def record_at_def bind_Some_map)
  ultimately show ?thesis
    using record_of_records [OF assms, of i] by (simp add: store_records_def)
qed


text \<open>
  Insertion indexes the record. For every index of the store and every key of its length,
  \<^verbatim>\<open>insert\<close> adds the new identifier at the end of the key's list once per token of the record with that index and
  key, and leaves all other lists as they are.
\<close>

theorem log_insert_indexes:
  assumes "log_store_ok s" "insert_room n ts s" "n \<le> length rec"
    and "index_ptr iid s = Some (Some p)" "key_fits iid k"
  shows "\<exists>s'. log_insert rec n ts s = Some (s', num_records s)
    \<and> index_entries iid k s' = index_entries iid k s @
        replicate (length (filter (\<lambda>t. index_id t = iid \<and> token_data t = k) ts)) (num_records s)"
proof -
  have "token_entries iid k rid ts = replicate (length (filter (\<lambda>t. index_id t = iid \<and> token_data t = k) ts)) rid" for rid
    by (induction ts) (auto simp: token_entries_def)
  then show ?thesis using log_insert_spec [OF assms(1-3)] assms(4,5) by fastforce
qed

text \<open>
  Insertion feeds the streams. Every stream receives the identifier its filter function
  leaves behind exactly when the function accepts the record, and keeps what it had.
\<close>

theorem log_insert_streams:
  assumes "log_store_ok s" "insert_room n ts s" "n \<le> length rec" "j < length (stream_heap s)"
  shows "\<exists>s'. log_insert rec n ts s = Some (s', num_records s)
    \<and> stream_entries (stream_heap s' ! j) = stream_entries (stream_heap s ! j) @
        (let (keep, rid) = fn (stream_heap s ! j) (num_records s) rec n ts in if keep then [rid] else [])"
  using log_insert_spec [OF assms(1-3)] assms(4) by (auto simp: stream_adds_def)

text \<open>
  A new index is empty and separate. On a well-formed store with fewer than 1024 indexes for
  tokens of a length between 1 and 8, \<^verbatim>\<open>add_index\<close> returns an identifier that named no index before and
  names one of that token length now; its lists are empty, and all other indexes and all records are unchanged.
\<close>

theorem add_index_fresh:
  assumes "log_store_ok s" "1 \<le> tlen" "tlen \<le> 8" "linearizable_size (idx_log s tlen) < 1024"
  shows "\<exists>s' iid. add_index tlen s = Some (s', iid) \<and> log_store_ok s' \<and> store_records s' = store_records s
    \<and> index_ptr iid s = None \<and> index_ptr iid s' \<noteq> None
    \<and> idx_class (iid div OFFSETMIN) = Some tlen
    \<and> (\<forall>k. key_fits iid k \<longrightarrow> index_entries iid k s' = [])
    \<and> (\<forall>j k. j \<noteq> iid \<longrightarrow> index_ptr j s' = index_ptr j s \<and> index_entries j k s' = index_entries j k s)"
proof -
  have t: "take_bit 16 tlen = tlen" using assms(3) by (intro take_bit_16_id) simp
  have "tlen \<in> {1, 2, 3, 4, 5, 6, 7, 8}" using assms(2,3) by auto
  then obtain ix where "new_index (take_bit 16 tlen) = Some ix" unfolding t by (auto simp: new_index_def)
  from add_index_spec [OF assms(1) this] show ?thesis using assms(4) unfolding t OFFSETMIN_def by blast
qed

lemma lin_read_slice:
  assumes "lin_read nb bs off n m = Some cs" "k + j \<le> n" "(off + k) div bs = off div bs"
  shows "lin_read nb bs (off + k) j m = Some (take j (drop k cs))"
proof -
  have m: "(off + k) mod bs = off mod bs + k"
    using assms(3) by (metis add_left_cancel div_mult_mod_eq group_cancel.add1)
  obtain c where c: "off div bs < nb" "blocks m (off div bs) = Some c" "off mod bs + n \<le> bs + BUFFER_SIZE"
    "cs = map c [off mod bs..<off mod bs + n]"
    using assms(1) by (auto simp: lin_read_def lin_copy_out_def lin_load_def bind_Some_iff split: if_splits)
  have "take j (drop k cs) = map c [off mod bs + k..<off mod bs + k + j]"
    using assms(2) c(4) by (simp add: drop_map take_map)
  then show ?thesis
    using c assms(2) by (simp add: lin_read_def lin_copy_out_def lin_load_def assms(3) m)
qed

text \<open>
  Extracting part of a record. For a record of a well-formed store and an offset inside it, as long
  as the requested part starts in the block the record starts in, \<^verbatim>\<open>extract\<close> returns the bytes of
  the record from the offset on, as many as were asked for or as the record still has.
\<close>

theorem log_extract_slice:
  assumes "log_store_ok s" "i < length (store_records s)" "offset \<le> length (store_records s ! i)" "len < 2 ^ 16"
    and "offset_lookup i (olog_of s) = Some (record_offset, record_length)"
    and "(record_offset + offset) div datalog_bs = record_offset div datalog_bs"
  shows "log_extract i offset len s = Some (Some (map Some (take len (drop offset (store_records s ! i)))))"
proof -
  let ?r = "store_records s ! i"
  have i: "i < num_records s" using assms(2) by (simp add: store_records_def)
  have read: "lin_read datalog_nb datalog_bs record_offset record_length (dlog s) = Some (map Some ?r)"
    using record_of_records [OF assms(1) i] assms(5) by (simp add: record_at_def)
  then have len: "length ?r = record_length"
    by (auto simp: lin_read_def lin_copy_out_def bind_Some_iff split: if_splits dest: map_eq_imp_length_eq)
  have ok: "store_ok s" using assms(1) by (simp add: log_store_ok_def)
  have tail: "record_offset + record_length \<le> dtail s" "dtail s < 2 ^ 40"
    using ok i assms(5) by (auto simp: store_ok_def records_ok_def)
  have rl: "record_length < 2 ^ 16"
    using assms(5) take_bit_less [of 16] by (auto simp: offset_lookup_def unpack_offlen_def bind_Some_iff simp del: power.simps)
  have valid: "is_valid i (olog_of s)"
    using ok i by (simp add: store_ok_def is_valid_def num_records_def num_ids_def)
  have rest: "take_bit 16 (record_length + (2 ^ 64 - offset)) = record_length - offset"
  proof -
    have le: "offset \<le> record_length" using assms(3) len by simp
    then have "record_length + (2 ^ 64 - offset) = (record_length - offset) + 2 ^ 48 * 2 ^ 16"
      using rl by simp
    then have "take_bit 16 (record_length + (2 ^ 64 - offset)) = (record_length - offset) mod 2 ^ 16"
      unfolding take_bit_eq_mod by (simp only: mod_mult_self1)
    then show ?thesis using rl by simp
  qed
  have off: "take_bit 64 (record_offset + offset) = record_offset + offset"
    using tail assms(3) len by (intro take_bit_64_id) simp
  have "lin_read datalog_nb datalog_bs (record_offset + offset) (min len (record_length - offset)) (dlog s)
      = Some (take (min len (record_length - offset)) (drop offset (map Some ?r)))"
    using assms(3) len by (intro lin_read_slice [OF read _ assms(6)]) simp
  moreover have "take (min len (record_length - offset)) (drop offset (map Some ?r)) = map Some (take len (drop offset ?r))"
    using len by (simp add: take_map drop_map min_def)
  ultimately show ?thesis
    using valid assms(5) rest off by (simp add: log_extract_def Let_def)
qed

section \<open>A small store\<close>

lemma get_linearizable_init: "linearizable_at nb i linearizable_init = None"
  by (cases "bucket_pos i")
    (auto simp: linearizable_at_def monolog_get_def load_cell_def load_bucket_def linearizable_init_def
      monolog_base_init_def bind_None_iff split: if_splits)

lemma log_store_init_ok: "log_store_ok log_store_init"
  using linearizable.invar_fresh [of nindexes_nb, where 'a = nat] linearizable.contents_fresh [of nindexes_nb, where 'a = nat]
  by (auto simp: log_store_ok_def store_ok_def records_ok_def indexes_ok_def streams_ok_def log_store_init_def
      offsetlog_init_def num_records_def num_ids_def index_ptr_def get_linearizable_init split: option.splits)

lemma insert_room_init: "n \<le> 1024 \<Longrightarrow> insert_room n [] log_store_init"
  by (simp add: insert_room_def log_store_init_def num_records_def num_ids_def offsetlog_init_def tokens_room_def
      streams_room_def datalog_bs_def BUFFER_SIZE_def)

lemma store_records_init: "store_records log_store_init = []"
  by (simp add: store_records_def num_records_def num_ids_def log_store_init_def offsetlog_init_def)

lemma num_records_init: "num_records log_store_init = 0"
  by (simp add: num_records_def num_ids_def log_store_init_def offsetlog_init_def)

theorem log_insert_appends_witness:
  "\<exists>s'. log_insert [1, 2, 3] 3 [] log_store_init = Some (s', 0) \<and> store_records s' = [[1, 2, 3]]"
  using log_insert_appends [OF log_store_init_ok insert_room_init, of 3 "[1, 2, 3]"] store_records_init
    num_records_init
  by auto


text \<open>A store with one index for tokens of two bytes.\<close>

lemma one_index_store:
  "\<exists>s iid. add_index 2 log_store_init = Some (s, iid) \<and> log_store_ok s \<and> num_records s = 0
     \<and> insert_room 3 [\<lparr>index_id = iid, token_data = 80\<rparr>] s
     \<and> (\<exists>p. index_ptr iid s = Some (Some p)) \<and> key_fits iid 80 \<and> index_entries iid 80 s = []"
proof -
  have few: "linearizable_size (idx_log log_store_init (take_bit 16 2)) < OFFSETMIN"
    by (simp add: log_store_init_def linearizable_init_def linearizable_size_def OFFSETMIN_def)
  have ix: "new_index (take_bit 16 2) = Some (Index2 indexlet_init)"
    by (simp add: new_index_def take_bit_eq_mod)
  obtain s iid where s: "add_index 2 log_store_init = Some (s, iid)" "log_store_ok s"
    "index_ptr iid s \<noteq> None" "idx_class (iid div OFFSETMIN) = Some 2" "\<forall>k. key_fits iid k \<longrightarrow> index_entries iid k s = []"
    using add_index_spec [OF log_store_init_ok ix few] by (auto simp: take_bit_eq_mod)
  have same: "olog_of s = offsetlog_init" "dtail s = 0" "stream_heap s = []"
    using s(1) by (auto simp: add_index_def Let_def bind_Some_iff log_store_init_def split: option.splits)
  have fits: "key_fits iid 80" using s(4) by (simp add: key_fits_def)
  have "index_ptr iid s \<noteq> Some None"
    using s(4) by (auto simp: index_ptr_def bind_Some_iff)
  then have "\<exists>p. index_ptr iid s = Some (Some p)" using s(3) by (cases "index_ptr iid s") auto
  moreover have "insert_room 3 [\<lparr>index_id = iid, token_data = 80\<rparr>] s"
    using same s(3,5) fits by (simp add: insert_room_def num_records_def num_ids_def offsetlog_init_def tokens_room_def
        token_fits_def streams_room_def datalog_bs_def BUFFER_SIZE_def)
  ultimately show ?thesis
    using s fits same by (intro exI [of _ s] exI [of _ iid]) (simp add: num_records_def num_ids_def offsetlog_init_def)
qed

theorem log_insert_indexes_witness:
  "\<exists>s iid s'. add_index 2 log_store_init = Some (s, iid)
     \<and> log_insert [1, 2, 3] 3 [\<lparr>index_id = iid, token_data = 80\<rparr>] s = Some (s', 0)
     \<and> index_entries iid 80 s' = [0]"
proof -
  obtain s iid p where s: "add_index 2 log_store_init = Some (s, iid)" "log_store_ok s" "num_records s = 0"
    "insert_room 3 [\<lparr>index_id = iid, token_data = 80\<rparr>] s" "index_ptr iid s = Some (Some p)" "key_fits iid 80"
    "index_entries iid 80 s = []"
    using one_index_store by blast
  then show ?thesis
    using log_insert_indexes [OF s(2,4) _ s(5,6), of "[1, 2, 3]"] by auto
qed

theorem add_index_fresh_witness:
  "\<exists>s iid. add_index 2 log_store_init = Some (s, iid) \<and> log_store_ok s \<and> index_ptr iid s \<noteq> None"
  using add_index_fresh [OF log_store_init_ok, of 2]
  by (auto simp: log_store_init_def linearizable_init_def linearizable_size_def)

theorem log_insert_streams_witness:
  "\<exists>s s'. add_stream (\<lambda>rid rec len ts. (len = 3, rid)) log_store_init = Some (s, 0)
     \<and> log_insert [1, 2, 3] 3 [] s = Some (s', 0) \<and> stream_entries (stream_heap s' ! 0) = [0]"
proof -
  let ?f = "\<lambda>rid (rec :: u8 list) len (ts :: token_t list). (len = (3::nat), rid :: nat)"
  have empty: "stream_heap log_store_init = []" by (simp add: log_store_init_def)
  obtain l where l: "add_stream ?f log_store_init = Some (log_store_init\<lparr>streams := l, stream_heap := [new_streamlog ?f]\<rparr>, 0)"
    "log_store_ok (log_store_init\<lparr>streams := l, stream_heap := [new_streamlog ?f]\<rparr>)"
    using add_stream_spec [OF log_store_init_ok, of ?f] empty valid_index_1024 [of 0] by (auto simp: OFFSETMIN_def)
  define s where "s = log_store_init\<lparr>streams := l, stream_heap := [new_streamlog ?f]\<rparr>"
  have empty': "stream_entries (new_streamlog ?f) = []"
    using new_entry_list_invar by (simp add: stream_entries_def new_streamlog_def)
  have "insert_room 3 [] s"
    using insert_room_init [of 3] empty'
    by (simp add: s_def insert_room_def streams_room_def tokens_room_def stream_entries_def list_room_iff num_records_def)
  moreover have "num_records s = 0" using num_records_init by (simp add: s_def num_records_def)
  ultimately show ?thesis
    using log_insert_streams [of s 3 "[]" "[1, 2, 3]" 0] l empty'
    by (auto simp: s_def new_streamlog_def)
qed

theorem log_extract_slice_witness:
  "\<exists>s'. log_insert [1, 2, 3] 3 [] log_store_init = Some (s', 0)
     \<and> log_extract 0 1 5 s' = Some (Some [Some 2, Some 3])"
proof -
  obtain s' where s': "log_insert [1, 2, 3] 3 [] log_store_init = Some (s', num_records log_store_init)"
    "log_store_ok s'" "store_records s' = [[1, 2, 3]]"
    using log_insert_spec [OF log_store_init_ok insert_room_init, of 3 "[1, 2, 3]"] store_records_snoc
      store_records_init by force
  have num: "0 < num_records s'" using arg_cong [OF s'(3), of length] by (simp add: store_records_def)
  obtain off len where lk: "offset_lookup 0 (olog_of s') = Some (off, len)" "off + len \<le> dtail s'"
    using s'(2) num unfolding log_store_ok_def store_ok_def records_ok_def by blast
  have "dtail s' = 3"
    using s'(1) insert_data_spec [of log_store_init 3 "[1, 2, 3]"] update_indexes.simps(1)
    by (auto simp: log_insert_def request_bytes_def update_streams_def offset_start_def append_record_def end_one_def
        bind_Some_iff Let_def log_store_init_def linearizable_init_def linearizable_size_def take_bit_eq_mod)
  then have "(off + 1) div datalog_bs = off div datalog_bs" using lk(2) by (simp add: datalog_bs_def)
  then show ?thesis
    using log_extract_slice [OF s'(2), of 0 1 5 off len] s' lk(1) num_records_init by auto
qed

end
