(* ===== verification/Packet_Headers.thy ===== *)
theory Packet_Headers
  imports Prelude
begin

section \<open>Packet headers (packet_attributes.h)\<close>

text \<open>
  A packet is what can be read from a pointer: a partial map from offsets to bytes. The header
  structs (\<open>ether_hdr\<close>, \<open>ipv4_hdr\<close>, \<open>tcp_hdr\<close>, \<open>udp_hdr\<close>) belong to DPDK: their sizes and the
  offsets of their fields are a parameter, the record \<open>hdr_layout\<close>. The widths of the fields are those
  of the value types the attributes declare. Integers are read in the byte order of the
  machine, least significant byte first.
\<close>

datatype hdr_field =
    S_addr | D_addr | Ether_type
  | Version_ihl | Type_of_service | Total_length | Packet_id | Fragment_offset | Time_to_live
  | Next_proto_id | Hdr_checksum | Src_addr | Dst_addr
  | Tcp_src_port | Tcp_dst_port | Sent_seq | Recv_ack | Data_off | Tcp_flags | Rx_win | Cksum | Tcp_urp
  | Udp_src_port | Udp_dst_port | Dgram_len | Dgram_cksum

record hdr_layout =
  sizeof_ether_addr :: nat
  sizeof_ether_hdr :: nat
  sizeof_ipv4_hdr :: nat
  offset_of :: "hdr_field \<Rightarrow> nat"

type_synonym packet = "u8 cells"

definition load_bytes :: "nat \<Rightarrow> nat \<Rightarrow> packet \<Rightarrow> u8 list option" where
  "load_bytes off n pkt = those (map pkt [off..<off + n])"

fun le_value :: "u8 list \<Rightarrow> nat" where
  "le_value [] = 0"
| "le_value (b # bs) = unat b + 256 * le_value bs"

fun le_bytes :: "nat \<Rightarrow> nat \<Rightarrow> u8 list" where
  "le_bytes 0 v = []"
| "le_bytes (Suc n) v = of_nat (v mod 256) # le_bytes n (v div 256)"

definition load :: "nat \<Rightarrow> nat \<Rightarrow> packet \<Rightarrow> nat option" where
  "load off n pkt = map_option le_value (load_bytes off n pkt)"

text \<open>
  \<open>eth = pkt\<close>, \<open>ip = eth + 1\<close>, and behind it the transport header: \<open>ip + 1\<close> is a header without
  options.
\<close>

definition eth_field :: "hdr_layout \<Rightarrow> hdr_field \<Rightarrow> nat \<Rightarrow> packet \<Rightarrow> nat option" where
  "eth_field L f n pkt = load (offset_of L f) n pkt"

definition ip_field :: "hdr_layout \<Rightarrow> hdr_field \<Rightarrow> nat \<Rightarrow> packet \<Rightarrow> nat option" where
  "ip_field L f n pkt = load (sizeof_ether_hdr L + offset_of L f) n pkt"

definition l4_field :: "hdr_layout \<Rightarrow> hdr_field \<Rightarrow> nat \<Rightarrow> packet \<Rightarrow> nat option" where
  "l4_field L f n pkt = load (sizeof_ether_hdr L + sizeof_ipv4_hdr L + offset_of L f) n pkt"

subsection \<open>The attributes\<close>

definition packet_header :: "packet \<Rightarrow> packet" where
  "packet_header pkt = pkt"

definition ether_s_addr :: "hdr_layout \<Rightarrow> packet \<Rightarrow> u8 list option" where
  "ether_s_addr L pkt = load_bytes (offset_of L S_addr) (sizeof_ether_addr L) pkt"

definition ether_d_addr :: "hdr_layout \<Rightarrow> packet \<Rightarrow> u8 list option" where
  "ether_d_addr L pkt = load_bytes (offset_of L D_addr) (sizeof_ether_addr L) pkt"

definition ether_type :: "hdr_layout \<Rightarrow> packet \<Rightarrow> nat option" where
  "ether_type L = eth_field L Ether_type 2"

definition ipv4_version_ihl :: "hdr_layout \<Rightarrow> packet \<Rightarrow> nat option" where
  "ipv4_version_ihl L = ip_field L Version_ihl 1"

definition ipv4_tos :: "hdr_layout \<Rightarrow> packet \<Rightarrow> nat option" where
  "ipv4_tos L = ip_field L Type_of_service 1"

definition ipv4_total_length :: "hdr_layout \<Rightarrow> packet \<Rightarrow> nat option" where
  "ipv4_total_length L = ip_field L Total_length 2"

definition ipv4_packet_id :: "hdr_layout \<Rightarrow> packet \<Rightarrow> nat option" where
  "ipv4_packet_id L = ip_field L Packet_id 2"

definition ipv4_fragment_offset :: "hdr_layout \<Rightarrow> packet \<Rightarrow> nat option" where
  "ipv4_fragment_offset L = ip_field L Fragment_offset 2"

definition ipv4_ttl :: "hdr_layout \<Rightarrow> packet \<Rightarrow> nat option" where
  "ipv4_ttl L = ip_field L Time_to_live 1"

definition ipv4_next_proto_id :: "hdr_layout \<Rightarrow> packet \<Rightarrow> nat option" where
  "ipv4_next_proto_id L = ip_field L Next_proto_id 1"

definition ipv4_hdr_checksum :: "hdr_layout \<Rightarrow> packet \<Rightarrow> nat option" where
  "ipv4_hdr_checksum L = ip_field L Hdr_checksum 2"

definition ipv4_src_addr :: "hdr_layout \<Rightarrow> packet \<Rightarrow> nat option" where
  "ipv4_src_addr L = ip_field L Src_addr 4"

definition ipv4_dst_addr :: "hdr_layout \<Rightarrow> packet \<Rightarrow> nat option" where
  "ipv4_dst_addr L = ip_field L Dst_addr 4"

definition tcp_src_port :: "hdr_layout \<Rightarrow> packet \<Rightarrow> nat option" where
  "tcp_src_port L = l4_field L Tcp_src_port 2"

definition tcp_dst_port :: "hdr_layout \<Rightarrow> packet \<Rightarrow> nat option" where
  "tcp_dst_port L = l4_field L Tcp_dst_port 2"

definition tcp_sent_seq :: "hdr_layout \<Rightarrow> packet \<Rightarrow> nat option" where
  "tcp_sent_seq L = l4_field L Sent_seq 4"

definition tcp_recv_ack :: "hdr_layout \<Rightarrow> packet \<Rightarrow> nat option" where
  "tcp_recv_ack L = l4_field L Recv_ack 4"

definition tcp_data_off :: "hdr_layout \<Rightarrow> packet \<Rightarrow> nat option" where
  "tcp_data_off L = l4_field L Data_off 1"

definition tcp_flags :: "hdr_layout \<Rightarrow> packet \<Rightarrow> nat option" where
  "tcp_flags L = l4_field L Tcp_flags 1"

definition tcp_rx_win :: "hdr_layout \<Rightarrow> packet \<Rightarrow> nat option" where
  "tcp_rx_win L = l4_field L Rx_win 2"

definition tcp_checksum :: "hdr_layout \<Rightarrow> packet \<Rightarrow> nat option" where
  "tcp_checksum L = l4_field L Cksum 2"

definition tcp_urp :: "hdr_layout \<Rightarrow> packet \<Rightarrow> nat option" where
  "tcp_urp L = l4_field L Tcp_urp 2"

definition udp_src_port :: "hdr_layout \<Rightarrow> packet \<Rightarrow> nat option" where
  "udp_src_port L = l4_field L Udp_src_port 2"

definition udp_dst_port :: "hdr_layout \<Rightarrow> packet \<Rightarrow> nat option" where
  "udp_dst_port L = l4_field L Udp_dst_port 2"

definition udp_dgram_len :: "hdr_layout \<Rightarrow> packet \<Rightarrow> nat option" where
  "udp_dgram_len L = l4_field L Dgram_len 2"

definition udp_dgram_checksum :: "hdr_layout \<Rightarrow> packet \<Rightarrow> nat option" where
  "udp_dgram_checksum L = l4_field L Dgram_cksum 2"

lemmas attribute_defs = ether_type_def ipv4_next_proto_id_def ipv4_src_addr_def ipv4_dst_addr_def
  tcp_src_port_def tcp_dst_port_def udp_src_port_def udp_dst_port_def
  eth_field_def ip_field_def l4_field_def

section \<open>Reading integers\<close>

lemma le_value_bound: "le_value bs < 256 ^ length bs"
proof (induction bs)
  case (Cons b bs)
  have "unat b < 256" using unsigned_less [of b, where ?'a = nat] by simp
  then show ?case using Cons by simp
qed simp

lemma length_le_bytes [simp]: "length (le_bytes n v) = n"
  by (induction n arbitrary: v) auto

text \<open>What is stored as \<open>n\<close> bytes is read back modulo \<open>256 ^ n\<close>.\<close>

lemma unat_byte: "unat (of_nat (v mod 256) :: u8) = v mod 256"
  by (simp add: unat_of_nat take_bit_eq_mod)

lemma le_value_bytes: "le_value (le_bytes n v) = v mod 256 ^ n"
proof (induction n arbitrary: v)
  case (Suc n)
  have "v mod (256 * 256 ^ n) = 256 * (v div 256 mod 256 ^ n) + v mod 256"
    by (rule mod_mult2_eq)
  then show ?case using Suc unat_byte [of v] by simp
qed simp

lemma those_map_Some [simp]: "those (map (\<lambda>x. Some (f x)) xs) = Some (map f xs)"
  by (induction xs) auto

lemma load_bytes_list:
  assumes "\<And>i. i < length bs \<Longrightarrow> pkt (off + i) = Some (bs ! i)"
  shows "load_bytes off (length bs) pkt = Some bs"
proof -
  have "map pkt [off..<off + length bs] = map Some bs"
    by (rule nth_equalityI) (auto simp: assms)
  moreover have "those (map Some bs) = Some bs" using those_map_Some [of id bs] by simp
  ultimately show ?thesis by (simp add: load_bytes_def)
qed

lemma load_cong:
  "(\<And>i. off \<le> i \<Longrightarrow> i < off + n \<Longrightarrow> p i = q i) \<Longrightarrow> load off n p = load off n q"
proof -
  assume "\<And>i. off \<le> i \<Longrightarrow> i < off + n \<Longrightarrow> p i = q i"
  then have "map p [off..<off + n] = map q [off..<off + n]" by simp
  then show ?thesis unfolding load_def load_bytes_def by (rule arg_cong)
qed

lemma load_bound:
  assumes "load off n pkt = Some v"
  shows "v < 256 ^ n"
proof -
  obtain bs where bs: "those (map pkt [off..<off + n]) = Some bs" "v = le_value bs"
    using assms by (auto simp: load_def load_bytes_def)
  have "those xs = Some ys \<Longrightarrow> length ys = length xs" for xs :: "u8 option list" and ys
    by (induction xs arbitrary: ys) (auto split: option.splits)
  from this [OF bs(1)] have "length bs = n" by simp
  then show ?thesis using le_value_bound [of bs] bs(2) by simp
qed

end
