(* ===== verification/Packet_Filter.thy ===== *)
theory Packet_Filter
  imports Packet_Headers Offset_Log Filter_Result
begin

section \<open>Packet filters (packet_filter.h)\<close>

text \<open>
  A packet filter is a conjunction of ranges of header fields and of the timestamp. A field of
  the struct that no constructor initialises is an option, \<open>None\<close> being the indeterminate value;
  the ranges are pairs, which start as zeros. The condition of a filter is
  evaluated from left to right and stops at the first false conjunct, so a transport header is
  only read when the addresses are in range.
\<close>

type_synonym tok_range = "nat \<times> nat"

record index_filter =
  f_index_id :: nat
  f_tok_range :: tok_range

record packet_filter =
  src_addr :: tok_range
  dst_addr :: tok_range
  src_port :: tok_range
  dst_port :: tok_range
  timestamp :: tok_range
  check_path_contains_node :: "bool option"
  check_path_contains_link :: "bool option"
  link :: "int \<times> int"
  node :: "int option"

definition packet_filter_default :: packet_filter where
  "packet_filter_default = \<lparr>src_addr = (0, 0), dst_addr = (0, 0), src_port = (0, 0), dst_port = (0, 0),
     timestamp = (0, 0), check_path_contains_node = None, check_path_contains_link = None,
     link = (0, 0), node = None\<rparr>"

definition in_range :: "tok_range \<Rightarrow> nat \<Rightarrow> bool" where
  "in_range r v \<longleftrightarrow> fst r \<le> v \<and> v \<le> snd r"

definition field_in :: "tok_range \<Rightarrow> nat option \<Rightarrow> bool option" where
  "field_in r v = map_option (in_range r) v"

definition and_then :: "bool option \<Rightarrow> bool option \<Rightarrow> bool option" where
  "and_then a b = do { x \<leftarrow> a; (if x then b else Some False) }"

definition IPPROTO_TCP :: nat where "IPPROTO_TCP = 6"
definition IPPROTO_UDP :: nat where "IPPROTO_UDP = 17"

text \<open>\<open>apply(pkt)\<close>, and \<open>apply(pkt, ts)\<close>, whose timestamp is a \<open>uint32_t\<close>.\<close>

definition addrs_in :: "hdr_layout \<Rightarrow> packet_filter \<Rightarrow> packet \<Rightarrow> bool option" where
  "addrs_in L pf pkt = and_then (field_in (src_addr pf) (ipv4_src_addr L pkt))
                                (field_in (dst_addr pf) (ipv4_dst_addr L pkt))"

definition apply_pkt :: "hdr_layout \<Rightarrow> packet_filter \<Rightarrow> packet \<Rightarrow> bool option" where
  "apply_pkt L pf pkt = do {
     proto \<leftarrow> ipv4_next_proto_id L pkt;
     (if proto = IPPROTO_TCP then
        and_then (and_then (addrs_in L pf pkt) (field_in (src_port pf) (tcp_src_port L pkt)))
                 (field_in (dst_port pf) (tcp_dst_port L pkt))
      else if proto = IPPROTO_UDP then
        and_then (and_then (addrs_in L pf pkt) (field_in (src_port pf) (udp_src_port L pkt)))
                 (field_in (dst_port pf) (udp_dst_port L pkt))
      else addrs_in L pf pkt) }"

definition apply_ts :: "hdr_layout \<Rightarrow> packet_filter \<Rightarrow> packet \<Rightarrow> nat \<Rightarrow> bool option" where
  "apply_ts L pf pkt ts = do {
     proto \<leftarrow> ipv4_next_proto_id L pkt;
     (if proto = IPPROTO_TCP then
        and_then (and_then (and_then (addrs_in L pf pkt) (field_in (src_port pf) (tcp_src_port L pkt)))
                           (field_in (dst_port pf) (tcp_dst_port L pkt)))
                 (Some (in_range (timestamp pf) (take_bit 32 ts)))
      else if proto = IPPROTO_UDP then
        and_then (and_then (and_then (addrs_in L pf pkt) (field_in (src_port pf) (udp_src_port L pkt)))
                           (field_in (dst_port pf) (udp_dst_port L pkt)))
                 (Some (in_range (timestamp pf) (take_bit 32 ts)))
      else and_then (addrs_in L pf pkt) (Some (in_range (timestamp pf) (take_bit 32 ts)))) }"

subsection \<open>Paths\<close>

definition MAX_PATH_LEN :: nat where "MAX_PATH_LEN = 6"

fun contains_link_from :: "nat list \<Rightarrow> int \<times> int \<Rightarrow> int cells \<Rightarrow> bool option" where
  "contains_link_from [] lk path = Some False"
| "contains_link_from (i # is) lk path = do {
     a \<leftarrow> path i;
     hit \<leftarrow> (if a = fst lk then do { b \<leftarrow> path (i + 1); Some (b = snd lk) } else Some False);
     (if hit then Some True else contains_link_from is lk path) }"

definition path_contains_link :: "packet_filter \<Rightarrow> int cells \<Rightarrow> bool option" where
  "path_contains_link pf path = contains_link_from [0..<MAX_PATH_LEN - 1] (link pf) path"

fun contains_node_from :: "nat list \<Rightarrow> int \<Rightarrow> int cells \<Rightarrow> bool option" where
  "contains_node_from [] n path = Some False"
| "contains_node_from (i # is) n path = do {
     a \<leftarrow> path i;
     (if a = n then Some True else contains_node_from is n path) }"

definition path_contains_node :: "packet_filter \<Rightarrow> int cells \<Rightarrow> bool option" where
  "path_contains_node pf path = do { n \<leftarrow> node pf; contains_node_from [0..<MAX_PATH_LEN] n path }"

definition path_check :: "packet_filter \<Rightarrow> int cells \<Rightarrow> bool option" where
  "path_check pf path = do {
     cn \<leftarrow> check_path_contains_node pf;
     (if cn then path_contains_node pf path
      else do {
        cl \<leftarrow> check_path_contains_link pf;
        (if cl then path_contains_link pf path else Some True) }) }"

subsection \<open>Filtered results\<close>

text \<open>
  A pointer into the data log reads the block it points into and the buffer behind the block; a stored
  packet is an eight-byte timestamp followed by the packet.
\<close>

definition log_mem :: "datalog \<Rightarrow> nat \<times> nat \<Rightarrow> packet" where
  "log_mem d p = (\<lambda>i. if snd p + i < datalog_bs + BUFFER_SIZE then block_cells (fst p) d (snd p + i) else None)"

definition pkt_verdict :: "hdr_layout \<Rightarrow> packet_filter \<Rightarrow> datalog \<Rightarrow> offsetlog \<Rightarrow> nat \<Rightarrow> bool option" where
  "pkt_verdict L pf d ol rid = do {
     (offset, len) \<leftarrow> offset_lookup rid ol;
     (b, i) \<leftarrow> lin_ptr datalog_nb datalog_bs offset d;
     ts \<leftarrow> load 0 8 (log_mem d (b, i));
     apply_ts L pf (log_mem d (b, i + 8)) ts }"

text \<open>\<open>packet_filter_iterator::operator++\<close>\<close>

partial_function (option) pf_next ::
  "hdr_layout \<Rightarrow> packet_filter \<Rightarrow> datalog \<Rightarrow> offsetlog \<Rightarrow> filter_iterator \<Rightarrow> filter_iterator option" where
  "pf_next L pf d ol it = do {
     it1 \<leftarrow> iter_next it;
     fin \<leftarrow> iter_finished it1;
     (if fin then Some it1
      else do {
        rid \<leftarrow> iter_get it1;
        keep \<leftarrow> pkt_verdict L pf d ol rid;
        (if keep then Some it1 else pf_next L pf d ol it1) }) }"

text \<open>\<open>results.insert(pf_res.begin(), pf_res.end())\<close>, with the values visited in order.\<close>

partial_function (option) pf_iterate_from ::
  "hdr_layout \<Rightarrow> packet_filter \<Rightarrow> datalog \<Rightarrow> offsetlog \<Rightarrow> filter_result \<Rightarrow> filter_iterator \<Rightarrow> nat list option" where
  "pf_iterate_from L pf d ol fr it =
     (if iter_eq it (filter_end fr) then Some []
      else do {
        v \<leftarrow> iter_get it;
        it' \<leftarrow> pf_next L pf d ol it;
        vs \<leftarrow> pf_iterate_from L pf d ol fr it';
        Some (v # vs) })"

definition pf_iterate ::
  "hdr_layout \<Rightarrow> packet_filter \<Rightarrow> datalog \<Rightarrow> offsetlog \<Rightarrow> filter_result \<Rightarrow> nat list option" where
  "pf_iterate L pf d ol fr = filter_begin fr \<bind> pf_iterate_from L pf d ol fr"

section \<open>What a filter accepts\<close>

text \<open>
  The fields of a packet a filter looks at: addresses, ports if the protocol has
  them, timestamp.
\<close>

record pkt_fields =
  p_src_addr :: nat
  p_dst_addr :: nat
  p_ports :: "(nat \<times> nat) option"

definition pkt_fields_of :: "hdr_layout \<Rightarrow> packet \<Rightarrow> pkt_fields option" where
  "pkt_fields_of L pkt = do {
     proto \<leftarrow> ipv4_next_proto_id L pkt;
     s \<leftarrow> ipv4_src_addr L pkt;
     d \<leftarrow> ipv4_dst_addr L pkt;
     (if proto = IPPROTO_TCP then do {
        sp \<leftarrow> tcp_src_port L pkt; dp \<leftarrow> tcp_dst_port L pkt;
        Some \<lparr>p_src_addr = s, p_dst_addr = d, p_ports = Some (sp, dp)\<rparr> }
      else if proto = IPPROTO_UDP then do {
        sp \<leftarrow> udp_src_port L pkt; dp \<leftarrow> udp_dst_port L pkt;
        Some \<lparr>p_src_addr = s, p_dst_addr = d, p_ports = Some (sp, dp)\<rparr> }
      else Some \<lparr>p_src_addr = s, p_dst_addr = d, p_ports = None\<rparr>) }"

definition accepts :: "packet_filter \<Rightarrow> pkt_fields \<Rightarrow> bool" where
  "accepts pf p \<longleftrightarrow> in_range (src_addr pf) (p_src_addr p) \<and> in_range (dst_addr pf) (p_dst_addr p)
     \<and> (case p_ports p of None \<Rightarrow> True | Some (sp, dp) \<Rightarrow> in_range (src_port pf) sp \<and> in_range (dst_port pf) dp)"

definition accepts_at :: "packet_filter \<Rightarrow> pkt_fields \<Rightarrow> nat \<Rightarrow> bool" where
  "accepts_at pf p ts \<longleftrightarrow> accepts pf p \<and> in_range (timestamp pf) ts"

lemma and_then_Some [simp]: "and_then (Some a) (Some b) = Some (a \<and> b)"
  by (simp add: and_then_def)

lemma field_in_Some [simp]: "field_in r (Some v) = Some (in_range r v)"
  by (simp add: field_in_def)

lemma pkt_fields_of_Some:
  "pkt_fields_of L pkt = Some p \<Longrightarrow> \<exists>proto. ipv4_next_proto_id L pkt = Some proto
     \<and> ipv4_src_addr L pkt = Some (p_src_addr p) \<and> ipv4_dst_addr L pkt = Some (p_dst_addr p)
     \<and> (case p_ports p of
          None \<Rightarrow> proto \<noteq> IPPROTO_TCP \<and> proto \<noteq> IPPROTO_UDP
        | Some (sp, dp) \<Rightarrow>
            proto = IPPROTO_TCP \<and> tcp_src_port L pkt = Some sp \<and> tcp_dst_port L pkt = Some dp
            \<or> proto \<noteq> IPPROTO_TCP \<and> proto = IPPROTO_UDP \<and> udp_src_port L pkt = Some sp \<and> udp_dst_port L pkt = Some dp)"
  unfolding pkt_fields_of_def bind_Some_iff
  by (elim exE conjE) (simp split: if_splits; (elim exE conjE)?; force simp: bind_Some_iff)

lemma apply_pkt_accepts:
  assumes "pkt_fields_of L pkt = Some p"
  shows "apply_pkt L pf pkt = Some (accepts pf p)"
proof (cases "p_ports p")
  case None
  then show ?thesis
    using pkt_fields_of_Some [OF assms] by (elim exE conjE) (simp add: apply_pkt_def addrs_in_def accepts_def)
next
  case (Some q)
  then show ?thesis
    using pkt_fields_of_Some [OF assms]
    by (cases q, elim exE conjE, simp, elim disjE conjE) (simp_all add: apply_pkt_def addrs_in_def accepts_def)
qed

lemma apply_ts_pkt:
  "apply_pkt L pf pkt = Some b \<Longrightarrow> apply_ts L pf pkt ts = Some (b \<and> in_range (timestamp pf) (take_bit 32 ts))"
  unfolding apply_pkt_def apply_ts_def bind_Some_iff by (elim exE conjE) (simp split: if_splits)

lemma apply_ts_accepts:
  "pkt_fields_of L pkt = Some p \<Longrightarrow> apply_ts L pf pkt ts = Some (accepts_at pf p (take_bit 32 ts))"
  using apply_ts_pkt [OF apply_pkt_accepts] by (simp add: accepts_at_def)

section \<open>What a filtered result enumerates\<close>

lemma rest_finished_iff:
  assumes "fr_ok fr ix" "it_rest fr ix it xs"
  shows "iter_finished it = Some (xs = [])"
proof -
  have "it_res it = Some fr" using assms(2) by (simp add: it_rest_def)
  then show ?thesis
    using rest_empty_tok [OF assms(1)] rest_nonempty_tok [OF assms(1)] assms(2)
    by (cases xs) (simp_all add: iter_finished_def)
qed

text \<open>
  One \<open>++\<close> of the packet iterator skips the entries that are not readable yet and the packets
  the filter rejects.
\<close>

lemma rest_pf_next:
  assumes "fr_ok fr ix" "it_rest fr ix it (x # xs)"
    and "\<And>v. v \<in> set xs \<Longrightarrow> v < max_rid fr \<Longrightarrow> pkt_verdict L pf d ol v = Some (P v)"
  shows "\<exists>it'. pf_next L pf d ol it = Some it' \<and> it_rest fr ix it' (dropWhile (\<lambda>v. \<not> (v < max_rid fr \<and> P v)) xs)"
  using assms(2,3)
proof (induction "length xs" arbitrary: it x xs rule: less_induct)
  case less
  let ?r = "dropWhile (\<lambda>v. max_rid fr \<le> v) xs"
  obtain it1 where it1: "iter_next it = Some it1" "it_rest fr ix it1 ?r"
    using rest_next [OF assms(1) less.prems(1)] by (elim exE conjE)
  note fin = rest_finished_iff [OF assms(1) it1(2)]
  show ?case
  proof (cases ?r)
    case Nil
    then have "dropWhile (\<lambda>v. \<not> (v < max_rid fr \<and> P v)) xs = []" by (auto simp: dropWhile_eq_Nil_conv)
    moreover have "pf_next L pf d ol it = Some it1" using it1(1) fin Nil by (simp add: pf_next.simps [of L pf d ol it])
    ultimately show ?thesis using it1(2) Nil by (simp only:) blast
  next
    case (Cons y ys)
    have y: "y < max_rid fr" "y \<in> set xs" "set ys \<subseteq> set xs"
      using Cons hd_dropWhile [of "\<lambda>v. max_rid fr \<le> v" xs] set_dropWhileD [of _ "\<lambda>v. max_rid fr \<le> v" xs]
      by fastforce+
    have get: "iter_get it1 = Some y" using rest_get [OF assms(1)] it1(2) Cons by simp
    have step: "pf_next L pf d ol it = (if P y then Some it1 else pf_next L pf d ol it1)"
      using it1(1) fin Cons get less.prems(2) [OF y(2,1)] by (simp add: pf_next.simps [of L pf d ol it])
    have drop: "dropWhile (\<lambda>v. \<not> (v < max_rid fr \<and> P v)) xs = dropWhile (\<lambda>v. \<not> (v < max_rid fr \<and> P v)) ?r"
      by (induction xs) auto
    show ?thesis
    proof (cases "P y")
      case True
      then show ?thesis using step it1(2) Cons y(1) drop by simp
    next
      case False
      have "length ys < length xs" using Cons length_dropWhile_le [of "\<lambda>v. max_rid fr \<le> v" xs] by simp
      then obtain it' where "pf_next L pf d ol it1 = Some it'"
        "it_rest fr ix it' (dropWhile (\<lambda>v. \<not> (v < max_rid fr \<and> P v)) ys)"
        using less.hyps [of ys it1 y] it1(2) Cons less.prems(2) y(3) by auto
      then show ?thesis using step False drop Cons by simp
    qed
  qed
qed

lemma pf_iterate_rest:
  assumes "fr_ok fr ix" "it_rest fr ix it xs"
    and "\<And>v. v \<in> set (tl xs) \<Longrightarrow> v < max_rid fr \<Longrightarrow> pkt_verdict L pf d ol v = Some (P v)"
  shows "pf_iterate_from L pf d ol fr it =
    Some (case xs of [] \<Rightarrow> [] | y # ys \<Rightarrow> y # filter (\<lambda>v. v < max_rid fr \<and> P v) ys)"
  using assms(2,3)
proof (induction "length xs" arbitrary: it xs rule: less_induct)
  case less
  show ?case
  proof (cases xs)
    case Nil
    then show ?thesis
      using rest_empty_tok [OF assms(1)] less.prems
      by (simp add: pf_iterate_from.simps [of L pf d ol fr it] iter_eq_def filter_end_def)
  next
    case (Cons y ys)
    let ?Q = "\<lambda>v. v < max_rid fr \<and> P v"
    let ?r = "dropWhile (\<lambda>v. \<not> ?Q v) ys"
    obtain it' where it': "pf_next L pf d ol it = Some it'" "it_rest fr ix it' ?r"
      using rest_pf_next [OF assms(1), of it y ys L pf d ol P] less.prems Cons by auto
    have "length ?r < length xs" using Cons length_dropWhile_le [of _ ys] by (simp add: le_imp_less_Suc)
    moreover have "set (tl ?r) \<subseteq> set ys" by (metis list.set_sel(2) set_dropWhileD subsetI tl_Nil)
    ultimately have ih: "pf_iterate_from L pf d ol fr it' =
        Some (case ?r of [] \<Rightarrow> [] | z # zs \<Rightarrow> z # filter ?Q zs)"
      using less.hyps [OF _ it'(2)] less.prems(2) Cons by auto
    have "filter ?Q ys = (case ?r of [] \<Rightarrow> [] | z # zs \<Rightarrow> z # filter ?Q zs)"
      by (induction ys) auto
    then show ?thesis
      using it'(1) ih rest_get [OF assms(1)] rest_nonempty_tok [OF assms(1)] less.prems Cons
      by (simp add: pf_iterate_from.simps [of L pf d ol fr it] iter_eq_def filter_end_def)
  qed
qed

lemma pf_iterate_spec:
  assumes "fr_ok fr ix"
    and "\<And>v. v \<in> set (range_entries ix (tok_min fr) (tok_max fr)) \<Longrightarrow> v < max_rid fr \<Longrightarrow>
      pkt_verdict L pf d ol v = Some (P v)"
  shows "pf_iterate L pf d ol fr = Some (case range_entries ix (tok_min fr) (tok_max fr) of
     [] \<Rightarrow> [] | e # es \<Rightarrow> e # filter (\<lambda>v. v < max_rid fr \<and> P v) es)"
proof -
  obtain it where it: "filter_begin fr = Some it" "it_rest fr ix it (range_entries ix (tok_min fr) (tok_max fr))"
    using begin_rest [OF assms(1)] by (elim exE conjE)
  have "set (tl (range_entries ix (tok_min fr) (tok_max fr))) \<subseteq> set (range_entries ix (tok_min fr) (tok_max fr))"
    by (cases "range_entries ix (tok_min fr) (tok_max fr)") auto
  then show ?thesis
    using it(1) pf_iterate_rest [OF assms(1) it(2), of L pf d ol P] assms(2) by (auto simp: pf_iterate_def)
qed

end
