(* ===== verification/Complex_Character.thy ===== *)
theory Complex_Character
  imports Packet_Filter
begin

section \<open>The complex-character index (complex_character_index.h)\<close>

text \<open>
  A complex character is a packet filter whose matches are recorded at insertion: for every
  second and every character an entry list of packet identifiers. The index has two levels of
  timestamps, each a full 16 bits, and an indexlet of characters below them. Pointers and \<open>get\<close> are as in
  \<open>Tiered_Index\<close>; iterations run on a snapshot, as in \<open>Filter_Result\<close>.
\<close>

type_synonym char_index = "entry_list indexlet"
type_synonym time_char_index = "char_index indexlet indexlet"

definition char_slots :: nat where "char_slots = 65536"

definition time_get :: "nat \<Rightarrow> time_char_index \<Rightarrow> (time_char_index \<times> char_index) option" where
  "time_get ts ix = d2_get 65536 65536 indexlet_init ts ix"

definition time_at :: "nat \<Rightarrow> time_char_index \<Rightarrow> char_index option option" where
  "time_at ts ix = d2_at 65536 65536 ts ix"

text \<open>The list at a timestamp and a character, null when either level is.\<close>

definition char_list_at :: "nat \<Rightarrow> nat \<Rightarrow> time_char_index \<Rightarrow> entry_list option option" where
  "char_list_at ts c ix = do {
     r \<leftarrow> time_at ts ix;
     (case r of None \<Rightarrow> Some None | Some ci \<Rightarrow> indexlet_at char_slots c ci) }"

text \<open>\<open>char_idx_->get(ts)->get(c)\<close>, and the write through the pointer.\<close>

definition char_list_get :: "nat \<Rightarrow> nat \<Rightarrow> time_char_index \<Rightarrow> (time_char_index \<times> entry_list) option" where
  "char_list_get ts c ix = do {
     (ix1, ci) \<leftarrow> time_get ts ix;
     (ci1, l) \<leftarrow> indexlet_get char_slots new_entry_list c ci;
     Some (d2_store 65536 ts ci1 ix1, l) }"

definition char_list_store :: "nat \<Rightarrow> nat \<Rightarrow> entry_list \<Rightarrow> time_char_index \<Rightarrow> time_char_index" where
  "char_list_store ts c l ix =
     (case time_at ts ix of Some (Some ci) \<Rightarrow> d2_store 65536 ts (indexlet_store c l ci) ix | _ \<Rightarrow> ix)"

definition char_push :: "nat \<Rightarrow> nat \<Rightarrow> nat \<Rightarrow> time_char_index \<Rightarrow> time_char_index option" where
  "char_push ts c rid ix = do {
     (ix1, l) \<leftarrow> char_list_get ts c ix;
     (l', _) \<leftarrow> el_push_back rid l;
     Some (char_list_store ts c l' ix1) }"

subsection \<open>Results\<close>

record char_result =
  cr_max_rid :: nat
  cr_char_id :: nat
  cr_range :: "nat \<times> nat"
  cr_index :: time_char_index

record char_iterator =
  ci_res :: "char_result option"
  ci_idx :: int
  ci_ts :: nat
  ci_list :: "entry_list option"

definition char_filter :: "nat \<Rightarrow> nat \<Rightarrow> nat \<times> nat \<Rightarrow> time_char_index \<Rightarrow> char_result" where
  "char_filter mrid c rng ix = \<lparr>cr_max_rid = mrid, cr_char_id = c, cr_range = rng, cr_index = ix\<rparr>"

definition char_stop :: "char_result \<Rightarrow> nat" where
  "char_stop r = take_bit 64 (snd (cr_range r) + 1)"

text \<open>\<open>while (cur_list_ == NULL && cur_ts_ <= res_->range_.second)\<close>\<close>

partial_function (option) char_scan :: "char_result \<Rightarrow> nat \<Rightarrow> entry_list option \<Rightarrow> (nat \<times> entry_list option) option" where
  "char_scan r ts l =
     (if l = None \<and> ts \<le> snd (cr_range r) then do {
        l' \<leftarrow> char_list_at (take_bit 64 (ts + 1)) (cr_char_id r) (cr_index r);
        char_scan r (take_bit 64 (ts + 1)) l' }
      else Some (ts, l))"

definition char_advance :: "char_result \<Rightarrow> char_iterator \<Rightarrow> char_iterator option" where
  "char_advance r it =
     (if ci_ts it = char_stop r then Some it
      else (let it1 = it\<lparr>ci_idx := ci_idx it + 1\<rparr> in
        if list_exhausted (ci_idx it1) (ci_list it1) then do {
          (ts, l) \<leftarrow> char_scan r (ci_ts it1) None;
          Some (it1\<lparr>ci_idx := 0, ci_ts := ts, ci_list := l\<rparr>) }
        else Some it1))"

definition char_begin :: "char_result \<Rightarrow> char_iterator option" where
  "char_begin r = do {
     l \<leftarrow> char_list_at (fst (cr_range r)) (cr_char_id r) (cr_index r);
     char_advance r \<lparr>ci_res = Some r, ci_idx = - 1, ci_ts = fst (cr_range r), ci_list = l\<rparr> }"

definition char_end :: "char_result \<Rightarrow> char_iterator" where
  "char_end r = \<lparr>ci_res = None, ci_idx = 0, ci_ts = char_stop r, ci_list = None\<rparr>"

definition char_get :: "char_iterator \<Rightarrow> nat option" where
  "char_get it = do {
     l \<leftarrow> ci_list it;
     monolog_get entry_list_nbuckets (nat (take_bit 64 (ci_idx it))) l }"

partial_function (option) char_next :: "char_iterator \<Rightarrow> char_iterator option" where
  "char_next it = do {
     r \<leftarrow> ci_res it;
     it1 \<leftarrow> char_advance r it;
     (if ci_ts it1 \<le> snd (cr_range r) then do {
        v \<leftarrow> char_get it1;
        (if v \<ge> cr_max_rid r then char_next it1 else Some it1) }
      else Some it1) }"

definition char_eq :: "char_iterator \<Rightarrow> char_iterator \<Rightarrow> bool" where
  "char_eq a b \<longleftrightarrow> ci_idx a = ci_idx b \<and> ci_ts a = ci_ts b"

text \<open>\<open>for (x : result)\<close> with the values visited, and \<open>size()\<close>.\<close>

partial_function (option) char_iterate_from :: "char_result \<Rightarrow> char_iterator \<Rightarrow> nat list option" where
  "char_iterate_from r it =
     (if char_eq it (char_end r) then Some []
      else do {
        v \<leftarrow> char_get it;
        it' \<leftarrow> char_next it;
        vs \<leftarrow> char_iterate_from r it';
        Some (v # vs) })"

definition char_iterate :: "char_result \<Rightarrow> nat list option" where
  "char_iterate r = char_begin r \<bind> char_iterate_from r"

partial_function (option) char_size_from :: "char_result \<Rightarrow> char_iterator \<Rightarrow> nat \<Rightarrow> nat option" where
  "char_size_from r it cnt =
     (if char_eq it (char_end r) then Some cnt
      else do { it' \<leftarrow> char_next it; char_size_from r it' (take_bit 64 (cnt + 1)) })"

definition char_size :: "char_result \<Rightarrow> nat option" where
  "char_size r = do { it \<leftarrow> char_begin r; char_size_from r it 0 }"

section \<open>Lists of characters\<close>

text \<open>The identifiers recorded for a character in a second.\<close>

definition char_entries :: "nat \<Rightarrow> nat \<Rightarrow> time_char_index \<Rightarrow> nat list" where
  "char_entries ts c ix = index_list (\<lambda>k. char_list_at ts k) c ix"

definition chars_ok :: "time_char_index \<Rightarrow> bool" where
  "chars_ok ix \<longleftrightarrow> (\<forall>ts c l. ts < 2 ^ 32 \<longrightarrow> c < char_slots \<longrightarrow> char_list_at ts c ix = Some (Some l) \<longrightarrow>
     relaxed_invar entry_list_nbuckets l \<and> relaxed_contents entry_list_nbuckets l \<noteq> [])"

lemma time_covers: "d2_covers 65536 65536 ts \<longleftrightarrow> ts < 2 ^ 32"
  by (auto simp: covers_defs)

lemma char_covers: "d1_covers char_slots c \<longleftrightarrow> c < char_slots"
  by (auto simp: d1_covers_def char_slots_def)

lemma indexlet_is_d1: "indexlet_at = d1_at" "indexlet_get = d1_get" "indexlet_store = d1_store"
  by (auto simp: fun_eq_iff d1_at_def d1_get_def d1_store_def)

text \<open>\<open>get\<close> of the two-level time index and of the characters below it keeps the contract of an index.\<close>

lemma char_list_at_eq:
  "char_list_at ts c ix = (case d2_at 65536 65536 ts ix of None \<Rightarrow> None
     | Some None \<Rightarrow> Some None | Some (Some ci) \<Rightarrow> d1_at char_slots c ci)"
  by (simp add: char_list_at_def time_at_def indexlet_is_d1 split: option.split)

lemma char_list_at_total:
  assumes "ts < 2 ^ 32" "c < char_slots"
  shows "char_list_at ts c ix \<noteq> None"
  using d2.at_total [of 65536 65536 ts ix] d1.at_total [of char_slots c] assms
  by (auto simp: char_list_at_eq time_covers char_covers split: option.split)

lemma char_list_get_spec:
  assumes "ts < 2 ^ 32" "c < char_slots"
  shows "\<exists>ix'. char_list_get ts c ix = Some (ix', case the (char_list_at ts c ix) of None \<Rightarrow> new_entry_list | Some l \<Rightarrow> l)
    \<and> (\<exists>ci. d2_at 65536 65536 ts ix' = Some (Some ci))
    \<and> char_list_at ts c ix' = Some (Some (case the (char_list_at ts c ix) of None \<Rightarrow> new_entry_list | Some l \<Rightarrow> l))
    \<and> (\<forall>ts' c'. ts' < 2 ^ 32 \<longrightarrow> c' < char_slots \<longrightarrow> (ts', c') \<noteq> (ts, c) \<longrightarrow>
         char_list_at ts' c' ix' = char_list_at ts' c' ix)"
proof -
  have ts: "d2_covers 65536 65536 ts" and c: "d1_covers char_slots c" using assms by (simp_all add: time_covers char_covers)
  obtain o1 where o1: "d2_at 65536 65536 ts ix = Some o1" using d2.at_total [OF ts, of ix] by auto
  define ci where "ci = (case o1 of None \<Rightarrow> indexlet_init | Some v \<Rightarrow> v)"
  obtain ix1 where ix1: "d2_get 65536 65536 indexlet_init ts ix = Some (ix1, ci)"
    "d2_at 65536 65536 ts ix1 = Some (Some ci)"
    "\<forall>k'. d2_covers 65536 65536 k' \<longrightarrow> k' \<noteq> ts \<longrightarrow> d2_at 65536 65536 k' ix1 = d2_at 65536 65536 k' ix"
    using d2.get_at [OF ts, where fresh = indexlet_init and ix = ix] o1 by (auto simp: ci_def)
  have old: "char_list_at ts c' ix = d1_at char_slots c' ci" if "c' < char_slots" for c'
  proof -
    have "d1_at char_slots c' indexlet_init = Some (None :: entry_list option)"
      using that by (intro d1.at_init) (simp add: char_covers)
    then show ?thesis using o1 by (auto simp: char_list_at_eq ci_def split: option.split)
  qed
  define l where "l = (case the (char_list_at ts c ix) of None \<Rightarrow> new_entry_list | Some l \<Rightarrow> l)"
  obtain ci1 where ci1: "d1_get char_slots new_entry_list c ci = Some (ci1, l)" "d1_at char_slots c ci1 = Some (Some l)"
    "\<forall>k'. d1_covers char_slots k' \<longrightarrow> k' \<noteq> c \<longrightarrow> d1_at char_slots k' ci1 = d1_at char_slots k' ci"
    using d1.get_at [OF c, where fresh = new_entry_list and ix = ci] old [OF assms(2)] by (auto simp: l_def)
  let ?ix = "d2_store 65536 ts ci1 ix1"
  have at: "d2_at 65536 65536 k ?ix = (if k = ts then Some (Some ci1) else d2_at 65536 65536 k ix)" if "k < 2 ^ 32" for k
    using d2.store_at [OF ts _ ix1(2), of k ci1] ix1(3) that by (simp add: time_covers)
  have "char_list_get ts c ix = Some (?ix, l)"
    using ix1(1) ci1(1) by (simp add: char_list_get_def time_get_def indexlet_is_d1)
  moreover have "char_list_at ts c ?ix = Some (Some l)" using at [OF assms(1)] ci1(2) by (simp add: char_list_at_eq)
  moreover have "char_list_at ts' c' ?ix = char_list_at ts' c' ix"
    if "ts' < 2 ^ 32" "c' < char_slots" "(ts', c') \<noteq> (ts, c)" for ts' c'
    using at [OF that(1)] ci1(3) that old [OF that(2)] by (cases "ts' = ts") (auto simp: char_list_at_eq char_covers)
  ultimately show ?thesis using at [OF assms(1)] unfolding l_def [symmetric] by auto
qed

lemma char_list_store_spec:
  assumes "ts < 2 ^ 32" "c < char_slots" "char_list_at ts c ix = Some (Some old)" "ts' < 2 ^ 32" "c' < char_slots"
  shows "char_list_at ts' c' (char_list_store ts c l ix) = (if (ts', c') = (ts, c) then Some (Some l) else char_list_at ts' c' ix)"
proof -
  have ts: "d2_covers 65536 65536 ts" "d2_covers 65536 65536 ts'" and c: "d1_covers char_slots c" "d1_covers char_slots c'"
    using assms by (simp_all add: time_covers char_covers)
  obtain ci where ci: "d2_at 65536 65536 ts ix = Some (Some ci)" "d1_at char_slots c ci = Some (Some old)"
    using assms(3) by (auto simp: char_list_at_eq split: option.splits)
  have "char_list_store ts c l ix = d2_store 65536 ts (d1_store c l ci) ix"
    using ci(1) by (simp add: char_list_store_def time_at_def indexlet_is_d1)
  then show ?thesis
    using d2.store_at [OF ts ci(1), of "d1_store c l ci"] d1.store_at [OF c ci(2), of l] ci
    by (auto simp: char_list_at_eq)
qed

text \<open>Recording a packet for a character appends it to the list of the character and the second.\<close>

lemma char_push_spec:
  assumes "ts < 2 ^ 32" "c < char_slots" "chars_ok ix" "list_room (length (char_entries ts c ix))"
  shows "\<exists>ix'. char_push ts c rid ix = Some ix' \<and> chars_ok ix'
    \<and> (\<forall>ts' c'. ts' < 2 ^ 32 \<longrightarrow> c' < char_slots \<longrightarrow>
         char_entries ts' c' ix' = char_entries ts' c' ix @ (if (ts', c') = (ts, c) then [rid] else []))"
proof -
  obtain r where r: "char_list_at ts c ix = Some r" using char_list_at_total [OF assms(1,2), of ix] by auto
  define l where "l = (case r of None \<Rightarrow> new_entry_list | Some l \<Rightarrow> l)"
  have l: "relaxed_invar entry_list_nbuckets l" "relaxed_contents entry_list_nbuckets l = char_entries ts c ix"
    using assms r new_entry_list_invar
    by (auto simp: l_def chars_ok_def char_entries_def index_list_def split: option.splits)
  obtain ix1 where ix1: "char_list_get ts c ix = Some (ix1, l)" "char_list_at ts c ix1 = Some (Some l)"
    "\<forall>ts' c'. ts' < 2 ^ 32 \<longrightarrow> c' < char_slots \<longrightarrow> (ts', c') \<noteq> (ts, c) \<longrightarrow> char_list_at ts' c' ix1 = char_list_at ts' c' ix"
    using char_list_get_spec [OF assms(1,2), of ix] r by (auto simp: l_def)
  have "valid_index entry_list_nbuckets (length (relaxed_contents entry_list_nbuckets l))"
    using assms(4) l(2) by (simp add: list_room_def)
  then obtain l' where l': "el_push_back rid l = Some (l', length (char_entries ts c ix))"
    "relaxed_invar entry_list_nbuckets l'" "relaxed_contents entry_list_nbuckets l' = char_entries ts c ix @ [rid]"
    using relaxed.push_ok [OF l(1)] l(2) by (auto simp: el_push_back_def)
  let ?ix = "char_list_store ts c l' ix1"
  have at: "char_list_at ts' c' ?ix = (if (ts', c') = (ts, c) then Some (Some l') else char_list_at ts' c' ix)"
    if "ts' < 2 ^ 32" "c' < char_slots" for ts' c'
    using char_list_store_spec [OF assms(1,2) ix1(2) that, of l'] ix1(3) that by auto
  have "char_push ts c rid ix = Some ?ix" using ix1(1) l'(1) by (simp add: char_push_def)
  moreover have "chars_ok ?ix"
    unfolding chars_ok_def
  proof (intro allI impI)
    fix ts' c' k assume k: "ts' < 2 ^ 32" "c' < char_slots" "char_list_at ts' c' ?ix = Some (Some k)"
    then show "relaxed_invar entry_list_nbuckets k \<and> relaxed_contents entry_list_nbuckets k \<noteq> []"
      using at [OF k(1,2)] assms(3) l'(2,3) by (cases "(ts', c') = (ts, c)") (auto simp: chars_ok_def)
  qed
  moreover have "char_entries ts' c' ?ix = char_entries ts' c' ix @ (if (ts', c') = (ts, c) then [rid] else [])"
    if "ts' < 2 ^ 32" "c' < char_slots" for ts' c'
    using at [OF that] l'(3) by (simp add: char_entries_def index_list_def)
  ultimately show ?thesis by blast
qed

end
