(* ===== verification/Packet_Store.thy ===== *)
theory Packet_Store
  imports Log_Store Complex_Character
begin

section \<open>Query plans (query_plan.h)\<close>

text \<open>
  A plan for one clause: the index filter to evaluate and the packet filter for the rest.
  Members that a path through the code leaves uninitialised are options.
\<close>

record clause_plan =
  idx_filter :: "index_filter option"
  pkt_filter :: packet_filter
  plan_valid :: bool
  perform_pkt_filter :: "bool option"

type_synonym query_plan = "clause_plan list"

definition clause_plan_default :: clause_plan where
  "clause_plan_default = \<lparr>idx_filter = None, pkt_filter = packet_filter_default, plan_valid = False,
     perform_pkt_filter = None\<rparr>"

fun dec_digits :: "nat \<Rightarrow> string" where
  "dec_digits n = (if n < 10 then [char_of (48 + n)] else dec_digits (n div 10) @ [char_of (48 + n mod 10)])"

declare dec_digits.simps [simp del]

fun print_query_plan :: "query_plan \<Rightarrow> string option" where
  "print_query_plan [] = Some [CHR 0x0A]"
| "print_query_plan (p # ps) = do {
     f \<leftarrow> idx_filter p;
     rest \<leftarrow> print_query_plan ps;
     Some (''idx-filter: ('' @ dec_digits (f_index_id f) @ '', '' @ dec_digits (fst (f_tok_range f)) @ '', ''
           @ dec_digits (snd (f_tok_range f)) @ '')'' @ [CHR 0x09] @ rest) }"

section \<open>Aggregates (aggregates.h)\<close>

text \<open>
  The aggregates run over the values a container iterates; \<open>w\<close> is the width of the unsigned
  result type, to which every value is converted. \<open>minimum\<close> starts from the largest value,
  \<open>maximum\<close> from the smallest.
\<close>

definition agg_result_set :: "nat list \<Rightarrow> nat set" where
  "agg_result_set xs = set xs"

definition agg_count :: "nat list \<Rightarrow> nat" where
  "agg_count xs = length xs"

definition agg_sum :: "nat \<Rightarrow> nat list \<Rightarrow> nat" where
  "agg_sum w xs = foldl (\<lambda>s x. take_bit w (s + take_bit w x)) 0 xs"

definition agg_maximum :: "nat \<Rightarrow> nat list \<Rightarrow> nat" where
  "agg_maximum w xs = foldl (\<lambda>m x. if m < take_bit w x then take_bit w x else m) 0 xs"

definition agg_minimum :: "nat \<Rightarrow> nat list \<Rightarrow> nat" where
  "agg_minimum w xs = foldl (\<lambda>m x. if take_bit w x < m then take_bit w x else m) (2 ^ w - 1) xs"

section \<open>The packet store (packetstore.h)\<close>

text \<open>
  A log store with five indexes, a table of packet filters and the index of complex
  characters. The pointers to the indexes are positions of the heap of indexes of the
  log store. \<open>std::time\<close> is the argument \<open>now\<close>. A DPDK buffer is what its two accessors
  return: \<open>rte_pktmbuf_pkt_len\<close> and the memory behind \<open>rte_pktmbuf_mtod\<close>. All
  \<open>INDEX_\<close> macros have their default, 1.
\<close>

definition MAX_FILTERS :: nat where "MAX_FILTERS = 65536"

record mbuf =
  pkt_len :: nat
  mtod :: packet

record packet_store =
  base :: log_store
  srcip_idx_id :: nat
  dstip_idx_id :: nat
  srcport_idx_id :: nat
  dstport_idx_id :: nat
  timestamp_idx_id :: nat
  srcip_ptr :: nat
  dstip_ptr :: nat
  srcport_ptr :: nat
  dstport_ptr :: nat
  timestamp_ptr :: nat
  filters :: "nat \<Rightarrow> packet_filter list"
  num_filters :: nat
  char_idx :: time_char_index

definition packet_store_init :: "packet_store option" where
  "packet_store_init = do {
     (s1, srcip) \<leftarrow> add_index 4 log_store_init;
     (s2, dstip) \<leftarrow> add_index 4 s1;
     (s3, srcport) \<leftarrow> add_index 2 s2;
     (s4, dstport) \<leftarrow> add_index 2 s3;
     (s5, ts) \<leftarrow> add_index 4 s4;
     p1 \<leftarrow> linearizable_at nindexes_nb 0 (idx_log s5 4);
     p2 \<leftarrow> linearizable_at nindexes_nb 1 (idx_log s5 4);
     p3 \<leftarrow> linearizable_at nindexes_nb 0 (idx_log s5 2);
     p4 \<leftarrow> linearizable_at nindexes_nb 1 (idx_log s5 2);
     p5 \<leftarrow> linearizable_at nindexes_nb 2 (idx_log s5 4);
     Some \<lparr>base = s5, srcip_idx_id = srcip, dstip_idx_id = dstip, srcport_idx_id = srcport,
       dstport_idx_id = dstport, timestamp_idx_id = ts, srcip_ptr = p1, dstip_ptr = p2,
       srcport_ptr = p3, dstport_ptr = p4, timestamp_ptr = p5,
       filters = (\<lambda>_. []), num_filters = 0, char_idx = indexlet_init\<rparr> }"

definition add_complex_character :: "packet_filter list \<Rightarrow> packet_store \<Rightarrow> (packet_store \<times> nat) option" where
  "add_complex_character fl s =
     (let idx = num_filters s in
      if idx < MAX_FILTERS
      then Some (s\<lparr>num_filters := take_bit 32 (idx + 1), filters := (filters s)(idx := fl)\<rparr>, take_bit 32 idx)
      else None)"

subsection \<open>Insertion\<close>

text \<open>\<open>add_entry\<close> through a pointer to an index.\<close>

definition ptr_add_entry :: "nat \<Rightarrow> nat \<Rightarrow> nat \<Rightarrow> log_store \<Rightarrow> log_store option" where
  "ptr_add_entry p key rid b =
     (if p < length (index_heap b) then do {
        ix \<leftarrow> obj_add_entry key rid (index_heap b ! p);
        Some (b\<lparr>index_heap := (index_heap b)[p := ix]\<rparr>) }
      else None)"

text \<open>\<open>timestamp_idx_->get(now)\<close> and \<open>push_back_range\<close> through the pointer.\<close>

definition ptr_add_range :: "nat \<Rightarrow> nat \<Rightarrow> nat \<Rightarrow> nat \<Rightarrow> log_store \<Rightarrow> log_store option" where
  "ptr_add_range p key start fin b =
     (if p < length (index_heap b) then do {
        (ix, l) \<leftarrow> obj_get key (index_heap b ! p);
        (l', _) \<leftarrow> el_push_back_range start fin l;
        Some (b\<lparr>index_heap := (index_heap b)[p := obj_store key l' ix]\<rparr>) }
      else None)"

definition index_ports :: "nat option \<Rightarrow> nat option \<Rightarrow> nat \<Rightarrow> packet_store \<Rightarrow> packet_store option" where
  "index_ports sport dport rid s = do {
     sp \<leftarrow> sport;
     b1 \<leftarrow> ptr_add_entry (srcport_ptr s) sp rid (base s);
     dp \<leftarrow> dport;
     b2 \<leftarrow> ptr_add_entry (dstport_ptr s) dp rid b1;
     Some (s\<lparr>base := b2\<rparr>) }"

definition index_pkt :: "hdr_layout \<Rightarrow> packet \<Rightarrow> nat \<Rightarrow> packet_store \<Rightarrow> packet_store option" where
  "index_pkt L pkt rid s = do {
     sa \<leftarrow> ipv4_src_addr L pkt;
     b1 \<leftarrow> ptr_add_entry (srcip_ptr s) sa rid (base s);
     da \<leftarrow> ipv4_dst_addr L pkt;
     b2 \<leftarrow> ptr_add_entry (dstip_ptr s) da rid b1;
     proto \<leftarrow> ipv4_next_proto_id L pkt;
     (if proto = IPPROTO_TCP then index_ports (tcp_src_port L pkt) (tcp_dst_port L pkt) rid (s\<lparr>base := b2\<rparr>)
      else if proto = IPPROTO_UDP then index_ports (udp_src_port L pkt) (udp_dst_port L pkt) rid (s\<lparr>base := b2\<rparr>)
      else Some (s\<lparr>base := b2\<rparr>)) }"

definition append_pkt :: "nat \<Rightarrow> nat \<Rightarrow> packet \<Rightarrow> nat \<Rightarrow> log_store \<Rightarrow> (log_store \<times> nat) option" where
  "append_pkt offset ts pkt len b = do {
     (blk, i) \<leftarrow> lin_ptr datalog_nb datalog_bs offset (dlog b);
     d1 \<leftarrow> lin_copy_in datalog_nb datalog_bs blk i (le_bytes 8 ts) (dlog b);
     bytes \<leftarrow> load_bytes 0 len pkt;
     d2 \<leftarrow> lin_copy_in datalog_nb datalog_bs blk (i + 8) bytes d1;
     Some (b\<lparr>dlog := d2\<rparr>, len + 8) }"

text \<open>The loop over the filters of a character, which stops at the first that applies, and over the characters.\<close>

fun any_applies :: "hdr_layout \<Rightarrow> packet_filter list \<Rightarrow> packet \<Rightarrow> bool option" where
  "any_applies L [] pkt = Some False"
| "any_applies L (f # fs) pkt = do { b \<leftarrow> apply_pkt L f pkt; (if b then Some True else any_applies L fs pkt) }"

fun record_chars :: "hdr_layout \<Rightarrow> nat \<Rightarrow> packet \<Rightarrow> nat \<Rightarrow> nat list \<Rightarrow> packet_store \<Rightarrow> packet_store option" where
  "record_chars L now pkt rid [] s = Some s"
| "record_chars L now pkt rid (i # is) s =
     (if MAX_FILTERS \<le> i then None
      else do {
        b \<leftarrow> any_applies L (filters s i) pkt;
        s1 \<leftarrow> (if b then do { ix \<leftarrow> char_push now i rid (char_idx s); Some (s\<lparr>char_idx := ix\<rparr>) } else Some s);
        record_chars L now pkt rid is s1 })"

text \<open>One turn of the loop over the burst, and the loop.\<close>

definition insert_pkt :: "hdr_layout \<Rightarrow> nat \<Rightarrow> nat \<Rightarrow> mbuf \<Rightarrow> nat \<Rightarrow> nat \<Rightarrow> packet_store \<Rightarrow> (packet_store \<times> nat) option" where
  "insert_pkt L now num_chars m rid off s =
     (let pkt = mtod m; pkt_size = take_bit 16 (pkt_len m) in do {
        s1 \<leftarrow> index_pkt L pkt rid s;
        ol \<leftarrow> set_without_alloc rid off pkt_size (olog_of (base s1));
        (b, n) \<leftarrow> append_pkt off now pkt pkt_size ((base s1)\<lparr>olog_of := ol\<rparr>);
        s2 \<leftarrow> record_chars L now pkt rid [0..<num_chars] (s1\<lparr>base := b\<rparr>);
        Some (s2, take_bit 64 (off + n)) })"

fun insert_pkts :: "hdr_layout \<Rightarrow> nat \<Rightarrow> nat \<Rightarrow> mbuf list \<Rightarrow> nat \<Rightarrow> nat \<Rightarrow> packet_store \<Rightarrow> packet_store option" where
  "insert_pkts L now num_chars [] rid off s = Some s"
| "insert_pkts L now num_chars (m # ms) rid off s = do {
     (s1, off1) \<leftarrow> insert_pkt L now num_chars m rid off s;
     insert_pkts L now num_chars ms (take_bit 64 (rid + 1)) off1 s1 }"

text \<open>\<open>nbytes\<close>, as the sum of 64 bits.\<close>

definition burst_bytes :: "mbuf list \<Rightarrow> nat" where
  "burst_bytes pkts = take_bit 64 (length pkts * 8 + (\<Sum>m\<leftarrow>pkts. pkt_len m))"

definition insert_pktburst :: "hdr_layout \<Rightarrow> nat \<Rightarrow> mbuf list \<Rightarrow> packet_store \<Rightarrow> packet_store option" where
  "insert_pktburst L now pkts s = do {
     (ol, rid) \<leftarrow> request_id_block (length pkts) (olog_of (base s));
     (b1, off) \<leftarrow> request_bytes (burst_bytes pkts) ((base s)\<lparr>olog_of := ol\<rparr>);
     (cix, _) \<leftarrow> time_get now (char_idx s);
     b2 \<leftarrow> ptr_add_range (timestamp_ptr s) now rid (take_bit 64 (rid + length pkts + (2 ^ 64 - 1))) b1;
     s1 \<leftarrow> insert_pkts L now (num_filters s) pkts rid off (s\<lparr>base := b2, char_idx := cix\<rparr>);
     ol' \<leftarrow> end_block rid (length pkts) (olog_of (base s1));
     Some (s1\<lparr>base := (base s1)\<lparr>olog_of := ol'\<rparr>\<rparr>) }"

subsection \<open>Queries\<close>

definition approx_pkt_count :: "nat \<Rightarrow> nat \<Rightarrow> nat \<Rightarrow> packet_store \<Rightarrow> nat option" where
  "approx_pkt_count iid tok_beg tok_end s = filter_count iid tok_beg tok_end (base s)"

definition num_pkts :: "packet_store \<Rightarrow> nat" where
  "num_pkts s = num_records (base s)"

definition clause_pkts :: "hdr_layout \<Rightarrow> nat \<Rightarrow> clause_plan \<Rightarrow> packet_store \<Rightarrow> nat list option" where
  "clause_pkts L mrid cplan s = do {
     f \<leftarrow> idx_filter cplan;
     res \<leftarrow> log_filter_max (f_index_id f) (fst (f_tok_range f)) (snd (f_tok_range f)) mrid (base s);
     perform \<leftarrow> perform_pkt_filter cplan;
     (if perform then pf_iterate L (pkt_filter cplan) (dlog (base s)) (olog_of (base s)) res
      else filter_iterate res) }"

fun filter_clauses :: "hdr_layout \<Rightarrow> nat \<Rightarrow> query_plan \<Rightarrow> packet_store \<Rightarrow> nat set \<Rightarrow> nat set option" where
  "filter_clauses L mrid [] s results = Some results"
| "filter_clauses L mrid (c # cs) s results = do {
     ids \<leftarrow> clause_pkts L mrid c s;
     filter_clauses L mrid cs s (results \<union> set ids) }"

definition filter_pkts :: "hdr_layout \<Rightarrow> nat set \<Rightarrow> query_plan \<Rightarrow> packet_store \<Rightarrow> nat set option" where
  "filter_pkts L results plan s = filter_clauses L (num_ids (olog_of (base s))) plan s results"

text \<open>
  The set of results is unordered; an aggregate runs over its elements in the order of the hash
  table, here in ascending order.
\<close>

definition execute_cast :: "hdr_layout \<Rightarrow> (nat list \<Rightarrow> 'r) \<Rightarrow> query_plan \<Rightarrow> packet_store \<Rightarrow> 'r option" where
  "execute_cast L agg plan s = do {
     results \<leftarrow> filter_pkts L {} plan s;
     Some (agg (sorted_list_of_set results)) }"

definition complex_character_lookup :: "nat \<Rightarrow> nat \<Rightarrow> nat \<Rightarrow> packet_store \<Rightarrow> char_result" where
  "complex_character_lookup c ts_beg ts_end s =
     char_filter (num_ids (olog_of (base s))) c (take_bit 32 ts_beg, take_bit 32 ts_end) (char_idx s)"

definition query_character :: "(nat list \<Rightarrow> 'r) \<Rightarrow> nat \<Rightarrow> nat \<Rightarrow> nat \<Rightarrow> packet_store \<Rightarrow> 'r option" where
  "query_character agg c ts_beg ts_end s = do {
     ids \<leftarrow> char_iterate (complex_character_lookup c ts_beg ts_end s);
     Some (agg ids) }"

text \<open>
  The specialisation for counting packets adds the sizes of the lists, which it creates where they are
  missing; \<open>ts\<close> is a \<open>uint32_t\<close>, so the loop never ends for the largest \<open>ts_end\<close>.
\<close>

partial_function (option) count_characters ::
  "nat \<Rightarrow> nat \<Rightarrow> nat \<Rightarrow> nat \<Rightarrow> time_char_index \<Rightarrow> (time_char_index \<times> nat) option" where
  "count_characters c ts ts_end res ix =
     (if ts \<le> ts_end then do {
        (ix1, l) \<leftarrow> char_list_get ts c ix;
        count_characters c (take_bit 32 (ts + 1)) ts_end (take_bit 64 (res + el_size l)) ix1 }
      else Some (ix, res))"

definition query_character_count :: "nat \<Rightarrow> nat \<Rightarrow> nat \<Rightarrow> packet_store \<Rightarrow> (packet_store \<times> nat) option" where
  "query_character_count c ts_beg ts_end s = do {
     (ix, n) \<leftarrow> count_characters c (take_bit 32 ts_beg) (take_bit 32 ts_end) 0 (char_idx s);
     Some (s\<lparr>char_idx := ix\<rparr>, n) }"

end
