(* ===== verification/Packet_Insert.thy ===== *)
theory Packet_Insert
  imports Packet_Store
begin

section \<open>What a burst of packets does to the store\<close>

text \<open>
  The parts of \<open>insert_pktburst\<close> one after another: indexing a packet is an update of the log
  store's indexes with up to four tokens; appending it is appending the record made of the timestamp and the
  packet; then the complex characters. The last section puts them together for a whole burst.
\<close>

subsection \<open>Indexing\<close>

definition pkt_token :: "nat \<Rightarrow> nat \<Rightarrow> token_t" where
  "pkt_token iid k = \<lparr>index_id = iid, token_data = k\<rparr>"

definition pkt_tokens :: "packet_store \<Rightarrow> pkt_fields \<Rightarrow> token_t list" where
  "pkt_tokens s p = [pkt_token (srcip_idx_id s) (p_src_addr p), pkt_token (dstip_idx_id s) (p_dst_addr p)]
     @ (case p_ports p of None \<Rightarrow> []
        | Some (sp, dp) \<Rightarrow> [pkt_token (srcport_idx_id s) sp, pkt_token (dstport_idx_id s) dp])"

text \<open>The five indexes exist, are distinct and of the right length, and the pointers lead to them.\<close>

definition ids_ok :: "packet_store \<Rightarrow> bool" where
  "ids_ok s \<longleftrightarrow>
     index_ptr (srcip_idx_id s) (base s) = Some (Some (srcip_ptr s))
     \<and> index_ptr (dstip_idx_id s) (base s) = Some (Some (dstip_ptr s))
     \<and> index_ptr (srcport_idx_id s) (base s) = Some (Some (srcport_ptr s))
     \<and> index_ptr (dstport_idx_id s) (base s) = Some (Some (dstport_ptr s))
     \<and> index_ptr (timestamp_idx_id s) (base s) = Some (Some (timestamp_ptr s))
     \<and> idx_class (srcip_idx_id s div OFFSETMIN) = Some 4 \<and> idx_class (dstip_idx_id s div OFFSETMIN) = Some 4
     \<and> idx_class (srcport_idx_id s div OFFSETMIN) = Some 2 \<and> idx_class (dstport_idx_id s div OFFSETMIN) = Some 2
     \<and> idx_class (timestamp_idx_id s div OFFSETMIN) = Some 4
     \<and> distinct [srcip_idx_id s, dstip_idx_id s, srcport_idx_id s, dstport_idx_id s, timestamp_idx_id s]"

lemma ids_okD:
  assumes "ids_ok s"
  shows "index_ptr (srcip_idx_id s) (base s) = Some (Some (srcip_ptr s))"
    "index_ptr (dstip_idx_id s) (base s) = Some (Some (dstip_ptr s))"
    "index_ptr (srcport_idx_id s) (base s) = Some (Some (srcport_ptr s))"
    "index_ptr (dstport_idx_id s) (base s) = Some (Some (dstport_ptr s))"
    "index_ptr (timestamp_idx_id s) (base s) = Some (Some (timestamp_ptr s))"
    "idx_class (srcip_idx_id s div OFFSETMIN) = Some 4" "idx_class (dstip_idx_id s div OFFSETMIN) = Some 4"
    "idx_class (srcport_idx_id s div OFFSETMIN) = Some 2" "idx_class (dstport_idx_id s div OFFSETMIN) = Some 2"
    "idx_class (timestamp_idx_id s div OFFSETMIN) = Some 4"
    "distinct [srcip_idx_id s, dstip_idx_id s, srcport_idx_id s, dstport_idx_id s, timestamp_idx_id s]"
  using assms unfolding ids_ok_def by blast+

lemma ids_ok_cong:
  assumes "idx_log b = idx_log (base s)"
  shows "ids_ok (s\<lparr>base := b, char_idx := ix\<rparr>) = ids_ok s" "ids_ok (s\<lparr>base := b\<rparr>) = ids_ok s"
proof -
  have "index_ptr i b = index_ptr i (base s)" for i
    using assms by (simp add: index_ptr_def split: option.split)
  then show "ids_ok (s\<lparr>base := b, char_idx := ix\<rparr>) = ids_ok s" "ids_ok (s\<lparr>base := b\<rparr>) = ids_ok s"
    by (simp_all add: ids_ok_def)
qed

lemma ptr_add_entry_update:
  "index_ptr iid b = Some (Some p) \<Longrightarrow> ptr_add_entry p key rid b = update_index rid (pkt_token iid key) b"
  by (simp add: ptr_add_entry_def update_index_def pkt_token_def)

lemma update_index_ptr: "update_index rid t b = Some b' \<Longrightarrow> index_ptr iid b' = index_ptr iid b"
  by (auto simp: update_index_def bind_Some_iff split: option.splits if_splits)

lemma update_indexes_Nil: "m \<bind> update_indexes rid [] = m"
  by (cases m) simp_all

lemma index_pkt_update:
  assumes "ids_ok s" "pkt_fields_of L pkt = Some p"
  shows "index_pkt L pkt rid s = map_option (\<lambda>b. s\<lparr>base := b\<rparr>) (update_indexes rid (pkt_tokens s p) (base s))"
proof -
  note ptr = ids_okD(1-4) [OF assms(1)]
  have ports: "index_ports (Some sp) (Some dp) rid (s\<lparr>base := b\<rparr>) = map_option (\<lambda>b. s\<lparr>base := b\<rparr>)
      (update_indexes rid [pkt_token (srcport_idx_id s) sp, pkt_token (dstport_idx_id s) dp] b)"
    if "index_ptr (srcport_idx_id s) b = Some (Some (srcport_ptr s))"
      "index_ptr (dstport_idx_id s) b = Some (Some (dstport_ptr s))" for sp dp b
  proof -
    have "ptr_add_entry (dstport_ptr s) dp rid b' = update_index rid (pkt_token (dstport_idx_id s) dp) b'"
      if "update_index rid (pkt_token (srcport_idx_id s) sp) b = Some b'" for b'
      using ptr_add_entry_update update_index_ptr [OF that] \<open>index_ptr (dstport_idx_id s) b = _\<close> by simp
    then show ?thesis
      using ptr_add_entry_update [OF that(1), of sp rid]
      by (cases "update_index rid (pkt_token (srcport_idx_id s) sp) b")
        (simp_all add: index_ports_def bind_Some_map update_indexes_Nil del: update_indexes.simps(1))
  qed
  obtain proto where f: "ipv4_next_proto_id L pkt = Some proto"
    "ipv4_src_addr L pkt = Some (p_src_addr p)" "ipv4_dst_addr L pkt = Some (p_dst_addr p)"
    "case p_ports p of
          None \<Rightarrow> proto \<noteq> IPPROTO_TCP \<and> proto \<noteq> IPPROTO_UDP
        | Some (sp, dp) \<Rightarrow>
            proto = IPPROTO_TCP \<and> tcp_src_port L pkt = Some sp \<and> tcp_dst_port L pkt = Some dp
            \<or> proto \<noteq> IPPROTO_TCP \<and> proto = IPPROTO_UDP \<and> udp_src_port L pkt = Some sp \<and> udp_dst_port L pkt = Some dp"
    using pkt_fields_of_Some [OF assms(2)] by (elim exE conjE)
  show ?thesis
  proof (cases "update_index rid (pkt_token (srcip_idx_id s) (p_src_addr p)) (base s)")
    case None
    then show ?thesis using f(1-3) ptr_add_entry_update [OF ptr(1)] by (simp add: index_pkt_def pkt_tokens_def)
  next
    case (Some b1)
    have p1: "index_ptr iid b1 = index_ptr iid (base s)" for iid using update_index_ptr [OF Some] .
    have a2: "ptr_add_entry (dstip_ptr s) (p_dst_addr p) rid b1 = update_index rid (pkt_token (dstip_idx_id s) (p_dst_addr p)) b1"
      using ptr_add_entry_update p1 ptr(2) by simp
    show ?thesis
    proof (cases "update_index rid (pkt_token (dstip_idx_id s) (p_dst_addr p)) b1")
      case None
      then show ?thesis using Some f(1-3) ptr_add_entry_update [OF ptr(1)] a2 by (simp add: index_pkt_def pkt_tokens_def)
    next
      case (Some b2)
      have p2: "index_ptr iid b2 = index_ptr iid (base s)" for iid using update_index_ptr [OF Some] p1 by simp
      have "index_pkt L pkt rid s = (case p_ports p of None \<Rightarrow> Some (s\<lparr>base := b2\<rparr>)
          | Some (sp, dp) \<Rightarrow> index_ports (Some sp) (Some dp) rid (s\<lparr>base := b2\<rparr>))"
        using \<open>update_index _ _ (base s) = Some b1\<close> Some f ptr_add_entry_update [OF ptr(1)] a2
        by (auto simp: index_pkt_def IPPROTO_TCP_def IPPROTO_UDP_def split: option.splits)
      then show ?thesis
        using \<open>update_index _ _ (base s) = Some b1\<close> Some ports p2 ptr(3,4)
        by (cases "p_ports p") (auto simp: pkt_tokens_def)
    qed
  qed
qed

text \<open>Which of the store's indexes hold a packet under which key.\<close>

definition pkt_has :: "packet_store \<Rightarrow> nat \<Rightarrow> nat \<Rightarrow> pkt_fields \<Rightarrow> bool" where
  "pkt_has s iid k p \<longleftrightarrow> iid = srcip_idx_id s \<and> p_src_addr p = k \<or> iid = dstip_idx_id s \<and> p_dst_addr p = k
     \<or> (case p_ports p of None \<Rightarrow> False
        | Some (sp, dp) \<Rightarrow> iid = srcport_idx_id s \<and> sp = k \<or> iid = dstport_idx_id s \<and> dp = k)"

lemma token_entries_simps:
  "token_entries iid k rid [] = []"
  "token_entries iid k rid (t # ts) = (if index_id t = iid \<and> token_data t = k then [rid] else []) @ token_entries iid k rid ts"
  by (simp_all add: token_entries_def)

lemma token_entries_pkt:
  assumes "ids_ok s"
  shows "token_entries iid k rid (pkt_tokens s p) = (if pkt_has s iid k p then [rid] else [])"
proof -
  have d: "srcip_idx_id s \<noteq> dstip_idx_id s" "srcip_idx_id s \<noteq> srcport_idx_id s" "srcip_idx_id s \<noteq> dstport_idx_id s"
    "dstip_idx_id s \<noteq> srcport_idx_id s" "dstip_idx_id s \<noteq> dstport_idx_id s" "srcport_idx_id s \<noteq> dstport_idx_id s"
    using ids_okD(11) [OF assms] by simp_all
  consider "iid = srcip_idx_id s" | "iid = dstip_idx_id s" | "iid = srcport_idx_id s" | "iid = dstport_idx_id s"
    | "srcip_idx_id s \<noteq> iid" "dstip_idx_id s \<noteq> iid" "srcport_idx_id s \<noteq> iid" "dstport_idx_id s \<noteq> iid" by metis
  then show ?thesis
    by cases (use d d [symmetric] in \<open>simp_all add: token_entries_simps pkt_tokens_def pkt_has_def pkt_token_def split: option.split\<close>)
qed

lemma pkt_field_bounds:
  assumes "pkt_fields_of L pkt = Some p"
  shows "p_src_addr p < 256 ^ 4" "p_dst_addr p < 256 ^ 4" "p_ports p = Some (sp, dp) \<Longrightarrow> sp < 256 ^ 2 \<and> dp < 256 ^ 2"
  using pkt_fields_of_Some [OF assms] load_bound [of _ 4 pkt] load_bound [of _ 2 pkt]
  by (auto simp: attribute_defs)

lemma tokens_room_pkt:
  assumes "ids_ok s" "pkt_fields_of L pkt = Some p"
    and room: "\<And>iid k. key_fits iid k \<Longrightarrow> index_ptr iid (base s) \<noteq> Some None \<Longrightarrow>
      length (index_entries iid k (base s)) + 4 \<le> 2 ^ 28 - 16"
  shows "tokens_room (pkt_tokens s p) (base s)"
proof -
  note i = ids_okD [OF assms(1)] and b = pkt_field_bounds [OF assms(2)]
  have "token_fits t (base s)" if "t \<in> set (pkt_tokens s p)" for t
    using that i(1-4,6-9) b
    by (cases "p_ports p") (auto simp: token_fits_def key_fits_def pkt_tokens_def pkt_token_def)
  moreover have "index_ptr (index_id t) (base s) \<noteq> Some None" if "t \<in> set (pkt_tokens s p)" for t
    using that i(1-4) by (auto simp: pkt_tokens_def pkt_token_def split: option.splits)
  moreover have "length (pkt_tokens s p) \<le> 4" by (simp add: pkt_tokens_def split: option.split)
  ultimately show ?thesis
    unfolding tokens_room_def using room by (fastforce simp: token_fits_def)
qed

lemma index_pkt_spec:
  assumes "ids_ok s" "indexes_ok (base s)" "pkt_fields_of L pkt = Some p"
    and room: "\<And>iid k. key_fits iid k \<Longrightarrow> index_ptr iid (base s) \<noteq> Some None \<Longrightarrow>
      length (index_entries iid k (base s)) + 4 \<le> 2 ^ 28 - 16"
  shows "\<exists>h. index_pkt L pkt rid s = Some (s\<lparr>base := (base s)\<lparr>index_heap := h\<rparr>\<rparr>)
    \<and> indexes_ok ((base s)\<lparr>index_heap := h\<rparr>)
    \<and> (\<forall>iid k. index_ptr iid (base s) \<noteq> Some None \<longrightarrow> key_fits iid k \<longrightarrow>
        index_entries iid k ((base s)\<lparr>index_heap := h\<rparr>) = index_entries iid k (base s) @ (if pkt_has s iid k p then [rid] else []))"
  using update_indexes_spec [OF assms(2) tokens_room_pkt [OF assms(1,3) room], of rid]
  by (auto simp: index_pkt_update [OF assms(1,3)] token_entries_pkt [OF assms(1)])

subsection \<open>Appending\<close>

lemma overlay_append: "overlay (i + length a) b (overlay i a c) = overlay i (a @ b) c"
  by (rule ext) (auto simp: overlay_def nth_append)

definition pkt_bytes :: "mbuf \<Rightarrow> u8 list" where
  "pkt_bytes m = the (load_bytes 0 (pkt_len m) (mtod m))"

definition stored_bytes :: "nat \<Rightarrow> mbuf \<Rightarrow> u8 list" where
  "stored_bytes now m = le_bytes 8 now @ pkt_bytes m"

lemma those_length: "those xs = Some ys \<Longrightarrow> length ys = length xs"
  by (induction xs arbitrary: ys) (auto split: option.splits)

lemma load_bytes_length: "load_bytes off n pkt = Some bs \<Longrightarrow> length bs = n"
  using those_length by (fastforce simp: load_bytes_def)

text \<open>Appending a packet is appending the record made of its timestamp and its bytes.\<close>

lemma append_pkt_record:
  assumes "load_bytes 0 n pkt = Some bytes" "run_fits datalog_nb datalog_bs off (n + 8)"
    and "blocks (dlog b) (off div datalog_bs) \<noteq> None"
  shows "append_pkt off ts pkt n b =
    map_option (\<lambda>b'. (b', n + 8)) (append_record (le_bytes 8 ts @ bytes) (n + 8) off b)"
proof -
  obtain c where c: "blocks (dlog b) (off div datalog_bs) = Some c" using assms(3) by auto
  have len: "length bytes = n" using load_bytes_length [OF assms(1)] .
  have "append_record (le_bytes 8 ts @ bytes) (n + 8) off b = Some (b\<lparr>dlog := (dlog b)\<lparr>blocks := (blocks (dlog b))
      (off div datalog_bs \<mapsto> overlay (off mod datalog_bs) (le_bytes 8 ts @ bytes) c)\<rparr>\<rparr>)"
    using assms(2) len c by (simp add: append_record_def run_fits_def lin_write_eq block_cells_def)
  moreover have "overlay (off mod datalog_bs + 8) bytes (overlay (off mod datalog_bs) (le_bytes 8 ts) c)
      = overlay (off mod datalog_bs) (le_bytes 8 ts @ bytes) c"
    using overlay_append [of "off mod datalog_bs" "le_bytes 8 ts" bytes c] by simp
  ultimately show ?thesis
    using assms(1,2) c len
    by (simp add: append_pkt_def lin_ptr_def lin_load_def lin_copy_in_def run_fits_def)
qed

lemma set_without_alloc_spec:
  assumes "id_room i" "blocks (offlens l) (i div offlens_bs) \<noteq> None"
  shows "\<exists>l'. set_without_alloc i a c l = Some l' \<and> current_write_id l' = current_write_id l
    \<and> current_read_id l' = current_read_id l
    \<and> (\<forall>b. blocks (offlens l) b \<noteq> None \<longrightarrow> blocks (offlens l') b \<noteq> None)
    \<and> offset_lookup i l' = Some (take_bit 48 a, take_bit 16 c)
    \<and> (\<forall>j. id_room j \<longrightarrow> j \<noteq> i \<longrightarrow> offset_lookup j l' = offset_lookup j l)"
proof -
  have v: "lin_valid offlens_nb offlens_bs i" using assms(1) by (simp add: id_room_valid)
  obtain ol where ol: "lin_set offlens_nb offlens_bs i (pack_offlen a c) (offlens l) = Some ol"
    using lin_set_total [OF v] by (rule exE)
  then show ?thesis
    using lin_set_unsafe_eq [OF v assms(2)] lin_set_keeps_blocks [OF v ol]
      linear_array.get_set_same [OF v ol] linear_array.get_set_other [OF v _ _ ol]
    by (simp add: set_without_alloc_def offset_lookup_def unpack_pack id_room_valid)
qed

subsection \<open>Complex characters\<close>

definition char_matches :: "packet_filter list \<Rightarrow> pkt_fields \<Rightarrow> bool" where
  "char_matches fl p \<longleftrightarrow> list_ex (\<lambda>f. accepts f p) fl"

lemma any_applies_matches: "pkt_fields_of L pkt = Some p \<Longrightarrow> any_applies L fl pkt = Some (char_matches fl p)"
  by (induction fl) (simp_all add: char_matches_def apply_pkt_accepts)

lemma record_chars_spec:
  assumes "pkt_fields_of L pkt = Some p" "now < 2 ^ 32" "chars_ok (char_idx s)" "distinct is"
    and "\<And>c. c \<in> set is \<Longrightarrow> c < MAX_FILTERS \<and> list_room (length (char_entries now c (char_idx s)))"
  shows "\<exists>ix. record_chars L now pkt rid is s = Some (s\<lparr>char_idx := ix\<rparr>) \<and> chars_ok ix
    \<and> (\<forall>ts c. ts < 2 ^ 32 \<longrightarrow> c < char_slots \<longrightarrow> char_entries ts c ix = char_entries ts c (char_idx s)
         @ (if ts = now \<and> c \<in> set is \<and> char_matches (filters s c) p then [rid] else []))"
  using assms(3-5)
proof (induction "is" arbitrary: s)
  case Nil
  then show ?case by (intro exI [of _ "char_idx s"]) simp
next
  case (Cons i "is")
  have i: "i < MAX_FILTERS" "i < char_slots" "list_room (length (char_entries now i (char_idx s)))"
    using Cons.prems(3) by (auto simp: MAX_FILTERS_def char_slots_def)
  define m where "m = char_matches (filters s i) p"
  have "\<exists>ix1. (if m then do { ix \<leftarrow> char_push now i rid (char_idx s); Some (s\<lparr>char_idx := ix\<rparr>) } else Some s)
      = Some (s\<lparr>char_idx := ix1\<rparr>) \<and> chars_ok ix1
      \<and> (\<forall>ts c. ts < 2 ^ 32 \<longrightarrow> c < char_slots \<longrightarrow> char_entries ts c ix1 = char_entries ts c (char_idx s)
           @ (if ts = now \<and> c = i \<and> m then [rid] else []))"
  proof (cases m)
    case True
    show ?thesis using char_push_spec [OF assms(2) i(2) Cons.prems(1) i(3), of rid] True by auto
  next
    case False
    then show ?thesis using Cons.prems(1) by (intro exI [of _ "char_idx s"]) simp
  qed
  then obtain ix1 where ix1: "(if m then do { ix \<leftarrow> char_push now i rid (char_idx s); Some (s\<lparr>char_idx := ix\<rparr>) } else Some s)
      = Some (s\<lparr>char_idx := ix1\<rparr>)" "chars_ok ix1"
    "\<And>ts c. ts < 2 ^ 32 \<Longrightarrow> c < char_slots \<Longrightarrow> char_entries ts c ix1 = char_entries ts c (char_idx s)
       @ (if ts = now \<and> c = i \<and> m then [rid] else [])"
    by (elim exE conjE) auto
  have "c < MAX_FILTERS \<and> list_room (length (char_entries now c ix1))" if "c \<in> set is" for c
    using that Cons.prems(2,3) ix1(3) [OF assms(2), of c] by (auto simp: MAX_FILTERS_def char_slots_def)
  then obtain ix where ix: "record_chars L now pkt rid is (s\<lparr>char_idx := ix1\<rparr>) = Some (s\<lparr>char_idx := ix\<rparr>)" "chars_ok ix"
    "\<And>ts c. ts < 2 ^ 32 \<Longrightarrow> c < char_slots \<Longrightarrow> char_entries ts c ix = char_entries ts c ix1
         @ (if ts = now \<and> c \<in> set is \<and> char_matches (filters s c) p then [rid] else [])"
    using Cons.IH [of "s\<lparr>char_idx := ix1\<rparr>"] ix1(2) Cons.prems(2) by auto
  have "record_chars L now pkt rid (i # is) s = Some (s\<lparr>char_idx := ix\<rparr>)"
    using i(1) any_applies_matches [OF assms(1), of "filters s i"] ix1(1) ix(1) by (simp add: m_def)
  moreover have "char_entries ts c ix = char_entries ts c (char_idx s)
         @ (if ts = now \<and> c \<in> set (i # is) \<and> char_matches (filters s c) p then [rid] else [])"
    if "ts < 2 ^ 32" "c < char_slots" for ts c
    using ix(3) [OF that] ix1(3) [OF that] Cons.prems(2) by (auto simp: m_def)
  ultimately show ?case using ix(2) by blast
qed

subsection \<open>One packet\<close>

text \<open>
  A packet the store can take: its length is a \<open>uint16_t\<close>, its bytes can be read, and so can the
  fields of its headers.
\<close>

definition pkt_ok :: "hdr_layout \<Rightarrow> mbuf \<Rightarrow> bool" where
  "pkt_ok L m \<longleftrightarrow> pkt_len m < 2 ^ 16 \<and> load_bytes 0 (pkt_len m) (mtod m) \<noteq> None \<and> pkt_fields_of L (mtod m) \<noteq> None"

definition fields_of :: "hdr_layout \<Rightarrow> mbuf \<Rightarrow> pkt_fields" where
  "fields_of L m = the (pkt_fields_of L (mtod m))"

definition burst_len :: "mbuf list \<Rightarrow> nat" where
  "burst_len ms = (\<Sum>m\<leftarrow>ms. pkt_len m + 8)"

text \<open>The identifiers, from \<open>rid\<close> on, of the packets of a burst that satisfy a condition.\<close>

fun matching_ids :: "(mbuf \<Rightarrow> bool) \<Rightarrow> nat \<Rightarrow> mbuf list \<Rightarrow> nat list" where
  "matching_ids P rid [] = []"
| "matching_ids P rid (m # ms) = (if P m then [rid] else []) @ matching_ids P (Suc rid) ms"

text \<open>What the log store has gained when packets were written from an identifier and an offset on.\<close>

definition stored_at :: "nat \<Rightarrow> nat \<Rightarrow> mbuf \<Rightarrow> nat \<Rightarrow> log_store \<Rightarrow> bool" where
  "stored_at now i m off b \<longleftrightarrow> offset_lookup i (olog_of b) = Some (off, pkt_len m)
     \<and> blocks (dlog b) (off div datalog_bs) \<noteq> None
     \<and> lin_read datalog_nb datalog_bs off (pkt_len m + 8) (dlog b) = Some (map Some (stored_bytes now m))"

definition log_kept :: "nat \<Rightarrow> nat \<Rightarrow> nat \<Rightarrow> log_store \<Rightarrow> log_store \<Rightarrow> bool" where
  "log_kept rid n off b b' \<longleftrightarrow>
     idx_log b' = idx_log b \<and> dtail b' = dtail b \<and> streams b' = streams b \<and> stream_heap b' = stream_heap b
     \<and> current_write_id (olog_of b') = current_write_id (olog_of b)
     \<and> current_read_id (olog_of b') = current_read_id (olog_of b)
     \<and> (\<forall>x. blocks (offlens (olog_of b)) x \<noteq> None \<longrightarrow> blocks (offlens (olog_of b')) x \<noteq> None)
     \<and> (\<forall>x. blocks (dlog b) x \<noteq> None \<longrightarrow> blocks (dlog b') x \<noteq> None)
     \<and> (\<forall>j. id_room j \<longrightarrow> j < rid \<or> rid + n \<le> j \<longrightarrow> offset_lookup j (olog_of b') = offset_lookup j (olog_of b))
     \<and> (\<forall>x k. x + k \<le> off \<longrightarrow> blocks (dlog b) (x div datalog_bs) \<noteq> None \<longrightarrow>
          lin_read datalog_nb datalog_bs x k (dlog b') = lin_read datalog_nb datalog_bs x k (dlog b))"

definition indexed :: "hdr_layout \<Rightarrow> packet_store \<Rightarrow> nat \<Rightarrow> mbuf list \<Rightarrow> log_store \<Rightarrow> log_store \<Rightarrow> bool" where
  "indexed L s rid ms b b' \<longleftrightarrow> (\<forall>iid k. index_ptr iid b \<noteq> Some None \<longrightarrow> key_fits iid k \<longrightarrow>
     index_entries iid k b' = index_entries iid k b @ matching_ids (\<lambda>m. pkt_has s iid k (fields_of L m)) rid ms)"

definition charted :: "hdr_layout \<Rightarrow> nat \<Rightarrow> nat \<Rightarrow> (nat \<Rightarrow> packet_filter list) \<Rightarrow> nat \<Rightarrow> mbuf list \<Rightarrow>
    time_char_index \<Rightarrow> time_char_index \<Rightarrow> bool" where
  "charted L now nc fl rid ms ix ix' \<longleftrightarrow> (\<forall>ts c. ts < 2 ^ 32 \<longrightarrow> c < char_slots \<longrightarrow>
     char_entries ts c ix' = char_entries ts c ix
       @ (if ts = now \<and> c < nc then matching_ids (\<lambda>m. char_matches (fl c) (fields_of L m)) rid ms else []))"

lemma insert_pkt_spec:
  assumes ok: "ids_ok s" "indexes_ok (base s)" "chars_ok (char_idx s)" and m: "pkt_ok L m"
    and now: "now < 2 ^ 32" and nc: "nc \<le> MAX_FILTERS"
    and id: "id_room rid" "blocks (offlens (olog_of (base s))) (rid div offlens_bs) \<noteq> None"
    and off: "off + (pkt_len m + 8) < 2 ^ 40" "run_fits datalog_nb datalog_bs off (pkt_len m + 8)"
      "blocks (dlog (base s)) (off div datalog_bs) \<noteq> None"
    and room: "\<And>iid k. key_fits iid k \<Longrightarrow> index_ptr iid (base s) \<noteq> Some None \<Longrightarrow>
      length (index_entries iid k (base s)) + 4 \<le> 2 ^ 28 - 16"
    and croom: "\<And>c. c < nc \<Longrightarrow> list_room (length (char_entries now c (char_idx s)))"
  shows "\<exists>b ix. insert_pkt L now nc m rid off s = Some (s\<lparr>base := b, char_idx := ix\<rparr>, off + (pkt_len m + 8))
    \<and> indexes_ok b \<and> chars_ok ix \<and> log_kept rid 1 off (base s) b \<and> stored_at now rid m off b
    \<and> indexed L s rid [m] (base s) b \<and> charted L now nc (filters s) rid [m] (char_idx s) ix"
proof -
  obtain p bytes where p: "pkt_fields_of L (mtod m) = Some p" "load_bytes 0 (pkt_len m) (mtod m) = Some bytes"
    "pkt_len m < 2 ^ 16" using m by (auto simp: pkt_ok_def)
  have sz: "take_bit 16 (pkt_len m) = pkt_len m" using p(3) by (intro take_bit_id) simp
  have fl: "fields_of L m = p" "stored_bytes now m = le_bytes 8 now @ bytes"
    using p by (simp_all add: fields_of_def stored_bytes_def pkt_bytes_def)
  obtain h where h: "index_pkt L (mtod m) rid s = Some (s\<lparr>base := (base s)\<lparr>index_heap := h\<rparr>\<rparr>)"
    "indexes_ok ((base s)\<lparr>index_heap := h\<rparr>)"
    "\<forall>iid k. index_ptr iid (base s) \<noteq> Some None \<longrightarrow> key_fits iid k \<longrightarrow>
        index_entries iid k ((base s)\<lparr>index_heap := h\<rparr>) = index_entries iid k (base s) @ (if pkt_has s iid k p then [rid] else [])"
    using index_pkt_spec [OF ok(1,2) p(1) room, of rid] by blast
  obtain ol where ol: "set_without_alloc rid off (pkt_len m) (olog_of (base s)) = Some ol"
    "current_write_id ol = current_write_id (olog_of (base s))" "current_read_id ol = current_read_id (olog_of (base s))"
    "\<forall>b. blocks (offlens (olog_of (base s))) b \<noteq> None \<longrightarrow> blocks (offlens ol) b \<noteq> None"
    "offset_lookup rid ol = Some (take_bit 48 off, take_bit 16 (pkt_len m))"
    "\<forall>j. id_room j \<longrightarrow> j \<noteq> rid \<longrightarrow> offset_lookup j ol = offset_lookup j (olog_of (base s))"
    using set_without_alloc_spec [OF id, of off "pkt_len m"] by blast
  let ?b1 = "(base s)\<lparr>index_heap := h, olog_of := ol\<rparr>"
  have len: "length (le_bytes 8 now @ bytes) = pkt_len m + 8" using load_bytes_length [OF p(2)] by simp
  obtain d where d: "append_record (le_bytes 8 now @ bytes) (pkt_len m + 8) off ?b1 = Some (?b1\<lparr>dlog := d\<rparr>)"
    "lin_read datalog_nb datalog_bs off (pkt_len m + 8) d = Some (map Some (le_bytes 8 now @ bytes))"
    "blocks d (off div datalog_bs) \<noteq> None" "\<forall>b. blocks (dlog (base s)) b \<noteq> None \<longrightarrow> blocks d b \<noteq> None"
    "\<forall>o' k. o' + k \<le> off \<longrightarrow> blocks (dlog (base s)) (o' div datalog_bs) \<noteq> None \<longrightarrow>
          lin_read datalog_nb datalog_bs o' k d = lin_read datalog_nb datalog_bs o' k (dlog (base s))"
    using append_record_spec [OF off(2), of "le_bytes 8 now @ bytes" ?b1] len by auto
  let ?b = "?b1\<lparr>dlog := d\<rparr>"
  have ap: "append_pkt off now (mtod m) (pkt_len m) ?b1 = Some (?b, pkt_len m + 8)"
    using append_pkt_record [OF p(2) off(2), of ?b1 now] off(3) d(1) by simp
  obtain ix where ix: "record_chars L now (mtod m) rid [0..<nc] (s\<lparr>base := ?b\<rparr>) = Some (s\<lparr>base := ?b, char_idx := ix\<rparr>)"
    "chars_ok ix" "\<forall>ts c. ts < 2 ^ 32 \<longrightarrow> c < char_slots \<longrightarrow> char_entries ts c ix = char_entries ts c (char_idx s)
         @ (if ts = now \<and> c \<in> set [0..<nc] \<and> char_matches (filters s c) p then [rid] else [])"
    using record_chars_spec [OF p(1) now, of "s\<lparr>base := ?b\<rparr>" "[0..<nc]" rid] ok(3) nc croom by auto
  have wrap: "take_bit 64 (off + (pkt_len m + 8)) = off + (pkt_len m + 8)" using off(1) by (intro take_bit_64_id) simp
  have small: "take_bit 48 off = off" using off(1) by (intro take_bit_id) simp
  have "insert_pkt L now nc m rid off s = Some (s\<lparr>base := ?b, char_idx := ix\<rparr>, off + (pkt_len m + 8))"
    unfolding insert_pkt_def Let_def sz using h(1) ol(1) ap ix(1) by (simp add: wrap)
  moreover have view: "index_ptr iid ?b = index_ptr iid ((base s)\<lparr>index_heap := h\<rparr>)"
    "indexes_ok ?b" "index_entries iid k ?b = index_entries iid k ((base s)\<lparr>index_heap := h\<rparr>)" for iid k
    using index_view_cong [of ?b "(base s)\<lparr>index_heap := h\<rparr>"] h(2) by simp_all
  moreover have "log_kept rid 1 off (base s) ?b"
    using ol(2-6) d(4,5) unfolding log_kept_def by (simp add: less_imp_neq)
  moreover have "stored_at now rid m off ?b" using ol(5) small sz d(2,3) fl(2) by (simp add: stored_at_def)
  moreover have "indexed L s rid [m] (base s) ?b" using view(3) h(3) by (simp add: indexed_def fl(1))
  moreover have "charted L now nc (filters s) rid [m] (char_idx s) ix" using ix(3) by (simp add: charted_def fl(1))
  ultimately show ?thesis using ix(2) by blast
qed

subsection \<open>The loop over a burst\<close>

lemma log_kept_trans:
  assumes "log_kept rid 1 off b b1" "log_kept (Suc rid) n off' b1 b2" "off \<le> off'"
  shows "log_kept rid (Suc n) off b b2"
  using assms(1,2) assms(3) unfolding log_kept_def by (auto simp: le_trans)

lemma stored_at_kept:
  assumes "stored_at now rid m off b1" "log_kept (Suc rid) n off' b1 b2" "off + (pkt_len m + 8) \<le> off'" "id_room rid"
  shows "stored_at now rid m off b2"
  using assms unfolding stored_at_def log_kept_def by auto

lemma log_kept_index_ptr: "log_kept rid n off b b' \<Longrightarrow> index_ptr iid b' = index_ptr iid b"
  by (simp add: log_kept_def index_ptr_def split: option.split)

lemma indexed_trans:
  assumes "indexed L s rid [m] b b1" "indexed L s (Suc rid) ms b1 b2" "log_kept rid n off b b1"
  shows "indexed L s rid (m # ms) b b2"
  using assms by (simp add: indexed_def log_kept_index_ptr [OF assms(3)])

lemma charted_trans:
  assumes "charted L now nc fl rid [m] ix ix1" "charted L now nc fl (Suc rid) ms ix1 ix2"
  shows "charted L now nc fl rid (m # ms) ix ix2"
  using assms by (simp add: charted_def)

lemma length_matching_ids: "length (matching_ids P rid ms) \<le> length ms"
  by (induction ms arbitrary: rid) (simp_all add: le_SucI)

lemma indexed_cong: "indexed L s rid ms b b' = indexed L (s\<lparr>base := x, char_idx := y\<rparr>) rid ms b b'"
  by (simp add: indexed_def pkt_has_def cong: option.case_cong)

text \<open>Every packet of the burst ends inside its block or the buffer behind it.\<close>

fun burst_fits :: "nat \<Rightarrow> mbuf list \<Rightarrow> bool" where
  "burst_fits off [] = True"
| "burst_fits off (m # ms) \<longleftrightarrow> run_fits datalog_nb datalog_bs off (pkt_len m + 8) \<and> burst_fits (off + (pkt_len m + 8)) ms"

fun burst_stored :: "nat \<Rightarrow> nat \<Rightarrow> nat \<Rightarrow> mbuf list \<Rightarrow> log_store \<Rightarrow> bool" where
  "burst_stored now rid off [] b = True"
| "burst_stored now rid off (m # ms) b \<longleftrightarrow>
     stored_at now rid m off b \<and> burst_stored now (Suc rid) (off + (pkt_len m + 8)) ms b"

lemma insert_pkts_spec:
  assumes "ids_ok s" "indexes_ok (base s)" "chars_ok (char_idx s)" "\<forall>m \<in> set ms. pkt_ok L m"
    and now: "now < 2 ^ 32" and nc: "nc \<le> MAX_FILTERS"
    and "rid + length ms < 2 ^ 34"
    and "\<And>i. rid \<le> i \<Longrightarrow> i < rid + length ms \<Longrightarrow> blocks (offlens (olog_of (base s))) (i div offlens_bs) \<noteq> None"
    and "off + burst_len ms < 2 ^ 40" "burst_fits off ms"
    and "\<And>x. off \<le> x \<Longrightarrow> x < off + burst_len ms \<Longrightarrow> blocks (dlog (base s)) (x div datalog_bs) \<noteq> None"
    and "\<And>iid k. key_fits iid k \<Longrightarrow> index_ptr iid (base s) \<noteq> Some None \<Longrightarrow>
      length (index_entries iid k (base s)) + (length ms + 3) \<le> 2 ^ 28 - 16"
    and "\<And>c. c < nc \<Longrightarrow> length (char_entries now c (char_idx s)) + length ms \<le> 2 ^ 28 - 16"
  shows "\<exists>b ix. insert_pkts L now nc ms rid off s = Some (s\<lparr>base := b, char_idx := ix\<rparr>)
    \<and> indexes_ok b \<and> chars_ok ix \<and> log_kept rid (length ms) off (base s) b \<and> burst_stored now rid off ms b
    \<and> indexed L s rid ms (base s) b \<and> charted L now nc (filters s) rid ms (char_idx s) ix"
  using assms(1-4) assms(7-13)
proof (induction ms arbitrary: s rid off)
  case Nil
  then show ?case
    by (intro exI [of _ "base s"] exI [of _ "char_idx s"]) (simp add: log_kept_def indexed_def charted_def)
next
  case (Cons m ms)
  let ?off = "off + (pkt_len m + 8)"
  have len: "burst_len (m # ms) = pkt_len m + 8 + burst_len ms" by (simp add: burst_len_def)
  have room1: "length (index_entries iid k (base s)) + 4 \<le> 2 ^ 28 - 16"
    if "key_fits iid k" "index_ptr iid (base s) \<noteq> Some None" for iid k
    using Cons.prems(10) [OF that] by simp
  have croom1: "list_room (length (char_entries now c (char_idx s)))" if "c < nc" for c
    using Cons.prems(11) [OF that] by (simp add: list_room_iff)
  have rid: "id_room rid" using Cons.prems(5) by (simp add: id_room_bound)
  obtain b ix where b: "insert_pkt L now nc m rid off s = Some (s\<lparr>base := b, char_idx := ix\<rparr>, ?off)"
    "indexes_ok b" "chars_ok ix" "log_kept rid 1 off (base s) b" "stored_at now rid m off b"
    "indexed L s rid [m] (base s) b" "charted L now nc (filters s) rid [m] (char_idx s) ix"
    using insert_pkt_spec [OF Cons.prems(1-3) _ now nc rid _ _ _ _ room1 croom1, where off = off and m = m and L = L]
      Cons.prems(4-9) len by fastforce
  let ?s1 = "s\<lparr>base := b, char_idx := ix\<rparr>"
  have ids: "ids_ok ?s1" using Cons.prems(1) b(4) by (simp add: ids_ok_cong log_kept_def)
  have wrap: "take_bit 64 (rid + 1) = Suc rid" using Cons.prems(5) take_bit_64_id [of "rid + 1"] by simp
  have entries: "length (index_entries iid k b) + (length ms + 3) \<le> 2 ^ 28 - 16"
    if "key_fits iid k" "index_ptr iid b \<noteq> Some None" for iid k
    using Cons.prems(10) [OF that(1)] that b(6) length_matching_ids [of _ rid "[m]"]
    by (fastforce simp: indexed_def log_kept_index_ptr [OF b(4)])
  have chars: "length (char_entries now c ix) + length ms \<le> 2 ^ 28 - 16" if "c < nc" for c
    using Cons.prems(11) [OF that] b(7) now that nc by (auto simp: charted_def MAX_FILTERS_def char_slots_def)
  have alloc: "\<And>i. Suc rid \<le> i \<Longrightarrow> i < Suc rid + length ms \<Longrightarrow> blocks (offlens (olog_of b)) (i div offlens_bs) \<noteq> None"
    "\<And>x. ?off \<le> x \<Longrightarrow> x < ?off + burst_len ms \<Longrightarrow> blocks (dlog b) (x div datalog_bs) \<noteq> None"
    using Cons.prems(6,9) b(4) len by (auto simp: log_kept_def)
  obtain b2 ix2 where b2: "insert_pkts L now nc ms (Suc rid) ?off ?s1 = Some (s\<lparr>base := b2, char_idx := ix2\<rparr>)"
    "indexes_ok b2" "chars_ok ix2" "log_kept (Suc rid) (length ms) ?off b b2" "burst_stored now (Suc rid) ?off ms b2"
    "indexed L s (Suc rid) ms b b2" "charted L now nc (filters s) (Suc rid) ms ix ix2"
    using Cons.IH [of ?s1 "Suc rid" ?off] ids b(2,3) Cons.prems(4,5,7,8) len alloc entries chars
    by (auto simp: indexed_cong [of L s, symmetric])
  have "insert_pkts L now nc (m # ms) rid off s = Some (s\<lparr>base := b2, char_idx := ix2\<rparr>)"
    using b(1) b2(1) wrap by simp
  moreover have "log_kept rid (length (m # ms)) off (base s) b2" using log_kept_trans [OF b(4) b2(4)] by simp
  moreover have "burst_stored now rid off (m # ms) b2" using stored_at_kept [OF b(5) b2(4) _ rid] b2(5) by simp
  ultimately show ?case
    using b2(2,3) indexed_trans [OF b(6) b2(6) b(4)] charted_trans [OF b(7) b2(7)] by blast
qed

subsection \<open>Before and after the loop\<close>

text \<open>A run of identifiers appended to one list of an index of four-byte keys.\<close>

lemma index4_add_range:
  assumes "obj_ok (Index4 y)" "k < 2 ^ 32" "0 < n" "length (obj_list k (Index4 y)) + n \<le> 2 ^ 28 - 16" "start + n \<le> 2 ^ 64"
  shows "\<exists>y1 l l' j. obj_get k (Index4 y) = Some (Index4 y1, l) \<and> el_push_back_range start (start + n - 1) l = Some (l', j)
    \<and> obj_ok (obj_store k l' (Index4 y1))
    \<and> (\<forall>k' < 2 ^ 32. obj_list k' (obj_store k l' (Index4 y1)) =
         obj_list k' (Index4 y) @ (if k' = k then [start..<start + n] else []))"
proof -
  have list: "obj_list j (Index4 z) = index_list (d2_at 65536 65536) j z" for j z
    by (simp add: obj_list_def index_list_def)
  have ok: "obj_ok (Index4 z) = index_ok (d2_covers 65536 65536) (d2_at 65536 65536) z" for z
    by (simp add: obj_ok_def index_ok_def)
  have k: "d2_covers 65536 65536 k" using assms(2) by (simp add: time_covers)
  obtain y1 l where g: "d2_get 65536 65536 new_entry_list k y = Some (y1, l)" "relaxed_invar entry_list_nbuckets l"
    "relaxed_contents entry_list_nbuckets l = obj_list k (Index4 y)"
    "\<forall>l'. d2_at 65536 65536 k (d2_store 65536 k l' y1) = Some (Some l')
       \<and> (\<forall>k'. d2_covers 65536 65536 k' \<longrightarrow> k' \<noteq> k \<longrightarrow> d2_at 65536 65536 k' (d2_store 65536 k l' y1) = d2_at 65536 65536 k' y)"
    using e2.get_list [OF k, of y] assms(1) unfolding list ok by blast
  have tail: "tail l = length (obj_list k (Index4 y))"
    using relaxed.size_contents [OF g(2)] g(3) by (simp add: relaxed_size_def)
  have "valid_index entry_list_nbuckets (tail l + n - 1)"
    using assms(3,4) tail list_room_iff [of "tail l + n - 1"] by (simp add: list_room_def)
  then obtain l' where l': "relaxed_push_back_range entry_list_nbuckets start (start + n - 1) l = Some (l', tail l)"
    "relaxed_invar entry_list_nbuckets l'" "relaxed_contents entry_list_nbuckets l' = obj_list k (Index4 y) @ [start..<start + n]"
    using relaxed_push_range [OF g(2) assms(3) _ assms(5)] g(3) by auto
  have st: "index_ok (d2_covers 65536 65536) (d2_at 65536 65536) (d2_store 65536 k l' y1)"
    "d2_covers 65536 65536 k' \<Longrightarrow> index_list (d2_at 65536 65536) k' (d2_store 65536 k l' y1) =
      (if k' = k then relaxed_contents entry_list_nbuckets l' else index_list (d2_at 65536 65536) k' y)" for k'
    using e2.store_list [OF k, of y l' "d2_store 65536 k l' y1"] assms(1,3) l'(2,3) g(4) by (simp_all add: ok)
  show ?thesis
    using g(1) l'(1,3) st by (simp add: el_push_back_range_def list ok time_covers)
qed

lemma obj_bytes_4: "obj_bytes ix = 4 \<Longrightarrow> \<exists>y. ix = Index4 y"
  by (cases ix) simp_all

lemma ptr_add_range_spec:
  assumes ok: "indexes_ok b" and p: "index_ptr iid b = Some (Some p)" "idx_class (iid div OFFSETMIN) = Some 4"
    and k: "key < 2 ^ 32" "0 < n" "length (index_entries iid key b) + n \<le> 2 ^ 28 - 16" "start + n \<le> 2 ^ 64"
  shows "\<exists>h. ptr_add_range p key start (start + n - 1) b = Some (b\<lparr>index_heap := h\<rparr>) \<and> indexes_ok (b\<lparr>index_heap := h\<rparr>)
    \<and> (\<forall>i k. index_ptr i b \<noteq> Some None \<longrightarrow> key_fits i k \<longrightarrow>
        index_entries i k (b\<lparr>index_heap := h\<rparr>) = index_entries i k b @ (if i = iid \<and> k = key then [start..<start + n] else []))"
proof -
  note d = indexes_okD [OF ok p(1)]
  obtain y where y: "index_heap b ! p = Index4 y" using d(3) p(2) obj_bytes_4 [of "index_heap b ! p"] by auto
  have e: "index_entries iid k b = obj_list k (Index4 y)" for k using p(1) y by (simp add: index_entries_def)
  obtain y1 l l' j where r: "obj_get key (Index4 y) = Some (Index4 y1, l)" "el_push_back_range start (start + n - 1) l = Some (l', j)"
    "obj_ok (obj_store key l' (Index4 y1))"
    "\<forall>k' < 2 ^ 32. obj_list k' (obj_store key l' (Index4 y1)) = obj_list k' (Index4 y) @ (if k' = key then [start..<start + n] else [])"
    using index4_add_range [of y key n start] d(2) y k e [of key] by auto
  let ?h = "(index_heap b)[p := obj_store key l' (Index4 y1)]"
  have "ptr_add_range p key start (start + n - 1) b = Some (b\<lparr>index_heap := ?h\<rparr>)"
    using d(1) y r(1,2) by (simp add: ptr_add_range_def)
  moreover have "indexes_ok (b\<lparr>index_heap := ?h\<rparr>)"
    using ok d(1) y r(3) unfolding indexes_ok_def by (auto simp: nth_list_update)
  moreover have "index_entries i k (b\<lparr>index_heap := ?h\<rparr>) = index_entries i k b @ (if i = iid \<and> k = key then [start..<start + n] else [])"
    if "key_fits i k" for i k
  proof (cases "index_ptr i b = Some (Some p)")
    case True
    then have "i = iid" using d(4) by blast
    then show ?thesis
      using True e [of k] d(1) r(4) that p(2) by (auto simp: index_entries_def key_fits_def)
  next
    case False
    then have "i \<noteq> iid" using p(1) by auto
    then show ?thesis using False by (auto simp: index_entries_def split: option.split)
  qed
  ultimately show ?thesis by blast
qed

lemma time_get_spec:
  assumes "now < 2 ^ 32"
  shows "\<exists>ix' ci. time_get now ix = Some (ix', ci)
    \<and> (\<forall>ts c. ts < 2 ^ 32 \<longrightarrow> c < char_slots \<longrightarrow> char_list_at ts c ix' = char_list_at ts c ix)"
proof -
  have now: "d2_covers 65536 65536 now" using assms by (simp add: time_covers)
  obtain r where r: "d2_at 65536 65536 now ix = Some r" using d2.at_total [OF now, of ix] by auto
  obtain ix' where ix': "d2_get 65536 65536 indexlet_init now ix = Some (ix', case r of None \<Rightarrow> indexlet_init | Some v \<Rightarrow> v)"
    "d2_at 65536 65536 now ix' = Some (Some (case r of None \<Rightarrow> indexlet_init | Some v \<Rightarrow> v))"
    "\<forall>k'. d2_covers 65536 65536 k' \<longrightarrow> k' \<noteq> now \<longrightarrow> d2_at 65536 65536 k' ix' = d2_at 65536 65536 k' ix"
    using d2.get_at [OF now, where fresh = indexlet_init and ix = ix] r by auto
  have "char_list_at ts c ix' = char_list_at ts c ix" if "ts < 2 ^ 32" "c < char_slots" for ts c
  proof -
    have "d1_at char_slots c indexlet_init = Some (None :: entry_list option)"
      using that(2) by (intro d1.at_init) (simp add: char_covers)
    then show ?thesis
      using ix'(2,3) r that(1) by (cases "ts = now"; cases r) (simp_all add: char_list_at_eq time_covers)
  qed
  then show ?thesis using ix'(1) by (auto simp: time_get_def)
qed

lemma char_view_cong:
  assumes "\<forall>ts c. ts < 2 ^ 32 \<longrightarrow> c < char_slots \<longrightarrow> char_list_at ts c ix' = char_list_at ts c ix"
  shows "chars_ok ix' = chars_ok ix" "ts < 2 ^ 32 \<Longrightarrow> c < char_slots \<Longrightarrow> char_entries ts c ix' = char_entries ts c ix"
  using assms by (auto simp: chars_ok_def char_entries_def index_list_def)

lemma request_id_block_spec:
  assumes "current_write_id l + n < 2 ^ 34"
  shows "\<exists>l'. request_id_block n l = Some (l', current_write_id l) \<and> current_write_id l' = current_write_id l + n
    \<and> current_read_id l' = current_read_id l
    \<and> (\<forall>i. current_write_id l \<le> i \<longrightarrow> i \<le> current_write_id l + n \<longrightarrow> blocks (offlens l') (i div offlens_bs) \<noteq> None)
    \<and> (\<forall>j. id_room j \<longrightarrow> offset_lookup j l' = offset_lookup j l)"
proof -
  have wrap: "take_bit 64 (current_write_id l + n) = current_write_id l + n" using assms by (intro take_bit_64_id) simp
  have "id_room (current_write_id l + n)" using assms by (simp add: id_room_bound)
  then have room: "(current_write_id l + n) div offlens_bs < offlens_nb" by (simp add: id_room_def)
  show ?thesis
    using lin_alloc_range_spec [OF room, of "current_write_id l div offlens_bs" "offlens l"]
    by (auto simp: request_id_block_def Let_def wrap lin_ensure_alloc_def div_le_mono offset_lookup_def id_room_valid lin_get_eq)
qed

lemma request_bytes_alloc:
  assumes "dtail s + n < 2 ^ 40"
  shows "\<exists>d. request_bytes n s = Some (s\<lparr>dtail := dtail s + n, dlog := d\<rparr>, dtail s)
    \<and> (\<forall>b. blocks (dlog s) b \<noteq> None \<longrightarrow> blocks d b \<noteq> None)
    \<and> (\<forall>x. dtail s \<le> x \<longrightarrow> x \<le> dtail s + n \<longrightarrow> blocks d (x div datalog_bs) \<noteq> None)
    \<and> (\<forall>b. block_cells b d = block_cells b (dlog s))"
proof -
  have wrap: "take_bit 64 (dtail s + n) = dtail s + n" using assms by (intro take_bit_64_id) simp
  have room: "(dtail s + n) div datalog_bs < datalog_nb"
    using assms by (simp add: datalog_bs_def datalog_nb_def div_less_iff_less_mult)
  show ?thesis
    using lin_alloc_range_spec [OF room, of "dtail s div datalog_bs" "dlog s"]
    by (auto simp: request_bytes_def Let_def wrap lin_ensure_alloc_def div_le_mono)
qed

section \<open>The packets of a store\<close>

definition pkt_at :: "nat \<Rightarrow> log_store \<Rightarrow> (nat \<times> u8 list) option" where
  "pkt_at i b = do {
     (off, len) \<leftarrow> offset_lookup i (olog_of b);
     cells \<leftarrow> lin_read datalog_nb datalog_bs off (len + 8) (dlog b);
     bytes \<leftarrow> those cells;
     Some (le_value (take 8 bytes), drop 8 bytes) }"

text \<open>The list of packets a store stands for, each with the second it was inserted.\<close>

definition store_pkts :: "packet_store \<Rightarrow> (nat \<times> u8 list) list" where
  "store_pkts s = map (\<lambda>i. the (pkt_at i (base s))) [0..<num_pkts s]"

definition packets_ok :: "log_store \<Rightarrow> bool" where
  "packets_ok b \<longleftrightarrow> (\<forall>i < num_records b. \<exists>off len bytes. offset_lookup i (olog_of b) = Some (off, len)
     \<and> off + (len + 8) \<le> dtail b \<and> blocks (dlog b) (off div datalog_bs) \<noteq> None
     \<and> lin_read datalog_nb datalog_bs off (len + 8) (dlog b) = Some (map Some bytes))"

definition pstore_ok :: "packet_store \<Rightarrow> bool" where
  "pstore_ok s \<longleftrightarrow> ids_ok s \<and> indexes_ok (base s) \<and> chars_ok (char_idx s)
     \<and> current_write_id (olog_of (base s)) = current_read_id (olog_of (base s)) \<and> num_pkts s < 2 ^ 34
     \<and> packets_ok (base s) \<and> num_filters s \<le> MAX_FILTERS"

text \<open>A burst the store can take.\<close>

definition burst_room :: "hdr_layout \<Rightarrow> nat \<Rightarrow> mbuf list \<Rightarrow> packet_store \<Rightarrow> bool" where
  "burst_room L now pkts s \<longleftrightarrow> pkts \<noteq> [] \<and> length pkts < 2 ^ 16 \<and> (\<forall>m \<in> set pkts. pkt_ok L m) \<and> now < 2 ^ 32
     \<and> num_pkts s + length pkts < 2 ^ 34
     \<and> dtail (base s) + burst_len pkts < 2 ^ 40 \<and> burst_fits (dtail (base s)) pkts
     \<and> (\<forall>iid k. key_fits iid k \<longrightarrow> index_ptr iid (base s) \<noteq> Some None \<longrightarrow>
          length (index_entries iid k (base s)) + (2 * length pkts + 3) \<le> 2 ^ 28 - 16)
     \<and> (\<forall>c < num_filters s. length (char_entries now c (char_idx s)) + length pkts \<le> 2 ^ 28 - 16)"

lemma those_map_Some_id [simp]: "those (map Some xs) = Some xs"
  using those_map_Some [of id xs] by simp

lemma stored_at_pkt:
  assumes "stored_at now i m off b" "now < 2 ^ 32"
  shows "pkt_at i b = Some (now, pkt_bytes m)"
proof -
  have "le_value (le_bytes 8 now) = now" using le_value_bytes [of 8 now] assms(2) by simp
  moreover have "take 8 (stored_bytes now m) = le_bytes 8 now" "drop 8 (stored_bytes now m) = pkt_bytes m"
    by (simp_all add: stored_bytes_def)
  ultimately show ?thesis using assms(1) by (simp add: stored_at_def pkt_at_def)
qed

lemma burst_stored_nth:
  assumes "burst_stored now rid off ms b" "j < length ms"
  shows "\<exists>x. stored_at now (rid + j) (ms ! j) x b \<and> x + (pkt_len (ms ! j) + 8) \<le> off + burst_len ms"
  using assms
proof (induction ms arbitrary: rid off j)
  case (Cons m ms)
  show ?case
  proof (cases j)
    case 0
    then show ?thesis using Cons.prems by (auto simp: burst_len_def)
  next
    case (Suc i)
    then show ?thesis using Cons.IH [of "Suc rid" "off + (pkt_len m + 8)" i] Cons.prems by (auto simp: burst_len_def add.assoc)
  qed
qed simp

lemma burst_bytes_len: "burst_len pkts < 2 ^ 64 \<Longrightarrow> burst_bytes pkts = burst_len pkts"
proof -
  have "length pkts * 8 + (\<Sum>m\<leftarrow>pkts. pkt_len m) = burst_len pkts"
    by (induction pkts) (simp_all add: burst_len_def)
  then show "burst_len pkts < 2 ^ 64 \<Longrightarrow> ?thesis" by (simp add: burst_bytes_def take_bit_id)
qed

lemma pkt_at_kept:
  assumes "packets_ok b" "num_records b \<le> 2 ^ 34" "i < num_records b"
    and "\<And>j. id_room j \<Longrightarrow> j < num_records b \<Longrightarrow> offset_lookup j (olog_of b') = offset_lookup j (olog_of b)"
    and "\<And>x k. x + k \<le> dtail b \<Longrightarrow> blocks (dlog b) (x div datalog_bs) \<noteq> None \<Longrightarrow> blocks (dlog b') (x div datalog_bs) \<noteq> None
      \<and> lin_read datalog_nb datalog_bs x k (dlog b') = lin_read datalog_nb datalog_bs x k (dlog b)"
    and "dtail b \<le> dtail b'"
  shows "pkt_at i b' = pkt_at i b"
    "\<exists>off len bytes. offset_lookup i (olog_of b') = Some (off, len) \<and> off + (len + 8) \<le> dtail b'
      \<and> blocks (dlog b') (off div datalog_bs) \<noteq> None \<and> lin_read datalog_nb datalog_bs off (len + 8) (dlog b') = Some (map Some bytes)"
proof -
  obtain off len bytes where r: "offset_lookup i (olog_of b) = Some (off, len)" "off + (len + 8) \<le> dtail b"
    "blocks (dlog b) (off div datalog_bs) \<noteq> None" "lin_read datalog_nb datalog_bs off (len + 8) (dlog b) = Some (map Some bytes)"
    using assms(1,3) unfolding packets_ok_def by blast
  have "id_room i" using assms(2,3) by (simp add: id_room_bound)
  then have l: "offset_lookup i (olog_of b') = Some (off, len)" using assms(3,4) r(1) by simp
  note k = assms(5) [OF r(2,3)]
  show "pkt_at i b' = pkt_at i b" using l r k by (simp add: pkt_at_def)
  show "\<exists>off len bytes. offset_lookup i (olog_of b') = Some (off, len) \<and> off + (len + 8) \<le> dtail b'
      \<and> blocks (dlog b') (off div datalog_bs) \<noteq> None \<and> lin_read datalog_nb datalog_bs off (len + 8) (dlog b') = Some (map Some bytes)"
    using l r(2,4) k assms(6) by auto
qed

subsection \<open>A whole burst\<close>

text \<open>What precedes the loop leaves a store in which the loop can run.\<close>

lemma burst_prepare:
  assumes ok: "pstore_ok s" and room: "burst_room L now pkts s"
  shows "\<exists>ol d cix h ci. request_id_block (length pkts) (olog_of (base s)) = Some (ol, num_pkts s)
    \<and> request_bytes (burst_bytes pkts) ((base s)\<lparr>olog_of := ol\<rparr>)
        = Some ((base s)\<lparr>olog_of := ol, dtail := dtail (base s) + burst_len pkts, dlog := d\<rparr>, dtail (base s))
    \<and> time_get now (char_idx s) = Some (cix, ci)
    \<and> ptr_add_range (timestamp_ptr s) now (num_pkts s) (num_pkts s + length pkts - 1)
          ((base s)\<lparr>olog_of := ol, dtail := dtail (base s) + burst_len pkts, dlog := d\<rparr>)
        = Some ((base s)\<lparr>olog_of := ol, dtail := dtail (base s) + burst_len pkts, dlog := d, index_heap := h\<rparr>)
    \<and> indexes_ok ((base s)\<lparr>olog_of := ol, dtail := dtail (base s) + burst_len pkts, dlog := d, index_heap := h\<rparr>)
    \<and> (\<forall>iid k. index_ptr iid (base s) \<noteq> Some None \<longrightarrow> key_fits iid k \<longrightarrow>
         index_entries iid k ((base s)\<lparr>olog_of := ol, dtail := dtail (base s) + burst_len pkts, dlog := d, index_heap := h\<rparr>)
         = index_entries iid k (base s) @ (if iid = timestamp_idx_id s \<and> k = now then [num_pkts s..<num_pkts s + length pkts] else []))
    \<and> current_write_id ol = num_pkts s + length pkts \<and> current_read_id ol = num_pkts s
    \<and> (\<forall>i. num_pkts s \<le> i \<longrightarrow> i \<le> num_pkts s + length pkts \<longrightarrow> blocks (offlens ol) (i div offlens_bs) \<noteq> None)
    \<and> (\<forall>j. id_room j \<longrightarrow> offset_lookup j ol = offset_lookup j (olog_of (base s)))
    \<and> (\<forall>b. blocks (dlog (base s)) b \<noteq> None \<longrightarrow> blocks d b \<noteq> None)
    \<and> (\<forall>x. dtail (base s) \<le> x \<longrightarrow> x \<le> dtail (base s) + burst_len pkts \<longrightarrow> blocks d (x div datalog_bs) \<noteq> None)
    \<and> (\<forall>b. block_cells b d = block_cells b (dlog (base s)))
    \<and> (\<forall>ts c. ts < 2 ^ 32 \<longrightarrow> c < char_slots \<longrightarrow> char_list_at ts c cix = char_list_at ts c (char_idx s))"
proof -
  have cw: "current_write_id (olog_of (base s)) = num_pkts s"
    using ok by (simp add: pstore_ok_def num_pkts_def num_records_def num_ids_def)
  have now: "now < 2 ^ 32" and n: "0 < length pkts" "num_pkts s + length pkts < 2 ^ 34"
    and len: "dtail (base s) + burst_len pkts < 2 ^ 40" using room by (auto simp: burst_room_def)
  obtain ol where ol: "request_id_block (length pkts) (olog_of (base s)) = Some (ol, num_pkts s)"
    "current_write_id ol = num_pkts s + length pkts" "current_read_id ol = num_pkts s"
    "\<forall>i. num_pkts s \<le> i \<longrightarrow> i \<le> num_pkts s + length pkts \<longrightarrow> blocks (offlens ol) (i div offlens_bs) \<noteq> None"
    "\<forall>j. id_room j \<longrightarrow> offset_lookup j ol = offset_lookup j (olog_of (base s))"
    using request_id_block_spec [of "olog_of (base s)" "length pkts"] n(2) cw ok by (auto simp: pstore_ok_def)
  have bytes: "burst_bytes pkts = burst_len pkts" using len by (intro burst_bytes_len) simp
  obtain d where d: "request_bytes (burst_len pkts) ((base s)\<lparr>olog_of := ol\<rparr>)
        = Some ((base s)\<lparr>olog_of := ol, dtail := dtail (base s) + burst_len pkts, dlog := d\<rparr>, dtail (base s))"
    "\<forall>b. blocks (dlog (base s)) b \<noteq> None \<longrightarrow> blocks d b \<noteq> None"
    "\<forall>x. dtail (base s) \<le> x \<longrightarrow> x \<le> dtail (base s) + burst_len pkts \<longrightarrow> blocks d (x div datalog_bs) \<noteq> None"
    "\<forall>b. block_cells b d = block_cells b (dlog (base s))"
    using request_bytes_alloc [of "(base s)\<lparr>olog_of := ol\<rparr>" "burst_len pkts"] len by auto
  obtain cix ci where cix: "time_get now (char_idx s) = Some (cix, ci)"
    "\<forall>ts c. ts < 2 ^ 32 \<longrightarrow> c < char_slots \<longrightarrow> char_list_at ts c cix = char_list_at ts c (char_idx s)"
    using time_get_spec [OF now] by blast
  let ?b = "(base s)\<lparr>olog_of := ol, dtail := dtail (base s) + burst_len pkts, dlog := d\<rparr>"
  have view: "index_ptr iid ?b = index_ptr iid (base s)" "indexes_ok ?b" "index_entries iid k ?b = index_entries iid k (base s)" for iid k
    using index_view_cong [of ?b "base s"] ok by (simp_all add: pstore_ok_def)
  note ids = ids_okD(5,10) [of s]
  have id: "ids_ok s" using ok by (simp add: pstore_ok_def)
  have fits: "key_fits (timestamp_idx_id s) now" using now ids(2) [OF id] by (simp add: key_fits_def)
  have "length (index_entries (timestamp_idx_id s) now (base s)) + (2 * length pkts + 3) \<le> 2 ^ 28 - 16"
    using room fits ids(1) [OF id] unfolding burst_room_def by simp
  then obtain h where h: "ptr_add_range (timestamp_ptr s) now (num_pkts s) (num_pkts s + length pkts - 1) ?b = Some (?b\<lparr>index_heap := h\<rparr>)"
    "indexes_ok (?b\<lparr>index_heap := h\<rparr>)"
    "\<forall>i k. index_ptr i ?b \<noteq> Some None \<longrightarrow> key_fits i k \<longrightarrow> index_entries i k (?b\<lparr>index_heap := h\<rparr>)
       = index_entries i k ?b @ (if i = timestamp_idx_id s \<and> k = now then [num_pkts s..<num_pkts s + length pkts] else [])"
    using ptr_add_range_spec [of ?b "timestamp_idx_id s" "timestamp_ptr s" now "length pkts" "num_pkts s"]
      view ids [OF id] now n by auto
  show ?thesis
    using ol d cix h view unfolding bytes by (intro exI [of _ ol] exI [of _ d] exI [of _ cix] exI [of _ h] exI [of _ ci]) simp
qed

end
