(* ===== verification/Packet_Burst.thy ===== *)
theory Packet_Burst
  imports Packet_Insert
begin

section \<open>Correctness of \<open>insert_pktburst\<close>\<close>

text \<open>
  A burst that the store has room for is appended to the list of packets, entered into the five
  indexes, and recorded for every complex character that matches. The store with its
  five indexes, which the constructor builds, satisfies the invariant.
\<close>

lemma end_block_same: "current_read_id l = rid \<Longrightarrow> rid + n < 2 ^ 64 \<Longrightarrow>
    end_block rid n l = Some (l\<lparr>current_read_id := rid + n\<rparr>)"
  by (simp add: end_block.simps end_try_def take_bit_id)

lemma wrap_minus_one:
  fixes a :: nat
  assumes "0 < a" "a < 2 ^ 64"
  shows "take_bit 64 (a + (2 ^ 64 - 1)) = a - 1"
proof -
  have "a + (2 ^ 64 - 1) = (a - 1) + 2 ^ 64" using assms(1) by simp
  then have "take_bit 64 (a + (2 ^ 64 - 1)) = (a - 1) mod 2 ^ 64"
    by (simp only: take_bit_eq_mod mod_add_self2)
  then show ?thesis using assms(2) by simp
qed

lemma log_kept_cong:
  assumes "log_kept rid n off b b'" "idx_log b = idx_log c"
  shows "index_ptr iid b' = index_ptr iid c"
  using log_kept_index_ptr [OF assms(1)] assms(2) by (simp add: index_ptr_def split: option.split)

lemma insert_pktburst_spec:
  assumes ok: "pstore_ok s" and room: "burst_room L now pkts s"
  shows "\<exists>b ix. insert_pktburst L now pkts s = Some (s\<lparr>base := b, char_idx := ix\<rparr>)
    \<and> pstore_ok (s\<lparr>base := b, char_idx := ix\<rparr>)
    \<and> store_pkts (s\<lparr>base := b, char_idx := ix\<rparr>) = store_pkts s @ map (\<lambda>m. (now, pkt_bytes m)) pkts
    \<and> dtail b = dtail (base s) + burst_len pkts
    \<and> (\<forall>iid. index_ptr iid b = index_ptr iid (base s))
    \<and> (\<forall>iid k. index_ptr iid (base s) \<noteq> Some None \<longrightarrow> key_fits iid k \<longrightarrow>
        index_entries iid k b = index_entries iid k (base s)
          @ (if iid = timestamp_idx_id s \<and> k = now then [num_pkts s..<num_pkts s + length pkts] else [])
          @ matching_ids (\<lambda>m. pkt_has s iid k (fields_of L m)) (num_pkts s) pkts)
    \<and> charted L now (num_filters s) (filters s) (num_pkts s) pkts (char_idx s) ix"
proof -
  let ?n = "length pkts" and ?r = "num_pkts s" and ?o = "dtail (base s)"
  obtain ol d cix h ci where pre: "request_id_block ?n (olog_of (base s)) = Some (ol, ?r)"
    "request_bytes (burst_bytes pkts) ((base s)\<lparr>olog_of := ol\<rparr>)
        = Some ((base s)\<lparr>olog_of := ol, dtail := ?o + burst_len pkts, dlog := d\<rparr>, ?o)"
    "time_get now (char_idx s) = Some (cix, ci)"
    "ptr_add_range (timestamp_ptr s) now ?r (?r + ?n - 1) ((base s)\<lparr>olog_of := ol, dtail := ?o + burst_len pkts, dlog := d\<rparr>)
        = Some ((base s)\<lparr>olog_of := ol, dtail := ?o + burst_len pkts, dlog := d, index_heap := h\<rparr>)"
    and inv: "indexes_ok ((base s)\<lparr>olog_of := ol, dtail := ?o + burst_len pkts, dlog := d, index_heap := h\<rparr>)"
    and ent: "\<forall>iid k. index_ptr iid (base s) \<noteq> Some None \<longrightarrow> key_fits iid k \<longrightarrow>
         index_entries iid k ((base s)\<lparr>olog_of := ol, dtail := ?o + burst_len pkts, dlog := d, index_heap := h\<rparr>)
         = index_entries iid k (base s) @ (if iid = timestamp_idx_id s \<and> k = now then [?r..<?r + ?n] else [])"
    and ol: "current_write_id ol = ?r + ?n" "current_read_id ol = ?r"
      "\<forall>i. ?r \<le> i \<longrightarrow> i \<le> ?r + ?n \<longrightarrow> blocks (offlens ol) (i div offlens_bs) \<noteq> None"
      "\<forall>j. id_room j \<longrightarrow> offset_lookup j ol = offset_lookup j (olog_of (base s))"
    and d: "\<forall>b. blocks (dlog (base s)) b \<noteq> None \<longrightarrow> blocks d b \<noteq> None"
      "\<forall>x. ?o \<le> x \<longrightarrow> x \<le> ?o + burst_len pkts \<longrightarrow> blocks d (x div datalog_bs) \<noteq> None"
      "\<forall>b. block_cells b d = block_cells b (dlog (base s))"
    and ch: "\<forall>ts c. ts < 2 ^ 32 \<longrightarrow> c < char_slots \<longrightarrow> char_list_at ts c cix = char_list_at ts c (char_idx s)"
    using burst_prepare [OF assms] by (elim exE conjE) (rule that; assumption)
  define b0 where "b0 = (base s)\<lparr>olog_of := ol, dtail := ?o + burst_len pkts, dlog := d, index_heap := h\<rparr>"
  let ?s0 = "s\<lparr>base := b0, char_idx := cix\<rparr>"
  have r: "pkts \<noteq> []" "?n < 2 ^ 16" "\<forall>m \<in> set pkts. pkt_ok L m" "now < 2 ^ 32" "?r + ?n < 2 ^ 34"
    "?o + burst_len pkts < 2 ^ 40" "burst_fits ?o pkts"
    "\<And>iid k. key_fits iid k \<Longrightarrow> index_ptr iid (base s) \<noteq> Some None \<Longrightarrow>
          length (index_entries iid k (base s)) + (2 * ?n + 3) \<le> 2 ^ 28 - 16"
    "\<And>c. c < num_filters s \<Longrightarrow> length (char_entries now c (char_idx s)) + ?n \<le> 2 ^ 28 - 16"
    using room unfolding burst_room_def by blast+
  have p: "ids_ok s" "chars_ok (char_idx s)" "packets_ok (base s)" "num_filters s \<le> MAX_FILTERS"
    using ok by (simp_all add: pstore_ok_def)
  note cv = char_view_cong [OF ch]
  have ptr: "index_ptr iid b0 = index_ptr iid (base s)" for iid by (simp add: b0_def index_ptr_def split: option.split)
  have room0: "length (index_entries iid k b0) + (?n + 3) \<le> 2 ^ 28 - 16" if "key_fits iid k" "index_ptr iid b0 \<noteq> Some None" for iid k
    using ent r(8) [OF that(1)] that by (fastforce simp: b0_def [symmetric] ptr)
  have croom0: "length (char_entries now c cix) + ?n \<le> 2 ^ 28 - 16" if "c < num_filters s" for c
    using r(9) [OF that] cv(2) [OF r(4), of c] that p(4) by (simp add: MAX_FILTERS_def char_slots_def)
  have "ids_ok ?s0" using p(1) by (simp add: ids_ok_cong b0_def)
  moreover have "indexes_ok b0" using inv by (simp add: b0_def)
  moreover have "chars_ok cix" using cv(1) p(2) by simp
  moreover have "blocks (offlens (olog_of b0)) (i div offlens_bs) \<noteq> None" if "?r \<le> i" "i < ?r + ?n" for i
    using ol(3) that by (simp add: b0_def)
  moreover have "blocks (dlog b0) (x div datalog_bs) \<noteq> None" if "?o \<le> x" "x < ?o + burst_len pkts" for x
    using d(2) that by (simp add: b0_def)
  ultimately obtain b ix where b: "insert_pkts L now (num_filters s) pkts ?r ?o ?s0 = Some (s\<lparr>base := b, char_idx := ix\<rparr>)"
    "indexes_ok b" "chars_ok ix" "log_kept ?r ?n ?o b0 b" "burst_stored now ?r ?o pkts b"
    "indexed L s ?r pkts b0 b" "charted L now (num_filters s) (filters s) ?r pkts cix ix"
    using insert_pkts_spec [of ?s0 pkts L now "num_filters s" ?r ?o] r(3-7) p(4) room0 croom0
    by (auto simp: indexed_cong [of L s, symmetric])
  define b' where "b' = b\<lparr>olog_of := (olog_of b)\<lparr>current_read_id := ?r + ?n\<rparr>\<rparr>"
  let ?s' = "s\<lparr>base := b', char_idx := ix\<rparr>"
  have kept: "idx_log b = idx_log (base s)" "dtail b = ?o + burst_len pkts" "current_write_id (olog_of b) = ?r + ?n"
    "current_read_id (olog_of b) = ?r" using b(4) ol by (simp_all add: log_kept_def b0_def)
  have fin: "take_bit 64 (?r + ?n + (2 ^ 64 - 1)) = ?r + ?n - 1"
    using r(1,5) by (intro wrap_minus_one) (simp_all add: length_greater_0_conv [symmetric] del: length_greater_0_conv)
  have "end_block ?r ?n (olog_of b) = Some ((olog_of b)\<lparr>current_read_id := ?r + ?n\<rparr>)"
    using kept(4) r(5) by (intro end_block_same) simp_all
  then have run: "insert_pktburst L now pkts s = Some ?s'"
    using pre b(1) fin by (simp add: insert_pktburst_def b'_def b0_def)
  have view: "index_ptr iid b' = index_ptr iid b" "indexes_ok b'" "index_entries iid k b' = index_entries iid k b" for iid k
    using index_view_cong [of b' b] b(2) by (simp_all add: b'_def)
  have ptr': "index_ptr iid b' = index_ptr iid (base s)" for iid
    using view(1) log_kept_cong [OF b(4), of "base s"] by (simp add: b0_def)
  have num: "num_pkts ?s' = ?r + ?n" by (simp add: num_pkts_def num_records_def num_ids_def b'_def)
  have look: "offset_lookup j (olog_of b') = offset_lookup j (olog_of b)" for j by (simp add: b'_def offset_lookup_def)
  have same: "dlog b' = dlog b" "dtail b' = ?o + burst_len pkts" using kept(2) by (simp_all add: b'_def)
  have oldl: "offset_lookup j (olog_of b') = offset_lookup j (olog_of (base s))" if "id_room j" "j < num_records (base s)" for j
    using that b(4) ol(4) look by (simp add: log_kept_def b0_def num_pkts_def)
  have oldr: "blocks (dlog b') (x div datalog_bs) \<noteq> None
      \<and> lin_read datalog_nb datalog_bs x k (dlog b') = lin_read datalog_nb datalog_bs x k (dlog (base s))"
    if "x + k \<le> ?o" "blocks (dlog (base s)) (x div datalog_bs) \<noteq> None" for x k
  proof -
    have x: "blocks d (x div datalog_bs) \<noteq> None" using d(1) that(2) by blast
    then have "lin_read datalog_nb datalog_bs x k (dlog b) = lin_read datalog_nb datalog_bs x k d" "blocks (dlog b) (x div datalog_bs) \<noteq> None"
      using b(4) that(1) by (simp_all add: log_kept_def b0_def)
    moreover have "lin_read datalog_nb datalog_bs x k d = lin_read datalog_nb datalog_bs x k (dlog (base s))"
      using that(2) x d(3) by (intro lin_read_cong) simp_all
    ultimately show ?thesis using same by simp
  qed
  have new: "\<exists>x. stored_at now (?r + j) (pkts ! j) x b' \<and> x + (pkt_len (pkts ! j) + 8) \<le> dtail b'" if "j < ?n" for j
    using burst_stored_nth [OF b(5) that] look same by (simp add: stored_at_def)
  have old: "pkt_at i b' = pkt_at i (base s)"
    "\<exists>off len bytes. offset_lookup i (olog_of b') = Some (off, len) \<and> off + (len + 8) \<le> dtail b'
      \<and> blocks (dlog b') (off div datalog_bs) \<noteq> None \<and> lin_read datalog_nb datalog_bs off (len + 8) (dlog b') = Some (map Some bytes)"
    if "i < ?r" for i
    using pkt_at_kept [OF p(3) _ _ oldl oldr, of i] that r(5) same(2) by (simp_all add: num_pkts_def)
  have "packets_ok b'"
    unfolding packets_ok_def
  proof (intro allI impI)
    fix i assume i: "i < num_records b'"
    show "\<exists>off len bytes. offset_lookup i (olog_of b') = Some (off, len) \<and> off + (len + 8) \<le> dtail b'
      \<and> blocks (dlog b') (off div datalog_bs) \<noteq> None \<and> lin_read datalog_nb datalog_bs off (len + 8) (dlog b') = Some (map Some bytes)"
    proof (cases "i < ?r")
      case False
      then obtain j where j: "i = ?r + j" "j < ?n" using i num by (auto simp: num_pkts_def dest: less_imp_Suc_add intro: that [of "i - ?r"])
      then show ?thesis using new [OF j(2)] unfolding stored_at_def by blast
    qed (use old(2) in blast)
  qed
  then have "pstore_ok ?s'"
    using p(1,4) view(2) b(3) r(5) kept ptr' num by (simp add: pstore_ok_def ids_ok_def b'_def)
  moreover have "store_pkts ?s' = store_pkts s @ map (\<lambda>m. (now, pkt_bytes m)) pkts"
  proof (rule nth_equalityI)
    show "length (store_pkts ?s') = length (store_pkts s @ map (\<lambda>m. (now, pkt_bytes m)) pkts)"
      using num by (simp add: store_pkts_def)
    fix i assume "i < length (store_pkts ?s')"
    then have i: "i < ?r + ?n" using num by (simp add: store_pkts_def)
    show "store_pkts ?s' ! i = (store_pkts s @ map (\<lambda>m. (now, pkt_bytes m)) pkts) ! i"
    proof (cases "i < ?r")
      case True
      then show ?thesis using num old(1) by (simp add: store_pkts_def nth_append)
    next
      case False
      then have j: "i - ?r < ?n" using i by simp
      then have "pkt_at i b' = Some (now, pkt_bytes (pkts ! (i - ?r)))"
        using new [OF j] stored_at_pkt [OF _ r(4)] False by fastforce
      then show ?thesis using num False j i by (simp add: store_pkts_def nth_append)
    qed
  qed
  moreover have "index_entries iid k b' = index_entries iid k (base s)
          @ (if iid = timestamp_idx_id s \<and> k = now then [?r..<?r + ?n] else [])
          @ matching_ids (\<lambda>m. pkt_has s iid k (fields_of L m)) ?r pkts"
    if "index_ptr iid (base s) \<noteq> Some None" "key_fits iid k" for iid k
    using view(3) [of iid k] b(6) ent that by (simp add: indexed_def ptr b0_def [symmetric])
  moreover have "charted L now (num_filters s) (filters s) ?r pkts (char_idx s) ix"
    using b(7) cv(2) by (simp add: charted_def)
  ultimately show ?thesis using run ptr' same(2) by blast
qed

section \<open>A new store\<close>

lemma add_index_grow:
  assumes ok: "log_store_ok s" and len: "tlen < 2 ^ 16" "new_index tlen = Some ix"
    and few: "linearizable_size (idx_log s tlen) < OFFSETMIN"
  shows "\<exists>s'. add_index tlen s = Some (s', idx_offset tlen + linearizable_size (idx_log s tlen)) \<and> log_store_ok s'
    \<and> linearizable_size (idx_log s' tlen) = linearizable_size (idx_log s tlen) + 1
    \<and> (\<forall>m. m \<noteq> tlen \<longrightarrow> idx_log s' m = idx_log s m)
    \<and> length (index_heap s') = length (index_heap s) + 1
    \<and> (\<forall>j. index_ptr j s' = (if j = idx_offset tlen + linearizable_size (idx_log s tlen)
         then Some (Some (length (index_heap s))) else index_ptr j s))
    \<and> (\<forall>j k. key_fits j k \<longrightarrow> index_entries j k s = [] \<longrightarrow> index_entries j k s' = [])
    \<and> olog_of s' = olog_of s \<and> dtail s' = dtail s \<and> dlog s' = dlog s"
proof -
  let ?iid = "idx_offset tlen + linearizable_size (idx_log s tlen)"
  have w: "take_bit 16 tlen = tlen" using len(1) by (rule take_bit_id)
  have ix: "new_index (take_bit 16 tlen) = Some ix" "linearizable_size (idx_log s (take_bit 16 tlen)) < OFFSETMIN"
    using len(2) few by (simp_all add: w)
  have iok: "indexes_ok s" using ok by (simp add: log_store_ok_def)
  obtain l where l: "add_index tlen s = Some (s\<lparr>idx_log := (idx_log s)(tlen := l), index_heap := index_heap s @ [ix]\<rparr>, ?iid)"
    "\<forall>j. index_ptr j (s\<lparr>idx_log := (idx_log s)(tlen := l), index_heap := index_heap s @ [ix]\<rparr>)
        = (if j = ?iid then Some (Some (length (index_heap s))) else index_ptr j s)"
    using add_index_ptr [OF iok ix, unfolded w] by (elim exE conjE) (rule that)
  let ?s = "s\<lparr>idx_log := (idx_log s)(tlen := l), index_heap := index_heap s @ [ix]\<rparr>"
  have inv: "linearizable_invar nindexes_nb (idx_log s tlen)" using iok by (simp add: indexes_ok_def)
  obtain l' where l': "linearizable_push_back nindexes_nb (length (index_heap s)) (idx_log s tlen) = Some (l', linearizable_size (idx_log s tlen))"
    "linearizable_invar nindexes_nb l'"
    "linearizable_contents nindexes_nb l' = linearizable_contents nindexes_nb (idx_log s tlen) @ [length (index_heap s)]"
    using linearizable_push_at [OF inv valid_index_1024 [OF few], of "length (index_heap s)"] by auto
  have "(idx_log s)(tlen := l') = (idx_log s)(tlen := l)"
    using l(1) l'(1) len(2) by (auto simp: add_index_def Let_def w dest!: arg_cong [of _ _ idx_log])
  then have "l' = l" by (auto dest: fun_cong [of _ _ tlen])
  then have "linearizable_invar nindexes_nb l \<and>
      linearizable_contents nindexes_nb l = linearizable_contents nindexes_nb (idx_log s tlen) @ [length (index_heap s)]"
    using l'(2,3) by simp
  then have size: "linearizable_size l = linearizable_size (idx_log s tlen) + 1"
    using linearizable.size_contents [of nindexes_nb l] linearizable.size_contents [OF inv] by simp
  have spec: "log_store_ok ?s" "key_fits ?iid k \<Longrightarrow> index_entries ?iid k ?s = []"
    "j \<noteq> ?iid \<Longrightarrow> index_entries j k ?s = index_entries j k s" for j k
    using add_index_spec [OF ok ix] l(1) by auto
  have "index_entries j k ?s = []" if "key_fits j k" "index_entries j k s = []" for j k
    using spec(2,3) that by (cases "j = ?iid") simp_all
  then show ?thesis using l size spec(1) by (intro exI [of _ ?s]) simp
qed

text \<open>
  The constructor: identifiers 8192, 8193 and 8194 are the indexes of four bytes, 2048 and 2049 those
  of two.
\<close>

lemma idx_offsets: "idx_offset 4 = 8192" "idx_offset 2 = 2048"
  by (simp_all add: idx_offset_def OFFSETMIN_def)

lemma ptr_at:
  assumes "index_ptr iid s = Some (Some p)" "idx_class (iid div OFFSETMIN) = Some len"
  shows "linearizable_at nindexes_nb (iid mod OFFSETMIN) (idx_log s len) = Some p"
  using assms by (auto simp: index_ptr_def bind_Some_iff)

lemma packet_store_init_eq:
  "\<exists>b. packet_store_init = Some \<lparr>base = b, srcip_idx_id = 8192, dstip_idx_id = 8193, srcport_idx_id = 2048,
       dstport_idx_id = 2049, timestamp_idx_id = 8194, srcip_ptr = 0, dstip_ptr = 1, srcport_ptr = 2, dstport_ptr = 3,
       timestamp_ptr = 4, filters = (\<lambda>_. []), num_filters = 0, char_idx = indexlet_init\<rparr>
     \<and> log_store_ok b \<and> olog_of b = offsetlog_init \<and> dtail b = 0
     \<and> (\<forall>j k. key_fits j k \<longrightarrow> index_entries j k b = [])
     \<and> index_ptr 8192 b = Some (Some 0) \<and> index_ptr 8193 b = Some (Some 1) \<and> index_ptr 2048 b = Some (Some 2)
     \<and> index_ptr 2049 b = Some (Some 3) \<and> index_ptr 8194 b = Some (Some 4)"
proof -
  let ?n = "\<lambda>s len. linearizable_size (idx_log s len)"
  have n4: "4 < (2::nat) ^ 16" "new_index 4 = Some (Index4 indexlet_init)"
    and n2: "2 < (2::nat) ^ 16" "new_index 2 = Some (Index2 indexlet_init)" by (simp_all add: new_index_def)
  note g4 = add_index_grow [OF _ n4] and g2 = add_index_grow [OF _ n2]
  have z: "?n log_store_init len = 0" "index_heap log_store_init = []" "index_entries j k log_store_init = []" for len j k
    by (simp_all add: log_store_init_def linearizable_init_def linearizable_size_def index_entries_def index_ptr_def
        get_linearizable_init [unfolded linearizable_init_def] split: option.split)
  have z': "index_entries j k log_store_init = []" for j k by (rule z(3))
  obtain s1 where s1: "add_index 4 log_store_init = Some (s1, 8192)" "log_store_ok s1" "?n s1 4 = 1" "idx_log s1 2 = idx_log log_store_init 2"
    "length (index_heap s1) = 1" "\<forall>j. index_ptr j s1 = (if j = 8192 then Some (Some 0) else index_ptr j log_store_init)"
    "\<forall>j k. key_fits j k \<longrightarrow> index_entries j k s1 = []" "olog_of s1 = offsetlog_init" "dtail s1 = 0"
    using g4 [OF log_store_init_ok] z by (auto simp: idx_offsets OFFSETMIN_def log_store_init_def)
  obtain s2 where s2: "add_index 4 s1 = Some (s2, 8193)" "log_store_ok s2" "?n s2 4 = 2" "idx_log s2 2 = idx_log log_store_init 2"
    "length (index_heap s2) = 2" "\<forall>j. index_ptr j s2 = (if j = 8193 then Some (Some 1) else index_ptr j s1)"
    "\<forall>j k. key_fits j k \<longrightarrow> index_entries j k s2 = []" "olog_of s2 = offsetlog_init" "dtail s2 = 0"
    using g4 [OF s1(2)] s1(3-9) by (auto simp: idx_offsets OFFSETMIN_def)
  obtain s3 where s3: "add_index 2 s2 = Some (s3, 2048)" "log_store_ok s3" "?n s3 4 = 2" "?n s3 2 = 1"
    "length (index_heap s3) = 3" "\<forall>j. index_ptr j s3 = (if j = 2048 then Some (Some 2) else index_ptr j s2)"
    "\<forall>j k. key_fits j k \<longrightarrow> index_entries j k s3 = []" "olog_of s3 = offsetlog_init" "dtail s3 = 0"
    using g2 [OF s2(2)] s2(3-9) z(1) [of 2] by (auto simp: idx_offsets OFFSETMIN_def)
  obtain s4 where s4: "add_index 2 s3 = Some (s4, 2049)" "log_store_ok s4" "?n s4 4 = 2"
    "length (index_heap s4) = 4" "\<forall>j. index_ptr j s4 = (if j = 2049 then Some (Some 3) else index_ptr j s3)"
    "\<forall>j k. key_fits j k \<longrightarrow> index_entries j k s4 = []" "olog_of s4 = offsetlog_init" "dtail s4 = 0"
    using g2 [OF s3(2)] s3(3-9) by (auto simp: idx_offsets OFFSETMIN_def)
  obtain s5 where s5: "add_index 4 s4 = Some (s5, 8194)" "log_store_ok s5"
    "\<forall>j. index_ptr j s5 = (if j = 8194 then Some (Some 4) else index_ptr j s4)"
    "\<forall>j k. key_fits j k \<longrightarrow> index_entries j k s5 = []" "olog_of s5 = offsetlog_init" "dtail s5 = 0"
    using g4 [OF s4(2)] s4(3-8) by (auto simp: idx_offsets OFFSETMIN_def)
  have ptr: "index_ptr 8192 s5 = Some (Some 0)" "index_ptr 8193 s5 = Some (Some 1)" "index_ptr 2048 s5 = Some (Some 2)"
     "index_ptr 2049 s5 = Some (Some 3)" "index_ptr 8194 s5 = Some (Some 4)"
    by (simp_all add: s5(3) s4(5) s3(6) s2(6) s1(6))
  have cls: "idx_class (8192 div OFFSETMIN) = Some 4" "idx_class (8193 div OFFSETMIN) = Some 4" "idx_class (8194 div OFFSETMIN) = Some 4"
    "idx_class (2048 div OFFSETMIN) = Some 2" "idx_class (2049 div OFFSETMIN) = Some 2"
    by (simp_all add: idx_class_def OFFSETMIN_def)
  have "linearizable_at nindexes_nb 0 (idx_log s5 4) = Some 0" "linearizable_at nindexes_nb 1 (idx_log s5 4) = Some 1"
    "linearizable_at nindexes_nb 0 (idx_log s5 2) = Some 2" "linearizable_at nindexes_nb 1 (idx_log s5 2) = Some 3"
    "linearizable_at nindexes_nb 2 (idx_log s5 4) = Some 4"
    using ptr_at [OF ptr(1) cls(1)] ptr_at [OF ptr(2) cls(2)] ptr_at [OF ptr(3) cls(4)] ptr_at [OF ptr(4) cls(5)]
      ptr_at [OF ptr(5) cls(3)] by (simp_all add: OFFSETMIN_def)
  then show ?thesis
    using s1(1) s2(1) s3(1) s4(1) s5(1,2,4-6) ptr
    by (intro exI [of _ s5]) (simp add: packet_store_init_def)
qed

lemma packet_store_init_ok:
  "\<exists>s. packet_store_init = Some s \<and> pstore_ok s \<and> num_pkts s = 0 \<and> dtail (base s) = 0 \<and> num_filters s = 0
    \<and> (\<forall>j k. key_fits j k \<longrightarrow> index_entries j k (base s) = [])
    \<and> (\<forall>ts c. ts < 2 ^ 32 \<longrightarrow> c < char_slots \<longrightarrow> char_entries ts c (char_idx s) = [])"
proof -
  obtain b where b: "packet_store_init = Some \<lparr>base = b, srcip_idx_id = 8192, dstip_idx_id = 8193, srcport_idx_id = 2048,
       dstport_idx_id = 2049, timestamp_idx_id = 8194, srcip_ptr = 0, dstip_ptr = 1, srcport_ptr = 2, dstport_ptr = 3,
       timestamp_ptr = 4, filters = (\<lambda>_. []), num_filters = 0, char_idx = indexlet_init\<rparr>"
    "log_store_ok b" "olog_of b = offsetlog_init" "dtail b = 0" "\<forall>j k. key_fits j k \<longrightarrow> index_entries j k b = []"
    "index_ptr 8192 b = Some (Some 0)" "index_ptr 8193 b = Some (Some 1)" "index_ptr 2048 b = Some (Some 2)"
    "index_ptr 2049 b = Some (Some 3)" "index_ptr 8194 b = Some (Some 4)"
    using packet_store_init_eq by (elim exE conjE) (rule that)
  have cls: "idx_class (8192 div OFFSETMIN) = Some 4" "idx_class (8193 div OFFSETMIN) = Some 4" "idx_class (8194 div OFFSETMIN) = Some 4"
    "idx_class (2048 div OFFSETMIN) = Some 2" "idx_class (2049 div OFFSETMIN) = Some 2"
    by (simp_all add: idx_class_def OFFSETMIN_def)
  have at: "char_list_at ts c indexlet_init = Some None" if "ts < 2 ^ 32" for ts c
  proof -
    have "d2_at 65536 65536 ts indexlet_init = Some (None :: char_index option)"
      using that by (intro d2.at_init) (simp add: time_covers)
    then show ?thesis by (simp add: char_list_at_eq)
  qed
  have iok: "indexes_ok b" using b(2) by (simp add: log_store_ok_def)
  let ?s = "\<lparr>base = b, srcip_idx_id = 8192, dstip_idx_id = 8193, srcport_idx_id = 2048,
       dstport_idx_id = 2049, timestamp_idx_id = 8194, srcip_ptr = 0, dstip_ptr = 1, srcport_ptr = 2, dstport_ptr = 3,
       timestamp_ptr = 4, filters = (\<lambda>_. []), num_filters = 0, char_idx = indexlet_init\<rparr>"
  have "ids_ok ?s" using b(6-10) cls by (simp add: ids_ok_def)
  moreover have "chars_ok (char_idx ?s)" using at by (simp add: chars_ok_def)
  moreover have "num_records b = 0" using b(3) by (simp add: num_records_def num_ids_def offsetlog_init_def)
  ultimately have "pstore_ok ?s \<and> num_pkts ?s = 0"
    using iok b(3) by (simp add: pstore_ok_def packets_ok_def num_pkts_def offsetlog_init_def)
  moreover have "char_entries ts c (char_idx ?s) = []" if "ts < 2 ^ 32" for ts c
    using at [OF that] by (simp add: char_entries_def index_list_def)
  ultimately show ?thesis using b(1,4,5) by (intro exI [of _ ?s]) simp
qed

section \<open>Properties\<close>

lemma matching_ids_none [simp]: "matching_ids (\<lambda>m. False) rid ms = []"
  by (induction ms arbitrary: rid) simp_all

text \<open>
  C2. Inserting a burst appends its packets. On a store that satisfies the invariant, for a burst
  of readable packets of less than \<open>2 ^ 16\<close> bytes that the store has room for, \<^verbatim>\<open>insert_pktburst\<close> completes, keeps the
  invariant, makes all packets of the burst visible, and appends them, with the current second,
  to the list of stored packets; all earlier packets are unchanged.
\<close>

theorem insert_pktburst_appends:
  assumes "pstore_ok s" "burst_room L now pkts s"
  shows "\<exists>s'. insert_pktburst L now pkts s = Some s' \<and> pstore_ok s' \<and> num_pkts s' = num_pkts s + length pkts
    \<and> store_pkts s' = store_pkts s @ map (\<lambda>m. (now, pkt_bytes m)) pkts"
proof -
  obtain b ix where r: "insert_pktburst L now pkts s = Some (s\<lparr>base := b, char_idx := ix\<rparr>)"
    "pstore_ok (s\<lparr>base := b, char_idx := ix\<rparr>)"
    "store_pkts (s\<lparr>base := b, char_idx := ix\<rparr>) = store_pkts s @ map (\<lambda>m. (now, pkt_bytes m)) pkts"
    using insert_pktburst_spec [OF assms] by blast
  have "num_pkts (s\<lparr>base := b, char_idx := ix\<rparr>) = num_pkts s + length pkts"
    using arg_cong [OF r(3), of length] by (simp add: store_pkts_def)
  then show ?thesis using r by blast
qed

text \<open>
  Inserting a burst enters its packets into the five indexes. Under the same conditions every
  address list gains exactly the identifiers of the packets with that address, every port list
  those of the TCP and UDP packets with that port, the list of the current second gains the
  identifiers of the whole burst, and the other lists of seconds are unchanged.
\<close>

theorem insert_pktburst_indexes:
  assumes "pstore_ok s" "burst_room L now pkts s" "k < 2 ^ 32" "p < 2 ^ 16"
  shows "\<exists>s'. insert_pktburst L now pkts s = Some s'
    \<and> index_entries (srcip_idx_id s) k (base s') = index_entries (srcip_idx_id s) k (base s)
        @ matching_ids (\<lambda>m. p_src_addr (fields_of L m) = k) (num_pkts s) pkts
    \<and> index_entries (dstip_idx_id s) k (base s') = index_entries (dstip_idx_id s) k (base s)
        @ matching_ids (\<lambda>m. p_dst_addr (fields_of L m) = k) (num_pkts s) pkts
    \<and> index_entries (srcport_idx_id s) p (base s') = index_entries (srcport_idx_id s) p (base s)
        @ matching_ids (\<lambda>m. \<exists>dp. p_ports (fields_of L m) = Some (p, dp)) (num_pkts s) pkts
    \<and> index_entries (dstport_idx_id s) p (base s') = index_entries (dstport_idx_id s) p (base s)
        @ matching_ids (\<lambda>m. \<exists>sp. p_ports (fields_of L m) = Some (sp, p)) (num_pkts s) pkts
    \<and> index_entries (timestamp_idx_id s) k (base s') = index_entries (timestamp_idx_id s) k (base s)
        @ (if k = now then [num_pkts s..<num_pkts s + length pkts] else [])"
proof -
  have id: "ids_ok s" using assms(1) by (simp add: pstore_ok_def)
  note i = ids_okD [OF id]
  obtain b ix where r: "insert_pktburst L now pkts s = Some (s\<lparr>base := b, char_idx := ix\<rparr>)"
    "\<forall>iid k. index_ptr iid (base s) \<noteq> Some None \<longrightarrow> key_fits iid k \<longrightarrow>
        index_entries iid k b = index_entries iid k (base s)
          @ (if iid = timestamp_idx_id s \<and> k = now then [num_pkts s..<num_pkts s + length pkts] else [])
          @ matching_ids (\<lambda>m. pkt_has s iid k (fields_of L m)) (num_pkts s) pkts"
    using insert_pktburst_spec [OF assms(1,2)] by blast
  have has: "pkt_has s (srcip_idx_id s) k f \<longleftrightarrow> p_src_addr f = k" "pkt_has s (dstip_idx_id s) k f \<longleftrightarrow> p_dst_addr f = k"
    "pkt_has s (srcport_idx_id s) p f \<longleftrightarrow> (\<exists>dp. p_ports f = Some (p, dp))"
    "pkt_has s (dstport_idx_id s) p f \<longleftrightarrow> (\<exists>sp. p_ports f = Some (sp, p))"
    "\<not> pkt_has s (timestamp_idx_id s) k f" for f k
    using i(11) by (auto simp: pkt_has_def split: option.splits)
  have fits: "key_fits (srcip_idx_id s) k" "key_fits (dstip_idx_id s) k" "key_fits (srcport_idx_id s) p"
    "key_fits (dstport_idx_id s) p" "key_fits (timestamp_idx_id s) k"
    using assms(3,4) i(6-10) by (simp_all add: key_fits_def)
  show ?thesis
    using r(1) i(1-5,11) by (simp add: r(2) fits has)
qed

text \<open>
  C7. Inserting a burst records the complex characters. Under the same conditions, for every
  character that exists, the list of the current second gains exactly the identifiers of the
  packets that one of the character's filters accepts, each once; the lists of other
  seconds are unchanged.
\<close>

theorem insert_pktburst_characters:
  assumes "pstore_ok s" "burst_room L now pkts s" "c < num_filters s" "ts < 2 ^ 32"
  shows "\<exists>s'. insert_pktburst L now pkts s = Some s'
    \<and> char_entries ts c (char_idx s') = char_entries ts c (char_idx s)
        @ (if ts = now then matching_ids (\<lambda>m. char_matches (filters s c) (fields_of L m)) (num_pkts s) pkts else [])"
proof -
  have c: "c < char_slots" using assms(1,3) by (simp add: pstore_ok_def MAX_FILTERS_def char_slots_def)
  obtain b ix where r: "insert_pktburst L now pkts s = Some (s\<lparr>base := b, char_idx := ix\<rparr>)"
    "charted L now (num_filters s) (filters s) (num_pkts s) pkts (char_idx s) ix"
    using insert_pktburst_spec [OF assms(1,2)] by blast
  then show ?thesis using c assms(3,4) by (simp add: charted_def)
qed

text \<open>
  A new packet store satisfies the invariant: the five indexes have different
  identifiers and the right token lengths, the pointers the store keeps lead to them, they are
  empty, and the store has no packet and no character.
\<close>

theorem packet_store_new:
  "\<exists>s. packet_store_init = Some s \<and> pstore_ok s \<and> store_pkts s = [] \<and> num_filters s = 0
    \<and> distinct [srcip_idx_id s, dstip_idx_id s, srcport_idx_id s, dstport_idx_id s, timestamp_idx_id s]
    \<and> list_all (\<lambda>iid. index_entries iid 0 (base s) = [])
        [srcip_idx_id s, dstip_idx_id s, srcport_idx_id s, dstport_idx_id s, timestamp_idx_id s]"
proof -
  obtain s where s: "packet_store_init = Some s" "pstore_ok s" "num_pkts s = 0" "num_filters s = 0"
    "\<forall>j k. key_fits j k \<longrightarrow> index_entries j k (base s) = []"
    using packet_store_init_ok by (elim exE conjE) (rule that)
  have id: "ids_ok s" using s(2) by (simp add: pstore_ok_def)
  have "key_fits j 0" for j by (simp add: key_fits_def split: option.split)
  then have e: "index_entries j 0 (base s) = []" for j using s(5) by blast
  show ?thesis
    by (rule exI [of _ s]) (use s(1-4) ids_okD(11) [OF id] e in \<open>simp add: store_pkts_def\<close>)
qed

section \<open>A packet\<close>

text \<open>
  The headers as they are on the wire: 14 bytes of Ethernet, 20 of IPv4, and a TCP header, here from
  10.0.0.1, port 80, to 10.0.0.2, port 443.
\<close>

definition wire_layout :: hdr_layout where
  "wire_layout = \<lparr>sizeof_ether_addr = 6, sizeof_ether_hdr = 14, sizeof_ipv4_hdr = 20,
     offset_of = (\<lambda>f. case f of D_addr \<Rightarrow> 0 | S_addr \<Rightarrow> 6 | Ether_type \<Rightarrow> 12
       | Version_ihl \<Rightarrow> 0 | Type_of_service \<Rightarrow> 1 | Total_length \<Rightarrow> 2 | Packet_id \<Rightarrow> 4 | Fragment_offset \<Rightarrow> 6
       | Time_to_live \<Rightarrow> 8 | Next_proto_id \<Rightarrow> 9 | Hdr_checksum \<Rightarrow> 10 | Src_addr \<Rightarrow> 12 | Dst_addr \<Rightarrow> 16
       | Tcp_src_port \<Rightarrow> 0 | Tcp_dst_port \<Rightarrow> 2 | Sent_seq \<Rightarrow> 4 | Recv_ack \<Rightarrow> 8 | Data_off \<Rightarrow> 12 | Tcp_flags \<Rightarrow> 13
       | Rx_win \<Rightarrow> 14 | Cksum \<Rightarrow> 16 | Tcp_urp \<Rightarrow> 18
       | Udp_src_port \<Rightarrow> 0 | Udp_dst_port \<Rightarrow> 2 | Dgram_len \<Rightarrow> 4 | Dgram_cksum \<Rightarrow> 6)\<rparr>"

definition tcp_bytes :: "u8 list" where
  "tcp_bytes = [2, 0, 0, 0, 0, 2,  2, 0, 0, 0, 0, 1,  8, 0,
     69, 0, 0, 40,  0, 0, 0, 0,  64, 6, 0, 0,  10, 0, 0, 1,  10, 0, 0, 2,
     0, 80,  1, 187,  0, 0, 0, 0,  0, 0, 0, 0,  80, 2,  0, 0,  0, 0,  0, 0]"

definition tcp_pkt :: mbuf where
  "tcp_pkt = \<lparr>pkt_len = 54, mtod = (\<lambda>i. if i < 54 then Some (tcp_bytes ! i) else None)\<rparr>"

lemma tcp_pkt_fields:
  "pkt_fields_of wire_layout (mtod tcp_pkt) = Some \<lparr>p_src_addr = 16777226, p_dst_addr = 33554442, p_ports = Some (20480, 47873)\<rparr>"
  by (simp add: pkt_fields_of_def attribute_defs wire_layout_def tcp_pkt_def load_def load_bytes_def upt_rec tcp_bytes_def
      IPPROTO_TCP_def)

lemma tcp_pkt_load: "load_bytes 0 54 (mtod tcp_pkt) = Some tcp_bytes"
proof -
  have "length tcp_bytes = 54" by (simp add: tcp_bytes_def)
  then show ?thesis using load_bytes_list [of tcp_bytes "mtod tcp_pkt" 0] by (simp add: tcp_pkt_def)
qed

lemma tcp_pkt_ok: "pkt_ok wire_layout tcp_pkt"
  using tcp_pkt_load tcp_pkt_fields by (simp add: pkt_ok_def tcp_pkt_def)

lemma tcp_pkt_bytes: "pkt_bytes tcp_pkt = tcp_bytes"
  using tcp_pkt_load by (simp add: pkt_bytes_def tcp_pkt_def)

lemma new_store_room:
  "\<exists>s. packet_store_init = Some s \<and> pstore_ok s \<and> num_pkts s = 0 \<and> burst_room wire_layout 1500000000 [tcp_pkt] s
    \<and> index_entries (srcip_idx_id s) 16777226 (base s) = [] \<and> num_filters s = 0 \<and> store_pkts s = []
    \<and> (\<forall>ts c. ts < 2 ^ 32 \<longrightarrow> c < char_slots \<longrightarrow> char_entries ts c (char_idx s) = [])"
proof -
  obtain s where s: "packet_store_init = Some s" "pstore_ok s" "num_pkts s = 0" "dtail (base s) = 0" "num_filters s = 0"
    "\<forall>j k. key_fits j k \<longrightarrow> index_entries j k (base s) = []"
    "\<forall>ts c. ts < 2 ^ 32 \<longrightarrow> c < char_slots \<longrightarrow> char_entries ts c (char_idx s) = []"
    using packet_store_init_ok by (elim exE conjE) (rule that)
  have "burst_room wire_layout 1500000000 [tcp_pkt] s"
    using s tcp_pkt_ok unfolding burst_room_def
    by (simp add: burst_len_def tcp_pkt_def run_fits_def datalog_nb_def datalog_bs_def BUFFER_SIZE_def)
  moreover have "key_fits (srcip_idx_id s) 16777226"
    using s(2) ids_okD(6) [of s] by (simp add: pstore_ok_def key_fits_def)
  ultimately show ?thesis using s by (intro exI [of _ s]) (simp add: store_pkts_def)
qed

theorem insert_pktburst_appends_witness:
  "\<exists>s s'. packet_store_init = Some s \<and> insert_pktburst wire_layout 1500000000 [tcp_pkt] s = Some s'
     \<and> store_pkts s' = [(1500000000, tcp_bytes)]"
proof -
  obtain s where s: "packet_store_init = Some s" "pstore_ok s" "burst_room wire_layout 1500000000 [tcp_pkt] s" "store_pkts s = []"
    using new_store_room by blast
  then show ?thesis using insert_pktburst_appends [OF s(2,3)] tcp_pkt_bytes by auto
qed

theorem insert_pktburst_indexes_witness:
  "\<exists>s s'. packet_store_init = Some s \<and> insert_pktburst wire_layout 1500000000 [tcp_pkt] s = Some s'
     \<and> index_entries (srcip_idx_id s) 16777226 (base s') = [0]"
proof -
  obtain s where s: "packet_store_init = Some s" "pstore_ok s" "burst_room wire_layout 1500000000 [tcp_pkt] s"
    "index_entries (srcip_idx_id s) 16777226 (base s) = []" "num_pkts s = 0"
    using new_store_room by blast
  have "p_src_addr (fields_of wire_layout tcp_pkt) = 16777226" using tcp_pkt_fields by (simp add: fields_of_def)
  then show ?thesis using s insert_pktburst_indexes [OF s(2,3), of 16777226 0] by auto
qed

text \<open>A store with one character, the packets from port 80.\<close>

definition from_80 :: packet_filter where
  "from_80 = packet_filter_default\<lparr>src_addr := (0, UINT64_MAX), dst_addr := (0, UINT64_MAX),
     src_port := (20480, 20480), dst_port := (0, UINT64_MAX), timestamp := (0, UINT64_MAX)\<rparr>"

theorem insert_pktburst_characters_witness:
  "\<exists>s s1 s'. packet_store_init = Some s \<and> add_complex_character [from_80] s = Some (s1, 0)
     \<and> insert_pktburst wire_layout 1500000000 [tcp_pkt] s1 = Some s' \<and> char_entries 1500000000 0 (char_idx s') = [0]"
proof -
  obtain s where s: "packet_store_init = Some s" "pstore_ok s" "burst_room wire_layout 1500000000 [tcp_pkt] s"
    "num_pkts s = 0" "num_filters s = 0" "\<forall>ts c. ts < 2 ^ 32 \<longrightarrow> c < char_slots \<longrightarrow> char_entries ts c (char_idx s) = []"
    using new_store_room by (elim exE conjE) (rule that)
  let ?s = "s\<lparr>num_filters := 1, filters := (filters s)(0 := [from_80])\<rparr>"
  have add: "add_complex_character [from_80] s = Some (?s, 0)"
    using s(5) by (simp add: add_complex_character_def MAX_FILTERS_def take_bit_eq_mod)
  have ok: "pstore_ok ?s" using s(2) by (simp add: pstore_ok_def ids_ok_def num_pkts_def MAX_FILTERS_def)
  have e: "char_entries 1500000000 0 (char_idx s) = []" using s(6) by (simp add: char_slots_def)
  have room: "burst_room wire_layout 1500000000 [tcp_pkt] ?s"
    using s(3) e unfolding burst_room_def by (simp add: num_pkts_def)
  have "char_matches [from_80] (fields_of wire_layout tcp_pkt)"
    using tcp_pkt_fields by (simp add: char_matches_def accepts_def fields_of_def from_80_def in_range_def)
  then have "\<exists>s'. insert_pktburst wire_layout 1500000000 [tcp_pkt] ?s = Some s' \<and> char_entries 1500000000 0 (char_idx s') = [0]"
    using insert_pktburst_characters [OF ok room, of 0 1500000000] s(4) e by (simp add: num_pkts_def)
  then show ?thesis using s(1) add by blast
qed

end
