(* ===== verification/Concurrent_Writers.thy ===== *)
theory Concurrent_Writers
  imports Packet_Burst Step_Refinement
begin

section \<open>Bursts that are inserted at the same time (packetstore.h)\<close>

text \<open>
  Any number of writers, each with a handle of its own, run \<open>insert_pktburst\<close> on one packet
  store. The state is the store and, for each writer, the place in the body of the function with
  the values of its local variables. A step is one operation of the body by one writer: handing
  out identifiers, reserving bytes, looking up the number of characters and the list of the current second,
  entering the range of the burst into the timestamp index; then for each packet indexing it, recording its offset,
  copying it, recording it for the characters; at last one turn of the loop that publishes the
  block. Characters can be added at any time.

  \<open>given\<close> and \<open>placed\<close> are auxiliary: which packet and second an identifier was handed out for, and the
  offset and length recorded for it.
\<close>

datatype phase = At_index | At_offset | At_append | At_chars

datatype wprog = W_idle
  | W_ids nat nat "mbuf list"
  | W_bytes nat nat nat "mbuf list"
  | W_stamp nat nat nat nat "mbuf list"
  | W_loop phase nat nat nat nat nat "mbuf list"

text \<open>
  The arguments are, in the order of the code, \<open>start_id\<close>, \<open>off\<close>, \<open>num_chars\<close>, \<open>now\<close>, the number of
  packets the loop has finished, and the burst; the earlier places have fewer of them.
\<close>

record writers =
  shared :: packet_store
  prog :: "nat \<Rightarrow> wprog"
  given :: "nat \<rightharpoonup> nat \<times> u8 list"
  placed :: "nat \<rightharpoonup> nat \<times> nat"

abbreviation wr_log :: "writers \<Rightarrow> log_store" where
  "wr_log s \<equiv> base (shared s)"

definition with_log :: "log_store \<Rightarrow> writers \<Rightarrow> writers" where
  "with_log b s = s\<lparr>shared := (shared s)\<lparr>base := b\<rparr>\<rparr>"

definition with_prog :: "nat \<Rightarrow> wprog \<Rightarrow> writers \<Rightarrow> writers" where
  "with_prog t p s = s\<lparr>prog := (prog s)(t := p)\<rparr>"

definition with_store :: "packet_store \<Rightarrow> writers \<Rightarrow> writers" where
  "with_store S s = s\<lparr>shared := S\<rparr>"

definition give :: "nat \<Rightarrow> nat \<Rightarrow> mbuf list \<Rightarrow> writers \<Rightarrow> writers" where
  "give start now pkts s = s\<lparr>given := (\<lambda>i. if start \<le> i \<and> i < start + length pkts
     then Some (now, pkt_bytes (pkts ! (i - start))) else given s i)\<rparr>"

definition place :: "nat \<Rightarrow> nat \<Rightarrow> nat \<Rightarrow> writers \<Rightarrow> writers" where
  "place i off len s = s\<lparr>placed := (placed s)(i \<mapsto> (off, len))\<rparr>"

definition burst_can_start :: "nat \<Rightarrow> mbuf list \<Rightarrow> bool" where
  "burst_can_start now pkts \<longleftrightarrow> length pkts < 2 ^ 16 \<and> (\<forall>m \<in> set pkts. pkt_len m < 2 ^ 16) \<and> now < 2 ^ 64"

inductive wr_step :: "hdr_layout \<Rightarrow> writers \<Rightarrow> writers \<Rightarrow> bool" for L :: hdr_layout where
  ids: "prog s t = W_idle \<Longrightarrow> burst_can_start now pkts \<Longrightarrow>
     request_id_block (length pkts) (olog_of (wr_log s)) = Some (l, start) \<Longrightarrow>
     wr_step L s (with_prog t (W_ids start now pkts) (give start now pkts (with_log ((wr_log s)\<lparr>olog_of := l\<rparr>) s)))"
| bytes: "prog s t = W_ids start now pkts \<Longrightarrow>
     request_bytes (burst_bytes pkts) (wr_log s) = Some (b, off) \<Longrightarrow>
     wr_step L s (with_prog t (W_bytes start off now pkts) (with_log b s))"
| chars: "prog s t = W_bytes start off now pkts \<Longrightarrow>
     time_get now (char_idx (shared s)) = Some (cix, ci) \<Longrightarrow>
     wr_step L s (with_prog t (W_stamp start off (num_filters (shared s)) now pkts)
       (with_store ((shared s)\<lparr>char_idx := cix\<rparr>) s))"
| stamp: "prog s t = W_stamp start off nc now pkts \<Longrightarrow>
     ptr_add_range (timestamp_ptr (shared s)) now start
       (take_bit 64 (start + length pkts + (2 ^ 64 - 1))) (wr_log s) = Some b \<Longrightarrow>
     wr_step L s (with_prog t (W_loop At_index start off nc now 0 pkts) (with_log b s))"
| index: "prog s t = W_loop At_index start off nc now k pkts \<Longrightarrow> k < length pkts \<Longrightarrow>
     index_pkt L (mtod (pkts ! k)) (start + k) (shared s) = Some S \<Longrightarrow>
     wr_step L s (with_prog t (W_loop At_offset start off nc now k pkts) (with_store S s))"
| offset: "prog s t = W_loop At_offset start off nc now k pkts \<Longrightarrow>
     set_without_alloc (start + k) off (take_bit 16 (pkt_len (pkts ! k))) (olog_of (wr_log s)) = Some l \<Longrightarrow>
     wr_step L s (with_prog t (W_loop At_append start off nc now k pkts)
       (place (start + k) off (take_bit 16 (pkt_len (pkts ! k))) (with_log ((wr_log s)\<lparr>olog_of := l\<rparr>) s)))"
| append: "prog s t = W_loop At_append start off nc now k pkts \<Longrightarrow>
     append_pkt off now (mtod (pkts ! k)) (take_bit 16 (pkt_len (pkts ! k))) (wr_log s) = Some (b, n) \<Longrightarrow>
     wr_step L s (with_prog t (W_loop At_chars start (take_bit 64 (off + n)) nc now k pkts) (with_log b s))"
| charts: "prog s t = W_loop At_chars start off nc now k pkts \<Longrightarrow>
     record_chars L now (mtod (pkts ! k)) (start + k) [0..<nc] (shared s) = Some S \<Longrightarrow>
     wr_step L s (with_prog t (W_loop At_index start off nc now (Suc k) pkts) (with_store S s))"
| finish: "prog s t = W_loop At_index start off nc now (length pkts) pkts \<Longrightarrow>
     end_try start (length pkts) (olog_of (wr_log s)) = (l, True) \<Longrightarrow>
     wr_step L s (with_prog t W_idle (with_log ((wr_log s)\<lparr>olog_of := l\<rparr>) s))"
| spin: "prog s t = W_loop At_index start off nc now (length pkts) pkts \<Longrightarrow>
     end_try start (length pkts) (olog_of (wr_log s)) = (l, False) \<Longrightarrow>
     wr_step L s (with_log ((wr_log s)\<lparr>olog_of := l\<rparr>) s)"
| character: "add_complex_character fl (shared s) = Some (S, c) \<Longrightarrow> wr_step L s (with_store S s)"

definition wr_start :: "packet_store \<Rightarrow> writers" where
  "wr_start S = \<lparr>shared = S, prog = (\<lambda>_. W_idle), given = Map.empty, placed = Map.empty\<rparr>"

definition wr_initial :: "writers \<Rightarrow> bool" where
  "wr_initial s \<longleftrightarrow> packet_store_init = Some (shared s) \<and> s = wr_start (shared s)"

abbreviation wr_reach :: "hdr_layout \<Rightarrow> writers \<Rightarrow> writers \<Rightarrow> bool" where
  "wr_reach L \<equiv> (wr_step L)\<^sup>*\<^sup>*"

section \<open>The identifier protocol behind it\<close>

text \<open>
  Seen from the offset log, a writer is idle or fills the block it was given; all other steps are
  invisible there.
\<close>

fun filled :: "phase \<Rightarrow> nat \<Rightarrow> nat" where
  "filled At_index k = k"
| "filled At_offset k = k"
| "filled At_append k = Suc k"
| "filled At_chars k = Suc k"

fun abs_prog :: "wprog \<Rightarrow> burst" where
  "abs_prog W_idle = Idle"
| "abs_prog (W_ids start now pkts) = Filling start 0 (length pkts)"
| "abs_prog (W_bytes start off now pkts) = Filling start 0 (length pkts)"
| "abs_prog (W_stamp start off nc now pkts) = Filling start 0 (length pkts)"
| "abs_prog (W_loop ph start off nc now k pkts) = Filling start (filled ph k) (length pkts)"

definition wr_abs :: "writers \<Rightarrow> id_system" where
  "wr_abs s = \<lparr>olog = olog_of (wr_log s), bursts = (\<lambda>t. abs_prog (prog s t)), assigned = placed s\<rparr>"

text \<open>The operations on the indexes and on the characters leave both logs alone.\<close>

definition same_log :: "log_store \<Rightarrow> log_store \<Rightarrow> bool" where
  "same_log b b' \<longleftrightarrow> dlog b' = dlog b \<and> dtail b' = dtail b \<and> olog_of b' = olog_of b"

lemma same_log_refl [simp]: "same_log b b"
  by (simp add: same_log_def)

lemma same_log_trans: "same_log b b' \<Longrightarrow> same_log b' b'' \<Longrightarrow> same_log b b''"
  by (simp add: same_log_def)

lemma ptr_add_entry_log: "ptr_add_entry p key rid b = Some b' \<Longrightarrow> same_log b b'"
  by (auto simp: ptr_add_entry_def bind_Some_iff same_log_def split: if_splits)

lemma ptr_add_range_log: "ptr_add_range p key start fin b = Some b' \<Longrightarrow> same_log b b'"
  by (auto simp: ptr_add_range_def bind_Some_iff same_log_def split: if_splits)

lemma index_ports_log: "index_ports sp dp rid s = Some s' \<Longrightarrow> same_log (base s) (base s')"
  by (auto simp: index_ports_def bind_Some_iff dest!: ptr_add_entry_log intro: same_log_trans)

lemma index_pkt_log: "index_pkt L pkt rid s = Some s' \<Longrightarrow> same_log (base s) (base s')"
  by (auto simp: index_pkt_def bind_Some_iff dest!: ptr_add_entry_log index_ports_log
      intro: same_log_trans split: if_splits)

lemma record_chars_log: "record_chars L now pkt rid is s = Some s' \<Longrightarrow> base s' = base s"
  by (induction "is" arbitrary: s) (auto simp: bind_Some_iff split: if_splits)


section \<open>The invariant\<close>

text \<open>The bytes a writer has still to copy, how many packets it has copied, and the burst it works on.\<close>

fun appended :: "phase \<Rightarrow> nat \<Rightarrow> nat" where
  "appended At_index k = k"
| "appended At_offset k = k"
| "appended At_append k = k"
| "appended At_chars k = Suc k"

fun w_todo :: "wprog \<Rightarrow> nat \<times> nat" where
  "w_todo W_idle = (0, 0)"
| "w_todo (W_ids start now pkts) = (0, 0)"
| "w_todo (W_bytes start off now pkts) = (off, burst_len pkts)"
| "w_todo (W_stamp start off nc now pkts) = (off, burst_len pkts)"
| "w_todo (W_loop ph start off nc now k pkts) = (off, burst_len (drop (appended ph k) pkts))"

fun w_burst :: "wprog \<Rightarrow> (nat \<times> nat \<times> mbuf list) option" where
  "w_burst W_idle = None"
| "w_burst (W_ids start now pkts) = Some (start, now, pkts)"
| "w_burst (W_bytes start off now pkts) = Some (start, now, pkts)"
| "w_burst (W_stamp start off nc now pkts) = Some (start, now, pkts)"
| "w_burst (W_loop ph start off nc now k pkts) = Some (start, now, pkts)"

fun w_done :: "wprog \<Rightarrow> nat" where
  "w_done (W_loop ph start off nc now k pkts) = appended ph k"
| "w_done _ = 0"

text \<open>Where the record of identifier \<open>i\<close> is, and that no writer will touch it.\<close>

definition written :: "writers \<Rightarrow> nat \<Rightarrow> bool" where
  "written s i \<longleftrightarrow> (\<exists>off now bytes. placed s i = Some (off, length bytes) \<and> given s i = Some (now, bytes)
     \<and> now < 2 ^ 64 \<and> length bytes < 2 ^ 16 \<and> off + (length bytes + 8) \<le> dtail (wr_log s)
     \<and> blocks (dlog (wr_log s)) (off div datalog_bs) \<noteq> None
     \<and> lin_read datalog_nb datalog_bs off (length bytes + 8) (dlog (wr_log s)) = Some (map Some (le_bytes 8 now @ bytes))
     \<and> (\<forall>t. apart (off, length bytes + 8) (w_todo (prog s t))))"

text \<open>The place of a writer fits its burst; an offset just recorded is that of the packet about to be copied.\<close>

fun w_place_ok :: "(nat \<rightharpoonup> nat \<times> nat) \<Rightarrow> wprog \<Rightarrow> bool" where
  "w_place_ok pl (W_loop At_index start off nc now k pkts) = (k \<le> length pkts)"
| "w_place_ok pl (W_loop At_offset start off nc now k pkts) = (k < length pkts)"
| "w_place_ok pl (W_loop At_append start off nc now k pkts) =
     (k < length pkts \<and> pl (start + k) = Some (off, pkt_len (pkts ! k)))"
| "w_place_ok pl (W_loop At_chars start off nc now k pkts) = (k < length pkts)"
| "w_place_ok pl _ = True"

definition writer_ok :: "writers \<Rightarrow> wprog \<Rightarrow> bool" where
  "writer_ok s p \<longleftrightarrow> w_place_ok (placed s) p \<and> (\<forall>start now pkts. w_burst p = Some (start, now, pkts) \<longrightarrow>
     burst_can_start now pkts \<and> (\<forall>j < length pkts. given s (start + j) = Some (now, pkt_bytes (pkts ! j)))
     \<and> (\<forall>j < w_done p. written s (start + j)))"

definition bytes_inv :: "writers \<Rightarrow> bool" where
  "bytes_inv s \<longleftrightarrow> dtail (wr_log s) < 2 ^ 40
     \<and> (\<forall>t. fst (w_todo (prog s t)) + snd (w_todo (prog s t)) \<le> dtail (wr_log s))
     \<and> (\<forall>t u. t \<noteq> u \<longrightarrow> apart (w_todo (prog s t)) (w_todo (prog s u)))
     \<and> (\<forall>t. writer_ok s (prog s t))
     \<and> (\<forall>i < current_read_id (olog_of (wr_log s)). written s i)"

definition wr_inv :: "writers \<Rightarrow> bool" where
  "wr_inv s \<longleftrightarrow> id_inv (wr_abs s) \<and> bytes_inv s"

lemma bytes_invD:
  assumes "bytes_inv s"
  shows "dtail (wr_log s) < 2 ^ 40" "fst (w_todo (prog s t)) + snd (w_todo (prog s t)) \<le> dtail (wr_log s)"
    "t \<noteq> u \<Longrightarrow> apart (w_todo (prog s t)) (w_todo (prog s u))" "writer_ok s (prog s t)"
    "i < current_read_id (olog_of (wr_log s)) \<Longrightarrow> written s i"
  using assms unfolding bytes_inv_def by blast+

text \<open>What a step has to respect for a record to stay where it is.\<close>

definition keeps :: "writers \<Rightarrow> writers \<Rightarrow> bool" where
  "keeps s s' \<longleftrightarrow> dtail (wr_log s) \<le> dtail (wr_log s')
     \<and> (\<forall>x. blocks (dlog (wr_log s)) x \<noteq> None \<longrightarrow> blocks (dlog (wr_log s')) x \<noteq> None)
     \<and> (\<forall>off n. blocks (dlog (wr_log s)) (off div datalog_bs) \<noteq> None \<longrightarrow> (\<forall>t. apart (off, n) (w_todo (prog s t))) \<longrightarrow>
          lin_read datalog_nb datalog_bs off n (dlog (wr_log s')) = lin_read datalog_nb datalog_bs off n (dlog (wr_log s)))
     \<and> (\<forall>t. w_todo (prog s' t) = (0, 0) \<or> inside (w_todo (prog s' t)) (w_todo (prog s t))
          \<or> dtail (wr_log s) \<le> fst (w_todo (prog s' t)))"

lemma written_kept:
  assumes "written s i" "keeps s s'" "placed s' i = placed s i" "given s' i = given s i"
  shows "written s' i"
proof -
  obtain off now bytes where w: "placed s i = Some (off, length bytes)" "given s i = Some (now, bytes)" "now < 2 ^ 64"
    "length bytes < 2 ^ 16" "off + (length bytes + 8) \<le> dtail (wr_log s)"
    "blocks (dlog (wr_log s)) (off div datalog_bs) \<noteq> None"
    "lin_read datalog_nb datalog_bs off (length bytes + 8) (dlog (wr_log s)) = Some (map Some (le_bytes 8 now @ bytes))"
    "\<forall>t. apart (off, length bytes + 8) (w_todo (prog s t))"
    using assms(1) unfolding written_def by blast
  have "apart (off, length bytes + 8) (w_todo (prog s' t))" for t
  proof (rule apart_later)
    show "w_todo (prog s' t) = (0, 0) \<or> inside (w_todo (prog s' t)) (w_todo (prog s t)) \<or> dtail (wr_log s) \<le> fst (w_todo (prog s' t))"
      using assms(2) by (simp add: keeps_def)
  qed (use w(5,8) in simp_all)
  then show ?thesis
    using w assms(2-4) unfolding written_def keeps_def
    by (intro exI [of _ off] exI [of _ now] exI [of _ bytes]) auto
qed

lemma writer_ok_kept:
  assumes "writer_ok s p" "keeps s s'" "w_place_ok (placed s') p"
    and "\<And>start now pkts j. w_burst p = Some (start, now, pkts) \<Longrightarrow> j < length pkts \<Longrightarrow> given s' (start + j) = given s (start + j)"
    and "\<And>start now pkts j. w_burst p = Some (start, now, pkts) \<Longrightarrow> j < w_done p \<Longrightarrow> placed s' (start + j) = placed s (start + j)"
    and "\<And>start now pkts. w_burst p = Some (start, now, pkts) \<Longrightarrow> w_done p \<le> length pkts"
  shows "writer_ok s' p"
  unfolding writer_ok_def
proof (intro conjI allI impI)
  fix start now pkts j assume b: "w_burst p = Some (start, now, pkts)"
  show "burst_can_start now pkts" using assms(1) b by (simp add: writer_ok_def)
  show "given s' (start + j) = Some (now, pkt_bytes (pkts ! j))" if "j < length pkts"
    using assms(1) assms(4) [OF b that] b that by (simp add: writer_ok_def)
  show "written s' (start + j)" if "j < w_done p"
    using assms(1) b that assms(6) [OF b]
    by (intro written_kept [OF _ assms(2) assms(5) [OF b that] assms(4) [OF b]]) (auto simp: writer_ok_def)
qed (rule assms(3))

lemma w_done_le: "w_place_ok pl p \<Longrightarrow> w_burst p = Some (start, now, pkts) \<Longrightarrow> w_done p \<le> length pkts"
  by (induction pl p rule: w_place_ok.induct) auto

text \<open>The identifiers of a burst, of the abstract system.\<close>

lemma abs_burst_ids:
  "burst_ids (abs_prog p) = (case w_burst p of None \<Rightarrow> {} | Some (start, now, pkts) \<Rightarrow> {start..<start + length pkts})"
  by (cases p) (simp_all add: burst_ids_def)

lemma wr_burst_ids:
  assumes "id_inv (wr_abs s)" "w_burst (prog s t) = Some (start, now, pkts)" "j < length pkts"
  shows "start + j < current_write_id (olog_of (wr_log s))" "current_read_id (olog_of (wr_log s)) \<le> start + j"
    "w_burst (prog s u) = Some (start', now', pkts') \<Longrightarrow> j' < length pkts' \<Longrightarrow> u \<noteq> t \<Longrightarrow> start' + j' \<noteq> start + j"
proof -
  have mem: "start + j \<in> burst_ids (bursts (wr_abs s) t)" using assms(2,3) by (simp add: wr_abs_def abs_burst_ids)
  show "start + j < current_write_id (olog_of (wr_log s))" "current_read_id (olog_of (wr_log s)) \<le> start + j"
    using burst_ids_below [OF assms(1) mem] by (simp_all add: wr_abs_def)
  show "start' + j' \<noteq> start + j" if "w_burst (prog s u) = Some (start', now', pkts')" "j' < length pkts'" "u \<noteq> t"
  proof -
    have "start' + j' \<in> burst_ids (bursts (wr_abs s) u)" using that by (simp add: wr_abs_def abs_burst_ids)
    then show ?thesis using id_invD(4) [OF assms(1) that(3)] mem by auto
  qed
qed


text \<open>
  One step of a writer: it moves to a new place, may change what is recorded for identifiers of its own,
  and may be handed new ones.
\<close>

lemma place_ok_cong:
  assumes "w_place_ok pl p"
    and "\<And>start now pkts j. w_burst p = Some (start, now, pkts) \<Longrightarrow> j < length pkts \<Longrightarrow> pl' (start + j) = pl (start + j)"
  shows "w_place_ok pl' p"
  using assms by (induction pl p rule: w_place_ok.induct) auto

lemma bytes_inv_step:
  assumes inv: "bytes_inv s" and id: "id_inv (wr_abs s)" and keep: "keeps s s'"
    and progs: "prog s' = (prog s)(t := p')" and tail: "dtail (wr_log s') < 2 ^ 40"
    and fin: "fst (w_todo p') + snd (w_todo p') \<le> dtail (wr_log s')"
    and mine: "writer_ok s' p'"
    and pl: "\<And>i. placed s' i \<noteq> placed s i \<Longrightarrow>
      \<exists>start now pkts j. w_burst (prog s t) = Some (start, now, pkts) \<and> j < length pkts \<and> i = start + j"
    and gi: "\<And>i. given s' i \<noteq> given s i \<Longrightarrow> current_write_id (olog_of (wr_log s)) \<le> i"
    and new: "\<And>i. current_read_id (olog_of (wr_log s)) \<le> i \<Longrightarrow> i < current_read_id (olog_of (wr_log s')) \<Longrightarrow> written s' i"
  shows "bytes_inv s'"
proof -
  note D = bytes_invD [OF inv]
  have mono: "dtail (wr_log s) \<le> dtail (wr_log s')" using keep by (simp add: keeps_def)
  have todo: "w_todo p' = (0, 0) \<or> inside (w_todo p') (w_todo (prog s t)) \<or> dtail (wr_log s) \<le> fst (w_todo p')"
    using keep unfolding keeps_def progs by (metis fun_upd_same)
  have away: "apart (w_todo (prog s u)) (w_todo p')" if "u \<noteq> t" for u
    using apart_later [OF todo D(3) [OF that] D(2)] .
  have other: "placed s' (start + j) = placed s (start + j)" "given s' (start + j) = given s (start + j)"
    if "u \<noteq> t" "w_burst (prog s u) = Some (start, now, pkts)" "j < length pkts" for u start now pkts j
  proof -
    show "given s' (start + j) = given s (start + j)"
      using gi [of "start + j"] wr_burst_ids(1) [OF id that(2,3)] by fastforce
    show "placed s' (start + j) = placed s (start + j)"
    proof (rule ccontr)
      assume "placed s' (start + j) \<noteq> placed s (start + j)"
      then obtain start' now' pkts' j' where "w_burst (prog s t) = Some (start', now', pkts')" "j' < length pkts'"
        "start + j = start' + j'" using pl by blast
      then show False using wr_burst_ids(3) [OF id, of t start' now' pkts' j' u start now pkts j] that by auto
    qed
  qed
  have others: "writer_ok s' (prog s u)" if u: "u \<noteq> t" for u
  proof (rule writer_ok_kept [OF D(4) keep])
    have place: "w_place_ok (placed s) (prog s u)" using D(4) [of u] by (simp add: writer_ok_def)
    show "w_place_ok (placed s') (prog s u)" using place_ok_cong [OF place] other(1) [OF u] by blast
    fix start now pkts j assume b: "w_burst (prog s u) = Some (start, now, pkts)"
    show "w_done (prog s u) \<le> length pkts" using w_done_le [OF place b] .
    then show "j < w_done (prog s u) \<Longrightarrow> placed s' (start + j) = placed s (start + j)" using other(1) [OF u b] by simp
    show "j < length pkts \<Longrightarrow> given s' (start + j) = given s (start + j)" using other(2) [OF u b] .
  qed
  have old: "written s' i" if i: "i < current_read_id (olog_of (wr_log s))" for i
  proof (rule written_kept [OF D(5) [OF i] keep])
    have "i < current_write_id (olog_of (wr_log s))" using id_invD(1) [OF id] i by (simp add: wr_abs_def)
    then show "given s' i = given s i" using gi [of i] by fastforce
    show "placed s' i = placed s i"
    proof (rule ccontr)
      assume "placed s' i \<noteq> placed s i"
      then obtain start now pkts j where "w_burst (prog s t) = Some (start, now, pkts)" "j < length pkts" "i = start + j"
        using pl by blast
      then show False using wr_burst_ids(2) [OF id, of t start now pkts j] i by simp
    qed
  qed
  show ?thesis
    unfolding bytes_inv_def
  proof (intro conjI allI impI)
    show "fst (w_todo (prog s' u)) + snd (w_todo (prog s' u)) \<le> dtail (wr_log s')" for u
      using fin D(2) [of u] mono by (simp add: progs)
    show "apart (w_todo (prog s' u)) (w_todo (prog s' v))" if "u \<noteq> v" for u v
      using that away [of u] away [of v] D(3) [OF that] by (auto simp: progs apart_sym)
    show "writer_ok s' (prog s' u)" for u using mine others by (simp add: progs)
    show "written s' i" if "i < current_read_id (olog_of (wr_log s'))" for i
      using old new that by (meson not_le)
  qed (rule tail)
qed


section \<open>Every step keeps the invariant\<close>

lemma with_simps [simp]:
  "shared (with_log b s) = (shared s)\<lparr>base := b\<rparr>" "prog (with_log b s) = prog s"
  "given (with_log b s) = given s" "placed (with_log b s) = placed s"
  "shared (with_store S s) = S" "prog (with_store S s) = prog s"
  "given (with_store S s) = given s" "placed (with_store S s) = placed s"
  "shared (with_prog t p s) = shared s" "prog (with_prog t p s) = (prog s)(t := p)"
  "given (with_prog t p s) = given s" "placed (with_prog t p s) = placed s"
  "shared (give start now pkts s) = shared s" "prog (give start now pkts s) = prog s" "placed (give start now pkts s) = placed s"
  "shared (place i off len s) = shared s" "prog (place i off len s) = prog s" "given (place i off len s) = given s"
  "placed (place i off len s) = (placed s)(i \<mapsto> (off, len))"
  by (simp_all add: with_log_def with_store_def with_prog_def give_def place_def)

lemma keeps_same_log:
  assumes "dlog (wr_log s') = dlog (wr_log s)" "dtail (wr_log s') = dtail (wr_log s)"
    and "\<And>u. w_todo (prog s' u) = w_todo (prog s u) \<or> w_todo (prog s' u) = (0, 0)"
  shows "keeps s s'"
proof -
  have "w_todo (prog s' u) = (0, 0) \<or> inside (w_todo (prog s' u)) (w_todo (prog s u))" for u
    using assms(3) [of u] by auto
  then show ?thesis using assms(1,2) by (auto simp: keeps_def)
qed

lemma quiet_step:
  assumes inv: "wr_inv s" and p: "prog s t = p" and log: "same_log (wr_log s) (base S)"
    and same: "w_burst p' = w_burst p" "w_todo p' = w_todo p" "w_done p' = w_done p" "abs_prog p' = abs_prog p"
    and place: "w_place_ok (placed s) p \<Longrightarrow> w_place_ok (placed s) p'"
  shows "wr_inv (with_prog t p' (with_store S s))" "wr_abs (with_prog t p' (with_store S s)) = wr_abs s"
proof -
  let ?s = "with_prog t p' (with_store S s)"
  have id: "id_inv (wr_abs s)" and b: "bytes_inv s" using inv by (simp_all add: wr_inv_def)
  show eq: "wr_abs ?s = wr_abs s" using log same(4) p by (auto simp: wr_abs_def same_log_def fun_eq_iff)
  have keep: "keeps s ?s" using log same(2) p by (intro keeps_same_log) (auto simp: same_log_def)
  have ok: "writer_ok s p" using bytes_invD(4) [OF b, of t] p by simp
  have "writer_ok ?s p'"
    unfolding writer_ok_def same(1,3)
  proof (intro conjI allI impI)
    show "w_place_ok (placed ?s) p'" using ok place by (simp add: writer_ok_def)
    fix start now pkts j assume w: "w_burst p = Some (start, now, pkts)"
    show "burst_can_start now pkts" using ok w by (simp add: writer_ok_def)
    show "given ?s (start + j) = Some (now, pkt_bytes (pkts ! j))" if "j < length pkts"
      using ok w that by (simp add: writer_ok_def)
    show "written ?s (start + j)" if "j < w_done p"
      using ok w that by (intro written_kept [OF _ keep]) (simp_all add: writer_ok_def)
  qed
  then have "bytes_inv ?s"
    using bytes_invD(1,2) [OF b] log same(2) p
    by (intro bytes_inv_step [OF b id keep, of t p']) (auto simp: same_log_def)
  then show "wr_inv ?s" using id eq by (simp add: wr_inv_def)
qed

lemma with_log_store: "with_log b s = with_store ((shared s)\<lparr>base := b\<rparr>) s"
  by (simp add: with_log_def with_store_def)


lemma wr_inv_step:
  assumes "wr_inv s" "id_step (wr_abs s) (wr_abs s')" "bytes_inv s'"
  shows "wr_inv s'"
  using assms id_inv_step by (simp add: wr_inv_def)

text \<open>Identifiers are handed out.\<close>

lemma given_give:
  "given (give start now pkts s) i = (if start \<le> i \<and> i < start + length pkts
     then Some (now, pkt_bytes (pkts ! (i - start))) else given s i)"
  by (simp add: give_def)

lemma ids_step:
  assumes inv: "wr_inv s" and p: "prog s t = W_idle" and can: "burst_can_start now pkts"
    and req: "request_id_block (length pkts) (olog_of (wr_log s)) = Some (l, start)"
  defines "s' \<equiv> with_prog t (W_ids start now pkts) (give start now pkts (with_log ((wr_log s)\<lparr>olog_of := l\<rparr>) s))"
  shows "wr_inv s'" "id_step (wr_abs s) (wr_abs s')"
proof -
  have id: "id_inv (wr_abs s)" and b: "bytes_inv s" using inv by (simp_all add: wr_inv_def)
  have n: "length pkts < 2 ^ 16" using can by (simp add: burst_can_start_def)
  have room: "id_room (current_write_id (olog_of (wr_log s)))" using id_invD(2) [OF id] by (simp add: wr_abs_def)
  note spec = request_spec(1,3) [OF req room n]
  have "wr_abs s' = (wr_abs s)\<lparr>olog := l, bursts := (bursts (wr_abs s))(t := Filling start 0 (length pkts))\<rparr>"
    by (auto simp: wr_abs_def s'_def fun_eq_iff)
  then show st: "id_step (wr_abs s) (wr_abs s')"
    using id_step.request [of "wr_abs s" t "length pkts" l start] p n req by (simp add: wr_abs_def)
  have log: "dlog (wr_log s') = dlog (wr_log s)" "dtail (wr_log s') = dtail (wr_log s)"
    "current_read_id (olog_of (wr_log s')) = current_read_id (olog_of (wr_log s))" using spec(2) by (simp_all add: s'_def)
  have "writer_ok s' (W_ids start now pkts)" using can by (simp add: writer_ok_def s'_def given_give)
  then have "bytes_inv s'"
    using bytes_invD(1) [OF b] log spec(1)
    by (intro bytes_inv_step [OF b id keeps_same_log, of s' t "W_ids start now pkts"])
      (auto simp: s'_def given_give split: if_splits)
  then show "wr_inv s'" by (rule wr_inv_step [OF inv st])
qed

text \<open>Bytes are reserved.\<close>

lemma burst_len_bound: "\<forall>m \<in> set pkts. pkt_len m < 2 ^ 16 \<Longrightarrow> burst_len pkts \<le> length pkts * (2 ^ 16 + 8)"
  by (induction pkts) (auto simp: burst_len_def)

lemma burst_len_small:
  assumes "burst_can_start now pkts"
  shows "burst_len pkts < 2 ^ 33"
proof -
  have "burst_len pkts \<le> length pkts * (2 ^ 16 + 8)" "length pkts \<le> 2 ^ 16"
    using assms burst_len_bound by (auto simp: burst_can_start_def)
  then have "burst_len pkts \<le> 2 ^ 16 * (2 ^ 16 + 8)" by (meson le_trans mult_le_mono1)
  then show ?thesis by simp
qed

lemma request_bytes_SomeD:
  assumes "request_bytes n b = Some (b', off)" "dtail b < 2 ^ 40" "n < 2 ^ 40"
  shows "dtail b + n < 2 ^ 40"
proof -
  have wrap: "take_bit 64 (dtail b + n) = dtail b + n" using assms(2,3) by (intro take_bit_64_id) simp
  obtain d where d: "lin_alloc_range datalog_nb (dtail b div datalog_bs) ((dtail b + n) div datalog_bs) (dlog b) = Some d"
    using assms(1) by (auto simp: request_bytes_def Let_def lin_ensure_alloc_def wrap bind_Some_iff)
  have "(dtail b + n) div datalog_bs < datalog_nb" by (rule lin_alloc_range_in_bounds [OF d]) (simp add: div_le_mono)
  then show ?thesis by (simp add: datalog_bs_def datalog_nb_def div_less_iff_less_mult)
qed

lemma bytes_step:
  assumes inv: "wr_inv s" and p: "prog s t = W_ids start now pkts"
    and req: "request_bytes (burst_bytes pkts) (wr_log s) = Some (b, off)"
  defines "s' \<equiv> with_prog t (W_bytes start off now pkts) (with_log b s)"
  shows "wr_inv s'" "wr_abs s' = wr_abs s"
proof -
  have id: "id_inv (wr_abs s)" and bi: "bytes_inv s" using inv by (simp_all add: wr_inv_def)
  have ok: "writer_ok s (W_ids start now pkts)" using bytes_invD(4) [OF bi, of t] p by simp
  then have can: "burst_can_start now pkts" by (simp add: writer_ok_def)
  have len: "burst_bytes pkts = burst_len pkts" using burst_len_small [OF can] by (intro burst_bytes_len) simp
  have tail: "dtail (wr_log s) + burst_len pkts < 2 ^ 40"
    using request_bytes_SomeD [OF req bytes_invD(1) [OF bi]] burst_len_small [OF can] len by simp
  obtain d where d: "b = (wr_log s)\<lparr>dtail := dtail (wr_log s) + burst_len pkts, dlog := d\<rparr>" "off = dtail (wr_log s)"
    "\<forall>x. blocks (dlog (wr_log s)) x \<noteq> None \<longrightarrow> blocks d x \<noteq> None" "\<forall>x. block_cells x d = block_cells x (dlog (wr_log s))"
    using request_bytes_alloc [OF tail] req len by auto
  show eq: "wr_abs s' = wr_abs s" using p d(1) by (auto simp: wr_abs_def s'_def fun_eq_iff)
  have keep: "keeps s s'"
    unfolding keeps_def s'_def using d lin_read_cong [of "dlog (wr_log s)" _ datalog_bs d] by (auto simp: inside_def)
  have "writer_ok s' (W_bytes start off now pkts)" using ok by (simp add: writer_ok_def s'_def)
  then have "bytes_inv s'"
    using d(1,2) tail by (intro bytes_inv_step [OF bi id keep, of t "W_bytes start off now pkts"]) (simp_all add: s'_def)
  then show "wr_inv s'" using id eq by (simp add: wr_inv_def)
qed


text \<open>An offset is recorded.\<close>

lemma loop_size:
  assumes "writer_ok s (W_loop ph start off nc now k pkts)" "k < length pkts"
  shows "take_bit 16 (pkt_len (pkts ! k)) = pkt_len (pkts ! k)" "pkt_len (pkts ! k) < 2 ^ 16" "now < 2 ^ 64"
    "given s (start + k) = Some (now, pkt_bytes (pkts ! k))"
proof -
  have can: "burst_can_start now pkts" using assms(1) by (simp add: writer_ok_def)
  then show small: "pkt_len (pkts ! k) < 2 ^ 16" and "now < 2 ^ 64"
    using assms(2) unfolding burst_can_start_def by (meson nth_mem)+
  then show "take_bit 16 (pkt_len (pkts ! k)) = pkt_len (pkts ! k)" by (intro take_bit_id) simp
  show "given s (start + k) = Some (now, pkt_bytes (pkts ! k))" using assms by (simp add: writer_ok_def)
qed

lemma offset_step:
  assumes inv: "wr_inv s" and p: "prog s t = W_loop At_offset start off nc now k pkts"
    and set: "set_without_alloc (start + k) off (take_bit 16 (pkt_len (pkts ! k))) (olog_of (wr_log s)) = Some l"
  defines "s' \<equiv> with_prog t (W_loop At_append start off nc now k pkts)
       (place (start + k) off (take_bit 16 (pkt_len (pkts ! k))) (with_log ((wr_log s)\<lparr>olog_of := l\<rparr>) s))"
  shows "wr_inv s'" "id_step (wr_abs s) (wr_abs s')"
proof -
  have id: "id_inv (wr_abs s)" and b: "bytes_inv s" using inv by (simp_all add: wr_inv_def)
  have ok: "writer_ok s (W_loop At_offset start off nc now k pkts)" using bytes_invD(4) [OF b, of t] p by simp
  then have k: "k < length pkts" by (simp add: writer_ok_def)
  note size = loop_size [OF ok k]
  have burst: "w_burst (prog s t) = Some (start, now, pkts)" using p by simp
  have "wr_abs s' = (wr_abs s)\<lparr>olog := l, bursts := (bursts (wr_abs s))(t := Filling start (Suc k) (length pkts)),
      assigned := (assigned (wr_abs s))(start + k \<mapsto> (off, take_bit 16 (pkt_len (pkts ! k))))\<rparr>"
    by (auto simp: wr_abs_def s'_def fun_eq_iff)
  then show st: "id_step (wr_abs s) (wr_abs s')"
    using id_step.fill [of "wr_abs s" t start k "length pkts" off "take_bit 16 (pkt_len (pkts ! k))" l] p k set
    by (simp add: wr_abs_def)
  have read: "current_read_id l = current_read_id (olog_of (wr_log s))"
    using set by (auto simp: set_without_alloc_def bind_Some_iff)
  have keep: "keeps s s'"
    using p by (intro keeps_same_log) (auto simp: s'_def)
  have "writer_ok s' (W_loop At_append start off nc now k pkts)"
    unfolding writer_ok_def
  proof (intro conjI allI impI)
    fix st nw ps assume w: "w_burst (W_loop At_append start off nc now k pkts) = Some (st, nw, ps)"
    show "burst_can_start nw ps" using ok w by (simp add: writer_ok_def)
    show "given s' (st + j) = Some (nw, pkt_bytes (ps ! j))" if "j < length ps" for j
      using ok w that by (simp add: writer_ok_def s'_def)
    show "written s' (st + j)" if "j < w_done (W_loop At_append start off nc now k pkts)" for j
      using ok w that by (intro written_kept [OF _ keep]) (auto simp: writer_ok_def s'_def)
  qed (use k size in \<open>simp add: s'_def\<close>)
  then have "bytes_inv s'"
    using bytes_invD(1) [OF b] bytes_invD(2) [OF b, of t] p read burst k
    by (intro bytes_inv_step [OF b id keep, of t "W_loop At_append start off nc now k pkts"])
      (auto simp: s'_def split: if_splits)
  then show "wr_inv s'" by (rule wr_inv_step [OF inv st])
qed

text \<open>A packet is copied.\<close>

lemma append_pkt_SomeD:
  assumes "append_pkt off ts pkt n b = Some (b', c)"
  shows "\<exists>bytes. load_bytes 0 n pkt = Some bytes \<and> run_fits datalog_nb datalog_bs off (n + 8)
    \<and> c = n + 8 \<and> append_record (le_bytes 8 ts @ bytes) (n + 8) off b = Some b'"
proof -
  obtain bytes where bytes: "load_bytes 0 n pkt = Some bytes" and blk: "blocks (dlog b) (off div datalog_bs) \<noteq> None"
    and fits: "run_fits datalog_nb datalog_bs off (n + 8)"
  proof -
    obtain blk i d1 bytes d2 where a: "lin_ptr datalog_nb datalog_bs off (dlog b) = Some (blk, i)"
      "load_bytes 0 n pkt = Some bytes" "lin_copy_in datalog_nb datalog_bs blk (i + 8) bytes d1 = Some d2"
      using assms by (auto simp: append_pkt_def bind_Some_iff)
    have blk: "blk = off div datalog_bs" "i = off mod datalog_bs" "blk < datalog_nb" "blocks (dlog b) blk \<noteq> None"
      using a(1) by (auto simp: lin_ptr_def lin_load_def bind_Some_iff split: if_splits)
    have "i + 8 + n \<le> datalog_bs + BUFFER_SIZE"
      using a(3) load_bytes_length [OF a(2)] by (auto simp: lin_copy_in_def bind_Some_iff split: if_splits)
    then show thesis using a(2) blk that by (simp add: run_fits_def add.assoc add.commute [of 8])
  qed
  show ?thesis
    using append_pkt_record [OF bytes fits blk, of ts] assms bytes fits
    by (cases "append_record (le_bytes 8 ts @ bytes) (n + 8) off b") auto
qed

lemma burst_len_drop: "k < length pkts \<Longrightarrow> burst_len (drop k pkts) = pkt_len (pkts ! k) + 8 + burst_len (drop (Suc k) pkts)"
  by (simp add: burst_len_def flip: Cons_nth_drop_Suc)

lemma append_step:
  assumes inv: "wr_inv s" and p: "prog s t = W_loop At_append start off nc now k pkts"
    and app: "append_pkt off now (mtod (pkts ! k)) (take_bit 16 (pkt_len (pkts ! k))) (wr_log s) = Some (b, n)"
  defines "s' \<equiv> with_prog t (W_loop At_chars start (take_bit 64 (off + n)) nc now k pkts) (with_log b s)"
  shows "wr_inv s'" "wr_abs s' = wr_abs s"
proof -
  have id: "id_inv (wr_abs s)" and bi: "bytes_inv s" using inv by (simp_all add: wr_inv_def)
  let ?m = "pkts ! k"
  have ok: "writer_ok s (W_loop At_append start off nc now k pkts)" using bytes_invD(4) [OF bi, of t] p by simp
  then have k: "k < length pkts" and pl: "placed s (start + k) = Some (off, pkt_len ?m)" by (simp_all add: writer_ok_def)
  note size = loop_size [OF ok k]
  obtain bytes where bytes: "load_bytes 0 (pkt_len ?m) (mtod ?m) = Some bytes" "n = pkt_len ?m + 8"
    and fits: "run_fits datalog_nb datalog_bs off (pkt_len ?m + 8)"
    and rec: "append_record (le_bytes 8 now @ bytes) (pkt_len ?m + 8) off (wr_log s) = Some b"
    using append_pkt_SomeD [OF app] unfolding size(1) by blast
  have len: "length bytes = pkt_len ?m" "pkt_bytes ?m = bytes"
    using load_bytes_length [OF bytes(1)] bytes(1) by (simp_all add: pkt_bytes_def)
  obtain d where a: "append_record (le_bytes 8 now @ bytes) (pkt_len ?m + 8) off (wr_log s) = Some ((wr_log s)\<lparr>dlog := d\<rparr>)"
    and d: "lin_read datalog_nb datalog_bs off (pkt_len ?m + 8) d = Some (map Some (le_bytes 8 now @ bytes))"
      "blocks d (off div datalog_bs) \<noteq> None" "\<forall>x. blocks (dlog (wr_log s)) x \<noteq> None \<longrightarrow> blocks d x \<noteq> None"
    using append_record_spec [OF fits, of "le_bytes 8 now @ bytes" "wr_log s"] len by auto
  have b: "b = (wr_log s)\<lparr>dlog := d\<rparr>" using rec a by simp
  have w: "lin_write datalog_nb datalog_bs off (le_bytes 8 now @ bytes) (dlog (wr_log s)) = Some d"
    using a len by (auto simp: append_record_def bind_Some_iff dest!: arg_cong [where f = dlog])
  have todo: "w_todo (prog s t) = (off, pkt_len ?m + 8 + burst_len (drop (Suc k) pkts))"
    using burst_len_drop [OF k] p by simp
  have fin: "off + (pkt_len ?m + 8 + burst_len (drop (Suc k) pkts)) \<le> dtail (wr_log s)"
    using bytes_invD(2) [OF bi, of t] todo by simp
  have off': "take_bit 64 (off + n) = off + (pkt_len ?m + 8)"
    unfolding bytes(2) using fin bytes_invD(1) [OF bi] by (intro take_bit_64_id) simp
  have keep: "keeps s s'"
    unfolding keeps_def
  proof (intro conjI allI impI)
    fix o2 n2 assume a: "blocks (dlog (wr_log s)) (o2 div datalog_bs) \<noteq> None" "\<forall>u. apart (o2, n2) (w_todo (prog s u))"
    have "apart (o2, n2) (off, pkt_len ?m + 8)"
      using apart_inside [OF a(2) [rule_format, of t], of "(off, pkt_len ?m + 8)"] todo by (simp add: inside_def)
    then have "off + length (le_bytes 8 now @ bytes) \<le> o2 \<or> o2 + n2 \<le> off" using len by (auto simp: apart_def)
    then have "runs_apart datalog_bs off (length (le_bytes 8 now @ bytes)) o2 n2" by (rule disjoint_runs_apart)
    then show "lin_read datalog_nb datalog_bs o2 n2 (dlog (wr_log s')) = lin_read datalog_nb datalog_bs o2 n2 (dlog (wr_log s))"
      using lin_read_write_apart [OF w _ _ a(1)] fits len by (simp add: s'_def b add.commute)
  next
    show "w_todo (prog s' u) = (0, 0) \<or> inside (w_todo (prog s' u)) (w_todo (prog s u))
        \<or> dtail (wr_log s) \<le> fst (w_todo (prog s' u))" for u
      using todo by (simp add: s'_def off' inside_def)
  qed (use d(3) in \<open>simp_all add: s'_def b\<close>)
  have away: "apart (off, pkt_len ?m + 8) (w_todo (prog s' u))" for u
  proof (cases "u = t")
    case False
    have "apart (w_todo (prog s u)) (off, pkt_len ?m + 8)"
      using apart_inside [OF bytes_invD(3) [OF bi False], of "(off, pkt_len ?m + 8)"] todo by (simp add: inside_def)
    then show ?thesis using False by (simp add: s'_def apart_sym)
  qed (simp add: s'_def off' apart_def)
  have last: "written s' (start + k)"
    unfolding written_def
    by (rule exI [of _ off], rule exI [of _ now], rule exI [of _ bytes])
      (use pl size(2-4) len d fin away in \<open>simp add: s'_def b\<close>)
  show eq: "wr_abs s' = wr_abs s" using p by (auto simp: wr_abs_def s'_def b fun_eq_iff)
  have "writer_ok s' (W_loop At_chars start (take_bit 64 (off + n)) nc now k pkts)"
    unfolding writer_ok_def
  proof (intro conjI allI impI)
    fix st nw ps assume w: "w_burst (W_loop At_chars start (take_bit 64 (off + n)) nc now k pkts) = Some (st, nw, ps)"
    show "burst_can_start nw ps" using ok w by (simp add: writer_ok_def)
    show "given s' (st + j) = Some (nw, pkt_bytes (ps ! j))" if "j < length ps" for j
      using ok w that by (simp add: writer_ok_def s'_def)
    fix j assume j: "j < w_done (W_loop At_chars start (take_bit 64 (off + n)) nc now k pkts)"
    show "written s' (st + j)"
    proof (cases "j = k")
      case False
      then show ?thesis
        using ok w j by (intro written_kept [OF _ keep]) (auto simp: writer_ok_def s'_def)
    qed (use last w in simp)
  qed (use k in simp)
  then have "bytes_inv s'"
    using bytes_invD(1) [OF bi] fin
    by (intro bytes_inv_step [OF bi id keep, of t "W_loop At_chars start (take_bit 64 (off + n)) nc now k pkts"])
      (simp_all add: s'_def b off')
  then show "wr_inv s'" using id eq by (simp add: wr_inv_def)
qed


text \<open>A block is published, or not yet.\<close>

lemma finish_step:
  assumes inv: "wr_inv s" and p: "prog s t = W_loop At_index start off nc now (length pkts) pkts"
    and fin: "end_try start (length pkts) (olog_of (wr_log s)) = (l, True)"
  defines "s' \<equiv> with_prog t W_idle (with_log ((wr_log s)\<lparr>olog_of := l\<rparr>) s)"
  shows "wr_inv s'" "id_step (wr_abs s) (wr_abs s')"
proof -
  have id: "id_inv (wr_abs s)" and b: "bytes_inv s" using inv by (simp_all add: wr_inv_def)
  have "wr_abs s' = (wr_abs s)\<lparr>olog := l, bursts := (bursts (wr_abs s))(t := Idle)\<rparr>"
    by (auto simp: wr_abs_def s'_def fun_eq_iff)
  then show st: "id_step (wr_abs s) (wr_abs s')"
    using id_step.finish [of "wr_abs s" t start "length pkts" l] p fin by (simp add: wr_abs_def)
  have l: "current_read_id (olog_of (wr_log s)) = start" "current_read_id l \<le> start + length pkts"
    using fin by (auto simp: end_try_def split: if_splits)
  have keep: "keeps s s'" using p by (intro keeps_same_log) (auto simp: s'_def)
  have ok: "writer_ok s (W_loop At_index start off nc now (length pkts) pkts)" using bytes_invD(4) [OF b, of t] p by simp
  have "written s' i" if "current_read_id (olog_of (wr_log s)) \<le> i" "i < current_read_id (olog_of (wr_log s'))" for i
  proof -
    have i: "i = start + (i - start)" "i - start < length pkts" using that l by (simp_all add: s'_def)
    then have "written s i" using ok unfolding writer_ok_def by (metis appended.simps(1) w_burst.simps(5) w_done.simps(1))
    then show ?thesis by (intro written_kept [OF _ keep]) (simp_all add: s'_def)
  qed
  then have "bytes_inv s'"
    using bytes_invD(1) [OF b]
    by (intro bytes_inv_step [OF b id keep, of t W_idle]) (simp_all add: s'_def writer_ok_def)
  then show "wr_inv s'" by (rule wr_inv_step [OF inv st])
qed

lemma same_shared: "with_log b s = s \<longleftrightarrow> b = wr_log s"
proof
  show "with_log b s = s \<Longrightarrow> b = wr_log s"
    by (metis packet_store.select_convs(1) packet_store.surjective packet_store.update_convs(1) with_simps(1))
qed (simp add: with_log_def)

lemma store_step:
  assumes "wr_inv s" "base S = wr_log s"
  shows "wr_inv (with_store S s)" "wr_abs (with_store S s) = wr_abs s"
  using quiet_step [OF assms(1) refl, where S = S and t = 0 and p' = "prog s 0"] assms(2)
  by (simp_all add: with_prog_def with_store_def)

lemma add_character_log: "add_complex_character fl S = Some (S', c) \<Longrightarrow> base S' = base S"
  by (auto simp: add_complex_character_def Let_def split: if_splits)

lemma wr_step_refines:
  assumes "wr_step L s s'" "wr_inv s"
  shows "wr_inv s' \<and> (wr_abs s' = wr_abs s \<or> id_step (wr_abs s) (wr_abs s'))"
  using assms
proof (induction rule: wr_step.induct)
  case (ids s t now pkts l start)
  then show ?case using ids_step by blast
next
  case (bytes s t start now pkts b off)
  then show ?case using bytes_step by blast
next
  case (chars s t start off now pkts cix ci)
  then show ?case using quiet_step [OF chars(3,1)] by simp
next
  case (stamp s t start off nc now pkts b)
  then show ?case
    using quiet_step [OF stamp(3,1), of "(shared s)\<lparr>base := b\<rparr>" "W_loop At_index start off nc now 0 pkts"] ptr_add_range_log
    by (simp add: with_log_store)
next
  case (index s t start off nc now k pkts S)
  then show ?case
    using quiet_step [OF index(4,1), of S "W_loop At_offset start off nc now k pkts"] index_pkt_log by simp
next
  case (offset s t start off nc now k pkts l)
  then show ?case using offset_step by blast
next
  case (append s t start off nc now k pkts b n)
  then show ?case using append_step by blast
next
  case (charts s t start off nc now k pkts S)
  then show ?case
    using quiet_step [OF charts(3,1), of S "W_loop At_index start off nc now (Suc k) pkts"] record_chars_log by simp
next
  case (finish s t start off nc now pkts l)
  then show ?case using finish_step by blast
next
  case (spin s t start off nc now pkts l)
  have "with_log ((wr_log s)\<lparr>olog_of := l\<rparr>) s = s"
    unfolding same_shared using spin(2) by (auto simp: end_try_def split: if_splits)
  then show ?case using spin(3) by simp
next
  case (character fl s S c)
  then show ?case using store_step add_character_log by blast
qed

section \<open>Runs of the writers\<close>

lemma new_packet_store:
  assumes "packet_store_init = Some S"
  shows "olog_of (base S) = offsetlog_init \<and> dtail (base S) = 0"
  using packet_store_init_eq unfolding assms by auto

lemma select_convs_start: "prog (wr_start S) = (\<lambda>_. W_idle)" "placed (wr_start S) = Map.empty"
  by (simp_all add: wr_start_def)

lemma wr_initial_start: "packet_store_init = Some S \<Longrightarrow> wr_initial (wr_start S)"
  by (simp add: wr_initial_def wr_start_def)

lemma wr_initial_log:
  assumes "wr_initial s"
  shows "olog_of (wr_log s) = offsetlog_init \<and> dtail (wr_log s) = 0 \<and> prog s = (\<lambda>_. W_idle) \<and> placed s = Map.empty"
proof -
  have "olog_of (wr_log s) = offsetlog_init \<and> dtail (wr_log s) = 0"
    using new_packet_store assms by (simp add: wr_initial_def)
  moreover have "s = wr_start (shared s)" using assms by (simp add: wr_initial_def)
  ultimately show ?thesis by (metis select_convs_start)
qed

lemma wr_initial_abs: "wr_initial s \<Longrightarrow> wr_abs s = id_init"
  using wr_initial_log by (simp add: wr_abs_def id_init_def)

lemma wr_initial_inv: "wr_initial s \<Longrightarrow> wr_inv s"
  using wr_initial_log id_inv_init
  by (simp add: wr_inv_def wr_initial_abs bytes_inv_def writer_ok_def offsetlog_init_def)

interpretation wr: step_refinement wr_initial "wr_step L" id_init id_step wr_abs wr_inv for L
  by unfold_locales (use wr_initial_abs wr_initial_inv wr_step_refines in blast)+

lemma id_reach_rtranclp: "id_step\<^sup>*\<^sup>* s s' \<Longrightarrow> id_reach s s'"
  by (induction rule: rtranclp_induct) (auto intro: id_reach.intros)

text \<open>What the invariant says of a published identifier.\<close>

lemma published_pkt:
  assumes inv: "wr_inv s" and i: "i < num_pkts (shared s)"
  shows "\<exists>now bytes. given s i = Some (now, bytes) \<and> pkt_at i (wr_log s) = Some (now, bytes)"
proof -
  have r: "i < current_read_id (olog_of (wr_log s))" using i by (simp add: num_pkts_def num_records_def num_ids_def)
  have "written s i" using bytes_invD(5) r inv by (simp add: wr_inv_def)
  then obtain off now bytes where w: "placed s i = Some (off, length bytes)" "given s i = Some (now, bytes)" "now < 2 ^ 64"
    "length bytes < 2 ^ 16" "off + (length bytes + 8) \<le> dtail (wr_log s)"
    "lin_read datalog_nb datalog_bs off (length bytes + 8) (dlog (wr_log s)) = Some (map Some (le_bytes 8 now @ bytes))"
    unfolding written_def by blast
  have off: "take_bit 48 off = off" "take_bit 16 (length bytes) = length bytes"
    using w(4,5) bytes_invD(1) [of s] inv by (auto simp: wr_inv_def intro!: take_bit_id)
  have "id_holds i (off, length bytes) (olog_of (wr_log s))"
    using id_invD(6) [of "wr_abs s" i] inv r w(1) by (auto simp: wr_inv_def wr_abs_def)
  then have "offset_lookup i (olog_of (wr_log s)) = Some (off, length bytes)"
    using off by (simp add: id_holds_def offset_lookup_def unpack_pack)
  moreover have "le_value (le_bytes 8 now) = now" using le_value_bytes [of 8 now] w(3) by simp
  ultimately show ?thesis using w(2,6) by (simp add: pkt_at_def del: map_append)
qed

text \<open>What has been handed out stays handed out, and the read counter does not go back.\<close>

lemma wr_step_given:
  assumes "wr_step L s s'" "wr_inv s" "i < current_write_id (olog_of (wr_log s))"
  shows "given s' i = given s i"
  using assms
proof (induction rule: wr_step.induct)
  case (ids s t now pkts l start)
  have "start = current_write_id (olog_of (wr_log s))"
    using request_spec(1) [OF ids(3)] ids(2,4) id_invD(2) [of "wr_abs s"]
    by (simp add: burst_can_start_def wr_inv_def wr_abs_def)
  then show ?case using ids(5) by (simp add: given_give)
qed simp_all

lemma wr_step_published:
  assumes "wr_step L s s'" "wr_inv s"
  shows "num_pkts (shared s) \<le> num_pkts (shared s')"
proof -
  have "id_inv (wr_abs s)" using assms(2) by (simp add: wr_inv_def)
  then have "num_ids (olog (wr_abs s)) \<le> num_ids (olog (wr_abs s'))"
    using wr_step_refines [OF assms] num_ids_mono_step [of "wr_abs s" "wr_abs s'"] by auto
  then show ?thesis by (simp add: wr_abs_def num_pkts_def num_records_def)
qed

lemma published_stable:
  assumes "wr_reach L s s'" "wr_inv s" "i < num_pkts (shared s)"
  shows "i < num_pkts (shared s') \<and> given s' i = given s i"
  using assms(1)
proof (induction rule: rtranclp_induct)
  case (step s1 s2)
  have inv: "wr_inv s1" using wr.run_invar [OF step(1) assms(2)] .
  have "i < current_write_id (olog_of (wr_log s1))"
    using id_invD(1) [of "wr_abs s1"] inv step(3) by (simp add: wr_inv_def wr_abs_def num_pkts_def num_records_def num_ids_def)
  then show ?case
    using wr_step_given [OF step(2) inv] wr_step_published [OF step(2) inv] step(3) by simp
qed (simp add: assms(3))


section \<open>One writer alone\<close>

text \<open>A step that begins no burst.\<close>

definition wr_on :: "hdr_layout \<Rightarrow> writers \<Rightarrow> writers \<Rightarrow> bool" where
  "wr_on L s s' \<longleftrightarrow> wr_step L s s' \<and> (\<forall>t. prog s t = W_idle \<longrightarrow> prog s' t = W_idle)"

lemma wr_onI: "wr_step L s s' \<Longrightarrow> prog s t \<noteq> W_idle \<Longrightarrow> prog s' = (prog s)(t := p) \<Longrightarrow> wr_on L s s'"
  by (auto simp: wr_on_def)

lemma wr_on_reach: "(wr_on L)\<^sup>*\<^sup>* s s' \<Longrightarrow> wr_reach L s s'"
  by (rule predicate2D [OF rtranclp_mono]) (auto simp: wr_on_def)

lemma packet_alone:
  assumes p: "prog s t = W_loop At_index start off nc now k pkts" and k: "k < length pkts"
    and run: "insert_pkt L now nc (pkts ! k) (start + k) off (shared s) = Some (S, off')"
  shows "\<exists>pl. (wr_on L)\<^sup>*\<^sup>* s \<lparr>shared = S, prog = (prog s)(t := W_loop At_index start off' nc now (Suc k) pkts),
    given = given s, placed = pl\<rparr>"
proof -
  let ?m = "pkts ! k" and ?n = "take_bit 16 (pkt_len (pkts ! k))"
  obtain S0 ol b n where r: "index_pkt L (mtod ?m) (start + k) (shared s) = Some S0"
    "set_without_alloc (start + k) off ?n (olog_of (base S0)) = Some ol"
    "append_pkt off now (mtod ?m) ?n ((base S0)\<lparr>olog_of := ol\<rparr>) = Some (b, n)"
    "record_chars L now (mtod ?m) (start + k) [0..<nc] (S0\<lparr>base := b\<rparr>) = Some S" "off' = take_bit 64 (off + n)"
    using run by (auto simp: insert_pkt_def Let_def bind_Some_iff)
  define s1 where "s1 = with_prog t (W_loop At_offset start off nc now k pkts) (with_store S0 s)"
  define s2 where "s2 = with_prog t (W_loop At_append start off nc now k pkts)
    (place (start + k) off ?n (with_log ((wr_log s1)\<lparr>olog_of := ol\<rparr>) s1))"
  define s3 where "s3 = with_prog t (W_loop At_chars start off' nc now k pkts) (with_log b s2)"
  define s4 where "s4 = with_prog t (W_loop At_index start off' nc now (Suc k) pkts) (with_store S s3)"
  have "wr_step L s s1" unfolding s1_def using p k r(1) by (rule wr_step.index)
  then have "wr_on L s s1" by (rule wr_onI [of _ _ _ t]) (simp_all add: p s1_def)
  moreover have "wr_step L s1 s2" unfolding s2_def by (rule wr_step.offset) (simp_all add: s1_def r(2))
  then have "wr_on L s1 s2" by (rule wr_onI [of _ _ _ t]) (simp_all add: s1_def s2_def)
  moreover have "wr_step L s2 s3" unfolding s3_def r(5) by (rule wr_step.append) (simp_all add: s2_def s1_def r(3))
  then have "wr_on L s2 s3" by (rule wr_onI [of _ _ _ t]) (simp_all add: s2_def s3_def)
  moreover have "wr_step L s3 s4" unfolding s4_def by (rule wr_step.charts) (simp_all add: s3_def s2_def s1_def r(4))
  then have "wr_on L s3 s4" by (rule wr_onI [of _ _ _ t]) (simp_all add: s3_def s4_def)
  ultimately have "(wr_on L)\<^sup>*\<^sup>* s s4" by (meson converse_rtranclp_into_rtranclp rtranclp.rtrancl_refl)
  moreover have "s4 = \<lparr>shared = S, prog = (prog s)(t := W_loop At_index start off' nc now (Suc k) pkts),
      given = given s, placed = placed s4\<rparr>"
    by (simp add: s4_def s3_def s2_def s1_def)
  ultimately show ?thesis by metis
qed

lemma loop_alone:
  assumes "prog s t = W_loop At_index start off nc now k pkts" "k \<le> length pkts" "start + length pkts < 2 ^ 64"
    and "insert_pkts L now nc (drop k pkts) (start + k) off (shared s) = Some S"
  shows "\<exists>off' pl. (wr_on L)\<^sup>*\<^sup>* s \<lparr>shared = S, prog = (prog s)(t := W_loop At_index start off' nc now (length pkts) pkts),
    given = given s, placed = pl\<rparr>"
  using assms(1,2,4)
proof (induction "length pkts - k" arbitrary: s k off)
  case 0
  then have "\<lparr>shared = S, prog = (prog s)(t := W_loop At_index start off nc now (length pkts) pkts),
    given = given s, placed = placed s\<rparr> = s" by (simp add: fun_upd_idem)
  then show ?case by (metis rtranclp.rtrancl_refl)
next
  case (Suc x)
  have k: "k < length pkts" using Suc.hyps(2) by simp
  have wrap: "take_bit 64 (start + k + 1) = start + Suc k" using assms(3) k take_bit_64_id [of "start + k + 1"] by simp
  obtain S1 off1 where r: "insert_pkt L now nc (pkts ! k) (start + k) off (shared s) = Some (S1, off1)"
    "insert_pkts L now nc (drop (Suc k) pkts) (start + Suc k) off1 S1 = Some S"
    using Suc.prems(3) wrap by (auto simp: bind_Some_iff simp flip: Cons_nth_drop_Suc [OF k])
  obtain pl where one: "(wr_on L)\<^sup>*\<^sup>* s \<lparr>shared = S1, prog = (prog s)(t := W_loop At_index start off1 nc now (Suc k) pkts),
      given = given s, placed = pl\<rparr>" (is "(wr_on L)\<^sup>*\<^sup>* s ?s1")
    using packet_alone [OF Suc.prems(1) k r(1)] by blast
  have "\<exists>off' pl. (wr_on L)\<^sup>*\<^sup>* ?s1 \<lparr>shared = S, prog = (prog ?s1)(t := W_loop At_index start off' nc now (length pkts) pkts),
      given = given ?s1, placed = pl\<rparr>"
    using Suc.hyps(2) k r(2) by (intro Suc.hyps(1)) (auto simp: Suc_le_eq)
  then obtain off' pl' where "(wr_on L)\<^sup>*\<^sup>* ?s1 \<lparr>shared = S, prog = (prog ?s1)(t := W_loop At_index start off' nc now (length pkts) pkts),
      given = given ?s1, placed = pl'\<rparr>" by blast
  then show ?case using rtranclp_trans [OF one] by fastforce
qed

lemma burst_alone_on:
  assumes inv: "wr_inv s" and p: "prog s t = W_idle" and can: "burst_can_start now pkts"
    and run: "insert_pktburst L now pkts (shared s) = Some S"
  shows "\<exists>start s1 pl. wr_step L s s1 \<and> prog s1 t = W_ids start now pkts
    \<and> (wr_on L)\<^sup>*\<^sup>* s1 \<lparr>shared = S, prog = prog s, given = given (give start now pkts s), placed = pl\<rparr>
    \<and> start = current_write_id (olog_of (wr_log s))"
proof -
  obtain ol start b1 off cix ci b2 S1 ol' where r: "request_id_block (length pkts) (olog_of (wr_log s)) = Some (ol, start)"
    "request_bytes (burst_bytes pkts) ((wr_log s)\<lparr>olog_of := ol\<rparr>) = Some (b1, off)"
    "time_get now (char_idx (shared s)) = Some (cix, ci)"
    "ptr_add_range (timestamp_ptr (shared s)) now start (take_bit 64 (start + length pkts + (2 ^ 64 - 1))) b1 = Some b2"
    "insert_pkts L now (num_filters (shared s)) pkts start off ((shared s)\<lparr>base := b2, char_idx := cix\<rparr>) = Some S1"
    "end_block start (length pkts) (olog_of (base S1)) = Some ol'" "S = S1\<lparr>base := (base S1)\<lparr>olog_of := ol'\<rparr>\<rparr>"
    using run by (auto simp: insert_pktburst_def bind_Some_iff)
  have room: "id_room (current_write_id (olog_of (wr_log s)))" "length pkts < 2 ^ 16"
    using inv can id_invD(2) [of "wr_abs s"] by (simp_all add: wr_inv_def wr_abs_def burst_can_start_def)
  have start: "start = current_write_id (olog_of (wr_log s))" "start + length pkts < 2 ^ 64"
    using request_spec(1,4) [OF r(1) room] by (simp_all add: id_room_bound)
  define s1 where "s1 = with_prog t (W_ids start now pkts) (give start now pkts (with_log ((wr_log s)\<lparr>olog_of := ol\<rparr>) s))"
  define s2 where "s2 = with_prog t (W_bytes start off now pkts) (with_log b1 s1)"
  define s3 where "s3 = with_prog t (W_stamp start off (num_filters (shared s2)) now pkts)
    (with_store ((shared s2)\<lparr>char_idx := cix\<rparr>) s2)"
  define s4 where "s4 = with_prog t (W_loop At_index start off (num_filters (shared s)) now 0 pkts) (with_log b2 s3)"
  have first: "wr_step L s s1" unfolding s1_def using p can r(1) by (rule wr_step.ids)
  have "wr_step L s1 s2" unfolding s2_def by (rule wr_step.bytes) (simp_all add: s1_def r(2))
  then have "wr_on L s1 s2" by (rule wr_onI [of _ _ _ t]) (simp_all add: s1_def s2_def)
  moreover have "wr_step L s2 s3" unfolding s3_def by (rule wr_step.chars) (simp_all add: s2_def s1_def r(3))
  then have "wr_on L s2 s3" by (rule wr_onI [of _ _ _ t]) (simp_all add: s2_def s3_def)
  moreover have "wr_step L s3 s4" unfolding s4_def by (rule wr_step.stamp) (use r(4) in \<open>simp_all add: s3_def s2_def s1_def\<close>)
  then have "wr_on L s3 s4" by (rule wr_onI [of _ _ _ t]) (simp_all add: s3_def s4_def)
  ultimately have four: "(wr_on L)\<^sup>*\<^sup>* s1 s4" by (meson converse_rtranclp_into_rtranclp rtranclp.rtrancl_refl)
  have sh: "shared s4 = (shared s)\<lparr>base := b2, char_idx := cix\<rparr>" by (simp add: s4_def s3_def s2_def s1_def)
  obtain off' pl where loop: "(wr_on L)\<^sup>*\<^sup>* s4 \<lparr>shared = S1, prog = (prog s4)(t := W_loop At_index start off' (num_filters (shared s)) now (length pkts) pkts),
      given = given s4, placed = pl\<rparr>" (is "(wr_on L)\<^sup>*\<^sup>* s4 ?s5")
    using loop_alone [of s4 t start off "num_filters (shared s)" now 0 pkts L S1] r(5) start(2) sh by (auto simp: s4_def)
  have fin: "end_try start (length pkts) (olog_of (base S1)) = (ol', True)"
    using r(6) by (simp add: end_block_eq end_try_def split: if_splits)
  have "wr_step L ?s5 (with_prog t W_idle (with_log ((wr_log ?s5)\<lparr>olog_of := ol'\<rparr>) ?s5))"
    by (rule wr_step.finish [where start = start and off = off' and nc = "num_filters (shared s)" and now = now and pkts = pkts])
      (simp_all add: fin)
  then have "wr_on L ?s5 (with_prog t W_idle (with_log ((wr_log ?s5)\<lparr>olog_of := ol'\<rparr>) ?s5))" by (rule wr_onI [of _ _ _ t]) simp_all
  then have "(wr_on L)\<^sup>*\<^sup>* s1 (with_prog t W_idle (with_log ((wr_log ?s5)\<lparr>olog_of := ol'\<rparr>) ?s5))"
    using four loop by (meson rtranclp.rtrancl_into_rtrancl rtranclp_trans)
  moreover have "with_prog t W_idle (with_log ((wr_log ?s5)\<lparr>olog_of := ol'\<rparr>) ?s5)
      = \<lparr>shared = S, prog = prog s, given = given (give start now pkts s), placed = pl\<rparr>"
    using p r(7) by (simp add: with_prog_def with_log_def s4_def s3_def s2_def s1_def with_store_def give_def fun_upd_idem cong: if_cong)
  moreover have "prog s1 t = W_ids start now pkts" by (simp add: s1_def)
  ultimately show ?thesis using start(1) first by metis
qed

lemma burst_alone:
  assumes "wr_inv s" "prog s t = W_idle" "burst_can_start now pkts" "insert_pktburst L now pkts (shared s) = Some S"
  shows "\<exists>start pl. wr_reach L s \<lparr>shared = S, prog = prog s, given = given (give start now pkts s), placed = pl\<rparr>
    \<and> start = current_write_id (olog_of (wr_log s))"
  using burst_alone_on [OF assms] by (meson converse_rtranclp_into_rtranclp wr_on_reach)

section \<open>Properties\<close>

text \<open>A run in which one writer inserts one packet.\<close>

lemma one_packet_run:
  "\<exists>S s. packet_store_init = Some S \<and> wr_reach wire_layout (wr_start S) s \<and> num_pkts (shared s) = 1
    \<and> given s 0 = Some (1500000000, tcp_bytes) \<and> num_filters (shared s) = 0"
proof -
  obtain S where S: "packet_store_init = Some S" "pstore_ok S" "num_pkts S = 0" "burst_room wire_layout 1500000000 [tcp_pkt] S"
    "num_filters S = 0"
    using new_store_room by (elim exE conjE) (rule that)
  obtain b ix where run: "insert_pktburst wire_layout 1500000000 [tcp_pkt] S = Some (S\<lparr>base := b, char_idx := ix\<rparr>)"
    "store_pkts (S\<lparr>base := b, char_idx := ix\<rparr>) = store_pkts S @ map (\<lambda>m. (1500000000, pkt_bytes m)) [tcp_pkt]"
    using insert_pktburst_spec [OF S(2,4)] by blast
  have "length (store_pkts (S\<lparr>base := b, char_idx := ix\<rparr>)) = length (store_pkts S) + 1" using run(2) by simp
  then have n: "num_pkts (S\<lparr>base := b, char_idx := ix\<rparr>) = 1" using S(3) by (simp add: store_pkts_def)
  have inv: "wr_inv (wr_start S)" using wr_initial_inv [OF wr_initial_start [OF S(1)]] .
  have can: "burst_can_start 1500000000 [tcp_pkt]" by (simp add: burst_can_start_def tcp_pkt_def)
  have new: "current_write_id (olog_of (wr_log (wr_start S))) = 0"
    using new_packet_store [OF S(1)] by (simp add: wr_start_def offsetlog_init_def)
  obtain pl where "wr_reach wire_layout (wr_start S) \<lparr>shared = S\<lparr>base := b, char_idx := ix\<rparr>, prog = prog (wr_start S),
      given = given (give 0 1500000000 [tcp_pkt] (wr_start S)), placed = pl\<rparr>"
    using burst_alone [OF inv _ can, of 0 wire_layout] run(1) new by (auto simp: wr_start_def)
  then show ?thesis
    using S(1,5) n tcp_pkt_bytes by (intro exI conjI) (assumption | simp add: given_give)+
qed

text \<open>
  Whatever the writers do and however their steps interleave, a packet that is published is the packet
  that was inserted: every identifier below \<^verbatim>\<open>num_pkts\<close> was handed out for a packet of some burst, and
  reading its record gives the second of that burst and exactly the bytes of that packet.
\<close>

theorem concurrent_packets_intact:
  assumes "packet_store_init = Some S" "wr_reach L (wr_start S) s" "i < num_pkts (shared s)"
  shows "\<exists>now bytes. given s i = Some (now, bytes) \<and> pkt_at i (base (shared s)) = Some (now, bytes)"
  using published_pkt [OF wr.reach_invar [OF wr_initial_start [OF assms(1)] assms(2)] assms(3)] .

theorem concurrent_packets_intact_witness:
  "\<exists>S s. packet_store_init = Some S \<and> wr_reach wire_layout (wr_start S) s
     \<and> pkt_at 0 (base (shared s)) = Some (1500000000, tcp_bytes)"
proof -
  obtain S s where s: "packet_store_init = Some S" "wr_reach wire_layout (wr_start S) s" "num_pkts (shared s) = 1"
    "given s 0 = Some (1500000000, tcp_bytes)" using one_packet_run by blast
  then show ?thesis using concurrent_packets_intact [OF s(1,2), of 0] by (intro exI [of _ S] exI [of _ s]) simp
qed

text \<open>
  C11. Published packets never change and never disappear: in every continuation of a run of the writers
  the number of packets is at least what it was and every packet below it reads as before.
\<close>

theorem published_packets_stable:
  assumes "packet_store_init = Some S" "wr_reach L (wr_start S) s" "wr_reach L s s'" "i < num_pkts (shared s)"
  shows "i < num_pkts (shared s') \<and> pkt_at i (base (shared s')) = pkt_at i (base (shared s))"
proof -
  have inv: "wr_inv s" using wr.reach_invar [OF wr_initial_start [OF assms(1)] assms(2)] .
  have st: "i < num_pkts (shared s') \<and> given s' i = given s i" using published_stable [OF assms(3) inv assms(4)] .
  then show ?thesis
    using published_pkt [OF inv assms(4)] published_pkt [OF wr.run_invar [OF assms(3) inv]] st by fastforce
qed

theorem published_packets_stable_witness:
  "\<exists>S s s'. packet_store_init = Some S \<and> wr_reach wire_layout (wr_start S) s \<and> wr_step wire_layout s s'
     \<and> num_filters (shared s') = 1 \<and> 0 < num_pkts (shared s') \<and> pkt_at 0 (base (shared s')) = pkt_at 0 (base (shared s))"
proof -
  obtain S s where s: "packet_store_init = Some S" "wr_reach wire_layout (wr_start S) s" "num_pkts (shared s) = 1"
    "num_filters (shared s) = 0" using one_packet_run by blast
  let ?S = "(shared s)\<lparr>num_filters := 1, filters := (filters (shared s))(0 := [from_80])\<rparr>"
  have "add_complex_character [from_80] (shared s) = Some (?S, 0)"
    using s(4) by (simp add: add_complex_character_def MAX_FILTERS_def take_bit_eq_mod)
  then have st: "wr_step wire_layout s (with_store ?S s)" by (rule wr_step.character)
  then have "wr_reach wire_layout s (with_store ?S s)" by blast
  then show ?thesis
    using published_packets_stable [OF s(1,2), of "with_store ?S s" 0] s st
    by (intro exI [of _ S] exI [of _ s] exI [of _ "with_store ?S s"]) simp
qed

text \<open>
  The writers refine the identifier protocol of the offset log: every run of them, seen at the offset log, is
  a run of the protocol, so what holds of its reachable states holds of the packet store.
\<close>

theorem writers_refine_ids:
  assumes "packet_store_init = Some S" "wr_reach L (wr_start S) s"
  shows "id_reach id_init (wr_abs s)"
  using id_reach_rtranclp wr.reach_abs [OF wr_initial_start [OF assms(1)] assms(2)] by blast

theorem writers_refine_ids_witness:
  "\<exists>S s. packet_store_init = Some S \<and> wr_reach wire_layout (wr_start S) s \<and> id_reach id_init (wr_abs s)
     \<and> num_ids (olog (wr_abs s)) = 1"
proof -
  obtain S s where s: "packet_store_init = Some S" "wr_reach wire_layout (wr_start S) s" "num_pkts (shared s) = 1"
    using one_packet_run by blast
  then show ?thesis using writers_refine_ids [OF s(1,2)] by (auto simp: wr_abs_def num_pkts_def num_records_def)
qed



end
