(* ===== verification/Concurrent_Log.thy ===== *)
theory Concurrent_Log
  imports Concurrent_Writers
begin

section \<open>The order of concurrent bursts\<close>

text \<open>
  The abstract store is a list of packets to which whole bursts are appended. A run of the writers is labelled with
  the bursts that are begun in it, in the order in which identifiers are handed out to them. What can be read is then a prefix of the
  packets of these bursts, and all of them when no writer is inside a burst: the bursts take
  effect in the order of their identifiers, whatever the interleaving.
\<close>

inductive wr_run :: "hdr_layout \<Rightarrow> writers \<Rightarrow> (nat \<times> mbuf list) list \<Rightarrow> writers \<Rightarrow> bool"
  for L :: hdr_layout and s :: writers where
  run_start: "wr_run L s [] s"
| run_begin: "wr_run L s bs s1 \<Longrightarrow> wr_step L s1 s2 \<Longrightarrow> prog s1 t = W_idle \<Longrightarrow> prog s2 t = W_ids start now pkts \<Longrightarrow>
     wr_run L s (bs @ [(now, pkts)]) s2"
| run_on: "wr_run L s bs s1 \<Longrightarrow> wr_step L s1 s2 \<Longrightarrow> \<forall>t. prog s1 t = W_idle \<longrightarrow> prog s2 t = W_idle \<Longrightarrow> wr_run L s bs s2"

definition burst_log :: "(nat \<times> mbuf list) list \<Rightarrow> (nat \<times> u8 list) list" where
  "burst_log bs = concat (map (\<lambda>(now, pkts). map (\<lambda>m. (now, pkt_bytes m)) pkts) bs)"

lemma burst_log_snoc: "burst_log (bs @ [(now, pkts)]) = burst_log bs @ map (\<lambda>m. (now, pkt_bytes m)) pkts"
  by (simp add: burst_log_def)

subsection \<open>Steps that begin a burst and steps that do not\<close>

lemma request_id_block_ids:
  assumes "request_id_block n l = Some (l', start)" "id_room (current_write_id l)" "n < 2 ^ 16"
  shows "start = current_write_id l \<and> current_write_id l' = start + n"
  using request_spec(1,2) [OF assms] by simp

lemma wr_step_begin:
  assumes "wr_step L s s'" "prog s t = W_idle" "prog s' t = W_ids start now pkts" "wr_inv s"
  shows "start = current_write_id (olog_of (wr_log s)) \<and> current_write_id (olog_of (wr_log s')) = start + length pkts
    \<and> given s' = given (give start now pkts s)"
  using assms
proof (induction rule: wr_step.induct)
  case (ids s u now' pkts' l start')
  then have same: "start' = start" "now' = now" "pkts' = pkts" by (auto split: if_splits)
  have "id_room (current_write_id (olog_of (wr_log s)))" "length pkts < 2 ^ 16"
    using ids(2,6) same id_invD(2) [of "wr_abs s"] by (simp_all add: wr_inv_def wr_abs_def burst_can_start_def)
  then show ?case using request_id_block_ids [OF ids(3)] same by (auto simp: given_give fun_eq_iff)
qed (auto split: if_splits)

lemma wr_step_on:
  assumes "wr_step L s s'" "\<forall>t. prog s t = W_idle \<longrightarrow> prog s' t = W_idle" "wr_inv s"
  shows "current_write_id (olog_of (wr_log s')) = current_write_id (olog_of (wr_log s)) \<and> given s' = given s"
  using assms
proof (induction rule: wr_step.induct)
  case (ids s t now pkts l start)
  then show ?case by (auto split: if_splits)
next
  case (bytes s t start now pkts b off)
  then show ?case by (auto simp: request_bytes_def Let_def bind_Some_iff)
next
  case (stamp s t start off nc now pkts b)
  then show ?case using ptr_add_range_log by (fastforce simp: same_log_def)
next
  case (index s t start off nc now k pkts S)
  then show ?case using index_pkt_log by (fastforce simp: same_log_def)
next
  case (append s t start off nc now k pkts b n)
  then show ?case by (auto simp: append_pkt_def bind_Some_iff)
next
  case (charts s t start off nc now k pkts S)
  then show ?case using record_chars_log by fastforce
next
  case (character fl s S c)
  then show ?case using add_character_log by fastforce
qed (auto simp: set_without_alloc_def bind_Some_iff end_try_def split: if_splits)

lemma wr_step_cases:
  assumes "wr_step L s s'"
  shows "(\<exists>t start now pkts. prog s t = W_idle \<and> prog s' t = W_ids start now pkts) \<or> (\<forall>t. prog s t = W_idle \<longrightarrow> prog s' t = W_idle)"
  using assms by (induction rule: wr_step.induct) auto

lemma wr_run_reach: "wr_run L s bs s' \<Longrightarrow> wr_reach L s s'"
  by (induction rule: wr_run.induct) (auto intro: rtranclp.rtrancl_into_rtrancl)

lemma wr_reach_run: "wr_reach L s s' \<Longrightarrow> \<exists>bs. wr_run L s bs s'"
proof (induction rule: rtranclp_induct)
  case (step s1 s2)
  then show ?case using wr_step_cases [OF step(2)] by (blast intro: wr_run.intros)
qed (blast intro: wr_run.intros)

subsection \<open>What has been handed out is the log of the bursts\<close>

definition log_given :: "(nat \<times> mbuf list) list \<Rightarrow> writers \<Rightarrow> bool" where
  "log_given bs s \<longleftrightarrow> current_write_id (olog_of (wr_log s)) = length (burst_log bs)
     \<and> (\<forall>i < length (burst_log bs). given s i = Some (burst_log bs ! i))"

lemma log_given_run:
  assumes "wr_initial s0" "wr_run L s0 bs s"
  shows "log_given bs s"
  using assms(2)
proof (induction rule: wr_run.induct)
  case run_start
  then show ?case using wr_initial_log [OF assms(1)] by (simp add: log_given_def burst_log_def offsetlog_init_def)
next
  case (run_begin bs s1 s2 t start now pkts)
  have inv: "wr_inv s1" using wr.reach_invar [OF assms(1) wr_run_reach [OF run_begin(1)]] .
  note new = wr_step_begin [OF run_begin(2-4) inv]
  have start: "start = length (burst_log bs)" using new run_begin(5) by (simp add: log_given_def)
  have "given s2 i = Some (burst_log (bs @ [(now, pkts)]) ! i)" if "i < length (burst_log (bs @ [(now, pkts)]))" for i
    using that new run_begin(5) start by (auto simp: log_given_def given_give burst_log_snoc nth_append)
  then show ?case using new start by (simp add: log_given_def burst_log_snoc)
next
  case (run_on bs s1 s2)
  have "wr_inv s1" using wr.reach_invar [OF assms(1) wr_run_reach [OF run_on(1)]] .
  then show ?case using wr_step_on [OF run_on(2,3)] run_on(4) by (simp add: log_given_def)
qed

lemma idle_published:
  assumes "wr_inv s" "\<forall>t. prog s t = W_idle"
  shows "num_pkts (shared s) = current_write_id (olog_of (wr_log s))"
proof -
  have id: "id_inv (wr_abs s)" using assms(1) by (simp add: wr_inv_def)
  have "burst_ids (bursts (wr_abs s) t) = {}" for t using assms(2) by (simp add: wr_abs_def burst_ids_def)
  then have "\<not> current_read_id (olog (wr_abs s)) < current_write_id (olog (wr_abs s))" using id_invD(5) [OF id] by blast
  then show ?thesis using id_invD(1) [OF id] by (simp add: wr_abs_def num_pkts_def num_records_def num_ids_def)
qed

lemma run_prefix:
  assumes "wr_initial s0" "wr_run L s0 bs s"
  shows "num_pkts (shared s) \<le> length (burst_log bs)"
    "map (\<lambda>i. pkt_at i (wr_log s)) [0..<num_pkts (shared s)] = map Some (take (num_pkts (shared s)) (burst_log bs))"
proof -
  have inv: "wr_inv s" using wr.reach_invar [OF assms(1) wr_run_reach [OF assms(2)]] .
  have g: "log_given bs s" using log_given_run [OF assms] .
  have "current_read_id (olog_of (wr_log s)) \<le> current_write_id (olog_of (wr_log s))"
    using id_invD(1) [of "wr_abs s"] inv by (simp add: wr_inv_def wr_abs_def)
  then show le: "num_pkts (shared s) \<le> length (burst_log bs)"
    using g by (simp add: log_given_def num_pkts_def num_records_def num_ids_def)
  have "pkt_at i (wr_log s) = Some (burst_log bs ! i)" if "i < num_pkts (shared s)" for i
    using published_pkt [OF inv that] g le that by (auto simp: log_given_def)
  then show "map (\<lambda>i. pkt_at i (wr_log s)) [0..<num_pkts (shared s)] = map Some (take (num_pkts (shared s)) (burst_log bs))"
    using le by (intro nth_equalityI) simp_all
qed

text \<open>
  C3. Concurrent bursts take effect one after the other. Whatever the writers do and however their steps interleave, the
  packets that can be read are a prefix of the packets of the bursts begun so far, each with the second of its burst,
  in the order in which identifiers were handed out; when no writer is inside a
  burst, they are all of them.
\<close>

theorem concurrent_bursts_linearize:
  assumes "packet_store_init = Some S" "wr_run L (wr_start S) bs s"
  shows "map (\<lambda>i. pkt_at i (base (shared s))) [0..<num_pkts (shared s)] = map Some (take (num_pkts (shared s)) (burst_log bs))
    \<and> num_pkts (shared s) \<le> length (burst_log bs)
    \<and> ((\<forall>t. prog s t = W_idle) \<longrightarrow> num_pkts (shared s) = length (burst_log bs))"
proof -
  note init = wr_initial_start [OF assms(1)]
  have "wr_inv s" using wr.reach_invar [OF init wr_run_reach [OF assms(2)]] .
  then show ?thesis
    using run_prefix [OF init assms(2)] idle_published log_given_run [OF init assms(2)] by (simp add: log_given_def)
qed

theorem concurrent_bursts_linearize_witness:
  "\<exists>S bs s. packet_store_init = Some S \<and> wr_run wire_layout (wr_start S) bs s \<and> num_pkts (shared s) = 1
     \<and> pkt_at 0 (base (shared s)) = Some (burst_log bs ! 0)"
proof -
  obtain S s where s: "packet_store_init = Some S" "wr_reach wire_layout (wr_start S) s" "num_pkts (shared s) = 1"
    using one_packet_run by blast
  obtain bs where bs: "wr_run wire_layout (wr_start S) bs s" using wr_reach_run [OF s(2)] by (rule exE)
  have le: "num_pkts (shared s) \<le> length (burst_log bs)" using concurrent_bursts_linearize [OF s(1) bs] by simp
  have "[pkt_at 0 (base (shared s))] = map Some (take 1 (burst_log bs))"
    using concurrent_bursts_linearize [OF s(1) bs] s(3) by simp
  then have "pkt_at 0 (base (shared s)) = Some (burst_log bs ! 0)" using le s(3) by (cases "burst_log bs") simp_all
  then show ?thesis using s bs by blast
qed

end
