(* ===== verification/Concurrent_Index.thy ===== *)
theory Concurrent_Index
  imports Concurrent_Log
begin

section \<open>The indexes under concurrent bursts\<close>

text \<open>
  Writers that insert bursts at the same time enter their packets into the same five indexes. An identifier that was
  handed out is pending for an index until its writer has entered it there: the timestamp index takes the whole burst in
  one step, the others packet by packet. In every state of a run, the lists of the indexes hold each identifier at most
  once, and hold exactly those that were handed out, are not pending, and whose packet has the key.
\<close>

definition burst_pkts :: "(nat \<times> mbuf list) list \<Rightarrow> (nat \<times> mbuf) list" where
  "burst_pkts bs = concat (map (\<lambda>(now, pkts). map (Pair now) pkts) bs)"

definition has_key :: "hdr_layout \<Rightarrow> packet_store \<Rightarrow> nat \<Rightarrow> nat \<Rightarrow> nat \<times> mbuf \<Rightarrow> bool" where
  "has_key L S iid k x \<longleftrightarrow> iid = timestamp_idx_id S \<and> fst x = k \<or> pkt_has S iid k (fields_of L (snd x))"

text \<open>Bursts that are not empty, received in the range of 32-bit seconds, of packets whose fields can be read.\<close>

definition readable_burst :: "hdr_layout \<Rightarrow> nat \<times> mbuf list \<Rightarrow> bool" where
  "readable_burst L b \<longleftrightarrow> snd b \<noteq> [] \<and> fst b < 2 ^ 32 \<and> (\<forall>m \<in> set (snd b). pkt_ok L m)"

lemma burst_pkts_snoc: "burst_pkts (bs @ [(now, pkts)]) = burst_pkts bs @ map (Pair now) pkts"
  by (simp add: burst_pkts_def)

lemma length_burst_pkts: "length (burst_pkts bs) = length (burst_log bs)"
  by (induction bs) (auto simp: burst_pkts_def burst_log_def)

subsection \<open>Pending identifiers\<close>

fun w_stamped :: "wprog \<Rightarrow> bool" where
  "w_stamped (W_loop ph start off nc now k pkts) = True"
| "w_stamped _ = False"

fun w_indexed :: "wprog \<Rightarrow> nat" where
  "w_indexed (W_loop At_index start off nc now k pkts) = k"
| "w_indexed (W_loop ph start off nc now k pkts) = Suc k"
| "w_indexed _ = 0"

definition w_pending :: "bool \<Rightarrow> wprog \<Rightarrow> nat set" where
  "w_pending stamp p = (case w_burst p of None \<Rightarrow> {}
   | Some (start, now, pkts) \<Rightarrow>
       (if stamp then if w_stamped p then {} else {start..<start + length pkts} else {start + w_indexed p..<start + length pkts}))"

definition pending :: "writers \<Rightarrow> nat \<Rightarrow> nat set" where
  "pending s iid = (\<Union>t. w_pending (iid = timestamp_idx_id (shared s)) (prog s t))"

lemma w_pending_ids: "w_pending stamp p \<subseteq> burst_ids (abs_prog p)"
  by (auto simp: w_pending_def abs_burst_ids split: option.splits if_splits)

lemma w_pending_apart:
  assumes "id_inv (wr_abs s)" "t \<noteq> u"
  shows "w_pending st (prog s t) \<inter> w_pending st' (prog s u) = {}"
  using id_invD(4) [OF assms] w_pending_ids [of st "prog s t"] w_pending_ids [of st' "prog s u"] by (auto simp: wr_abs_def)

lemma pending_update:
  assumes "id_inv (wr_abs s)" "prog s' = (prog s)(t := p)" "timestamp_idx_id (shared s') = timestamp_idx_id (shared s)"
    and "w_pending (iid = timestamp_idx_id (shared s)) p \<subseteq> w_pending (iid = timestamp_idx_id (shared s)) (prog s t)"
  shows "pending s' iid = pending s iid
    - (w_pending (iid = timestamp_idx_id (shared s)) (prog s t) - w_pending (iid = timestamp_idx_id (shared s)) p)"
proof -
  let ?w = "w_pending (iid = timestamp_idx_id (shared s))"
  have eq: "(\<lambda>u. ?w (prog s' u)) = (\<lambda>u. ?w (prog s u))(t := ?w p)" unfolding assms(2) by (simp add: fun_eq_iff)
  have "pending s' iid = (\<Union>u. ((\<lambda>u. ?w (prog s u))(t := ?w p)) u)" unfolding pending_def assms(3) eq ..
  also have "\<dots> = (\<Union>u. ?w (prog s u)) - (?w (prog s t) - ?w p)"
    by (rule UN_update [of "?w p" "\<lambda>u. ?w (prog s u)", OF assms(4) w_pending_apart [OF assms(1)]])
  finally show ?thesis by (simp add: pending_def)
qed

subsection \<open>The invariant\<close>

definition burst_of :: "hdr_layout \<Rightarrow> (nat \<times> mbuf list) list \<Rightarrow> wprog \<Rightarrow> bool" where
  "burst_of L bs p \<longleftrightarrow> (\<forall>start now pkts. w_burst p = Some (start, now, pkts) \<longrightarrow>
     readable_burst L (now, pkts) \<and> start + length pkts \<le> length (burst_pkts bs)
     \<and> (\<forall>j < length pkts. burst_pkts bs ! (start + j) = (now, pkts ! j)))"

definition exact_list :: "hdr_layout \<Rightarrow> (nat \<times> mbuf list) list \<Rightarrow> writers \<Rightarrow> nat \<Rightarrow> nat \<Rightarrow> bool" where
  "exact_list L bs s iid k \<longleftrightarrow> distinct (index_entries iid k (wr_log s))
     \<and> set (index_entries iid k (wr_log s))
         = {i. i < length (burst_pkts bs) \<and> has_key L (shared s) iid k (burst_pkts bs ! i)} - pending s iid"

definition index_inv :: "hdr_layout \<Rightarrow> (nat \<times> mbuf list) list \<Rightarrow> writers \<Rightarrow> bool" where
  "index_inv L bs s \<longleftrightarrow> ids_ok (shared s) \<and> indexes_ok (wr_log s) \<and> (\<forall>t. burst_of L bs (prog s t))
     \<and> (\<forall>iid k. index_ptr iid (wr_log s) \<noteq> Some None \<longrightarrow> key_fits iid k \<longrightarrow> exact_list L bs s iid k)"

lemma index_invD:
  assumes "index_inv L bs s"
  shows "ids_ok (shared s)" "indexes_ok (wr_log s)" "burst_of L bs (prog s t)"
    "index_ptr iid (wr_log s) \<noteq> Some None \<Longrightarrow> key_fits iid k \<Longrightarrow> exact_list L bs s iid k"
proof -
  have a: "ids_ok (shared s) \<and> indexes_ok (wr_log s) \<and> (\<forall>t. burst_of L bs (prog s t))
    \<and> (\<forall>iid k. index_ptr iid (wr_log s) \<noteq> Some None \<longrightarrow> key_fits iid k \<longrightarrow> exact_list L bs s iid k)"
    by (rule assms [unfolded index_inv_def])
  show "ids_ok (shared s)" by (rule a [THEN conjunct1])
  show "indexes_ok (wr_log s)" by (rule a [THEN conjunct2, THEN conjunct1])
  show "burst_of L bs (prog s t)" by (rule a [THEN conjunct2, THEN conjunct2, THEN conjunct1, rule_format])
  show "exact_list L bs s iid k" if "index_ptr iid (wr_log s) \<noteq> Some None" "key_fits iid k"
    by (rule a [THEN conjunct2, THEN conjunct2, THEN conjunct2, rule_format, OF that])
qed

lemma exact_list_short: "exact_list L bs s iid k \<Longrightarrow> length (index_entries iid k (wr_log s)) \<le> length (burst_pkts bs)"
proof -
  assume e: "exact_list L bs s iid k"
  then have sub: "set (index_entries iid k (wr_log s)) \<subseteq> {..<length (burst_pkts bs)}" by (simp add: exact_list_def) blast
  have "distinct (index_entries iid k (wr_log s))" using e by (simp add: exact_list_def)
  from distinct_card [OF this] show ?thesis using card_mono [OF _ sub] by simp
qed

text \<open>What a step does not touch of the indexes and their names.\<close>

definition same_names :: "packet_store \<Rightarrow> packet_store \<Rightarrow> bool" where
  "same_names S S' \<longleftrightarrow> srcip_idx_id S' = srcip_idx_id S \<and> dstip_idx_id S' = dstip_idx_id S \<and> srcport_idx_id S' = srcport_idx_id S
     \<and> dstport_idx_id S' = dstport_idx_id S \<and> timestamp_idx_id S' = timestamp_idx_id S \<and> srcip_ptr S' = srcip_ptr S
     \<and> dstip_ptr S' = dstip_ptr S \<and> srcport_ptr S' = srcport_ptr S \<and> dstport_ptr S' = dstport_ptr S
     \<and> timestamp_ptr S' = timestamp_ptr S \<and> idx_log (base S') = idx_log (base S)"

lemma same_names_ptr: "same_names S S' \<Longrightarrow> index_ptr iid (base S') = index_ptr iid (base S)"
  by (simp add: same_names_def index_ptr_def split: option.split)

lemma same_names_ok: "same_names S S' \<Longrightarrow> ids_ok S' = ids_ok S"
  using same_names_ptr [of S S'] unfolding ids_ok_def by (simp add: same_names_def)

lemma same_names_key: "same_names S S' \<Longrightarrow> has_key L S' iid k x = has_key L S iid k x"
  by (simp add: same_names_def has_key_def pkt_has_def split: option.split)

text \<open>
  The step of one writer: it enters the identifiers \<open>D iid\<close>, which were pending for the index \<open>iid\<close>, in the lists of their keys.
\<close>

lemma index_inv_step:
  assumes inv: "index_inv L bs s" and id: "id_inv (wr_abs s)"
    and names: "same_names (shared s) (shared s')" and ok: "indexes_ok (wr_log s')"
    and progs: "prog s' = (prog s)(t := p)" "burst_of L bs p"
    and pend: "\<And>st. w_pending st p \<subseteq> w_pending st (prog s t)"
    and ent: "\<And>iid k. index_ptr iid (wr_log s) \<noteq> Some None \<Longrightarrow> key_fits iid k \<Longrightarrow>
      index_entries iid k (wr_log s') = index_entries iid k (wr_log s) @ xs iid k \<and> distinct (xs iid k)
      \<and> set (xs iid k) = {i. i \<in> w_pending (iid = timestamp_idx_id (shared s)) (prog s t) - w_pending (iid = timestamp_idx_id (shared s)) p
           \<and> has_key L (shared s) iid k (burst_pkts bs ! i)}"
  shows "index_inv L bs s'"
  unfolding index_inv_def
proof (intro conjI allI impI)
  show "ids_ok (shared s')" using index_invD(1) [OF inv] same_names_ok [OF names] by simp
  show "burst_of L bs (prog s' u)" for u using progs index_invD(3) [OF inv] by simp
  fix iid k assume iid: "index_ptr iid (wr_log s') \<noteq> Some None" "key_fits iid k"
  let ?w = "w_pending (iid = timestamp_idx_id (shared s))"
  let ?K = "{i. i < length (burst_pkts bs) \<and> has_key L (shared s) iid k (burst_pkts bs ! i)}"
  have old: "index_ptr iid (wr_log s) \<noteq> Some None" using iid(1) same_names_ptr [OF names] by simp
  note e = ent [OF old iid(2)]
  have x: "distinct (index_entries iid k (wr_log s))" "set (index_entries iid k (wr_log s)) = ?K - pending s iid"
    using index_invD(4) [OF inv old iid(2)] by (simp_all add: exact_list_def)
  have ts: "timestamp_idx_id (shared s') = timestamp_idx_id (shared s)" using names by (simp add: same_names_def)
  have p': "pending s' iid = pending s iid - (?w (prog s t) - ?w p)" by (rule pending_update [OF id progs(1) ts pend])
  have mine: "?w (prog s t) \<subseteq> pending s iid" by (auto simp: pending_def)
  have "?w (prog s t) \<subseteq> {..<length (burst_pkts bs)}"
    using index_invD(3) [OF inv, of t] by (auto simp: burst_of_def w_pending_def split: option.splits if_splits)
  then have new: "set (xs iid k) = ?K \<inter> (?w (prog s t) - ?w p)" using e by blast
  have "distinct (index_entries iid k (wr_log s'))" using e x new mine by auto
  moreover have "set (index_entries iid k (wr_log s')) = ?K - pending s' iid"
    using e x(2) new mine p' by auto
  ultimately show "exact_list L bs s' iid k" using same_names_key [OF names] by (simp add: exact_list_def)
qed (rule ok)

subsection \<open>Every step keeps the invariant\<close>

lemma same_names_refl [simp]: "same_names S S"
  by (simp add: same_names_def)

lemma request_bytes_index:
  "request_bytes n b = Some (b', off) \<Longrightarrow> index_heap b' = index_heap b \<and> idx_log b' = idx_log b"
  by (auto simp: request_bytes_def Let_def bind_Some_iff)

lemma append_pkt_index:
  "append_pkt off now pkt n b = Some (b', k) \<Longrightarrow> index_heap b' = index_heap b \<and> idx_log b' = idx_log b"
  by (auto simp: append_pkt_def bind_Some_iff)

lemma record_chars_only:
  "record_chars L now pkt rid is s = Some s' \<Longrightarrow> \<exists>ix. s' = s\<lparr>char_idx := ix\<rparr>"
proof (induction "is" arbitrary: s)
  case Nil
  then show ?case by (intro exI [of _ "char_idx s"]) simp
next
  case (Cons i "is")
  obtain ix where "record_chars L now pkt rid is (s\<lparr>char_idx := ix\<rparr>) = Some s'"
  proof -
    have "\<exists>ix. record_chars L now pkt rid is (s\<lparr>char_idx := ix\<rparr>) = Some s'"
      using Cons.prems by (auto simp: bind_Some_iff split: if_splits intro: exI [of _ "char_idx s"])
    then show thesis using that by blast
  qed
  then show ?case using Cons.IH by fastforce
qed

lemma add_character_only:
  "add_complex_character fl s = Some (s', c) \<Longrightarrow> \<exists>n f. s' = s\<lparr>num_filters := n, filters := f\<rparr>"
  by (auto simp: add_complex_character_def Let_def split: if_splits)

lemma same_index:
  assumes "index_heap b' = index_heap b" "idx_log b' = idx_log b"
  shows "index_ptr iid b' = index_ptr iid b" "indexes_ok b' = indexes_ok b" "index_entries iid k b' = index_entries iid k b"
proof -
  show ptr: "index_ptr iid b' = index_ptr iid b" for iid using assms by (simp add: index_ptr_def split: option.split)
  show "indexes_ok b' = indexes_ok b" using assms ptr by (simp add: indexes_ok_def)
  show "index_entries iid k b' = index_entries iid k b" using assms ptr by (simp add: index_entries_def split: option.split)
qed

text \<open>A step that leaves the indexes alone, and nothing more pending or less.\<close>

lemma quiet_index_step:
  assumes inv: "index_inv L bs s" and id: "id_inv (wr_abs s)" and names: "same_names (shared s) (shared s')"
    and same: "index_heap (wr_log s') = index_heap (wr_log s)" "prog s' = (prog s)(t := p)"
    and p: "w_burst p = w_burst (prog s t) \<or> p = W_idle" "\<And>st. w_pending st p = w_pending st (prog s t)"
  shows "index_inv L bs s'"
proof -
  have log: "idx_log (wr_log s') = idx_log (wr_log s)" using names by (simp add: same_names_def)
  have "burst_of L bs p" using p(1) index_invD(3) [OF inv, of t] by (auto simp: burst_of_def)
  moreover have "indexes_ok (wr_log s')" using index_invD(2) [OF inv] same_index(2) [OF same(1) log] by simp
  ultimately show ?thesis
    by (intro index_inv_step [OF inv id names _ same(2), where xs = "\<lambda>_ _. []"]) (use p(2) same_index(3) [OF same(1) log] in simp_all)
qed

lemma begin_index_step:
  assumes inv: "index_inv L bs s" and id: "id_inv (wr_abs s)" and names: "same_names (shared s) (shared s')"
    and same: "index_heap (wr_log s') = index_heap (wr_log s)" "prog s' = (prog s)(t := W_ids start now pkts)"
    and p: "prog s t = W_idle" "start = length (burst_pkts bs)" "readable_burst L (now, pkts)"
  shows "index_inv L (bs @ [(now, pkts)]) s'"
  unfolding index_inv_def
proof (intro conjI allI impI)
  have log: "idx_log (wr_log s') = idx_log (wr_log s)" using names by (simp add: same_names_def)
  note si = same_index [OF same(1) log]
  show "ids_ok (shared s')" using index_invD(1) [OF inv] same_names_ok [OF names] by simp
  show "indexes_ok (wr_log s')" using index_invD(2) [OF inv] si(2) by simp
  have "burst_of L (bs @ [(now, pkts)]) (W_ids start now pkts)"
    using p(2,3) by (simp add: burst_of_def burst_pkts_snoc nth_append)
  moreover have "burst_of L (bs @ [(now, pkts)]) (prog s u)" for u
    using index_invD(3) [OF inv, of u] by (auto simp: burst_of_def burst_pkts_snoc nth_append)
  ultimately show "burst_of L (bs @ [(now, pkts)]) (prog s' u)" for u using same(2) by simp
  fix iid k assume iid: "index_ptr iid (wr_log s') \<noteq> Some None" "key_fits iid k"
  have x: "distinct (index_entries iid k (wr_log s))" "set (index_entries iid k (wr_log s))
      = {i. i < length (burst_pkts bs) \<and> has_key L (shared s) iid k (burst_pkts bs ! i)} - pending s iid"
    using index_invD(4) [OF inv _ iid(2)] iid(1) si(1) by (simp_all add: exact_list_def)
  have ts: "timestamp_idx_id (shared s') = timestamp_idx_id (shared s)" using names by (simp add: same_names_def)
  let ?w = "w_pending (iid = timestamp_idx_id (shared s))"
  have new: "?w (W_ids start now pkts) = {start..<start + length pkts}" and old: "?w (prog s t) = {}"
    using p(1) by (simp_all add: w_pending_def)
  have eq: "(\<lambda>u. ?w (prog s' u)) = (\<lambda>u. ?w (prog s u))(t := {start..<start + length pkts})"
    unfolding same(2) using new by (simp add: fun_eq_iff)
  have "pending s' iid = pending s iid \<union> {start..<start + length pkts}"
    unfolding pending_def ts eq by (rule UN_add [of "\<lambda>u. ?w (prog s u)", OF old])
  moreover have "i < start" if "i \<in> pending s iid" for i
    using that index_invD(3) [OF inv] p(2)
    by (fastforce simp: pending_def w_pending_def burst_of_def split: option.splits if_splits)
  ultimately have "{i. i < length (burst_pkts bs) \<and> has_key L (shared s) iid k (burst_pkts bs ! i)} - pending s iid
    = {i. i < length (burst_pkts (bs @ [(now, pkts)])) \<and> has_key L (shared s) iid k (burst_pkts (bs @ [(now, pkts)]) ! i)} - pending s' iid"
    using p(2) by (auto simp: burst_pkts_snoc nth_append)
  then show "exact_list L (bs @ [(now, pkts)]) s' iid k"
    using x si(3) same_names_key [OF names] by (simp add: exact_list_def)
qed

lemma stamp_index_step:
  assumes inv: "index_inv L bs s" and id: "id_inv (wr_abs s)" and small: "length (burst_pkts bs) \<le> 2 ^ 27 - 8"
    and p: "prog s t = W_stamp start off nc now pkts"
    and run: "ptr_add_range (timestamp_ptr (shared s)) now start (take_bit 64 (start + length pkts + (2 ^ 64 - 1))) (wr_log s) = Some b"
  shows "index_inv L bs (with_prog t (W_loop At_index start off nc now 0 pkts) (with_log b s))"
proof -
  let ?S = "shared s" and ?n = "length pkts" and ?p = "W_loop At_index start off nc now 0 pkts"
  have own: "burst_of L bs (W_stamp start off nc now pkts)" using index_invD(3) [OF inv, of t] p by simp
  then have b: "pkts \<noteq> []" "now < 2 ^ 32" "start + ?n \<le> length (burst_pkts bs)"
    "\<forall>j < ?n. burst_pkts bs ! (start + j) = (now, pkts ! j)"
    by (simp_all add: burst_of_def readable_burst_def)
  have key: "burst_pkts bs ! i = (now, pkts ! (i - start))" if "start \<le> i" "i < start + ?n" for i
    using b(4) [rule_format, of "i - start"] that by simp
  note ids = index_invD(1) [OF inv]
  have n: "0 < ?n" "start + ?n \<le> 2 ^ 64" using b(1,3) small by simp_all
  have fits: "key_fits (timestamp_idx_id ?S) now" using ids_okD(10) [OF ids] b(2) by (simp add: key_fits_def)
  have "length (index_entries (timestamp_idx_id ?S) now (wr_log s)) \<le> 2 ^ 27 - 8"
    using exact_list_short [OF index_invD(4) [OF inv _ fits]] ids_okD(5) [OF ids] small by simp
  then have room: "length (index_entries (timestamp_idx_id ?S) now (wr_log s)) + ?n \<le> 2 ^ 28 - 16"
    using b(3) small by simp
  have "take_bit 64 (start + ?n + (2 ^ 64 - 1)) = start + ?n - 1"
    using n small b(3) by (intro wrap_minus_one) simp_all
  then obtain h where h: "b = (wr_log s)\<lparr>index_heap := h\<rparr>" "indexes_ok b"
    "\<forall>i k. index_ptr i (wr_log s) \<noteq> Some None \<longrightarrow> key_fits i k \<longrightarrow>
      index_entries i k b = index_entries i k (wr_log s) @ (if i = timestamp_idx_id ?S \<and> k = now then [start..<start + ?n] else [])"
    using ptr_add_range_spec [OF index_invD(2) [OF inv] ids_okD(5,10) [OF ids] b(2) n(1) room n(2)] run by auto
  have other: "\<not> pkt_has ?S (timestamp_idx_id ?S) k q" for k q
    using ids_okD(11) [OF ids] by (auto simp: pkt_has_def split: option.split)
  show ?thesis
  proof (rule index_inv_step [OF inv id, where t = t and p = ?p
      and xs = "\<lambda>iid k. if iid = timestamp_idx_id ?S \<and> k = now then [start..<start + ?n] else []"])
    show "same_names ?S (shared (with_prog t ?p (with_log b s)))" by (simp add: same_names_def h(1))
    show "indexes_ok (wr_log (with_prog t ?p (with_log b s)))" using h(2) by simp
    show "prog (with_prog t ?p (with_log b s)) = (prog s)(t := ?p)" by simp
    show "burst_of L bs ?p" using own by (simp add: burst_of_def)
    show "w_pending st ?p \<subseteq> w_pending st (prog s t)" for st by (simp add: p w_pending_def)
    fix iid k assume iid: "index_ptr iid (wr_log s) \<noteq> Some None" "key_fits iid k"
    have "w_pending True (prog s t) - w_pending True ?p = {start..<start + ?n}"
      "w_pending False (prog s t) - w_pending False ?p = {}" by (simp_all add: p w_pending_def)
    then have "set (if iid = timestamp_idx_id ?S \<and> k = now then [start..<start + ?n] else [])
      = {i. i \<in> w_pending (iid = timestamp_idx_id ?S) (prog s t) - w_pending (iid = timestamp_idx_id ?S) ?p
           \<and> has_key L ?S iid k (burst_pkts bs ! i)}"
      using other key by (cases "iid = timestamp_idx_id ?S") (auto simp: has_key_def)
    then show "index_entries iid k (wr_log (with_prog t ?p (with_log b s)))
        = index_entries iid k (wr_log s) @ (if iid = timestamp_idx_id ?S \<and> k = now then [start..<start + ?n] else [])
      \<and> distinct (if iid = timestamp_idx_id ?S \<and> k = now then [start..<start + ?n] else [])
      \<and> set (if iid = timestamp_idx_id ?S \<and> k = now then [start..<start + ?n] else [])
         = {i. i \<in> w_pending (iid = timestamp_idx_id ?S) (prog s t) - w_pending (iid = timestamp_idx_id ?S) ?p
           \<and> has_key L ?S iid k (burst_pkts bs ! i)}"
      using h(3) iid by simp
  qed
qed

lemma pkt_index_step:
  assumes inv: "index_inv L bs s" and id: "id_inv (wr_abs s)" and small: "length (burst_pkts bs) \<le> 2 ^ 27 - 8"
    and p: "prog s t = W_loop At_index start off nc now k pkts" "k < length pkts"
    and run: "index_pkt L (mtod (pkts ! k)) (start + k) (shared s) = Some S"
  shows "index_inv L bs (with_prog t (W_loop At_offset start off nc now k pkts) (with_store S s))"
proof -
  let ?S = "shared s" and ?m = "pkts ! k" and ?p = "W_loop At_offset start off nc now k pkts"
  have own: "burst_of L bs (W_loop At_index start off nc now k pkts)" using index_invD(3) [OF inv, of t] p by simp
  then have b: "pkt_ok L ?m" "burst_pkts bs ! (start + k) = (now, ?m)"
    using p(2) by (simp_all add: burst_of_def readable_burst_def)
  note ids = index_invD(1) [OF inv]
  obtain q where q: "pkt_fields_of L (mtod ?m) = Some q" "fields_of L ?m = q" using b(1) by (auto simp: pkt_ok_def fields_of_def)
  have room: "length (index_entries iid key (wr_log s)) + 4 \<le> 2 ^ 28 - 16" if "key_fits iid key" "index_ptr iid (wr_log s) \<noteq> Some None" for iid key
    using exact_list_short [OF index_invD(4) [OF inv that(2,1)]] small by simp
  obtain h where h: "S = ?S\<lparr>base := (wr_log s)\<lparr>index_heap := h\<rparr>\<rparr>" "indexes_ok (base S)"
    "\<forall>iid key. index_ptr iid (wr_log s) \<noteq> Some None \<longrightarrow> key_fits iid key \<longrightarrow>
      index_entries iid key (base S) = index_entries iid key (wr_log s) @ (if pkt_has ?S iid key q then [start + k] else [])"
    using index_pkt_spec [OF ids index_invD(2) [OF inv] q(1) room, of "start + k"] run by auto
  have other: "\<not> pkt_has ?S (timestamp_idx_id ?S) key r" for key r
    using ids_okD(11) [OF ids] by (auto simp: pkt_has_def split: option.split)
  show ?thesis
  proof (rule index_inv_step [OF inv id, where t = t and p = ?p
      and xs = "\<lambda>iid key. if pkt_has ?S iid key q then [start + k] else []"])
    show "same_names ?S (shared (with_prog t ?p (with_store S s)))" by (simp add: same_names_def h(1))
    show "indexes_ok (wr_log (with_prog t ?p (with_store S s)))" using h(2) by simp
    show "prog (with_prog t ?p (with_store S s)) = (prog s)(t := ?p)" by simp
    show "burst_of L bs ?p" using own by (simp add: burst_of_def)
    show "w_pending st ?p \<subseteq> w_pending st (prog s t)" for st by (simp add: p w_pending_def)
    fix iid key assume iid: "index_ptr iid (wr_log s) \<noteq> Some None" "key_fits iid key"
    have "w_pending True (prog s t) - w_pending True ?p = {}"
      "w_pending False (prog s t) - w_pending False ?p = {start + k}" using p by (auto simp: w_pending_def)
    then have "set (if pkt_has ?S iid key q then [start + k] else [])
      = {i. i \<in> w_pending (iid = timestamp_idx_id ?S) (prog s t) - w_pending (iid = timestamp_idx_id ?S) ?p
           \<and> has_key L ?S iid key (burst_pkts bs ! i)}"
      using other b(2) q(2) by (cases "iid = timestamp_idx_id ?S") (auto simp: has_key_def)
    then show "index_entries iid key (wr_log (with_prog t ?p (with_store S s)))
        = index_entries iid key (wr_log s) @ (if pkt_has ?S iid key q then [start + k] else [])
      \<and> distinct (if pkt_has ?S iid key q then [start + k] else [])
      \<and> set (if pkt_has ?S iid key q then [start + k] else [])
         = {i. i \<in> w_pending (iid = timestamp_idx_id ?S) (prog s t) - w_pending (iid = timestamp_idx_id ?S) ?p
           \<and> has_key L ?S iid key (burst_pkts bs ! i)}"
      using h(3) iid by simp
  qed
qed

lemma index_inv_on:
  assumes "wr_step L s s'" "\<forall>t. prog s t = W_idle \<longrightarrow> prog s' t = W_idle" "wr_inv s" "index_inv L bs s"
    and "length (burst_pkts bs) \<le> 2 ^ 27 - 8"
  shows "index_inv L bs s'"
proof -
  have id: "id_inv (wr_abs s)" using assms(3) by (simp add: wr_inv_def)
  from assms(1,2,4) id show ?thesis
  proof (induction rule: wr_step.induct)
    case (ids s t now pkts l start)
    then show ?case by (auto split: if_splits)
  next
    case (bytes s t start now pkts b off)
    show ?case
      by (rule quiet_index_step [OF bytes(4,5), where t = t and p = "W_bytes start off now pkts"])
        (use bytes(1) request_bytes_index [OF bytes(2)] in \<open>simp_all add: same_names_def w_pending_def\<close>)
  next
    case (chars s t start off now pkts cix ci)
    show ?case
      by (rule quiet_index_step [OF chars(4,5), where t = t and p = "W_stamp start off (num_filters (shared s)) now pkts"]) (use chars(1) in \<open>simp_all add: same_names_def w_pending_def\<close>)
  next
    case (stamp s t start off nc now pkts b)
    show ?case by (rule stamp_index_step [OF stamp(4,5) assms(5) stamp(1,2)])
  next
    case (index s t start off nc now k pkts S)
    show ?case by (rule pkt_index_step [OF index(5,6) assms(5) index(1,2,3)])
  next
    case (offset s t start off nc now k pkts l)
    show ?case
      by (rule quiet_index_step [OF offset(4,5), where t = t and p = "W_loop At_append start off nc now k pkts"]) (use offset(1) in \<open>simp_all add: same_names_def w_pending_def\<close>)
  next
    case (append s t start off nc now k pkts b n)
    show ?case
      by (rule quiet_index_step [OF append(4,5), where t = t and p = "W_loop At_chars start (take_bit 64 (off + n)) nc now k pkts"])
        (use append(1) append_pkt_index [OF append(2)] in \<open>simp_all add: same_names_def w_pending_def\<close>)
  next
    case (charts s t start off nc now k pkts S)
    obtain ix where "S = (shared s)\<lparr>char_idx := ix\<rparr>" using record_chars_only [OF charts(2)] by blast
    then show ?case
      by (intro quiet_index_step [OF charts(4,5), where t = t and p = "W_loop At_index start off nc now (Suc k) pkts"]) (use charts(1) in \<open>simp_all add: same_names_def w_pending_def\<close>)
  next
    case (finish s t start off nc now pkts l)
    show ?case
      by (rule quiet_index_step [OF finish(4,5), where t = t and p = "W_idle"]) (use finish(1) in \<open>simp_all add: same_names_def w_pending_def\<close>)
  next
    case (spin s t start off nc now pkts l)
    show ?case
      by (rule quiet_index_step [OF spin(4,5), where t = t and p = "prog s t"]) (simp_all add: same_names_def)
  next
    case (character fl s S c)
    obtain n f where "S = (shared s)\<lparr>num_filters := n, filters := f\<rparr>" using add_character_only [OF character(1)] by blast
    then show ?case
      by (intro quiet_index_step [OF character(3,4), where t = 0 and p = "prog s 0"]) (simp_all add: same_names_def)
  qed
qed

lemma index_inv_begin:
  assumes "wr_step L s s'" "prog s t = W_idle" "prog s' t = W_ids start now pkts" "wr_inv s" "index_inv L bs s"
    and "log_given bs s" "readable_burst L (now, pkts)"
  shows "index_inv L (bs @ [(now, pkts)]) s'"
proof -
  have id: "id_inv (wr_abs s)" using assms(4) by (simp add: wr_inv_def)
  have start: "start = length (burst_pkts bs)"
    using wr_step_begin [OF assms(1-4)] assms(6) by (simp add: log_given_def length_burst_pkts)
  from assms(1-3,5) id show ?thesis
  proof (induction rule: wr_step.induct)
    case (ids s u now' pkts' l start')
    then have same: "u = t" "start' = start" "now' = now" "pkts' = pkts" by (auto split: if_splits)
    show ?case
      by (rule begin_index_step [OF ids(6,7), where t = t and start = start])
        (use ids(1) same start assms(7) in \<open>simp_all add: same_names_def\<close>)
  qed (auto split: if_splits)
qed

lemma index_inv_initial:
  assumes "packet_store_init = Some S"
  shows "index_inv L [] (wr_start S)"
proof -
  have S: "pstore_ok S" "\<forall>j k. key_fits j k \<longrightarrow> index_entries j k (base S) = []"
    using packet_store_init_ok assms by (metis option.inject)+
  then show ?thesis
    by (auto simp: index_inv_def pstore_ok_def wr_start_def burst_of_def exact_list_def burst_pkts_def)
qed

lemma index_inv_run:
  assumes "packet_store_init = Some S" "wr_run L (wr_start S) bs s"
    and "\<forall>b \<in> set bs. readable_burst L b" "length (burst_pkts bs) \<le> 2 ^ 27 - 8"
  shows "index_inv L bs s"
  using assms(2-4)
proof (induction rule: wr_run.induct)
  case run_start
  then show ?case by (simp add: index_inv_initial [OF assms(1)])
next
  case (run_begin bs s1 s2 t start now pkts)
  note init = wr_initial_start [OF assms(1)]
  have inv: "wr_inv s1" using wr.reach_invar [OF init wr_run_reach [OF run_begin(1)]] .
  have "index_inv L bs s1" using run_begin by (simp add: burst_pkts_snoc)
  then show ?case
    using index_inv_begin [OF run_begin(2-4) inv _ log_given_run [OF init run_begin(1)]] run_begin.prems(1) by simp
next
  case (run_on bs s1 s2)
  have "wr_inv s1" using wr.reach_invar [OF wr_initial_start [OF assms(1)] wr_run_reach [OF run_on(1)]] .
  then show ?case using index_inv_on [OF run_on(2,3)] run_on by simp
qed

section \<open>Published packets can be found\<close>

text \<open>
  C4. No index entry is lost or made twice. In every state of a run of the writers, the list of a key in one of
  the five indexes holds each identifier once, holds every published packet that has the key, and nothing but packets of the bursts begun
  so far that have it; when no writer is inside a burst, it holds exactly the stored packets with the key.
\<close>

theorem published_packets_indexed:
  assumes "packet_store_init = Some S" "wr_run L (wr_start S) bs s"
    and "\<forall>b \<in> set bs. readable_burst L b" "length (burst_pkts bs) \<le> 2 ^ 27 - 8"
    and "iid \<in> {srcip_idx_id (shared s), dstip_idx_id (shared s), srcport_idx_id (shared s), dstport_idx_id (shared s), timestamp_idx_id (shared s)}"
    and "key_fits iid k"
  defines "found \<equiv> {i. i < num_pkts (shared s) \<and> has_key L (shared s) iid k (burst_pkts bs ! i)}"
  shows "distinct (index_entries iid k (base (shared s)))
    \<and> found \<subseteq> set (index_entries iid k (base (shared s)))
    \<and> set (index_entries iid k (base (shared s))) \<subseteq> {i. i < length (burst_pkts bs) \<and> has_key L (shared s) iid k (burst_pkts bs ! i)}
    \<and> ((\<forall>t. prog s t = W_idle) \<longrightarrow> set (index_entries iid k (base (shared s))) = found)"
proof -
  note init = wr_initial_start [OF assms(1)]
  have inv: "wr_inv s" using wr.reach_invar [OF init wr_run_reach [OF assms(2)]] .
  then have id: "id_inv (wr_abs s)" by (simp add: wr_inv_def)
  have iinv: "index_inv L bs s" using index_inv_run [OF assms(1-4)] .
  have "index_ptr iid (wr_log s) \<noteq> Some None" using ids_okD(1-5) [OF index_invD(1) [OF iinv]] assms(5) by auto
  note e = index_invD(4) [OF iinv this assms(6)]
  have below: "num_pkts (shared s) \<le> length (burst_pkts bs)" using run_prefix(1) [OF init assms(2)] by (simp add: length_burst_pkts)
  have "num_pkts (shared s) \<le> i" if i: "i \<in> pending s iid" for i
  proof -
    obtain t where "i \<in> burst_ids (bursts (wr_abs s) t)"
      using i w_pending_ids unfolding pending_def wr_abs_def by fastforce
    from burst_ids_below(3) [OF id this] show ?thesis by (simp add: wr_abs_def num_pkts_def num_records_def num_ids_def)
  qed
  then have pub: "pending s iid \<inter> {..<num_pkts (shared s)} = {}" by fastforce
  have "pending s iid = {} \<and> num_pkts (shared s) = length (burst_pkts bs)" if "\<forall>t. prog s t = W_idle"
    using that idle_published [OF inv that] log_given_run [OF init assms(2)]
    by (simp add: pending_def w_pending_def log_given_def length_burst_pkts)
  then show ?thesis using e below pub unfolding exact_list_def found_def by auto
qed

text \<open>A run in which one writer inserts one packet, labelled with its burst.\<close>

lemma wr_run_on: "(wr_on L)\<^sup>*\<^sup>* s1 s2 \<Longrightarrow> wr_run L s bs s1 \<Longrightarrow> wr_run L s bs s2"
  by (induction rule: rtranclp_induct) (auto simp: wr_on_def intro: wr_run.run_on)

lemma one_burst_run:
  "\<exists>S s. packet_store_init = Some S \<and> wr_run wire_layout (wr_start S) [(1500000000, [tcp_pkt])] s \<and> prog s = (\<lambda>_. W_idle)
    \<and> num_pkts (shared s) = 1"
proof -
  obtain S where S: "packet_store_init = Some S" "pstore_ok S" "num_pkts S = 0" "burst_room wire_layout 1500000000 [tcp_pkt] S"
    using new_store_room by (elim exE conjE) (rule that)
  obtain S' where run: "insert_pktburst wire_layout 1500000000 [tcp_pkt] S = Some S'" "num_pkts S' = 1"
  proof -
    obtain S' where r: "insert_pktburst wire_layout 1500000000 [tcp_pkt] S = Some S'"
      "store_pkts S' = store_pkts S @ map (\<lambda>m. (1500000000, pkt_bytes m)) [tcp_pkt]"
      using insert_pktburst_spec [OF S(2,4)] by blast
    have "num_pkts S' = 1" using arg_cong [OF r(2), of length] S(3) by (simp add: store_pkts_def)
    then show thesis using that r(1) by blast
  qed
  have inv: "wr_inv (wr_start S)" using wr_initial_inv [OF wr_initial_start [OF S(1)]] .
  have can: "burst_can_start 1500000000 [tcp_pkt]" by (simp add: burst_can_start_def tcp_pkt_def)
  have st: "shared (wr_start S) = S" "prog (wr_start S) = (\<lambda>_. W_idle)" by (simp_all add: wr_start_def)
  obtain start s1 pl where b: "wr_step wire_layout (wr_start S) s1" "prog s1 0 = W_ids start 1500000000 [tcp_pkt]"
    "(wr_on wire_layout)\<^sup>*\<^sup>* s1 \<lparr>shared = S', prog = prog (wr_start S), given = given (give start 1500000000 [tcp_pkt] (wr_start S)), placed = pl\<rparr>"
    using burst_alone_on [OF inv _ can, of 0 wire_layout S'] run(1) st by auto
  have "wr_run wire_layout (wr_start S) ([] @ [(1500000000, [tcp_pkt])]) s1"
    by (rule run_begin [OF run_start b(1) _ b(2)]) (simp add: st)
  from wr_run_on [OF b(3) this] show ?thesis using S(1) run(2) st(2) by (intro exI conjI) (assumption | simp)+
qed

theorem published_packets_indexed_witness:
  "\<exists>S s. packet_store_init = Some S \<and> wr_run wire_layout (wr_start S) [(1500000000, [tcp_pkt])] s
    \<and> set (index_entries (timestamp_idx_id (shared s)) 1500000000 (base (shared s))) = {0}
    \<and> set (index_entries (timestamp_idx_id (shared s)) 1500000001 (base (shared s))) = {}"
proof -
  obtain S s where s: "packet_store_init = Some S" "wr_run wire_layout (wr_start S) [(1500000000, [tcp_pkt])] s"
    "prog s = (\<lambda>_. W_idle)" "num_pkts (shared s) = 1" using one_burst_run by (elim exE conjE) (rule that)
  have r: "\<forall>b \<in> set [(1500000000, [tcp_pkt])]. readable_burst wire_layout b" using tcp_pkt_ok by (simp add: readable_burst_def)
  have n: "burst_pkts [(1500000000, [tcp_pkt])] = [(1500000000, tcp_pkt)]" by (simp add: burst_pkts_def)
  have ids: "ids_ok (shared s)" using index_invD(1) [OF index_inv_run [OF s(1,2) r]] n by simp
  have fits: "key_fits (timestamp_idx_id (shared s)) k" if "k < 2 ^ 32" for k
    using ids_okD(10) [OF ids] that by (simp add: key_fits_def)
  have other: "\<not> pkt_has (shared s) (timestamp_idx_id (shared s)) k q" for k q
    using ids_okD(11) [OF ids] by (auto simp: pkt_has_def split: option.split)
  have "set (index_entries (timestamp_idx_id (shared s)) k (base (shared s))) = {i. i < 1 \<and> 1500000000 = k}" if "k < 2 ^ 32" for k
    using published_packets_indexed [OF s(1,2) r _ _ fits [OF that]] s(3,4) n other by (auto simp: has_key_def)
  from this [of 1500000000] this [of 1500000001] show ?thesis using s(1,2) by auto
qed

end
