(* ===== verification/Expression.thy ===== *)
theory Expression
  imports Prelude
begin

section \<open>Filter expressions (expression.h)\<close>

text \<open>
  The expression tree the parser builds, with its printer and the number of nodes that
  \<open>free_expression\<close> deletes. \<open>eval\<close> is not in the code: it is the meaning of an expression,
  given the meaning of predicates.
\<close>

datatype expression =
    Predicate string string string
  | Conj "expression list"
  | Disj "expression list"
  | Neg expression

fun sep_by :: "string \<Rightarrow> string list \<Rightarrow> string" where
  "sep_by sep [] = []"
| "sep_by sep [x] = x"
| "sep_by sep (x # y # xs) = x @ sep @ sep_by sep (y # xs)"

fun print_expression :: "expression \<Rightarrow> string" where
  "print_expression (Predicate attr op val) = ''['' @ attr @ '' '' @ op @ '' '' @ val @ '']''"
| "print_expression (Neg e) = ''NOT('' @ print_expression e @ '')''"
| "print_expression (Conj es) = ''AND('' @ sep_by '', '' (map print_expression es) @ '')''"
| "print_expression (Disj es) = ''OR('' @ sep_by '', '' (map print_expression es) @ '')''"

text \<open>The objects \<open>free_expression\<close> deletes, children before their parent.\<close>

fun free_expression :: "expression \<Rightarrow> expression list" where
  "free_expression (Predicate attr op val) = [Predicate attr op val]"
| "free_expression (Neg e) = free_expression e @ [Neg e]"
| "free_expression (Conj es) = concat (map free_expression es) @ [Conj es]"
| "free_expression (Disj es) = concat (map free_expression es) @ [Disj es]"

section \<open>Meaning\<close>

fun eval :: "(string \<Rightarrow> string \<Rightarrow> string \<Rightarrow> bool) \<Rightarrow> expression \<Rightarrow> bool" where
  "eval v (Predicate attr op val) = v attr op val"
| "eval v (Neg e) = (\<not> eval v e)"
| "eval v (Conj es) = list_all (eval v) es"
| "eval v (Disj es) = list_ex (eval v) es"

text \<open>Trees without negation nodes, whose operators satisfy a condition.\<close>

fun nnf :: "(string \<Rightarrow> bool) \<Rightarrow> expression \<Rightarrow> bool" where
  "nnf P (Predicate attr op val) = P op"
| "nnf P (Neg e) = False"
| "nnf P (Conj es) = list_all (nnf P) es"
| "nnf P (Disj es) = list_all (nnf P) es"

lemma length_free_expression: "length (free_expression e) = (case e of
    Predicate _ _ _ \<Rightarrow> 1 | Neg e' \<Rightarrow> length (free_expression e') + 1
  | Conj es \<Rightarrow> sum_list (map (length \<circ> free_expression) es) + 1
  | Disj es \<Rightarrow> sum_list (map (length \<circ> free_expression) es) + 1)"
  by (cases e) (simp_all add: length_concat comp_def)

end
