(* ===== verification/Query_Parser.thy ===== *)
theory Query_Parser
  imports Expression
begin

section \<open>Lexer and parser of filter expressions (query_parser.h)\<close>

text \<open>
  The lexer reads a \<open>std::stringstream\<close>, whose position and error bits are part of the model: at
  the end of the string \<open>peek\<close> sets the end-of-file bit, \<open>get\<close> also the fail bit; \<open>unget\<close>
  clears the end-of-file bit, and every operation on a stream that is not good sets the fail bit
  and does nothing else. \<open>None\<close> stands for the value \<open>EOF\<close>. Characters are those
  of the C locale. An exception is the left summand of a result.
\<close>

record stream =
  content :: string
  spos :: nat
  eofbit :: bool
  failbit :: bool

definition stream_str :: "string \<Rightarrow> stream" where
  "stream_str exp = \<lparr>content = exp, spos = 0, eofbit = False, failbit = False\<rparr>"

definition good :: "stream \<Rightarrow> bool" where
  "good st \<longleftrightarrow> \<not> eofbit st \<and> \<not> failbit st"

definition speek :: "stream \<Rightarrow> char option \<times> stream" where
  "speek st =
     (if \<not> good st then (None, st\<lparr>failbit := True\<rparr>)
      else if spos st < length (content st) then (Some (content st ! spos st), st)
      else (None, st\<lparr>eofbit := True\<rparr>))"

definition sget :: "stream \<Rightarrow> char option \<times> stream" where
  "sget st =
     (if \<not> good st then (None, st\<lparr>failbit := True\<rparr>)
      else if spos st < length (content st)
           then (Some (content st ! spos st), st\<lparr>spos := spos st + 1\<rparr>)
      else (None, st\<lparr>eofbit := True, failbit := True\<rparr>))"

text \<open>
  \<open>unget\<close> at position 0 fails and sets the bad bit, which acts like the fail bit.
\<close>

definition sunget :: "stream \<Rightarrow> stream" where
  "sunget st =
     (let st1 = st\<lparr>eofbit := False\<rparr> in
      if \<not> good st1 then st1\<lparr>failbit := True\<rparr>
      else if spos st1 = 0 then st1\<lparr>failbit := True\<rparr>
      else st1\<lparr>spos := spos st1 - 1\<rparr>)"

text \<open>\<open>iswspace\<close> and \<open>isalnum\<close> of the C locale, on the result of \<open>peek\<close>.\<close>

definition is_space :: "char \<Rightarrow> bool" where
  "is_space c \<longleftrightarrow> c \<in> set [CHR '' '', CHR 0x09, CHR 0x0A, CHR 0x0B, CHR 0x0C, CHR 0x0D]"

definition is_alnum :: "char \<Rightarrow> bool" where
  "is_alnum c \<longleftrightarrow> (let n = of_char c :: nat in
     (48 \<le> n \<and> n \<le> 57) \<or> (65 \<le> n \<and> n \<le> 90) \<or> (97 \<le> n \<and> n \<le> 122))"

definition opvalid :: "char \<Rightarrow> bool" where
  "opvalid c \<longleftrightarrow> is_alnum c \<or> c = CHR ''.'' \<or> c = CHR ''_'' \<or> c = CHR ''/'' \<or> c = CHR ''-''"

definition peek_is :: "(char \<Rightarrow> bool) \<Rightarrow> stream \<Rightarrow> bool \<times> stream" where
  "peek_is P st = (case speek st of (c, st') \<Rightarrow> (case c of None \<Rightarrow> (False, st') | Some ch \<Rightarrow> (P ch, st')))"

lemma speek_spos [simp]: "spos (snd (speek st)) = spos st" "content (snd (speek st)) = content st"
  by (simp_all add: speek_def)

lemma speek_Some: "speek st = (Some c, st') \<Longrightarrow> st' = st \<and> good st \<and> spos st < length (content st) \<and> c = content st ! spos st"
  by (auto simp: speek_def split: if_splits)

text \<open>\<open>while (iswspace(stream_.peek())) stream_.get();\<close>\<close>

function skip_space :: "stream \<Rightarrow> stream" where
  "skip_space st =
     (case peek_is is_space st of (b, st') \<Rightarrow> if b then skip_space (snd (sget st')) else st')"
  by pat_completeness auto
termination
proof (relation "measure (\<lambda>st. length (content st) - spos st)")
  fix st b st'
  assume "(b, st') = peek_is is_space st" "b"
  then have "st' = st" "good st" "spos st < length (content st)"
    by (auto simp: peek_is_def dest!: speek_Some split: option.splits prod.splits)
  then show "(snd (sget st'), st) \<in> measure (\<lambda>st. length (content st) - spos st)"
    by (simp add: sget_def)
qed simp

declare skip_space.simps [simp del]

text \<open>\<open>while (opvalid(stream_.peek())) operand += (char) stream_.get();\<close>\<close>

function read_operand :: "stream \<Rightarrow> string \<times> stream" where
  "read_operand st =
     (case peek_is opvalid st of (b, st') \<Rightarrow>
        if b then (case sget st' of (c, st2) \<Rightarrow> case read_operand st2 of (s, st3) \<Rightarrow> (the c # s, st3))
        else ([], st'))"
  by pat_completeness auto
termination
proof (relation "measure (\<lambda>st. length (content st) - spos st)")
  fix st b st' c st2
  assume "(b, st') = peek_is opvalid st" "b" "(c, st2) = sget st'"
  then have "st' = st" "good st" "spos st < length (content st)"
    by (auto simp: peek_is_def dest!: speek_Some split: option.splits prod.splits)
  then show "(st2, st) \<in> measure (\<lambda>st. length (content st) - spos st)"
    using \<open>(c, st2) = sget st'\<close> by (simp add: sget_def)
qed simp

declare read_operand.simps [simp del]

subsection \<open>Tokens\<close>

record lex_token =
  tok_id :: int
  tok_value :: string

definition INVALID :: int where "INVALID = - 2"
definition END_TOK :: int where "END_TOK = - 1"
definition OR_TOK :: int where "OR_TOK = 0"
definition AND_TOK :: int where "AND_TOK = 1"
definition NOT_TOK :: int where "NOT_TOK = 2"
definition LEFT :: int where "LEFT = 3"
definition RIGHT :: int where "RIGHT = 4"
definition OPERATOR :: int where "OPERATOR = 5"
definition OPERAND :: int where "OPERAND = 6"

lemmas tok_ids = INVALID_def END_TOK_def OR_TOK_def AND_TOK_def NOT_TOK_def LEFT_def RIGHT_def
  OPERATOR_def OPERAND_def

definition tok :: "int \<Rightarrow> string \<Rightarrow> lex_token" where
  "tok i v = \<lparr>tok_id = i, tok_value = v\<rparr>"

type_synonym 'a lex_result = "string + 'a \<times> stream"

text \<open>The case of a character that must be followed by itself or by \<open>=\<close>.\<close>

definition doubled :: "char \<Rightarrow> string \<Rightarrow> int \<Rightarrow> string \<Rightarrow> stream \<Rightarrow> lex_token lex_result" where
  "doubled c msg i v st =
     (case sget st of (c1, st') \<Rightarrow> if c1 \<noteq> Some c then Inl msg else Inr (tok i v, st'))"

definition or_equal :: "string \<Rightarrow> stream \<Rightarrow> lex_token lex_result" where
  "or_equal op st =
     (case sget st of (c1, st') \<Rightarrow>
        if c1 = Some CHR ''='' then Inr (tok OPERATOR (op @ ''=''), st')
        else Inr (tok OPERATOR op, sunget st'))"

text \<open>
  After an \<open>i\<close>: true when an \<open>n\<close> and a space follow; the stream is behind the \<open>n\<close> then,
  otherwise behind the \<open>i\<close> (when the stream lets it).
\<close>

definition follows_n :: "stream \<Rightarrow> bool \<times> stream" where
  "follows_n st =
     (case sget st of (c, st') \<Rightarrow>
        if c = Some CHR ''n''
        then (case peek_is is_space st' of (b, st2) \<Rightarrow> if b then (True, st2) else (False, sunget st2))
        else (False, sunget st'))"

text \<open>After a \<open>!\<close>, and after a character of an operand.\<close>

definition lex_not :: "stream \<Rightarrow> lex_token lex_result" where
  "lex_not st =
     (case sget st of (c1, st1) \<Rightarrow>
        if c1 = Some CHR ''='' then Inr (tok OPERATOR ''!='', st1)
        else if c1 = Some CHR ''i'' then
          (case follows_n st1 of (b, st2) \<Rightarrow>
             if b then Inr (tok OPERATOR ''!in'', st2) else Inr (tok NOT_TOK ''!'', sunget st2))
        else Inr (tok NOT_TOK ''!'', sunget st1))"

definition lex_operand :: "stream \<Rightarrow> lex_token lex_result" where
  "lex_operand st = (case read_operand (sunget st) of (s, st') \<Rightarrow> Inr (tok OPERAND s, st'))"

definition lex_word :: "char \<Rightarrow> stream \<Rightarrow> lex_token lex_result" where
  "lex_word ch st =
     (if \<not> opvalid ch then Inl ''All operands must conform to [a-zA-Z0-9_.]+''
      else if ch = CHR ''i'' then
        (case follows_n st of (b, st1) \<Rightarrow>
           if b then Inr (tok OPERATOR ''in'', st1) else lex_operand st1)
      else lex_operand st)"

text \<open>The switch on the first character.\<close>

definition lex_from :: "char \<Rightarrow> stream \<Rightarrow> lex_token lex_result" where
  "lex_from ch st =
     (if ch = CHR 0xFF then Inr (tok END_TOK [], st)
      else if ch = CHR ''|'' then
        doubled CHR ''|'' ''Invalid token starting with |; did you mean ||?'' OR_TOK ''||'' st
      else if ch = CHR ''&'' then
        doubled CHR ''&'' ''Invalid token starting with &; did you mean &&?'' AND_TOK ''&&'' st
      else if ch = CHR ''!'' then lex_not st
      else if ch = CHR ''('' then Inr (tok LEFT ''('', st)
      else if ch = CHR '')'' then Inr (tok RIGHT '')'', st)
      else if ch = CHR ''='' then
        doubled CHR ''='' ''Invalid token starting with =; did you mean ==?'' OPERATOR ''=='' st
      else if ch = CHR ''<'' then or_equal ''<'' st
      else if ch = CHR ''>'' then or_equal ''>'' st
      else lex_word ch st)"

definition next_token :: "stream \<Rightarrow> lex_token lex_result" where
  "next_token st0 =
     (case sget (skip_space st0) of (c, st) \<Rightarrow>
        case c of None \<Rightarrow> Inr (tok END_TOK [], st) | Some ch \<Rightarrow> lex_from ch st)"

definition put_back :: "lex_token \<Rightarrow> stream \<Rightarrow> stream" where
  "put_back t st = (sunget ^^ length (tok_value t)) st"

definition peek_token :: "stream \<Rightarrow> lex_token lex_result" where
  "peek_token st = (case next_token st of Inl e \<Rightarrow> Inl e | Inr (t, st') \<Rightarrow> Inr (t, put_back t st'))"

subsection \<open>Negation\<close>

definition negate_op :: "string \<Rightarrow> string + string" where
  "negate_op op =
     (if op = ''=='' then Inr ''!='' else if op = ''!='' then Inr ''==''
      else if op = ''<'' then Inr ''>='' else if op = ''>'' then Inr ''<=''
      else if op = ''<='' then Inr ''>'' else if op = ''>='' then Inr ''<''
      else if op = ''in'' then Inr ''!in'' else if op = ''!in'' then Inr ''in''
      else Inl (''Invalid operator '' @ op))"

fun negate :: "expression \<Rightarrow> string + expression"
  and negate_list :: "expression list \<Rightarrow> string + expression list" where
  "negate (Conj es) = (case negate_list es of Inl e \<Rightarrow> Inl e | Inr es' \<Rightarrow> Inr (Disj es'))"
| "negate (Disj es) = (case negate_list es of Inl e \<Rightarrow> Inl e | Inr es' \<Rightarrow> Inr (Conj es'))"
| "negate (Neg e) = Inr e"
| "negate (Predicate attr op val) = (case negate_op op of Inl e \<Rightarrow> Inl e | Inr op' \<Rightarrow> Inr (Predicate attr op' val))"
| "negate_list [] = Inr []"
| "negate_list (e # es) = (case negate e of Inl m \<Rightarrow> Inl m
     | Inr e' \<Rightarrow> (case negate_list es of Inl m \<Rightarrow> Inl m | Inr es' \<Rightarrow> Inr (e' # es')))"

subsection \<open>Recursive descent\<close>

text \<open>
  The mutually recursive functions of the parser take fuel; \<open>None\<close> means that it ran out. A
  theorem below shows that three times the length of the input and a little more is enough.
\<close>

type_synonym 'a parse_result = "'a lex_result option"

definition pbind :: "'a parse_result \<Rightarrow> ('a \<Rightarrow> stream \<Rightarrow> 'b parse_result) \<Rightarrow> 'b parse_result" where
  "pbind r f = (case r of None \<Rightarrow> None | Some (Inl e) \<Rightarrow> Some (Inl e) | Some (Inr (x, st)) \<Rightarrow> f x st)"

definition ppeek :: "stream \<Rightarrow> lex_token parse_result" where
  "ppeek st = Some (peek_token st)"

definition pnext :: "stream \<Rightarrow> lex_token parse_result" where
  "pnext st = Some (next_token st)"

definition pthrow :: "string \<Rightarrow> 'a parse_result" where
  "pthrow msg = Some (Inl msg)"

definition preturn :: "'a \<Rightarrow> stream \<Rightarrow> 'a parse_result" where
  "preturn x st = Some (Inr (x, st))"

definition parse_predicate :: "string \<Rightarrow> stream \<Rightarrow> expression parse_result" where
  "parse_predicate attr st =
     pbind (pnext st) (\<lambda>op st1.
       if tok_id op \<noteq> OPERATOR then pthrow ''First operand must be followed by operator in all predicates''
       else pbind (pnext st1) (\<lambda>operand st2.
         if tok_id operand \<noteq> OPERAND then pthrow ''Operand must be followed by operator in all predicates''
         else preturn (Predicate attr (tok_value op) (tok_value operand)) st2))"

fun parse_exp :: "nat \<Rightarrow> stream \<Rightarrow> expression parse_result"
  and parse_ors :: "nat \<Rightarrow> expression list \<Rightarrow> stream \<Rightarrow> expression parse_result"
  and parse_term :: "nat \<Rightarrow> stream \<Rightarrow> expression parse_result"
  and parse_ands :: "nat \<Rightarrow> expression list \<Rightarrow> stream \<Rightarrow> expression parse_result"
  and parse_factor :: "nat \<Rightarrow> stream \<Rightarrow> expression parse_result" where
  "parse_exp 0 st = None"
| "parse_exp (Suc n) st =
     pbind (parse_term n st) (\<lambda>t st1. pbind (ppeek st1) (\<lambda>tk st2.
       if tok_id tk \<noteq> OR_TOK then preturn t st2 else parse_ors n [t] st2))"
| "parse_ors 0 acc st = None"
| "parse_ors (Suc n) acc st =
     pbind (ppeek st) (\<lambda>tk st1.
       if tok_id tk = OR_TOK
       then pbind (pnext st1) (\<lambda>_ st2. pbind (parse_term n st2) (\<lambda>t st3. parse_ors n (acc @ [t]) st3))
       else preturn (Disj acc) st1)"
| "parse_term 0 st = None"
| "parse_term (Suc n) st =
     pbind (parse_factor n st) (\<lambda>f st1. pbind (ppeek st1) (\<lambda>tk st2.
       if tok_id tk \<noteq> AND_TOK then preturn f st2 else parse_ands n [f] st2))"
| "parse_ands 0 acc st = None"
| "parse_ands (Suc n) acc st =
     pbind (ppeek st) (\<lambda>tk st1.
       if tok_id tk = AND_TOK
       then pbind (pnext st1) (\<lambda>_ st2. pbind (parse_factor n st2) (\<lambda>f st3. parse_ands n (acc @ [f]) st3))
       else preturn (Conj acc) st1)"
| "parse_factor 0 st = None"
| "parse_factor (Suc n) st =
     pbind (pnext st) (\<lambda>tk st1.
       if tok_id tk = NOT_TOK then
         pbind (parse_factor n st1) (\<lambda>e st2. case negate e of Inl m \<Rightarrow> pthrow m | Inr e' \<Rightarrow> preturn e' st2)
       else if tok_id tk = LEFT then
         pbind (parse_exp n st1) (\<lambda>e st2. pbind (pnext st2) (\<lambda>right st3.
           if tok_id right \<noteq> RIGHT then pthrow ''Could not find matching right parenthesis'' else preturn e st3))
       else if tok_id tk = OPERAND then parse_predicate (tok_value tk) st1
       else pthrow (''Unexpected token '' @ tok_value tk))"

definition parse_fuel :: "string \<Rightarrow> nat" where
  "parse_fuel input = 3 * length input + 3"

definition parse :: "string \<Rightarrow> (string + expression) option" where
  "parse input =
     (case pbind (parse_exp (parse_fuel input) (stream_str input)) (\<lambda>e st. pbind (pnext st) (\<lambda>tk st1.
         if tok_id tk \<noteq> END_TOK then pthrow ''Parsing ended prematurely'' else preturn e st1)) of
        None \<Rightarrow> None | Some (Inl m) \<Rightarrow> Some (Inl m) | Some (Inr (e, _)) \<Rightarrow> Some (Inr e))"

section \<open>Progress of the lexer\<close>

lemma sget_facts:
  "sget st = (c, st') \<Longrightarrow> content st' = content st \<and> spos st \<le> spos st'
     \<and> (c = None \<longrightarrow> failbit st' \<and> spos st' = spos st) \<and> (c \<noteq> None \<longrightarrow> good st' \<and> spos st' = spos st + 1)"
  by (auto simp: sget_def good_def split: if_splits)

lemma sunget_facts:
  "content (sunget st) = content st \<and> spos st \<le> spos (sunget st) + 1 \<and> spos (sunget st) \<le> spos st
     \<and> (failbit st \<longrightarrow> failbit (sunget st) \<and> spos (sunget st) = spos st)"
  by (auto simp: sunget_def good_def Let_def)

lemma sunget_good: "\<not> failbit st \<Longrightarrow> 0 < spos st \<Longrightarrow> sunget st = st\<lparr>eofbit := False, spos := spos st - 1\<rparr>"
  by (simp add: sunget_def good_def)

lemma speek_facts:
  "speek st = (c, st') \<Longrightarrow> content st' = content st \<and> spos st' = spos st \<and> (failbit st' \<longrightarrow> \<not> good st) \<and> (c \<noteq> None \<longrightarrow> st' = st)"
  by (auto simp: speek_def good_def split: if_splits)

lemma peek_is_facts:
  "peek_is P st = (b, st') \<Longrightarrow> content st' = content st \<and> spos st' = spos st \<and> (failbit st' \<longrightarrow> \<not> good st)
     \<and> (b \<longrightarrow> st' = st \<and> good st \<and> spos st < length (content st) \<and> P (content st ! spos st))
     \<and> (\<not> b \<longrightarrow> good st \<longrightarrow> spos st < length (content st) \<longrightarrow> \<not> P (content st ! spos st))"
  by (auto simp: peek_is_def speek_def good_def split: if_splits)

lemma peek_is_snd: "content (snd (peek_is P st)) = content st" "spos (snd (peek_is P st)) = spos st"
  by (auto simp: peek_is_def speek_def)

lemma peek_is_True:
  "fst (peek_is P st) \<Longrightarrow> good st \<and> spos st < length (content st) \<and> P (content st ! spos st)"
  by (auto simp: peek_is_def speek_def split: if_splits)

lemma skip_space_rec:
  assumes "good st" "spos st < length (content st)" "is_space (content st ! spos st)"
  shows "skip_space st = skip_space (st\<lparr>spos := spos st + 1\<rparr>)"
  using assms by (simp add: skip_space.simps [of st] peek_is_def speek_def sget_def)

lemma skip_space_stop:
  assumes "\<not> fst (peek_is is_space st)"
  shows "skip_space st = snd (peek_is is_space st)"
  using assms by (cases "peek_is is_space st") (simp add: skip_space.simps [of st])

lemma skip_space_facts: "content (skip_space st) = content st \<and> spos st \<le> spos (skip_space st)"
proof (induction "length (content st) - spos st" arbitrary: st)
  case 0
  then have "\<not> fst (peek_is is_space st)" using peek_is_True by fastforce
  then show ?case by (simp add: skip_space_stop peek_is_snd)
next
  case (Suc n)
  show ?case
  proof (cases "fst (peek_is is_space st)")
    case True
    then have "skip_space st = skip_space (st\<lparr>spos := spos st + 1\<rparr>)" using peek_is_True skip_space_rec by blast
    moreover have "n = length (content (st\<lparr>spos := spos st + 1\<rparr>)) - spos (st\<lparr>spos := spos st + 1\<rparr>)"
      using Suc.hyps(2) by simp
    ultimately show ?thesis using Suc.hyps(1) by fastforce
  next
    case False
    then show ?thesis by (simp add: skip_space_stop peek_is_snd)
  qed
qed

lemma read_operand_rec:
  assumes "good st" "spos st < length (content st)" "opvalid (content st ! spos st)"
  shows "read_operand st = (case read_operand (st\<lparr>spos := spos st + 1\<rparr>) of (s, st') \<Rightarrow> (content st ! spos st # s, st'))"
  using assms by (simp add: read_operand.simps [of st] peek_is_def speek_def sget_def)

lemma read_operand_stop:
  assumes "\<not> fst (peek_is opvalid st)"
  shows "read_operand st = ([], snd (peek_is opvalid st))"
  using assms by (cases "peek_is opvalid st") (simp add: read_operand.simps [of st])

lemma read_operand_facts:
  "content (snd (read_operand st)) = content st \<and> spos (snd (read_operand st)) = spos st + length (fst (read_operand st))"
proof (induction "length (content st) - spos st" arbitrary: st)
  case 0
  then have "\<not> fst (peek_is opvalid st)" by (auto simp: peek_is_def speek_def)
  then show ?case by (simp add: read_operand_stop peek_is_snd)
next
  case (Suc n)
  show ?case
  proof (cases "fst (peek_is opvalid st)")
    case True
    then have st: "good st" "spos st < length (content st)" "opvalid (content st ! spos st)"
      using peek_is_True by blast+
    have "n = length (content (st\<lparr>spos := spos st + 1\<rparr>)) - spos (st\<lparr>spos := spos st + 1\<rparr>)"
      using Suc.hyps(2) by simp
    from Suc.hyps(1) [OF this] show ?thesis
      unfolding read_operand_rec [OF st] by (cases "read_operand (st\<lparr>spos := spos st + 1\<rparr>)") simp
  next
    case False
    then show ?thesis by (simp add: read_operand_stop peek_is_snd)
  qed
qed

lemma read_operand_nonempty:
  "good st \<Longrightarrow> spos st < length (content st) \<Longrightarrow> opvalid (content st ! spos st) \<Longrightarrow> fst (read_operand st) \<noteq> []"
  by (simp add: read_operand_rec split: prod.split)

lemma follows_n_facts:
  assumes "follows_n st = (b, st')"
  shows "content st' = content st \<and> spos st \<le> spos st' \<and> (b \<longrightarrow> spos st' = spos st + 1 \<and> good st')
    \<and> (\<not> b \<longrightarrow> spos st' = spos st)"
proof -
  obtain c st1 where g: "sget st = (c, st1)" by fastforce
  obtain b2 st2 where p: "peek_is is_space st1 = (b2, st2)" by fastforce
  note f = sget_facts [OF g] peek_is_facts [OF p]
  have "\<not> failbit st1 \<Longrightarrow> spos st1 = spos st + 1 \<Longrightarrow> spos (sunget st1) = spos st" by (simp add: sunget_good)
  moreover have "\<not> failbit st2 \<Longrightarrow> spos st2 = spos st + 1 \<Longrightarrow> spos (sunget st2) = spos st" by (simp add: sunget_good)
  ultimately show ?thesis
    using assms g p f sunget_facts [of st1] sunget_facts [of st2]
    by (cases "c = Some CHR ''n''"; cases c; cases b2) (auto simp: follows_n_def good_def)
qed

text \<open>
  A token consumes at least as many characters as it has, and at least one unless it is the end
  token; putting it back never moves the stream behind the place where it was read.
\<close>

definition consumes :: "stream \<Rightarrow> nat \<Rightarrow> lex_token lex_result \<Rightarrow> bool" where
  "consumes st p r \<longleftrightarrow> (case r of Inl _ \<Rightarrow> True | Inr (t, st') \<Rightarrow>
     content st' = content st \<and> p + length (tok_value t) \<le> spos st' \<and> p < spos st')"

lemma doubled_consumes: "length v = 2 \<Longrightarrow> spos st = Suc p \<Longrightarrow> consumes st p (doubled c msg i v st)"
  by (cases "sget st") (auto simp: doubled_def consumes_def tok_def dest!: sget_facts)

lemma or_equal_consumes: "length op = 1 \<Longrightarrow> spos st = Suc p \<Longrightarrow> consumes st p (or_equal op st)"
proof (cases "sget st")
  case (Pair c st')
  assume a: "length op = 1" "spos st = Suc p"
  show ?thesis
    using Pair a sget_facts [OF Pair] sunget_facts [of st'] by (cases c) (auto simp: or_equal_def consumes_def tok_def)
qed

lemma lex_not_consumes: "spos st = Suc p \<Longrightarrow> consumes st p (lex_not st)"
proof (cases "sget st")
  case (Pair c st1)
  assume a: "spos st = Suc p"
  obtain b st2 where f: "follows_n st1 = (b, st2)" by fastforce
  show ?thesis
    using Pair a f sget_facts [OF Pair] follows_n_facts [OF f] sunget_facts [of st1] sunget_facts [of st2]
    by (cases c; cases b) (auto simp: lex_not_def consumes_def tok_def)
qed

lemma lex_operand_consumes:
  assumes "spos st = Suc p" "p < length (content st)" "opvalid (content st ! p)"
  shows "consumes st p (lex_operand st)"
proof (cases "failbit st")
  case True
  then show ?thesis
    using assms(1) sunget_facts [of st] read_operand_facts [of "sunget st"]
    by (auto simp: lex_operand_def consumes_def tok_def split: prod.split)
next
  case False
  then have u: "sunget st = st\<lparr>eofbit := False, spos := p\<rparr>" using assms(1) by (simp add: sunget_good)
  have "fst (read_operand (sunget st)) \<noteq> []"
    using False assms by (intro read_operand_nonempty) (simp_all add: u good_def)
  then show ?thesis
    using read_operand_facts [of "sunget st"] u by (auto simp: lex_operand_def consumes_def tok_def split: prod.split)
qed

lemma lex_word_consumes:
  assumes "spos st = Suc p" "p < length (content st)" "content st ! p = ch"
  shows "consumes st p (lex_word ch st)"
proof (cases "follows_n st")
  case (Pair b st1)
  have c: "content st1 = content st" using follows_n_facts [OF Pair] by simp
  have "consumes st1 p (lex_operand st1)" if "\<not> b" "opvalid ch"
    using lex_operand_consumes [of st1 p] follows_n_facts [OF Pair] assms that by simp
  then have "consumes st p (lex_operand st1)" if "\<not> b" "opvalid ch"
    using that c by (auto simp: consumes_def split: sum.splits)
  moreover have "consumes st p (Inl m)" for m by (simp add: consumes_def)
  moreover have "consumes st p (Inr (tok OPERATOR ''in'', st1))" if b
    using that follows_n_facts [OF Pair] assms(1) by (simp add: consumes_def tok_def)
  ultimately show ?thesis
    using Pair lex_operand_consumes [OF assms(1,2)] assms(3) by (simp add: lex_word_def)
qed

lemma lex_from_progress:
  assumes "spos st = Suc p" "p < length (content st)" "content st ! p = ch" "lex_from ch st = Inr (t, st')"
  shows "content st' = content st \<and> p + length (tok_value t) \<le> spos st' \<and> p < spos st'"
proof -
  have "consumes st p (lex_from ch st)"
    unfolding lex_from_def using assms(1)
    by (simp add: doubled_consumes or_equal_consumes lex_not_consumes lex_word_consumes [OF assms(1-3)])
      (simp add: consumes_def tok_def)
  then show ?thesis using assms(4) by (simp add: consumes_def)
qed

lemma next_token_progress:
  assumes "next_token st = Inr (t, st')"
  shows "content st' = content st \<and> spos st + length (tok_value t) \<le> spos st'
    \<and> (tok_id t \<noteq> END_TOK \<longrightarrow> spos st < spos st' \<and> spos st < length (content st))"
proof (cases "sget (skip_space st)")
  case (Pair c st1)
  note sk = skip_space_facts [of st]
  show ?thesis
  proof (cases c)
    case None
    then show ?thesis using assms Pair sget_facts [OF Pair] sk by (auto simp: next_token_def tok_def)
  next
    case (Some ch)
    have p: "spos st1 = Suc (spos (skip_space st))" "spos (skip_space st) < length (content st1)"
      "content st1 ! spos (skip_space st) = ch"
      using Pair Some by (auto simp: sget_def split: if_splits)
    have "lex_from ch st1 = Inr (t, st')" using assms Pair Some by (simp add: next_token_def)
    from lex_from_progress [OF p this] show ?thesis using sget_facts [OF Pair] sk p(2) by auto
  qed
qed

lemma put_back_facts:
  "content ((sunget ^^ n) st) = content st \<and> spos st \<le> spos ((sunget ^^ n) st) + n \<and> spos ((sunget ^^ n) st) \<le> spos st"
proof (induction n)
  case (Suc n)
  then show ?case using sunget_facts [of "(sunget ^^ n) st"] by auto
qed simp

lemma peek_token_progress:
  assumes "peek_token st = Inr (t, st')"
  shows "content st' = content st \<and> spos st \<le> spos st'"
proof -
  obtain st1 where n: "next_token st = Inr (t, st1)" "st' = put_back t st1"
    using assms by (auto simp: peek_token_def split: sum.splits prod.splits)
  show ?thesis using next_token_progress [OF n(1)] put_back_facts [of "length (tok_value t)" st1] n(2)
    by (auto simp: put_back_def)
qed

section \<open>Termination\<close>

definition srem :: "stream \<Rightarrow> nat" where
  "srem st = length (content st) - spos st"

text \<open>A parser that gives a result, and never moves back.\<close>

definition returns :: "nat \<Rightarrow> 'a parse_result \<Rightarrow> bool" where
  "returns k r \<longleftrightarrow> r \<noteq> None \<and> (\<forall>x st'. r = Some (Inr (x, st')) \<longrightarrow> srem st' \<le> k)"

lemma returns_mono: "returns k r \<Longrightarrow> k \<le> k' \<Longrightarrow> returns k' r"
  by (force simp: returns_def)

lemma returns_simps [simp]: "returns k (pthrow m)" "returns k (preturn x st) \<longleftrightarrow> srem st \<le> k"
  by (auto simp: returns_def pthrow_def preturn_def)

lemma returns_bind:
  assumes "returns j r" "\<And>x st'. r = Some (Inr (x, st')) \<Longrightarrow> srem st' \<le> j \<Longrightarrow> returns k (f x st')"
  shows "returns k (pbind r f)"
proof -
  obtain y where y: "r = Some y" using assms(1) by (auto simp: returns_def)
  show ?thesis
  proof (cases y)
    case (Inl e)
    then show ?thesis using y by (simp add: pbind_def returns_def)
  next
    case (Inr q)
    obtain x st' where "q = (x, st')" by fastforce
    then show ?thesis using y Inr assms by (simp add: pbind_def returns_def)
  qed
qed

lemma returns_peek: "returns (srem st) (ppeek st)"
  by (auto simp: returns_def ppeek_def srem_def dest!: peek_token_progress)

lemma returns_next: "returns (srem st) (pnext st)"
  by (auto simp: returns_def pnext_def srem_def dest!: next_token_progress)

lemma next_less: "pnext st = Some (Inr (t, st')) \<Longrightarrow> tok_id t \<noteq> END_TOK \<Longrightarrow> srem st' < srem st"
  by (auto simp: pnext_def srem_def dest!: next_token_progress)

lemma returns_predicate: "returns (srem st) (parse_predicate attr st)"
  unfolding parse_predicate_def
proof (rule returns_bind [OF returns_next])
  fix op st1 assume st1: "srem st1 \<le> srem st"
  have "returns (srem st1) (pbind (pnext st1) (\<lambda>operand st2.
         if tok_id operand \<noteq> OPERAND then pthrow ''Operand must be followed by operator in all predicates''
         else preturn (Predicate attr (tok_value op) (tok_value operand)) st2))"
    by (rule returns_bind [OF returns_next]) simp
  then show "returns (srem st) (if tok_id op \<noteq> OPERATOR then pthrow ''First operand must be followed by operator in all predicates''
       else pbind (pnext st1) (\<lambda>operand st2.
         if tok_id operand \<noteq> OPERAND then pthrow ''Operand must be followed by operator in all predicates''
         else preturn (Predicate attr (tok_value op) (tok_value operand)) st2))"
    using st1 by (auto intro: returns_mono)
qed

text \<open>A peeked \<open>||\<close> or \<open>&&\<close> is the next token.\<close>

lemma tok_simps [simp]: "tok_id (tok i v) = i" "tok_value (tok i v) = v"
  by (simp_all add: tok_def)

lemma doubled_Inr:
  "doubled c msg i v st = Inr (t, st') \<longleftrightarrow> sget st = (Some c, st') \<and> t = tok i v"
  by (auto simp: doubled_def split: prod.splits if_splits)

lemma other_ids:
  "or_equal op st = Inr (t, st') \<Longrightarrow> tok_id t = OPERATOR"
  "lex_not st = Inr (t, st') \<Longrightarrow> tok_id t \<in> {OPERATOR, NOT_TOK}"
  "lex_word ch st = Inr (t, st') \<Longrightarrow> tok_id t \<in> {OPERATOR, OPERAND}"
  by (auto simp: or_equal_def lex_not_def lex_word_def lex_operand_def split: prod.splits if_splits)

lemma lex_from_doubled:
  assumes "lex_from ch st = Inr (t, st')" "tok_id t = OR_TOK \<or> tok_id t = AND_TOK"
  shows "(ch = CHR ''|'' \<and> t = tok OR_TOK ''||'' \<or> ch = CHR ''&'' \<and> t = tok AND_TOK ''&&'') \<and> sget st = (Some ch, st')"
  using assms other_ids unfolding lex_from_def
  by (auto simp: doubled_Inr tok_ids dest!: other_ids split: if_splits)

lemma next_token_at:
  assumes "good st" "spos st < length (content st)" "\<not> is_space (content st ! spos st)"
  shows "next_token st = lex_from (content st ! spos st) (st\<lparr>spos := spos st + 1\<rparr>)"
  using assms by (simp add: next_token_def skip_space.simps [of st] peek_is_def speek_def sget_def)

lemma peek_then_next:
  assumes "peek_token st = Inr (t, st1)" "tok_id t = OR_TOK \<or> tok_id t = AND_TOK"
  shows "\<exists>st2. next_token st1 = Inr (t, st2)"
proof -
  obtain st2 where n: "next_token st = Inr (t, st2)" "st1 = put_back t st2"
    using assms(1) by (auto simp: peek_token_def split: sum.splits prod.splits)
  obtain ch s1 where s1: "sget (skip_space st) = (Some ch, s1)" "lex_from ch s1 = Inr (t, st2)"
    using n(1) assms(2) by (auto simp: next_token_def tok_ids split: prod.splits option.splits)
  note d = lex_from_doubled [OF s1(2) assms(2)]
  define p where "p = spos (skip_space st)"
  have g: "good s1" "spos s1 = Suc p" "content s1 ! p = ch" "p < length (content s1)"
    using s1(1) by (auto simp: sget_def p_def good_def split: if_splits)
  have g2: "st2 = s1\<lparr>spos := Suc (Suc p)\<rparr>" "Suc p < length (content s1)" "content s1 ! Suc p = ch"
    using d g by (auto simp: sget_def split: if_splits)
  have len: "length (tok_value t) = 2" and sp: "\<not> is_space ch" using d by (auto simp: is_space_def)
  have "st1 = s1\<lparr>spos := p\<rparr>"
    using g g2 len unfolding n(2) put_back_def by (simp add: numeral_2_eq_2 sunget_good good_def)
  then have "next_token st1 = lex_from ch (s1\<lparr>spos := Suc p\<rparr>)"
    using g sp by (simp add: next_token_at good_def)
  moreover have "s1\<lparr>spos := Suc p\<rparr> = s1" using g(2) by (cases s1) simp
  ultimately show ?thesis using s1(2) by (simp only:) blast
qed

lemma peeked_next_less:
  assumes "ppeek st = Some (Inr (t, st1))" "tok_id t = OR_TOK \<or> tok_id t = AND_TOK"
    and "pnext st1 = Some (Inr (u, st2))"
  shows "srem st2 < srem st1"
proof (rule next_less [OF assms(3)])
  show "tok_id u \<noteq> END_TOK"
    using peek_then_next [of st t st1] assms by (auto simp: ppeek_def pnext_def tok_ids)
qed

lemma parse_returns:
  "(\<forall>st. 3 * srem st + 3 \<le> n \<longrightarrow> returns (srem st) (parse_exp n st))
   \<and> (\<forall>acc st. 3 * srem st + 1 \<le> n \<longrightarrow> returns (srem st) (parse_ors n acc st))
   \<and> (\<forall>st. 3 * srem st + 2 \<le> n \<longrightarrow> returns (srem st) (parse_term n st))
   \<and> (\<forall>acc st. 3 * srem st + 1 \<le> n \<longrightarrow> returns (srem st) (parse_ands n acc st))
   \<and> (\<forall>st. 3 * srem st + 1 \<le> n \<longrightarrow> returns (srem st) (parse_factor n st))"
proof (induction n)
  case (Suc n)
  have E: "3 * srem st + 3 \<le> n \<Longrightarrow> returns (srem st) (parse_exp n st)"
    and O: "3 * srem st + 1 \<le> n \<Longrightarrow> returns (srem st) (parse_ors n acc st)"
    and T: "3 * srem st + 2 \<le> n \<Longrightarrow> returns (srem st) (parse_term n st)"
    and A: "3 * srem st + 1 \<le> n \<Longrightarrow> returns (srem st) (parse_ands n acc st)"
    and F: "3 * srem st + 1 \<le> n \<Longrightarrow> returns (srem st) (parse_factor n st)" for st acc
    using Suc.IH by blast+
  have "returns (srem st) (parse_exp (Suc n) st)" if "3 * srem st + 3 \<le> Suc n" for st
    unfolding parse_exp.simps
    by (rule returns_bind [OF T], use that in simp, rule returns_bind [OF returns_peek])
      (use that in \<open>auto intro!: returns_mono [OF O]\<close>)
  moreover have "returns (srem st) (parse_term (Suc n) st)" if "3 * srem st + 2 \<le> Suc n" for st
    unfolding parse_term.simps
    by (rule returns_bind [OF F], use that in simp, rule returns_bind [OF returns_peek])
      (use that in \<open>auto intro!: returns_mono [OF A]\<close>)
  moreover have "returns (srem st) (parse_ors (Suc n) acc st)" if le: "3 * srem st + 1 \<le> Suc n" for st acc
    unfolding parse_ors.simps
  proof (rule returns_bind [OF returns_peek])
    fix tk st1 assume pk: "ppeek st = Some (Inr (tk, st1))" and st1: "srem st1 \<le> srem st"
    have "returns (srem st) (pbind (pnext st1) (\<lambda>_ st2. pbind (parse_term n st2) (\<lambda>t st3. parse_ors n (acc @ [t]) st3)))"
      if or: "tok_id tk = OR_TOK"
    proof (rule returns_bind [OF returns_next])
      fix u st2 assume "pnext st1 = Some (Inr (u, st2))"
      then have st2: "srem st2 < srem st1" using peeked_next_less [OF pk] or by blast
      show "returns (srem st) (pbind (parse_term n st2) (\<lambda>t st3. parse_ors n (acc @ [t]) st3))"
        by (rule returns_bind [OF T]) (use st1 st2 le in \<open>auto intro!: returns_mono [OF O]\<close>)
    qed
    then show "returns (srem st) (if tok_id tk = OR_TOK
       then pbind (pnext st1) (\<lambda>_ st2. pbind (parse_term n st2) (\<lambda>t st3. parse_ors n (acc @ [t]) st3))
       else preturn (Disj acc) st1)"
      using st1 by simp
  qed
  moreover have "returns (srem st) (parse_ands (Suc n) acc st)" if le: "3 * srem st + 1 \<le> Suc n" for st acc
    unfolding parse_ands.simps
  proof (rule returns_bind [OF returns_peek])
    fix tk st1 assume pk: "ppeek st = Some (Inr (tk, st1))" and st1: "srem st1 \<le> srem st"
    have "returns (srem st) (pbind (pnext st1) (\<lambda>_ st2. pbind (parse_factor n st2) (\<lambda>t st3. parse_ands n (acc @ [t]) st3)))"
      if or: "tok_id tk = AND_TOK"
    proof (rule returns_bind [OF returns_next])
      fix u st2 assume "pnext st1 = Some (Inr (u, st2))"
      then have st2: "srem st2 < srem st1" using peeked_next_less [OF pk] or by blast
      show "returns (srem st) (pbind (parse_factor n st2) (\<lambda>t st3. parse_ands n (acc @ [t]) st3))"
        by (rule returns_bind [OF F]) (use st1 st2 le in \<open>auto intro!: returns_mono [OF A]\<close>)
    qed
    then show "returns (srem st) (if tok_id tk = AND_TOK
       then pbind (pnext st1) (\<lambda>_ st2. pbind (parse_factor n st2) (\<lambda>t st3. parse_ands n (acc @ [t]) st3))
       else preturn (Conj acc) st1)"
      using st1 by simp
  qed
  moreover have "returns (srem st) (parse_factor (Suc n) st)" if le: "3 * srem st + 1 \<le> Suc n" for st
    unfolding parse_factor.simps
  proof (rule returns_bind [OF returns_next])
    fix tk st1 assume nx: "pnext st = Some (Inr (tk, st1))" and st1: "srem st1 \<le> srem st"
    have less: "srem st1 < srem st" if "tok_id tk \<noteq> END_TOK" using next_less [OF nx that] .
    have "returns (srem st) (pbind (parse_factor n st1) (\<lambda>e st2. case negate e of Inl m \<Rightarrow> pthrow m | Inr e' \<Rightarrow> preturn e' st2))"
      if "tok_id tk = NOT_TOK"
      by (rule returns_bind [OF F]) (use that less le in \<open>auto simp: tok_ids split: sum.split\<close>)
    moreover have "returns (srem st) (pbind (parse_exp n st1) (\<lambda>e st2. pbind (pnext st2) (\<lambda>right st3.
           if tok_id right \<noteq> RIGHT then pthrow ''Could not find matching right parenthesis'' else preturn e st3)))"
      if "tok_id tk = LEFT"
      by (rule returns_bind [OF E], use that less le in \<open>simp add: tok_ids\<close>, rule returns_bind [OF returns_next])
        (use that less in \<open>auto simp: tok_ids\<close>)
    moreover have "returns (srem st) (parse_predicate (tok_value tk) st1)"
      by (rule returns_mono [OF returns_predicate st1])
    ultimately show "returns (srem st) (if tok_id tk = NOT_TOK then
         pbind (parse_factor n st1) (\<lambda>e st2. case negate e of Inl m \<Rightarrow> pthrow m | Inr e' \<Rightarrow> preturn e' st2)
       else if tok_id tk = LEFT then
         pbind (parse_exp n st1) (\<lambda>e st2. pbind (pnext st2) (\<lambda>right st3.
           if tok_id right \<noteq> RIGHT then pthrow ''Could not find matching right parenthesis'' else preturn e st3))
       else if tok_id tk = OPERAND then parse_predicate (tok_value tk) st1
       else pthrow (''Unexpected token '' @ tok_value tk))"
      by auto
  qed
  ultimately show ?case by blast
qed simp

lemma parse_total: "parse input \<noteq> None"
proof -
  have "3 * srem (stream_str input) + 3 \<le> parse_fuel input" by (simp add: srem_def stream_str_def parse_fuel_def)
  then have "returns (srem (stream_str input)) (parse_exp (parse_fuel input) (stream_str input))"
    using parse_returns [of "parse_fuel input"] by blast
  then have "returns (srem (stream_str input)) (pbind (parse_exp (parse_fuel input) (stream_str input)) (\<lambda>e st. pbind (pnext st) (\<lambda>tk st1.
         if tok_id tk \<noteq> END_TOK then pthrow ''Parsing ended prematurely'' else preturn e st1)))"
    by (rule returns_bind) (rule returns_bind [OF returns_next], auto)
  then show ?thesis by (auto simp: parse_def returns_def split: option.split sum.split)
qed

text \<open>
  C35. Parsing terminates. For every input string the fuel given to the recursive descent is
  enough: the parser returns an expression or throws a parse exception.
\<close>

theorem parse_terminates: "parse input \<noteq> None"
  by (rule parse_total)

section \<open>Negation normal form\<close>

definition valid_op :: "string \<Rightarrow> bool" where
  "valid_op op \<longleftrightarrow> op \<in> set [''=='', ''!='', ''<'', ''>'', ''<='', ''>='', ''in'', ''!in'']"

text \<open>A meaning of predicates under which the operators come in complementary pairs.\<close>

definition complementary :: "(string \<Rightarrow> string \<Rightarrow> string \<Rightarrow> bool) \<Rightarrow> bool" where
  "complementary v \<longleftrightarrow> (\<forall>attr op op' val. negate_op op = Inr op' \<longrightarrow> v attr op' val = (\<not> v attr op val))"

lemma negate_op_valid: "valid_op op \<Longrightarrow> \<exists>op'. negate_op op = Inr op' \<and> valid_op op' \<and> negate_op op' = Inr op"
  by (auto simp: valid_op_def negate_op_def)

lemma negate_spec:
  "nnf valid_op e \<Longrightarrow> \<exists>e'. negate e = Inr e' \<and> nnf valid_op e' \<and> negate e' = Inr e
     \<and> (complementary v \<longrightarrow> eval v e' = (\<not> eval v e))"
  "list_all (nnf valid_op) es \<Longrightarrow> \<exists>es'. negate_list es = Inr es' \<and> list_all (nnf valid_op) es' \<and> negate_list es' = Inr es
     \<and> (complementary v \<longrightarrow> list_all (eval v) es' = (\<not> list_ex (eval v) es) \<and> list_ex (eval v) es' = (\<not> list_all (eval v) es))"
proof (induction e and es rule: negate_negate_list.induct)
  case (4 attr op val)
  obtain op' where op': "negate_op op = Inr op'" "valid_op op'" "negate_op op' = Inr op"
    using negate_op_valid [of op] 4 by auto
  have "complementary v \<Longrightarrow> v attr op' val = (\<not> v attr op val)" using op'(1) unfolding complementary_def by blast
  then show ?case using op' by simp
next
  case (6 e es)
  then show ?case by fastforce
qed fastforce+

text \<open>
  C37. Negation by De Morgan. On an expression of the form the parser builds (no negation nodes,
  only the eight operators) \<^verbatim>\<open>negate\<close> does not throw; its result has the same form, is true exactly where the expression is
  false, for every meaning of predicates in which an operator and its negation are complementary, and
  negating it again gives the expression back.
\<close>

theorem negate_complements:
  "nnf valid_op e \<Longrightarrow> \<exists>e'. negate e = Inr e' \<and> nnf valid_op e' \<and> negate e' = Inr e
     \<and> (complementary v \<longrightarrow> eval v e' = (\<not> eval v e))"
  by (rule negate_spec(1))

lemma complementary_example: "complementary (\<lambda>attr op val. op \<in> set [''=='', ''<'', ''>'', ''in''])"
  by (auto simp: complementary_def negate_op_def split: if_splits)

theorem negate_complements_witness:
  "\<exists>e'. negate (Conj [Predicate ''src_port'' ''=='' ''80'', Predicate ''dst_ip'' ''!in'' ''10.0.0.0/8'']) = Inr e'
     \<and> nnf valid_op e' \<and> eval (\<lambda>attr op val. op \<in> set [''=='', ''<'', ''>'', ''in'']) e'"
  using negate_complements [of "Conj [Predicate ''src_port'' ''=='' ''80'', Predicate ''dst_ip'' ''!in'' ''10.0.0.0/8'']",
      where v = "\<lambda>attr op val. op \<in> set [''=='', ''<'', ''>'', ''in'']"] complementary_example
  by (auto simp: valid_op_def)

text \<open>The operators the lexer produces, and the shape of what the parser builds.\<close>

lemma operator_values:
  assumes "next_token st = Inr (t, st')" "tok_id t = OPERATOR"
  shows "valid_op (tok_value t)"
proof -
  obtain ch s1 where "lex_from ch s1 = Inr (t, st')"
    using assms by (auto simp: next_token_def tok_ids split: prod.splits option.splits)
  then show ?thesis
    using assms(2) unfolding lex_from_def
    by (auto simp: doubled_Inr or_equal_def lex_not_def lex_word_def lex_operand_def valid_op_def tok_ids
        split: if_splits prod.splits)
qed

definition yields :: "('a \<Rightarrow> bool) \<Rightarrow> 'a parse_result \<Rightarrow> bool" where
  "yields P r \<longleftrightarrow> (\<forall>x st'. r = Some (Inr (x, st')) \<longrightarrow> P x)"

lemma yields_simps [simp]: "yields P None" "yields P (pthrow m)" "yields P (preturn x st) \<longleftrightarrow> P x"
  by (auto simp: yields_def pthrow_def preturn_def)

lemma yields_bind:
  "yields Q r \<Longrightarrow> (\<And>x st'. r = Some (Inr (x, st')) \<Longrightarrow> Q x \<Longrightarrow> yields P (f x st')) \<Longrightarrow> yields P (pbind r f)"
  by (auto simp: yields_def pbind_def split: option.splits sum.splits prod.splits)

lemma yields_True: "yields (\<lambda>_. True) r"
  by (simp add: yields_def)

lemma yields_predicate: "yields (nnf valid_op) (parse_predicate attr st)"
  unfolding parse_predicate_def
  by (intro yields_bind [OF yields_True]) (auto simp: pnext_def operator_values intro!: yields_bind [OF yields_True])

lemma parse_nnf:
  "yields (nnf valid_op) (parse_exp n st)"
  "list_all (nnf valid_op) acc \<Longrightarrow> yields (nnf valid_op) (parse_ors n acc st)"
  "yields (nnf valid_op) (parse_term n st)"
  "list_all (nnf valid_op) acc \<Longrightarrow> yields (nnf valid_op) (parse_ands n acc st)"
  "yields (nnf valid_op) (parse_factor n st)"
proof (induction n arbitrary: st acc)
  case (Suc n)
  show "yields (nnf valid_op) (parse_exp (Suc n) st)" for st
    unfolding parse_exp.simps
    by (rule yields_bind [OF Suc.IH(3)], rule yields_bind [OF yields_True]) (simp add: Suc.IH)
  show "yields (nnf valid_op) (parse_term (Suc n) st)" for st
    unfolding parse_term.simps
    by (rule yields_bind [OF Suc.IH(5)], rule yields_bind [OF yields_True]) (simp add: Suc.IH)
  show "yields (nnf valid_op) (parse_ors (Suc n) acc st)" if "list_all (nnf valid_op) acc" for st acc
    unfolding parse_ors.simps using that
    by (intro yields_bind [OF yields_True]) (auto intro!: yields_bind [OF yields_True] yields_bind [OF Suc.IH(3)] Suc.IH)
  show "yields (nnf valid_op) (parse_ands (Suc n) acc st)" if "list_all (nnf valid_op) acc" for st acc
    unfolding parse_ands.simps using that
    by (intro yields_bind [OF yields_True]) (auto intro!: yields_bind [OF yields_True] yields_bind [OF Suc.IH(5)] Suc.IH)
  have neg: "yields (nnf valid_op) (case negate e of Inl m \<Rightarrow> pthrow m | Inr e' \<Rightarrow> preturn e' st2)"
    if "nnf valid_op e" for e st2
    using negate_spec(1) [OF that, of "\<lambda>_ _ _. True"] by (elim exE conjE) simp
  have N: "yields (nnf valid_op) (pbind (parse_factor n st1) (\<lambda>e st2. case negate e of Inl m \<Rightarrow> pthrow m | Inr e' \<Rightarrow> preturn e' st2))" for st1
    by (rule yields_bind [OF Suc.IH(5)]) (rule neg)
  have L: "yields (nnf valid_op) (pbind (parse_exp n st1) (\<lambda>e st2. pbind (pnext st2) (\<lambda>right st3.
      if tok_id right \<noteq> RIGHT then pthrow ''Could not find matching right parenthesis'' else preturn e st3)))" for st1
    by (rule yields_bind [OF Suc.IH(1)], rule yields_bind [OF yields_True]) simp
  show "yields (nnf valid_op) (parse_factor (Suc n) st)" for st
    unfolding parse_factor.simps by (rule yields_bind [OF yields_True]) (simp only: N L yields_predicate yields_simps split: if_split, simp)
qed simp_all

text \<open>
  C36. Whatever the parser accepts, the tree it builds has no negation nodes (negations are pushed
  to the operators while parsing) and its operators are the eight of the language.
\<close>

theorem parse_builds_nnf: "parse input = Some (Inr e) \<Longrightarrow> nnf valid_op e"
proof -
  have "yields (nnf valid_op) (pbind (parse_exp (parse_fuel input) (stream_str input)) (\<lambda>e st. pbind (pnext st) (\<lambda>tk st1.
         if tok_id tk \<noteq> END_TOK then pthrow ''Parsing ended prematurely'' else preturn e st1)))"
    by (rule yields_bind [OF parse_nnf(1)], rule yields_bind [OF yields_True]) simp
  then show "parse input = Some (Inr e) \<Longrightarrow> nnf valid_op e"
    by (auto simp: parse_def yields_def split: option.splits sum.splits)
qed

lemma parse_examples:
  "parse ''!(a==1 || b in x)'' = Some (Inr (Conj [Predicate ''a'' ''!='' ''1'', Predicate ''b'' ''!in'' ''x'']))"
  "parse ''a == 1 <'' = Some (Inr (Predicate ''a'' ''=='' ''1''))"
  "parse ''a == i'' = Some (Inr (Predicate ''a'' ''=='' []))"
  by code_simp+

theorem parse_builds_nnf_witness:
  "parse ''!(a==1 || b in x)'' = Some (Inr (Conj [Predicate ''a'' ''!='' ''1'', Predicate ''b'' ''!in'' ''x'']))
   \<and> nnf valid_op (Conj [Predicate ''a'' ''!='' ''1'', Predicate ''b'' ''!in'' ''x''])"
  using parse_examples(1) parse_builds_nnf [OF parse_examples(1)] by blast

end
