(* ===== verification/Netplay_Utils.thy ===== *)
theory Netplay_Utils
  imports Packet_Store Query_Parser
begin

unbundle bit_operations_syntax

section \<open>From predicates to ranges (netplay_utils.h)\<close>

text \<open>
  Predicates become ranges of index keys, conjunctions of predicates become clauses, and clauses
  become packet filters. A result is \<open>Inl msg\<close> for the exception \<open>parse_exception(msg)\<close>;
  \<open>None\<close> is undefined behaviour: a mask index out of bounds, or an address that \<open>sscanf\<close> does not
  convert completely or not to four values of eight bits, which leaves indeterminate bytes.
\<close>

type_synonym 'a result = "(string + 'a) option"

definition rthrow :: "string \<Rightarrow> 'a result" where
  "rthrow msg = Some (Inl msg)"

definition rreturn :: "'a \<Rightarrow> 'a result" where
  "rreturn x = Some (Inr x)"

definition rbind :: "'a result \<Rightarrow> ('a \<Rightarrow> 'b result) \<Rightarrow> 'b result" where
  "rbind r f = (case r of None \<Rightarrow> None | Some (Inl e) \<Rightarrow> Some (Inl e) | Some (Inr x) \<Rightarrow> f x)"

subsection \<open>Numbers in strings\<close>

definition is_digit :: "char \<Rightarrow> bool" where
  "is_digit c \<longleftrightarrow> 48 \<le> (of_char c :: nat) \<and> (of_char c :: nat) \<le> 57"

definition dec_value :: "string \<Rightarrow> nat" where
  "dec_value ds = foldl (\<lambda>v c. 10 * v + (of_char c - 48)) 0 ds"

text \<open>
  An optionally signed decimal number after white space, as \<open>strtol\<close> and \<open>%u\<close> read it, with the rest of the
  string; \<open>None\<close> if there is no digit.
\<close>

definition scan_number :: "string \<Rightarrow> (int \<times> string) option" where
  "scan_number str =
     (let s = dropWhile is_space str;
          neg = (s \<noteq> [] \<and> hd s = CHR ''-'');
          body = (if s \<noteq> [] \<and> (hd s = CHR ''-'' \<or> hd s = CHR ''+'') then tl s else s);
          ds = takeWhile is_digit body
      in if ds = [] then None
         else Some (if neg then - int (dec_value ds) else int (dec_value ds), dropWhile is_digit body))"

text \<open>\<open>std::stoi\<close> and \<open>std::stol\<close> throw when there is no number or it does not fit.\<close>

definition stoi :: "string \<Rightarrow> int option" where
  "stoi str = do { (v, _) \<leftarrow> scan_number str; (if - (2 ^ 31) \<le> v \<and> v < 2 ^ 31 then Some v else None) }"

definition stol :: "string \<Rightarrow> int option" where
  "stol str = do { (v, _) \<leftarrow> scan_number str; (if - (2 ^ 63) \<le> v \<and> v < 2 ^ 63 then Some v else None) }"

subsection \<open>Addresses\<close>

text \<open>\<open>%hhu\<close>, and \<open>%hhu.%hhu.%hhu.%hhu\<close> with the first value in \<open>tmp[3]\<close>.\<close>

definition scan_hhu :: "string \<Rightarrow> (u8 \<times> string) option" where
  "scan_hhu str = do {
     (v, rest) \<leftarrow> scan_number str;
     (if 0 \<le> v \<and> v < 256 then Some (of_int v, rest) else None) }"

definition scan_dot :: "string \<Rightarrow> string option" where
  "scan_dot str = (case str of c # cs \<Rightarrow> if c = CHR ''.'' then Some cs else None | [] \<Rightarrow> None)"

definition ip_string_to_uint32 :: "string \<Rightarrow> u32 option" where
  "ip_string_to_uint32 ip = do {
     (tmp3, r3) \<leftarrow> scan_hhu ip;
     d3 \<leftarrow> scan_dot r3;
     (tmp2, r2) \<leftarrow> scan_hhu d3;
     d2 \<leftarrow> scan_dot r2;
     (tmp1, r1) \<leftarrow> scan_hhu d2;
     d1 \<leftarrow> scan_dot r1;
     (tmp0, _) \<leftarrow> scan_hhu d1;
     Some (ucast tmp0 OR push_bit 8 (ucast tmp1) OR push_bit 16 (ucast tmp2) OR push_bit 24 (ucast tmp3)) }"

definition ip_prefix_mask :: "u32 list" where
  "ip_prefix_mask = [
     0x00000000, 0x80000000, 0xC0000000, 0xE0000000, 0xF0000000, 0xF8000000, 0xFC000000, 0xFE000000, 0xFF000000,
     0xFF800000, 0xFFC00000, 0xFFE00000, 0xFFF00000, 0xFFF80000, 0xFFFC0000, 0xFFFE0000, 0xFFFF0000, 0xFFFF8000,
     0xFFFFC000, 0xFFFFE000, 0xFFFFF000, 0xFFFFF800, 0xFFFFFC00, 0xFFFFFE00, 0xFFFFFF00, 0xFFFFFF80, 0xFFFFFFC0,
     0xFFFFFFE0, 0xFFFFFFF0, 0xFFFFFFF8, 0xFFFFFFFC, 0xFFFFFFFE, 0xFFFFFFFF]"

definition mask_at :: "nat \<Rightarrow> u32 option" where
  "mask_at i = (if i < length ip_prefix_mask then Some (ip_prefix_mask ! i) else None)"

definition malformed_ip :: "string \<Rightarrow> string" where
  "malformed_ip str = ''Malformed IP range: '' @ str"

definition ip_range :: "string \<Rightarrow> tok_range result" where
  "ip_range ip_string =
     (let addr = takeWhile (\<lambda>c. c \<noteq> CHR ''/'') ip_string;
          rest = dropWhile (\<lambda>c. c \<noteq> CHR ''/'') ip_string
      in if rest = [] then rthrow (malformed_ip ip_string)
         else (case stoi (tl rest) of
             None \<Rightarrow> rthrow (malformed_ip ip_string)
           | Some v \<Rightarrow>
               (let prefix = nat (take_bit 32 v) in do {
                  ip \<leftarrow> ip_string_to_uint32 addr;
                  m1 \<leftarrow> mask_at prefix;
                  m2 \<leftarrow> mask_at (nat (take_bit 32 (32 - int prefix)));
                  rreturn (unat (ip AND m1), unat (ip OR NOT m2)) })))"

definition mk_filter :: "nat \<Rightarrow> tok_range \<Rightarrow> index_filter" where
  "mk_filter iid r = \<lparr>f_index_id = iid, f_tok_range = r\<rparr>"

definition ip_filter :: "nat \<Rightarrow> string \<Rightarrow> string \<Rightarrow> index_filter result" where
  "ip_filter iid op ip_string =
     (if op = ''in'' then rbind (ip_range ip_string) (\<lambda>r. rreturn (mk_filter iid r))
      else if op = ''!in'' then rbind (ip_range ip_string) (\<lambda>r. rreturn (mk_filter iid r))
      else if op = ''=='' then do { ip \<leftarrow> ip_string_to_uint32 ip_string; rreturn (mk_filter iid (unat ip, unat ip)) }
      else if op = ''!='' then do { ip \<leftarrow> ip_string_to_uint32 ip_string; rreturn (mk_filter iid (unat ip, unat ip)) }
      else rthrow ''Specify IP ranges with prefix notation'')"

subsection \<open>Ports and times\<close>

text \<open>\<open>port - 1\<close> is an \<open>int\<close>, so \<open>0 - 1\<close> becomes the largest \<open>uint64_t\<close>.\<close>

definition port_filter :: "nat \<Rightarrow> string \<Rightarrow> string \<Rightarrow> index_filter result" where
  "port_filter iid op port_string =
     (case stoi port_string of
        None \<Rightarrow> rthrow (''Malformed port string: '' @ port_string)
      | Some v \<Rightarrow>
          (let port = nat (take_bit 16 v) in
           if op = ''=='' then rreturn (mk_filter iid (port, port))
           else if op = ''!='' then rreturn (mk_filter iid (port, port))
           else if op = ''<'' then rreturn (mk_filter iid (0, nat (take_bit 64 (int port - 1))))
           else if op = ''<='' then rreturn (mk_filter iid (0, port))
           else if op = ''>'' then rreturn (mk_filter iid (port + 1, UINT16_MAX))
           else if op = ''>='' then rreturn (mk_filter iid (port, UINT16_MAX))
           else rthrow ''Specify port ranges with <,>,<=,>= operators''))"

fun find_sub :: "string \<Rightarrow> string \<Rightarrow> nat \<Rightarrow> nat option" where
  "find_sub pat [] i = (if pat = [] then Some i else None)"
| "find_sub pat (c # cs) i = (if take (length pat) (c # cs) = pat then Some i else find_sub pat cs (i + 1))"

definition relative_time_msg :: string where
  "relative_time_msg = ''Malformed relative time value; format: now[-value]''"

definition time_value :: "string \<Rightarrow> string \<Rightarrow> nat \<Rightarrow> nat result" where
  "time_value op time_string now =
     (case find_sub ''now'' time_string 0 of
        Some loc \<Rightarrow>
          (if loc \<noteq> 0 then rthrow relative_time_msg
           else if length time_string = 3 then
             (if find_sub ''>'' op 0 \<noteq> None then rthrow ''Cannot see into the future'' else rreturn now)
           else if find_sub ''-'' time_string 0 = Some 3 then
             (case stoi (drop 4 time_string) of
                None \<Rightarrow> rthrow relative_time_msg
              | Some v \<Rightarrow> rreturn (nat (take_bit 32 (int now - v))))
           else rthrow relative_time_msg)
      | None \<Rightarrow>
          (case stol time_string of
             None \<Rightarrow> rthrow relative_time_msg
           | Some v \<Rightarrow> rreturn (nat (take_bit 32 v))))"

definition time_filter :: "nat \<Rightarrow> string \<Rightarrow> string \<Rightarrow> nat \<Rightarrow> index_filter result" where
  "time_filter iid op time_string now =
     rbind (time_value op time_string now) (\<lambda>time.
       if op = ''=='' then rreturn (mk_filter iid (time, time))
       else if op = ''!='' then rreturn (mk_filter iid (time, time))
       else if op = ''<'' then rreturn (mk_filter iid (0, nat (take_bit 32 (int time - 1))))
       else if op = ''<='' then rreturn (mk_filter iid (0, time))
       else if op = ''>'' then rreturn (mk_filter iid (take_bit 32 (time + 1), now))
       else if op = ''>='' then rreturn (mk_filter iid (time, now))
       else rthrow ''Specify time ranges with <,>,<=,>= operators'')"

definition build_index_filter :: "packet_store \<Rightarrow> nat \<Rightarrow> string \<Rightarrow> string \<Rightarrow> string \<Rightarrow> index_filter result" where
  "build_index_filter s now attr op val =
     (if attr = ''src_ip'' then ip_filter (srcip_idx_id s) op val
      else if attr = ''dst_ip'' then ip_filter (dstip_idx_id s) op val
      else if attr = ''src_port'' then port_filter (srcport_idx_id s) op val
      else if attr = ''dst_port'' then port_filter (dstport_idx_id s) op val
      else if attr = ''timestamp'' then time_filter (timestamp_idx_id s) op val now
      else rthrow (''Invaild attribute: '' @ attr))"

subsection \<open>Clauses\<close>

type_synonym clause = "index_filter list"

text \<open>
  The inner loop of \<open>reduce_clause\<close> takes the later filters of the same index out of the
  clause and intersects their ranges; the outer loop stops at an empty range, leaving the rest.
\<close>

fun absorb :: "nat \<Rightarrow> tok_range \<Rightarrow> clause \<Rightarrow> tok_range \<times> clause" where
  "absorb iid r [] = (r, [])"
| "absorb iid r (f # fs) =
     (if f_index_id f = iid
      then absorb iid (max (fst r) (fst (f_tok_range f)), min (snd r) (snd (f_tok_range f))) fs
      else (case absorb iid r fs of (r', fs') \<Rightarrow> (r', f # fs')))"

lemma length_absorb: "length (snd (absorb iid r fs)) \<le> length fs"
  by (induction iid r fs rule: absorb.induct) (auto split: prod.splits)

function reduce_clause :: "clause \<Rightarrow> bool \<times> clause" where
  "reduce_clause [] = (True, [])"
| "reduce_clause (f # fs) =
     (case absorb (f_index_id f) (f_tok_range f) fs of (r, fs') \<Rightarrow>
        if fst r \<le> snd r
        then (case reduce_clause fs' of (b, c) \<Rightarrow> (b, f\<lparr>f_tok_range := r\<rparr> # c))
        else (False, f # fs'))"
  by pat_completeness auto
termination
proof (relation "measure length")
  show "wf (measure length)" by simp
  fix f :: index_filter and fs r fs'
  assume "(r, fs') = absorb (f_index_id f) (f_tok_range f) fs"
  then show "(fs', f # fs) \<in> measure length"
    using length_absorb [of "f_index_id f" "f_tok_range f" fs] by (metis in_measure le_imp_less_Suc length_Cons snd_conv)
qed

definition full_filter :: packet_filter where
  "full_filter = packet_filter_default\<lparr>src_addr := (0, UINT64_MAX), dst_addr := (0, UINT64_MAX),
     src_port := (0, UINT64_MAX), dst_port := (0, UINT64_MAX), timestamp := (0, UINT64_MAX)\<rparr>"

fun build_packet_filter_from :: "packet_store \<Rightarrow> clause \<Rightarrow> packet_filter \<Rightarrow> packet_filter result" where
  "build_packet_filter_from s [] pf = rreturn pf"
| "build_packet_filter_from s (f # fs) pf =
     (if f_index_id f = srcip_idx_id s then build_packet_filter_from s fs (pf\<lparr>src_addr := f_tok_range f\<rparr>)
      else if f_index_id f = dstip_idx_id s then build_packet_filter_from s fs (pf\<lparr>dst_addr := f_tok_range f\<rparr>)
      else if f_index_id f = srcport_idx_id s then build_packet_filter_from s fs (pf\<lparr>src_port := f_tok_range f\<rparr>)
      else if f_index_id f = dstport_idx_id s then build_packet_filter_from s fs (pf\<lparr>dst_port := f_tok_range f\<rparr>)
      else if f_index_id f = timestamp_idx_id s then build_packet_filter_from s fs (pf\<lparr>timestamp := f_tok_range f\<rparr>)
      else rthrow (''Invalid idx id '' @ dec_digits (f_index_id f)))"

definition build_packet_filter :: "packet_store \<Rightarrow> clause \<Rightarrow> packet_filter result" where
  "build_packet_filter s c = build_packet_filter_from s c full_filter"

text \<open>The loop over the children of a conjunction, which must be predicates.\<close>

definition not_dnf_msg :: string where
  "not_dnf_msg = ''Filter expression not in DNF''"

fun build_clause :: "packet_store \<Rightarrow> nat \<Rightarrow> expression list \<Rightarrow> clause result" where
  "build_clause s now [] = rreturn []"
| "build_clause s now (e # es) =
     (case e of
        Predicate attr op val \<Rightarrow> rbind (build_index_filter s now attr op val) (\<lambda>f.
          rbind (build_clause s now es) (\<lambda>c. rreturn (f # c)))
      | _ \<Rightarrow> rthrow not_dnf_msg)"

fun build_disjuncts :: "packet_store \<Rightarrow> nat \<Rightarrow> expression list \<Rightarrow> packet_filter list result" where
  "build_disjuncts s now [] = rreturn []"
| "build_disjuncts s now (e # es) =
     (case e of
        Conj cs \<Rightarrow> rbind (build_clause s now cs) (\<lambda>c. rbind (build_packet_filter s c) (\<lambda>pf.
          rbind (build_disjuncts s now es) (\<lambda>pfs. rreturn (pf # pfs))))
      | _ \<Rightarrow> rthrow not_dnf_msg)"

definition build_filter_list :: "packet_store \<Rightarrow> nat \<Rightarrow> expression \<Rightarrow> packet_filter list result" where
  "build_filter_list s now e =
     (case e of
        Predicate attr op val \<Rightarrow> rbind (build_index_filter s now attr op val) (\<lambda>f.
          rbind (build_packet_filter s [f]) (\<lambda>pf. rreturn [pf]))
      | Conj es \<Rightarrow> rbind (build_clause s now es) (\<lambda>c. rbind (build_packet_filter s c) (\<lambda>pf. rreturn [pf]))
      | Disj es \<Rightarrow> build_disjuncts s now es
      | Neg _ \<Rightarrow> rreturn [])"

end
