(* ===== verification/Query_Semantics.thy ===== *)
theory Query_Semantics
  imports Netplay_Utils Packet_Burst
begin

unbundle bit_operations_syntax

section \<open>Reducing a clause\<close>

text \<open>
  The meaning of clauses, ranges and packet filters, and that the functions of \<open>netplay_utils.h\<close>
  keep it. A clause is the conjunction of its ranges, over an assignment of keys to indexes.
\<close>

definition clause_sat :: "(nat \<Rightarrow> nat) \<Rightarrow> clause \<Rightarrow> bool" where
  "clause_sat v c \<longleftrightarrow> (\<forall>f \<in> set c. in_range (f_tok_range f) (v (f_index_id f)))"

lemma clause_sat_simps [simp]:
  "clause_sat v []" "clause_sat v (f # fs) \<longleftrightarrow> in_range (f_tok_range f) (v (f_index_id f)) \<and> clause_sat v fs"
  by (simp_all add: clause_sat_def)

lemma absorb_spec:
  "(in_range (fst (absorb iid r fs)) (v iid) \<and> clause_sat v (snd (absorb iid r fs)) \<longleftrightarrow> in_range r (v iid) \<and> clause_sat v fs)
   \<and> iid \<notin> f_index_id ` set (snd (absorb iid r fs)) \<and> set (snd (absorb iid r fs)) \<subseteq> set fs
   \<and> f_index_id ` set fs \<subseteq> insert iid (f_index_id ` set (snd (absorb iid r fs)))"
proof (induction iid r fs rule: absorb.induct)
  case (2 iid r f fs)
  show ?case
  proof (cases "f_index_id f = iid")
    case True
    have "in_range (max (fst r) (fst (f_tok_range f)), min (snd r) (snd (f_tok_range f))) x \<longleftrightarrow>
        in_range r x \<and> in_range (f_tok_range f) x" for x by (auto simp: in_range_def)
    then show ?thesis using "2.IH"(1) [OF True] True by auto
  next
    case False
    then show ?thesis using "2.IH"(2) [OF False] by (auto simp: case_prod_beta)
  qed
qed simp

lemma reduce_clause_ids: "set (map f_index_id (snd (reduce_clause c))) \<subseteq> set (map f_index_id c)"
proof (induction c rule: reduce_clause.induct)
  case (2 f fs)
  obtain r fs' where a: "absorb (f_index_id f) (f_tok_range f) fs = (r, fs')" by fastforce
  then have "set fs' \<subseteq> set fs" using absorb_spec [of "f_index_id f" "f_tok_range f" fs] by simp
  then show ?case using "2.IH" [OF a [symmetric]] a by (auto simp: case_prod_beta)
qed simp

text \<open>When reduction succeeds, the clause has one nonempty range per index and the same meaning.\<close>

lemma reduce_clause_True:
  assumes "reduce_clause c = (True, c')"
  shows "clause_sat v c' \<longleftrightarrow> clause_sat v c" "distinct (map f_index_id c')"
    "\<forall>f \<in> set c'. fst (f_tok_range f) \<le> snd (f_tok_range f)" "set (map f_index_id c') = set (map f_index_id c)"
proof -
  have "(clause_sat v c' \<longleftrightarrow> clause_sat v c) \<and> distinct (map f_index_id c')
    \<and> (\<forall>f \<in> set c'. fst (f_tok_range f) \<le> snd (f_tok_range f)) \<and> set (map f_index_id c') = set (map f_index_id c)"
    using assms
  proof (induction c arbitrary: c' rule: reduce_clause.induct)
    case (2 f fs)
    obtain r fs' where a: "absorb (f_index_id f) (f_tok_range f) fs = (r, fs')" by fastforce
    note ab = absorb_spec [of "f_index_id f" "f_tok_range f" fs v, unfolded a fst_conv snd_conv]
    have r: "fst r \<le> snd r" and red: "\<exists>c1. reduce_clause fs' = (True, c1) \<and> c' = f\<lparr>f_tok_range := r\<rparr> # c1"
      using "2.prems" a by (auto split: if_splits prod.splits)
    then obtain c1 where c1: "reduce_clause fs' = (True, c1)" "c' = f\<lparr>f_tok_range := r\<rparr> # c1" by blast
    show ?case using "2.IH" [OF a [symmetric] r c1(1)] ab r c1(2) by auto
  qed simp
  then show "clause_sat v c' \<longleftrightarrow> clause_sat v c" "distinct (map f_index_id c')"
    "\<forall>f \<in> set c'. fst (f_tok_range f) \<le> snd (f_tok_range f)" "set (map f_index_id c') = set (map f_index_id c)" by blast+
qed

lemma reduce_clause_False:
  assumes "reduce_clause c = (False, c')"
  shows "\<not> clause_sat v c"
  using assms
proof (induction c arbitrary: c' rule: reduce_clause.induct)
  case (2 f fs)
  obtain r fs' where a: "absorb (f_index_id f) (f_tok_range f) fs = (r, fs')" by fastforce
  note ab = absorb_spec [of "f_index_id f" "f_tok_range f" fs v, unfolded a fst_conv snd_conv]
  show ?case
  proof (cases "fst r \<le> snd r")
    case True
    then obtain c1 where "reduce_clause fs' = (False, c1)" using "2.prems" a by (auto split: prod.splits)
    then show ?thesis using "2.IH" [OF a [symmetric] True] ab by auto
  next
    case False
    then have "\<not> in_range r (v (f_index_id f))" by (auto simp: in_range_def)
    then show ?thesis using ab by auto
  qed
qed simp

text \<open>A clause with one nonempty range per index is satisfied by some assignment.\<close>

lemma distinct_clause_sat:
  assumes "distinct (map f_index_id c)" "\<forall>f \<in> set c. fst (f_tok_range f) \<le> snd (f_tok_range f)"
  shows "\<exists>v. clause_sat v c"
proof -
  let ?m = "map_of (map (\<lambda>f. (f_index_id f, fst (f_tok_range f))) c)"
  have "?m (f_index_id f) = Some (fst (f_tok_range f))" if "f \<in> set c" for f
    using that assms(1) by (intro map_of_is_SomeI) (simp_all add: comp_def)
  then have "clause_sat (\<lambda>i. the (?m i)) c" using assms(2) by (simp add: clause_sat_def in_range_def)
  then show ?thesis by blast
qed

text \<open>
  C18. Reducing a clause keeps its meaning. \<^verbatim>\<open>reduce_clause\<close> returns true exactly when some packet
  keys can satisfy all ranges of the clause; then the reduced clause has one range per
  index, on the same indexes, and is satisfied by the same keys.
\<close>

theorem reduce_clause_correct:
  assumes "reduce_clause c = (b, c')"
  shows "(b \<longleftrightarrow> (\<exists>v. clause_sat v c))
    \<and> (b \<longrightarrow> distinct (map f_index_id c') \<and> set (map f_index_id c') = set (map f_index_id c)
      \<and> (\<forall>v. clause_sat v c' \<longleftrightarrow> clause_sat v c))"
proof (cases b)
  case True
  then have t: "reduce_clause c = (True, c')" using assms by simp
  show ?thesis
    using True reduce_clause_True [OF t] distinct_clause_sat [OF reduce_clause_True(2,3) [OF t]] by blast
next
  case False
  then have "reduce_clause c = (False, c')" using assms by simp
  then show ?thesis using False reduce_clause_False by blast
qed

lemma reduce_example:
  "reduce_clause [mk_filter 1 (3, 9), mk_filter 2 (1, 1), mk_filter 1 (5, 20)] = (True, [mk_filter 1 (5, 9), mk_filter 2 (1, 1)])"
  by (simp add: mk_filter_def)

theorem reduce_clause_correct_witness:
  "reduce_clause [mk_filter 1 (3, 9), mk_filter 2 (1, 1), mk_filter 1 (5, 20)] = (True, [mk_filter 1 (5, 9), mk_filter 2 (1, 1)])
   \<and> (\<exists>v. clause_sat v [mk_filter 1 (3, 9), mk_filter 2 (1, 1), mk_filter 1 (5, 20)])"
  using reduce_example reduce_clause_correct [OF reduce_example] by blast

section \<open>Packet filters of a clause\<close>

definition own_ids :: "packet_store \<Rightarrow> nat list" where
  "own_ids s = [srcip_idx_id s, dstip_idx_id s, srcport_idx_id s, dstport_idx_id s, timestamp_idx_id s]"

text \<open>The key of a packet in an index of the store; a packet that is neither TCP nor UDP has no ports.\<close>

definition pkt_key :: "packet_store \<Rightarrow> pkt_fields \<Rightarrow> nat \<Rightarrow> nat \<Rightarrow> nat option" where
  "pkt_key s p ts iid =
     (if iid = srcip_idx_id s then Some (p_src_addr p) else if iid = dstip_idx_id s then Some (p_dst_addr p)
      else if iid = srcport_idx_id s then map_option fst (p_ports p)
      else if iid = dstport_idx_id s then map_option snd (p_ports p)
      else if iid = timestamp_idx_id s then Some ts else None)"

text \<open>A packet passes a clause when no key it has is out of range.\<close>

definition passes :: "packet_store \<Rightarrow> pkt_fields \<Rightarrow> nat \<Rightarrow> clause \<Rightarrow> bool" where
  "passes s p ts c \<longleftrightarrow> (\<forall>f \<in> set c. \<forall>v. pkt_key s p ts (f_index_id f) = Some v \<longrightarrow> in_range (f_tok_range f) v)"

definition sel_range :: "packet_store \<Rightarrow> nat \<Rightarrow> packet_filter \<Rightarrow> tok_range" where
  "sel_range s iid pf =
     (if iid = srcip_idx_id s then src_addr pf else if iid = dstip_idx_id s then dst_addr pf
      else if iid = srcport_idx_id s then src_port pf else if iid = dstport_idx_id s then dst_port pf
      else timestamp pf)"

lemma own_ids_neq:
  assumes "distinct (own_ids s)"
  shows "srcip_idx_id s \<noteq> dstip_idx_id s" "srcip_idx_id s \<noteq> srcport_idx_id s" "srcip_idx_id s \<noteq> dstport_idx_id s"
    "srcip_idx_id s \<noteq> timestamp_idx_id s" "dstip_idx_id s \<noteq> srcport_idx_id s" "dstip_idx_id s \<noteq> dstport_idx_id s"
    "dstip_idx_id s \<noteq> timestamp_idx_id s" "srcport_idx_id s \<noteq> dstport_idx_id s" "srcport_idx_id s \<noteq> timestamp_idx_id s"
    "dstport_idx_id s \<noteq> timestamp_idx_id s"
  using assms by (simp_all add: own_ids_def)

lemma own_id_cases:
  assumes "iid \<in> set (own_ids s)"
  obtains "iid = srcip_idx_id s" | "iid = dstip_idx_id s" | "iid = srcport_idx_id s" | "iid = dstport_idx_id s"
    | "iid = timestamp_idx_id s"
  using assms by (auto simp: own_ids_def)

lemma own_keys:
  assumes "distinct (own_ids s)"
  shows "pkt_key s p ts (srcip_idx_id s) = Some (p_src_addr p)" "pkt_key s p ts (dstip_idx_id s) = Some (p_dst_addr p)"
    "pkt_key s p ts (srcport_idx_id s) = map_option fst (p_ports p)" "pkt_key s p ts (dstport_idx_id s) = map_option snd (p_ports p)"
    "pkt_key s p ts (timestamp_idx_id s) = Some ts"
    "sel_range s (srcip_idx_id s) pf = src_addr pf" "sel_range s (dstip_idx_id s) pf = dst_addr pf"
    "sel_range s (srcport_idx_id s) pf = src_port pf" "sel_range s (dstport_idx_id s) pf = dst_port pf"
    "sel_range s (timestamp_idx_id s) pf = timestamp pf"
  using own_ids_neq [OF assms] own_ids_neq [OF assms, symmetric] by (simp_all add: pkt_key_def sel_range_def)

lemma accepts_at_sel:
  assumes "distinct (own_ids s)"
  shows "accepts_at pf p ts \<longleftrightarrow> (\<forall>iid \<in> set (own_ids s). \<forall>v. pkt_key s p ts iid = Some v \<longrightarrow> in_range (sel_range s iid pf) v)"
  unfolding own_ids_def
  by (cases "p_ports p") (simp_all add: own_keys [OF assms] accepts_at_def accepts_def case_prod_beta conj_ac)

lemma build_packet_filter_sel:
  assumes "distinct (own_ids s)" "f_index_id ` set c \<subseteq> set (own_ids s)" "distinct (map f_index_id c)"
  shows "\<exists>pf'. build_packet_filter_from s c pf = Some (Inr pf') \<and> (\<forall>iid \<in> set (own_ids s). sel_range s iid pf' =
    (case find (\<lambda>f. f_index_id f = iid) c of None \<Rightarrow> sel_range s iid pf | Some f \<Rightarrow> f_tok_range f))"
  using assms(2,3)
proof (induction c arbitrary: pf)
  case (Cons f fs)
  have f: "f_index_id f \<in> set (own_ids s)" using Cons.prems(1) by simp
  have none: "find (\<lambda>g. f_index_id g = f_index_id f) fs = None"
    using Cons.prems(2) by (auto simp: find_None_iff image_iff)
  define pf1 where "pf1 = (if f_index_id f = srcip_idx_id s then pf\<lparr>src_addr := f_tok_range f\<rparr>
    else if f_index_id f = dstip_idx_id s then pf\<lparr>dst_addr := f_tok_range f\<rparr>
    else if f_index_id f = srcport_idx_id s then pf\<lparr>src_port := f_tok_range f\<rparr>
    else if f_index_id f = dstport_idx_id s then pf\<lparr>dst_port := f_tok_range f\<rparr> else pf\<lparr>timestamp := f_tok_range f\<rparr>)"
  have step: "build_packet_filter_from s (f # fs) pf = build_packet_filter_from s fs pf1"
    using f by (auto simp: pf1_def own_ids_def)
  have sel: "sel_range s iid pf1 = (if iid = f_index_id f then f_tok_range f else sel_range s iid pf)"
    if "iid \<in> set (own_ids s)" for iid
    using own_ids_neq [OF assms(1)] own_ids_neq [OF assms(1), symmetric] that
    by (cases rule: own_id_cases [OF f]) (auto simp: pf1_def sel_range_def elim: own_id_cases)
  obtain pf' where "build_packet_filter_from s fs pf1 = Some (Inr pf')"
    "\<forall>iid \<in> set (own_ids s). sel_range s iid pf' =
      (case find (\<lambda>f. f_index_id f = iid) fs of None \<Rightarrow> sel_range s iid pf1 | Some f \<Rightarrow> f_tok_range f)"
    using Cons.IH [of pf1] Cons.prems by auto
  then show ?case using step sel none by (auto split: option.splits)
qed (simp add: rreturn_def)

lemma find_distinct:
  assumes "distinct (map f_index_id c)"
  shows "find (\<lambda>f. f_index_id f = iid) c = Some f \<longleftrightarrow> f \<in> set c \<and> f_index_id f = iid"
  using assms by (induction c) auto

lemma pkt_key_bound:
  assumes "pkt_fields_of L pkt = Some p" "ts < 2 ^ 32" "pkt_key s p ts iid = Some v"
  shows "v < 2 ^ 32"
  using pkt_field_bounds [OF assms(1)] assms(2,3) by (cases "p_ports p") (auto simp: pkt_key_def split: if_splits)

lemma build_packet_filter_passes:
  assumes "distinct (own_ids s)" "f_index_id ` set c \<subseteq> set (own_ids s)" "distinct (map f_index_id c)"
  shows "\<exists>pf. build_packet_filter s c = Some (Inr pf)
    \<and> (\<forall>p ts. (\<forall>iid v. pkt_key s p ts iid = Some v \<longrightarrow> v \<le> UINT64_MAX) \<longrightarrow> accepts_at pf p ts = passes s p ts c)"
proof -
  have full: "sel_range s iid full_filter = (0, UINT64_MAX)" for iid by (simp add: sel_range_def full_filter_def)
  obtain pf where pf: "build_packet_filter s c = Some (Inr pf)"
    "\<forall>iid \<in> set (own_ids s). sel_range s iid pf =
      (case find (\<lambda>f. f_index_id f = iid) c of None \<Rightarrow> (0, UINT64_MAX) | Some f \<Rightarrow> f_tok_range f)"
    using build_packet_filter_sel [OF assms, of full_filter] unfolding full build_packet_filter_def by blast
  have "accepts_at pf p ts = passes s p ts c" if b: "\<forall>iid v. pkt_key s p ts iid = Some v \<longrightarrow> v \<le> UINT64_MAX" for p ts
  proof
    assume a: "accepts_at pf p ts"
    show "passes s p ts c"
      unfolding passes_def
    proof (intro ballI allI impI)
      fix f v assume f: "f \<in> set c" "pkt_key s p ts (f_index_id f) = Some v"
      have "find (\<lambda>g. f_index_id g = f_index_id f) c = Some f" using find_distinct [OF assms(3)] f(1) by simp
      moreover have own: "f_index_id f \<in> set (own_ids s)" using f(1) assms(2) by blast
      moreover have "in_range (sel_range s (f_index_id f) pf) v"
        using a own f(2) unfolding accepts_at_sel [OF assms(1)] by blast
      ultimately show "in_range (f_tok_range f) v" using pf(2) by simp
    qed
  next
    assume a: "passes s p ts c"
    show "accepts_at pf p ts"
      unfolding accepts_at_sel [OF assms(1)]
    proof (intro ballI allI impI)
      fix iid v assume i: "iid \<in> set (own_ids s)" "pkt_key s p ts iid = Some v"
      show "in_range (sel_range s iid pf) v"
      proof (cases "find (\<lambda>f. f_index_id f = iid) c")
        case None
        then show ?thesis using pf(2) i b by (auto simp: in_range_def)
      next
        case (Some f)
        then have "f \<in> set c" "f_index_id f = iid" using find_distinct [OF assms(3)] by blast+
        then show ?thesis using a pf(2) i Some by (auto simp: passes_def)
      qed
    qed
  qed
  then show ?thesis using pf(1) by blast
qed

end
