(* ===== verification/Query_Planner.thy ===== *)
theory Query_Planner
  imports Query_Semantics
begin

section \<open>Plans, casts and characters (query_planner.h, cast_builder.h, character_builder.h)\<close>

text \<open>
  A plan has one entry for every satisfiable clause of an expression in disjunctive normal form: the
  filter with the fewest entries is evaluated on its index, the others become a packet filter. As in
  \<open>netplay_utils.h\<close>, \<open>Inl\<close> is an exception and \<open>None\<close> undefined behaviour, here the dereference of
  an iterator that was never set.
\<close>

fun min_pos :: "packet_store \<Rightarrow> clause \<Rightarrow> nat \<Rightarrow> nat \<Rightarrow> nat option \<Rightarrow> nat option option" where
  "min_pos s [] i min_count min_f = Some min_f"
| "min_pos s (f # fs) i min_count min_f = do {
     cnt \<leftarrow> approx_pkt_count (f_index_id f) (fst (f_tok_range f)) (snd (f_tok_range f)) s;
     (if cnt < min_count then min_pos s fs (i + 1) cnt (Some i) else min_pos s fs (i + 1) min_count min_f) }"

definition extract_min_filter :: "packet_store \<Rightarrow> clause \<Rightarrow> (index_filter \<times> clause) option" where
  "extract_min_filter s c = do {
     min_f \<leftarrow> min_pos s c 0 UINT64_MAX None;
     i \<leftarrow> min_f;
     Some (c ! i, take i c @ drop (i + 1) c) }"

definition build_clause_plan :: "packet_store \<Rightarrow> clause \<Rightarrow> clause_plan result" where
  "build_clause_plan s c =
     (case reduce_clause c of (valid, c') \<Rightarrow>
        if valid then do {
          (f, rest) \<leftarrow> extract_min_filter s c';
          rbind (build_packet_filter s rest) (\<lambda>pf.
            rreturn \<lparr>idx_filter = Some f, pkt_filter = pf, plan_valid = True, perform_pkt_filter = Some (rest \<noteq> [])\<rparr>) }
        else rreturn clause_plan_default)"

definition push_plan :: "clause_plan \<Rightarrow> query_plan \<Rightarrow> query_plan" where
  "push_plan p ps = (if plan_valid p then p # ps else ps)"

fun plan_disjuncts :: "packet_store \<Rightarrow> nat \<Rightarrow> expression list \<Rightarrow> query_plan result" where
  "plan_disjuncts s now [] = rreturn []"
| "plan_disjuncts s now (e # es) =
     (case e of
        Conj cs \<Rightarrow> rbind (build_clause s now cs) (\<lambda>c. rbind (build_clause_plan s c) (\<lambda>p.
          rbind (plan_disjuncts s now es) (\<lambda>ps. rreturn (push_plan p ps))))
      | _ \<Rightarrow> rthrow not_dnf_msg)"

definition plan :: "packet_store \<Rightarrow> nat \<Rightarrow> expression \<Rightarrow> query_plan result" where
  "plan s now e =
     (case e of
        Predicate attr op val \<Rightarrow> rbind (build_index_filter s now attr op val) (\<lambda>f.
          rreturn [clause_plan_default\<lparr>plan_valid := True, perform_pkt_filter := Some False, idx_filter := Some f\<rparr>])
      | Conj es \<Rightarrow> rbind (build_clause s now es) (\<lambda>c. rbind (build_clause_plan s c) (\<lambda>p. rreturn (push_plan p [])))
      | Disj es \<Rightarrow> plan_disjuncts s now es
      | Neg _ \<Rightarrow> rreturn [])"

subsection \<open>Casts\<close>

text \<open>\<open>cast_builder(store, exp).build()\<close> and \<open>execute\<close>.\<close>

definition cast_build :: "packet_store \<Rightarrow> nat \<Rightarrow> string \<Rightarrow> query_plan result" where
  "cast_build s now exp = rbind (parse exp) (\<lambda>e. plan s now e)"

definition cast_execute :: "hdr_layout \<Rightarrow> (nat list \<Rightarrow> 'r) \<Rightarrow> query_plan \<Rightarrow> packet_store \<Rightarrow> 'r option" where
  "cast_execute L agg p s = execute_cast L agg p s"

subsection \<open>Complex characters\<close>

definition character_build :: "packet_store \<Rightarrow> nat \<Rightarrow> string \<Rightarrow> (packet_store \<times> nat) result" where
  "character_build s now exp =
     rbind (parse exp) (\<lambda>e. rbind (build_filter_list s now e) (\<lambda>fl.
       do { (s', c) \<leftarrow> add_complex_character fl s; rreturn (s', c) }))"

definition character_execute :: "(nat list \<Rightarrow> 'r) \<Rightarrow> nat \<Rightarrow> nat \<Rightarrow> nat \<Rightarrow> packet_store \<Rightarrow> 'r option" where
  "character_execute agg c ts_beg ts_end s = query_character agg c (take_bit 32 ts_beg) (take_bit 32 ts_end) s"

section \<open>The filter with the fewest entries\<close>

abbreviation f_count :: "packet_store \<Rightarrow> index_filter \<Rightarrow> nat option" where
  "f_count s f \<equiv> approx_pkt_count (f_index_id f) (fst (f_tok_range f)) (snd (f_tok_range f)) s"

lemma min_pos_spec:
  assumes "\<And>f. f \<in> set c \<Longrightarrow> f_count s f = Some (n f)"
  shows "\<exists>r. min_pos s c i m best = Some r \<and>
    (r = best \<and> (\<forall>f \<in> set c. m \<le> n f) \<or>
     (\<exists>j < length c. r = Some (i + j) \<and> n (c ! j) < m \<and> (\<forall>f \<in> set c. n (c ! j) \<le> n f)))"
  using assms
proof (induction c arbitrary: i m best)
  case (Cons f fs)
  have f: "f_count s f = Some (n f)" using Cons.prems by simp
  show ?case
  proof (cases "n f < m")
    case True
    obtain r where r: "min_pos s fs (i + 1) (n f) (Some i) = Some r"
      "r = Some i \<and> (\<forall>g \<in> set fs. n f \<le> n g) \<or>
       (\<exists>j < length fs. r = Some (i + 1 + j) \<and> n (fs ! j) < n f \<and> (\<forall>g \<in> set fs. n (fs ! j) \<le> n g))"
      using Cons.IH [of "i + 1" "n f" "Some i"] Cons.prems by auto
    have run: "min_pos s (f # fs) i m best = Some r" using f True r(1) by simp
    from r(2) show ?thesis
    proof
      assume "r = Some i \<and> (\<forall>g \<in> set fs. n f \<le> n g)"
      then show ?thesis using run True by (intro exI [of _ r] conjI disjI2 exI [of _ 0]) auto
    next
      assume "\<exists>j < length fs. r = Some (i + 1 + j) \<and> n (fs ! j) < n f \<and> (\<forall>g \<in> set fs. n (fs ! j) \<le> n g)"
      then obtain j where "j < length fs" "r = Some (i + 1 + j)" "n (fs ! j) < n f" "\<forall>g \<in> set fs. n (fs ! j) \<le> n g"
        by blast
      then show ?thesis using run True by (intro exI [of _ r] conjI disjI2 exI [of _ "Suc j"]) auto
    qed
  next
    case False
    obtain r where r: "min_pos s fs (i + 1) m best = Some r"
      "r = best \<and> (\<forall>g \<in> set fs. m \<le> n g) \<or>
       (\<exists>j < length fs. r = Some (i + 1 + j) \<and> n (fs ! j) < m \<and> (\<forall>g \<in> set fs. n (fs ! j) \<le> n g))"
      using Cons.IH [of "i + 1" m best] Cons.prems by auto
    have run: "min_pos s (f # fs) i m best = Some r" using f False r(1) by simp
    from r(2) show ?thesis
    proof
      assume "r = best \<and> (\<forall>g \<in> set fs. m \<le> n g)"
      then show ?thesis using run False by (intro exI [of _ r]) auto
    next
      assume "\<exists>j < length fs. r = Some (i + 1 + j) \<and> n (fs ! j) < m \<and> (\<forall>g \<in> set fs. n (fs ! j) \<le> n g)"
      then obtain j where "j < length fs" "r = Some (i + 1 + j)" "n (fs ! j) < m" "\<forall>g \<in> set fs. n (fs ! j) \<le> n g"
        by blast
      then show ?thesis using run False by (intro exI [of _ r] conjI disjI2 exI [of _ "Suc j"]) auto
    qed
  qed
qed simp

lemma set_remove_nth: "i < length c \<Longrightarrow> set c = insert (c ! i) (set (take i c @ drop (i + 1) c))"
  by (metis Suc_eq_plus1 id_take_nth_drop list.simps(15) set_append Un_insert_right)

lemma distinct_remove_nth: "distinct (map g c) \<Longrightarrow> distinct (map g (take i c @ drop (i + 1) c))"
proof -
  assume d: "distinct (map g c)"
  have "set (take i (map g c)) \<inter> set (drop (i + 1) (map g c)) = {}"
    using d by (intro set_take_disj_set_drop_if_distinct) simp_all
  then show ?thesis using d by (simp add: take_map drop_map distinct_take distinct_drop flip: take_map drop_map)
qed

lemma extract_min_spec:
  assumes "c \<noteq> []" "\<And>f. f \<in> set c \<Longrightarrow> f_count s f = Some (n f) \<and> n f < UINT64_MAX"
  shows "\<exists>f rest. extract_min_filter s c = Some (f, rest) \<and> set c = insert f (set rest)
    \<and> length c = Suc (length rest) \<and> (\<forall>g \<in> set c. n f \<le> n g)
    \<and> (distinct (map f_index_id c) \<longrightarrow> distinct (map f_index_id rest) \<and> f_index_id f \<notin> f_index_id ` set rest)"
proof -
  obtain r where r: "min_pos s c 0 UINT64_MAX None = Some r"
    "r = None \<and> (\<forall>f \<in> set c. UINT64_MAX \<le> n f) \<or>
     (\<exists>j < length c. r = Some (0 + j) \<and> n (c ! j) < UINT64_MAX \<and> (\<forall>f \<in> set c. n (c ! j) \<le> n f))"
    using min_pos_spec [of c s n 0 UINT64_MAX None] assms(2) by blast
  have "\<not> (\<forall>f \<in> set c. UINT64_MAX \<le> n f)" using assms by (cases c) (auto simp: not_le)
  then obtain j where j: "j < length c" "r = Some j" "\<forall>f \<in> set c. n (c ! j) \<le> n f" using r(2) by auto
  have "f_index_id (c ! j) \<notin> f_index_id ` set (take j c @ drop (j + 1) c)" if d: "distinct (map f_index_id c)"
  proof -
    have "c = take j c @ c ! j # drop (j + 1) c" using id_take_nth_drop [OF j(1)] by simp
    then have "distinct (map f_index_id (take j c @ c ! j # drop (j + 1) c))" using d by simp
    then show ?thesis by auto
  qed
  then show ?thesis
    using r(1) j set_remove_nth [OF j(1)] distinct_remove_nth [of f_index_id c j]
    by (intro exI [of _ "c ! j"] exI [of _ "take j c @ drop (j + 1) c"]) (auto simp: extract_min_filter_def)
qed

section \<open>Plans of clauses\<close>

lemma reduce_pointwise:
  assumes "reduce_clause c = (True, c')"
  shows "(\<forall>f \<in> set c'. f_index_id f = iid \<longrightarrow> in_range (f_tok_range f) x) \<longleftrightarrow>
    (\<forall>f \<in> set c. f_index_id f = iid \<longrightarrow> in_range (f_tok_range f) x)"
proof -
  note r = reduce_clause_True [OF assms]
  obtain v where v: "clause_sat v c'" using distinct_clause_sat [OF r(2,3)] by blast
  have *: "clause_sat (v(iid := x)) d \<longleftrightarrow> (\<forall>f \<in> set d. f_index_id f = iid \<longrightarrow> in_range (f_tok_range f) x)"
    if "clause_sat v d" for d using that by (auto simp: clause_sat_def)
  have "clause_sat v c" using r(1) v by blast
  then show ?thesis using * [OF v] * r(1) [of "v(iid := x)"] by blast
qed

lemma passes_reduce: "reduce_clause c = (True, c') \<Longrightarrow> passes s p ts c' = passes s p ts c"
  using reduce_pointwise [of c c'] unfolding passes_def by metis

lemma passes_insert:
  assumes "set c = insert f (set rest)"
  shows "passes s p ts c \<longleftrightarrow> (\<forall>v. pkt_key s p ts (f_index_id f) = Some v \<longrightarrow> in_range (f_tok_range f) v) \<and> passes s p ts rest"
  using assms by (auto simp: passes_def)

lemma build_clause_plan_spec:
  assumes own: "distinct (own_ids s)" "f_index_id ` set c \<subseteq> set (own_ids s)" and ne: "c \<noteq> []"
    and cnt: "\<And>f. f \<in> set (snd (reduce_clause c)) \<Longrightarrow> f_count s f = Some (n f) \<and> n f < UINT64_MAX"
  shows "\<exists>cp. build_clause_plan s c = Some (Inr cp) \<and> (plan_valid cp \<longleftrightarrow> (\<exists>v. clause_sat v c))
    \<and> (plan_valid cp \<longrightarrow> (\<exists>f b. idx_filter cp = Some f \<and> perform_pkt_filter cp = Some b \<and> f_index_id f \<in> set (own_ids s)
        \<and> f \<in> set (snd (reduce_clause c)) \<and> (\<forall>p ts v. (\<forall>iid v. pkt_key s p ts iid = Some v \<longrightarrow> v \<le> UINT64_MAX) \<longrightarrow> pkt_key s p ts (f_index_id f) = Some v \<longrightarrow>
            (in_range (f_tok_range f) v \<and> (b \<longrightarrow> accepts_at (pkt_filter cp) p ts) \<longleftrightarrow> passes s p ts c))))"
proof (cases "reduce_clause c")
  case (Pair valid c')
  show ?thesis
  proof (cases valid)
    case False
    then have "reduce_clause c = (False, c')" using Pair by simp
    then show ?thesis using reduce_clause_False by (simp add: build_clause_plan_def rreturn_def clause_plan_default_def)
  next
    case True
    then have red: "reduce_clause c = (True, c')" using Pair by simp
    note r = reduce_clause_True [OF red]
    have "c' \<noteq> []" using r(4) ne by auto
    then obtain f rest where f: "extract_min_filter s c' = Some (f, rest)" "set c' = insert f (set rest)"
      "distinct (map f_index_id rest)"
      using extract_min_spec [of c' s n] cnt red r(2) by auto
    have "f_index_id ` set c' \<subseteq> set (own_ids s)" using own(2) r(4) by simp
    moreover have "f \<in> set c'" "set rest \<subseteq> set c'" using f(2) by auto
    ultimately have ids: "f_index_id ` set rest \<subseteq> set (own_ids s)" "f_index_id f \<in> set (own_ids s)" by blast+
    obtain pf where pf: "build_packet_filter s rest = Some (Inr pf)"
      "\<And>p ts. (\<forall>iid v. pkt_key s p ts iid = Some v \<longrightarrow> v \<le> UINT64_MAX) \<Longrightarrow> accepts_at pf p ts = passes s p ts rest"
      using build_packet_filter_passes [OF own(1) ids(1) f(3)] by auto
    let ?cp = "\<lparr>idx_filter = Some f, pkt_filter = pf, plan_valid = True, perform_pkt_filter = Some (rest \<noteq> [])\<rparr>"
    have "build_clause_plan s c = Some (Inr ?cp)"
      using red f(1) pf(1) by (simp add: build_clause_plan_def rbind_def rreturn_def)
    moreover have "\<exists>v. clause_sat v c" using distinct_clause_sat [OF r(2,3)] r(1) by blast
    moreover have "in_range (f_tok_range f) v \<and> (rest \<noteq> [] \<longrightarrow> accepts_at pf p ts) \<longleftrightarrow> passes s p ts c"
      if "\<forall>iid v. pkt_key s p ts iid = Some v \<longrightarrow> v \<le> UINT64_MAX" "pkt_key s p ts (f_index_id f) = Some v" for p ts v
      using passes_insert [OF f(2), of s p ts] passes_reduce [OF red] pf(2) [OF that(1)] that(2)
      by (cases "rest = []") (auto simp: passes_def)
    ultimately show ?thesis using ids(2) red f(2) by (intro exI [of _ ?cp]) simp
  qed
qed

end
