(* ===== verification/Query_Count.thy ===== *)
theory Query_Count
  imports Query_Planner
begin

section \<open>Counting the entries of a range\<close>

text \<open>
  The planner compares the filters of a clause by the number of index entries in their ranges. Every
  entry list of an index has less than \<open>2 ^ 28\<close> entries, so the sum over the keys of the five
  indexes of the packet store does not wrap around, and the count is exact.
\<close>

lemma list_entries_bound:
  assumes "obj_ok ix" "k < 256 ^ obj_bytes ix" "obj_at k ix = Some (Some es)"
  shows "el_size es = length (obj_list k ix)" "length (obj_list k ix) \<le> 2 ^ 28"
proof -
  have inv: "relaxed_invar entry_list_nbuckets es" using assms by (auto simp: obj_ok_def obj_covers_iff)
  then show size: "el_size es = length (obj_list k ix)"
    using relaxed.size_contents [OF inv] by (simp add: el_size_def obj_list_Some [OF assms(3)])
  have "valid_index entry_list_nbuckets i" if "i < el_size es" for i
    using inv that by (simp add: relaxed_invar_def prefix_ok_def el_size_def relaxed_size_def)
  then have "\<not> 2 ^ 28 < el_size es"
    using valid_index_def [of entry_list_nbuckets "2 ^ 28"] by (auto simp: FBS_def FBS_HIBIT_def entry_list_nbuckets_def)
  then show "length (obj_list k ix) \<le> 2 ^ 28" using size by simp
qed

lemma obj_list_bound:
  assumes "obj_ok ix" "k < 256 ^ obj_bytes ix"
  shows "length (obj_list k ix) \<le> 2 ^ 28"
proof (cases "\<exists>es. obj_at k ix = Some (Some es)")
  case True
  then show ?thesis using list_entries_bound(2) [OF assms] by blast
next
  case False
  then have "obj_list k ix = []" by (auto simp: obj_list_def index_list_def split: option.splits)
  then show ?thesis by simp
qed

lemma range_entries_bound:
  assumes "obj_ok ix" "b < 256 ^ obj_bytes ix"
  shows "length (range_entries ix a b) \<le> (b + 1 - a) * 2 ^ 28"
proof (induction "b + 1 - a" arbitrary: a)
  case 0
  then show ?case by (simp add: range_entries_def)
next
  case (Suc n)
  then have ab: "a \<le> b" "n = b + 1 - Suc a" by auto
  have "length (range_entries ix a b) = length (obj_list a ix) + length (range_entries ix (Suc a) b)"
    by (simp add: range_entries_Cons [OF ab(1)])
  moreover have "length (obj_list a ix) \<le> 2 ^ 28" using obj_list_bound [OF assms(1)] ab(1) assms(2) by simp
  moreover have "length (range_entries ix (Suc a) b) \<le> n * 2 ^ 28" using Suc.hyps(1) [OF ab(2)] ab(2) by simp
  moreover have "b + 1 - a = Suc n" using Suc.hyps(2) by simp
  ultimately show ?case by simp
qed

lemma filter_count_from_spec:
  assumes "obj_ok ix" "tmax < 256 ^ obj_bytes ix" "tmax + 1 < 2 ^ 64" "acc + length (range_entries ix i tmax) < 2 ^ 64"
  shows "filter_count_from ix i tmax acc = Some (acc + length (range_entries ix i tmax))"
  using assms(4)
proof (induction "tmax + 1 - i" arbitrary: i acc)
  case 0
  then show ?case by (simp add: filter_count_from.simps range_entries_def)
next
  case (Suc n)
  then have i: "i \<le> tmax" "n = tmax + 1 - Suc i" by auto
  have k: "i < 256 ^ obj_bytes ix" using i(1) assms(2) by simp
  have wrap: "take_bit 64 (i + 1) = Suc i" using i(1) assms(3) by (simp add: take_bit_id)
  obtain l where l: "obj_at i ix = Some l" using obj_at_total k by (auto simp: obj_covers_iff)
  have len: "length (range_entries ix i tmax) = length (obj_list i ix) + length (range_entries ix (Suc i) tmax)"
    by (simp add: range_entries_Cons [OF i(1)])
  let ?acc = "case l of None \<Rightarrow> acc | Some es \<Rightarrow> take_bit 64 (acc + el_size es)"
  have acc: "?acc = acc + length (obj_list i ix)"
    using l Suc.prems len list_entries_bound(1) [OF assms(1) k] obj_list_None
    by (cases l) (simp_all add: take_bit_id)
  have "filter_count_from ix i tmax acc = filter_count_from ix (Suc i) tmax ?acc"
    using i(1) l wrap by (simp add: filter_count_from.simps [of ix i])
  then show ?case using Suc.hyps(1) [OF i(2), of ?acc] Suc.prems acc len by simp
qed

text \<open>The indexes of the packet store have keys of at most four bytes.\<close>

lemma own_index:
  assumes "pstore_ok s" "iid \<in> set (own_ids s)"
  shows "\<exists>p n. index_ptr iid (base s) = Some (Some p) \<and> p < length (index_heap (base s)) \<and> obj_ok (index_heap (base s) ! p)
    \<and> obj_bytes (index_heap (base s) ! p) = n \<and> idx_class (iid div OFFSETMIN) = Some n \<and> n \<le> 4"
proof -
  have id: "ids_ok s" and ix: "indexes_ok (base s)" using assms(1) by (simp_all add: pstore_ok_def)
  note i = ids_okD [OF id]
  obtain p n where pn: "index_ptr iid (base s) = Some (Some p)" "idx_class (iid div OFFSETMIN) = Some n" "n \<le> 4"
    by (cases rule: own_id_cases [OF assms(2)]) (use i in auto)
  then show ?thesis using ix unfolding indexes_ok_def by (intro exI [of _ p] exI [of _ n]) auto
qed

lemma own_ids_distinct: "pstore_ok s \<Longrightarrow> distinct (own_ids s)"
  using ids_okD(11) by (simp add: pstore_ok_def own_ids_def)

definition range_ids :: "nat \<Rightarrow> tok_range \<Rightarrow> packet_store \<Rightarrow> nat list" where
  "range_ids iid r s = concat (map (\<lambda>k. index_entries iid k (base s)) [fst r..<snd r + 1])"

lemma range_ids_entries:
  "index_ptr iid (base s) = Some (Some p) \<Longrightarrow> range_ids iid r s = range_entries (index_heap (base s) ! p) (fst r) (snd r)"
  by (simp add: range_ids_def range_entries_def index_entries_def)

lemma approx_pkt_count_exact:
  assumes "pstore_ok s" "iid \<in> set (own_ids s)" "key_fits iid (snd r)"
  shows "approx_pkt_count iid (fst r) (snd r) s = Some (length (range_ids iid r s)) \<and> length (range_ids iid r s) < UINT64_MAX"
proof -
  obtain p n where p: "index_ptr iid (base s) = Some (Some p)" "p < length (index_heap (base s))"
    "obj_ok (index_heap (base s) ! p)" "obj_bytes (index_heap (base s) ! p) = n" "idx_class (iid div OFFSETMIN) = Some n" "n \<le> 4"
    using own_index [OF assms(1,2)] by blast
  let ?ix = "index_heap (base s) ! p"
  have k: "snd r < 256 ^ n" using assms(3) p(5) by (simp add: key_fits_def)
  have "(256::nat) ^ n \<le> 256 ^ 4" using p(6) by (rule power_increasing) simp
  then have k4: "snd r < 2 ^ 32" using k by simp
  have "length (range_entries ?ix (fst r) (snd r)) \<le> (snd r + 1 - fst r) * 2 ^ 28"
    using range_entries_bound [OF p(3)] k p(4) by simp
  also have "\<dots> \<le> 2 ^ 32 * 2 ^ 28" using k4 by (intro mult_right_mono) simp_all
  finally have len: "length (range_entries ?ix (fst r) (snd r)) \<le> 2 ^ 60" by simp
  then have "filter_count_from ?ix (fst r) (snd r) 0 = Some (length (range_entries ?ix (fst r) (snd r)))"
    using filter_count_from_spec [OF p(3), of "snd r" 0 "fst r"] k k4 p(4) by simp
  then show ?thesis
    using p(1,2) len by (simp add: approx_pkt_count_def filter_count_def range_ids_entries)
qed

section \<open>Plans of clauses in a packet store\<close>

text \<open>A clause over the indexes of the store, whose ranges end inside the key space of their index.\<close>

definition clause_fits :: "packet_store \<Rightarrow> clause \<Rightarrow> bool" where
  "clause_fits s c \<longleftrightarrow> c \<noteq> [] \<and> (\<forall>f \<in> set c. f_index_id f \<in> set (own_ids s) \<and> key_fits (f_index_id f) (snd (f_tok_range f)))"

lemma absorb_upper:
  assumes "\<forall>f \<in> set fs. f_index_id f = iid \<longrightarrow> P iid (snd (f_tok_range f))" "P iid (snd r)"
  shows "P iid (snd (fst (absorb iid r fs)))"
  using assms
proof (induction iid r fs rule: absorb.induct)
  case (2 iid r f fs)
  show ?case
  proof (cases "f_index_id f = iid")
    case True
    have "P iid (snd (max (fst r) (fst (f_tok_range f)), min (snd r) (snd (f_tok_range f))))"
      using "2.prems" True by (simp add: min_def)
    then show ?thesis using "2.IH"(1) [OF True] "2.prems"(1) True by simp
  next
    case False
    then show ?thesis using "2.IH"(2) [OF False] "2.prems" by (simp add: case_prod_beta)
  qed
qed simp

text \<open>The upper end of every range of a reduced clause is the upper end of a range of the clause.\<close>

lemma reduce_upper:
  assumes "\<forall>f \<in> set c. P (f_index_id f) (snd (f_tok_range f))"
  shows "\<forall>f \<in> set (snd (reduce_clause c)). P (f_index_id f) (snd (f_tok_range f))"
  using assms
proof (induction c rule: reduce_clause.induct)
  case (2 f fs)
  obtain r fs' where a: "absorb (f_index_id f) (f_tok_range f) fs = (r, fs')" by fastforce
  then have "P (f_index_id f) (snd r)"
    using absorb_upper [of fs "f_index_id f" P "f_tok_range f"] "2.prems" by (metis fst_conv list.set_intros)
  moreover have "set fs' \<subseteq> set fs" using absorb_spec [of "f_index_id f" "f_tok_range f" fs] a by simp
  ultimately show ?case using "2.IH" [OF a [symmetric]] "2.prems" a by (auto simp: case_prod_beta)
qed simp


lemma build_clause_plan_fits:
  assumes "pstore_ok s" "clause_fits s c"
  shows "\<exists>cp. build_clause_plan s c = Some (Inr cp) \<and> (plan_valid cp \<longleftrightarrow> (\<exists>v. clause_sat v c))
    \<and> (plan_valid cp \<longrightarrow> (\<exists>f b. idx_filter cp = Some f \<and> perform_pkt_filter cp = Some b \<and> f_index_id f \<in> set (own_ids s)
        \<and> f \<in> set (snd (reduce_clause c)) \<and> (\<forall>p ts v. (\<forall>iid v. pkt_key s p ts iid = Some v \<longrightarrow> v \<le> UINT64_MAX) \<longrightarrow> pkt_key s p ts (f_index_id f) = Some v \<longrightarrow>
            (in_range (f_tok_range f) v \<and> (b \<longrightarrow> accepts_at (pkt_filter cp) p ts) \<longleftrightarrow> passes s p ts c))))"
proof -
  have c: "c \<noteq> []" "f_index_id ` set c \<subseteq> set (own_ids s)" "\<forall>f \<in> set c. key_fits (f_index_id f) (snd (f_tok_range f))"
    using assms(2) by (auto simp: clause_fits_def)
  have "f_index_id f \<in> set (own_ids s)" "key_fits (f_index_id f) (snd (f_tok_range f))" if "f \<in> set (snd (reduce_clause c))" for f
    using that reduce_clause_ids [of c] c(2) reduce_upper [OF c(3)] by auto
  then show ?thesis
    using build_clause_plan_spec [OF own_ids_distinct [OF assms(1)] c(2,1),
        of "\<lambda>f. length (range_ids (f_index_id f) (f_tok_range f) s)"] approx_pkt_count_exact [OF assms(1)] by blast
qed

end
