(* ===== verification/Query_Data.thy ===== *)
theory Query_Data
  imports Query_Count
begin

section \<open>Stored packets and their index entries\<close>

text \<open>
  A filter reads a stored packet back from the data log. If the headers of a packet lie inside its
  bytes, it reads the same fields as the indexes did when the packet was inserted. The invariant
  \<open>complete\<close> says that every list of the five indexes has exactly the identifiers of the stored packets
  with that key, in ascending order; a new store has it and inserting a burst keeps it.
\<close>

definition cells_of :: "u8 list \<Rightarrow> packet" where
  "cells_of bs = (\<lambda>i. if i < length bs then Some (bs ! i) else None)"

subsection \<open>Reading from more memory\<close>

lemma those_le:
  assumes "those (map p xs) = Some ys" "p \<subseteq>\<^sub>m q"
  shows "those (map q xs) = Some ys"
  using assms(1)
proof (induction xs arbitrary: ys)
  case (Cons x xs)
  then obtain v vs where v: "p x = Some v" "those (map p xs) = Some vs" "ys = v # vs" by (auto split: option.splits)
  then have "q x = Some v" using assms(2) by (auto simp: map_le_def dom_def)
  then show ?case using Cons.IH v by simp
qed simp

lemma load_le: "load off n p = Some v \<Longrightarrow> p \<subseteq>\<^sub>m q \<Longrightarrow> load off n q = Some v"
  using those_le by (fastforce simp: load_def load_bytes_def)

lemma fields_le:
  assumes "pkt_fields_of L p = Some f" "p \<subseteq>\<^sub>m q"
  shows "pkt_fields_of L q = Some f"
proof -
  note le = load_le [OF _ assms(2)]
  have attr: "\<And>v. ipv4_next_proto_id L p = Some v \<Longrightarrow> ipv4_next_proto_id L q = Some v"
    "\<And>v. ipv4_src_addr L p = Some v \<Longrightarrow> ipv4_src_addr L q = Some v"
    "\<And>v. ipv4_dst_addr L p = Some v \<Longrightarrow> ipv4_dst_addr L q = Some v"
    "\<And>v. tcp_src_port L p = Some v \<Longrightarrow> tcp_src_port L q = Some v"
    "\<And>v. tcp_dst_port L p = Some v \<Longrightarrow> tcp_dst_port L q = Some v"
    "\<And>v. udp_src_port L p = Some v \<Longrightarrow> udp_src_port L q = Some v"
    "\<And>v. udp_dst_port L p = Some v \<Longrightarrow> udp_dst_port L q = Some v"
    by (simp_all add: attribute_defs le)
  show ?thesis
    using assms(1) unfolding pkt_fields_of_def bind_Some_iff
    by (elim exE conjE) (simp add: attr bind_Some_iff split: if_splits; (elim exE conjE)?; simp add: attr)
qed

lemma cells_of_load: "load_bytes 0 n pkt = Some bs \<Longrightarrow> cells_of bs \<subseteq>\<^sub>m pkt"
proof -
  assume a: "load_bytes 0 n pkt = Some bs"
  have "those xs = Some ys \<Longrightarrow> i < length ys \<Longrightarrow> xs ! i = Some (ys ! i)" for xs :: "u8 option list" and ys i
    by (induction xs arbitrary: ys i) (auto split: option.splits simp: nth_Cons split: nat.splits)
  from this [of "map pkt [0..<n]" bs] show "cells_of bs \<subseteq>\<^sub>m pkt"
    using a load_bytes_length [OF a] by (auto simp: map_le_def cells_of_def load_bytes_def split: if_splits)
qed

text \<open>A packet whose headers lie inside its bytes.\<close>

definition headers_inside :: "hdr_layout \<Rightarrow> mbuf \<Rightarrow> bool" where
  "headers_inside L m \<longleftrightarrow> pkt_fields_of L (cells_of (pkt_bytes m)) \<noteq> None"

lemma headers_inside_fields:
  assumes "pkt_ok L m" "headers_inside L m"
  shows "pkt_fields_of L (cells_of (pkt_bytes m)) = Some (fields_of L m)"
proof -
  obtain f where f: "pkt_fields_of L (cells_of (pkt_bytes m)) = Some f" using assms(2) by (auto simp: headers_inside_def)
  obtain bs where bs: "load_bytes 0 (pkt_len m) (mtod m) = Some bs" using assms(1) by (auto simp: pkt_ok_def)
  then have "cells_of (pkt_bytes m) \<subseteq>\<^sub>m mtod m" using cells_of_load [OF bs] by (simp add: pkt_bytes_def)
  from fields_le [OF f this] show ?thesis using f by (simp add: fields_of_def)
qed

subsection \<open>Reading packets back\<close>

lemma store_pkts_nth: "i < num_pkts s \<Longrightarrow> store_pkts s ! i = the (pkt_at i (base s))"
  by (simp add: store_pkts_def)

lemma stored_pkt:
  assumes "packets_ok b" "i < num_records b"
  obtains off len bytes c where "offset_lookup i (olog_of b) = Some (off, len)" "length bytes = len + 8"
    "lin_ptr datalog_nb datalog_bs off (dlog b) = Some (off div datalog_bs, off mod datalog_bs)"
    "off mod datalog_bs + (len + 8) \<le> datalog_bs + BUFFER_SIZE" "block_cells (off div datalog_bs) (dlog b) = c"
    "\<And>j. j < len + 8 \<Longrightarrow> c (off mod datalog_bs + j) = Some (bytes ! j)"
    "pkt_at i b = Some (le_value (take 8 bytes), drop 8 bytes)"
proof -
  obtain off len bytes where o: "offset_lookup i (olog_of b) = Some (off, len)"
    "lin_read datalog_nb datalog_bs off (len + 8) (dlog b) = Some (map Some bytes)"
    using assms unfolding packets_ok_def by blast
  obtain c where c: "lin_load datalog_nb (off div datalog_bs) (dlog b) = Some (Some c)"
    "off mod datalog_bs + (len + 8) \<le> datalog_bs + BUFFER_SIZE"
    "map c [off mod datalog_bs..<off mod datalog_bs + (len + 8)] = map Some bytes"
    using o(2) by (auto simp: lin_read_def lin_copy_out_def bind_Some_iff split: if_splits)
  have len: "length bytes = len + 8" using arg_cong [OF c(3), of length] by simp
  have cell: "c (off mod datalog_bs + j) = Some (bytes ! j)" if "j < len + 8" for j
    using arg_cong [OF c(3), of "\<lambda>xs. xs ! j"] that len by (simp del: upt_Suc)
  have "lin_ptr datalog_nb datalog_bs off (dlog b) = Some (off div datalog_bs, off mod datalog_bs)"
    using c(1) by (simp add: lin_ptr_def)
  moreover have "block_cells (off div datalog_bs) (dlog b) = c"
    using c(1) by (auto simp: lin_load_def block_cells_def split: if_splits)
  moreover have "pkt_at i b = Some (le_value (take 8 bytes), drop 8 bytes)" using o by (simp add: pkt_at_def)
  ultimately show thesis using that o(1) len c(2) cell by blast
qed

lemma pkt_verdict_stored:
  assumes "packets_ok b" "i < num_records b" "pkt_at i b = Some (ts, bytes)" "pkt_fields_of L (cells_of bytes) = Some p"
  shows "pkt_verdict L pf (dlog b) (olog_of b) i = Some (accepts_at pf p (take_bit 32 ts))"
proof (rule stored_pkt [OF assms(1,2)])
  fix off len all c
  assume o: "offset_lookup i (olog_of b) = Some (off, len)" "length all = len + 8"
    "lin_ptr datalog_nb datalog_bs off (dlog b) = Some (off div datalog_bs, off mod datalog_bs)"
    "off mod datalog_bs + (len + 8) \<le> datalog_bs + BUFFER_SIZE" "block_cells (off div datalog_bs) (dlog b) = c"
    "\<And>j. j < len + 8 \<Longrightarrow> c (off mod datalog_bs + j) = Some (all ! j)"
    "pkt_at i b = Some (le_value (take 8 all), drop 8 all)"
  let ?m = "\<lambda>k. log_mem (dlog b) (off div datalog_bs, off mod datalog_bs + k)"
  have mem: "?m k j = Some (all ! (k + j))" if "k + j < len + 8" for k j
    using o(4-6) that by (simp add: log_mem_def add.assoc)
  have "load_bytes 0 (length (take 8 all)) (?m 0) = Some (take 8 all)"
    using mem [of 0] o(2) by (intro load_bytes_list) simp
  then have ts: "load 0 8 (?m 0) = Some ts" using o(2,7) assms(3) by (simp add: load_def)
  have "cells_of bytes \<subseteq>\<^sub>m ?m 8"
    using mem [of 8] o(2,7) assms(3) by (auto simp: map_le_def cells_of_def split: if_splits)
  then have "pkt_fields_of L (?m 8) = Some p" using fields_le [OF assms(4)] by blast
  from apply_ts_accepts [OF this] show ?thesis using o(1,3) ts by (simp add: pkt_verdict_def)
qed

section \<open>Complete indexes\<close>

text \<open>The key of a stored packet in an index of the store.\<close>

definition stored_key :: "hdr_layout \<Rightarrow> packet_store \<Rightarrow> nat \<Rightarrow> nat \<Rightarrow> nat option" where
  "stored_key L s iid i =
     (case store_pkts s ! i of (ts, bytes) \<Rightarrow> do { p \<leftarrow> pkt_fields_of L (cells_of bytes); pkt_key s p ts iid })"

definition readable_pkt :: "hdr_layout \<Rightarrow> nat \<times> u8 list \<Rightarrow> bool" where
  "readable_pkt L x \<longleftrightarrow> fst x < 2 ^ 32 \<and> pkt_fields_of L (cells_of (snd x)) \<noteq> None"

definition complete :: "hdr_layout \<Rightarrow> packet_store \<Rightarrow> bool" where
  "complete L s \<longleftrightarrow> list_all (readable_pkt L) (store_pkts s)
     \<and> (\<forall>iid \<in> set (own_ids s). \<forall>k. key_fits iid k \<longrightarrow>
          index_entries iid k (base s) = filter (\<lambda>i. stored_key L s iid i = Some k) [0..<num_pkts s])"

lemma matching_ids_filter: "matching_ids P rid ms = filter (\<lambda>i. P (ms ! (i - rid))) [rid..<rid + length ms]"
proof (induction ms arbitrary: rid)
  case (Cons m ms)
  have "filter (\<lambda>i. P ((m # ms) ! (i - rid))) [Suc rid..<Suc rid + length ms]
      = filter (\<lambda>i. P (ms ! (i - Suc rid))) [Suc rid..<Suc rid + length ms]"
    by (intro filter_cong) (auto simp: nth_Cons split: nat.split dest: Suc_diff_le)
  then show ?case using Cons.IH [of "Suc rid"] by (simp add: upt_conv_Cons del: upt_Suc)
qed simp

lemma pkt_has_key:
  assumes "distinct (own_ids s)" "iid \<in> set (own_ids s)" "iid \<noteq> timestamp_idx_id s"
  shows "pkt_has s iid k p \<longleftrightarrow> pkt_key s p ts iid = Some k"
  using own_ids_neq [OF assms(1)] assms(3)
  by (cases rule: own_id_cases [OF assms(2)]) (auto simp: pkt_has_def pkt_key_def split: option.splits)

lemma pkt_has_ts:
  assumes "distinct (own_ids s)"
  shows "\<not> pkt_has s (timestamp_idx_id s) k p" "pkt_key s p ts (timestamp_idx_id s) = Some ts"
  using own_ids_neq [OF assms] own_ids_neq [OF assms, symmetric] by (auto simp: pkt_has_def pkt_key_def split: option.splits)

lemma burst_entries:
  assumes "distinct (own_ids s)" "iid \<in> set (own_ids s)"
  shows "(if iid = timestamp_idx_id s \<and> k = now then [rid..<rid + length ms] else [])
      @ matching_ids (\<lambda>m. pkt_has s iid k (fields_of L m)) rid ms
    = filter (\<lambda>i. pkt_key s (fields_of L (ms ! (i - rid))) now iid = Some k) [rid..<rid + length ms]"
proof (cases "iid = timestamp_idx_id s")
  case True
  then show ?thesis using pkt_has_ts [OF assms(1)] by (simp add: matching_ids_filter)
next
  case False
  then show ?thesis using pkt_has_key [OF assms False] by (simp add: matching_ids_filter)
qed

lemma insert_pktburst_complete:
  assumes ok: "pstore_ok s" "complete L s" and room: "burst_room L now pkts s" "\<forall>m \<in> set pkts. headers_inside L m"
  shows "\<exists>s'. insert_pktburst L now pkts s = Some s' \<and> pstore_ok s' \<and> complete L s'
    \<and> store_pkts s' = store_pkts s @ map (\<lambda>m. (now, pkt_bytes m)) pkts"
proof -
  obtain b ix where r: "insert_pktburst L now pkts s = Some (s\<lparr>base := b, char_idx := ix\<rparr>)"
    "pstore_ok (s\<lparr>base := b, char_idx := ix\<rparr>)"
    "store_pkts (s\<lparr>base := b, char_idx := ix\<rparr>) = store_pkts s @ map (\<lambda>m. (now, pkt_bytes m)) pkts"
    "\<forall>iid k. index_ptr iid (base s) \<noteq> Some None \<longrightarrow> key_fits iid k \<longrightarrow>
        index_entries iid k b = index_entries iid k (base s)
          @ (if iid = timestamp_idx_id s \<and> k = now then [num_pkts s..<num_pkts s + length pkts] else [])
          @ matching_ids (\<lambda>m. pkt_has s iid k (fields_of L m)) (num_pkts s) pkts"
    using insert_pktburst_spec [OF ok(1) room(1)] by blast
  let ?s = "s\<lparr>base := b, char_idx := ix\<rparr>" and ?n = "num_pkts s"
  have num: "num_pkts ?s = ?n + length pkts" and len: "length (store_pkts s) = ?n"
    using arg_cong [OF r(3), of length] by (simp_all add: store_pkts_def)
  have p: "pkt_ok L m \<and> headers_inside L m" if "m \<in> set pkts" for m using room that by (auto simp: burst_room_def)
  have now: "now < 2 ^ 32" using room(1) by (simp add: burst_room_def)
  note d = own_ids_distinct [OF ok(1)]
  have own: "own_ids ?s = own_ids s" "pkt_key ?s = pkt_key s" by (simp_all add: own_ids_def pkt_key_def fun_eq_iff)
  have key: "stored_key L ?s iid i = (if i < ?n then stored_key L s iid i
      else pkt_key s (fields_of L (pkts ! (i - ?n))) now iid)" if "i < ?n + length pkts" for iid i
    using that p headers_inside_fields by (simp add: stored_key_def r(3) own nth_append len)
  have "index_entries iid k b = filter (\<lambda>i. stored_key L ?s iid i = Some k) [0..<num_pkts ?s]"
    if i: "iid \<in> set (own_ids s)" "key_fits iid k" for iid k
  proof -
    have "index_ptr iid (base s) \<noteq> Some None" using own_index [OF ok(1) i(1)] by auto
    then have "index_entries iid k b = index_entries iid k (base s)
        @ filter (\<lambda>i. pkt_key s (fields_of L (pkts ! (i - ?n))) now iid = Some k) [?n..<?n + length pkts]"
      using r(4) i(2) burst_entries [OF d i(1), of k now ?n pkts L] by simp
    also have "\<dots> = filter (\<lambda>i. stored_key L ?s iid i = Some k) [0..<?n]
        @ filter (\<lambda>i. stored_key L ?s iid i = Some k) [?n..<?n + length pkts]"
      using ok(2) i by (intro arg_cong2 [where f = append]) (auto simp: complete_def key intro!: filter_cong)
    also have "\<dots> = filter (\<lambda>i. stored_key L ?s iid i = Some k) [0..<?n + length pkts]"
      by (metis filter_append le_add1 upt_add_eq_append zero_le)
    finally show ?thesis using num by simp
  qed
  moreover have "list_all (readable_pkt L) (store_pkts ?s)"
    using ok(2) p now headers_inside_fields unfolding r(3) by (auto simp: complete_def readable_pkt_def list_all_iff)
  ultimately have "complete L ?s" by (simp add: complete_def own)
  then show ?thesis using r(1-3) by blast
qed

lemma packet_store_init_complete:
  "\<exists>s. packet_store_init = Some s \<and> pstore_ok s \<and> complete L s \<and> store_pkts s = []"
proof -
  obtain s where s: "packet_store_init = Some s" "pstore_ok s" "num_pkts s = 0"
    "\<forall>j k. key_fits j k \<longrightarrow> index_entries j k (base s) = []"
    using packet_store_init_ok by (elim exE conjE) (rule that)
  then show ?thesis by (intro exI [of _ s]) (simp add: complete_def store_pkts_def)
qed

end
