(* ===== verification/Query_Correct.thy ===== *)
theory Query_Correct
  imports Query_Data
begin

section \<open>What a query returns\<close>

text \<open>
  The planner, the indexes and the packet filters together. The specification is by the keys of the stored
  packets: a packet matches a clause if it has a key in range for every filter, and is excluded by it
  if one of its keys is out of range; a packet without ports can be neither. A query
  finds every packet that matches, and apart from the first entry of each clause, which is not checked
  against the packet filter, nothing that is excluded.
\<close>

definition pkt_matches :: "hdr_layout \<Rightarrow> packet_store \<Rightarrow> clause \<Rightarrow> nat \<Rightarrow> bool" where
  "pkt_matches L s c i \<longleftrightarrow> (\<forall>f \<in> set c. \<exists>v. stored_key L s (f_index_id f) i = Some v \<and> in_range (f_tok_range f) v)"

definition pkt_excluded :: "hdr_layout \<Rightarrow> packet_store \<Rightarrow> clause \<Rightarrow> nat \<Rightarrow> bool" where
  "pkt_excluded L s c i \<longleftrightarrow> (\<exists>f \<in> set c. \<exists>v. stored_key L s (f_index_id f) i = Some v \<and> \<not> in_range (f_tok_range f) v)"

text \<open>
  The ranges a result can enumerate: nonempty, on an index of the store, and ending before the last
  key, because the iterator reads the key behind the range.
\<close>

definition filter_inside :: "packet_store \<Rightarrow> index_filter \<Rightarrow> bool" where
  "filter_inside s f \<longleftrightarrow> f_index_id f \<in> set (own_ids s) \<and> fst (f_tok_range f) \<le> snd (f_tok_range f)
     \<and> key_fits (f_index_id f) (snd (f_tok_range f) + 1)"

lemma key_fits_le: "key_fits iid b \<Longrightarrow> a \<le> b \<Longrightarrow> key_fits iid a"
  by (auto simp: key_fits_def split: option.splits)

lemma range_ids_stored:
  assumes "complete L s" "filter_inside s f"
  shows "set (range_ids (f_index_id f) (f_tok_range f) s) =
    {i. i < num_pkts s \<and> (\<exists>v. stored_key L s (f_index_id f) i = Some v \<and> in_range (f_tok_range f) v)}"
proof -
  have "index_entries (f_index_id f) k (base s) = filter (\<lambda>i. stored_key L s (f_index_id f) i = Some k) [0..<num_pkts s]"
    if "k \<le> snd (f_tok_range f)" for k
    using assms that key_fits_le [of "f_index_id f" "snd (f_tok_range f) + 1" k]
    by (simp add: complete_def filter_inside_def)
  then show ?thesis by (auto simp: range_ids_def in_range_def)
qed

definition first_of :: "'a list \<Rightarrow> 'a set" where
  "first_of xs = (case xs of [] \<Rightarrow> {} | x # _ \<Rightarrow> {x})"

lemma card_first_of: "finite (first_of xs)" "card (first_of xs) \<le> 1"
  by (simp_all add: first_of_def split: list.split)

text \<open>The verdict of a packet filter on a stored packet.\<close>

definition stored_accepts :: "hdr_layout \<Rightarrow> packet_store \<Rightarrow> packet_filter \<Rightarrow> nat \<Rightarrow> bool" where
  "stored_accepts L s pf i =
     (case store_pkts s ! i of (ts, bytes) \<Rightarrow> accepts_at pf (the (pkt_fields_of L (cells_of bytes))) ts)"

lemma stored_pkt_fields:
  assumes "pstore_ok s" "complete L s" "i < num_pkts s"
  obtains ts bytes p where "store_pkts s ! i = (ts, bytes)" "pkt_at i (base s) = Some (ts, bytes)" "ts < 2 ^ 32"
    "pkt_fields_of L (cells_of bytes) = Some p" "\<And>iid. stored_key L s iid i = pkt_key s p ts iid"
    "\<And>pf. stored_accepts L s pf i = accepts_at pf p ts"
    "\<And>pf. pkt_verdict L pf (dlog (base s)) (olog_of (base s)) i = Some (stored_accepts L s pf i)"
proof -
  have p: "packets_ok (base s)" "i < num_records (base s)" using assms(1,3) by (simp_all add: pstore_ok_def num_pkts_def)
  obtain ts bytes where at: "pkt_at i (base s) = Some (ts, bytes)" by (rule stored_pkt [OF p])
  then have nth: "store_pkts s ! i = (ts, bytes)" using store_pkts_nth [OF assms(3)] by simp
  have "readable_pkt L (ts, bytes)"
    using assms(2,3) nth unfolding complete_def list_all_length by (auto simp: store_pkts_def)
  then obtain f where f: "ts < 2 ^ 32" "pkt_fields_of L (cells_of bytes) = Some f" by (auto simp: readable_pkt_def)
  have "stored_accepts L s pf i = accepts_at pf f ts" for pf using nth f(2) by (simp add: stored_accepts_def)
  moreover have "pkt_verdict L pf (dlog (base s)) (olog_of (base s)) i = Some (accepts_at pf f ts)" for pf
    using pkt_verdict_stored [OF p at f(2)] take_bit_id [OF f(1)] by simp
  ultimately show thesis using that [OF nth at f] nth f(2) by (simp add: stored_key_def)
qed

text \<open>One clause: the entries of the index range that the filter accepts, and the first entry.\<close>

lemma clause_pkts_ids:
  assumes "pstore_ok s" "complete L s" "idx_filter cp = Some f" "perform_pkt_filter cp = Some b" "filter_inside s f"
  shows "\<exists>ids. clause_pkts L (num_pkts s) cp s = Some ids
    \<and> set ids = {i \<in> set (range_ids (f_index_id f) (f_tok_range f) s). b \<longrightarrow> stored_accepts L s (pkt_filter cp) i}
        \<union> first_of (range_ids (f_index_id f) (f_tok_range f) s)"
proof -
  let ?iid = "f_index_id f" and ?r = "f_tok_range f" and ?n = "num_pkts s"
  obtain p n where p: "index_ptr ?iid (base s) = Some (Some p)" "p < length (index_heap (base s))"
    "obj_ok (index_heap (base s) ! p)" "obj_bytes (index_heap (base s) ! p) = n" "idx_class (?iid div OFFSETMIN) = Some n"
    using own_index [OF assms(1)] assms(5) unfolding filter_inside_def by blast
  let ?ix = "index_heap (base s) ! p"
  let ?fr = "\<lparr>fr_index = Some ?ix, tok_min = fst ?r, tok_max = snd ?r, max_rid = ?n\<rparr>"
  have le: "fst ?r \<le> snd ?r" and fits: "snd ?r + 1 < 256 ^ n"
    using assms(5) p(5) by (simp_all add: filter_inside_def key_fits_def)
  have "obj_list k ?ix \<noteq> []" if k: "k \<le> snd ?r" "obj_at k ?ix = Some (Some l)" for k l
  proof -
    have "obj_covers k ?ix" using k(1) fits p(4) by (simp add: obj_covers_iff)
    then show ?thesis using p(3) k(2) by (simp add: obj_ok_def obj_list_Some)
  qed
  then have fr: "fr_ok ?fr ?ix" using p(3,4) le fits by (auto simp: fr_ok_def)
  have res: "log_filter_max ?iid (fst ?r) (snd ?r) ?n (base s) = Some ?fr" using p(1,2) by (simp add: log_filter_max_def)
  have ids: "range_ids ?iid ?r s = range_entries ?ix (fst ?r) (snd ?r)" by (rule range_ids_entries [OF p(1)])
  have vis: "v < ?n" if "v \<in> set (range_ids ?iid ?r s)" for v using that range_ids_stored [OF assms(2,5)] by simp
  have verdict: "pkt_verdict L (pkt_filter cp) (dlog (base s)) (olog_of (base s)) v = Some (stored_accepts L s (pkt_filter cp) v)"
    if "v < ?n" for v by (rule stored_pkt_fields [OF assms(1,2) that]) blast
  let ?Q = "\<lambda>v. b \<longrightarrow> stored_accepts L s (pkt_filter cp) v"
  have "filter_iterate ?fr = Some (case range_ids ?iid ?r s of [] \<Rightarrow> [] | e # es \<Rightarrow> e # filter (\<lambda>v. v < ?n) es)"
    using filter_iterate_spec [OF fr] ids by (simp cong: list.case_cong)
  moreover have "pf_iterate L (pkt_filter cp) (dlog (base s)) (olog_of (base s)) ?fr =
      Some (case range_ids ?iid ?r s of [] \<Rightarrow> [] | e # es \<Rightarrow> e # filter (\<lambda>v. v < ?n \<and> stored_accepts L s (pkt_filter cp) v) es)"
    using pf_iterate_spec [OF fr, where P = "stored_accepts L s (pkt_filter cp)"] verdict ids by (simp cong: list.case_cong)
  ultimately have run: "clause_pkts L ?n cp s =
      Some (case range_ids ?iid ?r s of [] \<Rightarrow> [] | e # es \<Rightarrow> e # filter (\<lambda>v. v < ?n \<and> ?Q v) es)"
    using assms(3,4) res by (cases b) (simp_all add: clause_pkts_def cong: list.case_cong)
  show ?thesis
    using run vis by (cases "range_ids ?iid ?r s") (auto simp: first_of_def)
qed

lemma single_filter_ids:
  assumes "pstore_ok s" "complete L s" "idx_filter cp = Some f" "perform_pkt_filter cp = Some False" "filter_inside s f"
  shows "\<exists>ids. clause_pkts L (num_pkts s) cp s = Some ids \<and> set ids = {i. i < num_pkts s \<and> pkt_matches L s [f] i}"
proof -
  obtain ids where ids: "clause_pkts L (num_pkts s) cp s = Some ids"
    "set ids = set (range_ids (f_index_id f) (f_tok_range f) s) \<union> first_of (range_ids (f_index_id f) (f_tok_range f) s)"
    using clause_pkts_ids [OF assms] by auto
  moreover have "first_of xs \<subseteq> set xs" for xs :: "nat list" by (simp add: first_of_def split: list.split)
  ultimately have "set ids = set (range_ids (f_index_id f) (f_tok_range f) s)" by blast
  then show ?thesis using ids(1) range_ids_stored [OF assms(2,5)] by (simp add: pkt_matches_def)
qed

lemma matches_sat: "pkt_matches L s c i \<Longrightarrow> clause_sat (\<lambda>iid. the (stored_key L s iid i)) c"
  by (auto simp: pkt_matches_def clause_sat_def)

lemma matches_passes:
  assumes "pstore_ok s" "complete L s" "i < num_pkts s" "stored_key L s (f_index_id f) i = Some v"
    and filt: "\<And>p ts v. (\<forall>iid v. pkt_key s p ts iid = Some v \<longrightarrow> v \<le> UINT64_MAX) \<Longrightarrow> pkt_key s p ts (f_index_id f) = Some v \<Longrightarrow>
            in_range (f_tok_range f) v \<and> (b \<longrightarrow> accepts_at pf p ts) \<longleftrightarrow> passes s p ts c"
  shows "in_range (f_tok_range f) v \<and> (b \<longrightarrow> stored_accepts L s pf i) \<longleftrightarrow> \<not> pkt_excluded L s c i"
proof (rule stored_pkt_fields [OF assms(1-3)])
  fix ts bytes p
  assume a: "ts < 2 ^ 32" "pkt_fields_of L (cells_of bytes) = Some p" "\<And>iid. stored_key L s iid i = pkt_key s p ts iid"
    "\<And>pf. stored_accepts L s pf i = accepts_at pf p ts"
  have "w \<le> UINT64_MAX" if "pkt_key s p ts iid = Some w" for iid w using pkt_key_bound [OF a(2,1) that] by simp
  then show ?thesis using filt [of p ts v] assms(4) a(3,4) by (auto simp: passes_def pkt_excluded_def)
qed

lemma clause_query:
  assumes ok: "pstore_ok s" "complete L s" and c: "c \<noteq> []" "\<forall>f \<in> set c. filter_inside s f"
  shows "\<exists>cp. build_clause_plan s c = Some (Inr cp)
    \<and> (if plan_valid cp then \<exists>ids E. clause_pkts L (num_pkts s) cp s = Some ids \<and> finite E \<and> card E \<le> 1
         \<and> set ids \<subseteq> {..<num_pkts s} \<and> {i. i < num_pkts s \<and> pkt_matches L s c i} \<subseteq> set ids
         \<and> (\<forall>i \<in> set ids - E. \<not> pkt_excluded L s c i)
       else \<forall>i. \<not> pkt_matches L s c i)"
proof -
  have fits: "clause_fits s c" using c key_fits_le by (fastforce simp: clause_fits_def filter_inside_def)
  obtain cp where cp: "build_clause_plan s c = Some (Inr cp)" "plan_valid cp \<longleftrightarrow> (\<exists>v. clause_sat v c)"
    "plan_valid cp \<Longrightarrow> (\<exists>f b. idx_filter cp = Some f \<and> perform_pkt_filter cp = Some b \<and> f_index_id f \<in> set (own_ids s)
        \<and> f \<in> set (snd (reduce_clause c)) \<and> (\<forall>p ts v. (\<forall>iid v. pkt_key s p ts iid = Some v \<longrightarrow> v \<le> UINT64_MAX) \<longrightarrow>
            pkt_key s p ts (f_index_id f) = Some v \<longrightarrow>
            (in_range (f_tok_range f) v \<and> (b \<longrightarrow> accepts_at (pkt_filter cp) p ts) \<longleftrightarrow> passes s p ts c)))"
    using build_clause_plan_fits [OF ok(1) fits] by (elim exE conjE) (rule that, assumption, assumption, erule (1) mp)
  show ?thesis
  proof (cases "plan_valid cp")
    case False
    then have "\<not> pkt_matches L s c i" for i using cp(2) matches_sat [of L s c i] by blast
    then show ?thesis using cp(1) False by (intro exI [of _ cp]) simp
  next
    case True
    then obtain f b where f: "idx_filter cp = Some f" "perform_pkt_filter cp = Some b" "f_index_id f \<in> set (own_ids s)"
      "f \<in> set (snd (reduce_clause c))"
      and filt: "\<forall>p ts v. (\<forall>iid v. pkt_key s p ts iid = Some v \<longrightarrow> v \<le> UINT64_MAX) \<longrightarrow> pkt_key s p ts (f_index_id f) = Some v \<longrightarrow>
            (in_range (f_tok_range f) v \<and> (b \<longrightarrow> accepts_at (pkt_filter cp) p ts) \<longleftrightarrow> passes s p ts c)"
      using cp(3) [OF True] by (elim exE conjE) (rule that)
    obtain c' where red: "reduce_clause c = (True, c')"
      using True cp(2) reduce_clause_False by (cases "reduce_clause c"; cases "fst (reduce_clause c)") fastforce+
    have upper: "key_fits (f_index_id f) (snd (f_tok_range f) + 1)"
      using reduce_upper [of c "\<lambda>i u. key_fits i (u + 1)"] c(2) f(4) by (simp add: filter_inside_def)
    have inside: "filter_inside s f"
      using f(3,4) upper reduce_clause_True(3) [OF red] red by (simp add: filter_inside_def)
    let ?ids = "range_ids (f_index_id f) (f_tok_range f) s"
    obtain ids where ids: "clause_pkts L (num_pkts s) cp s = Some ids"
      "set ids = {i \<in> set ?ids. b \<longrightarrow> stored_accepts L s (pkt_filter cp) i} \<union> first_of ?ids"
      using clause_pkts_ids [OF ok f(1,2) inside] by blast
    have sub: "first_of ?ids \<subseteq> set ?ids" by (simp add: first_of_def split: list.split)
    have set_ids: "set ?ids = {i. i < num_pkts s \<and> (\<exists>v. stored_key L s (f_index_id f) i = Some v \<and> in_range (f_tok_range f) v)}"
      by (rule range_ids_stored [OF ok(2) inside])
    note verdict = matches_passes [OF ok _ _ filt [rule_format]]
    have has: "\<exists>v. stored_key L s (f_index_id f) i = Some v" if "pkt_matches L s c i" for i
    proof -
      have "f_index_id f \<in> f_index_id ` set c" using f(4) reduce_clause_ids [of c] by auto
      then show ?thesis using that by (auto simp: pkt_matches_def)
    qed
    have "i \<in> set ids" if i: "i < num_pkts s" "pkt_matches L s c i" for i
    proof -
      obtain v where v: "stored_key L s (f_index_id f) i = Some v" using has [OF i(2)] by blast
      have "\<not> pkt_excluded L s c i" using i(2) by (fastforce simp: pkt_matches_def pkt_excluded_def)
      then have "in_range (f_tok_range f) v" "b \<longrightarrow> stored_accepts L s (pkt_filter cp) i"
        using verdict [OF i(1) v] by blast+
      then show ?thesis using ids(2) set_ids v i(1) by auto
    qed
    moreover have "\<not> pkt_excluded L s c i" if "i \<in> set ids - first_of ?ids" for i
      using that ids(2) set_ids verdict by auto
    moreover have "set ids \<subseteq> {..<num_pkts s}" using ids(2) set_ids sub by auto
    ultimately show ?thesis
      using cp(1) True ids(1) card_first_of [of ?ids] by (intro exI [of _ cp] conjI) (simp_all, blast)
  qed
qed

section \<open>Queries\<close>

text \<open>The clauses of an expression in disjunctive normal form.\<close>

fun disj_clauses :: "packet_store \<Rightarrow> nat \<Rightarrow> expression list \<Rightarrow> clause list result" where
  "disj_clauses s now [] = rreturn []"
| "disj_clauses s now (e # es) =
     (case e of
        Conj cs \<Rightarrow> rbind (build_clause s now cs) (\<lambda>c. rbind (disj_clauses s now es) (\<lambda>r. rreturn (c # r)))
      | _ \<Rightarrow> rthrow not_dnf_msg)"

definition expr_clauses :: "packet_store \<Rightarrow> nat \<Rightarrow> expression \<Rightarrow> clause list result" where
  "expr_clauses s now e =
     (case e of
        Predicate attr op val \<Rightarrow> rbind (build_index_filter s now attr op val) (\<lambda>f. rreturn [[f]])
      | Conj es \<Rightarrow> rbind (build_clause s now es) (\<lambda>c. rreturn [c])
      | Disj es \<Rightarrow> disj_clauses s now es
      | Neg _ \<Rightarrow> rreturn [])"

definition clause_inside :: "packet_store \<Rightarrow> clause \<Rightarrow> bool" where
  "clause_inside s c \<longleftrightarrow> c \<noteq> [] \<and> (\<forall>f \<in> set c. filter_inside s f)"

text \<open>
  A set of identifiers answers a disjunction of clauses when it has every packet that matches
  one of them and, but for one packet per clause, only packets that some clause does not exclude.
\<close>

definition answers :: "hdr_layout \<Rightarrow> packet_store \<Rightarrow> clause list \<Rightarrow> nat set \<Rightarrow> bool" where
  "answers L s cs R \<longleftrightarrow> R \<subseteq> {..<num_pkts s} \<and> {i. i < num_pkts s \<and> (\<exists>c \<in> set cs. pkt_matches L s c i)} \<subseteq> R
     \<and> (\<exists>E. finite E \<and> card E \<le> length cs \<and> (\<forall>i \<in> R - E. \<exists>c \<in> set cs. \<not> pkt_excluded L s c i))"

lemma answers_Cons:
  assumes "finite E" "card E \<le> 1" "A \<subseteq> {..<num_pkts s}" "{i. i < num_pkts s \<and> pkt_matches L s c i} \<subseteq> A"
    and "\<forall>i \<in> A - E. \<not> pkt_excluded L s c i" and R: "answers L s cs R"
  shows "answers L s (c # cs) (A \<union> R)"
proof -
  obtain E' where E': "finite E'" "card E' \<le> length cs" "\<forall>i \<in> R - E'. \<exists>c \<in> set cs. \<not> pkt_excluded L s c i"
    using R unfolding answers_def by blast
  have "card (E \<union> E') \<le> length (c # cs)" using card_Un_le [of E E'] assms(2) E'(2) by simp
  moreover have "\<forall>i \<in> (A \<union> R) - (E \<union> E'). \<exists>c \<in> set (c # cs). \<not> pkt_excluded L s c i"
    using assms(5) E'(3) by auto
  moreover have "finite (E \<union> E')" using assms(1) E'(1) by simp
  moreover have "A \<union> R \<subseteq> {..<num_pkts s}" "{i. i < num_pkts s \<and> (\<exists>c \<in> set (c # cs). pkt_matches L s c i)} \<subseteq> A \<union> R"
    using assms(3,4) R unfolding answers_def by auto
  ultimately show ?thesis unfolding answers_def by blast
qed

lemma answers_skip:
  assumes "\<forall>i. \<not> pkt_matches L s c i" "answers L s cs R"
  shows "answers L s (c # cs) R"
  using answers_Cons [of "{}" "{}" s L c cs R] assms by simp

lemma answers_Nil: "answers L s [] {}"
  unfolding answers_def by (intro conjI exI [of _ "{}"]) simp_all

lemma clauses_query:
  assumes "pstore_ok s" "complete L s" "\<forall>c \<in> set cs. clause_inside s c"
  shows "\<exists>ps. list_all2 (\<lambda>c p. build_clause_plan s c = Some (Inr p)) cs ps
    \<and> (\<exists>R. answers L s cs R \<and> (\<forall>R0. filter_clauses L (num_pkts s) (filter plan_valid ps) s R0 = Some (R0 \<union> R)))"
  using assms(3)
proof (induction cs)
  case Nil
  then show ?case using answers_Nil by fastforce
next
  case (Cons c cs)
  obtain ps R where ih: "list_all2 (\<lambda>c p. build_clause_plan s c = Some (Inr p)) cs ps" "answers L s cs R"
    "\<forall>R0. filter_clauses L (num_pkts s) (filter plan_valid ps) s R0 = Some (R0 \<union> R)"
    using Cons.IH Cons.prems by auto
  obtain cp where cp: "build_clause_plan s c = Some (Inr cp)"
    "if plan_valid cp then \<exists>ids E. clause_pkts L (num_pkts s) cp s = Some ids \<and> finite E \<and> card E \<le> 1
         \<and> set ids \<subseteq> {..<num_pkts s} \<and> {i. i < num_pkts s \<and> pkt_matches L s c i} \<subseteq> set ids
         \<and> (\<forall>i \<in> set ids - E. \<not> pkt_excluded L s c i)
     else \<forall>i. \<not> pkt_matches L s c i"
    using clause_query [OF assms(1,2), of c] Cons.prems by (auto simp: clause_inside_def)
  have all: "list_all2 (\<lambda>c p. build_clause_plan s c = Some (Inr p)) (c # cs) (cp # ps)" using ih(1) cp(1) by simp
  show ?case
  proof (cases "plan_valid cp")
    case True
    then obtain ids E where ids: "clause_pkts L (num_pkts s) cp s = Some ids" "finite E" "card E \<le> 1"
      "set ids \<subseteq> {..<num_pkts s}" "{i. i < num_pkts s \<and> pkt_matches L s c i} \<subseteq> set ids"
      "\<forall>i \<in> set ids - E. \<not> pkt_excluded L s c i" using cp(2) by auto
    have "filter_clauses L (num_pkts s) (filter plan_valid (cp # ps)) s R0 = Some (R0 \<union> (set ids \<union> R))" for R0
      using True ids(1) ih(3) by (simp add: Un_assoc)
    then show ?thesis using all answers_Cons [OF ids(2-6) ih(2)] by blast
  next
    case False
    then show ?thesis using all answers_skip [OF _ ih(2)] cp(2) ih(3) by (intro exI [of _ "cp # ps"]) auto
  qed
qed

lemma plan_disjuncts_plans:
  assumes "disj_clauses s now es = Some (Inr cs)" "list_all2 (\<lambda>c p. build_clause_plan s c = Some (Inr p)) cs ps"
  shows "plan_disjuncts s now es = Some (Inr (filter plan_valid ps))"
  using assms
proof (induction es arbitrary: cs ps)
  case (Cons e es)
  obtain xs where e: "e = Conj xs" using Cons.prems(1) by (cases e) (simp_all add: rthrow_def)
  obtain c cs' where c: "build_clause s now xs = Some (Inr c)" "disj_clauses s now es = Some (Inr cs')" "cs = c # cs'"
    using Cons.prems(1) e by (auto simp: rbind_def rreturn_def split: option.splits sum.splits)
  obtain p ps' where p: "ps = p # ps'" "build_clause_plan s c = Some (Inr p)"
    "list_all2 (\<lambda>c p. build_clause_plan s c = Some (Inr p)) cs' ps'"
    using Cons.prems(2) c(3) by (auto simp: list_all2_Cons1)
  show ?case using e c p Cons.IH [OF c(2) p(3)] by (simp add: rbind_def rreturn_def push_plan_def)
qed (simp add: rreturn_def)

lemma plan_plans:
  assumes "expr_clauses s now e = Some (Inr cs)" "list_all2 (\<lambda>c p. build_clause_plan s c = Some (Inr p)) cs ps"
    "\<nexists>attr op val. e = Predicate attr op val"
  shows "plan s now e = Some (Inr (filter plan_valid ps))"
proof (cases e)
  case (Conj es)
  obtain c where c: "build_clause s now es = Some (Inr c)" "cs = [c]"
    using assms(1) Conj by (auto simp: expr_clauses_def rbind_def rreturn_def split: option.splits sum.splits)
  then obtain p where "ps = [p]" "build_clause_plan s c = Some (Inr p)" using assms(2) by (auto simp: list_all2_Cons1)
  then show ?thesis using c Conj by (simp add: plan_def rbind_def rreturn_def push_plan_def)
next
  case (Disj es)
  then show ?thesis using plan_disjuncts_plans assms(1,2) by (simp add: expr_clauses_def plan_def)
qed (use assms in \<open>auto simp: expr_clauses_def plan_def rreturn_def\<close>)

lemma filter_pkts_clauses:
  "filter_pkts L R0 P s = filter_clauses L (num_pkts s) P s R0"
  by (simp add: filter_pkts_def num_pkts_def num_records_def)

lemma predicate_query:
  assumes ok: "pstore_ok s" "complete L s" and f: "build_index_filter s now attr op val = Some (Inr f)" "filter_inside s f"
  shows "\<exists>P. plan s now (Predicate attr op val) = Some (Inr P)
    \<and> filter_pkts L {} P s = Some {i. i < num_pkts s \<and> pkt_matches L s [f] i}"
proof -
  let ?p = "clause_plan_default\<lparr>plan_valid := True, perform_pkt_filter := Some False, idx_filter := Some f\<rparr>"
  obtain ids where "clause_pkts L (num_pkts s) ?p s = Some ids" "set ids = {i. i < num_pkts s \<and> pkt_matches L s [f] i}"
    using single_filter_ids [OF ok, of ?p f] f(2) by auto
  then have "filter_pkts L {} [?p] s = Some {i. i < num_pkts s \<and> pkt_matches L s [f] i}"
    by (simp add: filter_pkts_clauses)
  then show ?thesis using f(1) by (intro exI [of _ "[?p]"]) (simp add: plan_def rbind_def rreturn_def)
qed

end
