(* ===== verification/Query_Results.thy ===== *)
theory Query_Results
  imports Query_Correct
begin

section \<open>Properties of queries\<close>

text \<open>
  The theorems that join the packet store, its indexes, the planner and the packet filters, on stores
  built by \<open>packet_store_init\<close> and \<open>insert_pktburst\<close>, with concrete stores as witnesses.
\<close>

text \<open>
  Inserting a burst keeps the indexes complete. If every list of the five indexes has exactly the
  identifiers of the stored packets with that key, in ascending order, then it has them after a burst
  whose packets carry their headers inside their bytes.
\<close>

theorem insert_pktburst_keeps_complete:
  assumes "pstore_ok s" "complete L s" "burst_room L now pkts s" "\<forall>m \<in> set pkts. headers_inside L m"
  shows "\<exists>s'. insert_pktburst L now pkts s = Some s' \<and> pstore_ok s' \<and> complete L s'"
  using insert_pktburst_complete [OF assms] by blast

lemma query_answers_plan:
  assumes "pstore_ok s" "complete L s" "expr_clauses s now e = Some (Inr cs)" "\<forall>c \<in> set cs. clause_inside s c"
  shows "\<exists>P R. plan s now e = Some (Inr P) \<and> filter_pkts L {} P s = Some R \<and> answers L s cs R"
proof (cases "\<exists>attr op val. e = Predicate attr op val")
  case True
  then obtain attr op val where e: "e = Predicate attr op val" by blast
  then obtain f where f: "build_index_filter s now attr op val = Some (Inr f)" "cs = [[f]]"
    using assms(3) by (auto simp: expr_clauses_def rbind_def rreturn_def split: option.splits sum.splits)
  have "filter_inside s f" using assms(4) f(2) by (simp add: clause_inside_def)
  moreover have "answers L s [[f]] {i. i < num_pkts s \<and> pkt_matches L s [f] i}"
    unfolding answers_def by (intro conjI exI [of _ "{}"]) (auto simp: pkt_matches_def pkt_excluded_def)
  ultimately show ?thesis using predicate_query [OF assms(1,2) f(1)] e f(2) by blast
next
  case False
  obtain ps R where p: "list_all2 (\<lambda>c p. build_clause_plan s c = Some (Inr p)) cs ps" "answers L s cs R"
    "filter_clauses L (num_pkts s) (filter plan_valid ps) s {} = Some R"
    using clauses_query [OF assms(1,2,4)] by auto
  then show ?thesis using plan_plans [OF assms(3) p(1)] False by (auto simp: filter_pkts_clauses)
qed

text \<open>
  C5. A query returns the packets that match. For an expression in disjunctive normal form whose
  ranges are nonempty and end before the last key of their index, planning and evaluation
  complete; the result has every stored packet that matches a clause and, apart from at most one packet per
  clause, only packets that some clause does not exclude.
\<close>

theorem query_answers:
  assumes "pstore_ok s" "complete L s" "expr_clauses s now e = Some (Inr cs)" "\<forall>c \<in> set cs. clause_inside s c"
  shows "\<exists>P R. plan s now e = Some (Inr P) \<and> filter_pkts L {} P s = Some R \<and> answers L s cs R"
  by (rule query_answers_plan [OF assms])

lemma predicate_cast_exact:
  assumes "pstore_ok s" "complete L s" "build_index_filter s now attr op val = Some (Inr f)" "filter_inside s f"
  shows "\<exists>P. plan s now (Predicate attr op val) = Some (Inr P)
    \<and> cast_execute L agg_result_set P s = Some {i. i < num_pkts s \<and> pkt_matches L s [f] i}
    \<and> cast_execute L agg_count P s = Some (card {i. i < num_pkts s \<and> pkt_matches L s [f] i})"
proof -
  have "finite {i. i < num_pkts s \<and> pkt_matches L s [f] i}" by simp
  then show ?thesis
    using predicate_query [OF assms] by (auto simp: cast_execute_def execute_cast_def agg_result_set_def agg_count_def)
qed


text \<open>
  C17. The first entry of a clause is not filtered. When two filters on different indexes are met by
  one packet each, and not the same, no packet matches their conjunction, but the query returns the
  packet that meets the first filter.
\<close>

theorem conjunction_returns_unmatched:
  assumes "pstore_ok s" "complete L s" "f_index_id f \<noteq> f_index_id g" "filter_inside s f" "filter_inside s g"
    and "range_ids (f_index_id f) (f_tok_range f) s = [i]" "range_ids (f_index_id g) (f_tok_range g) s = [j]" "i \<noteq> j"
  shows "(\<forall>k < num_pkts s. \<not> pkt_matches L s [f, g] k)
    \<and> (\<exists>p. build_clause_plan s [f, g] = Some (Inr p) \<and> filter_pkts L {} [p] s = Some {i})"
proof -
  have fits: "key_fits (f_index_id f) (snd (f_tok_range f))" "key_fits (f_index_id g) (snd (f_tok_range g))"
    using assms(4,5) key_fits_le by (auto simp: filter_inside_def)
  have own: "f_index_id f \<in> set (own_ids s)" "f_index_id g \<in> set (own_ids s)"
    and le: "fst (f_tok_range f) \<le> snd (f_tok_range f)" "fst (f_tok_range g) \<le> snd (f_tok_range g)"
    using assms(4,5) by (simp_all add: filter_inside_def)
  have cnt: "f_count s f = Some 1" "f_count s g = Some 1"
    using approx_pkt_count_exact [OF assms(1) own(1) fits(1)] approx_pkt_count_exact [OF assms(1) own(2) fits(2)] assms(6,7)
    by simp_all
  have red: "reduce_clause [f, g] = (True, [f, g])" using assms(3) le by simp
  have ext: "extract_min_filter s [f, g] = Some (f, [g])" using cnt by (simp add: extract_min_filter_def)
  obtain pf where pf: "build_packet_filter s [g] = Some (Inr pf)"
    using build_packet_filter_passes [OF own_ids_distinct [OF assms(1)], of "[g]"] own(2) by auto
  let ?p = "\<lparr>idx_filter = Some f, pkt_filter = pf, plan_valid = True, perform_pkt_filter = Some True\<rparr>"
  have "build_clause_plan s [f, g] = Some (Inr ?p)" using red ext pf by (simp add: build_clause_plan_def rbind_def rreturn_def)
  moreover obtain ids where "clause_pkts L (num_pkts s) ?p s = Some ids" "set ids = {i}"
    using clause_pkts_ids [OF assms(1,2), of ?p f True] assms(4,6) by (auto simp: first_of_def)
  moreover have "\<not> pkt_matches L s [f, g] k" if "k < num_pkts s" for k
  proof
    assume m: "pkt_matches L s [f, g] k"
    then have "k \<in> set (range_ids (f_index_id f) (f_tok_range f) s)" "k \<in> set (range_ids (f_index_id g) (f_tok_range g) s)"
      unfolding range_ids_stored [OF assms(2,4)] range_ids_stored [OF assms(2,5)] using that by (auto simp: pkt_matches_def)
    then show False using assms(6-8) by simp
  qed
  ultimately show ?thesis by (auto simp: filter_pkts_clauses)
qed

text \<open>
  C9. Plans of clauses. On a store that satisfies the invariant, for a clause over the store's indexes
  whose ranges end inside their key space, \<^verbatim>\<open>build_clause_plan\<close> completes without an exception; the plan is
  valid exactly if the clause can be satisfied, and then its index filter and its packet filter
  together accept exactly the packets that pass the clause.
\<close>

theorem build_clause_plan_correct:
  assumes "pstore_ok s" "clause_fits s c"
  shows "\<exists>cp. build_clause_plan s c = Some (Inr cp) \<and> (plan_valid cp \<longleftrightarrow> (\<exists>v. clause_sat v c))
    \<and> (plan_valid cp \<longrightarrow> (\<exists>f b. idx_filter cp = Some f \<and> perform_pkt_filter cp = Some b
        \<and> (\<forall>L pkt p ts v. pkt_fields_of L pkt = Some p \<longrightarrow> ts < 2 ^ 32 \<longrightarrow> pkt_key s p ts (f_index_id f) = Some v \<longrightarrow>
            (in_range (f_tok_range f) v \<and> (b \<longrightarrow> accepts_at (pkt_filter cp) p ts) \<longleftrightarrow> passes s p ts c))))"
proof -
  obtain cp where cp: "build_clause_plan s c = Some (Inr cp)" "plan_valid cp \<longleftrightarrow> (\<exists>v. clause_sat v c)"
    "plan_valid cp \<longrightarrow> (\<exists>f b. idx_filter cp = Some f \<and> perform_pkt_filter cp = Some b \<and> f_index_id f \<in> set (own_ids s)
        \<and> f \<in> set (snd (reduce_clause c)) \<and> (\<forall>p ts v. (\<forall>iid v. pkt_key s p ts iid = Some v \<longrightarrow> v \<le> UINT64_MAX) \<longrightarrow>
            pkt_key s p ts (f_index_id f) = Some v \<longrightarrow>
            (in_range (f_tok_range f) v \<and> (b \<longrightarrow> accepts_at (pkt_filter cp) p ts) \<longleftrightarrow> passes s p ts c)))"
    using build_clause_plan_fits [OF assms] by (elim exE conjE) (rule that)
  have bound: "w \<le> UINT64_MAX" if "pkt_fields_of L pkt = Some p" "ts < 2 ^ 32" "pkt_key s p ts iid = Some w" for L pkt p ts iid w
    using pkt_key_bound [OF that] by simp
  show ?thesis
  proof (intro exI [of _ cp] conjI impI)
    assume "plan_valid cp"
    then obtain f b where f: "idx_filter cp = Some f" "perform_pkt_filter cp = Some b"
      "\<forall>p ts v. (\<forall>iid v. pkt_key s p ts iid = Some v \<longrightarrow> v \<le> UINT64_MAX) \<longrightarrow> pkt_key s p ts (f_index_id f) = Some v \<longrightarrow>
         (in_range (f_tok_range f) v \<and> (b \<longrightarrow> accepts_at (pkt_filter cp) p ts) \<longleftrightarrow> passes s p ts c)"
      using cp(3) by blast
    then show "\<exists>f b. idx_filter cp = Some f \<and> perform_pkt_filter cp = Some b
        \<and> (\<forall>L pkt p ts v. pkt_fields_of L pkt = Some p \<longrightarrow> ts < 2 ^ 32 \<longrightarrow> pkt_key s p ts (f_index_id f) = Some v \<longrightarrow>
            (in_range (f_tok_range f) v \<and> (b \<longrightarrow> accepts_at (pkt_filter cp) p ts) \<longleftrightarrow> passes s p ts c))"
      using bound by (intro exI [of _ f] exI [of _ b]) metis
  qed (use cp(1,2) in blast)+
qed

section \<open>Concrete stores\<close>

text \<open>A second packet, from 10.0.0.3, port 81, to 10.0.0.2, port 80.\<close>

definition tcp_bytes2 :: "u8 list" where
  "tcp_bytes2 = [2, 0, 0, 0, 0, 2,  2, 0, 0, 0, 0, 1,  8, 0,
     69, 0, 0, 40,  0, 0, 0, 0,  64, 6, 0, 0,  10, 0, 0, 3,  10, 0, 0, 2,
     0, 81,  0, 80,  0, 0, 0, 0,  0, 0, 0, 0,  80, 2,  0, 0,  0, 0,  0, 0]"

definition tcp_pkt2 :: mbuf where
  "tcp_pkt2 = \<lparr>pkt_len = 54, mtod = cells_of tcp_bytes2\<rparr>"

lemma tcp_fields_inside:
  "pkt_fields_of wire_layout (cells_of tcp_bytes) = Some \<lparr>p_src_addr = 16777226, p_dst_addr = 33554442, p_ports = Some (20480, 47873)\<rparr>"
  "pkt_fields_of wire_layout (cells_of tcp_bytes2) = Some \<lparr>p_src_addr = 50331658, p_dst_addr = 33554442, p_ports = Some (20736, 20480)\<rparr>"
  by (simp_all add: pkt_fields_of_def attribute_defs wire_layout_def cells_of_def load_def load_bytes_def upt_rec tcp_bytes_def
      tcp_bytes2_def IPPROTO_TCP_def)

lemma tcp_pkt2_bytes: "pkt_bytes tcp_pkt2 = tcp_bytes2" "pkt_ok wire_layout tcp_pkt2"
proof -
  have len: "length tcp_bytes2 = 54" by (simp add: tcp_bytes2_def)
  then have l: "load_bytes 0 54 (cells_of tcp_bytes2) = Some tcp_bytes2"
    using load_bytes_list [of tcp_bytes2 "cells_of tcp_bytes2" 0] by (simp add: cells_of_def)
  then show "pkt_bytes tcp_pkt2 = tcp_bytes2" by (simp add: pkt_bytes_def tcp_pkt2_def)
  show "pkt_ok wire_layout tcp_pkt2" using l tcp_fields_inside(2) by (simp add: pkt_ok_def tcp_pkt2_def)
qed

lemma headers_inside_tcp: "headers_inside wire_layout tcp_pkt" "headers_inside wire_layout tcp_pkt2"
  using tcp_fields_inside tcp_pkt2_bytes tcp_pkt_bytes by (simp_all add: headers_inside_def)

lemma two_pkts_room:
  "\<exists>s. packet_store_init = Some s \<and> pstore_ok s \<and> complete wire_layout s \<and> store_pkts s = []
    \<and> burst_room wire_layout 1500000000 [tcp_pkt, tcp_pkt2] s"
proof -
  obtain s where s: "packet_store_init = Some s" "pstore_ok s" "num_pkts s = 0" "dtail (base s) = 0" "num_filters s = 0"
    "\<forall>j k. key_fits j k \<longrightarrow> index_entries j k (base s) = []"
    using packet_store_init_ok by (elim exE conjE) (rule that)
  have "burst_room wire_layout 1500000000 [tcp_pkt, tcp_pkt2] s"
    using s tcp_pkt_ok tcp_pkt2_bytes(2) unfolding burst_room_def
    by (simp add: burst_len_def tcp_pkt_def tcp_pkt2_def run_fits_def datalog_nb_def datalog_bs_def BUFFER_SIZE_def)
  moreover have "complete wire_layout s" "store_pkts s = []" using s(1) packet_store_init_complete [of wire_layout]
    by (metis option.inject)+
  ultimately show ?thesis using s(1,2) by blast
qed

text \<open>The store with the two packets.\<close>

lemma two_pkts_store:
  "\<exists>s s'. packet_store_init = Some s \<and> insert_pktburst wire_layout 1500000000 [tcp_pkt, tcp_pkt2] s = Some s'
    \<and> pstore_ok s' \<and> complete wire_layout s' \<and> store_pkts s' = [(1500000000, tcp_bytes), (1500000000, tcp_bytes2)]"
proof -
  obtain s where s: "packet_store_init = Some s" "pstore_ok s" "complete wire_layout s" "store_pkts s = []"
    "burst_room wire_layout 1500000000 [tcp_pkt, tcp_pkt2] s" using two_pkts_room by blast
  then show ?thesis
    using insert_pktburst_complete [OF s(2,3,5)] headers_inside_tcp tcp_pkt_bytes tcp_pkt2_bytes(1) by auto
qed

theorem insert_pktburst_keeps_complete_witness:
  "\<exists>s s'. packet_store_init = Some s \<and> insert_pktburst wire_layout 1500000000 [tcp_pkt, tcp_pkt2] s = Some s'
    \<and> complete wire_layout s'"
proof -
  obtain s where s: "packet_store_init = Some s" "pstore_ok s" "complete wire_layout s"
    "burst_room wire_layout 1500000000 [tcp_pkt, tcp_pkt2] s" using two_pkts_room by blast
  then show ?thesis using insert_pktburst_keeps_complete [OF s(2-4)] headers_inside_tcp by auto
qed

lemma two_pkts_keys:
  assumes "pstore_ok s" "store_pkts s = [(1500000000, tcp_bytes), (1500000000, tcp_bytes2)]"
  shows "num_pkts s = 2" "stored_key wire_layout s (srcport_idx_id s) 0 = Some 20480"
    "stored_key wire_layout s (srcport_idx_id s) (Suc 0) = Some 20736"
    "stored_key wire_layout s (dstport_idx_id s) 0 = Some 47873" "stored_key wire_layout s (dstport_idx_id s) (Suc 0) = Some 20480"
proof -
  have "length (store_pkts s) = num_pkts s" by (simp add: store_pkts_def)
  then show "num_pkts s = 2" using assms(2) by simp
  show "stored_key wire_layout s (srcport_idx_id s) 0 = Some 20480"
    "stored_key wire_layout s (srcport_idx_id s) (Suc 0) = Some 20736"
    "stored_key wire_layout s (dstport_idx_id s) 0 = Some 47873" "stored_key wire_layout s (dstport_idx_id s) (Suc 0) = Some 20480"
    using own_keys [OF own_ids_distinct [OF assms(1)]] assms(2) by (simp_all add: stored_key_def tcp_fields_inside)
qed

lemma stoi_examples: "stoi ''20480'' = Some 20480" "stoi ''20736'' = Some 20736" "stoi ''47873'' = Some 47873"
  by (simp_all add: stoi_def scan_number_def is_space_def is_digit_def dec_value_def)

lemma port_eq_filter:
  assumes "stoi val = Some v" "0 \<le> v" "v < 2 ^ 16"
  shows "port_filter iid ''=='' val = Some (Inr (mk_filter iid (nat v, nat v)))"
  using assms by (simp add: port_filter_def rreturn_def take_bit_int_eq_self Let_def)

lemma port_filter_inside:
  assumes "pstore_ok s" "k < 65535"
  shows "filter_inside s (mk_filter (srcport_idx_id s) (k, k))" "filter_inside s (mk_filter (dstport_idx_id s) (k, k))"
  using assms ids_okD(8,9) [of s] by (simp_all add: filter_inside_def mk_filter_def own_ids_def key_fits_def pstore_ok_def)

theorem query_answers_witness:
  "\<exists>s s'. packet_store_init = Some s \<and> insert_pktburst wire_layout 1500000000 [tcp_pkt, tcp_pkt2] s = Some s'
    \<and> (\<exists>P R. plan s' 1500000001 (Conj [Predicate ''src_port'' ''=='' ''20480'', Predicate ''dst_port'' ''=='' ''47873'']) = Some (Inr P)
        \<and> filter_pkts wire_layout {} P s' = Some R \<and> 0 \<in> R)"
proof -
  obtain s s' where s: "packet_store_init = Some s" "insert_pktburst wire_layout 1500000000 [tcp_pkt, tcp_pkt2] s = Some s'"
    and ok: "pstore_ok s'" "complete wire_layout s'" and pkts: "store_pkts s' = [(1500000000, tcp_bytes), (1500000000, tcp_bytes2)]"
    using two_pkts_store by (elim exE conjE) (rule that)
  let ?e = "Conj [Predicate ''src_port'' ''=='' ''20480'', Predicate ''dst_port'' ''=='' ''47873'']"
  let ?c = "[mk_filter (srcport_idx_id s') (20480, 20480), mk_filter (dstport_idx_id s') (47873, 47873)]"
  have cl: "expr_clauses s' 1500000001 ?e = Some (Inr [?c])"
    using port_eq_filter [OF stoi_examples(1)] port_eq_filter [OF stoi_examples(3)]
    by (simp add: expr_clauses_def build_index_filter_def rbind_def rreturn_def)
  have ins: "\<forall>c \<in> set [?c]. clause_inside s' c" using port_filter_inside [OF ok(1)] by (simp add: clause_inside_def)
  have m: "pkt_matches wire_layout s' ?c 0" using two_pkts_keys [OF ok(1) pkts] by (simp add: pkt_matches_def mk_filter_def in_range_def)
  obtain P R where r: "plan s' 1500000001 ?e = Some (Inr P)" "filter_pkts wire_layout {} P s' = Some R"
    "answers wire_layout s' [?c] R" using query_answers [OF ok cl ins] by blast
  have "0 \<in> R" using r(3) m two_pkts_keys(1) [OF ok(1) pkts] by (auto simp: answers_def)
  then show ?thesis using s r(1,2) by blast
qed


lemma two_pkts_range:
  assumes "pstore_ok s" "complete wire_layout s" "store_pkts s = [(1500000000, tcp_bytes), (1500000000, tcp_bytes2)]"
  shows "range_ids (srcport_idx_id s) (20480, 20480) s = [0]" "range_ids (dstport_idx_id s) (20480, 20480) s = [1]"
proof -
  note k = two_pkts_keys [OF assms(1,3)]
  have "key_fits (srcport_idx_id s) 20480" "key_fits (dstport_idx_id s) 20480"
    using assms(1) ids_okD(8,9) [of s] by (simp_all add: key_fits_def pstore_ok_def)
  then have "index_entries iid 20480 (base s) = filter (\<lambda>i. stored_key wire_layout s iid i = Some 20480) [0..<2]"
    if "iid = srcport_idx_id s \<or> iid = dstport_idx_id s" for iid
    using assms(2) that k(1) unfolding complete_def own_ids_def by auto
  then show "range_ids (srcport_idx_id s) (20480, 20480) s = [0]" "range_ids (dstport_idx_id s) (20480, 20480) s = [1]"
    using k by (simp_all add: range_ids_def upt_rec)
qed

theorem conjunction_returns_unmatched_witness:
  "\<exists>s s'. packet_store_init = Some s \<and> insert_pktburst wire_layout 1500000000 [tcp_pkt, tcp_pkt2] s = Some s'
    \<and> (\<exists>p. build_clause_plan s' [mk_filter (srcport_idx_id s') (20480, 20480), mk_filter (dstport_idx_id s') (20480, 20480)]
          = Some (Inr p) \<and> filter_pkts wire_layout {} [p] s' = Some {0})"
proof -
  obtain s s' where s: "packet_store_init = Some s" "insert_pktburst wire_layout 1500000000 [tcp_pkt, tcp_pkt2] s = Some s'"
    and ok: "pstore_ok s'" "complete wire_layout s'" and pkts: "store_pkts s' = [(1500000000, tcp_bytes), (1500000000, tcp_bytes2)]"
    using two_pkts_store by (elim exE conjE) (rule that)
  let ?f = "mk_filter (srcport_idx_id s') (20480, 20480)" and ?g = "mk_filter (dstport_idx_id s') (20480, 20480)"
  have "f_index_id ?f \<noteq> f_index_id ?g" using own_ids_neq(8) [OF own_ids_distinct [OF ok(1)]] by (simp add: mk_filter_def)
  moreover have "range_ids (f_index_id ?f) (f_tok_range ?f) s' = [0]" "range_ids (f_index_id ?g) (f_tok_range ?g) s' = [1]"
    using two_pkts_range [OF ok pkts] by (simp_all add: mk_filter_def)
  ultimately show ?thesis
    using s conjunction_returns_unmatched [OF ok, of ?f ?g 0 1] port_filter_inside [OF ok(1)] by auto
qed

theorem build_clause_plan_correct_witness:
  "\<exists>s cp. packet_store_init = Some s \<and> build_clause_plan s [mk_filter (srcport_idx_id s) (1, 80)] = Some (Inr cp) \<and> plan_valid cp"
proof -
  obtain s where s: "packet_store_init = Some s" "pstore_ok s" using two_pkts_room by blast
  let ?c = "[mk_filter (srcport_idx_id s) (1, 80)]"
  have "clause_fits s ?c" using s(2) ids_okD(8) [of s] by (simp add: clause_fits_def mk_filter_def own_ids_def key_fits_def pstore_ok_def)
  moreover have "\<exists>v. clause_sat v ?c" by (intro exI [of _ "\<lambda>_. 80"]) (simp add: mk_filter_def in_range_def)
  ultimately show ?thesis using s(1) build_clause_plan_correct [OF s(2), of ?c] by blast
qed

end
