(* ===== verification/Character_Query.thy ===== *)
theory Character_Query
  imports Query_Results
begin

section \<open>Queries on complex characters\<close>

text \<open>
  A query on a complex character enumerates the identifiers recorded for it in a range of seconds. The iterator is the
  one of filter results over another index; both are instances of \<open>entry_cursor\<close>.
\<close>

definition second_entries :: "char_result \<Rightarrow> nat \<Rightarrow> nat list" where
  "second_entries r ts = char_entries ts (cr_char_id r) (cr_index r)"

definition seconds_entries :: "char_result \<Rightarrow> nat \<Rightarrow> nat list" where
  "seconds_entries r a = concat (map (second_entries r) [a..<snd (cr_range r) + 1])"

text \<open>The lists are well-formed, the range is not empty, and the second behind it exists.\<close>

definition cr_ok :: "char_result \<Rightarrow> bool" where
  "cr_ok r \<longleftrightarrow> chars_ok (cr_index r) \<and> cr_char_id r < char_slots \<and> fst (cr_range r) \<le> snd (cr_range r)
     \<and> snd (cr_range r) + 1 < 2 ^ 32"

abbreviation at_second :: "char_result \<Rightarrow> nat \<Rightarrow> entry_list option option" where
  "at_second r ts \<equiv> char_list_at ts (cr_char_id r) (cr_index r)"

lemma cr_ok_at:
  assumes "cr_ok r" "ts \<le> snd (cr_range r) + 1"
  shows "\<exists>l. at_second r ts = Some l" "take_bit 64 ts = ts"
  using assms char_list_at_total [of ts "cr_char_id r" "cr_index r"] by (auto simp: cr_ok_def take_bit_id)

lemma seconds_Cons: "a \<le> snd (cr_range r) \<Longrightarrow> seconds_entries r a = second_entries r a @ seconds_entries r (Suc a)"
  by (simp add: seconds_entries_def upt_conv_Cons del: upt_Suc)

lemma seconds_end: "seconds_entries r (snd (cr_range r) + 1) = []"
  by (simp add: seconds_entries_def)

lemma second_None: "at_second r ts = Some None \<Longrightarrow> second_entries r ts = []"
  by (simp add: second_entries_def char_entries_def index_list_def)

lemma second_list:
  assumes "cr_ok r" "ts \<le> snd (cr_range r)" "at_second r ts = Some (Some es)"
  shows "el_size es = length (second_entries r ts)" "0 < el_size es" "el_size es < 2 ^ 64"
    "i < el_size es \<Longrightarrow> monolog_get entry_list_nbuckets i es = Some (second_entries r ts ! i)"
proof -
  have ts: "ts < 2 ^ 32" using assms(1,2) by (simp add: cr_ok_def)
  then have inv: "relaxed_invar entry_list_nbuckets es" using assms(1,3) by (auto simp: cr_ok_def chars_ok_def)
  have c: "second_entries r ts = relaxed_contents entry_list_nbuckets es"
    using assms(3) by (simp add: second_entries_def char_entries_def index_list_def)
  show size: "el_size es = length (second_entries r ts)"
    using relaxed.size_contents [OF inv] c by (simp add: el_size_def)
  have "second_entries r ts \<noteq> []" using assms(1,3) ts c by (auto simp: cr_ok_def chars_ok_def)
  then show "0 < el_size es" using size by simp
  show "monolog_get entry_list_nbuckets i es = Some (second_entries r ts ! i)" if "i < el_size es"
    using relaxed.at_contents [OF inv, of i] that size c by (simp add: relaxed_at_def)
  have "valid_index entry_list_nbuckets i" if "i < el_size es" for i
    using inv that by (simp add: relaxed_invar_def prefix_ok_def el_size_def relaxed_size_def)
  then have "\<not> 2 ^ 64 \<le> el_size es"
    using valid_index_def [of entry_list_nbuckets "2 ^ 64 - 1"] by (auto simp: FBS_def)
  then show "el_size es < 2 ^ 64" by simp
qed

lemma char_scan_spec:
  assumes "cr_ok r" "t \<le> snd (cr_range r)"
  shows "\<exists>t' l. char_scan r t None = Some (t', l) \<and>
    (t' = snd (cr_range r) + 1 \<and> seconds_entries r (Suc t) = []
     \<or> (\<exists>es. t < t' \<and> t' \<le> snd (cr_range r) \<and> l = Some es \<and> at_second r t' = Some (Some es)
         \<and> seconds_entries r (Suc t) = second_entries r t' @ seconds_entries r (Suc t')))"
  using assms(2)
proof (induction "snd (cr_range r) - t" arbitrary: t)
  case 0
  then have t: "t = snd (cr_range r)" by simp
  obtain l where l: "at_second r (Suc t) = Some l" using cr_ok_at(1) [OF assms(1), of "Suc t"] t by auto
  have "char_scan r t None = char_scan r (Suc t) l"
    using 0(2) l cr_ok_at(2) [OF assms(1), of "Suc t"] t by (subst char_scan.simps) simp
  also have "\<dots> = Some (Suc t, l)" using t by (simp add: char_scan.simps)
  finally show ?case using t seconds_end [of r] by simp
next
  case (Suc n)
  have le: "Suc t \<le> snd (cr_range r)" using Suc.hyps(2) by simp
  obtain l where l: "at_second r (Suc t) = Some l" using cr_ok_at(1) [OF assms(1), of "Suc t"] le by auto
  have step: "char_scan r t None = char_scan r (Suc t) l"
    using Suc.prems l cr_ok_at(2) [OF assms(1), of "Suc t"] le by (simp add: char_scan.simps [of r t])
  show ?case
  proof (cases l)
    case None
    have "n = snd (cr_range r) - Suc t" using Suc.hyps(2) by simp
    from Suc.hyps(1) [OF this le] show ?thesis
      using step None seconds_Cons [OF le] second_None l by fastforce
  next
    case (Some es)
    then have "char_scan r (Suc t) l = Some (Suc t, Some es)" by (simp add: char_scan.simps)
    then show ?thesis using step Some l le seconds_Cons [OF le] by auto
  qed
qed

text \<open>The entries an iterator has not left behind.\<close>

definition char_rest :: "char_result \<Rightarrow> char_iterator \<Rightarrow> nat list \<Rightarrow> bool" where
  "char_rest r it xs \<longleftrightarrow> cr_ok r \<and> ci_res it = Some r \<and>
     (xs = [] \<and> ci_ts it = snd (cr_range r) + 1 \<and> ci_idx it = 0
      \<or> (\<exists>es i. ci_ts it \<le> snd (cr_range r) \<and> ci_list it = Some es
           \<and> at_second r (ci_ts it) = Some (Some es) \<and> ci_idx it = int i \<and> i < el_size es
           \<and> xs = drop i (second_entries r (ci_ts it)) @ seconds_entries r (Suc (ci_ts it))))"

lemma char_stop_eq: "cr_ok r \<Longrightarrow> char_stop r = snd (cr_range r) + 1"
  using cr_ok_at(2) [of r "snd (cr_range r) + 1"] by (simp add: char_stop_def)

lemma char_scan_rest:
  assumes "cr_ok r" "ci_res it = Some r" "ci_ts it \<le> snd (cr_range r)"
  shows "\<exists>t l. char_scan r (ci_ts it) None = Some (t, l)
    \<and> char_rest r (it\<lparr>ci_idx := 0, ci_ts := t, ci_list := l\<rparr>) (seconds_entries r (Suc (ci_ts it)))"
proof -
  let ?c = "ci_ts it"
  obtain t l where s: "char_scan r ?c None = Some (t, l)" and
    c: "t = snd (cr_range r) + 1 \<and> seconds_entries r (Suc ?c) = []
     \<or> (\<exists>es. ?c < t \<and> t \<le> snd (cr_range r) \<and> l = Some es \<and> at_second r t = Some (Some es)
         \<and> seconds_entries r (Suc ?c) = second_entries r t @ seconds_entries r (Suc t))"
    using char_scan_spec [OF assms(1,3)] by (elim exE conjE)
  then show ?thesis using assms(1,2) second_list(2) [OF assms(1)] by (auto simp: char_rest_def)
qed

lemma char_exhausted:
  assumes "cr_ok r" "ts \<le> snd (cr_range r)" "at_second r ts = Some (Some es)" "i \<le> el_size es"
  shows "list_exhausted (int i) (Some es) \<longleftrightarrow> i = el_size es"
proof -
  have "int i < 2 ^ 64" using assms(4) second_list(3) [OF assms(1-3)] by simp
  then show ?thesis using take_bit_64_int [of i] by (simp add: list_exhausted_def)
qed

lemma char_rest_Cons:
  assumes "char_rest r it (x # xs)"
  obtains es i where "cr_ok r" "ci_res it = Some r" "ci_ts it \<le> snd (cr_range r)" "ci_list it = Some es"
    "at_second r (ci_ts it) = Some (Some es)" "ci_idx it = int i" "i < el_size es" "x = second_entries r (ci_ts it) ! i"
    "xs = drop (Suc i) (second_entries r (ci_ts it)) @ seconds_entries r (Suc (ci_ts it))"
proof -
  obtain es i where a: "cr_ok r" "ci_res it = Some r" "ci_ts it \<le> snd (cr_range r)" "ci_list it = Some es"
    "at_second r (ci_ts it) = Some (Some es)" "ci_idx it = int i" "i < el_size es"
    "x # xs = drop i (second_entries r (ci_ts it)) @ seconds_entries r (Suc (ci_ts it))"
    using assms by (auto simp: char_rest_def)
  have "i < length (second_entries r (ci_ts it))" using second_list(1) [OF a(1,3,5)] a(7) by simp
  from a(8) [unfolded drop_append_Cons [OF this]] show thesis by (elim conjE) (rule that [OF a(1-7)])
qed

lemma char_rest_get: "char_rest r it (x # xs) \<Longrightarrow> char_get it = Some x"
proof (erule char_rest_Cons)
  fix es i
  assume a: "cr_ok r" "ci_ts it \<le> snd (cr_range r)" "ci_list it = Some es" "at_second r (ci_ts it) = Some (Some es)"
    "ci_idx it = int i" "i < el_size es" "x = second_entries r (ci_ts it) ! i"
  note l = second_list [OF a(1,2,4)]
  have "take_bit 64 (int i) = int i" using a(6) l(3) by (intro take_bit_64_int) simp
  then show ?thesis using a l(4) [OF a(6)] by (simp add: char_get_def)
qed

lemma char_rest_advance: "char_rest r it (x # xs) \<Longrightarrow> \<exists>it'. char_advance r it = Some it' \<and> char_rest r it' xs"
proof (erule char_rest_Cons)
  fix es i
  assume a: "cr_ok r" "ci_res it = Some r" "ci_ts it \<le> snd (cr_range r)" "ci_list it = Some es"
    "at_second r (ci_ts it) = Some (Some es)" "ci_idx it = int i" "i < el_size es"
    "xs = drop (Suc i) (second_entries r (ci_ts it)) @ seconds_entries r (Suc (ci_ts it))"
  have ex: "list_exhausted (ci_idx it + 1) (ci_list it) \<longleftrightarrow> Suc i = el_size es"
    using char_exhausted [OF a(1,3,5), of "Suc i"] a(4,6,7) by (simp add: add.commute)
  have run: "ci_ts it \<noteq> char_stop r" using char_stop_eq [OF a(1)] a(3) by simp
  show ?thesis
  proof (cases "Suc i = el_size es")
    case True
    then have "xs = seconds_entries r (Suc (ci_ts it))" using a(8) second_list(1) [OF a(1,3,5)] by simp
    then show ?thesis
      using char_scan_rest [OF a(1), of "it\<lparr>ci_idx := ci_idx it + 1\<rparr>"] a ex run True by (auto simp: char_advance_def)
  next
    case False
    then have "char_rest r (it\<lparr>ci_idx := ci_idx it + 1\<rparr>) xs"
      using a by (auto simp: char_rest_def intro!: exI [of _ "Suc i"])
    then show ?thesis using ex run False by (simp add: char_advance_def)
  qed
qed

lemma char_rest_end: "char_rest r it xs \<Longrightarrow> ci_ts it = snd (cr_range r) + 1 \<longleftrightarrow> xs = []"
  using second_list(1) by (fastforce simp: char_rest_def)

interpretation cit: entry_cursor "char_rest r" char_get "char_advance r" char_next
  "\<lambda>it. ci_ts it = snd (cr_range r) + 1" "char_iterate_from r" "cr_max_rid r" for r
proof
  fix it x xs assume rest: "char_rest r it (x # xs)"
  then show "char_get it = Some x" "\<exists>it'. char_advance r it = Some it' \<and> char_rest r it' xs"
    by (rule char_rest_get, rule char_rest_advance)
  then obtain it' where it': "char_advance r it = Some it'" "char_rest r it' xs" by blast
  have "ci_ts it' \<le> snd (cr_range r) \<longleftrightarrow> ci_ts it' \<noteq> snd (cr_range r) + 1" using it'(2) by (auto simp: char_rest_def)
  then show "char_next it = char_advance r it \<bind> (\<lambda>it1. if ci_ts it1 = snd (cr_range r) + 1 then Some it1
      else char_get it1 \<bind> (\<lambda>v. if cr_max_rid r \<le> v then char_next it1 else Some it1))"
    using rest it'(1) by (simp add: char_next.simps [of it] char_rest_def)
next
  fix it xs assume rest: "char_rest r it xs"
  then show e: "ci_ts it = snd (cr_range r) + 1 \<longleftrightarrow> xs = []" by (rule char_rest_end)
  have "cr_ok r" using rest by (simp add: char_rest_def)
  then have "char_eq it (char_end r) \<longleftrightarrow> ci_ts it = snd (cr_range r) + 1"
    using rest e by (auto simp: char_eq_def char_end_def char_stop_eq char_rest_def)
  then show "char_iterate_from r it = (if ci_ts it = snd (cr_range r) + 1 then Some []
      else char_get it \<bind> (\<lambda>v. char_next it \<bind> (\<lambda>it'. char_iterate_from r it' \<bind> (\<lambda>vs. Some (v # vs)))))"
    by (simp add: char_iterate_from.simps [of r it])
qed

lemma char_begin_rest:
  assumes "cr_ok r"
  shows "\<exists>it. char_begin r = Some it \<and> char_rest r it (seconds_entries r (fst (cr_range r)))"
proof -
  let ?a = "fst (cr_range r)"
  have le: "?a \<le> snd (cr_range r)" using assms by (simp add: cr_ok_def)
  obtain l where l: "at_second r ?a = Some l" using cr_ok_at(1) [OF assms, of ?a] le by auto
  let ?it = "\<lparr>ci_res = Some r, ci_idx = - 1, ci_ts = ?a, ci_list = l\<rparr>"
  have run: "char_begin r = char_advance r ?it" and go: "?a \<noteq> char_stop r" using l le char_stop_eq [OF assms] by (simp_all add: char_begin_def)
  show ?thesis
  proof (cases l)
    case None
    have "second_entries r ?a = []" using second_None l None by simp
    moreover have "list_exhausted (ci_idx ?it + 1) (ci_list ?it)" using None by (simp add: list_exhausted_def)
    ultimately show ?thesis
      using run go char_scan_rest [OF assms, of "?it\<lparr>ci_idx := 0\<rparr>"] le seconds_Cons [OF le] by (auto simp: char_advance_def)
  next
    case (Some es)
    have "\<not> list_exhausted 0 (Some es)"
      using char_exhausted [OF assms le, of es 0] second_list(2) [OF assms le] l Some by simp
    then have "char_begin r = Some (?it\<lparr>ci_idx := 0\<rparr>)" using run go Some by (simp add: char_advance_def)
    moreover have "char_rest r (?it\<lparr>ci_idx := 0\<rparr>) (seconds_entries r ?a)"
      using assms l Some le second_list(2) [OF assms le] seconds_Cons [OF le] by (auto simp: char_rest_def intro!: exI [of _ "0::nat"])
    ultimately show ?thesis by blast
  qed
qed

lemma char_iterate_spec:
  assumes "cr_ok r"
  shows "char_iterate r = Some (case seconds_entries r (fst (cr_range r)) of
     [] \<Rightarrow> [] | e # es \<Rightarrow> e # filter (\<lambda>v. v < cr_max_rid r) es)"
  using char_begin_rest [OF assms] cit.iter_rest [of r] by (auto simp: char_iterate_def)

section \<open>Characters of a store\<close>

text \<open>A stored packet that belongs to a character and a second.\<close>

definition stored_match :: "hdr_layout \<Rightarrow> packet_store \<Rightarrow> nat \<Rightarrow> nat \<Rightarrow> nat \<Rightarrow> bool" where
  "stored_match L s c ts i =
     (case store_pkts s ! i of (t, bytes) \<Rightarrow>
        t = ts \<and> (case pkt_fields_of L (cells_of bytes) of None \<Rightarrow> False | Some p \<Rightarrow> char_matches (filters s c) p))"

text \<open>A character that was added when the store had \<open>n0\<close> packets has recorded exactly the later packets that match.\<close>

definition char_exact :: "hdr_layout \<Rightarrow> nat \<Rightarrow> nat \<Rightarrow> packet_store \<Rightarrow> bool" where
  "char_exact L c n0 s \<longleftrightarrow> n0 \<le> num_pkts s \<and> c < num_filters s
     \<and> (\<forall>ts < 2 ^ 32. char_entries ts c (char_idx s) = filter (stored_match L s c ts) [n0..<num_pkts s])"

lemma add_character_exact:
  assumes "pstore_ok s" "num_filters s < MAX_FILTERS" "\<forall>ts < 2 ^ 32. char_entries ts (num_filters s) (char_idx s) = []"
  shows "\<exists>s'. add_complex_character fl s = Some (s', num_filters s) \<and> pstore_ok s' \<and> store_pkts s' = store_pkts s
    \<and> char_exact L (num_filters s) (num_pkts s) s'
    \<and> s' = s\<lparr>num_filters := num_filters s + 1, filters := (filters s)(num_filters s := fl)\<rparr>"
proof -
  let ?s = "s\<lparr>num_filters := num_filters s + 1, filters := (filters s)(num_filters s := fl)\<rparr>"
  have "take_bit 32 (num_filters s + 1) = num_filters s + 1" "take_bit 32 (num_filters s) = num_filters s"
    using assms(2) by (simp_all add: MAX_FILTERS_def take_bit_id)
  then have "add_complex_character fl s = Some (?s, num_filters s)" using assms(2) by (simp add: add_complex_character_def Let_def)
  moreover have "pstore_ok ?s" using assms(1,2) by (simp add: pstore_ok_def ids_ok_def num_pkts_def)
  moreover have "char_exact L (num_filters s) (num_pkts s) ?s" using assms(3) by (simp add: char_exact_def num_pkts_def)
  moreover have "store_pkts ?s = store_pkts s" by (simp add: store_pkts_def num_pkts_def)
  ultimately show ?thesis by (intro exI [of _ ?s]) simp
qed

lemma insert_pktburst_char_exact:
  assumes ok: "pstore_ok s" "char_exact L c n0 s" and room: "burst_room L now pkts s" "\<forall>m \<in> set pkts. headers_inside L m"
  shows "\<exists>s'. insert_pktburst L now pkts s = Some s' \<and> pstore_ok s' \<and> char_exact L c n0 s'
    \<and> store_pkts s' = store_pkts s @ map (\<lambda>m. (now, pkt_bytes m)) pkts \<and> filters s' = filters s"
proof -
  obtain b ix where r: "insert_pktburst L now pkts s = Some (s\<lparr>base := b, char_idx := ix\<rparr>)"
    "pstore_ok (s\<lparr>base := b, char_idx := ix\<rparr>)"
    "store_pkts (s\<lparr>base := b, char_idx := ix\<rparr>) = store_pkts s @ map (\<lambda>m. (now, pkt_bytes m)) pkts"
    "charted L now (num_filters s) (filters s) (num_pkts s) pkts (char_idx s) ix"
    using insert_pktburst_spec [OF ok(1) room(1)] by blast
  let ?s = "s\<lparr>base := b, char_idx := ix\<rparr>" and ?n = "num_pkts s"
  have num: "num_pkts ?s = ?n + length pkts" and len: "length (store_pkts s) = ?n"
    using arg_cong [OF r(3), of length] by (simp_all add: store_pkts_def)
  have c: "c < num_filters s" "c < char_slots" "n0 \<le> ?n"
    using ok by (simp_all add: char_exact_def pstore_ok_def MAX_FILTERS_def char_slots_def)
  have p: "pkt_ok L m \<and> headers_inside L m" if "m \<in> set pkts" for m using room that by (auto simp: burst_room_def)
  have match: "stored_match L ?s c ts i \<longleftrightarrow> (if i < ?n then stored_match L s c ts i
      else ts = now \<and> char_matches (filters s c) (fields_of L (pkts ! (i - ?n))))" if "i < ?n + length pkts" for ts i
    using that p headers_inside_fields by (auto simp: stored_match_def r(3) nth_append len split: option.splits)
  have "char_entries ts c ix = filter (stored_match L ?s c ts) [n0..<num_pkts ?s]" if ts: "ts < 2 ^ 32" for ts
  proof -
    have "char_entries ts c ix = char_entries ts c (char_idx s)
        @ (if ts = now then matching_ids (\<lambda>m. char_matches (filters s c) (fields_of L m)) ?n pkts else [])"
      using r(4) c(1,2) ts by (simp add: charted_def)
    also have "\<dots> = filter (stored_match L s c ts) [n0..<?n]
        @ filter (\<lambda>i. ts = now \<and> char_matches (filters s c) (fields_of L (pkts ! (i - ?n)))) [?n..<?n + length pkts]"
      using ok(2) ts by (simp add: char_exact_def matching_ids_filter)
    also have "\<dots> = filter (stored_match L ?s c ts) [n0..<?n] @ filter (stored_match L ?s c ts) [?n..<?n + length pkts]"
      using match by (intro arg_cong2 [where f = append] filter_cong) auto
    also have "\<dots> = filter (stored_match L ?s c ts) [n0..<?n + length pkts]"
      using c(3) by (metis filter_append upt_add_eq_append)
    finally show ?thesis using num by simp
  qed
  then have "char_exact L c n0 ?s" using c num by (simp add: char_exact_def)
  then show ?thesis using r(1-3) by (intro exI [of _ ?s]) simp
qed

lemma distinct_concat_filter:
  assumes "\<And>t t' i. P t i \<Longrightarrow> P t' i \<Longrightarrow> t = t'" "distinct xs" "distinct ts"
  shows "distinct (concat (map (\<lambda>t. filter (P t) xs) ts))"
  using assms(3)
proof (induction ts)
  case (Cons t ts)
  have "set (filter (P t) xs) \<inter> set (concat (map (\<lambda>t. filter (P t) xs) ts)) = {}"
  proof (rule Int_emptyI)
    fix i assume "i \<in> set (filter (P t) xs)" "i \<in> set (concat (map (\<lambda>t. filter (P t) xs) ts))"
    then obtain t' where "P t i" "t' \<in> set ts" "P t' i" by auto
    then have "t \<in> set ts" using assms(1) [of t i t'] by simp
    then show False using Cons.prems by simp
  qed
  then show ?case using Cons assms(2) by simp
qed simp

lemma stored_match_second: "stored_match L s c t i \<Longrightarrow> stored_match L s c t' i \<Longrightarrow> t = t'"
  by (simp add: stored_match_def split: prod.splits)

lemma character_execute_exact:
  assumes "pstore_ok s" "char_exact L c n0 s" "a \<le> b" "b + 1 < 2 ^ 32"
  defines "M \<equiv> {i. n0 \<le> i \<and> i < num_pkts s \<and> (\<exists>t. a \<le> t \<and> t \<le> b \<and> stored_match L s c t i)}"
  shows "character_execute agg_result_set c a b s = Some M \<and> character_execute agg_count c a b s = Some (card M)"
proof -
  let ?r = "complex_character_lookup c a b s" and ?ids = "concat (map (\<lambda>t. filter (stored_match L s c t) [n0..<num_pkts s]) [a..<b + 1])"
  have ab: "take_bit 32 a = a" "take_bit 32 b = b" using assms(3,4) by (simp_all add: take_bit_id)
  have r: "cr_index ?r = char_idx s" "cr_char_id ?r = c" "cr_range ?r = (a, b)" "cr_max_rid ?r = num_pkts s"
    using ab by (simp_all add: complex_character_lookup_def char_filter_def num_pkts_def num_records_def)
  have "cr_ok ?r"
    using assms(1-4) r by (simp add: cr_ok_def pstore_ok_def char_exact_def MAX_FILTERS_def char_slots_def)
  note it = char_iterate_spec [OF this]
  have "seconds_entries ?r a = ?ids"
    using assms(2,4) r by (auto simp: seconds_entries_def second_entries_def char_exact_def intro!: arg_cong [where f = concat])
  then have "char_iterate ?r = Some (case ?ids of [] \<Rightarrow> [] | e # es \<Rightarrow> e # filter (\<lambda>v. v < num_pkts s) es)"
    using it r by (simp cong: list.case_cong)
  also have "\<dots> = Some ?ids" by (intro arg_cong [where f = Some] filter_all_below) auto
  finally have run: "char_iterate ?r = Some ?ids" .
  have set: "set ?ids = M" by (auto simp: M_def)
  have "distinct ?ids"
    by (rule distinct_concat_filter [OF stored_match_second]) simp_all
  then have "length ?ids = card M" using set distinct_card by metis
  then show ?thesis
    using run set ab by (simp add: character_execute_def query_character_def agg_result_set_def agg_count_def)
qed

text \<open>
  C20. A character query is exact. For a character added when the store held \<open>n0\<close> packets, the query for
  the seconds from \<open>a\<close> to \<open>b\<close> returns exactly the packets stored since then, in those seconds,
  that one of the filters of the character accepts, each once; the count is their number.
\<close>

theorem character_query_exact:
  assumes "pstore_ok s" "char_exact L c n0 s" "a \<le> b" "b + 1 < 2 ^ 32"
  defines "M \<equiv> {i. n0 \<le> i \<and> i < num_pkts s \<and> (\<exists>t. a \<le> t \<and> t \<le> b \<and> stored_match L s c t i)}"
  shows "character_execute agg_result_set c a b s = Some M \<and> character_execute agg_count c a b s = Some (card M)"
  unfolding M_def by (rule character_execute_exact [OF assms(1-4)])

lemma char_query_store:
  "\<exists>s s1 s'. packet_store_init = Some s \<and> add_complex_character [from_80] s = Some (s1, 0)
     \<and> insert_pktburst wire_layout 1500000000 [tcp_pkt] s1 = Some s' \<and> pstore_ok s' \<and> char_exact wire_layout 0 0 s'
     \<and> store_pkts s' = [(1500000000, tcp_bytes)] \<and> filters s' 0 = [from_80]"
proof -
  obtain s where s: "packet_store_init = Some s" "pstore_ok s" "burst_room wire_layout 1500000000 [tcp_pkt] s"
    "num_pkts s = 0" "num_filters s = 0" "store_pkts s = []"
    "\<forall>ts c. ts < 2 ^ 32 \<longrightarrow> c < char_slots \<longrightarrow> char_entries ts c (char_idx s) = []"
    using new_store_room by (elim exE conjE) (rule that)
  obtain s1 where s1: "add_complex_character [from_80] s = Some (s1, 0)" "pstore_ok s1" "store_pkts s1 = []"
    "char_exact wire_layout 0 0 s1" "s1 = s\<lparr>num_filters := 1, filters := (filters s)(0 := [from_80])\<rparr>"
    using add_character_exact [OF s(2), of "[from_80]" wire_layout] s(4-7) by (auto simp: MAX_FILTERS_def char_slots_def)
  have "char_entries 1500000000 0 (char_idx s) = []" using s(7) by (simp add: char_slots_def)
  then have "burst_room wire_layout 1500000000 [tcp_pkt] s1" using s(3) s1(5) unfolding burst_room_def by (simp add: num_pkts_def)
  from insert_pktburst_char_exact [OF s1(2,4) this] show ?thesis
    using s(1) s1(1,3,5) headers_inside_tcp(1) tcp_pkt_bytes by auto
qed

theorem character_query_exact_witness:
  "\<exists>s s1 s'. packet_store_init = Some s \<and> add_complex_character [from_80] s = Some (s1, 0)
     \<and> insert_pktburst wire_layout 1500000000 [tcp_pkt] s1 = Some s'
     \<and> character_execute agg_result_set 0 1499999990 1500000005 s' = Some {0}
     \<and> character_execute agg_result_set 0 1500000001 1500000005 s' = Some {}"
proof -
  obtain s s1 s' where s: "packet_store_init = Some s" "add_complex_character [from_80] s = Some (s1, 0)"
     "insert_pktburst wire_layout 1500000000 [tcp_pkt] s1 = Some s'" and ok: "pstore_ok s'" "char_exact wire_layout 0 0 s'"
     and p: "store_pkts s' = [(1500000000, tcp_bytes)]" "filters s' 0 = [from_80]"
    using char_query_store by (elim exE conjE) (rule that)
  have n: "num_pkts s' = 1" using arg_cong [OF p(1), of length] by (simp add: store_pkts_def)
  have m: "stored_match wire_layout s' 0 t 0 \<longleftrightarrow> t = 1500000000" for t
    using p tcp_fields_inside(1)
    by (auto simp: stored_match_def char_matches_def accepts_def from_80_def in_range_def)
  then have "{i. 0 \<le> i \<and> i < num_pkts s' \<and> (\<exists>t. 1499999990 \<le> t \<and> t \<le> 1500000005 \<and> stored_match wire_layout s' 0 t i)} = {0}"
    "{i. 0 \<le> i \<and> i < num_pkts s' \<and> (\<exists>t. 1500000001 \<le> t \<and> t \<le> 1500000005 \<and> stored_match wire_layout s' 0 t i)} = {}"
    using n by auto
  then show ?thesis
    using s character_query_exact [OF ok, of 1499999990 1500000005] character_query_exact [OF ok, of 1500000001 1500000005] by auto
qed

end
