(* ===== verification/Concurrent_Characters.thy ===== *)
theory Concurrent_Characters
  imports Concurrent_Index Character_Query
begin

section \<open>Complex characters under concurrent bursts\<close>

text \<open>
  A burst looks up the number of characters once, and records its packets for the characters there were then. So a
  character that is added while bursts are inserted may miss packets of the bursts that were begun before. For all packets whose
  identifiers are handed out after the character was added, the lists of the character are exact, whatever the interleaving.
\<close>

fun w_charted :: "wprog \<Rightarrow> nat" where
  "w_charted (W_loop ph start off nc now k pkts) = k"
| "w_charted _ = 0"

fun w_nc :: "wprog \<Rightarrow> nat option" where
  "w_nc (W_stamp start off nc now pkts) = Some nc"
| "w_nc (W_loop ph start off nc now k pkts) = Some nc"
| "w_nc _ = None"

definition w_uncharted :: "wprog \<Rightarrow> nat set" where
  "w_uncharted p = (case w_burst p of None \<Rightarrow> {} | Some (start, now, pkts) \<Rightarrow> {start + w_charted p..<start + length pkts})"

definition uncharted :: "writers \<Rightarrow> nat set" where
  "uncharted s = (\<Union>t. w_uncharted (prog s t))"

lemma w_uncharted_ids: "w_uncharted p \<subseteq> burst_ids (abs_prog p)"
  by (auto simp: w_uncharted_def abs_burst_ids split: option.splits)

lemma w_uncharted_apart:
  assumes "id_inv (wr_abs s)" "t \<noteq> u"
  shows "w_uncharted (prog s t) \<inter> w_uncharted (prog s u) = {}"
  using id_invD(4) [OF assms] w_uncharted_ids [of "prog s t"] w_uncharted_ids [of "prog s u"] by (auto simp: wr_abs_def)

lemma uncharted_update:
  assumes "id_inv (wr_abs s)" "prog s' = (prog s)(t := p)" "w_uncharted p \<subseteq> w_uncharted (prog s t)"
  shows "uncharted s' = uncharted s - (w_uncharted (prog s t) - w_uncharted p)"
proof -
  have eq: "(\<lambda>u. w_uncharted (prog s' u)) = (\<lambda>u. w_uncharted (prog s u))(t := w_uncharted p)"
    unfolding assms(2) by (simp add: fun_eq_iff)
  show ?thesis
    unfolding uncharted_def eq
    by (rule UN_update [of "w_uncharted p" "\<lambda>u. w_uncharted (prog s u)", OF assms(3) w_uncharted_apart [OF assms(1)]])
qed

subsection \<open>The invariant\<close>

text \<open>
  \<open>since\<close> holds characters with the number of identifiers that were handed out when they were there, and with their filters.
\<close>

type_synonym since = "(nat \<times> nat \<times> packet_filter list) set"

definition taken_by :: "hdr_layout \<Rightarrow> packet_filter list \<Rightarrow> nat \<Rightarrow> nat \<times> mbuf \<Rightarrow> bool" where
  "taken_by L fl ts x \<longleftrightarrow> fst x = ts \<and> char_matches fl (fields_of L (snd x))"

definition snapshot_ok :: "since \<Rightarrow> nat \<Rightarrow> wprog \<Rightarrow> bool" where
  "snapshot_ok K n p \<longleftrightarrow> (\<forall>start now pkts. w_burst p = Some (start, now, pkts) \<longrightarrow>
     (\<forall>nc. w_nc p = Some nc \<longrightarrow> nc \<le> n)
     \<and> (\<forall>(c, n0, fl) \<in> K. start + length pkts \<le> n0 \<or> n0 \<le> start \<and> (\<forall>nc. w_nc p = Some nc \<longrightarrow> c < nc)))"

definition fresh_list :: "(nat \<times> mbuf list) list \<Rightarrow> writers \<Rightarrow> nat \<Rightarrow> nat \<Rightarrow> bool" where
  "fresh_list bs s ts c \<longleftrightarrow> distinct (char_entries ts c (char_idx (shared s)))
     \<and> set (char_entries ts c (char_idx (shared s))) \<subseteq> {..<length (burst_pkts bs)} - uncharted s"

definition since_list :: "hdr_layout \<Rightarrow> (nat \<times> mbuf list) list \<Rightarrow> writers \<Rightarrow> nat \<Rightarrow> nat \<times> nat \<times> packet_filter list \<Rightarrow> bool" where
  "since_list L bs s ts x \<longleftrightarrow> (case x of (c, n0, fl) \<Rightarrow>
     set (char_entries ts c (char_idx (shared s))) \<inter> {n0..}
       = {i. n0 \<le> i \<and> i < length (burst_pkts bs) \<and> taken_by L fl ts (burst_pkts bs ! i)} - uncharted s)"

definition char_inv :: "hdr_layout \<Rightarrow> (nat \<times> mbuf list) list \<Rightarrow> since \<Rightarrow> writers \<Rightarrow> bool" where
  "char_inv L bs K s \<longleftrightarrow> chars_ok (char_idx (shared s)) \<and> num_filters (shared s) \<le> MAX_FILTERS
     \<and> (\<forall>(c, n0, fl) \<in> K. c < num_filters (shared s) \<and> filters (shared s) c = fl)
     \<and> (\<forall>t. snapshot_ok K (num_filters (shared s)) (prog s t))
     \<and> (\<forall>ts < 2 ^ 32. \<forall>c < char_slots. fresh_list bs s ts c)
     \<and> (\<forall>ts < 2 ^ 32. \<forall>x \<in> K. since_list L bs s ts x)"

lemma char_invD:
  assumes "char_inv L bs K s"
  shows "chars_ok (char_idx (shared s))" "num_filters (shared s) \<le> MAX_FILTERS"
    "(c, n0, fl) \<in> K \<Longrightarrow> c < num_filters (shared s)" "(c, n0, fl) \<in> K \<Longrightarrow> filters (shared s) c = fl"
    "snapshot_ok K (num_filters (shared s)) (prog s t)"
    "ts < 2 ^ 32 \<Longrightarrow> c < char_slots \<Longrightarrow> fresh_list bs s ts c"
    "ts < 2 ^ 32 \<Longrightarrow> x \<in> K \<Longrightarrow> since_list L bs s ts x"
proof -
  note a = assms [unfolded char_inv_def]
  show "chars_ok (char_idx (shared s))" by (rule a [THEN conjunct1])
  show "num_filters (shared s) \<le> MAX_FILTERS" by (rule a [THEN conjunct2, THEN conjunct1])
  have k: "\<forall>(c, n0, fl) \<in> K. c < num_filters (shared s) \<and> filters (shared s) c = fl"
    by (rule a [THEN conjunct2, THEN conjunct2, THEN conjunct1])
  then show "(c, n0, fl) \<in> K \<Longrightarrow> c < num_filters (shared s)" "(c, n0, fl) \<in> K \<Longrightarrow> filters (shared s) c = fl" by auto
  have r: "(\<forall>t. snapshot_ok K (num_filters (shared s)) (prog s t)) \<and> (\<forall>ts < 2 ^ 32. \<forall>c < char_slots. fresh_list bs s ts c)
     \<and> (\<forall>ts < 2 ^ 32. \<forall>x \<in> K. since_list L bs s ts x)"
    by (rule a [THEN conjunct2, THEN conjunct2, THEN conjunct2])
  then show "snapshot_ok K (num_filters (shared s)) (prog s t)" by (rule conjunct1 [THEN spec])
  show "ts < 2 ^ 32 \<Longrightarrow> c < char_slots \<Longrightarrow> fresh_list bs s ts c" "ts < 2 ^ 32 \<Longrightarrow> x \<in> K \<Longrightarrow> since_list L bs s ts x"
    using r [THEN conjunct2] by blast+
qed

lemma fresh_list_short:
  assumes "fresh_list bs s ts c"
  shows "length (char_entries ts c (char_idx (shared s))) \<le> length (burst_pkts bs)"
proof -
  have sub: "set (char_entries ts c (char_idx (shared s))) \<subseteq> {..<length (burst_pkts bs)}"
    using assms by (simp add: fresh_list_def) blast
  have "distinct (char_entries ts c (char_idx (shared s)))" using assms by (simp add: fresh_list_def)
  from distinct_card [OF this] show ?thesis using card_mono [OF _ sub] by simp
qed

text \<open>
  A step of one writer, or the addition of a character: the writer records \<open>xs ts c\<close>, some of the identifiers \<open>D\<close> it has still to
  record, and for the characters of \<open>K\<close> exactly those whose packets they accept.
\<close>

lemma char_inv_step:
  assumes inv: "char_inv L bs K s" and id: "id_inv (wr_abs s)" and bo: "burst_of L bs (prog s t)"
    and ok: "chars_ok (char_idx (shared s'))" "num_filters (shared s') \<le> MAX_FILTERS" "num_filters (shared s) \<le> num_filters (shared s')"
    and same: "\<And>c. c < num_filters (shared s) \<Longrightarrow> filters (shared s') c = filters (shared s) c"
    and progs: "prog s' = (prog s)(t := p)" "w_uncharted p \<subseteq> w_uncharted (prog s t)" "snapshot_ok K (num_filters (shared s')) p"
    and D: "D = w_uncharted (prog s t) - w_uncharted p"
    and ent: "\<And>ts c. ts < 2 ^ 32 \<Longrightarrow> c < char_slots \<Longrightarrow>
      char_entries ts c (char_idx (shared s')) = char_entries ts c (char_idx (shared s)) @ xs ts c
      \<and> distinct (xs ts c) \<and> set (xs ts c) \<subseteq> D"
    and exact: "\<And>ts c n0 fl. ts < 2 ^ 32 \<Longrightarrow> (c, n0, fl) \<in> K \<Longrightarrow>
      set (xs ts c) \<inter> {n0..} = {i \<in> D. n0 \<le> i \<and> taken_by L fl ts (burst_pkts bs ! i)}"
  shows "char_inv L bs K s'"
  unfolding char_inv_def
proof (intro conjI allI ballI impI)
  have un: "uncharted s' = uncharted s - D" unfolding D by (rule uncharted_update [OF id progs(1,2)])
  have mine: "D \<subseteq> uncharted s" unfolding D by (auto simp: uncharted_def)
  have low: "D \<subseteq> {..<length (burst_pkts bs)}"
    using bo unfolding D by (auto simp: burst_of_def w_uncharted_def split: option.splits)
  show "chars_ok (char_idx (shared s'))" "num_filters (shared s') \<le> MAX_FILTERS" by (rule ok)+
  show "case x of (c, n0, fl) \<Rightarrow> c < num_filters (shared s') \<and> filters (shared s') c = fl" if "x \<in> K" for x
    using char_invD(3,4) [OF inv] same ok(3) that by (cases x) fastforce
  show "snapshot_ok K (num_filters (shared s')) (prog s' u)" for u
  proof (cases "u = t")
    case True
    then show ?thesis using progs(1,3) by simp
  next
    case False
    then show ?thesis using progs(1) char_invD(5) [OF inv, of u] ok(3) unfolding snapshot_ok_def by fastforce
  qed
  show "fresh_list bs s' ts c" if "ts < 2 ^ 32" "c < char_slots" for ts c
    using char_invD(6) [OF inv that] ent [OF that] un mine low unfolding fresh_list_def by auto
  show "since_list L bs s' ts x" if ts: "ts < 2 ^ 32" and "x \<in> K" for ts x
  proof -
    obtain c n0 fl where x: "x = (c, n0, fl)" by (cases x)
    then have k: "(c, n0, fl) \<in> K" using that by simp
    have c: "c < char_slots" using char_invD(2,3) [OF inv] k by (fastforce simp: MAX_FILTERS_def char_slots_def)
    have old: "set (char_entries ts c (char_idx (shared s))) \<inter> {n0..}
        = {i. n0 \<le> i \<and> i < length (burst_pkts bs) \<and> taken_by L fl ts (burst_pkts bs ! i)} - uncharted s"
      using char_invD(7) [OF inv ts k] by (simp add: since_list_def)
    have "set (char_entries ts c (char_idx (shared s'))) \<inter> {n0..}
        = (set (char_entries ts c (char_idx (shared s))) \<inter> {n0..}) \<union> (set (xs ts c) \<inter> {n0..})"
      using ent [OF ts c] by auto
    also have "\<dots> = {i. n0 \<le> i \<and> i < length (burst_pkts bs) \<and> taken_by L fl ts (burst_pkts bs ! i)} - uncharted s'"
      unfolding old exact [OF ts k] un using mine low by auto
    finally show ?thesis by (simp add: since_list_def x)
  qed
qed

subsection \<open>Every step keeps the invariant\<close>

text \<open>A step that records nothing for a character.\<close>

lemma quiet_char_step:
  assumes inv: "char_inv L bs K s" and id: "id_inv (wr_abs s)" and bo: "burst_of L bs (prog s t)"
    and view: "\<forall>ts c. ts < 2 ^ 32 \<longrightarrow> c < char_slots \<longrightarrow>
      char_list_at ts c (char_idx (shared s')) = char_list_at ts c (char_idx (shared s))"
    and num: "num_filters (shared s') \<le> MAX_FILTERS" "num_filters (shared s) \<le> num_filters (shared s')"
    and same: "\<And>c. c < num_filters (shared s) \<Longrightarrow> filters (shared s') c = filters (shared s) c"
    and progs: "prog s' = (prog s)(t := p)" "w_uncharted p = w_uncharted (prog s t)" "snapshot_ok K (num_filters (shared s')) p"
  shows "char_inv L bs K s'"
proof (rule char_inv_step [OF inv id bo _ num same progs(1) _ progs(3) refl, where xs = "\<lambda>_ _. []"])
  show "chars_ok (char_idx (shared s'))" using char_invD(1) [OF inv] char_view_cong(1) [OF view] by simp
  show "w_uncharted p \<subseteq> w_uncharted (prog s t)" by (simp add: progs(2))
  show "char_entries ts c (char_idx (shared s')) = char_entries ts c (char_idx (shared s)) @ [] \<and> distinct [] \<and> set [] \<subseteq> w_uncharted (prog s t) - w_uncharted p"
    if "ts < 2 ^ 32" "c < char_slots" for ts c
    using char_view_cong(2) [OF view that] by simp
  show "set [] \<inter> {n0..} = {i \<in> w_uncharted (prog s t) - w_uncharted p. n0 \<le> i \<and> taken_by L fl ts (burst_pkts bs ! i)}"
    for ts n0 fl by (simp add: progs(2))
qed

lemma snapshot_ok_same: "snapshot_ok K n q \<Longrightarrow> w_burst p = w_burst q \<Longrightarrow> w_nc p = w_nc q \<Longrightarrow> snapshot_ok K n p"
  by (simp add: snapshot_ok_def)

lemma snapshot_ok_none: "snapshot_ok K n q \<Longrightarrow> w_burst p = w_burst q \<Longrightarrow> w_nc p = None \<Longrightarrow> snapshot_ok K n p"
  by (fastforce simp: snapshot_ok_def)

lemma snapshot_ok_idle: "snapshot_ok K n W_idle"
  by (simp add: snapshot_ok_def)

text \<open>A packet is recorded for the characters there were when its burst looked.\<close>

lemma charts_char_step:
  assumes inv: "char_inv L bs K s" and id: "id_inv (wr_abs s)" and bo: "burst_of L bs (prog s t)"
    and small: "length (burst_pkts bs) \<le> 2 ^ 27 - 8"
    and p: "prog s t = W_loop At_chars start off nc now k pkts" "k < length pkts"
    and run: "record_chars L now (mtod (pkts ! k)) (start + k) [0..<nc] (shared s) = Some S"
  shows "char_inv L bs K (with_prog t (W_loop At_index start off nc now (Suc k) pkts) (with_store S s))"
proof -
  let ?S = "shared s" and ?m = "pkts ! k" and ?p = "W_loop At_index start off nc now (Suc k) pkts"
  have b: "pkt_ok L ?m" "burst_pkts bs ! (start + k) = (now, ?m)" "now < 2 ^ 32"
    using bo p by (simp_all add: burst_of_def readable_burst_def)
  obtain q where q: "pkt_fields_of L (mtod ?m) = Some q" "fields_of L ?m = q" using b(1) by (auto simp: pkt_ok_def fields_of_def)
  have snap: "snapshot_ok K (num_filters ?S) (prog s t)" by (rule char_invD(5) [OF inv])
  then have nc: "nc \<le> num_filters ?S" using p(1) by (auto simp: snapshot_ok_def)
  have room: "c < MAX_FILTERS \<and> list_room (length (char_entries now c (char_idx ?S)))" if "c \<in> set [0..<nc]" for c
  proof -
    have c: "c < MAX_FILTERS" "c < char_slots" using that nc char_invD(2) [OF inv] by (simp_all add: MAX_FILTERS_def char_slots_def)
    have "length (char_entries now c (char_idx ?S)) \<le> 2 ^ 27 - 8"
      using fresh_list_short [OF char_invD(6) [OF inv b(3) c(2)]] small by simp
    then show ?thesis using c(1) by (simp add: list_room_iff)
  qed
  obtain ix where ix: "S = ?S\<lparr>char_idx := ix\<rparr>" "chars_ok ix"
    "\<forall>ts c. ts < 2 ^ 32 \<longrightarrow> c < char_slots \<longrightarrow> char_entries ts c ix = char_entries ts c (char_idx ?S)
       @ (if ts = now \<and> c \<in> set [0..<nc] \<and> char_matches (filters ?S c) q then [start + k] else [])"
    using record_chars_spec [OF q(1) b(3) char_invD(1) [OF inv], of "[0..<nc]" "start + k"] room run by auto
  have D: "{start + k} = w_uncharted (prog s t) - w_uncharted ?p" using p by (auto simp: w_uncharted_def)
  show ?thesis
  proof (rule char_inv_step [OF inv id bo _ _ _ _ _ _ _ D, where s' = "with_prog t ?p (with_store S s)"
      and xs = "\<lambda>ts c. if ts = now \<and> c \<in> set [0..<nc] \<and> char_matches (filters ?S c) q then [start + k] else []"])
    show "snapshot_ok K (num_filters (shared (with_prog t ?p (with_store S s)))) ?p"
      using snapshot_ok_same [OF snap, of ?p] p(1) ix(1) by simp
    show "w_uncharted ?p \<subseteq> w_uncharted (prog s t)" using p by (auto simp: w_uncharted_def)
    fix ts c n0 :: nat and fl assume ts: "ts < 2 ^ 32" and K: "(c, n0, fl) \<in> K"
    have fl: "filters ?S c = fl" using char_invD(4) [OF inv K] .
    have "start + length pkts \<le> n0 \<or> n0 \<le> start \<and> c < nc" using snap K p(1) by (fastforce simp: snapshot_ok_def)
    then have "n0 \<le> start + k \<Longrightarrow> c < nc" using p(2) by auto
    show "set (if ts = now \<and> c \<in> set [0..<nc] \<and> char_matches (filters ?S c) q then [start + k] else []) \<inter> {n0..}
      = {i \<in> {start + k}. n0 \<le> i \<and> taken_by L fl ts (burst_pkts bs ! i)}"
      using b(2) q(2) fl \<open>n0 \<le> start + k \<Longrightarrow> c < nc\<close> by (auto simp: taken_by_def)
  qed (use char_invD(2) [OF inv] ix in auto)
qed

lemma ptr_add_entry_only: "ptr_add_entry p key rid b = Some b' \<Longrightarrow> \<exists>h. b' = b\<lparr>index_heap := h\<rparr>"
  by (auto simp: ptr_add_entry_def bind_Some_iff split: if_splits)

lemma index_pkt_only: "index_pkt L pkt rid s = Some s' \<Longrightarrow> \<exists>b. s' = s\<lparr>base := b\<rparr>"
  by (auto simp: index_pkt_def index_ports_def bind_Some_iff split: if_splits)

lemma character_char_step:
  assumes inv: "char_inv L bs K s" and id: "id_inv (wr_abs s)" and bo: "burst_of L bs (prog s 0)"
    and add: "add_complex_character fl (shared s) = Some (S, c)"
  shows "char_inv L bs K (with_store S s)"
proof -
  have S: "num_filters (shared s) < MAX_FILTERS"
    "S = (shared s)\<lparr>num_filters := take_bit 32 (num_filters (shared s) + 1), filters := (filters (shared s))(num_filters (shared s) := fl)\<rparr>"
    using add by (auto simp: add_complex_character_def Let_def split: if_splits)
  have n: "take_bit 32 (num_filters (shared s) + 1) = num_filters (shared s) + 1"
    using S(1) by (simp add: MAX_FILTERS_def take_bit_id)
  have "snapshot_ok K (num_filters (shared s)) (prog s 0)" by (rule char_invD(5) [OF inv])
  then have "snapshot_ok K (num_filters (shared s) + 1) (prog s 0)" unfolding snapshot_ok_def by fastforce
  then show ?thesis
    by (intro quiet_char_step [OF inv id bo, where p = "prog s 0"]) (use S n in simp_all)
qed

lemma char_inv_on:
  assumes "wr_step L s s'" "\<forall>t. prog s t = W_idle \<longrightarrow> prog s' t = W_idle" "wr_inv s" "index_inv L bs s" "char_inv L bs K s"
    and "length (burst_pkts bs) \<le> 2 ^ 27 - 8"
  shows "char_inv L bs K s'"
proof -
  have id: "id_inv (wr_abs s)" using assms(3) by (simp add: wr_inv_def)
  have bo: "burst_of L bs (prog s t)" for t by (rule index_invD(3) [OF assms(4)])
  have snap: "snapshot_ok K (num_filters (shared s)) (prog s t)" for t by (rule char_invD(5) [OF assms(5)])
  have num: "num_filters (shared s) \<le> MAX_FILTERS" by (rule char_invD(2) [OF assms(5)])
  have place: "w_place_ok (placed s) (prog s t)" for t
    using bytes_invD(4) [of s t] assms(3) by (simp add: wr_inv_def writer_ok_def)
  from assms(1,2,5) id bo snap num place show ?thesis
  proof (induction rule: wr_step.induct)
    case (ids s t now pkts l start)
    then show ?case by (auto split: if_splits)
  next
    case (bytes s t start now pkts b off)
    show ?case
      by (rule quiet_char_step [OF bytes(4-6), where t = t and p = "W_bytes start off now pkts"])
        (use bytes(1,8) snapshot_ok_same [OF bytes(7) [of t]] in \<open>simp_all add: w_uncharted_def\<close>)
  next
    case (chars s t start off now pkts cix ci)
    have now: "now < 2 ^ 32" using chars(6) [of t] chars(1) by (simp add: burst_of_def readable_burst_def)
    have view: "\<forall>ts c. ts < 2 ^ 32 \<longrightarrow> c < char_slots \<longrightarrow> char_list_at ts c cix = char_list_at ts c (char_idx (shared s))"
      using time_get_spec [OF now, of "char_idx (shared s)"] chars(2) by auto
    have "snapshot_ok K (num_filters (shared s)) (W_stamp start off (num_filters (shared s)) now pkts)"
      using chars(7) [of t] chars(1) char_invD(3) [OF chars(4)] by (fastforce simp: snapshot_ok_def)
    then show ?case
      by (intro quiet_char_step [OF chars(4-6), where t = t and p = "W_stamp start off (num_filters (shared s)) now pkts"])
        (use chars(1,8) view in \<open>simp_all add: w_uncharted_def\<close>)
  next
    case (stamp s t start off nc now pkts b)
    show ?case
      by (rule quiet_char_step [OF stamp(4-6), where t = t and p = "W_loop At_index start off nc now 0 pkts"])
        (use stamp(1,8) snapshot_ok_same [OF stamp(7) [of t]] in \<open>simp_all add: w_uncharted_def\<close>)
  next
    case (index s t start off nc now k pkts S)
    obtain b where "S = (shared s)\<lparr>base := b\<rparr>" using index_pkt_only [OF index(3)] by blast
    then show ?case
      by (intro quiet_char_step [OF index(5-7), where t = t and p = "W_loop At_offset start off nc now k pkts"])
        (use index(1,9) snapshot_ok_same [OF index(8) [of t]] in \<open>simp_all add: w_uncharted_def\<close>)
  next
    case (offset s t start off nc now k pkts l)
    show ?case
      by (rule quiet_char_step [OF offset(4-6), where t = t and p = "W_loop At_append start off nc now k pkts"])
        (use offset(1,8) snapshot_ok_same [OF offset(7) [of t]] in \<open>simp_all add: w_uncharted_def\<close>)
  next
    case (append s t start off nc now k pkts b n)
    show ?case
      by (rule quiet_char_step [OF append(4-6), where t = t and p = "W_loop At_chars start (take_bit 64 (off + n)) nc now k pkts"])
        (use append(1,8) snapshot_ok_same [OF append(7) [of t]] in \<open>simp_all add: w_uncharted_def\<close>)
  next
    case (charts s t start off nc now k pkts S)
    have "k < length pkts" using charts(9) [of t] charts(1) by simp
    then show ?case by (rule charts_char_step [OF charts(4-6) assms(6) charts(1) _ charts(2)])
  next
    case (finish s t start off nc now pkts l)
    show ?case
      by (rule quiet_char_step [OF finish(4-6), where t = t and p = W_idle])
        (use finish(1,8) snapshot_ok_idle in \<open>simp_all add: w_uncharted_def\<close>)
  next
    case (spin s t start off nc now pkts l)
    show ?case
      by (rule quiet_char_step [OF spin(4-6), where t = t and p = "prog s t"]) (use spin(7,8) in simp_all)
  next
    case (character fl s S c)
    show ?case by (rule character_char_step [OF character(3-5) character(1)])
  qed
qed

lemma char_inv_begin:
  assumes "wr_step L s s'" "prog s t = W_idle" "prog s' t = W_ids start now pkts" "wr_inv s" "index_inv L bs s" "char_inv L bs K s"
    and "log_given bs s" "\<forall>(c, n0, fl) \<in> K. n0 \<le> length (burst_pkts bs)"
  shows "char_inv L (bs @ [(now, pkts)]) K s'"
proof -
  have start: "start = length (burst_pkts bs)"
    using wr_step_begin [OF assms(1-4)] assms(7) by (simp add: log_given_def length_burst_pkts)
  have prog: "prog s' = (prog s)(t := W_ids start now pkts)" "char_idx (shared s') = char_idx (shared s)"
    "num_filters (shared s') = num_filters (shared s)" "filters (shared s') = filters (shared s)"
    using assms(1-3) by (induction rule: wr_step.induct) (auto split: if_splits)
  have eq: "(\<lambda>u. w_uncharted (prog s' u)) = (\<lambda>u. w_uncharted (prog s u))(t := {start..<start + length pkts})"
    unfolding prog(1) by (simp add: w_uncharted_def fun_eq_iff)
  have un: "uncharted s' = uncharted s \<union> {start..<start + length pkts}"
    unfolding uncharted_def eq by (rule UN_add) (simp add: assms(2) w_uncharted_def)
  have low: "uncharted s \<subseteq> {..<start}"
    using index_invD(3) [OF assms(5)] start
    by (fastforce simp: uncharted_def w_uncharted_def burst_of_def split: option.splits)
  show ?thesis
    unfolding char_inv_def
  proof (intro conjI allI ballI impI)
    show "chars_ok (char_idx (shared s'))" "num_filters (shared s') \<le> MAX_FILTERS"
      using char_invD(1,2) [OF assms(6)] prog by simp_all
    show "case x of (c, n0, fl) \<Rightarrow> c < num_filters (shared s') \<and> filters (shared s') c = fl" if "x \<in> K" for x
      using char_invD(3,4) [OF assms(6)] prog that by (cases x) simp
    have "snapshot_ok K (num_filters (shared s)) (W_ids start now pkts)" using assms(8) start by (fastforce simp: snapshot_ok_def)
    then show "snapshot_ok K (num_filters (shared s')) (prog s' u)" for u
      using char_invD(5) [OF assms(6), of u] prog by simp
    show "fresh_list (bs @ [(now, pkts)]) s' ts c" if "ts < 2 ^ 32" "c < char_slots" for ts c
      using char_invD(6) [OF assms(6) that] un start by (auto simp: fresh_list_def prog(2) burst_pkts_snoc)
    show "since_list L (bs @ [(now, pkts)]) s' ts x" if "ts < 2 ^ 32" "x \<in> K" for ts x
    proof -
      obtain c n0 fl where x: "x = (c, n0, fl)" by (cases x)
      have "{i. n0 \<le> i \<and> i < length (burst_pkts bs) \<and> taken_by L fl ts (burst_pkts bs ! i)} - uncharted s
        = {i. n0 \<le> i \<and> i < length (burst_pkts (bs @ [(now, pkts)])) \<and> taken_by L fl ts (burst_pkts (bs @ [(now, pkts)]) ! i)} - uncharted s'"
        using un start low by (auto simp: burst_pkts_snoc nth_append)
      then show ?thesis using char_invD(7) [OF assms(6) that] by (simp add: since_list_def x prog(2))
    qed
  qed
qed

lemma char_inv_initial:
  assumes "packet_store_init = Some S"
  shows "char_inv L [] {} (wr_start S)"
proof -
  have S: "pstore_ok S" "\<forall>ts c. ts < 2 ^ 32 \<longrightarrow> c < char_slots \<longrightarrow> char_entries ts c (char_idx S) = []"
    using packet_store_init_ok assms by (metis option.inject)+
  then show ?thesis
    by (auto simp: char_inv_def pstore_ok_def wr_start_def snapshot_ok_def fresh_list_def)
qed

lemma wr_run_append: "wr_run L s1 bs2 s2 \<Longrightarrow> wr_run L s bs1 s1 \<Longrightarrow> wr_run L s (bs1 @ bs2) s2"
proof (induction rule: wr_run.induct)
  case (run_begin bs s1' s2' t start now pkts)
  from wr_run.run_begin [OF run_begin(5) run_begin(2-4)] show ?case using run_begin(6) by simp
next
  case (run_on bs s1' s2')
  then show ?case using wr_run.run_on by blast
qed simp

text \<open>The invariant is kept by a run that goes on from where it holds.\<close>

lemma char_inv_run:
  assumes init: "packet_store_init = Some S" "wr_run L (wr_start S) bs0 s0" and inv: "char_inv L bs0 K s0"
    and run: "wr_run L s0 bs1 s" and K: "\<forall>(c, n0, fl) \<in> K. n0 \<le> length (burst_pkts bs0)"
    and ok: "\<forall>b \<in> set (bs0 @ bs1). readable_burst L b" "length (burst_pkts (bs0 @ bs1)) \<le> 2 ^ 27 - 8"
  shows "char_inv L (bs0 @ bs1) K s"
  using run ok
proof (induction rule: wr_run.induct)
  case run_start
  then show ?case using inv by simp
next
  case (run_begin bs s1 s2 t start now pkts)
  have r: "wr_run L (wr_start S) (bs0 @ bs) s1" by (rule wr_run_append [OF run_begin(1) init(2)])
  have small: "\<forall>b \<in> set (bs0 @ bs). readable_burst L b" "length (burst_pkts (bs0 @ bs)) \<le> 2 ^ 27 - 8"
    using run_begin.prems by (auto simp: burst_pkts_def)
  note start = wr_initial_start [OF init(1)]
  have "\<forall>(c, n0, fl) \<in> K. n0 \<le> length (burst_pkts (bs0 @ bs))" using K by (fastforce simp: burst_pkts_def)
  from char_inv_begin [OF run_begin(2-4) wr.reach_invar [OF start wr_run_reach [OF r]] index_inv_run [OF init(1) r small]
      run_begin(5) [OF small] log_given_run [OF start r] this]
  show ?case by simp
next
  case (run_on bs s1 s2)
  have r: "wr_run L (wr_start S) (bs0 @ bs) s1" by (rule wr_run_append [OF run_on(1) init(2)])
  show ?case
    by (rule char_inv_on [OF run_on(2,3) wr.reach_invar [OF wr_initial_start [OF init(1)] wr_run_reach [OF r]]
        index_inv_run [OF init(1) r run_on.prems] run_on(4) [OF run_on.prems] run_on.prems(2)])
qed

text \<open>A character that is there can be followed from then on.\<close>

lemma char_inv_follow:
  assumes "char_inv L bs {} s" "index_inv L bs s" "c < num_filters (shared s)"
  shows "char_inv L bs {(c, length (burst_pkts bs), filters (shared s) c)} s"
  unfolding char_inv_def
proof (intro conjI allI ballI impI)
  note D = char_invD [OF assms(1)]
  let ?n = "length (burst_pkts bs)"
  show "chars_ok (char_idx (shared s))" "num_filters (shared s) \<le> MAX_FILTERS" by (rule D)+
  show "case x of (c', n0, fl) \<Rightarrow> c' < num_filters (shared s) \<and> filters (shared s) c' = fl" if "x \<in> {(c, ?n, filters (shared s) c)}" for x
    using that assms(3) by simp
  show "snapshot_ok {(c, ?n, filters (shared s) c)} (num_filters (shared s)) (prog s t)" for t
    using D(5) [of t] index_invD(3) [OF assms(2), of t] by (auto simp: snapshot_ok_def burst_of_def)
  show "fresh_list bs s ts c'" if "ts < 2 ^ 32" "c' < char_slots" for ts c' by (rule D(6) [OF that])
  show "since_list L bs s ts x" if ts: "ts < 2 ^ 32" and x: "x \<in> {(c, ?n, filters (shared s) c)}" for ts x
  proof -
    have "c < char_slots" using D(2) assms(3) by (simp add: MAX_FILTERS_def char_slots_def)
    from D(6) [OF ts this] show ?thesis using x by (auto simp: since_list_def fresh_list_def)
  qed
qed


text \<open>A run in which a character is added and one writer then inserts a packet that it accepts.\<close>

lemma character_then_burst_run:
  "\<exists>S s0 s. packet_store_init = Some S \<and> wr_run wire_layout (wr_start S) [] s0 \<and> num_filters (shared s0) = 1
    \<and> filters (shared s0) 0 = [from_80] \<and> wr_run wire_layout s0 [(1500000000, [tcp_pkt])] s
    \<and> prog s = (\<lambda>_. W_idle) \<and> num_pkts (shared s) = 1"
proof -
  obtain S S1 S' where S: "packet_store_init = Some S" "add_complex_character [from_80] S = Some (S1, 0)"
    "insert_pktburst wire_layout 1500000000 [tcp_pkt] S1 = Some S'" "store_pkts S' = [(1500000000, tcp_bytes)]"
    using char_query_store by (elim exE conjE) (rule that)
  have n: "num_pkts S' = 1" using arg_cong [OF S(4), of length] by (simp add: store_pkts_def)
  have "num_filters S = 0" using packet_store_init_ok S(1) by (metis option.inject)
  then have S1: "num_filters S1 = 1" "filters S1 0 = [from_80]"
    using S(2) by (auto simp: add_complex_character_def MAX_FILTERS_def take_bit_id)
  let ?s0 = "with_store S1 (wr_start S)"
  have add: "wr_step wire_layout (wr_start S) ?s0" by (rule wr_step.character [where fl = "[from_80]" and c = 0]) (simp add: wr_start_def S(2))
  have r0: "wr_run wire_layout (wr_start S) [] ?s0" by (rule run_on [OF run_start add]) simp
  have idle: "prog ?s0 = (\<lambda>_. W_idle)" by (simp add: wr_start_def)
  have inv: "wr_inv ?s0" using wr.reach_invar [OF wr_initial_start [OF S(1)] wr_run_reach [OF r0]] .
  have can: "burst_can_start 1500000000 [tcp_pkt]" by (simp add: burst_can_start_def tcp_pkt_def)
  obtain start s1 pl where b: "wr_step wire_layout ?s0 s1" "prog s1 0 = W_ids start 1500000000 [tcp_pkt]"
    "(wr_on wire_layout)\<^sup>*\<^sup>* s1 \<lparr>shared = S', prog = prog ?s0, given = given (give start 1500000000 [tcp_pkt] ?s0), placed = pl\<rparr>"
    using burst_alone_on [OF inv _ can, of 0 wire_layout S'] S(3) idle by auto
  have "wr_run wire_layout ?s0 ([] @ [(1500000000, [tcp_pkt])]) s1"
    by (rule run_begin [OF run_start b(1) _ b(2)]) (simp only: idle)
  from wr_run_on [OF b(3) this] show ?thesis
    using S(1) r0 S1 n idle
    by (intro exI [of _ S] exI [of _ ?s0] exI [of _ "\<lparr>shared = S', prog = prog ?s0, given = given (give start 1500000000 [tcp_pkt] ?s0), placed = pl\<rparr>"]) simp
qed


end
