(* ===== verification/Concurrent_Queries.thy ===== *)
theory Concurrent_Queries
  imports Concurrent_Writers Query_Correct
begin

section \<open>Queries while a burst is inserted\<close>

text \<open>
  A query takes the read counter as its limit, so that packets whose burst is not yet published are left out.
  The enumeration applies the limit only when it moves on, not to the first entry.
\<close>

text \<open>The plan of a clause with one filter, here the packets of one second.\<close>

definition second_plan :: "nat \<Rightarrow> nat \<Rightarrow> clause_plan" where
  "second_plan iid now = clause_plan_default\<lparr>idx_filter := Some (mk_filter iid (now, now)), plan_valid := True,
     perform_pkt_filter := Some False\<rparr>"

text \<open>A writer that has entered its burst into the timestamp index, and nothing else yet.\<close>

lemma stamped_run:
  assumes inv: "wr_inv s" and p: "prog s t = W_idle" and ok: "pstore_ok (shared s)" and room: "burst_room L now pkts (shared s)"
  shows "\<exists>s'. wr_reach L s s' \<and> num_pkts (shared s') = num_pkts (shared s)
    \<and> timestamp_idx_id (shared s') = timestamp_idx_id (shared s)
    \<and> index_ptr (timestamp_idx_id (shared s)) (wr_log s') = index_ptr (timestamp_idx_id (shared s)) (wr_log s)
    \<and> indexes_ok (wr_log s')
    \<and> index_entries (timestamp_idx_id (shared s)) now (wr_log s') =
        index_entries (timestamp_idx_id (shared s)) now (wr_log s) @ [num_pkts (shared s)..<num_pkts (shared s) + length pkts]"
proof -
  let ?S = "shared s" and ?r = "num_pkts (shared s)" and ?n = "length pkts" and ?o = "dtail (wr_log s)"
  obtain ol d cix h ci where pre: "request_id_block ?n (olog_of (wr_log s)) = Some (ol, ?r)"
    "request_bytes (burst_bytes pkts) ((wr_log s)\<lparr>olog_of := ol\<rparr>)
        = Some ((wr_log s)\<lparr>olog_of := ol, dtail := ?o + burst_len pkts, dlog := d\<rparr>, ?o)"
    "time_get now (char_idx ?S) = Some (cix, ci)"
    "ptr_add_range (timestamp_ptr ?S) now ?r (?r + ?n - 1) ((wr_log s)\<lparr>olog_of := ol, dtail := ?o + burst_len pkts, dlog := d\<rparr>)
        = Some ((wr_log s)\<lparr>olog_of := ol, dtail := ?o + burst_len pkts, dlog := d, index_heap := h\<rparr>)"
    and iok: "indexes_ok ((wr_log s)\<lparr>olog_of := ol, dtail := ?o + burst_len pkts, dlog := d, index_heap := h\<rparr>)"
    and ent: "\<forall>iid k. index_ptr iid (wr_log s) \<noteq> Some None \<longrightarrow> key_fits iid k \<longrightarrow>
         index_entries iid k ((wr_log s)\<lparr>olog_of := ol, dtail := ?o + burst_len pkts, dlog := d, index_heap := h\<rparr>)
         = index_entries iid k (wr_log s) @ (if iid = timestamp_idx_id ?S \<and> k = now then [?r..<?r + ?n] else [])"
    and read: "current_read_id ol = ?r"
    using burst_prepare [OF ok room] by (elim exE conjE) (rule that; assumption)
  have r: "pkts \<noteq> []" "?n < 2 ^ 16" "\<forall>m \<in> set pkts. pkt_ok L m" "now < 2 ^ 32" "?r + ?n < 2 ^ 34"
    using room unfolding burst_room_def by blast+
  have can: "burst_can_start now pkts" using r by (auto simp: burst_can_start_def pkt_ok_def)
  have fin: "take_bit 64 (?r + ?n + (2 ^ 64 - 1)) = ?r + ?n - 1"
    using r(1,5) by (intro wrap_minus_one) (simp_all add: length_greater_0_conv [symmetric] del: length_greater_0_conv)
  define s1 where "s1 = with_prog t (W_ids ?r now pkts) (give ?r now pkts (with_log ((wr_log s)\<lparr>olog_of := ol\<rparr>) s))"
  define s2 where "s2 = with_prog t (W_bytes ?r ?o now pkts)
    (with_log ((wr_log s)\<lparr>olog_of := ol, dtail := ?o + burst_len pkts, dlog := d\<rparr>) s1)"
  define s3 where "s3 = with_prog t (W_stamp ?r ?o (num_filters (shared s2)) now pkts)
    (with_store ((shared s2)\<lparr>char_idx := cix\<rparr>) s2)"
  define b where "b = (wr_log s)\<lparr>olog_of := ol, dtail := ?o + burst_len pkts, dlog := d, index_heap := h\<rparr>"
  define s4 where "s4 = with_prog t (W_loop At_index ?r ?o (num_filters (shared s2)) now 0 pkts) (with_log b s3)"
  have "wr_step L s s1" unfolding s1_def using p can pre(1) by (rule wr_step.ids)
  moreover have "wr_step L s1 s2" unfolding s2_def by (rule wr_step.bytes) (use pre(2) in \<open>simp_all add: s1_def\<close>)
  moreover have "wr_step L s2 s3" unfolding s3_def by (rule wr_step.chars) (simp_all add: s2_def s1_def pre(3))
  moreover have "wr_step L s3 s4"
    unfolding s4_def b_def by (rule wr_step.stamp) (use pre(4) fin in \<open>simp_all add: s3_def s2_def s1_def\<close>)
  ultimately have reach: "wr_reach L s s4" by (meson converse_rtranclp_into_rtranclp rtranclp.rtrancl_refl)
  have log: "wr_log s4 = b" "timestamp_idx_id (shared s4) = timestamp_idx_id ?S"
    by (simp_all add: s4_def s3_def s2_def s1_def)
  have id: "ids_ok ?S" using ok by (simp add: pstore_ok_def)
  have ptr: "index_ptr iid b = index_ptr iid (wr_log s)" for iid by (simp add: b_def index_ptr_def split: option.split)
  have "key_fits (timestamp_idx_id ?S) now" using r(4) ids_okD(10) [OF id] by (simp add: key_fits_def)
  then have "index_entries (timestamp_idx_id ?S) now b = index_entries (timestamp_idx_id ?S) now (wr_log s) @ [?r..<?r + ?n]"
    using ent ids_okD(5) [OF id] by (simp add: b_def)
  moreover have "num_pkts (shared s4) = ?r" using log read by (simp add: num_pkts_def num_records_def num_ids_def b_def)
  ultimately show ?thesis using reach log ptr iok by (intro exI [of _ s4]) (simp add: b_def)
qed

text \<open>
  C12. A query can return a packet that is not there yet. On any store that satisfies the invariant, for a
  burst that the store has room for, when no packet of the current second is stored: there is a run of the
  inserting writer after which no packet has been published, and a query for the packets of
  that second returns the identifier of the first packet of the burst, which is not below \<^verbatim>\<open>num_pkts\<close>.
\<close>

theorem query_returns_unpublished:
  assumes "packet_store_init = Some S" "wr_reach L (wr_start S) s" "prog s t = W_idle" "pstore_ok (shared s)"
    and "burst_room L now pkts (shared s)" "now + 1 < 2 ^ 32"
    and "index_entries (timestamp_idx_id (shared s)) now (base (shared s)) = []"
  shows "\<exists>s'. wr_reach L s s' \<and> num_pkts (shared s') = num_pkts (shared s)
    \<and> filter_pkts L {} [second_plan (timestamp_idx_id (shared s)) now] (shared s') = Some {num_pkts (shared s)}"
proof -
  let ?iid = "timestamp_idx_id (shared s)" and ?r = "num_pkts (shared s)"
  have inv: "wr_inv s" using wr.reach_invar [OF wr_initial_start [OF assms(1)] assms(2)] .
  have id: "ids_ok (shared s)" using assms(4) by (simp add: pstore_ok_def)
  obtain s' where s': "wr_reach L s s'" "num_pkts (shared s') = ?r" "timestamp_idx_id (shared s') = ?iid"
    "index_ptr ?iid (wr_log s') = Some (Some (timestamp_ptr (shared s)))" "indexes_ok (wr_log s')"
    "index_entries ?iid now (wr_log s') = [?r..<?r + length pkts]"
    using stamped_run [OF inv assms(3-5)] assms(7) ids_okD(5) [OF id] by auto
  let ?p = "timestamp_ptr (shared s)"
  let ?ix = "index_heap (wr_log s') ! ?p"
  note d = indexes_okD [OF s'(5,4)]
  have bytes: "obj_bytes ?ix = 4" using d(3) ids_okD(10) [OF id] by simp
  let ?fr = "\<lparr>fr_index = Some ?ix, tok_min = now, tok_max = now, max_rid = ?r\<rparr>"
  have list: "obj_list now ?ix = [?r..<?r + length pkts]" using s'(4,6) by (simp add: index_entries_def)
  have ne: "pkts \<noteq> []" using assms(5) by (simp add: burst_room_def)
  have fr: "fr_ok ?fr ?ix" using d(2) bytes assms(6) list ne by (auto simp: fr_ok_def dest: le_antisym)
  have "range_entries ?ix now now = ?r # [Suc ?r..<?r + length pkts]"
    using list ne by (simp add: range_entries_def upt_conv_Cons)
  moreover have "filter (\<lambda>v. v < ?r) [Suc ?r..<?r + length pkts] = []" by (simp add: filter_empty_conv)
  ultimately have it: "filter_iterate ?fr = Some [?r]" using filter_iterate_spec [OF fr] by simp
  have "num_ids (olog_of (wr_log s')) = ?r" using s'(2) by (simp add: num_pkts_def num_records_def)
  then have "filter_pkts L {} [second_plan ?iid now] (shared s') = Some {?r}"
    using it s'(4) d(1) by (simp add: filter_pkts_def clause_pkts_def second_plan_def mk_filter_def log_filter_max_def)
  then show ?thesis using s'(1,2) by blast
qed

theorem query_returns_unpublished_witness:
  "\<exists>S s. packet_store_init = Some S \<and> wr_reach wire_layout (wr_start S) s \<and> num_pkts (shared s) = 0
     \<and> filter_pkts wire_layout {} [second_plan (timestamp_idx_id S) 1500000000] (shared s) = Some {0}"
proof -
  obtain S where S: "packet_store_init = Some S" "pstore_ok S" "num_pkts S = 0" "burst_room wire_layout 1500000000 [tcp_pkt] S"
    using new_store_room by (elim exE conjE) (rule that)
  have "index_entries (timestamp_idx_id S) 1500000000 (base S) = []"
    using packet_store_init_ok [unfolded S(1)] S(2) ids_okD(10) [of S] by (auto simp: key_fits_def pstore_ok_def)
  then show ?thesis
    using query_returns_unpublished [OF S(1) rtranclp.rtrancl_refl, of 0 wire_layout 1500000000 "[tcp_pkt]"] S
    by (auto simp: wr_start_def)
qed

end
