(* ===== verification/Query_Aggregates.thy ===== *)
theory Query_Aggregates
  imports Query_Results "HOL-Library.Multiset"
begin

section \<open>Aggregates of query results (aggregates.h)\<close>

text \<open>
  What the loops of the aggregates compute, and that no aggregate depends on the order in which the set of results is
  iterated. The values a cast aggregates are the identifiers of the packets, cut to the width of the attribute.
\<close>

lemma agg_sum_from: "foldl (\<lambda>s x. take_bit w (s + take_bit w x)) (take_bit w a) xs = take_bit w (a + sum_list xs)"
  for a :: nat
proof (induction xs arbitrary: a)
  case (Cons x xs)
  have "take_bit w (take_bit w a + take_bit w x) = take_bit w (a + x)" by (rule take_bit_add)
  then show ?case using Cons.IH [of "a + x"] by (simp add: add.assoc)
qed simp

lemma agg_sum_eq: "agg_sum w xs = take_bit w (sum_list xs)"
  using agg_sum_from [of w 0 xs] by (simp add: agg_sum_def)

lemma agg_maximum_eq: "agg_maximum w xs = Max (insert 0 (take_bit w ` set xs))"
proof (induction xs rule: rev_induct)
  case (snoc x xs)
  let ?A = "insert 0 (take_bit w ` set xs)"
  have "agg_maximum w (xs @ [x]) = max (take_bit w x) (agg_maximum w xs)" by (simp add: agg_maximum_def max_def)
  also have "\<dots> = Max (insert (take_bit w x) ?A)" using snoc by (subst Max_insert) auto
  finally show ?case by (simp add: insert_commute)
qed (simp add: agg_maximum_def)

lemma agg_minimum_eq: "agg_minimum w xs = Min (insert (2 ^ w - 1) (take_bit w ` set xs))"
proof (induction xs rule: rev_induct)
  case (snoc x xs)
  let ?A = "insert (2 ^ w - 1) (take_bit w ` set xs)"
  have "agg_minimum w (xs @ [x]) = min (take_bit w x) (agg_minimum w xs)" by (simp add: agg_minimum_def min_def)
  also have "\<dots> = Min (insert (take_bit w x) ?A)" using snoc by (subst Min_insert) auto
  finally show ?case by (simp add: insert_commute)
qed (simp add: agg_minimum_def)

lemma agg_any_order:
  assumes "mset xs = mset ys"
  shows "agg_result_set xs = agg_result_set ys" "agg_count xs = agg_count ys" "agg_sum w xs = agg_sum w ys"
    "agg_maximum w xs = agg_maximum w ys" "agg_minimum w xs = agg_minimum w ys"
proof -
  have eq: "set xs = set ys" "length xs = length ys" "sum_list xs = sum_list ys"
    using arg_cong [OF assms, of set_mset] mset_eq_length [OF assms] arg_cong [OF assms, of sum_mset] by (simp_all add: sum_mset_sum_list)
  then show "agg_result_set xs = agg_result_set ys" "agg_count xs = agg_count ys" "agg_sum w xs = agg_sum w ys"
    "agg_maximum w xs = agg_maximum w ys" "agg_minimum w xs = agg_minimum w ys"
    by (simp_all add: agg_result_set_def agg_count_def agg_sum_eq agg_maximum_eq agg_minimum_eq)
qed

text \<open>
  A cast of one predicate with the sum or the minimum of an attribute of width \<open>w\<close> returns the sum or the
  minimum of the identifiers of the matching packets, cut to \<open>w\<close> bits: no value of the attribute is read.
\<close>

theorem predicate_aggregates:
  assumes "pstore_ok s" "complete L s" "build_index_filter s now attr op val = Some (Inr f)" "filter_inside s f"
  defines "M \<equiv> {i. i < num_pkts s \<and> pkt_matches L s [f] i}"
  shows "\<exists>P. plan s now (Predicate attr op val) = Some (Inr P)
    \<and> cast_execute L (agg_sum w) P s = Some (take_bit w (\<Sum>M))
    \<and> cast_execute L (agg_minimum w) P s = Some (Min (insert (2 ^ w - 1) (take_bit w ` M)))"
proof -
  obtain P where P: "plan s now (Predicate attr op val) = Some (Inr P)" "filter_pkts L {} P s = Some M"
    using predicate_query [OF assms(1-4)] unfolding M_def by blast
  have M: "finite M" by (simp add: M_def)
  have "sum_list (sorted_list_of_set M) = \<Sum>M" using sum_list_distinct_conv_sum_set [of "sorted_list_of_set M" id] M by simp
  then show ?thesis using P M by (auto simp: cast_execute_def execute_cast_def agg_sum_eq agg_minimum_eq)
qed

theorem predicate_aggregates_witness:
  "\<exists>s s'. packet_store_init = Some s \<and> insert_pktburst wire_layout 1500000000 [tcp_pkt, tcp_pkt2] s = Some s'
    \<and> (\<exists>P. plan s' 1500000001 (Predicate ''src_port'' ''=='' ''20736'') = Some (Inr P)
        \<and> cast_execute wire_layout (agg_sum 16) P s' = Some 1)"
proof -
  obtain s s' where s: "packet_store_init = Some s" "insert_pktburst wire_layout 1500000000 [tcp_pkt, tcp_pkt2] s = Some s'"
    and ok: "pstore_ok s'" "complete wire_layout s'" and pkts: "store_pkts s' = [(1500000000, tcp_bytes), (1500000000, tcp_bytes2)]"
    using two_pkts_store by (elim exE conjE) (rule that)
  let ?f = "mk_filter (srcport_idx_id s') (20736, 20736)"
  have f: "build_index_filter s' 1500000001 ''src_port'' ''=='' ''20736'' = Some (Inr ?f)"
    using port_eq_filter [OF stoi_examples(2)] by (simp add: build_index_filter_def)
  have "pkt_matches wire_layout s' [?f] i \<longleftrightarrow> i = 1" if "i < 2" for i
    using that two_pkts_keys [OF ok(1) pkts] by (auto simp: pkt_matches_def mk_filter_def in_range_def less_2_cases_iff)
  then have M: "{i. i < num_pkts s' \<and> pkt_matches wire_layout s' [?f] i} = {1}"
    using two_pkts_keys(1) [OF ok(1) pkts] by auto
  have one: "take_bit 16 (1 :: nat) = 1" by (simp add: take_bit_eq_mod)
  show ?thesis
    using s predicate_aggregates [OF ok f, of 16] port_filter_inside(1) [OF ok(1)] unfolding M by (auto simp: one)
qed

end
