(* ===== verification/Store_Exact.thy ===== *)
theory Store_Exact
  imports Character_Query
begin

section \<open>Exact stores\<close>

text \<open>
  The invariants of the packet store in one: its indexes are complete, it has no other index entries, and every
  character has recorded exactly the packets that matched since it was added. On such a store the room a burst needs is a
  matter of numbers: how many packets and how many bytes the store has already.
\<close>

definition store_exact :: "hdr_layout \<Rightarrow> packet_store \<Rightarrow> bool" where
  "store_exact L s \<longleftrightarrow> pstore_ok s \<and> complete L s
     \<and> (\<forall>iid k. key_fits iid k \<longrightarrow> iid \<notin> set (own_ids s) \<longrightarrow> index_entries iid k (base s) = [])
     \<and> (\<forall>c < num_filters s. \<exists>n0. char_exact L c n0 s)
     \<and> (\<forall>c ts. num_filters s \<le> c \<longrightarrow> c < char_slots \<longrightarrow> ts < 2 ^ 32 \<longrightarrow> char_entries ts c (char_idx s) = [])"

text \<open>Room for a burst of packets that fit the buffer behind a block.\<close>

definition burst_small :: "hdr_layout \<Rightarrow> nat \<Rightarrow> mbuf list \<Rightarrow> packet_store \<Rightarrow> bool" where
  "burst_small L now pkts s \<longleftrightarrow> pkts \<noteq> [] \<and> length pkts < 2 ^ 16 \<and> now < 2 ^ 32
     \<and> (\<forall>m \<in> set pkts. pkt_ok L m \<and> headers_inside L m \<and> pkt_len m \<le> 1016)
     \<and> num_pkts s + 3 * length pkts < 2 ^ 27 \<and> dtail (base s) + burst_len pkts < 2 ^ 40"

lemma burst_fits_small:
  assumes "\<forall>m \<in> set pkts. pkt_len m \<le> 1016" "off + burst_len pkts < 2 ^ 40"
  shows "burst_fits off pkts"
  using assms
proof (induction pkts arbitrary: off)
  case (Cons m ms)
  have "off mod datalog_bs < datalog_bs" by (simp add: datalog_bs_def)
  then have "off mod datalog_bs + (pkt_len m + 8) \<le> datalog_bs + BUFFER_SIZE"
    using Cons.prems(1) by (simp add: BUFFER_SIZE_def)
  moreover have "off div datalog_bs < datalog_nb"
    using Cons.prems(2) by (simp add: datalog_bs_def datalog_nb_def div_less_iff_less_mult)
  ultimately show ?case using Cons.IH [of "off + (pkt_len m + 8)"] Cons.prems by (simp add: run_fits_def burst_len_def)
qed simp

lemma index_entries_bound:
  assumes "store_exact L s" "key_fits iid k"
  shows "length (index_entries iid k (base s)) \<le> num_pkts s"
proof (cases "iid \<in> set (own_ids s)")
  case True
  then have "index_entries iid k (base s) = filter (\<lambda>i. stored_key L s iid i = Some k) [0..<num_pkts s]"
    using assms by (simp add: store_exact_def complete_def)
  then show ?thesis using length_filter_le [of _ "[0..<num_pkts s]"] by simp
qed (use assms in \<open>simp add: store_exact_def\<close>)

lemma char_entries_bound:
  assumes "store_exact L s" "c < num_filters s" "ts < 2 ^ 32"
  shows "length (char_entries ts c (char_idx s)) \<le> num_pkts s"
proof -
  obtain n0 where "char_exact L c n0 s" using assms(1,2) by (auto simp: store_exact_def)
  then have "char_entries ts c (char_idx s) = filter (stored_match L s c ts) [n0..<num_pkts s]"
    using assms(3) by (simp add: char_exact_def)
  then show ?thesis using length_filter_le [of "stored_match L s c ts" "[n0..<num_pkts s]"] by simp
qed

lemma burst_small_room:
  assumes "store_exact L s" "burst_small L now pkts s"
  shows "burst_room L now pkts s"
proof -
  have small: "num_pkts s + 3 * length pkts < 2 ^ 27" "now < 2 ^ 32" "pkts \<noteq> []" using assms(2) by (simp_all add: burst_small_def)
  have ids: "length (index_entries iid k (base s)) + (2 * length pkts + 3) \<le> 2 ^ 28 - 16" if "key_fits iid k" for iid k
    using index_entries_bound [OF assms(1) that] small(1) by simp
  have chars: "length (char_entries now c (char_idx s)) + length pkts \<le> 2 ^ 28 - 16" if "c < num_filters s" for c
    using char_entries_bound [OF assms(1) that small(2)] small(1) by simp
  have "burst_fits (dtail (base s)) pkts" using assms(2) by (intro burst_fits_small) (simp_all add: burst_small_def)
  then show ?thesis using assms(2) ids chars small(1) by (simp add: burst_room_def burst_small_def)
qed

lemma packet_store_init_exact:
  "\<exists>s. packet_store_init = Some s \<and> store_exact L s \<and> store_pkts s = [] \<and> num_filters s = 0 \<and> dtail (base s) = 0"
proof -
  obtain s where s: "packet_store_init = Some s" "pstore_ok s" "num_pkts s = 0" "dtail (base s) = 0" "num_filters s = 0"
    "\<forall>j k. key_fits j k \<longrightarrow> index_entries j k (base s) = []"
    "\<forall>ts c. ts < 2 ^ 32 \<longrightarrow> c < char_slots \<longrightarrow> char_entries ts c (char_idx s) = []"
    using packet_store_init_ok by (elim exE conjE) (rule that)
  then show ?thesis by (intro exI [of _ s]) (simp add: store_exact_def complete_def store_pkts_def)
qed

lemma char_exact_filters:
  assumes "char_exact L c n0 s" "c < num_filters s" "num_filters s \<le> num_filters s'"
    and "s' = s\<lparr>num_filters := num_filters s', filters := filters s'\<rparr>" "filters s' c = filters s c"
  shows "char_exact L c n0 s'"
proof -
  have e: "num_pkts s' = num_pkts s" "char_idx s' = char_idx s" "store_pkts s' = store_pkts s"
    by (subst assms(4), simp add: num_pkts_def store_pkts_def)+
  have "stored_match L s' c ts = stored_match L s c ts" for ts
    using e(3) assms(5) by (intro ext) (simp add: stored_match_def split: prod.splits option.splits)
  then show ?thesis using assms(1-3) e by (simp add: char_exact_def)
qed

lemma stored_key_cong:
  assumes "own_ids s' = own_ids s" "store_pkts s' = store_pkts s"
  shows "stored_key L s' iid i = stored_key L s iid i"
proof -
  have "pkt_key s' p ts iid = pkt_key s p ts iid" for p ts using assms(1) by (simp add: pkt_key_def own_ids_def)
  then show ?thesis using assms(2) by (simp add: stored_key_def split: prod.splits)
qed

lemma add_character_keeps_exact:
  assumes "store_exact L s" "num_filters s < MAX_FILTERS"
  shows "\<exists>s'. add_complex_character fl s = Some (s', num_filters s) \<and> store_exact L s' \<and> store_pkts s' = store_pkts s
    \<and> num_filters s' = num_filters s + 1 \<and> filters s' (num_filters s) = fl \<and> char_exact L (num_filters s) (num_pkts s) s'
    \<and> dtail (base s') = dtail (base s)"
proof -
  let ?n = "num_filters s"
  have old: "pstore_ok s" "complete L s" "\<forall>c < ?n. \<exists>n0. char_exact L c n0 s"
    "\<forall>c ts. ?n \<le> c \<longrightarrow> c < char_slots \<longrightarrow> ts < 2 ^ 32 \<longrightarrow> char_entries ts c (char_idx s) = []"
    "\<forall>iid k. key_fits iid k \<longrightarrow> iid \<notin> set (own_ids s) \<longrightarrow> index_entries iid k (base s) = []"
    using assms(1) by (simp_all add: store_exact_def)
  have empty: "\<forall>ts < 2 ^ 32. char_entries ts ?n (char_idx s) = []"
    using old(4) assms(2) by (simp add: MAX_FILTERS_def char_slots_def)
  obtain s' where s': "add_complex_character fl s = Some (s', ?n)" "pstore_ok s'" "store_pkts s' = store_pkts s"
    "char_exact L ?n (num_pkts s) s'" "s' = s\<lparr>num_filters := ?n + 1, filters := (filters s)(?n := fl)\<rparr>"
    using add_character_exact [OF old(1) assms(2) empty, of fl L] by (elim exE conjE) (rule that)
  have same: "num_filters s' = ?n + 1" "base s' = base s" "char_idx s' = char_idx s" "own_ids s' = own_ids s"
    "num_pkts s' = num_pkts s"
    by (simp_all add: s'(5) own_ids_def num_pkts_def)
  note keys = stored_key_cong [OF same(4) s'(3)]
  have "\<exists>n0. char_exact L c n0 s'" if "c < num_filters s'" for c
  proof (cases "c = ?n")
    case False
    then have "c < ?n" using that same(1) by simp
    then obtain n0 where "char_exact L c n0 s" using old(3) by blast
    then have "char_exact L c n0 s'"
      by (rule char_exact_filters) (use \<open>c < ?n\<close> in \<open>simp_all add: s'(5)\<close>)
    then show ?thesis by blast
  qed (use s'(4) in blast)
  then have "store_exact L s'" using old s'(2,3) same keys by (simp add: store_exact_def complete_def)
  then show ?thesis using s' same by (intro exI [of _ s']) simp
qed

text \<open>A burst keeps an exact store exact.\<close>

lemma insert_pktburst_keeps_exact:
  assumes "store_exact L s" "burst_small L now pkts s"
  shows "\<exists>s'. insert_pktburst L now pkts s = Some s' \<and> store_exact L s'
    \<and> store_pkts s' = store_pkts s @ map (\<lambda>m. (now, pkt_bytes m)) pkts \<and> num_filters s' = num_filters s
    \<and> filters s' = filters s \<and> dtail (base s') = dtail (base s) + burst_len pkts"
proof -
  note room = burst_small_room [OF assms]
  have ok: "pstore_ok s" "complete L s" using assms(1) by (simp_all add: store_exact_def)
  have inside: "\<forall>m \<in> set pkts. headers_inside L m" using assms(2) by (simp add: burst_small_def)
  obtain b ix where r: "insert_pktburst L now pkts s = Some (s\<lparr>base := b, char_idx := ix\<rparr>)"
    "dtail b = dtail (base s) + burst_len pkts" "\<forall>iid. index_ptr iid b = index_ptr iid (base s)"
    "\<forall>iid k. index_ptr iid (base s) \<noteq> Some None \<longrightarrow> key_fits iid k \<longrightarrow> index_entries iid k b = index_entries iid k (base s)
          @ (if iid = timestamp_idx_id s \<and> k = now then [num_pkts s..<num_pkts s + length pkts] else [])
          @ matching_ids (\<lambda>m. pkt_has s iid k (fields_of L m)) (num_pkts s) pkts"
    "charted L now (num_filters s) (filters s) (num_pkts s) pkts (char_idx s) ix"
    using insert_pktburst_spec [OF ok(1) room] by blast
  let ?s = "s\<lparr>base := b, char_idx := ix\<rparr>"
  have c: "pstore_ok ?s" "complete L ?s" "store_pkts ?s = store_pkts s @ map (\<lambda>m. (now, pkt_bytes m)) pkts"
    using insert_pktburst_complete [OF ok room inside] r(1) by auto
  have ids: "own_ids ?s = own_ids s" by (simp add: own_ids_def)
  have other: "index_entries iid k b = []" if "key_fits iid k" "iid \<notin> set (own_ids s)" for iid k
  proof (cases "index_ptr iid (base s) = Some None")
    case True
    then show ?thesis using r(3) by (simp add: index_entries_def)
  next
    case False
    have "\<not> pkt_has s iid k p" for p using that(2) by (auto simp: pkt_has_def own_ids_def split: option.splits)
    moreover have "index_entries iid k (base s) = []" using assms(1) that by (simp add: store_exact_def)
    ultimately show ?thesis using r(4) that False by (simp add: own_ids_def)
  qed
  have chars: "\<exists>n0. char_exact L c n0 ?s" if c: "c < num_filters ?s" for c
  proof -
    obtain n0 where "char_exact L c n0 s" using assms(1) c by (auto simp: store_exact_def)
    then show ?thesis using insert_pktburst_char_exact [OF ok(1) _ room inside] r(1) by auto
  qed
  have free: "char_entries ts c ix = []" if "num_filters s \<le> c" "c < char_slots" "ts < 2 ^ 32" for c ts
    using r(5) that assms(1) by (auto simp: charted_def store_exact_def)
  have "store_exact L ?s" using c(1,2) other ids chars free by (simp add: store_exact_def)
  then show ?thesis using r(1,2) c(3) by (intro exI [of _ ?s]) simp
qed

end
