(* ===== verification/Query_Meaning.thy ===== *)
theory Query_Meaning
  imports Query_Results
begin

section \<open>What queries mean\<close>

text \<open>
  The store turns a query into ranges on its indexes, which it names by identifiers. Here is what a query means without a store: a
  disjunction of lists of conditions, each the name of an attribute and a range of its values. Which range an operator gives is read
  from the code (\<open>ip_filter\<close>, \<open>port_filter\<close>, \<open>time_filter\<close>), so that \<open>!=\<close> means here what it means to the store.
\<close>

type_synonym cond = "string \<times> tok_range"

definition attrs :: "string list" where
  "attrs = [''src_ip'', ''dst_ip'', ''src_port'', ''dst_port'', ''timestamp'']"

definition predicate_cond :: "nat \<Rightarrow> string \<Rightarrow> string \<Rightarrow> string \<Rightarrow> cond result" where
  "predicate_cond now attr op val =
     rbind (if attr = ''src_ip'' \<or> attr = ''dst_ip'' then ip_filter 0 op val
            else if attr = ''src_port'' \<or> attr = ''dst_port'' then port_filter 0 op val
            else if attr = ''timestamp'' then time_filter 0 op val now
            else rthrow (''Invaild attribute: '' @ attr))
       (\<lambda>f. rreturn (attr, f_tok_range f))"

fun conds :: "nat \<Rightarrow> expression list \<Rightarrow> cond list result" where
  "conds now [] = rreturn []"
| "conds now (e # es) =
     (case e of
        Predicate attr op val \<Rightarrow> rbind (predicate_cond now attr op val) (\<lambda>x. rbind (conds now es) (\<lambda>c. rreturn (x # c)))
      | _ \<Rightarrow> rthrow not_dnf_msg)"

fun disj_conds :: "nat \<Rightarrow> expression list \<Rightarrow> cond list list result" where
  "disj_conds now [] = rreturn []"
| "disj_conds now (e # es) =
     (case e of
        Conj cs \<Rightarrow> rbind (conds now cs) (\<lambda>c. rbind (disj_conds now es) (\<lambda>r. rreturn (c # r)))
      | _ \<Rightarrow> rthrow not_dnf_msg)"

definition query_conds :: "nat \<Rightarrow> expression \<Rightarrow> cond list list result" where
  "query_conds now e =
     (case e of
        Predicate attr op val \<Rightarrow> rbind (predicate_cond now attr op val) (\<lambda>x. rreturn [[x]])
      | Conj es \<Rightarrow> rbind (conds now es) (\<lambda>c. rreturn [c])
      | Disj es \<Rightarrow> disj_conds now es
      | Neg _ \<Rightarrow> rreturn [])"

text \<open>The conjunctions in front of the first that is refused: for them the store makes plans before it throws.\<close>

fun tried :: "nat \<Rightarrow> expression list \<Rightarrow> cond list list" where
  "tried now [] = []"
| "tried now (e # es) =
     (case e of
        Conj cs \<Rightarrow> (case conds now cs of Some (Inr c) \<Rightarrow> c # tried now es | _ \<Rightarrow> [])
      | _ \<Rightarrow> [])"

definition tried_conds :: "nat \<Rightarrow> expression \<Rightarrow> cond list list" where
  "tried_conds now e =
     (case e of
        Disj es \<Rightarrow> tried now es
      | _ \<Rightarrow> (case query_conds now e of Some (Inr cs) \<Rightarrow> cs | _ \<Rightarrow> []))"

text \<open>Ranges the store can enumerate: not empty, and ending before the last value of the attribute.\<close>

definition cond_inside :: "cond \<Rightarrow> bool" where
  "cond_inside x \<longleftrightarrow> fst x \<in> set attrs \<and> fst (snd x) \<le> snd (snd x)
     \<and> snd (snd x) + 1 < (if fst x = ''src_port'' \<or> fst x = ''dst_port'' then 2 ^ 16 else 2 ^ 32)"

definition conds_inside :: "cond list \<Rightarrow> bool" where
  "conds_inside c \<longleftrightarrow> c \<noteq> [] \<and> (\<forall>x \<in> set c. cond_inside x)"

subsection \<open>Packets and conditions\<close>

definition attr_key :: "string \<Rightarrow> pkt_fields \<Rightarrow> nat \<Rightarrow> nat option" where
  "attr_key a p ts =
     (if a = ''src_ip'' then Some (p_src_addr p) else if a = ''dst_ip'' then Some (p_dst_addr p)
      else if a = ''src_port'' then map_option fst (p_ports p) else if a = ''dst_port'' then map_option snd (p_ports p)
      else if a = ''timestamp'' then Some ts else None)"

definition packet_attr :: "hdr_layout \<Rightarrow> string \<Rightarrow> nat \<times> u8 list \<Rightarrow> nat option" where
  "packet_attr L a x = do { p \<leftarrow> pkt_fields_of L (cells_of (snd x)); attr_key a p (fst x) }"

definition meets :: "hdr_layout \<Rightarrow> cond list \<Rightarrow> nat \<times> u8 list \<Rightarrow> bool" where
  "meets L c x \<longleftrightarrow> (\<forall>(a, r) \<in> set c. \<exists>v. packet_attr L a x = Some v \<and> in_range r v)"

definition fails :: "hdr_layout \<Rightarrow> cond list \<Rightarrow> nat \<times> u8 list \<Rightarrow> bool" where
  "fails L c x \<longleftrightarrow> (\<exists>(a, r) \<in> set c. \<exists>v. packet_attr L a x = Some v \<and> \<not> in_range r v)"

text \<open>
  An answer to a disjunction, over a list of packets: every packet that meets one of the lists of conditions and, but for at most one
  packet per list, none that fails all of them. With a single condition there are no exceptions.
\<close>

definition answer_right :: "hdr_layout \<Rightarrow> (nat \<times> u8 list) list \<Rightarrow> cond list list \<Rightarrow> nat set \<Rightarrow> bool" where
  "answer_right L xs cs R \<longleftrightarrow> R \<subseteq> {..<length xs}
     \<and> {i. i < length xs \<and> (\<exists>c \<in> set cs. meets L c (xs ! i))} \<subseteq> R
     \<and> (\<exists>E. finite E \<and> card E \<le> length cs \<and> (\<forall>i \<in> R - E. \<exists>c \<in> set cs. \<not> fails L c (xs ! i)))"

text \<open>The filter of a character for a list of conditions; of several conditions on one attribute the last counts.\<close>

definition set_cond :: "cond \<Rightarrow> packet_filter \<Rightarrow> packet_filter" where
  "set_cond x pf =
     (if fst x = ''src_ip'' then pf\<lparr>src_addr := snd x\<rparr> else if fst x = ''dst_ip'' then pf\<lparr>dst_addr := snd x\<rparr>
      else if fst x = ''src_port'' then pf\<lparr>src_port := snd x\<rparr> else if fst x = ''dst_port'' then pf\<lparr>dst_port := snd x\<rparr>
      else pf\<lparr>timestamp := snd x\<rparr>)"

definition cond_filter :: "cond list \<Rightarrow> packet_filter" where
  "cond_filter c = fold set_cond c full_filter"

section \<open>The store has this meaning\<close>

definition attr_index :: "packet_store \<Rightarrow> string \<Rightarrow> nat" where
  "attr_index s a =
     (if a = ''src_ip'' then srcip_idx_id s else if a = ''dst_ip'' then dstip_idx_id s
      else if a = ''src_port'' then srcport_idx_id s else if a = ''dst_port'' then dstport_idx_id s else timestamp_idx_id s)"

definition to_filter :: "packet_store \<Rightarrow> cond \<Rightarrow> index_filter" where
  "to_filter s x = mk_filter (attr_index s (fst x)) (snd x)"

definition rmap :: "('a \<Rightarrow> 'b) \<Rightarrow> 'a result \<Rightarrow> 'b result" where
  "rmap f r = rbind r (\<lambda>x. rreturn (f x))"

lemma rbind_simps [simp]:
  "rbind None f = None" "rbind (Some (Inl m)) f = Some (Inl m)" "rbind (Some (Inr x)) f = f x"
  "rbind (rreturn x) f = f x" "rbind (rthrow m) f = rthrow m" "rbind (rbind r f) g = rbind r (\<lambda>x. rbind (f x) g)"
  by (auto simp: rbind_def rreturn_def rthrow_def split: option.splits sum.splits)

lemma result_cases:
  obtains "r = None" | m where "r = Some (Inl m)" | x where "r = Some (Inr x)"
  using that by (cases r) (metis sum.exhaust)+

lemma filter_of_id:
  "ip_filter iid op val = rbind (ip_filter 0 op val) (\<lambda>f. rreturn (mk_filter iid (f_tok_range f)))"
  "port_filter iid op val = rbind (port_filter 0 op val) (\<lambda>f. rreturn (mk_filter iid (f_tok_range f)))"
  "time_filter iid op val now = rbind (time_filter 0 op val now) (\<lambda>f. rreturn (mk_filter iid (f_tok_range f)))"
proof -
  have r: "f_tok_range (mk_filter i t) = t" for i t by (simp add: mk_filter_def)
  show "ip_filter iid op val = rbind (ip_filter 0 op val) (\<lambda>f. rreturn (mk_filter iid (f_tok_range f)))"
    by (cases "ip_string_to_uint32 val") (simp_all add: ip_filter_def r)
  show "port_filter iid op val = rbind (port_filter 0 op val) (\<lambda>f. rreturn (mk_filter iid (f_tok_range f)))"
    by (cases "stoi val") (simp_all add: port_filter_def Let_def r)
  have "(if b then x else y) = rbind (if b then x' else y') f \<longleftrightarrow> (if b then x = rbind x' f else y = rbind y' f)"
    for b and x y :: "index_filter result" and x' y' :: "index_filter result" and f by simp
  then show "time_filter iid op val now = rbind (time_filter 0 op val now) (\<lambda>f. rreturn (mk_filter iid (f_tok_range f)))"
    unfolding time_filter_def by (cases rule: result_cases [of "time_value op val now"]) (simp_all add: r)
qed

lemma index_filter_cond: "build_index_filter s now attr op val = rmap (to_filter s) (predicate_cond now attr op val)"
  by (simp add: build_index_filter_def predicate_cond_def rmap_def to_filter_def attr_index_def
    filter_of_id(1) [of "srcip_idx_id s"] filter_of_id(1) [of "dstip_idx_id s"] filter_of_id(2) [of "srcport_idx_id s"]
    filter_of_id(2) [of "dstport_idx_id s"] filter_of_id(3) [of "timestamp_idx_id s"])

lemma build_clause_conds: "build_clause s now es = rmap (map (to_filter s)) (conds now es)"
  by (induction es) (auto simp: index_filter_cond rmap_def split: expression.split)

lemma disj_clauses_conds: "disj_clauses s now es = rmap (map (map (to_filter s))) (disj_conds now es)"
  by (induction es) (auto simp: build_clause_conds rmap_def split: expression.split)

lemma expr_clauses_conds: "expr_clauses s now e = rmap (map (map (to_filter s))) (query_conds now e)"
  by (cases e) (simp_all add: expr_clauses_def query_conds_def build_clause_conds disj_clauses_conds index_filter_cond rmap_def)


text \<open>The conditions a query names are on attributes that exist.\<close>

lemma predicate_cond_attr: "predicate_cond now attr op val = Some (Inr x) \<Longrightarrow> fst x \<in> set attrs"
  by (auto simp: predicate_cond_def attrs_def rbind_def rreturn_def rthrow_def split: option.splits sum.splits if_splits)

lemma conds_attrs: "conds now es = Some (Inr c) \<Longrightarrow> fst ` set c \<subseteq> set attrs"
proof (induction es arbitrary: c)
  case (Cons e es)
  then obtain attr op val where e: "e = Predicate attr op val" by (cases e) (simp_all add: rthrow_def)
  from Cons.prems obtain x c' where x: "predicate_cond now attr op val = Some (Inr x)" "conds now es = Some (Inr c')" "c = x # c'"
    unfolding e by (auto simp: rbind_def rreturn_def split: option.splits sum.splits)
  then show ?case using Cons.IH [OF x(2)] predicate_cond_attr [OF x(1)] by simp
qed (simp add: rreturn_def)

lemma tried_conds_disj: "disj_conds now es = Some (Inr cs) \<Longrightarrow> tried now es = cs"
proof (induction es arbitrary: cs)
  case (Cons e es)
  then obtain xs where e: "e = Conj xs" by (cases e) (simp_all add: rthrow_def)
  from Cons.prems obtain c cs' where "conds now xs = Some (Inr c)" "disj_conds now es = Some (Inr cs')" "cs = c # cs'"
    unfolding e by (auto simp: rbind_def rreturn_def split: option.splits sum.splits)
  then show ?case using Cons.IH e by simp
qed (simp add: rreturn_def)

lemma tried_all: "query_conds now e = Some (Inr cs) \<Longrightarrow> tried_conds now e = cs"
  using tried_conds_disj by (cases e) (auto simp: tried_conds_def query_conds_def)

text \<open>The keys of a stored packet, and the room of the indexes.\<close>

lemma attr_index_own: "attr_index s a \<in> set (own_ids s)"
  by (simp add: attr_index_def own_ids_def)

lemma attr_index_key:
  assumes "distinct (own_ids s)" "a \<in> set attrs"
  shows "pkt_key s p ts (attr_index s a) = attr_key a p ts"
  using own_keys [OF assms(1)] assms(2) by (auto simp: attrs_def attr_index_def attr_key_def)

lemma stored_key_attr:
  assumes "pstore_ok s" "a \<in> set attrs"
  shows "stored_key L s (attr_index s a) i = packet_attr L a (store_pkts s ! i)"
  using attr_index_key [OF own_ids_distinct [OF assms(1)] assms(2)] by (simp add: stored_key_def packet_attr_def split: prod.splits)

lemma attr_index_fits:
  assumes "pstore_ok s" "a \<in> set attrs"
  shows "key_fits (attr_index s a) k \<longleftrightarrow> k < (if a = ''src_port'' \<or> a = ''dst_port'' then 2 ^ 16 else 2 ^ 32)"
  using assms(2) ids_okD(6-10) [of s] assms(1) by (auto simp: pstore_ok_def attrs_def attr_index_def key_fits_def)

lemma clause_inside_conds:
  assumes "pstore_ok s" "conds_inside c"
  shows "clause_inside s (map (to_filter s) c)"
  using assms attr_index_own attr_index_fits [OF assms(1)]
  by (fastforce simp: clause_inside_def conds_inside_def cond_inside_def filter_inside_def to_filter_def mk_filter_def)

lemma pkt_matches_conds:
  assumes "pstore_ok s" "conds_inside c"
  shows "pkt_matches L s (map (to_filter s) c) i \<longleftrightarrow> meets L c (store_pkts s ! i)"
    "pkt_excluded L s (map (to_filter s) c) i \<longleftrightarrow> fails L c (store_pkts s ! i)"
proof -
  have k: "stored_key L s (f_index_id (to_filter s x)) i = packet_attr L (fst x) (store_pkts s ! i)" if "x \<in> set c" for x
    using stored_key_attr [OF assms(1)] assms(2) that by (simp add: conds_inside_def cond_inside_def to_filter_def mk_filter_def)
  have r: "f_tok_range (to_filter s x) = snd x" for x by (simp add: to_filter_def mk_filter_def)
  show "pkt_matches L s (map (to_filter s) c) i \<longleftrightarrow> meets L c (store_pkts s ! i)"
    unfolding pkt_matches_def meets_def using k r by (simp add: case_prod_beta)
  show "pkt_excluded L s (map (to_filter s) c) i \<longleftrightarrow> fails L c (store_pkts s ! i)"
    unfolding pkt_excluded_def fails_def using k r by (simp add: case_prod_beta)
qed

lemma answers_conds:
  assumes "pstore_ok s" "\<forall>c \<in> set cs. conds_inside c" "answers L s (map (map (to_filter s)) cs) R"
  shows "answer_right L (store_pkts s) cs R"
proof -
  have n: "length (store_pkts s) = num_pkts s" by (simp add: store_pkts_def)
  have m: "(\<exists>c \<in> set (map (map (to_filter s)) cs). pkt_matches L s c i) \<longleftrightarrow> (\<exists>c \<in> set cs. meets L c (store_pkts s ! i))"
    "(\<exists>c \<in> set (map (map (to_filter s)) cs). \<not> pkt_excluded L s c i) \<longleftrightarrow> (\<exists>c \<in> set cs. \<not> fails L c (store_pkts s ! i))" for i
    using pkt_matches_conds [OF assms(1)] assms(2) by simp_all
  show ?thesis using assms(3) unfolding answers_def answer_right_def m n by simp
qed

subsection \<open>Casts\<close>

lemma build_clause_plan_inside:
  assumes "pstore_ok s" "Query_Data.complete L s" "conds_inside c"
  shows "\<exists>cp. build_clause_plan s (map (to_filter s) c) = Some (Inr cp)"
  using clauses_query [OF assms(1,2), of "[map (to_filter s) c]"] clause_inside_conds [OF assms(1,3)] by (auto simp: list_all2_Cons1)

lemma plan_disjuncts_error:
  assumes "pstore_ok s" "Query_Data.complete L s"
  shows "disj_conds now es = Some (Inl m) \<Longrightarrow> \<forall>c \<in> set (tried now es). conds_inside c \<Longrightarrow>
    plan_disjuncts s now es = Some (Inl m)"
proof (induction es)
  case (Cons e es)
  show ?case
  proof (cases "\<exists>xs. e = Conj xs")
    case True
    then obtain xs where e: "e = Conj xs" by blast
    show ?thesis
    proof (cases rule: result_cases [of "conds now xs"])
      case (3 c)
      then obtain cp where "build_clause_plan s (map (to_filter s) c) = Some (Inr cp)"
        using build_clause_plan_inside [OF assms, of c] Cons.prems(2) e by auto
      moreover have "disj_conds now es = Some (Inl m)"
        using Cons.prems(1) 3 e by (cases rule: result_cases [of "disj_conds now es"]) (simp_all add: rreturn_def)
      ultimately show ?thesis using Cons.IH Cons.prems(2) 3 e by (simp add: build_clause_conds rmap_def)
    qed (use Cons.prems(1) e in \<open>simp_all add: build_clause_conds rmap_def\<close>)
  next
    case False
    then show ?thesis using Cons.prems(1) by (cases e) (simp_all add: rthrow_def)
  qed
qed (simp add: rreturn_def)

lemma plan_error:
  assumes "pstore_ok s" "Query_Data.complete L s" "query_conds now e = Some (Inl m)" "\<forall>c \<in> set (tried_conds now e). conds_inside c"
  shows "plan s now e = Some (Inl m)"
proof (cases e)
  case (Disj es)
  then show ?thesis using plan_disjuncts_error [OF assms(1,2)] assms(3,4) by (simp add: query_conds_def tried_conds_def plan_def)
next
  case (Conj es)
  then have "conds now es = Some (Inl m)"
    using assms(3) by (cases rule: result_cases [of "conds now es"]) (simp_all add: query_conds_def rreturn_def)
  then show ?thesis using Conj by (simp add: plan_def build_clause_conds rmap_def)
next
  case (Predicate attr op val)
  then have "predicate_cond now attr op val = Some (Inl m)"
    using assms(3) by (cases rule: result_cases [of "predicate_cond now attr op val"]) (simp_all add: query_conds_def rreturn_def)
  then show ?thesis using Predicate by (simp add: plan_def index_filter_cond rmap_def)
qed (use assms(3) in \<open>simp add: query_conds_def rreturn_def\<close>)

lemma plan_answer:
  assumes "pstore_ok s" "Query_Data.complete L s" "query_conds now e = Some (Inr cs)" "\<forall>c \<in> set cs. conds_inside c"
  shows "\<exists>P R. plan s now e = Some (Inr P) \<and> filter_pkts L {} P s = Some R \<and> answer_right L (store_pkts s) cs R
    \<and> (\<forall>attr op val. e = Predicate attr op val \<longrightarrow> R = {i. i < num_pkts s \<and> (\<exists>c \<in> set cs. meets L c (store_pkts s ! i))})"
proof -
  have cl: "expr_clauses s now e = Some (Inr (map (map (to_filter s)) cs))"
    by (simp add: expr_clauses_conds assms(3) rmap_def rreturn_def)
  have ins: "\<forall>c \<in> set (map (map (to_filter s)) cs). clause_inside s c" using clause_inside_conds [OF assms(1)] assms(4) by simp
  obtain P R where r: "plan s now e = Some (Inr P)" "filter_pkts L {} P s = Some R" "answer_right L (store_pkts s) cs R"
    using query_answers_plan [OF assms(1,2) cl ins] answers_conds [OF assms(1,4)] by blast
  have "R = {i. i < num_pkts s \<and> (\<exists>c \<in> set cs. meets L c (store_pkts s ! i))}" if e: "e = Predicate attr op val" for attr op val
  proof -
    obtain x where x: "predicate_cond now attr op val = Some (Inr x)" "cs = [[x]]"
      using assms(3) e by (cases rule: result_cases [of "predicate_cond now attr op val"]) (simp_all add: query_conds_def rreturn_def)
    have "build_index_filter s now attr op val = Some (Inr (to_filter s x))" by (simp add: index_filter_cond x(1) rmap_def rreturn_def)
    moreover have "filter_inside s (to_filter s x)" using ins x(2) by (simp add: clause_inside_def)
    ultimately have "R = {i. i < num_pkts s \<and> pkt_matches L s [to_filter s x] i}"
      using predicate_query [OF assms(1,2)] r(1,2) e by fastforce
    then show ?thesis using pkt_matches_conds(1) [OF assms(1), of "[x]"] assms(4) x(2) by simp
  qed
  then show ?thesis using r by blast
qed


subsection \<open>Characters\<close>

definition filter_conds :: "nat \<Rightarrow> expression \<Rightarrow> packet_filter list result" where
  "filter_conds now e = rmap (map cond_filter) (query_conds now e)"

lemma build_packet_filter_conds:
  assumes "distinct (own_ids s)" "fst ` set c \<subseteq> set attrs"
  shows "build_packet_filter s (map (to_filter s) c) = rreturn (cond_filter c)"
proof -
  have "build_packet_filter_from s (map (to_filter s) c) pf = rreturn (fold set_cond c pf)" for pf
    using assms(2)
  proof (induction c arbitrary: pf)
    case (Cons x c)
    have "build_packet_filter_from s (to_filter s x # map (to_filter s) c) pf
        = build_packet_filter_from s (map (to_filter s) c) (set_cond x pf)"
      using own_ids_neq [OF assms(1)] own_ids_neq [OF assms(1), symmetric] Cons.prems
      by (auto simp: attrs_def to_filter_def mk_filter_def attr_index_def set_cond_def)
    then show ?case using Cons by simp
  qed simp
  then show ?thesis by (simp add: build_packet_filter_def cond_filter_def)
qed

lemma build_disjuncts_conds:
  assumes "distinct (own_ids s)"
  shows "build_disjuncts s now es = rmap (map cond_filter) (disj_conds now es)"
proof (induction es)
  case (Cons e es)
  show ?case
  proof (cases e)
    case (Conj xs)
    show ?thesis
    proof (cases rule: result_cases [of "conds now xs"])
      case (3 c)
      then show ?thesis
        using Conj Cons.IH build_packet_filter_conds [OF assms conds_attrs [OF 3]] by (simp add: build_clause_conds rmap_def)
    qed (simp_all add: Conj build_clause_conds rmap_def)
  qed (simp_all add: rmap_def)
qed (simp add: rmap_def)

lemma build_filter_list_conds:
  assumes "distinct (own_ids s)"
  shows "build_filter_list s now e = filter_conds now e"
proof (cases e)
  case (Conj xs)
  show ?thesis
  proof (cases rule: result_cases [of "conds now xs"])
    case (3 c)
    then show ?thesis using Conj build_packet_filter_conds [OF assms conds_attrs [OF 3]]
      by (simp add: build_filter_list_def filter_conds_def query_conds_def build_clause_conds rmap_def)
  qed (simp_all add: Conj build_filter_list_def filter_conds_def query_conds_def build_clause_conds rmap_def)
next
  case (Predicate attr op val)
  show ?thesis
  proof (cases rule: result_cases [of "predicate_cond now attr op val"])
    case (3 x)
    then show ?thesis using Predicate build_packet_filter_conds [OF assms, of "[x]"] predicate_cond_attr [OF 3]
      by (simp add: build_filter_list_def filter_conds_def query_conds_def index_filter_cond rmap_def)
  qed (simp_all add: Predicate build_filter_list_def filter_conds_def query_conds_def index_filter_cond rmap_def)
next
  case (Disj es)
  then show ?thesis using build_disjuncts_conds [OF assms] by (simp add: build_filter_list_def filter_conds_def query_conds_def)
qed (simp add: build_filter_list_def filter_conds_def query_conds_def rmap_def)

definition filter_range :: "string \<Rightarrow> packet_filter \<Rightarrow> tok_range" where
  "filter_range a pf =
     (if a = ''src_ip'' then src_addr pf else if a = ''dst_ip'' then dst_addr pf
      else if a = ''src_port'' then src_port pf else if a = ''dst_port'' then dst_port pf else timestamp pf)"

lemma filter_range_set: "a \<in> set attrs \<Longrightarrow> fst x \<in> set attrs \<Longrightarrow>
    filter_range a (set_cond x pf) = (if fst x = a then snd x else filter_range a pf)"
  unfolding attrs_def by (elim set_ConsD [THEN disjE] | simp add: filter_range_def set_cond_def)+

lemma filter_range_fold:
  assumes "distinct (map fst c)" "fst ` set c \<subseteq> set attrs" "a \<in> set attrs"
  shows "filter_range a (fold set_cond c pf) = (case map_of c a of None \<Rightarrow> filter_range a pf | Some r \<Rightarrow> r)"
  using assms(1,2)
proof (induction c arbitrary: pf)
  case (Cons x c)
  have "map_of c (fst x) = None" using Cons.prems(1) by (simp add: map_of_eq_None_iff)
  moreover have "filter_range a (set_cond x pf) = (if fst x = a then snd x else filter_range a pf)"
    using filter_range_set [OF assms(3)] Cons.prems(2) by simp
  moreover have "map_of (x # c) a = (if fst x = a then Some (snd x) else map_of c a)" by (cases x) simp
  ultimately show ?case using Cons by (cases "fst x = a") (simp_all split: option.split)
qed simp

lemma accepts_at_range:
  "accepts_at pf p ts \<longleftrightarrow> (\<forall>a \<in> set attrs. \<forall>v. attr_key a p ts = Some v \<longrightarrow> in_range (filter_range a pf) v)"
  by (cases "p_ports p") (simp_all add: attrs_def accepts_at_def accepts_def attr_key_def filter_range_def case_prod_beta conj_ac)

text \<open>With conditions on different attributes, a filter accepts the packets that fail none of them.\<close>

lemma cond_filter_accepts:
  assumes "fst ` set c \<subseteq> set attrs" "distinct (map fst c)" "pkt_fields_of L (cells_of bytes) = Some p" "ts < 2 ^ 32"
  shows "accepts_at (cond_filter c) p ts \<longleftrightarrow> \<not> fails L c (ts, bytes)"
proof -
  have key: "packet_attr L a (ts, bytes) = attr_key a p ts" for a by (simp add: packet_attr_def assms(3))
  have full: "in_range (filter_range a full_filter) v" if "attr_key a p ts = Some v" for a v
  proof -
    have "v < 2 ^ 32" using pkt_field_bounds [OF assms(3)] assms(4) that
      by (cases "p_ports p") (auto simp: attr_key_def split: if_splits)
    then show ?thesis by (simp add: filter_range_def full_filter_def in_range_def)
  qed
  have "accepts_at (cond_filter c) p ts \<longleftrightarrow>
      (\<forall>a \<in> set attrs. \<forall>v. attr_key a p ts = Some v \<longrightarrow> (\<forall>r. map_of c a = Some r \<longrightarrow> in_range r v))"
    unfolding accepts_at_range cond_filter_def using filter_range_fold [OF assms(2,1)] full
    by (intro ball_cong refl) (simp split: option.split)
  also have "\<dots> \<longleftrightarrow> (\<forall>(a, r) \<in> set c. \<forall>v. attr_key a p ts = Some v \<longrightarrow> in_range r v)"
  proof -
    have m: "map_of c a = Some r \<longleftrightarrow> (a, r) \<in> set c" for a r using map_of_eq_Some_iff [OF assms(2)] .
    have "a \<in> set attrs" if "(a, r) \<in> set c" for a r using assms(1) that by force
    then show ?thesis unfolding m by blast
  qed
  also have "\<dots> \<longleftrightarrow> \<not> fails L c (ts, bytes)" unfolding fails_def key by fast
  finally show ?thesis .
qed

end
