(* ===== verification/Session_Refinement.thy ===== *)
theory Session_Refinement
  imports Prelude
begin

section \<open>Sessions\<close>

text \<open>
  A session is a sequence of requests that one client sends to a component, each answered before the next. The component is
  a function from requests and states; a result \<open>None\<close> is undefined behaviour. Its specification is an abstract state,
  the requests a client may send in it, the state after each request, and the answers that are right.
\<close>

fun session :: "('q \<Rightarrow> 's \<Rightarrow> ('s \<times> 'r) option) \<Rightarrow> 'q list \<Rightarrow> 's \<Rightarrow> ('s \<times> 'r list) option" where
  "session run [] s = Some (s, [])"
| "session run (q # qs) s = do {
     (s1, r) \<leftarrow> run q s;
     (s2, rs) \<leftarrow> session run qs s1;
     Some (s2, r # rs) }"

fun permitted :: "('q \<Rightarrow> 'a \<Rightarrow> bool) \<Rightarrow> ('q \<Rightarrow> 'a \<Rightarrow> 'a) \<Rightarrow> 'q list \<Rightarrow> 'a \<Rightarrow> bool" where
  "permitted may next_state [] a \<longleftrightarrow> True"
| "permitted may next_state (q # qs) a \<longleftrightarrow> may q a \<and> permitted may next_state qs (next_state q a)"

fun answered_right :: "('q \<Rightarrow> 'a \<Rightarrow> 'r \<Rightarrow> bool) \<Rightarrow> ('q \<Rightarrow> 'a \<Rightarrow> 'a) \<Rightarrow> 'q list \<Rightarrow> 'a \<Rightarrow> 'r list \<Rightarrow> bool" where
  "answered_right right next_state [] a rs \<longleftrightarrow> rs = []"
| "answered_right right next_state (q # qs) a rs \<longleftrightarrow>
     (case rs of [] \<Rightarrow> False | r # rs' \<Rightarrow> right q a r \<and> answered_right right next_state qs (next_state q a) rs')"

lemma answered_right_Cons:
  "answered_right right next_state (q # qs) a rs \<longleftrightarrow>
     (\<exists>r rs'. rs = r # rs' \<and> right q a r \<and> answered_right right next_state qs (next_state q a) rs')"
  by (cases rs) simp_all

definition after :: "('q \<Rightarrow> 'a \<Rightarrow> 'a) \<Rightarrow> 'q list \<Rightarrow> 'a \<Rightarrow> 'a" where
  "after next_state qs a = fold next_state qs a"

text \<open>
  A component refines its specification when every request that is permitted is answered, rightly, and the new states correspond.
  Then so does every permitted session: no request of it has undefined behaviour.
\<close>

locale service_refinement =
  fixes run :: "'q \<Rightarrow> 's \<Rightarrow> ('s \<times> 'r) option"
    and represents :: "'s \<Rightarrow> 'a \<Rightarrow> bool"
    and may :: "'q \<Rightarrow> 'a \<Rightarrow> bool"
    and next_state :: "'q \<Rightarrow> 'a \<Rightarrow> 'a"
    and right :: "'q \<Rightarrow> 'a \<Rightarrow> 'r \<Rightarrow> bool"
  assumes request: "represents s a \<Longrightarrow> may q a \<Longrightarrow>
    \<exists>s' r. run q s = Some (s', r) \<and> right q a r \<and> represents s' (next_state q a)"
begin

lemma session_answers:
  assumes "represents s a" "permitted may next_state qs a"
  shows "\<exists>s' rs. session run qs s = Some (s', rs) \<and> answered_right right next_state qs a rs
    \<and> represents s' (after next_state qs a)"
  using assms
proof (induction qs arbitrary: s a)
  case (Cons q qs)
  obtain s1 r where r: "run q s = Some (s1, r)" "right q a r" "represents s1 (next_state q a)"
    using request [OF Cons.prems(1), of q] Cons.prems(2) by auto
  obtain s2 rs where "session run qs s1 = Some (s2, rs)" "answered_right right next_state qs (next_state q a) rs"
    "represents s2 (after next_state qs (next_state q a))"
    using Cons.IH [OF r(3)] Cons.prems(2) by auto
  then show ?case using r by (simp add: after_def)
qed (simp add: after_def)

text \<open>What every answer to a request must satisfy by the specification holds of the answers of the component.\<close>

lemma session_last:
  assumes "represents s a" "permitted may next_state (qs @ [q]) a"
  shows "\<exists>s' rs r. session run (qs @ [q]) s = Some (s', rs @ [r]) \<and> right q (after next_state qs a) r"
  using assms
proof (induction qs arbitrary: s a)
  case Nil
  then obtain s1 r where "run q s = Some (s1, r)" "right q a r" using request by fastforce
  then have "session run ([] @ [q]) s = Some (s1, [] @ [r])" "right q (after next_state [] a) r" by (simp_all add: after_def)
  then show ?case by blast
next
  case (Cons p qs)
  obtain s1 r1 where r1: "run p s = Some (s1, r1)" "represents s1 (next_state p a)"
    using request [OF Cons.prems(1), of p] Cons.prems(2) by auto
  obtain s' rs r where "session run (qs @ [q]) s1 = Some (s', rs @ [r])" "right q (after next_state qs (next_state p a)) r"
    using Cons.IH [OF r1(2)] Cons.prems(2) by auto
  then have "session run ((p # qs) @ [q]) s = Some (s', (r1 # rs) @ [r])" "right q (after next_state (p # qs) a) r"
    using r1(1) by (simp_all add: after_def)
  then show ?case by blast
qed

end

end
