(* ===== verification/Store_Session.thy ===== *)
theory Store_Session
  imports Store_Exact Query_Meaning Session_Refinement
begin

section \<open>Sessions with a packet store\<close>

text \<open>
  The requests a client of a packet store makes through its handle, a cast and a character, with the functions of the code that answer them.
  The specification has neither logs nor indexes: a list of packets with their seconds, and a list of characters, each with the
  number of packets there were when it was added. The packet store refines it, for every sequence of requests.
\<close>

datatype request =
    Insert_burst nat "mbuf list"
  | Add_character nat string
  | Cast_query nat string
  | Ask_character nat nat nat
  | Read_record nat

datatype response =
    Inserted
  | New_character nat
  | Packets "nat set"
  | Refused string
  | The_record "u8 option list option"

definition serve :: "hdr_layout \<Rightarrow> request \<Rightarrow> packet_store \<Rightarrow> (packet_store \<times> response) option" where
  "serve L q s =
     (case q of
        Insert_burst now pkts \<Rightarrow> map_option (\<lambda>s'. (s', Inserted)) (insert_pktburst L now pkts s)
      | Add_character now exp \<Rightarrow>
          (case character_build s now exp of
             None \<Rightarrow> None | Some (Inl m) \<Rightarrow> Some (s, Refused m) | Some (Inr (s', c)) \<Rightarrow> Some (s', New_character c))
      | Cast_query now exp \<Rightarrow>
          (case cast_build s now exp of
             None \<Rightarrow> None | Some (Inl m) \<Rightarrow> Some (s, Refused m)
           | Some (Inr P) \<Rightarrow> map_option (\<lambda>R. (s, Packets R)) (cast_execute L agg_result_set P s))
      | Ask_character c lo hi \<Rightarrow> map_option (\<lambda>R. (s, Packets R)) (character_execute agg_result_set c lo hi s)
      | Read_record i \<Rightarrow> map_option (\<lambda>x. (s, The_record x)) (log_get i (base s)))"

subsection \<open>The specification\<close>

record service =
  sv_pkts :: "(nat \<times> u8 list) list"
  sv_chars :: "(nat \<times> packet_filter list) list"

definition empty_service :: service where
  "empty_service = \<lparr>sv_pkts = [], sv_chars = []\<rparr>"

definition stored_size :: "(nat \<times> u8 list) list \<Rightarrow> nat" where
  "stored_size xs = (\<Sum>x\<leftarrow>xs. length (snd x) + 8)"

definition takes :: "hdr_layout \<Rightarrow> packet_filter list \<Rightarrow> u8 list \<Rightarrow> bool" where
  "takes L fl bytes \<longleftrightarrow> (case pkt_fields_of L (cells_of bytes) of None \<Rightarrow> False | Some p \<Rightarrow> char_matches fl p)"

text \<open>The meaning of a query string: an exception or lists of conditions; \<open>None\<close> if a value in it makes the code undefined.\<close>

definition meaning :: "nat \<Rightarrow> string \<Rightarrow> cond list list result" where
  "meaning now exp = rbind (parse exp) (query_conds now)"

definition may_send :: "hdr_layout \<Rightarrow> request \<Rightarrow> service \<Rightarrow> bool" where
  "may_send L q a =
     (case q of
        Insert_burst now pkts \<Rightarrow> pkts \<noteq> [] \<and> length pkts < 2 ^ 16 \<and> now < 2 ^ 32
          \<and> list_all (\<lambda>m. pkt_ok L m \<and> headers_inside L m \<and> pkt_len m \<le> 1016) pkts
          \<and> length (sv_pkts a) + 3 * length pkts < 2 ^ 27 \<and> stored_size (sv_pkts a) + burst_len pkts < 2 ^ 40
      | Add_character now exp \<Rightarrow> length (sv_chars a) < MAX_FILTERS \<and> meaning now exp \<noteq> None
      | Cast_query now exp \<Rightarrow> meaning now exp \<noteq> None
          \<and> (case parse exp of Some (Inr e) \<Rightarrow> list_all conds_inside (tried_conds now e) | _ \<Rightarrow> True)
      | Ask_character c lo hi \<Rightarrow> c < length (sv_chars a) \<and> lo \<le> hi \<and> hi + 1 < 2 ^ 32
      | Read_record i \<Rightarrow> True)"

definition service_after :: "request \<Rightarrow> service \<Rightarrow> service" where
  "service_after q a =
     (case q of
        Insert_burst now pkts \<Rightarrow> a\<lparr>sv_pkts := sv_pkts a @ map (\<lambda>m. (now, pkt_bytes m)) pkts\<rparr>
      | Add_character now exp \<Rightarrow>
          (case meaning now exp of
             Some (Inr cs) \<Rightarrow> a\<lparr>sv_chars := sv_chars a @ [(length (sv_pkts a), map cond_filter cs)]\<rparr> | _ \<Rightarrow> a)
      | _ \<Rightarrow> a)"

definition right_answer :: "hdr_layout \<Rightarrow> request \<Rightarrow> service \<Rightarrow> response \<Rightarrow> bool" where
  "right_answer L q a r =
     (let xs = sv_pkts a in
      case q of
        Insert_burst now pkts \<Rightarrow> r = Inserted
      | Add_character now exp \<Rightarrow>
          (case meaning now exp of
             None \<Rightarrow> False | Some (Inl m) \<Rightarrow> r = Refused m | Some (Inr cs) \<Rightarrow> r = New_character (length (sv_chars a)))
      | Cast_query now exp \<Rightarrow>
          (case meaning now exp of
             None \<Rightarrow> False | Some (Inl m) \<Rightarrow> r = Refused m
           | Some (Inr cs) \<Rightarrow> (\<exists>R. r = Packets R \<and> answer_right L xs cs R
               \<and> (\<forall>attr op val. parse exp = Some (Inr (Predicate attr op val)) \<longrightarrow>
                    R = {i. i < length xs \<and> (\<exists>c \<in> set cs. meets L c (xs ! i))})))
      | Ask_character c lo hi \<Rightarrow>
          (case sv_chars a ! c of (n0, fl) \<Rightarrow>
             r = Packets {i. n0 \<le> i \<and> i < length xs \<and> lo \<le> fst (xs ! i) \<and> fst (xs ! i) \<le> hi \<and> takes L fl (snd (xs ! i))})
      | Read_record i \<Rightarrow>
          r = The_record (if i < length xs
                          then Some (map Some (take (length (snd (xs ! i))) (le_bytes 8 (fst (xs ! i)) @ snd (xs ! i))))
                          else None))"

definition represents :: "hdr_layout \<Rightarrow> packet_store \<Rightarrow> service \<Rightarrow> bool" where
  "represents L s a \<longleftrightarrow> store_exact L s \<and> store_pkts s = sv_pkts a \<and> dtail (base s) = stored_size (sv_pkts a)
     \<and> num_filters s = length (sv_chars a)
     \<and> (\<forall>c < length (sv_chars a). filters s c = snd (sv_chars a ! c) \<and> char_exact L c (fst (sv_chars a ! c)) s)"

lemma representsD:
  assumes "represents L s a"
  shows "store_exact L s" "pstore_ok s" "Query_Data.complete L s" "store_pkts s = sv_pkts a" "num_pkts s = length (sv_pkts a)"
    "dtail (base s) = stored_size (sv_pkts a)" "num_filters s = length (sv_chars a)"
    "c < length (sv_chars a) \<Longrightarrow> filters s c = snd (sv_chars a ! c) \<and> char_exact L c (fst (sv_chars a ! c)) s"
proof -
  show r: "store_exact L s" "store_pkts s = sv_pkts a" "dtail (base s) = stored_size (sv_pkts a)" "num_filters s = length (sv_chars a)"
    "c < length (sv_chars a) \<Longrightarrow> filters s c = snd (sv_chars a ! c) \<and> char_exact L c (fst (sv_chars a ! c)) s"
    using assms by (simp_all add: represents_def)
  show "pstore_ok s" "Query_Data.complete L s" using r(1) by (simp_all add: store_exact_def)
  have "length (store_pkts s) = num_pkts s" by (simp add: store_pkts_def)
  then show "num_pkts s = length (sv_pkts a)" using r(2) by simp
qed

section \<open>Each request\<close>

lemma stored_size_burst:
  assumes "\<forall>m \<in> set pkts. pkt_ok L m"
  shows "stored_size (xs @ map (\<lambda>m. (now, pkt_bytes m)) pkts) = stored_size xs + burst_len pkts"
proof -
  have "length (pkt_bytes m) = pkt_len m" if "m \<in> set pkts" for m
    using assms that load_bytes_length by (fastforce simp: pkt_ok_def pkt_bytes_def)
  then have "(\<Sum>m\<leftarrow>pkts. length (pkt_bytes m) + 8) = (\<Sum>m\<leftarrow>pkts. pkt_len m + 8)" by (intro arg_cong [where f = sum_list] map_cong) simp_all
  then show ?thesis by (simp add: stored_size_def burst_len_def comp_def)
qed

lemma serve_insert:
  assumes "represents L s a" "may_send L (Insert_burst now pkts) a"
  shows "\<exists>s' r. serve L (Insert_burst now pkts) s = Some (s', r) \<and> right_answer L (Insert_burst now pkts) a r
    \<and> represents L s' (service_after (Insert_burst now pkts) a)"
proof -
  note D = representsD [OF assms(1)]
  have small: "burst_small L now pkts s"
    using assms(2) D(5,6) by (simp add: may_send_def burst_small_def list_all_iff)
  obtain s' where s': "insert_pktburst L now pkts s = Some s'" "store_exact L s'"
    "store_pkts s' = store_pkts s @ map (\<lambda>m. (now, pkt_bytes m)) pkts" "num_filters s' = num_filters s" "filters s' = filters s"
    "dtail (base s') = dtail (base s) + burst_len pkts"
    using insert_pktburst_keeps_exact [OF D(1) small] by (elim exE conjE) (rule that)
  have pk: "\<forall>m \<in> set pkts. pkt_ok L m" "\<forall>m \<in> set pkts. headers_inside L m" using small by (simp_all add: burst_small_def)
  have "char_exact L c (fst (sv_chars a ! c)) s'" if "c < length (sv_chars a)" for c
    using insert_pktburst_char_exact [OF D(2) conjunct2 [OF D(8) [OF that]] burst_small_room [OF D(1) small] pk(2)] s'(1) by auto
  then have "represents L s' (service_after (Insert_burst now pkts) a)"
    using s' D stored_size_burst [OF pk(1)] by (simp add: represents_def service_after_def)
  then show ?thesis using s'(1) by (simp add: serve_def right_answer_def)
qed

lemma serve_character:
  assumes "represents L s a" "may_send L (Add_character now exp) a"
  shows "\<exists>s' r. serve L (Add_character now exp) s = Some (s', r) \<and> right_answer L (Add_character now exp) a r
    \<and> represents L s' (service_after (Add_character now exp) a)"
proof -
  note D = representsD [OF assms(1)]
  have b: "character_build s now exp = rbind (meaning now exp) (\<lambda>cs.
      do { (s', c) \<leftarrow> add_complex_character (map cond_filter cs) s; rreturn (s', c) })"
    by (simp add: character_build_def meaning_def build_filter_list_conds [OF own_ids_distinct [OF D(2)]] filter_conds_def rmap_def)
  show ?thesis
  proof (cases rule: result_cases [of "meaning now exp"])
    case 1
    then show ?thesis using assms(2) by (simp add: may_send_def)
  next
    case (2 m)
    then show ?thesis using b assms(1) by (simp add: serve_def right_answer_def service_after_def)
  next
    case (3 cs)
    let ?fl = "map cond_filter cs" and ?n = "length (sv_chars a)"
    have room: "num_filters s < MAX_FILTERS" using assms(2) D(7) by (simp add: may_send_def)
    obtain s' where s': "add_complex_character ?fl s = Some (s', ?n)" "store_exact L s'" "store_pkts s' = store_pkts s"
      "num_filters s' = ?n + 1" "filters s' ?n = ?fl" "char_exact L ?n (num_pkts s) s'" "dtail (base s') = dtail (base s)"
      using add_character_keeps_exact [OF D(1) room, of ?fl] unfolding D(7) by (elim exE conjE) (rule that)
    have eq: "s' = s\<lparr>num_filters := num_filters s', filters := (filters s)(?n := ?fl)\<rparr>"
      using s'(1,4) room D(7) by (auto simp: add_complex_character_def Let_def MAX_FILTERS_def take_bit_id)
    have f: "filters s' = (filters s)(?n := ?fl)" by (subst eq) simp
    have eq': "s' = s\<lparr>num_filters := num_filters s', filters := filters s'\<rparr>" using eq f by simp
    have "char_exact L c (fst (sv_chars a ! c)) s' \<and> filters s' c = snd (sv_chars a ! c)" if "c < ?n" for c
      using char_exact_filters [OF conjunct2 [OF D(8) [OF that]] _ _ eq'] D(7,8) that s'(4) f by simp
    then have "represents L s' (service_after (Add_character now exp) a)"
      using 3 s' D by (auto simp: represents_def service_after_def nth_append less_Suc_eq)
    then show ?thesis using 3 s'(1) b by (simp add: serve_def right_answer_def rreturn_def)
  qed
qed

lemma serve_cast:
  assumes "represents L s a" "may_send L (Cast_query now exp) a"
  shows "\<exists>s' r. serve L (Cast_query now exp) s = Some (s', r) \<and> right_answer L (Cast_query now exp) a r
    \<and> represents L s' (service_after (Cast_query now exp) a)"
proof -
  note D = representsD [OF assms(1)]
  show ?thesis
  proof (cases rule: result_cases [of "parse exp"])
    case (2 m)
    then show ?thesis using assms(1) by (simp add: serve_def cast_build_def meaning_def right_answer_def service_after_def)
  next
    case (3 e)
    then have m: "meaning now exp = query_conds now e" by (simp add: meaning_def)
    have ins: "\<forall>c \<in> set (tried_conds now e). conds_inside c" using assms(2) 3 by (simp add: may_send_def list_all_iff)
    show ?thesis
    proof (cases rule: result_cases [of "query_conds now e"])
      case 1
      then show ?thesis using assms(2) m by (simp add: may_send_def)
    next
      case (2 x)
      then show ?thesis
        using 3 m plan_error [OF D(2,3) 2 ins] assms(1) by (simp add: serve_def cast_build_def right_answer_def service_after_def)
    next
      case cs: (3 cs)
      obtain P R where r: "plan s now e = Some (Inr P)" "filter_pkts L {} P s = Some R" "answer_right L (store_pkts s) cs R"
        "\<forall>attr op val. e = Predicate attr op val \<longrightarrow> R = {i. i < num_pkts s \<and> (\<exists>c \<in> set cs. meets L c (store_pkts s ! i))}"
        using plan_answer [OF D(2,3) cs] ins tried_all [OF cs] by auto
      have "R \<subseteq> {..<length (store_pkts s)}" using r(3) by (simp add: answer_right_def)
      then have "set (sorted_list_of_set R) = R" using finite_subset by fastforce
      then have "cast_execute L agg_result_set P s = Some R"
        using r(2) by (simp add: cast_execute_def execute_cast_def agg_result_set_def)
      then show ?thesis using 3 m cs r D assms(1) by (simp add: serve_def cast_build_def right_answer_def service_after_def)
    qed
  qed (use parse_total in simp)
qed

lemma serve_ask:
  assumes "represents L s a" "may_send L (Ask_character c lo hi) a"
  shows "\<exists>s' r. serve L (Ask_character c lo hi) s = Some (s', r) \<and> right_answer L (Ask_character c lo hi) a r
    \<and> represents L s' (service_after (Ask_character c lo hi) a)"
proof -
  note D = representsD [OF assms(1)]
  have c: "c < length (sv_chars a)" "lo \<le> hi" "hi + 1 < 2 ^ 32" using assms(2) by (simp_all add: may_send_def)
  have "(\<exists>t. lo \<le> t \<and> t \<le> hi \<and> stored_match L s c t i) \<longleftrightarrow>
      lo \<le> fst (sv_pkts a ! i) \<and> fst (sv_pkts a ! i) \<le> hi \<and> takes L (snd (sv_chars a ! c)) (snd (sv_pkts a ! i))" for i
    using D(4) D(8) [OF c(1)] by (cases "sv_pkts a ! i") (auto simp: stored_match_def takes_def cong: option.case_cong)
  then show ?thesis
    using character_execute_exact [OF D(2) conjunct2 [OF D(8) [OF c(1)]] c(2,3)] D(5) assms(1)
    by (simp add: serve_def right_answer_def service_after_def case_prod_beta)
qed

lemma le_bytes_value: "le_bytes (length bs) (le_value bs) = bs"
proof (induction bs)
  case (Cons b bs)
  have "unat b < 256" using unsigned_less [of b, where ?'a = nat] by simp
  then show ?case using Cons by simp
qed simp

lemma lin_read_count: "lin_read nb bs off n m = Some cs \<Longrightarrow> length cs = n"
  by (auto simp: lin_read_def lin_copy_out_def bind_Some_iff split: if_splits)

lemma log_get_packet:
  assumes "pstore_ok s"
  shows "log_get i (base s) = Some (if i < num_pkts s
    then Some (map Some (take (length (snd (store_pkts s ! i))) (le_bytes 8 (fst (store_pkts s ! i)) @ snd (store_pkts s ! i))))
    else None)"
proof (cases "i < num_pkts s")
  case True
  then have i: "i < num_records (base s)" by (simp add: num_pkts_def)
  then have valid: "is_valid i (olog_of (base s))"
    using assms by (simp add: pstore_ok_def is_valid_def num_records_def num_ids_def)
  obtain off len bytes where o: "offset_lookup i (olog_of (base s)) = Some (off, len)"
    "lin_read datalog_nb datalog_bs off (len + 8) (dlog (base s)) = Some (map Some bytes)"
    using assms i unfolding pstore_ok_def packets_ok_def by blast
  have p: "store_pkts s ! i = (le_value (take 8 bytes), drop 8 bytes)" "length bytes = len + 8"
    using store_pkts_nth [OF True] o lin_read_count [OF o(2)] by (simp_all add: pkt_at_def)
  have "lin_read datalog_nb datalog_bs (off + 0) len (dlog (base s)) = Some (take len (drop 0 (map Some bytes)))"
    by (rule lin_read_slice [OF o(2)]) simp_all
  moreover have "le_bytes 8 (le_value (take 8 bytes)) @ drop 8 bytes = bytes"
    using le_bytes_value [of "take 8 bytes"] p(2) by simp
  ultimately show ?thesis using True valid o(1) p by (simp add: log_get_def take_map)
next
  case False
  then show ?thesis using assms by (simp add: pstore_ok_def log_get_def is_valid_def num_pkts_def num_records_def num_ids_def)
qed

lemma serve_read:
  assumes "represents L s a"
  shows "\<exists>s' r. serve L (Read_record i) s = Some (s', r) \<and> right_answer L (Read_record i) a r
    \<and> represents L s' (service_after (Read_record i) a)"
  using log_get_packet [OF representsD(2) [OF assms], of i] representsD(4,5) [OF assms] assms
  by (simp add: serve_def right_answer_def service_after_def)

section \<open>The packet store is a service\<close>

interpretation ps: service_refinement "serve L" "represents L" "may_send L" service_after "right_answer L" for L
proof
  show "\<exists>s' r. serve L q s = Some (s', r) \<and> right_answer L q a r \<and> represents L s' (service_after q a)"
    if "represents L s a" "may_send L q a" for s a q
    using serve_insert [OF that(1)] serve_character [OF that(1)] serve_cast [OF that(1)] serve_ask [OF that(1)] serve_read [OF that(1)] that(2)
    by (cases q) simp_all
qed

lemma init_represents: "packet_store_init = Some s \<Longrightarrow> represents L s empty_service"
proof -
  assume "packet_store_init = Some s"
  then have "store_exact L s" "store_pkts s = []" "num_filters s = 0" "dtail (base s) = 0"
    using packet_store_init_exact [of L] by (metis option.inject)+
  then show ?thesis by (simp add: represents_def empty_service_def stored_size_def)
qed

lemma store_sessions:
  assumes "packet_store_init = Some s" "permitted (may_send L) service_after qs empty_service"
  shows "\<exists>s' rs. session (serve L) qs s = Some (s', rs) \<and> answered_right (right_answer L) service_after qs empty_service rs
    \<and> represents L s' (after service_after qs empty_service)"
  by (rule ps.session_answers [OF init_represents [OF assms(1)] assms(2)])

text \<open>
  C1. The packet store refines its specification. Take any sequence of requests to a new store (bursts to insert, characters to add,
  queries as strings, characters to ask, records to read) that keeps to the specification's bounds. Every request is answered,
  none of them is undefined, and each answer is right for the list of packets and the list of characters at that point: a query is answered from the
  packets that meet its conditions, with at most one packet too many for each conjunction, and exactly if it has one
  predicate; a character from the packets of the asked seconds that were inserted since it was added; malformed queries are refused with the
  exception. At the end the store holds exactly the packets that were inserted.
\<close>

theorem packet_store_refines_service:
  assumes "packet_store_init = Some s" "permitted (may_send L) service_after qs empty_service"
  shows "\<exists>s' rs. session (serve L) qs s = Some (s', rs) \<and> answered_right (right_answer L) service_after qs empty_service rs
    \<and> store_pkts s' = sv_pkts (after service_after qs empty_service)"
  using store_sessions [OF assms] by (auto simp: represents_def)

text \<open>A session: two packets, a query, a character, a later packet, and what the character has seen.\<close>

lemma port_query:
  "parse ''src_port == 20736'' = Some (Inr (Predicate ''src_port'' ''=='' ''20736''))"
  "parse ''src_port == 20480'' = Some (Inr (Predicate ''src_port'' ''=='' ''20480''))"
  by code_simp+

lemma port_query_meaning:
  "meaning now ''src_port == 20736'' = Some (Inr [[(''src_port'', 20736, 20736)]])"
  "meaning now ''src_port == 20480'' = Some (Inr [[(''src_port'', 20480, 20480)]])"
  "query_conds now (Predicate ''src_port'' ''=='' ''20736'') = Some (Inr [[(''src_port'', 20736, 20736)]])"
  using stoi_examples
  by (simp_all add: meaning_def port_query query_conds_def predicate_cond_def port_filter_def Let_def take_bit_int_eq_self
      mk_filter_def rreturn_def)

definition example_session :: "request list" where
  "example_session =
     [Insert_burst 1500000000 [tcp_pkt, tcp_pkt2], Cast_query 1500000001 ''src_port == 20736'',
      Add_character 1500000001 ''src_port == 20480'', Insert_burst 1500000002 [tcp_pkt],
      Ask_character 0 1500000000 1500000003]"

lemma example_pkts:
  "pkt_bytes tcp_pkt = tcp_bytes" "pkt_bytes tcp_pkt2 = tcp_bytes2"
  "\<forall>m \<in> {tcp_pkt, tcp_pkt2}. pkt_ok wire_layout m \<and> headers_inside wire_layout m \<and> pkt_len m = 54"
  "length tcp_bytes = 54" "length tcp_bytes2 = 54"
  using tcp_pkt_bytes tcp_pkt2_bytes tcp_pkt_ok headers_inside_tcp
  by (simp_all add: tcp_pkt_def tcp_pkt2_def tcp_bytes_def tcp_bytes2_def)

lemma example_permitted: "permitted (may_send wire_layout) service_after example_session empty_service"
  using example_pkts
  by (simp add: example_session_def may_send_def service_after_def empty_service_def port_query port_query_meaning
      tried_conds_def conds_inside_def cond_inside_def attrs_def burst_len_def stored_size_def MAX_FILTERS_def)

lemma example_meets:
  "meets wire_layout [(''src_port'', 20736, 20736)] (ts, tcp_bytes) \<longleftrightarrow> False"
  "meets wire_layout [(''src_port'', 20736, 20736)] (ts, tcp_bytes2) \<longleftrightarrow> True"
  "takes wire_layout [cond_filter [(''src_port'', 20480, 20480)]] tcp_bytes"
  using tcp_fields_inside
  by (simp_all add: meets_def packet_attr_def attr_key_def in_range_def takes_def char_matches_def accepts_def cond_filter_def
      set_cond_def full_filter_def)

theorem packet_store_refines_service_witness:
  "\<exists>s s'. packet_store_init = Some s \<and> session (serve wire_layout) example_session s
     = Some (s', [Inserted, Packets {1}, New_character 0, Inserted, Packets {2}])"
proof -
  obtain s where s: "packet_store_init = Some s" using packet_store_init_exact by blast
  obtain s' rs where r: "session (serve wire_layout) example_session s = Some (s', rs)"
    "answered_right (right_answer wire_layout) service_after example_session empty_service rs"
    using packet_store_refines_service [OF s example_permitted] by blast
  let ?xs = "[(1500000000 :: nat, tcp_bytes), (1500000000, tcp_bytes2)]"
    and ?ys = "[(1500000000 :: nat, tcp_bytes), (1500000000, tcp_bytes2), (1500000002, tcp_bytes)]"
  have "rs = [Inserted, Packets {i. i < Suc (Suc 0) \<and> meets wire_layout [(''src_port'', 20736, 20736)] (?xs ! i)}, New_character 0, Inserted,
      Packets {i. Suc (Suc 0) \<le> i \<and> i < Suc (Suc (Suc 0)) \<and> 1500000000 \<le> fst (?ys ! i) \<and> fst (?ys ! i) \<le> 1500000003
        \<and> takes wire_layout [cond_filter [(''src_port'', 20480, 20480)]] (snd (?ys ! i))}]"
    using r(2) example_pkts(1,2)
    unfolding example_session_def answered_right_Cons
    by (elim exE conjE) (simp add: right_answer_def service_after_def empty_service_def port_query port_query_meaning Let_def)
  moreover have "{i. i < Suc (Suc 0) \<and> meets wire_layout [(''src_port'', 20736, 20736)] (?xs ! i)} = {1}"
    using example_meets(1,2) by (auto simp: less_Suc_eq)
  moreover have "{i. Suc (Suc 0) \<le> i \<and> i < Suc (Suc (Suc 0)) \<and> 1500000000 \<le> fst (?ys ! i) \<and> fst (?ys ! i) \<le> 1500000003
        \<and> takes wire_layout [cond_filter [(''src_port'', 20480, 20480)]] (snd (?ys ! i))} = {2}"
    using example_meets(3) by (auto simp: less_Suc_eq)
  ultimately have "rs = [Inserted, Packets {1}, New_character 0, Inserted, Packets {2}]" by simp
  then show ?thesis using s r(1) by blast
qed

end
