(* ===== verification/Log_Session.thy ===== *)
theory Log_Session
  imports Query_Count Session_Refinement
begin

section \<open>Sessions with a log store\<close>

text \<open>
  The log store by itself, as a client sees it: indexes are added, records are inserted with tokens, read back, found by their tokens and
  counted. The specification is a list of records with their tokens, and the lengths of the tokens of the indexes in the order they were
  added; the identifier of an index follows from them. Streams, whose filter functions the client chooses, are left to \<open>Log_Store\<close>.
\<close>

datatype log_request =
    New_index nat
  | Insert_record "u8 list" "token_t list"
  | Get_bytes nat
  | Find_records nat nat nat
  | Count_records nat nat nat

datatype log_response =
    Index_id nat
  | Record_id nat
  | Bytes_read "u8 option list option"
  | Found "nat list"
  | Counted nat

definition log_serve :: "log_request \<Rightarrow> log_store \<Rightarrow> (log_store \<times> log_response) option" where
  "log_serve q s =
     (case q of
        New_index n \<Rightarrow> map_option (\<lambda>(s', iid). (s', Index_id iid)) (add_index n s)
      | Insert_record rec ts \<Rightarrow> map_option (\<lambda>(s', i). (s', Record_id i)) (log_insert rec (length rec) ts s)
      | Get_bytes i \<Rightarrow> map_option (\<lambda>x. (s, Bytes_read x)) (log_get i s)
      | Find_records iid lo hi \<Rightarrow> map_option (\<lambda>vs. (s, Found vs)) (log_filter iid lo hi s \<bind> filter_iterate)
      | Count_records iid lo hi \<Rightarrow> map_option (\<lambda>n. (s, Counted n)) (filter_count iid lo hi s))"

subsection \<open>The specification\<close>

record log_service =
  lg_recs :: "(u8 list \<times> token_t list) list"
  lg_lens :: "nat list"

definition empty_log :: log_service where
  "empty_log = \<lparr>lg_recs = [], lg_lens = []\<rparr>"

definition names_index :: "nat list \<Rightarrow> nat \<Rightarrow> bool" where
  "names_index lens iid \<longleftrightarrow>
     (case idx_class (iid div OFFSETMIN) of None \<Rightarrow> False | Some n \<Rightarrow> iid mod OFFSETMIN < count_list lens n)"

text \<open>The identifiers of the records that have a key among their tokens, once for each such token.\<close>

definition hits :: "nat \<Rightarrow> nat \<Rightarrow> (u8 list \<times> token_t list) list \<Rightarrow> nat list" where
  "hits iid k recs = concat (map (\<lambda>i. token_entries iid k i (snd (recs ! i))) [0..<length recs])"

definition hits_between :: "nat \<Rightarrow> nat \<Rightarrow> nat \<Rightarrow> (u8 list \<times> token_t list) list \<Rightarrow> nat list" where
  "hits_between iid lo hi recs = concat (map (\<lambda>k. hits iid k recs) [lo..<hi + 1])"

definition bytes_of :: "(u8 list \<times> token_t list) list \<Rightarrow> nat" where
  "bytes_of recs = (\<Sum>x\<leftarrow>recs. length (fst x))"

definition tokens_of :: "(u8 list \<times> token_t list) list \<Rightarrow> nat" where
  "tokens_of recs = (\<Sum>x\<leftarrow>recs. length (snd x))"

definition log_may :: "log_request \<Rightarrow> log_service \<Rightarrow> bool" where
  "log_may q a =
     (case q of
        New_index n \<Rightarrow> 1 \<le> n \<and> n \<le> 8 \<and> count_list (lg_lens a) n < OFFSETMIN
      | Insert_record rec ts \<Rightarrow> length rec \<le> 1024 \<and> length (lg_recs a) < 2 ^ 34 \<and> bytes_of (lg_recs a) + length rec < 2 ^ 40
          \<and> tokens_of (lg_recs a) + length ts \<le> 2 ^ 28 - 16
          \<and> list_all (\<lambda>t. names_index (lg_lens a) (index_id t) \<and> key_fits (index_id t) (token_data t)) ts
      | Get_bytes i \<Rightarrow> True
      | Find_records iid lo hi \<Rightarrow> names_index (lg_lens a) iid \<and> lo \<le> hi \<and> key_fits iid (hi + 1)
      | Count_records iid lo hi \<Rightarrow> names_index (lg_lens a) iid \<and> key_fits iid hi \<and> hi + 1 < 2 ^ 64)"

definition log_after :: "log_request \<Rightarrow> log_service \<Rightarrow> log_service" where
  "log_after q a =
     (case q of
        New_index n \<Rightarrow> a\<lparr>lg_lens := lg_lens a @ [n]\<rparr>
      | Insert_record rec ts \<Rightarrow> a\<lparr>lg_recs := lg_recs a @ [(rec, ts)]\<rparr>
      | _ \<Rightarrow> a)"

definition log_right :: "log_request \<Rightarrow> log_service \<Rightarrow> log_response \<Rightarrow> bool" where
  "log_right q a r =
     (case q of
        New_index n \<Rightarrow> r = Index_id (idx_offset n + count_list (lg_lens a) n)
      | Insert_record rec ts \<Rightarrow> r = Record_id (length (lg_recs a))
      | Get_bytes i \<Rightarrow> r = Bytes_read (if i < length (lg_recs a) then Some (map Some (fst (lg_recs a ! i))) else None)
      | Find_records iid lo hi \<Rightarrow> r = Found (hits_between iid lo hi (lg_recs a))
      | Count_records iid lo hi \<Rightarrow> r = Counted (length (hits_between iid lo hi (lg_recs a))))"

definition log_represents :: "log_store \<Rightarrow> log_service \<Rightarrow> bool" where
  "log_represents s a \<longleftrightarrow> log_store_ok s \<and> store_records s = map fst (lg_recs a) \<and> dtail s = bytes_of (lg_recs a)
     \<and> stream_heap s = [] \<and> tokens_of (lg_recs a) \<le> 2 ^ 28 - 16
     \<and> (\<forall>n. linearizable_size (idx_log s n) = count_list (lg_lens a) n)
     \<and> (\<forall>n \<in> set (lg_lens a). 1 \<le> n \<and> n \<le> 8)
     \<and> (\<forall>x \<in> set (lg_recs a). \<forall>t \<in> set (snd x). names_index (lg_lens a) (index_id t))
     \<and> (\<forall>iid k. names_index (lg_lens a) iid \<longrightarrow> key_fits iid k \<longrightarrow> index_entries iid k s = hits iid k (lg_recs a))"

lemma log_representsD:
  assumes "log_represents s a"
  shows "log_store_ok s" "store_records s = map fst (lg_recs a)" "dtail s = bytes_of (lg_recs a)" "stream_heap s = []"
    "tokens_of (lg_recs a) \<le> 2 ^ 28 - 16" "linearizable_size (idx_log s n) = count_list (lg_lens a) n"
    "n \<in> set (lg_lens a) \<Longrightarrow> 1 \<le> n \<and> n \<le> 8"
    "x \<in> set (lg_recs a) \<Longrightarrow> t \<in> set (snd x) \<Longrightarrow> names_index (lg_lens a) (index_id t)"
    "names_index (lg_lens a) iid \<Longrightarrow> key_fits iid k \<Longrightarrow> index_entries iid k s = hits iid k (lg_recs a)"
    "num_records s = length (lg_recs a)" "indexes_ok s"
proof -
  show r: "log_store_ok s" "store_records s = map fst (lg_recs a)" "dtail s = bytes_of (lg_recs a)" "stream_heap s = []"
    "tokens_of (lg_recs a) \<le> 2 ^ 28 - 16" "linearizable_size (idx_log s n) = count_list (lg_lens a) n"
    "n \<in> set (lg_lens a) \<Longrightarrow> 1 \<le> n \<and> n \<le> 8"
    "x \<in> set (lg_recs a) \<Longrightarrow> t \<in> set (snd x) \<Longrightarrow> names_index (lg_lens a) (index_id t)"
    "names_index (lg_lens a) iid \<Longrightarrow> key_fits iid k \<Longrightarrow> index_entries iid k s = hits iid k (lg_recs a)"
    using assms unfolding log_represents_def by blast+
  have "length (store_records s) = num_records s" by (simp add: store_records_def)
  then show "num_records s = length (lg_recs a)" using r(2) by simp
  show "indexes_ok s" using r(1) by (simp add: log_store_ok_def)
qed

section \<open>Helpers\<close>

lemma hits_snoc: "hits iid k (recs @ [(rec, ts)]) = hits iid k recs @ token_entries iid k (length recs) ts"
  by (auto simp: hits_def nth_append intro!: arg_cong [where f = concat])

lemma length_hits: "length (hits iid k recs) \<le> tokens_of recs"
proof (induction recs rule: rev_induct)
  case (snoc x recs)
  then show ?case using length_token_entries_le [of iid k "length recs" "snd x"] by (cases x) (simp add: hits_snoc tokens_of_def)
qed (simp add: hits_def)

lemma hits_bound: "v \<in> set (hits iid k recs) \<Longrightarrow> v < length recs"
  by (auto simp: hits_def token_entries_def split: if_splits)

lemma hits_unnamed: "\<forall>x \<in> set recs. \<forall>t \<in> set (snd x). index_id t \<noteq> iid \<Longrightarrow> hits iid k recs = []"
  by (auto simp: hits_def token_entries_def)

text \<open>Each token is found by at most one key.\<close>

lemma one_key: "distinct ks \<Longrightarrow> (\<Sum>k\<leftarrow>ks. if P \<and> x = k then 1 else 0) \<le> (1 :: nat)"
proof -
  assume "distinct ks"
  then have "(\<Sum>k\<leftarrow>ks. if P \<and> x = k then 1 else 0) = (if P \<and> x \<in> set ks then 1 else (0 :: nat))"
    by (induction ks) auto
  then show ?thesis by simp
qed

lemma token_entries_keys: "distinct ks \<Longrightarrow> (\<Sum>k\<leftarrow>ks. length (token_entries iid k rid ts)) \<le> length ts"
proof (induction ts)
  case (Cons t ts)
  have "(\<Sum>k\<leftarrow>ks. length (token_entries iid k rid (t # ts)))
      = (\<Sum>k\<leftarrow>ks. (if index_id t = iid \<and> token_data t = k then 1 else 0)) + (\<Sum>k\<leftarrow>ks. length (token_entries iid k rid ts))"
    unfolding sum_list_addf [symmetric] by (intro arg_cong [where f = sum_list] map_cong) (auto simp: token_entries_def)
  then show ?case using Cons one_key [OF Cons.prems, of "index_id t = iid" "token_data t"] by simp
qed (simp add: token_entries_def)

lemma length_hits_between: "length (hits_between iid lo hi recs) \<le> tokens_of recs"
proof (induction recs rule: rev_induct)
  case (snoc x recs)
  have "length (hits_between iid lo hi (recs @ [x])) = length (hits_between iid lo hi recs)
      + (\<Sum>k\<leftarrow>[lo..<hi + 1]. length (token_entries iid k (length recs) (snd x)))"
    by (cases x) (simp add: hits_between_def length_concat comp_def hits_snoc sum_list_addf del: upt_Suc)
  then show ?case using snoc token_entries_keys [of "[lo..<hi + 1]" iid "length recs" "snd x"] by (simp add: tokens_of_def del: upt_Suc)
qed (simp add: hits_between_def hits_def length_concat comp_def)

text \<open>What an insertion leaves alone, and the tail of the data log.\<close>

lemma update_index_frame: "update_index rid t s = Some s' \<Longrightarrow> dtail s' = dtail s \<and> idx_log s' = idx_log s"
  by (auto simp: update_index_def bind_Some_iff split: option.splits if_splits)

lemma update_indexes_frame: "update_indexes rid ts s = Some s' \<Longrightarrow> dtail s' = dtail s \<and> idx_log s' = idx_log s"
  using update_index_frame by (induction ts arbitrary: s) (fastforce simp: bind_Some_iff)+

lemma update_streams_frame: "update_streams rid rec n ts s = Some s' \<Longrightarrow> dtail s' = dtail s \<and> idx_log s' = idx_log s"
proof -
  have "update_streams_from is rid rec n ts s = Some s' \<Longrightarrow> dtail s' = dtail s \<and> idx_log s' = idx_log s" for "is"
    by (induction "is" arbitrary: s) (fastforce simp: bind_Some_iff update_stream_def split: if_splits)+
  then show "update_streams rid rec n ts s = Some s' \<Longrightarrow> dtail s' = dtail s \<and> idx_log s' = idx_log s"
    by (auto simp: update_streams_def)
qed

lemma log_insert_frame:
  assumes "log_insert rec n ts s = Some (s', i)" "dtail s + n < 2 ^ 64"
  shows "dtail s' = dtail s + n \<and> idx_log s' = idx_log s"
  using assms
  by (auto simp: log_insert_def request_bytes_def append_record_def bind_Some_iff Let_def take_bit_nat_eq_self
      dest!: update_streams_frame update_indexes_frame split: if_splits)

section \<open>Each request\<close>

lemma named_ptr:
  assumes "log_represents s a" "names_index (lg_lens a) iid"
  obtains n p where "idx_class (iid div OFFSETMIN) = Some n" "index_ptr iid s = Some (Some p)" "p < length (index_heap s)"
    "obj_ok (index_heap s ! p)" "obj_bytes (index_heap s ! p) = n" "n \<le> 8"
proof -
  note D = log_representsD [OF assms(1)]
  obtain n where n: "idx_class (iid div OFFSETMIN) = Some n" "iid mod OFFSETMIN < count_list (lg_lens a) n"
    using assms(2) by (auto simp: names_index_def split: option.splits)
  have inv: "linearizable_invar nindexes_nb (idx_log s n)" using D(11) by (simp add: indexes_ok_def)
  have "iid mod OFFSETMIN < length (linearizable_contents nindexes_nb (idx_log s n))"
    using n(2) D(6) linearizable.size_contents [OF inv] by simp
  from linearizable.at_contents [OF inv this]
  obtain p where p: "index_ptr iid s = Some (Some p)" using n(1) by (auto simp: index_ptr_def)
  have "n \<le> 8" using n(1) by (simp add: idx_class_iff)
  then show thesis using that [OF n(1) p] indexes_okD(1-3) [OF D(11) p] n(1) by simp
qed

lemma serve_new_index:
  assumes "log_represents s a" "log_may (New_index n) a"
  shows "\<exists>s' r. log_serve (New_index n) s = Some (s', r) \<and> log_right (New_index n) a r
    \<and> log_represents s' (log_after (New_index n) a)"
proof -
  note D = log_representsD [OF assms(1)]
  let ?l = "lg_lens a" and ?c = "count_list (lg_lens a) n"
  have n: "1 \<le> n" "n \<le> 8" "?c < OFFSETMIN" using assms(2) by (simp_all add: log_may_def)
  have t: "take_bit 16 n = n" using n by (intro take_bit_16_id) simp
  have "n \<in> {1, 2, 3, 4, 5, 6, 7, 8}" using n by auto
  then obtain ix where ix: "new_index (take_bit 16 n) = Some ix" unfolding t by (auto simp: new_index_def)
  have few: "linearizable_size (idx_log s (take_bit 16 n)) < OFFSETMIN" unfolding t D(6) by (rule n(3))
  let ?iid = "idx_offset n + ?c"
  obtain l where l: "add_index n s = Some (s\<lparr>idx_log := (idx_log s)(n := l), index_heap := index_heap s @ [ix]\<rparr>, ?iid)"
    using add_index_ptr [OF D(11) ix few] unfolding t D(6) by blast
  let ?s = "s\<lparr>idx_log := (idx_log s)(n := l), index_heap := index_heap s @ [ix]\<rparr>"
  have spec: "log_store_ok ?s" "store_records ?s = store_records s" "\<forall>k. key_fits ?iid k \<longrightarrow> index_entries ?iid k ?s = []"
    "\<forall>j k. j \<noteq> ?iid \<longrightarrow> index_entries j k ?s = index_entries j k s"
    using add_index_spec [OF D(1) ix few] l by auto
  have size: "linearizable_size l = ?c + 1"
  proof -
    have inv: "linearizable_invar nindexes_nb (idx_log s n)" using D(11) by (simp add: indexes_ok_def)
    have "valid_index nindexes_nb (linearizable_size (idx_log s n))"
      using few t by (simp add: valid_index_def nindexes_nb_def OFFSETMIN_def FBS_def FBS_HIBIT_def)
    from linearizable_push_at [OF inv this, of "length (index_heap s)"]
    obtain l' where l': "linearizable_push_back nindexes_nb (length (index_heap s)) (idx_log s n) = Some (l', linearizable_size (idx_log s n))"
      "linearizable_invar nindexes_nb l'" "linearizable_contents nindexes_nb l' = linearizable_contents nindexes_nb (idx_log s n) @ [length (index_heap s)]"
      by blast
    have "(idx_log s)(n := l') = (idx_log s)(n := l)"
      using l l'(1) ix t by (auto simp: add_index_def Let_def dest: arg_cong [where f = idx_log])
    from fun_cong [OF this, of n] have "l' = l" by simp
    then show ?thesis using l'(2,3) linearizable.size_contents [OF inv] linearizable.size_contents [OF l'(2)] D(6) by simp
  qed
  have split: "?iid div OFFSETMIN = 2 ^ (n - 1)" "?iid mod OFFSETMIN = ?c" using idx_offset_split [OF n(3)] by simp_all
  have cls: "idx_class (?iid div OFFSETMIN) = Some n" using split n(1,2) by (simp add: idx_class_iff)
  have new: "\<not> names_index ?l ?iid" using cls split(2) by (simp add: names_index_def)
  have old: "names_index (?l @ [n]) j \<longleftrightarrow> names_index ?l j \<or> j = ?iid" for j
  proof (cases "idx_class (j div OFFSETMIN)")
    case None
    then show ?thesis using cls by (auto simp: names_index_def)
  next
    case (Some m)
    show ?thesis
    proof (cases "m = n")
      case True
      then have "j div OFFSETMIN = ?iid div OFFSETMIN" using Some cls by (simp add: idx_class_iff)
      then have "j mod OFFSETMIN = ?c \<longleftrightarrow> j = ?iid" using split(2) by (metis div_mult_mod_eq)
      then show ?thesis using Some True by (auto simp: names_index_def less_Suc_eq)
    next
      case False
      then show ?thesis using Some cls by (auto simp: names_index_def)
    qed
  qed
  have none: "hits ?iid k (lg_recs a) = []" for k using D(8) new by (intro hits_unnamed ballI notI) metis
  have ent: "index_entries j k ?s = hits j k (lg_recs a)" if j: "names_index (?l @ [n]) j" "key_fits j k" for j k
  proof (cases "j = ?iid")
    case True
    then show ?thesis using spec(3) j(2) none by simp
  next
    case False
    then show ?thesis using spec(4) D(9) [of j k] old [of j] j by simp
  qed
  have "log_represents ?s (log_after (New_index n) a)"
    using D(1-8) spec(1,2) size n(1,2) old ent unfolding log_represents_def log_after_def by auto
  then show ?thesis using l by (simp add: log_serve_def log_right_def)
qed

lemma serve_insert_record:
  assumes "log_represents s a" "log_may (Insert_record rec ts) a"
  shows "\<exists>s' r. log_serve (Insert_record rec ts) s = Some (s', r) \<and> log_right (Insert_record rec ts) a r
    \<and> log_represents s' (log_after (Insert_record rec ts) a)"
proof -
  note D = log_representsD [OF assms(1)]
  let ?n = "length rec"
  have may: "?n \<le> 1024" "length (lg_recs a) < 2 ^ 34" "bytes_of (lg_recs a) + ?n < 2 ^ 40" "tokens_of (lg_recs a) + length ts \<le> 2 ^ 28 - 16"
    "\<forall>t \<in> set ts. names_index (lg_lens a) (index_id t) \<and> key_fits (index_id t) (token_data t)"
    using assms(2) by (simp_all add: log_may_def list_all_iff)
  have tok: "index_ptr (index_id t) s \<noteq> None" "length (index_entries (index_id t) (token_data t) s) + length ts \<le> 2 ^ 28 - 16"
    if "t \<in> set ts" for t
  proof -
    have t: "names_index (lg_lens a) (index_id t)" "key_fits (index_id t) (token_data t)" using may(5) that by auto
    show "index_ptr (index_id t) s \<noteq> None" by (rule named_ptr [OF assms(1) t(1)]) simp
    show "length (index_entries (index_id t) (token_data t) s) + length ts \<le> 2 ^ 28 - 16"
      using D(9) [OF t] length_hits [of "index_id t" "token_data t" "lg_recs a"] may(4) by simp
  qed
  have "dtail s mod datalog_bs < datalog_bs" by (simp add: datalog_bs_def)
  then have "insert_room ?n ts s"
    using may tok D(3,4,10) by (auto simp: insert_room_def tokens_room_def token_fits_def streams_room_def BUFFER_SIZE_def)
  from log_insert_spec [OF D(1) this order_refl]
  obtain s' where s': "log_insert rec ?n ts s = Some (s', num_records s)" "log_store_ok s'" "num_records s' = num_records s + 1"
    "record_at (num_records s) s' = Some (map Some (take ?n rec))" "\<forall>i < num_records s. record_at i s' = record_at i s"
    "\<forall>iid. index_ptr iid s' = index_ptr iid s"
    "\<forall>iid k. index_ptr iid s \<noteq> Some None \<longrightarrow> key_fits iid k \<longrightarrow>
       index_entries iid k s' = index_entries iid k s @ token_entries iid k (num_records s) ts"
    "length (stream_heap s') = length (stream_heap s)" by (elim exE conjE) (rule that)
  have frame: "dtail s' = dtail s + ?n" "idx_log s' = idx_log s" using log_insert_frame [OF s'(1)] may(3) D(3) by simp_all
  have recs: "store_records s' = store_records s @ [rec]" using store_records_snoc s'(3-5) by simp
  have ent: "index_entries iid k s' = hits iid k (lg_recs a @ [(rec, ts)])" if "names_index (lg_lens a) iid" "key_fits iid k" for iid k
  proof -
    have "index_ptr iid s \<noteq> Some None" by (rule named_ptr [OF assms(1) that(1)]) simp
    then show ?thesis using s'(7) that(2) D(9) [OF that] D(10) by (simp add: hits_snoc)
  qed
  have "log_represents s' (log_after (Insert_record rec ts) a)"
    using D s'(2,8) frame recs ent may(4,5) unfolding log_represents_def log_after_def
    by (auto simp: bytes_of_def tokens_of_def)
  then show ?thesis using s'(1) D(10) by (simp add: log_serve_def log_right_def)
qed

lemma named_range:
  assumes "log_represents s a" "names_index (lg_lens a) iid" "key_fits iid hi" "index_ptr iid s = Some (Some p)"
  shows "range_entries (index_heap s ! p) lo hi = hits_between iid lo hi (lg_recs a)"
proof -
  have "obj_list k (index_heap s ! p) = hits iid k (lg_recs a)" if "k \<le> hi" for k
  proof -
    have "key_fits iid k" using assms(3) that by (auto simp: key_fits_def split: option.splits)
    then show ?thesis using log_representsD(9) [OF assms(1,2)] assms(4) by (simp add: index_entries_def)
  qed
  then show ?thesis by (auto simp: range_entries_def hits_between_def intro!: arg_cong [where f = concat])
qed

lemma serve_get:
  assumes "log_represents s a"
  shows "\<exists>s' r. log_serve (Get_bytes i) s = Some (s', r) \<and> log_right (Get_bytes i) a r \<and> log_represents s' (log_after (Get_bytes i) a)"
  using log_get_stored [OF log_representsD(1) [OF assms], of i] log_representsD(2) [OF assms] assms
  by (simp add: log_serve_def log_right_def log_after_def)

lemma serve_find:
  assumes "log_represents s a" "log_may (Find_records iid lo hi) a"
  shows "\<exists>s' r. log_serve (Find_records iid lo hi) s = Some (s', r) \<and> log_right (Find_records iid lo hi) a r
    \<and> log_represents s' (log_after (Find_records iid lo hi) a)"
proof -
  note D = log_representsD [OF assms(1)]
  have may: "names_index (lg_lens a) iid" "lo \<le> hi" "key_fits iid (hi + 1)" using assms(2) by (simp_all add: log_may_def)
  obtain n p where p: "idx_class (iid div OFFSETMIN) = Some n" "index_ptr iid s = Some (Some p)" "p < length (index_heap s)"
    "obj_ok (index_heap s ! p)" "obj_bytes (index_heap s ! p) = n" by (rule named_ptr [OF assms(1) may(1)])
  let ?ix = "index_heap s ! p"
  let ?fr = "\<lparr>fr_index = Some ?ix, tok_min = lo, tok_max = hi, max_rid = num_records s\<rparr>"
  have hi: "hi + 1 < 256 ^ n" "key_fits iid hi" using may(3) p(1) by (simp_all add: key_fits_def)
  have "obj_list k ?ix \<noteq> []" if k: "k \<le> hi" "obj_at k ?ix = Some (Some l)" for k l
  proof -
    have "obj_covers k ?ix" using k(1) hi(1) p(5) by (simp add: obj_covers_iff)
    then show ?thesis using p(4) k(2) by (simp add: obj_ok_def obj_list_Some)
  qed
  then have fr: "fr_ok ?fr ?ix" using p(4,5) may(2) hi(1) by (simp add: fr_ok_def)
  have "range_entries ?ix lo hi = hits_between iid lo hi (lg_recs a)" by (rule named_range [OF assms(1) may(1) hi(2) p(2)])
  moreover have "\<forall>v \<in> set (hits_between iid lo hi (lg_recs a)). v < num_records s"
    using hits_bound D(10) by (auto simp: hits_between_def)
  ultimately have "filter_iterate ?fr = Some (hits_between iid lo hi (lg_recs a))"
    using filter_iterate_all [OF fr] by simp
  moreover have "log_filter iid lo hi s = Some ?fr" using p(2,3) by (simp add: log_filter_def log_filter_max_def)
  ultimately show ?thesis using assms(1) by (simp add: log_serve_def log_right_def log_after_def)
qed

lemma serve_count:
  assumes "log_represents s a" "log_may (Count_records iid lo hi) a"
  shows "\<exists>s' r. log_serve (Count_records iid lo hi) s = Some (s', r) \<and> log_right (Count_records iid lo hi) a r
    \<and> log_represents s' (log_after (Count_records iid lo hi) a)"
proof -
  note D = log_representsD [OF assms(1)]
  have may: "names_index (lg_lens a) iid" "key_fits iid hi" "hi + 1 < 2 ^ 64" using assms(2) by (simp_all add: log_may_def)
  obtain n p where p: "idx_class (iid div OFFSETMIN) = Some n" "index_ptr iid s = Some (Some p)" "p < length (index_heap s)"
    "obj_ok (index_heap s ! p)" "obj_bytes (index_heap s ! p) = n" by (rule named_ptr [OF assms(1) may(1)])
  let ?ix = "index_heap s ! p"
  have e: "range_entries ?ix lo hi = hits_between iid lo hi (lg_recs a)" by (rule named_range [OF assms(1) may(1,2) p(2)])
  have "length (hits_between iid lo hi (lg_recs a)) < 2 ^ 64" using length_hits_between [of iid lo hi "lg_recs a"] D(5) by simp
  then have "filter_count iid lo hi s = Some (length (hits_between iid lo hi (lg_recs a)))"
    using filter_count_from_spec [OF p(4), of hi 0 lo] may(2,3) p(1-3,5) e by (simp add: filter_count_def key_fits_def)
  then show ?thesis using assms(1) by (simp add: log_serve_def log_right_def log_after_def)
qed

section \<open>The log store is a service\<close>

interpretation ls: service_refinement log_serve log_represents log_may log_after log_right
proof
  show "\<exists>s' r. log_serve q s = Some (s', r) \<and> log_right q a r \<and> log_represents s' (log_after q a)"
    if "log_represents s a" "log_may q a" for s a q
    using serve_new_index [OF that(1)] serve_insert_record [OF that(1)] serve_get [OF that(1)] serve_find [OF that(1)] serve_count [OF that(1)] that(2)
    by (cases q) simp_all
qed

lemma log_init_represents: "log_represents log_store_init empty_log"
proof -
  have "\<not> names_index [] iid" for iid by (simp add: names_index_def split: option.split)
  then show ?thesis
    using log_store_init_ok store_records_init
    by (simp add: log_represents_def empty_log_def bytes_of_def tokens_of_def)
      (simp add: log_store_init_def linearizable_size_def linearizable_init_def)
qed

text \<open>
  C22. The log store refines its specification. Take any sequence of requests to a new log store that keeps to its bounds: indexes to add,
  records to insert with tokens for these indexes, records to read, ranges of keys to find and to count. Every request is answered, none is
  undefined, and each answer is right for the records inserted so far: records are read back byte for byte, a range of keys is answered by the identifiers
  of the records that have a token in it, key by key and in the order of insertion, and counted exactly.
\<close>

theorem log_store_refines_service:
  assumes "permitted log_may log_after qs empty_log"
  shows "\<exists>s' rs. session log_serve qs log_store_init = Some (s', rs) \<and> answered_right log_right log_after qs empty_log rs
    \<and> store_records s' = map fst (lg_recs (after log_after qs empty_log))"
  using ls.session_answers [OF log_init_represents assms] by (auto simp: log_represents_def)

definition log_example :: "log_request list" where
  "log_example =
     [New_index 2, Insert_record [1, 2, 3] [\<lparr>index_id = 2048, token_data = 80\<rparr>], Insert_record [9] [\<lparr>index_id = 2048, token_data = 443\<rparr>],
      Find_records 2048 80 500, Get_bytes 0, Count_records 2048 0 100]"

lemma log_example_permitted: "permitted log_may log_after log_example empty_log"
  by (simp add: log_example_def log_may_def log_after_def empty_log_def names_index_def idx_class_def key_fits_def OFFSETMIN_def
      bytes_of_def tokens_of_def)

theorem log_store_refines_service_witness:
  "\<exists>s'. session log_serve log_example log_store_init = Some (s',
     [Index_id 2048, Record_id 0, Record_id 1, Found [0, 1], Bytes_read (Some [Some 1, Some 2, Some 3]), Counted 1])"
proof -
  obtain s' rs where r: "session log_serve log_example log_store_init = Some (s', rs)"
    "answered_right log_right log_after log_example empty_log rs"
    using log_store_refines_service [OF log_example_permitted] by blast
  let ?recs = "[([1, 2, 3], [\<lparr>index_id = 2048, token_data = 80\<rparr>]), ([9], [\<lparr>index_id = 2048, token_data = 443\<rparr>])] :: (u8 list \<times> token_t list) list"
  have "hits_between 2048 80 500 ?recs = [0, 1]" "hits_between 2048 0 100 ?recs = [0]"
    by code_simp+
  then have "rs = [Index_id 2048, Record_id 0, Record_id 1, Found [0, 1], Bytes_read (Some [Some 1, Some 2, Some 3]), Counted 1]"
    using r(2) unfolding log_example_def answered_right_Cons
    by (elim exE conjE) (simp add: log_right_def log_after_def empty_log_def idx_offset_def OFFSETMIN_def)
  then show ?thesis using r(1) by blast
qed

end
