(* ===== verification/Address_Strings.thy ===== *)
theory Address_Strings
  imports Query_Semantics
begin

unbundle bit_operations_syntax

section \<open>Decimal numbers\<close>

text \<open>
  What \<open>std::stoi\<close> and \<open>sscanf\<close> read back from printed numbers, and what the address strings of
  queries mean: dotted addresses, prefixes, and the order of their bytes.
\<close>

lemma digit_code: "k < 10 \<Longrightarrow> of_char (char_of (48 + k :: nat)) = (48 + k :: nat)"
  by (simp add: of_char_of take_bit_eq_mod)

lemma dec_digits_digits: "c \<in> set (dec_digits n) \<Longrightarrow> is_digit c"
proof (induction n rule: dec_digits.induct)
  case (1 n)
  have d: "is_digit (char_of (48 + k))" if "k < 10" for k :: nat using that by (simp add: is_digit_def digit_code)
  show ?case
  proof (cases "n < 10")
    case True
    then show ?thesis using "1.prems" d by (simp add: dec_digits.simps)
  next
    case False
    then show ?thesis using "1.prems" "1.IH" d [of "n mod 10"] by (auto simp: dec_digits.simps [of n])
  qed
qed

lemma dec_digits_nonempty: "dec_digits n \<noteq> []"
  by (simp add: dec_digits.simps [of n])

lemma dec_value_snoc: "dec_value (ds @ [c]) = 10 * dec_value ds + (of_char c - 48)"
  by (simp add: dec_value_def)

lemma dec_value_digits: "dec_value (dec_digits n) = n"
proof (induction n rule: dec_digits.induct)
  case (1 n)
  show ?case
  proof (cases "n < 10")
    case True
    then show ?thesis by (simp add: dec_digits.simps [of n] dec_value_def digit_code)
  next
    case False
    then show ?thesis
      using "1.IH" by (simp add: dec_digits.simps [of n] dec_value_snoc digit_code div_mult_mod_eq mult.commute)
  qed
qed

lemma digit_plain:
  assumes "is_digit c"
  shows "\<not> is_space c" "c \<noteq> CHR ''-''" "c \<noteq> CHR ''+''" "c \<noteq> CHR ''.''" "c \<noteq> CHR ''/''" "c \<noteq> CHR '':''" "c \<noteq> CHR '',''"
  using assms by (auto simp: is_digit_def is_space_def)

lemma scan_digits:
  assumes "rest = [] \<or> \<not> is_digit (hd rest)"
  shows "scan_number (dec_digits n @ rest) = Some (int n, rest)"
proof -
  obtain c cs where d: "dec_digits n = c # cs" using dec_digits_nonempty [of n] by (cases "dec_digits n") auto
  have all: "\<forall>x \<in> set (dec_digits n). is_digit x" using dec_digits_digits by blast
  then have c: "\<not> is_space c" "c \<noteq> CHR ''-''" "c \<noteq> CHR ''+''" using digit_plain [of c] d by auto
  have split: "takeWhile is_digit (dec_digits n @ rest) = dec_digits n" "dropWhile is_digit (dec_digits n @ rest) = rest"
    using all assms by (cases rest; simp)+
  show ?thesis
    using c d split dec_value_digits [of n] by (simp add: scan_number_def Let_def)
qed

lemma scan_digits_end: "scan_number (dec_digits n) = Some (int n, [])"
  using scan_digits [of "[]" n] by simp

section \<open>Dotted addresses\<close>

definition dotted :: "nat \<Rightarrow> nat \<Rightarrow> nat \<Rightarrow> nat \<Rightarrow> string" where
  "dotted a b c d = dec_digits a @ ''.'' @ dec_digits b @ ''.'' @ dec_digits c @ ''.'' @ dec_digits d"

lemma scan_hhu_digits:
  assumes "n < 256" "rest = [] \<or> \<not> is_digit (hd rest)"
  shows "scan_hhu (dec_digits n @ rest) = Some (of_nat n, rest)"
  using assms by (simp add: scan_hhu_def scan_digits)

lemma dot_no_digit: "\<not> is_digit CHR ''.''"
  by (simp add: is_digit_def)

lemma word_bytes:
  fixes a b c d :: u8
  shows "unat ((ucast d :: u32) OR push_bit 8 (ucast c) OR push_bit 16 (ucast b) OR push_bit 24 (ucast a)) =
    ((unat a * 256 + unat b) * 256 + unat c) * 256 + unat d"
proof -
  have disj: "(ucast d :: u32) AND push_bit 8 (ucast c) = 0"
    "((ucast d :: u32) OR push_bit 8 (ucast c)) AND push_bit 16 (ucast b) = 0"
    "(((ucast d :: u32) OR push_bit 8 (ucast c)) OR push_bit 16 (ucast b)) AND push_bit 24 (ucast a) = 0"
    by (rule bit_word_eqI; auto simp: bit_simps dest: bit_imp_le_length)+
  have "(ucast d :: u32) OR push_bit 8 (ucast c) OR push_bit 16 (ucast b) OR push_bit 24 (ucast a)
      = ucast d + ucast c * 2 ^ 8 + ucast b * 2 ^ 16 + ucast a * 2 ^ 24"
    using disj unfolding or.assoc [symmetric] push_bit_eq_mult by (simp only: disjunctive_add_eq_or [symmetric])
  also have "\<dots> = of_nat (((unat a * 256 + unat b) * 256 + unat c) * 256 + unat d)"
    by (simp add: algebra_simps)
  finally have "unat ((ucast d :: u32) OR push_bit 8 (ucast c) OR push_bit 16 (ucast b) OR push_bit 24 (ucast a))
      = take_bit 32 (((unat a * 256 + unat b) * 256 + unat c) * 256 + unat d)" by (simp only: unat_of_nat) (simp add: take_bit_eq_mod)
  moreover have "unat a < 256" "unat b < 256" "unat c < 256" "unat d < 256"
    using unsigned_less [where ?'a = nat and w = a] unsigned_less [where ?'a = nat and w = b]
      unsigned_less [where ?'a = nat and w = c] unsigned_less [where ?'a = nat and w = d] by simp_all
  ultimately show ?thesis by (simp add: take_bit_nat_eq_self)
qed

lemma ip_string_dotted:
  assumes "a < 256" "b < 256" "c < 256" "d < 256" "rest = [] \<or> \<not> is_digit (hd rest)"
  shows "\<exists>ip. ip_string_to_uint32 (dotted a b c d @ rest) = Some ip \<and> unat ip = ((a * 256 + b) * 256 + c) * 256 + d"
proof -
  have u: "unat (of_nat n :: u8) = n" if "n < 256" for n using that by (simp add: unat_of_nat take_bit_nat_eq_self)
  show ?thesis
    using assms word_bytes [of "of_nat d" "of_nat c" "of_nat b" "of_nat a"]
    by (simp add: dotted_def ip_string_to_uint32_def scan_hhu_digits scan_dot_def dot_no_digit u)
qed

text \<open>
  A dotted address is read back. The string of four decimal bytes gives the 32-bit number
  with the first byte in the most significant place.
\<close>

theorem ip_string_round_trip:
  assumes "a < 256" "b < 256" "c < 256" "d < 256"
  shows "map_option unat (ip_string_to_uint32 (dotted a b c d)) = Some (((a * 256 + b) * 256 + c) * 256 + d)"
  using ip_string_dotted [OF assms, of "[]"] by auto

theorem ip_string_round_trip_witness:
  "map_option unat (ip_string_to_uint32 (dotted 10 0 0 1)) = Some 167772161"
  using ip_string_round_trip [of 10 0 0 1] by simp

lemma low_byte:
  fixes x y a b :: nat
  assumes "256 * x + a = 256 * y + b" "a < 256" "b < 256"
  shows "a = b" "x = y"
proof -
  show "a = b" using arg_cong [OF assms(1), of "\<lambda>n. n mod 256"] assms(2,3) by simp
  then show "x = y" using assms(1) by simp
qed

text \<open>
  Queries and packets order the bytes of an address differently. A header field is read in the
  byte order of the machine, a query string most significant byte first: the address \<open>a.b.c.d\<close> of a
  packet has the key the query looks for only when \<open>a = d\<close> and \<open>b = c\<close>.
\<close>

theorem address_byte_order:
  assumes "load off 4 pkt = Some v" "pkt off = Some (of_nat a)" "pkt (off + 1) = Some (of_nat b)"
    "pkt (off + 2) = Some (of_nat c)" "pkt (off + 3) = Some (of_nat d)" "a < 256" "b < 256" "c < 256" "d < 256"
  shows "map_option unat (ip_string_to_uint32 (dotted a b c d)) = Some v \<longleftrightarrow> a = d \<and> b = c"
proof -
  have u: "unat (of_nat n :: u8) = n" if "n < 256" for n using that by (simp add: unat_of_nat take_bit_nat_eq_self)
  have "[off..<off + 4] = [off, off + 1, off + 2, off + 3]" by (simp add: upt_rec numeral_eq_Suc)
  then have "v = a + 256 * (b + 256 * (c + 256 * d))"
    using assms by (simp add: load_def load_bytes_def u)
  moreover have "map_option unat (ip_string_to_uint32 (dotted a b c d)) = Some (((a * 256 + b) * 256 + c) * 256 + d)"
    using ip_string_dotted [OF assms(6-9), of "[]"] by auto
  moreover have "a = d \<and> b = c" if eq: "((a * 256 + b) * 256 + c) * 256 + d = a + 256 * (b + 256 * (c + 256 * d))"
  proof -
    have "256 * (256 * (256 * a + b) + c) + d = 256 * (256 * (256 * d + c) + b) + a" using eq by (simp add: algebra_simps)
    note l = low_byte [OF this assms(9,6)]
    show ?thesis using l(1) low_byte(1) [OF l(2) assms(8,7)] by simp
  qed
  ultimately show ?thesis by (metis (no_types, lifting) add.commute mult.commute option.inject)
qed

section \<open>Prefixes\<close>

lemma prefix_masks: "list_all (\<lambda>i. ip_prefix_mask ! i = NOT (mask (32 - i))) [0..<33]"
  by code_simp

lemma mask_at_prefix: "p \<le> 32 \<Longrightarrow> mask_at p = Some (NOT (mask (32 - p)))"
  using prefix_masks unfolding list_all_iff by (simp add: mask_at_def ip_prefix_mask_def [THEN arg_cong, of length])

lemma unat_and_not_mask: "k \<le> 32 \<Longrightarrow> unat ((w :: u32) AND NOT (mask k)) = unat w div 2 ^ k * 2 ^ k"
proof -
  have "w AND NOT (mask k) = push_bit k (drop_bit k w)"
    by (rule bit_word_eqI) (auto simp: bit_simps dest: bit_imp_le_length)
  moreover have "unat w div 2 ^ k * 2 ^ k < 2 ^ 32"
    using unsigned_less [where ?'a = nat and w = w] by (simp add: le_less_trans [OF div_times_less_eq_dividend])
  moreover have "take_bit 32 (unat w) = unat w" using unsigned_less [where ?'a = nat and w = w] by (simp add: take_bit_id)
  ultimately show ?thesis
    by (simp add: unsigned_push_bit_eq unsigned_drop_bit_eq take_bit_nat_eq_self flip: push_bit_eq_mult drop_bit_eq_div)
qed

lemma unat_mask_32: "k \<le> 32 \<Longrightarrow> unat (mask k :: u32) = 2 ^ k - 1"
proof -
  assume "k \<le> 32"
  then have "unat (mask k :: u32) = mask k" by (intro bit_eqI) (auto simp: bit_simps)
  then show ?thesis by (simp add: mask_eq_exp_minus_1)
qed

lemma unat_or_mask:
  assumes "k \<le> 32"
  shows "unat ((w :: u32) OR mask k) = unat w div 2 ^ k * 2 ^ k + (2 ^ k - 1)"
proof -
  have "w OR mask k = (w AND NOT (mask k)) OR mask k"
    by (rule bit_word_eqI) (auto simp: bit_simps)
  also have "\<dots> = (w AND NOT (mask k)) + mask k"
    by (rule disjunctive_add_eq_or [symmetric]) (rule bit_word_eqI, auto simp: bit_simps)
  finally have "unat (w OR mask k) = unat ((w AND NOT (mask k)) + mask k)" by simp
  moreover have "unat (mask k :: u32) = 2 ^ k - 1" by (rule unat_mask_32 [OF assms])
  moreover have "unat w div 2 ^ k * 2 ^ k + (2 ^ k - 1) < 2 ^ 32"
  proof -
    have split: "(2::nat) ^ 32 = 2 ^ (32 - k) * 2 ^ k" using assms by (simp flip: power_add)
    have "unat w < 2 ^ 32" using unsigned_less [where ?'a = nat and w = w] by simp
    then have "unat w div 2 ^ k < 2 ^ (32 - k)" unfolding split by (simp add: div_less_iff_less_mult)
    then have "Suc (unat w div 2 ^ k) * 2 ^ k \<le> 2 ^ (32 - k) * 2 ^ k" by (intro mult_le_mono1) simp
    then have "unat w div 2 ^ k * 2 ^ k + 2 ^ k \<le> 2 ^ 32" unfolding split by simp
    moreover have "0 < m \<Longrightarrow> n + m \<le> c \<Longrightarrow> n + (m - 1) < c" for n m c :: nat by linarith
    ultimately show ?thesis by simp
  qed
  ultimately show ?thesis using unat_and_not_mask [OF assms, of w] by (simp add: unat_word_ariths)
qed

definition in_prefix :: "nat \<Rightarrow> nat \<Rightarrow> nat \<Rightarrow> bool" where
  "in_prefix n p x \<longleftrightarrow> x < 2 ^ 32 \<and> x div 2 ^ (32 - p) = n div 2 ^ (32 - p)"

lemma ip_range_dotted:
  assumes "a < 256" "b < 256" "c < 256" "d < 256" "p \<le> 32" "n = ((a * 256 + b) * 256 + c) * 256 + d"
  shows "ip_range (dotted a b c d @ ''/'' @ dec_digits p) =
    Some (Inr (n div 2 ^ (32 - p) * 2 ^ (32 - p), n div 2 ^ p * 2 ^ p + (2 ^ p - 1)))"
proof -
  let ?s = "dotted a b c d @ ''/'' @ dec_digits p"
  have plain: "\<forall>x \<in> set (dotted a b c d). x \<noteq> CHR ''/''"
    using dec_digits_digits digit_plain(5) by (auto simp: dotted_def)
  have split: "takeWhile (\<lambda>x. x \<noteq> CHR ''/'') ?s = dotted a b c d" "dropWhile (\<lambda>x. x \<noteq> CHR ''/'') ?s = ''/'' @ dec_digits p"
    using plain by simp_all
  have st: "stoi (dec_digits p) = Some (int p)" using assms(5) by (simp add: stoi_def scan_digits_end)
  obtain ip where ip: "ip_string_to_uint32 (dotted a b c d) = Some ip" "unat ip = n"
    using ip_string_dotted [OF assms(1-4), of "[]"] assms(6) by auto
  have pre: "nat (take_bit 32 (int p)) = p" "nat (take_bit 32 (32 - int p)) = 32 - p"
    using assms(5) by (simp_all add: take_bit_int_eq_self nat_diff_distrib)
  have m: "mask_at p = Some (NOT (mask (32 - p)))" "mask_at (32 - p) = Some (NOT (mask p))"
    using mask_at_prefix [of p] mask_at_prefix [of "32 - p"] assms(5) by simp_all
  show ?thesis
    using split st ip pre m assms(5) unat_and_not_mask [of "32 - p" ip] unat_or_mask [OF assms(5), of ip]
    by (simp add: ip_range_def Let_def rreturn_def)
qed

lemma block_16:
  assumes "n < 2 ^ 32"
  shows "in_range (n div 2 ^ 16 * 2 ^ 16, n div 2 ^ 16 * 2 ^ 16 + (2 ^ 16 - 1)) x \<longleftrightarrow> in_prefix n 16 x"
proof -
  have "n div 2 ^ 16 < 2 ^ 16" using assms by (simp add: div_less_iff_less_mult)
  moreover have "n div 2 ^ 16 * 2 ^ 16 \<le> x \<and> x \<le> n div 2 ^ 16 * 2 ^ 16 + (2 ^ 16 - 1) \<longleftrightarrow> x div 2 ^ 16 = n div 2 ^ 16"
    using div_nat_eqI [of "n div 2 ^ 16" "2 ^ 16" x] times_div_less_eq_dividend [of "2 ^ 16" x] dividend_less_times_div [of "2 ^ 16" x]
    by (auto simp: mult.commute)
  ultimately show ?thesis
    using times_div_less_eq_dividend [of "2 ^ 16" x] by (auto simp: in_range_def in_prefix_def)
qed

lemma short_prefix_misses:
  assumes "p < 16" "n < 2 ^ 32" "2 ^ (32 - p) dvd n"
  shows "in_prefix n p (n + 2 ^ p)" "n div 2 ^ p * 2 ^ p + (2 ^ p - 1) < n + 2 ^ p"
proof -
  let ?K = "2 ^ (32 - p) :: nat"
  obtain q where q: "n = ?K * q" using assms(3) by blast
  have less: "(2::nat) ^ p < ?K" using assms(1) by (intro power_strict_increasing) simp_all
  have all: "(2::nat) ^ 32 = ?K * 2 ^ p" using assms(1) by (simp flip: power_add)
  have "q < 2 ^ p" using assms(2) unfolding q all by simp
  then have "?K * Suc q \<le> 2 ^ 32" unfolding all by (intro mult_le_mono2) simp
  then have "n + ?K \<le> 2 ^ 32" by (simp only: q mult_Suc_right add.commute)
  then have "n + 2 ^ p < 2 ^ 32" using less by linarith
  moreover have "(n + 2 ^ p) div ?K = n div ?K" using less by (simp add: q)
  ultimately show "in_prefix n p (n + 2 ^ p)" by (simp add: in_prefix_def)
  show "n div 2 ^ p * 2 ^ p + (2 ^ p - 1) < n + 2 ^ p"
  proof (rule add_le_less_mono)
    show "n div 2 ^ p * 2 ^ p \<le> n" by (rule div_times_less_eq_dividend)
  qed simp
qed

text \<open>
  The range of an address prefix. For an address \<open>n\<close> and a prefix of \<open>p\<close> bits, the range starts
  at the first address of the prefix, but its upper end sets the low \<open>p\<close> bits instead of
  the low \<open>32 - p\<close>. So the range is the block of the prefix when \<open>p = 16\<close>, and for every shorter prefix
  of a network address it misses addresses of the block.
\<close>

theorem ip_range_of_prefix:
  assumes "a < 256" "b < 256" "c < 256" "d < 256" "p \<le> 32" "n = ((a * 256 + b) * 256 + c) * 256 + d"
  shows "\<exists>lo hi. ip_range (dotted a b c d @ ''/'' @ dec_digits p) = Some (Inr (lo, hi))
    \<and> lo = n div 2 ^ (32 - p) * 2 ^ (32 - p) \<and> hi = n div 2 ^ p * 2 ^ p + (2 ^ p - 1)
    \<and> (p = 16 \<longrightarrow> (\<forall>x. in_range (lo, hi) x \<longleftrightarrow> in_prefix n p x))
    \<and> (p < 16 \<longrightarrow> 2 ^ (32 - p) dvd n \<longrightarrow> in_prefix n p (n + 2 ^ p) \<and> \<not> in_range (lo, hi) (n + 2 ^ p))"
proof -
  have n: "n < 2 ^ 32" using assms by simp
  let ?lo = "n div 2 ^ (32 - p) * 2 ^ (32 - p)" and ?hi = "n div 2 ^ p * 2 ^ p + (2 ^ p - 1) :: nat"
  have "p = 16 \<longrightarrow> (\<forall>x. in_range (?lo, ?hi) x \<longleftrightarrow> in_prefix n p x)" using block_16 [OF n] by auto
  moreover have "p < 16 \<longrightarrow> 2 ^ (32 - p) dvd n \<longrightarrow> in_prefix n p (n + 2 ^ p) \<and> \<not> in_range (?lo, ?hi) (n + 2 ^ p)"
    using short_prefix_misses [OF _ n] by (fastforce simp: in_range_def)
  ultimately show ?thesis using ip_range_dotted [OF assms] by blast
qed

theorem ip_range_of_prefix_witness:
  "ip_range (dotted 10 0 0 0 @ ''/'' @ dec_digits 8) = Some (Inr (167772160, 167772415)) \<and> in_prefix 167772160 8 167772416"
  using ip_range_of_prefix [of 10 0 0 0 8 167772160] by simp

theorem address_byte_order_witness:
  "map_option unat (ip_string_to_uint32 (dotted 10 0 0 1)) \<noteq> ipv4_src_addr wire_layout (mtod tcp_pkt)
   \<and> ipv4_src_addr wire_layout (mtod tcp_pkt) = Some 16777226"
proof -
  have src: "ipv4_src_addr wire_layout (mtod tcp_pkt) = Some 16777226"
    using pkt_fields_of_Some [OF tcp_pkt_fields] by auto
  then have "load 26 4 (mtod tcp_pkt) = Some 16777226" by (simp add: ipv4_src_addr_def ip_field_def wire_layout_def)
  from address_byte_order [OF this, of 10 0 0 1] show ?thesis using src by (simp add: tcp_pkt_def tcp_bytes_def)
qed

end
