(* ===== verification/Netplay_Writer.thy ===== *)
theory Netplay_Writer
  imports Query_Data
begin

section \<open>The writer (netplay_writer.h)\<close>

text \<open>
  A writer polls a port for ever and inserts what it receives. The port belongs to DPDK: what
  \<open>recv_pkts\<close> returns, at most \<open>BATCH_SIZE\<close> packets, is an argument, and so is \<open>std::time\<close>. A run is a finite number of
  turns of the loop. The port and the handle of the writer are pointers; the store they share is passed along.
\<close>

definition BATCH_SIZE :: nat where "BATCH_SIZE = 32"

record writer =
  writer_core :: int
  rec_pkts :: nat

definition netplay_writer :: "int \<Rightarrow> writer" where
  "netplay_writer c = \<lparr>writer_core = c, rec_pkts = 0\<rparr>"

definition writer_poll :: "hdr_layout \<Rightarrow> nat \<Rightarrow> mbuf list \<Rightarrow> writer \<times> packet_store \<Rightarrow> (writer \<times> packet_store) option" where
  "writer_poll L now recv ws =
     (if length recv \<le> BATCH_SIZE then do {
        s \<leftarrow> insert_pktburst L now recv (snd ws);
        Some ((fst ws)\<lparr>rec_pkts := take_bit 64 (rec_pkts (fst ws) + length recv)\<rparr>, s) }
      else None)"

fun writer_run :: "hdr_layout \<Rightarrow> (nat \<times> mbuf list) list \<Rightarrow> writer \<times> packet_store \<Rightarrow> (writer \<times> packet_store) option" where
  "writer_run L [] ws = Some ws"
| "writer_run L (p # ps) ws = do { ws' \<leftarrow> writer_poll L (fst p) (snd p) ws; writer_run L ps ws' }"

section \<open>A busy port\<close>

text \<open>Every poll brings packets, with their headers inside their bytes, and the store has room for them.\<close>

fun polls_room :: "hdr_layout \<Rightarrow> (nat \<times> mbuf list) list \<Rightarrow> packet_store \<Rightarrow> bool" where
  "polls_room L [] s = True"
| "polls_room L (p # ps) s \<longleftrightarrow> length (snd p) \<le> BATCH_SIZE \<and> burst_room L (fst p) (snd p) s
     \<and> (\<forall>m \<in> set (snd p). headers_inside L m)
     \<and> (\<forall>s'. insert_pktburst L (fst p) (snd p) s = Some s' \<longrightarrow> polls_room L ps s')"

definition polled_pkts :: "(nat \<times> mbuf list) list \<Rightarrow> (nat \<times> u8 list) list" where
  "polled_pkts ps = concat (map (\<lambda>p. map (\<lambda>m. (fst p, pkt_bytes m)) (snd p)) ps)"

text \<open>
  C19. A writer on a busy port stores everything it receives. If every poll brings packets
  and the store has room for them, the run completes; the store then holds its old packets
  followed by the packets of all polls in the order they were received, its indexes are still complete, and the
  counter of the writer has grown by the number of packets.
\<close>

theorem writer_run_stores:
  assumes "pstore_ok s" "complete L s" "polls_room L ps s" "rec_pkts w + length (polled_pkts ps) < 2 ^ 64"
  shows "\<exists>w' s'. writer_run L ps (w, s) = Some (w', s') \<and> pstore_ok s' \<and> complete L s'
    \<and> store_pkts s' = store_pkts s @ polled_pkts ps \<and> rec_pkts w' = rec_pkts w + length (polled_pkts ps)"
  using assms
proof (induction ps arbitrary: s w)
  case (Cons p ps)
  have p: "length (snd p) \<le> BATCH_SIZE" "burst_room L (fst p) (snd p) s" "\<forall>m \<in> set (snd p). headers_inside L m"
    using Cons.prems(3) by simp_all
  obtain s1 where s1: "insert_pktburst L (fst p) (snd p) s = Some s1" "pstore_ok s1" "complete L s1"
    "store_pkts s1 = store_pkts s @ map (\<lambda>m. (fst p, pkt_bytes m)) (snd p)"
    using insert_pktburst_complete [OF Cons.prems(1,2) p(2,3)] by blast
  define w1 where "w1 = w\<lparr>rec_pkts := take_bit 64 (rec_pkts w + length (snd p))\<rparr>"
  have len: "length (polled_pkts (p # ps)) = length (snd p) + length (polled_pkts ps)" by (simp add: polled_pkts_def)
  then have w1: "rec_pkts w1 = rec_pkts w + length (snd p)" using Cons.prems(4) by (simp add: w1_def take_bit_64_id)
  have step: "writer_poll L (fst p) (snd p) (w, s) = Some (w1, s1)" using p(1) s1(1) by (simp add: writer_poll_def w1_def)
  obtain w' s' where "writer_run L ps (w1, s1) = Some (w', s')" "pstore_ok s'" "complete L s'"
    "store_pkts s' = store_pkts s1 @ polled_pkts ps" "rec_pkts w' = rec_pkts w1 + length (polled_pkts ps)"
    using Cons.IH [OF s1(2,3), of w1] Cons.prems(3,4) s1(1) w1 len by auto
  then show ?case using step s1(4) w1 len by (simp add: polled_pkts_def)
qed (simp add: polled_pkts_def)

section \<open>An idle port\<close>

text \<open>
  \<open>recv_pkts\<close> returns at once, so most polls bring nothing. The burst of no packets still asks the timestamp index for the
  list of the current second, which creates it, and appends nothing.
\<close>

lemma end_block_none: "current_read_id l = rid \<Longrightarrow> rid < 2 ^ 64 \<Longrightarrow> end_block rid 0 l = Some l"
  by (simp add: end_block.simps end_try_def take_bit_id)

lemma request_nothing:
  assumes "current_write_id l < 2 ^ 34"
  shows "\<exists>o'. request_id_block 0 l = Some (l\<lparr>offlens := o'\<rparr>, current_write_id l)"
proof -
  have wrap: "take_bit 64 (current_write_id l) = current_write_id l" using assms by (intro take_bit_64_id) simp
  have "id_room (current_write_id l)" using assms by (simp add: id_room_bound)
  then have room: "current_write_id l div offlens_bs < offlens_nb" by (simp add: id_room_def)
  then obtain o' where "lin_alloc_range offlens_nb (current_write_id l div offlens_bs) (current_write_id l div offlens_bs) (offlens l) = Some o'"
    using lin_alloc_range_spec [OF room, of "current_write_id l div offlens_bs" "offlens l"] by auto
  then show ?thesis
    using wrap by (cases l) (simp add: request_id_block_def Let_def lin_ensure_alloc_def)
qed

lemma push_nothing:
  assumes "start < 2 ^ 64"
  shows "el_push_back_range start (take_bit 64 (start + (2 ^ 64 - 1))) new_entry_list = Some (new_entry_list, 0)"
  using relaxed_push_back_range_empty [OF assms, of new_entry_list entry_list_nbuckets]
  by (simp add: el_push_back_range_def new_entry_list_def relaxed_init_def)

lemma idle_index:
  assumes "key < 2 ^ 32" "obj_at key (Index4 y) = Some None" "start < 2 ^ 64" "p < length (index_heap b)" "index_heap b ! p = Index4 y"
  shows "\<exists>ix. ptr_add_range p key start (take_bit 64 (start + (2 ^ 64 - 1))) b = Some (b\<lparr>index_heap := (index_heap b)[p := ix]\<rparr>)
    \<and> obj_bytes ix = 4 \<and> obj_at key ix = Some (Some new_entry_list)
    \<and> (\<forall>k < 2 ^ 32. k \<noteq> key \<longrightarrow> obj_at k ix = obj_at k (Index4 y))"
proof -
  have k: "d2_covers 65536 65536 key" using assms(1) by (simp add: time_covers)
  obtain y1 where g: "d2_get 65536 65536 new_entry_list key y = Some (y1, new_entry_list)"
    "d2_at 65536 65536 key (d2_store 65536 key new_entry_list y1) = Some (Some new_entry_list)"
    "\<forall>k'. d2_covers 65536 65536 k' \<longrightarrow> k' \<noteq> key \<longrightarrow> d2_at 65536 65536 k' (d2_store 65536 key new_entry_list y1) = d2_at 65536 65536 k' y"
    using d2.get_store_at [OF k, where fresh = new_entry_list and ix = y and v = new_entry_list] assms(2) by auto
  have "ptr_add_range p key start (take_bit 64 (start + (2 ^ 64 - 1))) b
      = Some (b\<lparr>index_heap := (index_heap b)[p := Index4 (d2_store 65536 key new_entry_list y1)]\<rparr>)"
    using assms(4,5) g(1) push_nothing [OF assms(3)] by (simp add: ptr_add_range_def)
  then show ?thesis using g(2,3) by (intro exI [of _ "Index4 (d2_store 65536 key new_entry_list y1)"]) (simp add: time_covers)
qed

text \<open>A scan for the next list stops at the empty one, and its first entry was never written.\<close>

lemma scan_to_list:
  assumes "fr_index fr = Some ix" "t < k" "k \<le> tok_max fr" "k < 2 ^ 64" "obj_at k ix = Some (Some l)"
    and "\<forall>j. t < j \<longrightarrow> j < k \<longrightarrow> obj_at j ix = Some None"
  shows "scan_tokens fr t = Some (k, Some l)"
  using assms(2,6)
proof (induction "k - t" arbitrary: t)
  case (Suc n)
  have wrap: "take_bit 64 (t + 1) = Suc t" using Suc.prems(1) assms(4) by (simp add: take_bit_id)
  show ?case
  proof (cases "Suc t = k")
    case True
    then show ?thesis using assms(1,5) wrap by (simp add: scan_tokens.simps)
  next
    case False
    then have t: "Suc t < k" "n = k - Suc t" using Suc by auto
    then have "obj_at (Suc t) ix = Some None" "Suc t \<le> tok_max fr" using Suc.prems assms(3) by auto
    then have "scan_tokens fr t = scan_tokens fr (Suc t)" using assms(1) wrap by (simp add: scan_tokens.simps [of fr t])
    then show ?thesis using Suc.hyps(1) [OF t(2,1)] Suc.prems(2) by auto
  qed
qed simp

lemma new_list_unwritten: "monolog_get nb i new_entry_list = None"
  by (cases "bucket_pos i")
    (auto simp: monolog_get_def load_cell_def load_bucket_def new_entry_list_def relaxed_init_def monolog_base_init_def
      bind_None_iff split: if_splits)

lemma empty_list_undefined:
  assumes "fr_index fr = Some ix" "tok_min fr < k" "k \<le> tok_max fr" "tok_max fr + 1 < 2 ^ 64"
    and "obj_at k ix = Some (Some new_entry_list)" "\<forall>j. tok_min fr \<le> j \<longrightarrow> j < k \<longrightarrow> obj_at j ix = Some None"
  shows "filter_iterate fr = None"
proof -
  have stop: "stop_tok fr = tok_max fr + 1" using assms(4) by (simp add: stop_tok_def take_bit_id)
  have "scan_tokens fr (tok_min fr) = Some (k, Some new_entry_list)"
    using scan_to_list [OF assms(1-3) _ assms(5)] assms(3,4,6) by simp
  then have "filter_begin fr = Some \<lparr>it_res = Some fr, cur_tok = k, cur_entry_list = Some new_entry_list, cur_idx = 0\<rparr>"
    using assms(1-3,6) stop by (simp add: filter_begin_def advance_def list_exhausted_def)
  then show ?thesis
    using assms(3) stop new_list_unwritten
    by (simp add: filter_iterate_def iterate_from.simps iter_eq_def filter_end_def iter_get_def)
qed

lemma no_entries_no_list:
  assumes "obj_ok ix" "k < 256 ^ obj_bytes ix" "obj_list k ix = []"
  shows "obj_at k ix = Some None"
proof -
  have c: "obj_covers k ix" using assms(2) by (simp add: obj_covers_iff)
  then obtain l where l: "obj_at k ix = Some l" using obj_at_total by auto
  show ?thesis using l assms(1,3) c by (cases l) (auto simp: obj_ok_def obj_list_Some)
qed

text \<open>
  C38. A poll that brings nothing breaks queries by time. On any store that satisfies the invariant
  the empty burst stores no packet, but when no packet was stored in the seconds from \<open>a\<close> to
  \<open>now\<close>, it leaves an empty list for \<open>now\<close>; a query for a range of seconds that starts at \<open>a\<close> and covers \<open>now\<close> then
  reads an entry that was never written.
\<close>

theorem idle_poll_breaks_time_query:
  assumes "pstore_ok s" "dtail (base s) < 2 ^ 40" "a < now" "now \<le> b" "b + 1 < 2 ^ 32"
    and "\<forall>k. a \<le> k \<longrightarrow> k \<le> now \<longrightarrow> index_entries (timestamp_idx_id s) k (base s) = []"
  shows "\<exists>s' fr. insert_pktburst L now [] s = Some s' \<and> num_pkts s' = num_pkts s
    \<and> log_filter_max (timestamp_idx_id s) a b (num_pkts s') (base s') = Some fr \<and> filter_iterate fr = None"
proof -
  have id: "ids_ok s" and iok: "indexes_ok (base s)" and ids: "num_pkts s < 2 ^ 34"
    and cur: "current_write_id (olog_of (base s)) = num_pkts s" "current_read_id (olog_of (base s)) = num_pkts s"
    using assms(1) by (simp_all add: pstore_ok_def num_pkts_def num_records_def num_ids_def)
  let ?p = "timestamp_ptr s" and ?iid = "timestamp_idx_id s"
  have ptr: "index_ptr ?iid (base s) = Some (Some ?p)" using ids_okD(5) [OF id] .
  note d = indexes_okD [OF iok ptr]
  have bytes: "obj_bytes (index_heap (base s) ! ?p) = 4" using d(3) ids_okD(10) [OF id] by simp
  obtain y where y: "index_heap (base s) ! ?p = Index4 y" using obj_bytes_4 [OF bytes] by blast
  have none: "obj_at k (Index4 y) = Some None" if "a \<le> k" "k \<le> now" for k
    using no_entries_no_list [of "Index4 y" k] d(2) y bytes assms(4-6) that ptr by (simp add: index_entries_def)
  obtain o' where o': "request_id_block 0 (olog_of (base s)) = Some ((olog_of (base s))\<lparr>offlens := o'\<rparr>, num_pkts s)"
    using request_nothing [of "olog_of (base s)"] ids cur by auto
  obtain dl where dl: "request_bytes 0 ((base s)\<lparr>olog_of := (olog_of (base s))\<lparr>offlens := o'\<rparr>\<rparr>)
      = Some ((base s)\<lparr>olog_of := (olog_of (base s))\<lparr>offlens := o'\<rparr>, dlog := dl\<rparr>, dtail (base s))"
    using request_bytes_alloc [of "(base s)\<lparr>olog_of := (olog_of (base s))\<lparr>offlens := o'\<rparr>\<rparr>" 0] assms(2) by auto
  obtain cix ci where cix: "time_get now (char_idx s) = Some (cix, ci)" using time_get_spec [of now] assms(4,5) by fastforce
  let ?b = "(base s)\<lparr>olog_of := (olog_of (base s))\<lparr>offlens := o'\<rparr>, dlog := dl\<rparr>"
  obtain ix where ix: "ptr_add_range ?p now (num_pkts s) (take_bit 64 (num_pkts s + (2 ^ 64 - 1))) ?b
      = Some (?b\<lparr>index_heap := (index_heap (base s))[?p := ix]\<rparr>)"
    "obj_at now ix = Some (Some new_entry_list)" "\<forall>k < 2 ^ 32. k \<noteq> now \<longrightarrow> obj_at k ix = obj_at k (Index4 y)"
    using idle_index [of now y "num_pkts s" ?p ?b] none [of now] assms(3-5) d(1) y ids by auto
  let ?b' = "?b\<lparr>index_heap := (index_heap (base s))[?p := ix]\<rparr>"
  have run: "insert_pktburst L now [] s = Some (s\<lparr>base := ?b', char_idx := cix\<rparr>)"
    using o' dl cix ix(1) end_block_none [of "(olog_of (base s))\<lparr>offlens := o'\<rparr>" "num_pkts s"] cur ids
    by (simp add: insert_pktburst_def burst_bytes_def)
  let ?fr = "\<lparr>fr_index = Some ix, tok_min = a, tok_max = b, max_rid = num_pkts s\<rparr>"
  have "index_ptr ?iid ?b' = Some (Some ?p)" using ptr by (simp add: index_ptr_def cong: option.case_cong)
  then have "log_filter_max ?iid a b (num_pkts s) ?b' = Some ?fr" using d(1) by (simp add: log_filter_max_def)
  moreover have "num_pkts (s\<lparr>base := ?b', char_idx := cix\<rparr>) = num_pkts s"
    by (simp add: num_pkts_def num_records_def num_ids_def)
  moreover have "filter_iterate ?fr = None"
    using empty_list_undefined [of ?fr ix now] assms(3-5) ix(2,3) none by simp
  ultimately show ?thesis using run by (intro exI [of _ "s\<lparr>base := ?b', char_idx := cix\<rparr>"] exI [of _ ?fr]) simp
qed

section \<open>Concrete runs\<close>

theorem writer_run_stores_witness:
  "\<exists>s w' s'. packet_store_init = Some s \<and> writer_run wire_layout [(1500000000, [tcp_pkt])] (netplay_writer 1, s) = Some (w', s')
    \<and> store_pkts s' = [(1500000000, tcp_bytes)] \<and> rec_pkts w' = 1"
proof -
  obtain s where s: "packet_store_init = Some s" "pstore_ok s" "burst_room wire_layout 1500000000 [tcp_pkt] s" "store_pkts s = []"
    using new_store_room by blast
  have c: "complete wire_layout s" using s(1) packet_store_init_complete [of wire_layout] by (metis option.inject)
  have "pkt_fields_of wire_layout (cells_of tcp_bytes) = pkt_fields_of wire_layout (mtod tcp_pkt)"
    by (rule arg_cong [where f = "pkt_fields_of wire_layout"]) (auto simp: cells_of_def tcp_pkt_def tcp_bytes_def)
  then have "headers_inside wire_layout tcp_pkt" using tcp_pkt_fields tcp_pkt_bytes by (simp add: headers_inside_def)
  then have "polls_room wire_layout [(1500000000, [tcp_pkt])] s" using s(3) by (simp add: BATCH_SIZE_def)
  from writer_run_stores [OF s(2) c this, of "netplay_writer 1"] show ?thesis
    using s(1,4) tcp_pkt_bytes by (auto simp: polled_pkts_def netplay_writer_def)
qed

theorem idle_poll_breaks_time_query_witness:
  "\<exists>s s' fr. packet_store_init = Some s \<and> insert_pktburst wire_layout 1500000000 [] s = Some s'
    \<and> log_filter_max (timestamp_idx_id s) 1499999990 1500000005 0 (base s') = Some fr \<and> filter_iterate fr = None"
proof -
  obtain s where s: "packet_store_init = Some s" "pstore_ok s" "num_pkts s = 0" "dtail (base s) = 0"
    "\<forall>j k. key_fits j k \<longrightarrow> index_entries j k (base s) = []"
    using packet_store_init_ok by (elim exE conjE) (rule that)
  have "key_fits (timestamp_idx_id s) k" if "k \<le> 1500000000" for k
    using that ids_okD(10) [of s] s(2) by (simp add: key_fits_def pstore_ok_def)
  then show ?thesis
    using idle_poll_breaks_time_query [OF s(2), of 1499999990 1500000000 1500000005 wire_layout] s by auto
qed

end
