(* ===== verification/Netplay_Daemon.thy ===== *)
theory Netplay_Daemon
  imports Address_Strings Netplay_Writer
begin

section \<open>Options of the daemon (netplayd.cc)\<close>

text \<open>
  The command line, and the writers that are started. \<open>getopt_long\<close> belongs to the C library: the list of what it returns, a
  flag it has set or an option with its argument, and the arguments that are left over, are arguments of
  the model. What \<open>main\<close> does after the options is in the theory \<open>Daemon_Start\<close>. A result is \<open>Inl\<close> when the process ends, with the message it prints, and \<open>None\<close> is
  undefined behaviour: \<open>atoi\<close> of a null pointer, or of a number that is not an \<open>int\<close>.
\<close>

subsection \<open>Writer mappings\<close>

text \<open>\<open>strsep\<close>: the field up to the separator, and the pointer behind it, null at the last field.\<close>

definition strsep :: "char \<Rightarrow> string option \<Rightarrow> string option \<times> string option" where
  "strsep sep str =
     (case str of
        None \<Rightarrow> (None, None)
      | Some s \<Rightarrow> (Some (takeWhile (\<lambda>c. c \<noteq> sep) s), if sep \<in> set s then Some (tl (dropWhile (\<lambda>c. c \<noteq> sep) s)) else None))"

definition atoi :: "string \<Rightarrow> int option" where
  "atoi s = (case scan_number s of
     None \<Rightarrow> Some 0
   | Some (v, _) \<Rightarrow> if - (2 ^ 31) \<le> v \<and> v < 2 ^ 31 then Some v else None)"

text \<open>A \<open>std::map\<close>: the entries in ascending order of their keys.\<close>

type_synonym interface_map = "(int \<times> string) list"

fun map_put :: "int \<Rightarrow> string \<Rightarrow> interface_map \<Rightarrow> interface_map" where
  "map_put k v [] = [(k, v)]"
| "map_put k v ((k', v') # m) =
     (if k < k' then (k, v) # (k', v') # m else if k = k' then (k, v) # m else (k', v') # map_put k v m)"

definition invalid_iface :: string where
  "invalid_iface = ''Could not parse writer mapping (invalid iface): (null)''"

lemma strsep_shorter: "strsep sep str = (field, Some rest) \<Longrightarrow> length rest < length (the str)"
proof (cases str)
  case (Some s)
  assume "strsep sep str = (field, Some rest)"
  then have "sep \<in> set s" "rest = tl (dropWhile (\<lambda>c. c \<noteq> sep) s)" using Some by (auto simp: strsep_def split: if_splits)
  then show ?thesis
    using Some dropWhile_eq_Nil_conv [of "\<lambda>c. c \<noteq> sep" s] length_dropWhile_le [of "\<lambda>c. c \<noteq> sep" s]
    by (cases "dropWhile (\<lambda>c. c \<noteq> sep) s") auto
qed (simp add: strsep_def)

text \<open>One entry, and the loop over the entries.\<close>

definition parse_entry :: "string \<Rightarrow> interface_map \<Rightarrow> interface_map result" where
  "parse_entry cur m =
     (case strsep CHR '':'' (Some cur) of (core_str, rest) \<Rightarrow>
        (case strsep CHR '':'' rest of
           (None, _) \<Rightarrow> rthrow invalid_iface
         | (Some iface, _) \<Rightarrow> do { core \<leftarrow> atoi (the core_str); rreturn (map_put core iface m) }))"

function parse_entries :: "string option \<Rightarrow> interface_map \<Rightarrow> interface_map result" where
  "parse_entries None m = rreturn m"
| "parse_entries (Some s) m =
     (case strsep CHR '','' (Some s) of (cur, rest) \<Rightarrow>
        rbind (parse_entry (the cur) m) (\<lambda>m'. parse_entries rest m'))"
  by pat_completeness auto
termination
proof (relation "measure (\<lambda>(s, m). case s of None \<Rightarrow> 0 | Some x \<Rightarrow> Suc (length x))")
  fix s m cur rest m'
  assume "(cur, rest) = strsep CHR '','' (Some s)"
  then show "((rest, m'), (Some s, m)) \<in> measure (\<lambda>(s, m). case s of None \<Rightarrow> 0 | Some x \<Rightarrow> Suc (length x))"
    using strsep_shorter [of "CHR '',''" "Some s" cur] by (cases rest) auto
qed simp

definition parse_writer_mapping :: "interface_map \<Rightarrow> string \<Rightarrow> interface_map result" where
  "parse_writer_mapping m mapping_str = parse_entries (Some mapping_str) m"

subsection \<open>The loop over the options\<close>

datatype getopt_event = Flag string | Opt char "string option"

record daemon_options =
  opt_detach :: bool
  opt_nochdir :: bool
  opt_bench :: bool
  master_core :: int
  query_server_port :: int
  writer_mapping :: interface_map
  pidfile :: "string option"
  logprefix :: "string option"

definition daemon_defaults :: daemon_options where
  "daemon_defaults = \<lparr>opt_detach = False, opt_nochdir = False, opt_bench = False, master_core = 0, query_server_port = 11001,
     writer_mapping = [], pidfile = None, logprefix = None\<rparr>"

definition default_pid_file :: string where
  "default_pid_file = ''/var/run/netplayd.pid''"

definition DEFAULT_LOG_DIR :: string where
  "DEFAULT_LOG_DIR = ''/var/log''"

text \<open>\<open>case 'l'\<close> has no \<open>break\<close>: it goes on with \<open>case 'm'\<close>.\<close>

definition set_master_core :: "string option \<Rightarrow> daemon_options \<Rightarrow> daemon_options result" where
  "set_master_core optarg opts = do { arg \<leftarrow> optarg; v \<leftarrow> atoi arg; rreturn (opts\<lparr>master_core := v\<rparr>) }"

definition daemon_option :: "getopt_event \<Rightarrow> daemon_options \<Rightarrow> daemon_options result" where
  "daemon_option ev opts =
     (case ev of
        Flag f \<Rightarrow> rreturn (if f = ''detach'' then opts\<lparr>opt_detach := True\<rparr> else if f = ''no-chdir'' then opts\<lparr>opt_nochdir := True\<rparr>
                           else if f = ''bench'' then opts\<lparr>opt_bench := True\<rparr> else opts)
      | Opt c optarg \<Rightarrow>
          (if c = CHR ''p'' then rreturn (opts\<lparr>pidfile := Some (case optarg of Some a \<Rightarrow> a | None \<Rightarrow> default_pid_file)\<rparr>)
           else if c = CHR ''l'' then
             set_master_core optarg (opts\<lparr>logprefix := Some (case optarg of Some a \<Rightarrow> a | None \<Rightarrow> DEFAULT_LOG_DIR)\<rparr>)
           else if c = CHR ''m'' then set_master_core optarg opts
           else if c = CHR ''w'' then do {
             arg \<leftarrow> optarg; rbind (parse_writer_mapping (writer_mapping opts) arg) (\<lambda>m. rreturn (opts\<lparr>writer_mapping := m\<rparr>)) }
           else if c = CHR ''q'' then do { arg \<leftarrow> optarg; v \<leftarrow> atoi arg; rreturn (opts\<lparr>query_server_port := v\<rparr>) }
           else if c = CHR ''h'' then rthrow ''netplayd: Open NetPlay daemon''
           else if c = CHR '':'' \<or> c = CHR ''?'' then rthrow ''Try `netplayd --help' for more information.''
           else rthrow (''netplayd: invalid option -- '' @ [c])))"

fun daemon_options_loop :: "getopt_event list \<Rightarrow> daemon_options \<Rightarrow> daemon_options result" where
  "daemon_options_loop [] opts = rreturn opts"
| "daemon_options_loop (ev # evs) opts = rbind (daemon_option ev opts) (\<lambda>opts'. daemon_options_loop evs opts')"

definition daemon_args :: "getopt_event list \<Rightarrow> string list \<Rightarrow> (daemon_options \<times> string) result" where
  "daemon_args evs rest = rbind (daemon_options_loop evs daemon_defaults) (\<lambda>opts.
     case rest of
       [vswitch] \<Rightarrow>
         rreturn (opts, vswitch)
     | _ \<Rightarrow> rthrow ''netplayd expects a single INTERFACE argument'')"

subsection \<open>Starting the writers (netplayd.h)\<close>

text \<open>
  \<open>start\<close> walks over the mapping; the first use of an interface creates its port. Ports are numbered in
  the order they are created. One writer thread per entry polls its port.
\<close>

type_synonym port_map = "string \<rightharpoonup> nat"

definition daemon_port :: "string \<Rightarrow> port_map \<times> nat \<Rightarrow> (port_map \<times> nat) \<times> nat" where
  "daemon_port iface ps =
     (case fst ps iface of
        Some v \<Rightarrow> (ps, v)
      | None \<Rightarrow> ((((fst ps)(iface \<mapsto> snd ps)), snd ps + 1), snd ps))"

fun daemon_start :: "interface_map \<Rightarrow> port_map \<times> nat \<Rightarrow> (port_map \<times> nat) \<times> (writer \<times> nat) list" where
  "daemon_start [] ps = (ps, [])"
| "daemon_start ((core, iface) # m) ps =
     (case daemon_port iface ps of (ps1, vport) \<Rightarrow>
        (case daemon_start m ps1 of (ps2, ws) \<Rightarrow> (ps2, (netplay_writer core, vport) # ws)))"

section \<open>Reading a mapping\<close>

definition print_entry :: "int \<times> string \<Rightarrow> string" where
  "print_entry e = dec_digits (nat (fst e)) @ '':'' @ snd e"

fun print_mapping :: "interface_map \<Rightarrow> string" where
  "print_mapping [] = []"
| "print_mapping [e] = print_entry e"
| "print_mapping (e # e' # m) = print_entry e @ '','' @ print_mapping (e' # m)"

definition entry_plain :: "int \<times> string \<Rightarrow> bool" where
  "entry_plain e \<longleftrightarrow> 0 \<le> fst e \<and> fst e < 2 ^ 31 \<and> CHR '','' \<notin> set (snd e) \<and> CHR '':'' \<notin> set (snd e)"

lemma strsep_plain: "sep \<notin> set s \<Longrightarrow> strsep sep (Some s) = (Some s, None)"
  by (auto simp: strsep_def takeWhile_eq_all_conv)

lemma strsep_split: "sep \<notin> set s \<Longrightarrow> strsep sep (Some (s @ sep # r)) = (Some s, Some r)"
  by (simp add: strsep_def takeWhile_append dropWhile_append takeWhile_eq_all_conv)

lemma digits_plain: "CHR '':'' \<notin> set (dec_digits n)" "CHR '','' \<notin> set (dec_digits n)"
  using dec_digits_digits digit_plain(6,7) by blast+

lemma map_put_last: "\<forall>e \<in> set m. fst e < k \<Longrightarrow> map_put k v m = m @ [(k, v)]"
  by (induction k v m rule: map_put.induct) auto

lemma parse_print_entry:
  assumes "entry_plain e"
  shows "parse_entry (print_entry e) m = Some (Inr (map_put (fst e) (snd e) m))"
proof -
  have "strsep CHR '':'' (Some (print_entry e)) = (Some (dec_digits (nat (fst e))), Some (snd e))"
    using strsep_split [OF digits_plain(1), of "nat (fst e)" "snd e"] by (simp add: print_entry_def)
  moreover have "strsep CHR '':'' (Some (snd e)) = (Some (snd e), None)" using assms by (intro strsep_plain) (simp add: entry_plain_def)
  moreover have "atoi (dec_digits (nat (fst e))) = Some (fst e)"
    using assms by (simp add: atoi_def scan_digits_end entry_plain_def)
  ultimately show ?thesis by (simp add: parse_entry_def rreturn_def)
qed

lemma print_entry_no_comma: "entry_plain e \<Longrightarrow> CHR '','' \<notin> set (print_entry e)"
  using digits_plain(2) by (simp add: print_entry_def entry_plain_def)

lemma parse_print_from:
  assumes "m \<noteq> []" "\<forall>e \<in> set m. entry_plain e" "sorted_wrt (<) (map fst (acc @ m))"
  shows "parse_entries (Some (print_mapping m)) acc = Some (Inr (acc @ m))"
  using assms
proof (induction m arbitrary: acc rule: print_mapping.induct)
  case (2 e)
  have "map_put (fst e) (snd e) acc = acc @ [e]" using "2.prems"(3) by (subst map_put_last) (auto simp: sorted_wrt_append)
  then show ?case
    using "2.prems"(2) strsep_plain [OF print_entry_no_comma] parse_print_entry
    by (simp add: rbind_def rreturn_def)
next
  case (3 e e' m)
  have put: "map_put (fst e) (snd e) acc = acc @ [e]" using "3.prems"(3) by (subst map_put_last) (auto simp: sorted_wrt_append)
  have "parse_entries (Some (print_mapping (e' # m))) (acc @ [e]) = Some (Inr ((acc @ [e]) @ e' # m))"
    using "3.IH" [of "acc @ [e]"] "3.prems" by simp
  then show ?case
    using "3.prems"(2) strsep_split [OF print_entry_no_comma, of e "print_mapping (e' # m)"] parse_print_entry put
    by (simp add: rbind_def)
qed simp

text \<open>
  A printed writer mapping is read back. For a nonempty mapping in ascending order of its cores,
  with cores that are nonnegative \<open>int\<close>s and interface names without comma and colon, parsing the list
  \<open>core:interface,...\<close> gives the mapping.
\<close>

theorem writer_mapping_round_trip:
  assumes "m \<noteq> []" "list_all entry_plain m" "sorted_wrt (<) (map fst m)"
  shows "parse_writer_mapping [] (print_mapping m) = Some (Inr m)"
  using parse_print_from [of m "[]"] assms by (simp add: parse_writer_mapping_def list_all_iff)

theorem writer_mapping_round_trip_witness:
  "parse_writer_mapping [] (print_mapping [(1, ''ring0''), (12, ''ring1'')]) = Some (Inr [(1, ''ring0''), (12, ''ring1'')])"
  by (rule writer_mapping_round_trip) (simp_all add: entry_plain_def)

section \<open>Options\<close>

text \<open>
  The option for the log directory sets the master core. \<^verbatim>\<open>--log-dir=PATH\<close> with an absolute path
  sets the directory and resets the core to 0; without a path it reads a number from a null pointer.
\<close>

theorem log_dir_resets_master_core:
  "daemon_option (Opt CHR ''l'' (Some (CHR ''/'' # path))) opts
     = Some (Inr (opts\<lparr>logprefix := Some (CHR ''/'' # path), master_core := 0\<rparr>))
   \<and> daemon_option (Opt CHR ''l'' None) opts = None"
proof -
  have "scan_number (CHR ''/'' # path) = None" by (simp add: scan_number_def is_space_def is_digit_def)
  then show ?thesis by (simp add: daemon_option_def set_master_core_def atoi_def rreturn_def)
qed

section \<open>Ports\<close>

definition ports_ok :: "port_map \<times> nat \<Rightarrow> bool" where
  "ports_ok ps \<longleftrightarrow> finite (dom (fst ps)) \<and> ran (fst ps) = {..<snd ps} \<and> inj_on (fst ps) (dom (fst ps)) \<and> card (dom (fst ps)) = snd ps"

lemma daemon_port_spec:
  assumes "ports_ok ps" "daemon_port iface ps = (ps', v)"
  shows "ports_ok ps' \<and> dom (fst ps') = insert iface (dom (fst ps)) \<and> fst ps' iface = Some v \<and> fst ps \<subseteq>\<^sub>m fst ps'"
proof (cases "fst ps iface")
  case None
  then have ps': "ps' = ((fst ps)(iface \<mapsto> snd ps), snd ps + 1)" "v = snd ps" using assms(2) by (auto simp: daemon_port_def)
  have ni: "iface \<notin> dom (fst ps)" using None by (simp add: domIff)
  have ran: "ran (fst ps) = {..<snd ps}" and fin: "finite (dom (fst ps))" "card (dom (fst ps)) = snd ps"
    and inj: "inj_on (fst ps) (dom (fst ps))" using assms(1) by (simp_all add: ports_ok_def)
  have "fst ps x \<noteq> Some (snd ps)" for x using ran by (auto simp: ran_def)
  then have "inj_on ((fst ps)(iface \<mapsto> snd ps)) (insert iface (dom (fst ps)))"
    using inj ni by (intro inj_onI) (auto simp: inj_on_def split: if_splits)
  moreover have "ran ((fst ps)(iface \<mapsto> snd ps)) = {..<snd ps + 1}" using ran None by (auto simp: lessThan_Suc)
  ultimately show ?thesis
    using ps' fin ni None by (auto simp: ports_ok_def map_le_def)
next
  case (Some x)
  then show ?thesis using assms by (auto simp: daemon_port_def)
qed

lemma daemon_start_spec:
  assumes "ports_ok ps" "daemon_start m ps = (ps', ws)"
  shows "ports_ok ps' \<and> dom (fst ps') = dom (fst ps) \<union> snd ` set m \<and> fst ps \<subseteq>\<^sub>m fst ps'
    \<and> list_all2 (\<lambda>e w. writer_core (fst w) = fst e \<and> fst ps' (snd e) = Some (snd w)) m ws"
  using assms
proof (induction m arbitrary: ps ps' ws)
  case (Cons e m)
  obtain core iface where e: "e = (core, iface)" by (cases e)
  obtain ps1 v where p1: "daemon_port iface ps = (ps1, v)" by fastforce
  obtain ps2 ws' where s: "daemon_start m ps1 = (ps2, ws')" by fastforce
  note sp = daemon_port_spec [OF Cons.prems(1) p1]
  have out: "ps' = ps2" "ws = (netplay_writer core, v) # ws'" using Cons.prems(2) e p1 s by simp_all
  have ih: "ports_ok ps2 \<and> dom (fst ps2) = dom (fst ps1) \<union> snd ` set m \<and> fst ps1 \<subseteq>\<^sub>m fst ps2
    \<and> list_all2 (\<lambda>e w. writer_core (fst w) = fst e \<and> fst ps2 (snd e) = Some (snd w)) m ws'"
    using Cons.IH [OF _ s] sp by blast
  then have "fst ps2 iface = Some v" using sp by (auto simp: map_le_def dom_def)
  then show ?case using ih sp out e by (auto simp: netplay_writer_def intro: map_le_trans)
qed simp

text \<open>
  The daemon starts one writer per core, on one port per interface. The writers run on the cores of
  the mapping, in its order; two writers poll the same port exactly if they have the same interface,
  and there are as many ports as interfaces.
\<close>

theorem daemon_start_ports:
  assumes "daemon_start m (Map.empty, 0) = ((pm, n), ws)"
  shows "map (writer_core \<circ> fst) ws = map fst m \<and> n = card (snd ` set m)
    \<and> (\<forall>i < length m. \<forall>j < length m. snd (ws ! i) = snd (ws ! j) \<longleftrightarrow> snd (m ! i) = snd (m ! j))"
proof -
  have init: "ports_ok (Map.empty, 0)" by (simp add: ports_ok_def)
  have r: "ports_ok (pm, n)" "dom pm = snd ` set m"
    "list_all2 (\<lambda>e w. writer_core (fst w) = fst e \<and> pm (snd e) = Some (snd w)) m ws"
    using daemon_start_spec [OF init assms] by auto
  have nth: "length ws = length m" "\<And>i. i < length m \<Longrightarrow> writer_core (fst (ws ! i)) = fst (m ! i) \<and> pm (snd (m ! i)) = Some (snd (ws ! i))"
    using r(3) by (auto simp: list_all2_conv_all_nth)
  have "snd (ws ! i) = snd (ws ! j) \<longleftrightarrow> snd (m ! i) = snd (m ! j)" if "i < length m" "j < length m" for i j
    using nth(2) [OF that(1)] nth(2) [OF that(2)] r(1) by (auto simp: ports_ok_def inj_on_def dom_def)
  moreover have "map (writer_core \<circ> fst) ws = map fst m" using nth by (intro nth_equalityI) simp_all
  ultimately show ?thesis using r(1,2) by (simp add: ports_ok_def)
qed

theorem daemon_start_ports_witness:
  "\<exists>pm ws. daemon_start [(1, ''r0''), (2, ''r1''), (3, ''r0'')] (Map.empty, 0) = ((pm, 2), ws)
     \<and> snd (ws ! 0) = snd (ws ! 2) \<and> snd (ws ! 0) \<noteq> snd (ws ! 1)"
proof -
  let ?m = "[(1, ''r0''), (2, ''r1''), (3 :: int, ''r0'')]"
  obtain pm n ws where r: "daemon_start ?m (Map.empty, 0) = ((pm, n), ws)" by (metis prod.exhaust)
  have "n = card (snd ` set ?m)"
    "\<forall>i < length ?m. \<forall>j < length ?m. snd (ws ! i) = snd (ws ! j) \<longleftrightarrow> snd (?m ! i) = snd (?m ! j)"
    using daemon_start_ports [OF r] by blast+
  moreover have "card (snd ` set ?m) = 2" by (simp add: card_insert_if)
  ultimately have "n = 2" "snd (ws ! 0) = snd (ws ! 2)" "snd (ws ! 0) \<noteq> snd (ws ! 1)" by (auto simp: numeral_eq_Suc)
  then show ?thesis using r by blast
qed

end
