(* ===== verification/Traffic_Generator.thy ===== *)
theory Traffic_Generator
  imports Complex_Main Prelude
begin

section \<open>Packet generator and rate limits (pktgen, bench)\<close>

text \<open>
  The token bucket and the loop of the packet generator, the pacer, the loop of the rate limiter and the Zipf
  generator of the benchmarks. A \<open>double\<close> is the real number it stands for, and every arithmetic operation and every
  conversion from an integer rounds its exact result: the rounding of the machine is the parameter
  \<open>rnd\<close>. Clock readings and what the port reports as sent are arguments.
\<close>

text \<open>Rounding is monotone, keeps what is representable, and zero is representable.\<close>

definition fp_rounding :: "(real \<Rightarrow> real) \<Rightarrow> bool" where
  "fp_rounding rnd \<longleftrightarrow> mono rnd \<and> (\<forall>x. rnd (rnd x) = rnd x) \<and> rnd 0 = 0"

text \<open>The difference of two 64-bit values.\<close>

definition sub64 :: "nat \<Rightarrow> nat \<Rightarrow> nat" where
  "sub64 a b = take_bit 64 (a + (2 ^ 64 - b))"

subsection \<open>The token bucket (token_bucket.h)\<close>

record token_bucket =
  last_fill_time :: nat
  fill_rate :: real
  available_tokens :: real
  capacity :: real

definition token_bucket_new :: "(real \<Rightarrow> real) \<Rightarrow> nat \<Rightarrow> nat \<Rightarrow> nat \<Rightarrow> token_bucket" where
  "token_bucket_new rnd now rate max_burst =
     \<lparr>last_fill_time = now, fill_rate = rnd (rnd (real rate) / 1000000), available_tokens = rnd (real max_burst),
      capacity = rnd (real max_burst)\<rparr>"

definition consume :: "(real \<Rightarrow> real) \<Rightarrow> nat \<Rightarrow> nat \<Rightarrow> token_bucket \<Rightarrow> token_bucket \<times> bool" where
  "consume rnd now requested_tokens b =
     (let delta = rnd (fill_rate b * rnd (real (sub64 now (last_fill_time b))));
          avail = min (capacity b) (rnd (available_tokens b + delta));
          b1 = b\<lparr>available_tokens := avail, last_fill_time := now\<rparr>
      in if rnd (real requested_tokens) < avail
         then (b1\<lparr>available_tokens := rnd (avail - rnd (real requested_tokens))\<rparr>, True)
         else (b1, False))"

subsection \<open>The packet generator (pktgen.h)\<close>

definition TOKEN_BUCKET_CAPACITY :: nat where "TOKEN_BUCKET_CAPACITY = 64"
definition RTE_BURST_SIZE :: nat where "RTE_BURST_SIZE = 32"
definition REPORT_INTERVAL :: nat where "REPORT_INTERVAL = 100000000"

record packet_generator =
  gen_rate :: nat
  time_limit :: nat
  pkt_limit :: nat
  sent_pkts :: nat
  tot_sent_pkts :: nat
  bucket :: token_bucket

definition packet_generator_new :: "(real \<Rightarrow> real) \<Rightarrow> nat \<Rightarrow> nat \<Rightarrow> nat \<Rightarrow> nat \<Rightarrow> packet_generator" where
  "packet_generator_new rnd now rate tlimit plimit =
     \<lparr>gen_rate = rate, time_limit = tlimit, pkt_limit = plimit, sent_pkts = 0, tot_sent_pkts = 0,
      bucket = token_bucket_new rnd now rate TOKEN_BUCKET_CAPACITY\<rparr>"

text \<open>One turn: the clock the bucket reads and the number of packets the port sends are given.\<close>

definition gen_send :: "nat \<Rightarrow> packet_generator \<Rightarrow> packet_generator" where
  "gen_send sent g = g\<lparr>sent_pkts := take_bit 64 (sent_pkts g + sent), tot_sent_pkts := take_bit 64 (tot_sent_pkts g + sent)\<rparr>"

definition gen_grant :: "(real \<Rightarrow> real) \<Rightarrow> nat \<Rightarrow> packet_generator \<Rightarrow> packet_generator \<times> bool" where
  "gen_grant rnd tb g =
     (if gen_rate g = 0 then (g, True)
      else (case consume rnd tb RTE_BURST_SIZE (bucket g) of (b, ok) \<Rightarrow> (g\<lparr>bucket := b\<rparr>, ok)))"

definition gen_report :: "packet_generator \<Rightarrow> packet_generator" where
  "gen_report g = (if REPORT_INTERVAL \<le> sent_pkts g then g\<lparr>sent_pkts := 0\<rparr> else g)"

definition gen_turn :: "(real \<Rightarrow> real) \<Rightarrow> nat \<Rightarrow> nat \<Rightarrow> packet_generator \<Rightarrow> packet_generator" where
  "gen_turn rnd tb sent g =
     (case gen_grant rnd tb g of (g1, ok) \<Rightarrow> gen_report (if ok then gen_send sent g1 else g1))"

lemmas gen_turn_defs = gen_turn_def gen_grant_def gen_report_def gen_send_def

text \<open>
  The loop, over the readings \<open>(now, tb, sent)\<close> of its turns; \<open>None\<close> when it has not ended with
  the last of them.
\<close>

definition gen_running :: "nat \<Rightarrow> nat \<Rightarrow> packet_generator \<Rightarrow> bool" where
  "gen_running start now g \<longleftrightarrow> (time_limit g = 0 \<or> sub64 now start < time_limit g) \<and> tot_sent_pkts g < pkt_limit g"

fun generate :: "(real \<Rightarrow> real) \<Rightarrow> nat \<Rightarrow> (nat \<times> nat \<times> nat) list \<Rightarrow> packet_generator \<Rightarrow> packet_generator option" where
  "generate rnd start [] g = None"
| "generate rnd start ((now, tb, sent) # ts) g =
     (if gen_running start now g then generate rnd start ts (gen_turn rnd tb sent g) else Some g)"

subsection \<open>The pacer (rate_limiter.h)\<close>

record pacer =
  num_ops :: nat
  batch_size :: nat
  min_batch_ns :: nat
  pacer_epoch :: nat

definition pacer_new :: "nat \<Rightarrow> nat \<Rightarrow> nat \<Rightarrow> pacer" where
  "pacer_new bsize batch_ms now =
     \<lparr>num_ops = 0, batch_size = bsize, min_batch_ns = take_bit 64 (batch_ms * 1000000), pacer_epoch = now\<rparr>"

text \<open>\<open>pace\<close> with the nanoseconds it asks \<open>nanosleep\<close> for; \<open>now\<close> and \<open>after\<close> are the clock before and after.\<close>

definition pace :: "nat \<Rightarrow> nat \<Rightarrow> pacer \<Rightarrow> pacer \<times> nat option" where
  "pace now after p =
     (let ops = take_bit 64 (num_ops p + 1); p1 = p\<lparr>num_ops := ops\<rparr> in
      if 0 < batch_size p \<and> ops mod batch_size p = 0
      then (let batch_ns = sub64 now (pacer_epoch p) in
            (p1\<lparr>pacer_epoch := after\<rparr>, if batch_ns < min_batch_ns p then Some (min_batch_ns p - batch_ns) else None))
      else (p1, None))"

text \<open>\<open>nanosleep\<close> refuses a request whose nanoseconds do not fit below one second; the code puts the whole time there.\<close>

definition nanosleep_sleeps :: "nat \<Rightarrow> nat" where
  "nanosleep_sleeps ns = (if ns \<le> 999999999 then ns else 0)"

subsection \<open>The rate limiter (rate_limiter.h)\<close>

record rate_limiter =
  rl_rate :: nat
  rl_pkt_limit :: nat
  rl_tot_sent_pkts :: nat

definition rate_limiter_new :: "nat \<Rightarrow> nat \<Rightarrow> rate_limiter" where
  "rate_limiter_new rate limit = \<lparr>rl_rate = rate, rl_pkt_limit = limit, rl_tot_sent_pkts = 0\<rparr>"

definition rl_min_batch_ns :: "(real \<Rightarrow> real) \<Rightarrow> nat \<Rightarrow> nat \<Rightarrow> real" where
  "rl_min_batch_ns rnd bsize rate = (if rate \<noteq> 0 then rnd (rnd (1000000000 * rnd (real bsize)) / rnd (real rate)) else 0)"

text \<open>
  One turn with the packets sent and the clock before and after the pause: the new state, the new epoch, and
  the nanoseconds asked for, the difference converted to an integer.
\<close>

definition rl_turn ::
  "(real \<Rightarrow> real) \<Rightarrow> nat \<Rightarrow> nat \<times> nat \<times> nat \<Rightarrow> rate_limiter \<times> nat \<Rightarrow> (rate_limiter \<times> nat) \<times> int option" where
  "rl_turn rnd bsize t ge =
     (case t of (sent, now, after) \<Rightarrow>
      (let tot = take_bit 64 (rl_tot_sent_pkts (fst ge) + sent); g = (fst ge)\<lparr>rl_tot_sent_pkts := tot\<rparr>;
           min_ns = rl_min_batch_ns rnd bsize (rl_rate g); batch_ns = int now - int (snd ge) in
       if rl_rate g \<noteq> 0 \<and> tot mod bsize = 0
       then ((g, after), if rnd (real_of_int batch_ns) < min_ns then Some \<lfloor>rnd (min_ns - rnd (real_of_int batch_ns))\<rfloor> else None)
       else ((g, snd ge), None)))"

fun rl_generate :: "(real \<Rightarrow> real) \<Rightarrow> nat \<Rightarrow> (nat \<times> nat \<times> nat) list \<Rightarrow> rate_limiter \<times> nat \<Rightarrow> rate_limiter option" where
  "rl_generate rnd bsize [] ge = (if rl_tot_sent_pkts (fst ge) < rl_pkt_limit (fst ge) then None else Some (fst ge))"
| "rl_generate rnd bsize (t # ts) ge =
     (if rl_tot_sent_pkts (fst ge) < rl_pkt_limit (fst ge) then rl_generate rnd bsize ts (fst (rl_turn rnd bsize t ge))
      else Some (fst ge))"

subsection \<open>The Zipf generator (rand_generators.h)\<close>

text \<open>\<open>next\<close>: the search for the random number in the cumulative distribution.\<close>

partial_function (option) zipf_search :: "real list \<Rightarrow> real \<Rightarrow> nat \<Rightarrow> nat \<Rightarrow> nat option" where
  "zipf_search zdist r lo hi =
     (if lo \<noteq> hi then
        (let mid = (lo + hi) div 2 in
         if mid < length zdist
         then (if zdist ! mid \<le> r then zipf_search zdist r (mid + 1) hi else zipf_search zdist r lo mid)
         else None)
      else Some lo)"

definition zipf_next :: "real list \<Rightarrow> real \<Rightarrow> nat option" where
  "zipf_next zdist r = zipf_search zdist r 0 (length zdist)"

section \<open>Properties\<close>

definition bucket_ok :: "(real \<Rightarrow> real) \<Rightarrow> token_bucket \<Rightarrow> bool" where
  "bucket_ok rnd b \<longleftrightarrow> 0 \<le> available_tokens b \<and> available_tokens b \<le> capacity b \<and> 0 \<le> fill_rate b
     \<and> rnd (available_tokens b) = available_tokens b \<and> rnd (capacity b) = capacity b"

lemma fp_roundingD:
  assumes "fp_rounding rnd"
  shows "x \<le> y \<Longrightarrow> rnd x \<le> rnd y" "rnd (rnd x) = rnd x" "rnd 0 = 0" "0 \<le> x \<Longrightarrow> 0 \<le> rnd x"
proof -
  show m: "x \<le> y \<Longrightarrow> rnd x \<le> rnd y" for x y using assms by (auto simp: fp_rounding_def mono_def)
  show "rnd (rnd x) = rnd x" and z: "rnd 0 = 0" using assms by (auto simp: fp_rounding_def)
  show "0 \<le> x \<Longrightarrow> 0 \<le> rnd x" using m [of 0 x] z by simp
qed

lemma bucket_ok_new: "fp_rounding rnd \<Longrightarrow> bucket_ok rnd (token_bucket_new rnd now rate n)"
  using fp_roundingD by (simp add: bucket_ok_def token_bucket_new_def)

lemma bucket_ok_consume:
  assumes "fp_rounding rnd" "bucket_ok rnd b" "consume rnd now n b = (b', ok)"
  shows "bucket_ok rnd b'" "capacity b' = capacity b" "ok \<Longrightarrow> rnd (real n) < capacity b"
proof -
  note f = fp_roundingD [OF assms(1)]
  define avail where "avail = min (capacity b) (rnd (available_tokens b + rnd (fill_rate b * rnd (real (sub64 now (last_fill_time b))))))"
  have pos: "0 \<le> avail" and cap: "avail \<le> capacity b" and rep: "rnd avail = avail"
    using assms(2) f by (auto simp: avail_def bucket_ok_def min_def)
  define r where "r = rnd (real n)"
  have r: "0 \<le> r" using f(4) [of "real n"] by (simp add: r_def)
  have take: "0 \<le> rnd (avail - r)" "rnd (avail - r) \<le> avail" if "r < avail"
    using that f(4) [of "avail - r"] f(1) [of "avail - r" avail] r rep by simp_all
  have out: "(b', ok) = (if r < avail then (b\<lparr>available_tokens := rnd (avail - r), last_fill_time := now\<rparr>, True)
      else (b\<lparr>available_tokens := avail, last_fill_time := now\<rparr>, False))"
    using assms(3) unfolding consume_def Let_def avail_def [symmetric] r_def [symmetric] by (auto split: if_splits)
  show "bucket_ok rnd b'" using out assms(2) pos cap rep take f(2) by (auto simp: bucket_ok_def split: if_splits)
  show "capacity b' = capacity b" using out by (auto split: if_splits)
  show "ok \<Longrightarrow> rnd (real n) < capacity b" using out cap by (auto simp: r_def split: if_splits)
qed

lemma generate_bound:
  assumes "fp_rounding rnd" "bucket_ok rnd (bucket g)" "pkt_limit g + 31 < 2 ^ 64" "tot_sent_pkts g \<le> pkt_limit g + 31"
    and "list_all (\<lambda>(now, tb, sent). sent \<le> RTE_BURST_SIZE) ts" "generate rnd start ts g = Some g'"
  shows "tot_sent_pkts g' \<le> pkt_limit g + 31 \<and> bucket_ok rnd (bucket g')
    \<and> (\<exists>(now, tb, sent) \<in> set ts. pkt_limit g \<le> tot_sent_pkts g' \<or> 0 < time_limit g \<and> time_limit g \<le> sub64 now start)"
  using assms(2-6)
proof (induction ts arbitrary: g)
  case (Cons t ts)
  obtain now tb sent where t: "t = (now, tb, sent)" by (cases t)
  show ?case
  proof (cases "gen_running start now g")
    case False
    then show ?thesis using Cons.prems t by (auto simp: gen_running_def)
  next
    case True
    let ?g = "gen_turn rnd tb sent g"
    have sent: "sent \<le> 32" using Cons.prems(4) t by (simp add: RTE_BURST_SIZE_def)
    have lim: "pkt_limit ?g = pkt_limit g" "time_limit ?g = time_limit g"
      by (simp_all add: gen_turn_defs case_prod_beta)
    have "bucket_ok rnd (bucket ?g)"
      using bucket_ok_consume(1) [OF assms(1) Cons.prems(1)] Cons.prems(1)
      by (cases "consume rnd tb RTE_BURST_SIZE (bucket g)") (auto simp: gen_turn_defs)
    moreover have "tot_sent_pkts ?g \<le> pkt_limit g + 31"
    proof -
      have "tot_sent_pkts g + sent \<le> pkt_limit g + 31" using True sent by (simp add: gen_running_def)
      then have "take_bit 64 (tot_sent_pkts g + sent) \<le> pkt_limit g + 31" by (meson le_trans take_bit_nat_less_eq_self)
      then show ?thesis using Cons.prems(3) by (auto simp: gen_turn_defs case_prod_beta)
    qed
    ultimately show ?thesis
      using Cons.IH [of ?g] Cons.prems True t lim by auto
  qed
qed simp



text \<open>A bucket never grants its whole capacity at once.\<close>

lemma consume_capacity_refused:
  assumes "fp_rounding rnd" "bucket_ok rnd b" "capacity b \<le> rnd (real n)"
  shows "\<not> snd (consume rnd now n b)"
  using bucket_ok_consume(3) [OF assms(1,2), of now n] assms(3) by (cases "consume rnd now n b") auto

subsection \<open>Pacing\<close>

text \<open>
  The pacer waits for the rest of a short batch, and not at all for the rest of a long one. At
  every multiple of the batch size it asks for exactly the time left; if that is a second or more the
  request is invalid and the thread does not sleep.
\<close>

lemma pacer_sleeps_rest:
  assumes "num_ops p + 1 < 2 ^ 64" "0 < batch_size p" "batch_size p dvd num_ops p + 1" "pacer_epoch p \<le> now" "now < 2 ^ 64"
    and "now - pacer_epoch p < min_batch_ns p"
  shows "\<exists>ns. snd (pace now after p) = Some ns \<and> now + ns = pacer_epoch p + min_batch_ns p
    \<and> (nanosleep_sleeps ns = ns \<longleftrightarrow> ns \<le> 999999999) \<and> (999999999 < ns \<longrightarrow> nanosleep_sleeps ns = 0)"
proof -
  have "now + (2 ^ 64 - pacer_epoch p) = (now - pacer_epoch p) + 2 ^ 64" using assms(4,5) by simp
  then have "sub64 now (pacer_epoch p) = now - pacer_epoch p"
    using assms(5) unfolding sub64_def take_bit_eq_mod by (simp only: mod_add_self2) simp
  moreover have "take_bit 64 (num_ops p + 1) mod batch_size p = 0" using assms(1,3) by (simp add: take_bit_64_id mod_eq_0_iff_dvd)
  ultimately have "snd (pace now after p) = Some (min_batch_ns p - (now - pacer_epoch p))"
    using assms(2,6) by (simp add: pace_def Let_def)
  then show ?thesis using assms(4,6) by (auto simp: nanosleep_sleeps_def)
qed

subsection \<open>Searching the distribution\<close>

lemma zipf_search_spec:
  assumes "sorted zdist" "lo \<le> hi" "hi \<le> length zdist" "\<forall>i < lo. zdist ! i \<le> r" "\<forall>i. hi \<le> i \<longrightarrow> i < length zdist \<longrightarrow> r < zdist ! i"
  shows "\<exists>k. zipf_search zdist r lo hi = Some k \<and> lo \<le> k \<and> k \<le> hi \<and> (\<forall>i < k. zdist ! i \<le> r)
    \<and> (\<forall>i. k \<le> i \<longrightarrow> i < length zdist \<longrightarrow> r < zdist ! i)"
  using assms(2-5)
proof (induction "hi - lo" arbitrary: lo hi rule: less_induct)
  case less
  show ?case
  proof (cases "lo = hi")
    case True
    then show ?thesis using less.prems by (simp add: zipf_search.simps)
  next
    case False
    let ?mid = "(lo + hi) div 2"
    have mid: "lo \<le> ?mid" "?mid < hi" using False less.prems(1) by simp_all
    then have len: "?mid < length zdist" and dec: "hi - (?mid + 1) < hi - lo" "?mid - lo < hi - lo" using less.prems(2) by auto
    show ?thesis
    proof (cases "zdist ! ?mid \<le> r")
      case True
      have step: "zipf_search zdist r lo hi = zipf_search zdist r (?mid + 1) hi"
        using False len True by (simp add: zipf_search.simps [of zdist r lo hi] Let_def)
      have "zdist ! i \<le> r" if "i < ?mid + 1" for i
        using sorted_nth_mono [OF assms(1), of i ?mid] that len True by simp
      then obtain k where "zipf_search zdist r (?mid + 1) hi = Some k" "?mid + 1 \<le> k" "k \<le> hi" "\<forall>i < k. zdist ! i \<le> r"
        "\<forall>i. k \<le> i \<longrightarrow> i < length zdist \<longrightarrow> r < zdist ! i"
        using less.hyps [OF dec(1)] mid less.prems by auto
      then show ?thesis using step mid by auto
    next
      case False
      have step: "zipf_search zdist r lo hi = zipf_search zdist r lo ?mid"
        using \<open>lo \<noteq> hi\<close> len False by (simp add: zipf_search.simps [of zdist r lo hi] Let_def)
      have "r < zdist ! i" if "?mid \<le> i" "i < length zdist" for i
        using sorted_nth_mono [OF assms(1) that(1) that(2)] False by simp
      then obtain k where "zipf_search zdist r lo ?mid = Some k" "lo \<le> k" "k \<le> ?mid" "\<forall>i < k. zdist ! i \<le> r"
        "\<forall>i. k \<le> i \<longrightarrow> i < length zdist \<longrightarrow> r < zdist ! i"
        using less.hyps [OF dec(2)] mid less.prems by auto
      then show ?thesis using step mid by auto
    qed
  qed
qed

text \<open>
  The Zipf generator returns the first position whose cumulative probability is above the random
  number. The search ends for every ascending table; if the whole table is at most the random number, which
  rounding permits for the largest one, the result is the number of objects, one beyond the last.
\<close>

lemma zipf_next_position:
  assumes "sorted zdist"
  shows "\<exists>k. zipf_next zdist r = Some k \<and> (\<forall>i < k. zdist ! i \<le> r) \<and> (k < length zdist \<longrightarrow> r < zdist ! k)
    \<and> (k = length zdist \<longleftrightarrow> (\<forall>x \<in> set zdist. x \<le> r))"
proof -
  obtain k where k: "zipf_next zdist r = Some k" "k \<le> length zdist" "\<forall>i < k. zdist ! i \<le> r"
    "\<forall>i. k \<le> i \<longrightarrow> i < length zdist \<longrightarrow> r < zdist ! i"
    using zipf_search_spec [OF assms, of 0 "length zdist" r] by (auto simp: zipf_next_def)
  have "k = length zdist" if "\<forall>x \<in> set zdist. x \<le> r"
  proof (rule ccontr)
    assume "k \<noteq> length zdist"
    then have "k < length zdist" "r < zdist ! k" using k(2,4) by auto
    then show False using that by (fastforce dest: nth_mem)
  qed
  moreover have "\<forall>x \<in> set zdist. x \<le> r" if "k = length zdist" using k(3) that by (auto simp: in_set_conv_nth)
  ultimately show ?thesis using k by (intro exI [of _ k]) auto
qed

text \<open>The rate limiter stops within one burst of its limit.\<close>

lemma rl_generate_limit:
  assumes "rl_pkt_limit g + 31 < 2 ^ 64" "rl_tot_sent_pkts g \<le> rl_pkt_limit g + 31"
    and "list_all (\<lambda>(sent, now, after). sent \<le> RTE_BURST_SIZE) ts" "rl_generate rnd bsize ts (g, epoch) = Some g'"
  shows "rl_pkt_limit g \<le> rl_tot_sent_pkts g' \<and> rl_tot_sent_pkts g' \<le> rl_pkt_limit g + 31"
  using assms
proof (induction ts arbitrary: g epoch)
  case (Cons t ts)
  show ?case
  proof (cases "rl_tot_sent_pkts g < rl_pkt_limit g")
    case True
    obtain sent now after where t: "t = (sent, now, after)" by (cases t)
    obtain g1 e1 ns where r: "rl_turn rnd bsize t (g, epoch) = ((g1, e1), ns)" by (metis prod.exhaust)
    have g1: "rl_pkt_limit g1 = rl_pkt_limit g" "rl_tot_sent_pkts g1 = take_bit 64 (rl_tot_sent_pkts g + sent)"
      using r t by (auto simp: rl_turn_def Let_def split: if_splits)
    have "sent \<le> 32" using Cons.prems(3) t by (simp add: RTE_BURST_SIZE_def)
    then have "rl_tot_sent_pkts g + sent \<le> rl_pkt_limit g + 31" using True by simp
    then have "rl_tot_sent_pkts g1 \<le> rl_pkt_limit g + 31" unfolding g1(2) by (meson le_trans take_bit_nat_less_eq_self)
    then show ?thesis using Cons.IH [of g1 e1] Cons.prems True r g1(1) by simp
  next
    case False
    then show ?thesis using Cons.prems by simp
  qed
qed (auto split: if_splits)

end
