(* ===== verification/Pktgen_Options.thy ===== *)
theory Pktgen_Options
  imports Netplay_Daemon Traffic_Generator
begin

section \<open>Options of the packet generator (pktgen.cc)\<close>

text \<open>
  As for the daemon: what \<open>getopt_long\<close> returns and the arguments that are left over are given, \<open>Inl\<close> is the end of the
  process with its message, \<open>None\<close> is undefined behaviour. Numbers are read by \<open>atoi\<close> and \<open>atoll\<close>, and a
  negative number becomes a large unsigned one.
\<close>

definition atoll :: "string \<Rightarrow> int option" where
  "atoll s = (case scan_number s of
     None \<Rightarrow> Some 0
   | Some (v, _) \<Rightarrow> if - (2 ^ 63) \<le> v \<and> v < 2 ^ 63 then Some v else None)"

definition atoll_u64 :: "string option \<Rightarrow> nat option" where
  "atoll_u64 optarg = do { arg \<leftarrow> optarg; v \<leftarrow> atoll arg; Some (nat (take_bit 64 v)) }"

record pktgen_options =
  secondary :: bool
  pktgen_core :: int
  primary :: string
  rate_limit :: nat
  pktgen_time_limit :: nat
  max_pkts :: nat

definition pktgen_defaults :: pktgen_options where
  "pktgen_defaults = \<lparr>secondary = False, pktgen_core = 0, primary = ''pktgen'', rate_limit = 0, pktgen_time_limit = 0,
     max_pkts = UINT64_MAX\<rparr>"

definition pktgen_option :: "getopt_event \<Rightarrow> pktgen_options \<Rightarrow> pktgen_options result" where
  "pktgen_option ev opts =
     (case ev of
        Flag _ \<Rightarrow> rreturn opts
      | Opt c optarg \<Rightarrow>
          (if c = CHR ''p'' then do { arg \<leftarrow> optarg; rreturn (opts\<lparr>secondary := True, primary := arg\<rparr>) }
           else if c = CHR ''c'' then do { arg \<leftarrow> optarg; v \<leftarrow> atoi arg; rreturn (opts\<lparr>pktgen_core := v\<rparr>) }
           else if c = CHR ''r'' then do { v \<leftarrow> atoll_u64 optarg; rreturn (opts\<lparr>rate_limit := v\<rparr>) }
           else if c = CHR ''t'' then do { v \<leftarrow> atoll_u64 optarg; rreturn (opts\<lparr>pktgen_time_limit := v\<rparr>) }
           else if c = CHR ''l'' then do { v \<leftarrow> atoll_u64 optarg; rreturn (opts\<lparr>max_pkts := v\<rparr>) }
           else if c = CHR ''h'' then rthrow ''pktgen: Random packet generator''
           else if c = CHR '':'' \<or> c = CHR ''?'' then rthrow ''Try `pktgen --help' for more information.''
           else rthrow (''pktgen: invalid option -- '' @ [c])))"

fun pktgen_options_loop :: "getopt_event list \<Rightarrow> pktgen_options \<Rightarrow> pktgen_options result" where
  "pktgen_options_loop [] opts = rreturn opts"
| "pktgen_options_loop (ev # evs) opts = rbind (pktgen_option ev opts) (\<lambda>opts'. pktgen_options_loop evs opts')"

text \<open>The generator that runs: with the initialiser of the primary process, on the given interface.\<close>

datatype vport_init = Pmd_init | Ovs_ring_init | Bess_ring_init

definition pktgen_args :: "(real \<Rightarrow> real) \<Rightarrow> nat \<Rightarrow> getopt_event list \<Rightarrow> string list \<Rightarrow>
    (packet_generator \<times> vport_init \<times> string) result" where
  "pktgen_args rnd now evs rest = rbind (pktgen_options_loop evs pktgen_defaults) (\<lambda>opts.
     case rest of
       [iface] \<Rightarrow>
         (let g = packet_generator_new rnd now (rate_limit opts) (pktgen_time_limit opts) (max_pkts opts) in
          if primary opts = ''pktgen'' then rreturn (g, Pmd_init, iface)
          else if primary opts = ''ovs'' then rreturn (g, Ovs_ring_init, iface)
          else if primary opts = ''bess'' then rreturn (g, Bess_ring_init, iface)
          else rthrow (''Primary interface '' @ primary opts @ '' is not yet supported.''))
     | _ \<Rightarrow> rthrow ''pktgen expects a single INTERFACE argument'')"

text \<open>
  From the command line to the packets: a limit given with \<open>-l\<close> bounds what the generator sends.
\<close>

lemma pktgen_limit_option:
  assumes "fp_rounding rnd" "n + 31 < 2 ^ 63" "list_all (\<lambda>(now, tb, sent). sent \<le> RTE_BURST_SIZE) ts"
    and "pktgen_args rnd now [Opt CHR ''l'' (Some (dec_digits n))] [iface] = Some (Inr (g, vi, iface'))"
    and "generate rnd start ts g = Some g'"
  shows "vi = Pmd_init \<and> iface' = iface \<and> tot_sent_pkts g' \<le> n + 31"
proof -
  have "atoll (dec_digits n) = Some (int n)" using assms(2) by (simp add: atoll_def scan_digits_end)
  moreover have "nat (take_bit 64 (int n)) = n" using assms(2) by (simp add: take_bit_int_eq_self)
  ultimately have "atoll_u64 (Some (dec_digits n)) = Some n" by (simp add: atoll_u64_def)
  then have g: "g = packet_generator_new rnd now 0 0 n" "vi = Pmd_init" "iface' = iface"
    using assms(4) by (auto simp: pktgen_args_def pktgen_option_def pktgen_defaults_def rbind_def rreturn_def Let_def)
  have ok: "bucket_ok rnd (bucket g)" using bucket_ok_new [OF assms(1)] g(1) by (simp add: packet_generator_new_def)
  have "tot_sent_pkts g' \<le> pkt_limit g + 31"
    using generate_bound [OF assms(1) ok _ _ assms(3,5)] assms(2) g(1) by (simp add: packet_generator_new_def)
  then show ?thesis using g by (simp add: packet_generator_new_def)
qed

end
