(* ===== verification/Bench_Options.thy ===== *)
theory Bench_Options
  imports Pktgen_Options
begin

section \<open>Options of the benchmarks (packet_bench.cc, storage_bench.cc, filter_bench.cc)\<close>

text \<open>
  The three programs read their options the same way: what \<open>getopt\<close> returns is given as a list, an option that
  is not known is reported and the loop goes on. Numbers are read by \<open>atoi\<close> and \<open>atoll\<close>; \<open>None\<close> is a number that is out of the range of its
  type, or the null pointer.
\<close>

fun bench_options :: "(char \<Rightarrow> string option \<Rightarrow> 'o \<Rightarrow> 'o option) \<Rightarrow> getopt_event list \<Rightarrow> 'o \<Rightarrow> 'o option" where
  "bench_options opt [] opts = Some opts"
| "bench_options opt (ev # evs) opts = do {
     opts' \<leftarrow> (case ev of Opt c arg \<Rightarrow> opt c arg opts | Flag _ \<Rightarrow> Some opts);
     bench_options opt evs opts' }"

definition atoi_u32 :: "string option \<Rightarrow> nat option" where
  "atoi_u32 optarg = do { arg \<leftarrow> optarg; v \<leftarrow> atoi arg; Some (nat (take_bit 32 v)) }"

subsection \<open>packet\_bench\<close>

record packet_bench_options =
  pb_num_threads :: int
  pb_rate_limit :: nat
  pb_filters_file :: "string option"
  pb_measure_cpu :: bool

definition packet_bench_option :: "char \<Rightarrow> string option \<Rightarrow> packet_bench_options \<Rightarrow> packet_bench_options option" where
  "packet_bench_option c optarg opts =
     (if c = CHR ''n'' then do { arg \<leftarrow> optarg; v \<leftarrow> atoi arg; Some (opts\<lparr>pb_num_threads := v\<rparr>) }
      else if c = CHR ''r'' then do { v \<leftarrow> atoll_u64 optarg; Some (opts\<lparr>pb_rate_limit := v\<rparr>) }
      else if c = CHR ''f'' then do { arg \<leftarrow> optarg; Some (opts\<lparr>pb_filters_file := Some arg\<rparr>) }
      else if c = CHR ''c'' then Some (opts\<lparr>pb_measure_cpu := True\<rparr>)
      else Some opts)"

definition packet_bench_args :: "getopt_event list \<Rightarrow> packet_bench_options option" where
  "packet_bench_args evs = bench_options packet_bench_option evs
     \<lparr>pb_num_threads = 1, pb_rate_limit = 0, pb_filters_file = None, pb_measure_cpu = False\<rparr>"

text \<open>\<open>load_packets\<close> takes the number of threads as an unsigned number of 32 bits.\<close>

definition pb_threads :: "packet_bench_options \<Rightarrow> nat" where
  "pb_threads opts = nat (take_bit 32 (pb_num_threads opts))"

subsection \<open>storage\_bench\<close>

definition storage_bench_option :: "char \<Rightarrow> string option \<Rightarrow> nat \<times> nat \<Rightarrow> (nat \<times> nat) option" where
  "storage_bench_option c optarg opts =
     (if c = CHR ''n'' then do { v \<leftarrow> atoll_u64 optarg; Some (v, snd opts) }
      else if c = CHR ''i'' then do { v \<leftarrow> atoll_u64 optarg; Some (fst opts, v) }
      else Some opts)"

definition storage_bench_args :: "getopt_event list \<Rightarrow> (nat \<times> nat) option" where
  "storage_bench_args evs = bench_options storage_bench_option evs (300000000, 1000000)"

subsection \<open>filter\_bench\<close>

record filter_bench_options =
  bench_type :: string
  fb_num_pkts :: nat
  fb_load_rate :: nat
  fb_batch_size :: nat
  fb_batch_ms :: nat
  fb_num_threads :: nat
  fb_measure_cpu :: bool

definition filter_bench_defaults :: filter_bench_options where
  "filter_bench_defaults = \<lparr>bench_type = ''latency-get'', fb_num_pkts = 60000000, fb_load_rate = 1000000, fb_batch_size = 0,
     fb_batch_ms = 0, fb_num_threads = 1, fb_measure_cpu = False\<rparr>"

definition filter_bench_option :: "char \<Rightarrow> string option \<Rightarrow> filter_bench_options \<Rightarrow> filter_bench_options option" where
  "filter_bench_option c optarg opts =
     (if c = CHR ''b'' then do { arg \<leftarrow> optarg; Some (opts\<lparr>bench_type := arg\<rparr>) }
      else if c = CHR ''p'' then do { v \<leftarrow> atoll_u64 optarg; Some (opts\<lparr>fb_num_pkts := v\<rparr>) }
      else if c = CHR ''s'' then do { v \<leftarrow> atoll_u64 optarg; Some (opts\<lparr>fb_batch_size := v\<rparr>) }
      else if c = CHR ''m'' then do { v \<leftarrow> atoll_u64 optarg; Some (opts\<lparr>fb_batch_ms := v\<rparr>) }
      else if c = CHR ''l'' then do { v \<leftarrow> atoll_u64 optarg; Some (opts\<lparr>fb_load_rate := v\<rparr>) }
      else if c = CHR ''n'' then do { v \<leftarrow> atoi_u32 optarg; Some (opts\<lparr>fb_num_threads := v\<rparr>) }
      else if c = CHR ''c'' then Some (opts\<lparr>fb_measure_cpu := True\<rparr>)
      else Some opts)"

definition filter_bench_args :: "getopt_event list \<Rightarrow> string list \<Rightarrow> (filter_bench_options \<times> string) result" where
  "filter_bench_args evs rest = do {
     opts \<leftarrow> bench_options filter_bench_option evs filter_bench_defaults;
     (case rest of
        [] \<Rightarrow> rthrow ''Usage: filter_bench [-b bench-type] [-q query-rate] [-l load-rate] [-p num-packets] [-n num-threads] [-c measure-cpu] query-path''
      | query_path # _ \<Rightarrow> rreturn (opts, query_path)) }"

text \<open>What a type of benchmark calls, in order, of the loop of \<open>latency-trend\<close> at most \<open>k\<close> turns; \<open>None\<close> is an unknown type, for which only a message is printed.\<close>

datatype bench_action = Load_data nat | Cast_latency | Char_latency | Cast_throughput nat | Char_throughput nat nat nat

definition trend_batch :: nat where "trend_batch = 10000000"

text \<open>
  At most \<open>k\<close> turns of the loop of \<open>latency-trend\<close>, whose unsigned 64-bit counter wraps around.
\<close>

fun trend_actions :: "nat \<Rightarrow> nat \<Rightarrow> nat \<Rightarrow> bench_action list" where
  "trend_actions 0 p n = []"
| "trend_actions (Suc k) p n =
     (if p \<le> n then [Load_data trend_batch, Cast_latency, Char_latency] @ trend_actions k (take_bit 64 (p + trend_batch)) n
      else [])"

definition utilization_actions :: "bench_action list" where
  "utilization_actions = concat (map (\<lambda>s. map (\<lambda>ms. Char_throughput s ms 1) [1, 5, 10, 20]) [1, 10, 100, 1000, 10000])"

definition bench_actions :: "nat \<Rightarrow> filter_bench_options \<Rightarrow> bench_action list option" where
  "bench_actions k opts =
     (let load = Load_data (fb_num_pkts opts); char_thput = Char_throughput (fb_batch_size opts) (fb_batch_ms opts) in
      if bench_type opts = ''latency-cast'' then Some [load, Cast_latency]
      else if bench_type opts = ''latency-char'' then Some [load, Char_latency]
      else if bench_type opts = ''latency-trend'' then Some (trend_actions k trend_batch (fb_num_pkts opts))
      else if bench_type opts = ''latency'' then Some [load, Cast_latency, Char_latency]
      else if bench_type opts = ''throughput-char'' then Some [load, char_thput (fb_num_threads opts)]
      else if bench_type opts = ''throughput-cast'' then Some [load, Cast_throughput (fb_num_threads opts)]
      else if bench_type opts = ''throughput''
        then Some [load, Cast_throughput (fb_num_threads opts), char_thput (fb_num_threads opts)]
      else if bench_type opts = ''all''
        then Some (load # Cast_latency # map Cast_throughput [1..<9] @ Char_latency # map char_thput [1..<9])
      else if bench_type opts = ''load'' then Some [load]
      else if bench_type opts = ''char-utilization'' then Some (load # utilization_actions)
      else None)"

subsection \<open>The use of the CPU (cpu\_utilization.h)\<close>

text \<open>
  A sample is what \<open>times\<close> returns and the system and user times it stores, in clock ticks.
\<close>

record cpu_utilization =
  last_cpu :: int
  last_sys_cpu :: int
  last_user_cpu :: int

definition cpu_utilization_new :: "int \<times> int \<times> int \<Rightarrow> cpu_utilization" where
  "cpu_utilization_new t = (case t of (now, sys, user) \<Rightarrow> \<lparr>last_cpu = now, last_sys_cpu = sys, last_user_cpu = user\<rparr>)"

definition cpu_current :: "(real \<Rightarrow> real) \<Rightarrow> int \<times> int \<times> int \<Rightarrow> cpu_utilization \<Rightarrow> real \<times> cpu_utilization" where
  "cpu_current rnd t u = (case t of (now, sys, user) \<Rightarrow>
     (if now \<le> last_cpu u \<or> sys < last_sys_cpu u \<or> user < last_user_cpu u then - 1
      else rnd (rnd (rnd (real_of_int (sys - last_sys_cpu u + (user - last_user_cpu u))) / rnd (real_of_int (now - last_cpu u))) * 100),
      cpu_utilization_new t))"

text \<open>The percentage is not negative, or the value -1 for a sample that is skipped.\<close>

lemma cpu_current_range:
  assumes "fp_rounding rnd"
  shows "fst (cpu_current rnd t u) = - 1 \<or> 0 \<le> fst (cpu_current rnd t u)"
  using fp_roundingD(4) [OF assms] by (auto simp: cpu_current_def split: prod.splits)

section \<open>What the options ask for\<close>

definition load_sizes :: "bench_action list \<Rightarrow> nat list" where
  "load_sizes as = List.map_filter (\<lambda>a. case a of Load_data n \<Rightarrow> Some n | _ \<Rightarrow> None) as"

lemma load_sizes_simps [simp]:
  "load_sizes [] = []" "load_sizes (Load_data n # as) = n # load_sizes as"
  "load_sizes (Cast_latency # as) = load_sizes as" "load_sizes (Char_latency # as) = load_sizes as"
  "load_sizes (Cast_throughput t # as) = load_sizes as" "load_sizes (Char_throughput b m t # as) = load_sizes as"
  "load_sizes (as @ bs) = load_sizes as @ load_sizes bs"
  by (simp_all add: load_sizes_def List.map_filter_def)

lemma load_sizes_thput: "load_sizes (map Cast_throughput ts) = []" "load_sizes (map (Char_throughput b m) ts) = []"
  by (simp_all add: load_sizes_def List.map_filter_def)

text \<open>
  The trend loads as many batches as fit into the number of packets; near the end of the range of the counter it
  does not end.
\<close>

lemma trend_loads:
  assumes "n < 2 ^ 64 - trend_batch"
  shows "load_sizes (trend_actions k (m * trend_batch) n) = replicate (min k (n div trend_batch + 1 - m)) trend_batch"
proof (induction k arbitrary: m)
  case (Suc k)
  have le: "m * trend_batch \<le> n \<longleftrightarrow> m \<le> n div trend_batch" by (simp add: less_eq_div_iff_mult_less_eq trend_batch_def)
  show ?case
  proof (cases "m \<le> n div trend_batch")
    case True
    then have "m * trend_batch + trend_batch < 2 ^ 64" using assms le by simp
    then have "take_bit 64 (m * trend_batch + trend_batch) = Suc m * trend_batch" by (simp add: take_bit_64_id)
    moreover have "min (Suc k) (n div trend_batch + 1 - m) = Suc (min k (n div trend_batch + 1 - Suc m))" using True by simp
    ultimately show ?thesis using True le Suc [of "Suc m"] by simp
  next
    case False
    then show ?thesis using le by simp
  qed
qed simp

lemma trend_unending: "load_sizes (trend_actions k p (2 ^ 64 - 1)) = replicate k trend_batch" if "p < 2 ^ 64"
  using that
proof (induction k arbitrary: p)
  case (Suc k)
  have "take_bit 64 (p + trend_batch) < 2 ^ 64" by (rule take_bit_nat_less_exp)
  then show ?case using Suc by simp
qed simp

text \<open>
  The type of benchmark that runs by default is not one of the types, and a load of any other type precedes
  every measurement.
\<close>

lemma default_type_unknown: "bench_actions k filter_bench_defaults = None"
  by (simp add: bench_actions_def filter_bench_defaults_def Let_def)

lemma bench_actions_load_first:
  "bench_actions k opts = Some as \<Longrightarrow> as = [] \<or> (\<exists>n as'. as = Load_data n # as')"
  by (cases k) (auto simp: bench_actions_def Let_def split: if_splits)

end
