(* ===== verification/Packet_Generators.thy ===== *)
theory Packet_Generators
  imports Store_Exact Traffic_Generator
begin

section \<open>Generated packets (pktgen.h, filter_bench.cc, bench_vport.h)\<close>

text \<open>
  The generators of packets and the port of the benchmarks, which inserts what it is given into a store. The buffers
  come from a memory pool of DPDK: what \<open>rte_mempool_get_bulk\<close> gives, an error code or the memory of the buffers, is an
  argument; the numbers \<open>rand\<close> returns are a list, and \<open>rte_cpu_to_be_16\<close> is the function \<open>be16\<close>. \<open>None\<close> is a write
  outside a buffer, or a read behind an array.
\<close>

subsection \<open>Writing headers\<close>

definition store_bytes :: "nat \<Rightarrow> u8 list \<Rightarrow> packet \<Rightarrow> packet option" where
  "store_bytes off bs pkt =
     (if list_all (\<lambda>i. pkt (off + i) \<noteq> None) [0..<length bs]
      then Some (\<lambda>i. if off \<le> i \<and> i < off + length bs then Some (bs ! (i - off)) else pkt i) else None)"

definition store :: "nat \<Rightarrow> nat \<Rightarrow> nat \<Rightarrow> packet \<Rightarrow> packet option" where
  "store off n v pkt = store_bytes off (le_bytes n v) pkt"

definition ip_off :: "hdr_layout \<Rightarrow> hdr_field \<Rightarrow> nat" where
  "ip_off L f = sizeof_ether_hdr L + offset_of L f"

definition l4_off :: "hdr_layout \<Rightarrow> hdr_field \<Rightarrow> nat" where
  "l4_off L f = sizeof_ether_hdr L + sizeof_ipv4_hdr L + offset_of L f"

record pkt_attrs =
  sip :: nat
  dip :: nat
  sport :: nat
  dport :: nat

definition set_hdr :: "hdr_layout \<Rightarrow> pkt_attrs \<Rightarrow> packet \<Rightarrow> packet option" where
  "set_hdr L a pkt = do {
     p1 \<leftarrow> store (ip_off L Src_addr) 4 (sip a) pkt;
     p2 \<leftarrow> store (ip_off L Dst_addr) 4 (dip a) p1;
     p3 \<leftarrow> store (l4_off L Tcp_src_port) 2 (sport a) p2;
     store (l4_off L Tcp_dst_port) 2 (dport a) p3 }"

definition init_hdr :: "hdr_layout \<Rightarrow> (nat \<Rightarrow> nat) \<Rightarrow> packet \<Rightarrow> packet option" where
  "init_hdr L be16 pkt = do {
     p1 \<leftarrow> store (offset_of L D_addr + 5) 1 0 pkt;
     p2 \<leftarrow> store (offset_of L S_addr + 5) 1 1 p1;
     p3 \<leftarrow> store (offset_of L Ether_type) 2 (be16 2048) p2;
     p4 \<leftarrow> store (ip_off L Src_addr) 4 0 p3;
     p5 \<leftarrow> store (ip_off L Dst_addr) 4 0 p4;
     p6 \<leftarrow> store (ip_off L Next_proto_id) 1 IPPROTO_TCP p5;
     p7 \<leftarrow> store (l4_off L Tcp_src_port) 2 0 p6;
     store (l4_off L Tcp_dst_port) 2 0 p7 }"

definition HEADER_SIZE :: nat where "HEADER_SIZE = 54"

text \<open>\<open>mbuf_alloc_bulk\<close> sets the lengths of the buffers; the constructors end the process on its error code.\<close>

definition mbuf_alloc_bulk :: "nat \<Rightarrow> int + packet list \<Rightarrow> int + mbuf list" where
  "mbuf_alloc_bulk len got =
     (case got of Inl ret \<Rightarrow> Inl ret | Inr bufs \<Rightarrow> Inr (map (\<lambda>p. \<lparr>pkt_len = take_bit 16 len, mtod = p\<rparr>) bufs))"

fun init_pkts :: "hdr_layout \<Rightarrow> (nat \<Rightarrow> nat) \<Rightarrow> mbuf list \<Rightarrow> mbuf list option" where
  "init_pkts L be16 [] = Some []"
| "init_pkts L be16 (m # ms) = do {
     p \<leftarrow> init_hdr L be16 (mtod m); ms' \<leftarrow> init_pkts L be16 ms; Some (m\<lparr>mtod := p\<rparr> # ms') }"

definition new_pkts :: "hdr_layout \<Rightarrow> (nat \<Rightarrow> nat) \<Rightarrow> int + packet list \<Rightarrow> (int + mbuf list) option" where
  "new_pkts L be16 got =
     (case mbuf_alloc_bulk HEADER_SIZE got of
        Inl ret \<Rightarrow> Some (Inl ret)
      | Inr ms \<Rightarrow> map_option Inr (init_pkts L be16 ms))"

subsection \<open>The generators\<close>

text \<open>\<open>rand_generator\<close>: four random numbers for every packet of a batch.\<close>

fun rand_fill :: "hdr_layout \<Rightarrow> nat list \<Rightarrow> mbuf list \<Rightarrow> (mbuf list \<times> nat list) option" where
  "rand_fill L rs [] = Some ([], rs)"
| "rand_fill L (r1 # r2 # r3 # r4 # rs) (m # ms) = do {
     p \<leftarrow> set_hdr L \<lparr>sip = r1 mod 256, dip = r2 mod 256, sport = r3 mod 10, dport = r4 mod 10\<rparr> (mtod m);
     (ms', rs') \<leftarrow> rand_fill L rs ms;
     Some (m\<lparr>mtod := p\<rparr> # ms', rs') }"
| "rand_fill L rs ms = None"

definition rand_batch :: "hdr_layout \<Rightarrow> nat \<Rightarrow> mbuf list \<times> nat list \<Rightarrow> (mbuf list \<times> mbuf list \<times> nat list) option" where
  "rand_batch L n g =
     (if n \<le> length (fst g) then do {
        (ms, rs) \<leftarrow> rand_fill L (snd g) (take n (fst g));
        let pkts = ms @ drop n (fst g) in Some (pkts, pkts, rs) }
      else None)"

text \<open>\<open>static_rand_generator\<close>: the packets of an array, one batch after the other.\<close>

record static_generator =
  cur_pos :: nat
  pkt_data :: "pkt_attrs list"
  gen_pkts :: "mbuf list"

definition static_generator_new :: "hdr_layout \<Rightarrow> (nat \<Rightarrow> nat) \<Rightarrow> int + packet list \<Rightarrow> pkt_attrs list \<Rightarrow>
    (int + static_generator) option" where
  "static_generator_new L be16 got d = do {
     r \<leftarrow> new_pkts L be16 got;
     Some (case r of Inl ret \<Rightarrow> Inl ret | Inr ms \<Rightarrow> Inr \<lparr>cur_pos = 0, pkt_data = d, gen_pkts = ms\<rparr>) }"

fun static_fill :: "hdr_layout \<Rightarrow> pkt_attrs list \<Rightarrow> nat \<Rightarrow> mbuf list \<Rightarrow> mbuf list option" where
  "static_fill L d pos [] = Some []"
| "static_fill L d pos (m # ms) =
     (if pos < length d then do {
        p \<leftarrow> set_hdr L (d ! pos) (mtod m); ms' \<leftarrow> static_fill L d (pos + 1) ms; Some (m\<lparr>mtod := p\<rparr> # ms') }
      else None)"

definition static_batch :: "hdr_layout \<Rightarrow> nat \<Rightarrow> static_generator \<Rightarrow> (mbuf list \<times> static_generator) option" where
  "static_batch L n g =
     (if n \<le> length (gen_pkts g) then do {
        ms \<leftarrow> static_fill L (pkt_data g) (cur_pos g) (take n (gen_pkts g));
        let pkts = ms @ drop n (gen_pkts g) in
        Some (pkts, g\<lparr>gen_pkts := pkts, cur_pos := take_bit 64 (cur_pos g + n)\<rparr>) }
      else None)"

text \<open>The attributes the filter benchmark draws: four numbers for every packet, from two Zipf distributions.\<close>

fun zipf_attrs :: "real list \<Rightarrow> real list \<Rightarrow> real list \<Rightarrow> pkt_attrs list option" where
  "zipf_attrs z1 z2 (r1 # r2 # r3 # r4 # rs) = do {
     s \<leftarrow> zipf_next z1 r1;
     d \<leftarrow> zipf_next z1 r2;
     sp \<leftarrow> zipf_next z2 r3;
     dp \<leftarrow> zipf_next z2 r4;
     as \<leftarrow> zipf_attrs z1 z2 rs;
     Some (\<lparr>sip = take_bit 32 s, dip = take_bit 32 d, sport = take_bit 16 sp, dport = take_bit 16 dp\<rparr> # as) }"
| "zipf_attrs z1 z2 [] = Some []"
| "zipf_attrs z1 z2 rs = None"

subsection \<open>The port that inserts, and the loop over a generator and a port\<close>

definition vport_send :: "hdr_layout \<Rightarrow> nat \<Rightarrow> mbuf list \<Rightarrow> nat \<Rightarrow> packet_store \<Rightarrow> (nat \<times> packet_store) option" where
  "vport_send L now pkts n s = do { s' \<leftarrow> insert_pktburst L now (take n pkts) s; Some (n, s') }"

text \<open>
  \<open>packet_generator\<close> is a template over the generator and the port; so is the loop here. A turn has the time
  in microseconds the bucket reads and the seconds \<open>insert_pktburst\<close> reads. \<open>Inl\<close> is the state when the readings are used up and
  the loop still runs, \<open>Inr\<close> the state when it has ended.
\<close>

definition load_turn ::
  "(real \<Rightarrow> real) \<Rightarrow> (nat \<Rightarrow> 'g \<Rightarrow> (mbuf list \<times> 'g) option) \<Rightarrow> (nat \<Rightarrow> mbuf list \<Rightarrow> nat \<Rightarrow> 'v \<Rightarrow> (nat \<times> 'v) option) \<Rightarrow>
   nat \<Rightarrow> nat \<Rightarrow> packet_generator \<times> 'g \<times> 'v \<Rightarrow> (packet_generator \<times> 'g \<times> 'v) option" where
  "load_turn rnd batch send tb secs st =
     (case st of (g, x, v) \<Rightarrow>
      (case gen_grant rnd tb g of (g1, ok) \<Rightarrow>
         if ok then do {
           (pkts, x') \<leftarrow> batch RTE_BURST_SIZE x;
           (n, v') \<leftarrow> send secs pkts RTE_BURST_SIZE v;
           Some (gen_report (gen_send n g1), x', v') }
         else Some (gen_report g1, x, v)))"

fun load_run ::
  "(real \<Rightarrow> real) \<Rightarrow> (nat \<Rightarrow> 'g \<Rightarrow> (mbuf list \<times> 'g) option) \<Rightarrow> (nat \<Rightarrow> mbuf list \<Rightarrow> nat \<Rightarrow> 'v \<Rightarrow> (nat \<times> 'v) option) \<Rightarrow>
   nat \<Rightarrow> (nat \<times> nat \<times> nat) list \<Rightarrow> packet_generator \<times> 'g \<times> 'v \<Rightarrow>
   ((packet_generator \<times> 'g \<times> 'v) + (packet_generator \<times> 'g \<times> 'v)) option" where
  "load_run rnd batch send start [] st = Some (Inl st)"
| "load_run rnd batch send start ((now, tb, secs) # ts) st =
     (if gen_running start now (fst st)
      then do { st' \<leftarrow> load_turn rnd batch send tb secs st; load_run rnd batch send start ts st' }
      else Some (Inr st))"

text \<open>\<open>load_data\<close> of the filter benchmark, without the files it writes and the casts it builds.\<close>

definition load_data ::
  "(real \<Rightarrow> real) \<Rightarrow> hdr_layout \<Rightarrow> (nat \<Rightarrow> nat) \<Rightarrow> int + packet list \<Rightarrow> nat \<Rightarrow> nat \<Rightarrow> nat \<Rightarrow> (nat \<times> nat \<times> nat) list \<Rightarrow>
   pkt_attrs list \<Rightarrow> packet_store \<Rightarrow>
   (int + (packet_generator \<times> static_generator \<times> packet_store) + (packet_generator \<times> static_generator \<times> packet_store)) option" where
  "load_data rnd L be16 got load_rate t0 start ts d s = do {
     r \<leftarrow> static_generator_new L be16 got d;
     (case r of
        Inl ret \<Rightarrow> Some (Inl ret)
      | Inr sg \<Rightarrow> map_option Inr (load_run rnd (static_batch L) (vport_send L) start ts
          (packet_generator_new rnd t0 load_rate 0 (length d), sg, s))) }"

end
