(* ===== verification/Packet_Loading.thy ===== *)
theory Packet_Loading
  imports Packet_Generators
begin

section \<open>Loading generated packets\<close>

text \<open>
  What the generators write into a buffer is what the store indexes: the packets of a batch have the fields that were
  asked for, and a load stores them in order.
\<close>

subsection \<open>Stores and loads\<close>

lemma store_spec:
  assumes "store off n v p = Some q"
  shows "dom q = dom p" "load off n q = Some (v mod 256 ^ n)" "apart (off, n) (b, m) \<Longrightarrow> load b m q = load b m p"
proof -
  have r: "list_all (\<lambda>i. p (off + i) \<noteq> None) [0..<n]"
    "q = (\<lambda>i. if off \<le> i \<and> i < off + n then Some (le_bytes n v ! (i - off)) else p i)"
    using assms by (auto simp: store_def store_bytes_def split: if_splits)
  have "p i \<noteq> None" if "off \<le> i" "i < off + n" for i
    using r(1) that by (auto simp: list_all_iff dest!: bspec [of _ _ "i - off"])
  then show "dom q = dom p" by (auto simp: r(2) dom_def)
  have "load_bytes off (length (le_bytes n v)) q = Some (le_bytes n v)" by (rule load_bytes_list) (simp add: r(2))
  then show "load off n q = Some (v mod 256 ^ n)" by (simp add: load_def le_value_bytes)
  show "load b m q = load b m p" if "apart (off, n) (b, m)"
    using that by (intro load_cong) (auto simp: r(2) apart_def)
qed

lemma store_total:
  assumes "{off..<off + n} \<subseteq> dom p"
  shows "\<exists>q. store off n v p = Some q"
proof -
  have "p (off + i) \<noteq> None" if "i < n" for i using assms that by (auto simp: subset_iff dom_def)
  then show ?thesis by (simp add: store_def store_bytes_def list_all_iff)
qed

text \<open>The fields lie in the first 54 bytes, and those the filters read do not overlap.\<close>

definition hdr_spans :: "hdr_layout \<Rightarrow> (nat \<times> nat) list" where
  "hdr_spans L = [(ip_off L Src_addr, 4), (ip_off L Dst_addr, 4), (ip_off L Next_proto_id, 1),
     (l4_off L Tcp_src_port, 2), (l4_off L Tcp_dst_port, 2)]"

definition layout_ok :: "hdr_layout \<Rightarrow> bool" where
  "layout_ok L \<longleftrightarrow> list_all (\<lambda>x. fst x + snd x \<le> HEADER_SIZE) (hdr_spans L) \<and> sorted_wrt apart (hdr_spans L)
     \<and> list_all (\<lambda>x. x \<le> HEADER_SIZE) [offset_of L D_addr + 6, offset_of L S_addr + 6, offset_of L Ether_type + 2]"

lemma wire_layout_ok: "layout_ok wire_layout"
  by (simp add: layout_ok_def hdr_spans_def wire_layout_def ip_off_def l4_off_def HEADER_SIZE_def apart_def)

definition attr_fields :: "pkt_attrs \<Rightarrow> pkt_fields" where
  "attr_fields a = \<lparr>p_src_addr = sip a mod 2 ^ 32, p_dst_addr = dip a mod 2 ^ 32,
     p_ports = Some (sport a mod 2 ^ 16, dport a mod 2 ^ 16)\<rparr>"

text \<open>A buffer whose header bytes can be used, and one that has become a TCP packet.\<close>

definition buf_ok :: "packet \<Rightarrow> bool" where
  "buf_ok p \<longleftrightarrow> {..<HEADER_SIZE} \<subseteq> dom p"

definition tcp_buf :: "hdr_layout \<Rightarrow> packet \<Rightarrow> bool" where
  "tcp_buf L p \<longleftrightarrow> buf_ok p \<and> load (ip_off L Next_proto_id) 1 p = Some IPPROTO_TCP"

lemma store_buf:
  assumes "buf_ok p" "off + n \<le> HEADER_SIZE"
  obtains q where "store off n v p = Some q" "buf_ok q" "load off n q = Some (v mod 256 ^ n)"
    "\<And>b m. apart (off, n) (b, m) \<Longrightarrow> load b m q = load b m p"
proof -
  have "{off..<off + n} \<subseteq> {..<HEADER_SIZE}" using assms(2) by auto
  then have "{off..<off + n} \<subseteq> dom p" using assms(1) unfolding buf_ok_def by (rule subset_trans)
  then obtain q where q: "store off n v p = Some q" using store_total by blast
  have "buf_ok q" using assms(1) store_spec(1) [OF q] by (simp add: buf_ok_def)
  then show thesis using that [OF q] store_spec(2,3) [OF q] by blast
qed

lemma set_hdr_spec:
  assumes "layout_ok L" "tcp_buf L p"
  shows "\<exists>q. set_hdr L a p = Some q \<and> tcp_buf L q \<and> pkt_fields_of L q = Some (attr_fields a)"
proof -
  let ?s = "(ip_off L Src_addr, 4)" and ?d = "(ip_off L Dst_addr, 4)" and ?t = "(ip_off L Next_proto_id, 1)"
    and ?sp = "(l4_off L Tcp_src_port, 2)" and ?dp = "(l4_off L Tcp_dst_port, 2)"
  have fits: "ip_off L Src_addr + 4 \<le> HEADER_SIZE" "ip_off L Dst_addr + 4 \<le> HEADER_SIZE"
    "l4_off L Tcp_src_port + 2 \<le> HEADER_SIZE" "l4_off L Tcp_dst_port + 2 \<le> HEADER_SIZE"
    and ap: "apart ?s ?t" "apart ?d ?t" "apart ?sp ?t" "apart ?dp ?t" "apart ?d ?s" "apart ?sp ?s" "apart ?dp ?s"
      "apart ?sp ?d" "apart ?dp ?d" "apart ?dp ?sp"
    using assms(1) by (auto simp: layout_ok_def hdr_spans_def apart_def)
  have p: "buf_ok p" "load (ip_off L Next_proto_id) 1 p = Some IPPROTO_TCP" using assms(2) by (simp_all add: tcp_buf_def)
  obtain p1 where p1: "store (ip_off L Src_addr) 4 (sip a) p = Some p1" "buf_ok p1"
    "load (ip_off L Src_addr) 4 p1 = Some (sip a mod 256 ^ 4)" "\<And>b m. apart ?s (b, m) \<Longrightarrow> load b m p1 = load b m p"
    using store_buf [OF p(1) fits(1)] by blast
  obtain p2 where p2: "store (ip_off L Dst_addr) 4 (dip a) p1 = Some p2" "buf_ok p2"
    "load (ip_off L Dst_addr) 4 p2 = Some (dip a mod 256 ^ 4)" "\<And>b m. apart ?d (b, m) \<Longrightarrow> load b m p2 = load b m p1"
    using store_buf [OF p1(2) fits(2)] by blast
  obtain p3 where p3: "store (l4_off L Tcp_src_port) 2 (sport a) p2 = Some p3" "buf_ok p3"
    "load (l4_off L Tcp_src_port) 2 p3 = Some (sport a mod 256 ^ 2)" "\<And>b m. apart ?sp (b, m) \<Longrightarrow> load b m p3 = load b m p2"
    using store_buf [OF p2(2) fits(3)] by blast
  obtain p4 where p4: "store (l4_off L Tcp_dst_port) 2 (dport a) p3 = Some p4" "buf_ok p4"
    "load (l4_off L Tcp_dst_port) 2 p4 = Some (dport a mod 256 ^ 2)" "\<And>b m. apart ?dp (b, m) \<Longrightarrow> load b m p4 = load b m p3"
    using store_buf [OF p3(2) fits(4)] by blast
  have "load (ip_off L Next_proto_id) 1 p4 = Some IPPROTO_TCP" using p(2) p1(4) p2(4) p3(4) p4(4) ap(1-4) by simp
  moreover have "load (ip_off L Src_addr) 4 p4 = Some (sip a mod 2 ^ 32)" using p1(3) p2(4) p3(4) p4(4) ap(5-7) by simp
  moreover have "load (ip_off L Dst_addr) 4 p4 = Some (dip a mod 2 ^ 32)" using p2(3) p3(4) p4(4) ap(8,9) by simp
  moreover have "load (l4_off L Tcp_src_port) 2 p4 = Some (sport a mod 2 ^ 16)" using p3(3) p4(4) ap(10) by simp
  moreover have "load (l4_off L Tcp_dst_port) 2 p4 = Some (dport a mod 2 ^ 16)" using p4(3) by simp
  ultimately show ?thesis
    using p1(1) p2(1) p3(1) p4(1,2)
    by (simp add: set_hdr_def tcp_buf_def pkt_fields_of_def attr_fields_def attribute_defs ip_off_def l4_off_def)
qed

lemma init_hdr_spec:
  assumes "layout_ok L" "buf_ok p"
  shows "\<exists>q. init_hdr L be16 p = Some q \<and> tcp_buf L q"
proof -
  let ?t = "(ip_off L Next_proto_id, 1)" and ?sp = "(l4_off L Tcp_src_port, 2)" and ?dp = "(l4_off L Tcp_dst_port, 2)"
  have fits: "offset_of L D_addr + 5 + 1 \<le> HEADER_SIZE" "offset_of L S_addr + 5 + 1 \<le> HEADER_SIZE"
    "offset_of L Ether_type + 2 \<le> HEADER_SIZE" "ip_off L Src_addr + 4 \<le> HEADER_SIZE" "ip_off L Dst_addr + 4 \<le> HEADER_SIZE"
    "ip_off L Next_proto_id + 1 \<le> HEADER_SIZE" "l4_off L Tcp_src_port + 2 \<le> HEADER_SIZE" "l4_off L Tcp_dst_port + 2 \<le> HEADER_SIZE"
    and ap: "apart ?sp ?t" "apart ?dp ?t"
    using assms(1) by (auto simp: layout_ok_def hdr_spans_def apart_def)
  obtain p1 where p1: "store (offset_of L D_addr + 5) 1 0 p = Some p1" "buf_ok p1" using store_buf [OF assms(2) fits(1)] by blast
  obtain p2 where p2: "store (offset_of L S_addr + 5) 1 1 p1 = Some p2" "buf_ok p2" using store_buf [OF p1(2) fits(2)] by blast
  obtain p3 where p3: "store (offset_of L Ether_type) 2 (be16 2048) p2 = Some p3" "buf_ok p3" using store_buf [OF p2(2) fits(3)] by blast
  obtain p4 where p4: "store (ip_off L Src_addr) 4 0 p3 = Some p4" "buf_ok p4" using store_buf [OF p3(2) fits(4)] by blast
  obtain p5 where p5: "store (ip_off L Dst_addr) 4 0 p4 = Some p5" "buf_ok p5" using store_buf [OF p4(2) fits(5)] by blast
  obtain p6 where p6: "store (ip_off L Next_proto_id) 1 IPPROTO_TCP p5 = Some p6" "buf_ok p6"
    "load (ip_off L Next_proto_id) 1 p6 = Some (IPPROTO_TCP mod 256 ^ 1)" using store_buf [OF p5(2) fits(6)] by blast
  obtain p7 where p7: "store (l4_off L Tcp_src_port) 2 0 p6 = Some p7" "buf_ok p7"
    "\<And>b m. apart ?sp (b, m) \<Longrightarrow> load b m p7 = load b m p6" using store_buf [OF p6(2) fits(7)] by blast
  obtain p8 where p8: "store (l4_off L Tcp_dst_port) 2 0 p7 = Some p8" "buf_ok p8"
    "\<And>b m. apart ?dp (b, m) \<Longrightarrow> load b m p8 = load b m p7" using store_buf [OF p7(2) fits(8)] by blast
  have "load (ip_off L Next_proto_id) 1 p8 = Some IPPROTO_TCP" using p6(3) p7(3) p8(3) ap by (simp add: IPPROTO_TCP_def)
  then show ?thesis using p1(1) p2(1) p3(1) p4(1) p5(1) p6(1) p7(1) p8(1,2) by (simp add: init_hdr_def tcp_buf_def)
qed

subsection \<open>Batches\<close>

definition gen_mbuf :: "hdr_layout \<Rightarrow> mbuf \<Rightarrow> bool" where
  "gen_mbuf L m \<longleftrightarrow> pkt_len m = HEADER_SIZE \<and> tcp_buf L (mtod m)"

lemma gen_mbuf_fields:
  assumes "layout_ok L" "gen_mbuf L m" "pkt_fields_of L (mtod m) = Some f"
  shows "pkt_ok L m \<and> headers_inside L m \<and> pkt_len m = 54 \<and> pkt_fields_of L (cells_of (pkt_bytes m)) = Some f"
proof -
  have len: "pkt_len m = 54" and buf: "{..<54} \<subseteq> dom (mtod m)"
    using assms(2) by (simp_all add: gen_mbuf_def tcp_buf_def buf_ok_def HEADER_SIZE_def)
  let ?bs = "map (the \<circ> mtod m) [0..<54]"
  have b: "mtod m i = Some (?bs ! i)" if "i < 54" for i using buf that by auto
  then have "load_bytes 0 (length ?bs) (mtod m) = Some ?bs" by (intro load_bytes_list) simp
  then have bytes: "load_bytes 0 (pkt_len m) (mtod m) = Some ?bs" using len by simp
  then have pb: "pkt_bytes m = ?bs" by (simp add: pkt_bytes_def)
  have cells: "cells_of (pkt_bytes m) i = mtod m i" if "i < 54" for i
    using that b [OF that] pb by (simp add: cells_of_def)
  have same: "load off n (cells_of (pkt_bytes m)) = load off n (mtod m)" if "off + n \<le> 54" for off n
    using that cells by (intro load_cong) simp
  have fits: "list_all (\<lambda>x. fst x + snd x \<le> 54) (hdr_spans L)" using assms(1) by (simp add: layout_ok_def HEADER_SIZE_def)
  have tcp: "ipv4_next_proto_id L (mtod m) = Some IPPROTO_TCP"
    using assms(2) by (simp add: gen_mbuf_def tcp_buf_def attribute_defs ip_off_def)
  have "pkt_fields_of L (cells_of (pkt_bytes m)) = pkt_fields_of L (mtod m)"
    using fits tcp same unfolding hdr_spans_def ip_off_def l4_off_def pkt_fields_of_def attribute_defs by simp
  then show ?thesis using assms(3) len bytes by (simp add: pkt_ok_def headers_inside_def)
qed

lemma static_fill_spec:
  assumes "layout_ok L" "list_all (gen_mbuf L) ms" "pos + length ms \<le> length d"
  shows "\<exists>ms'. static_fill L d pos ms = Some ms' \<and> list_all (gen_mbuf L) ms'
    \<and> map (\<lambda>m. pkt_fields_of L (mtod m)) ms' = map (\<lambda>a. Some (attr_fields a)) (take (length ms) (drop pos d))"
  using assms(2,3)
proof (induction ms arbitrary: pos)
  case (Cons m ms)
  have m: "tcp_buf L (mtod m)" "pos < length d" using Cons.prems by (simp_all add: gen_mbuf_def)
  obtain q where q: "set_hdr L (d ! pos) (mtod m) = Some q" "tcp_buf L q" "pkt_fields_of L q = Some (attr_fields (d ! pos))"
    using set_hdr_spec [OF assms(1) m(1)] by blast
  obtain ms' where ms': "static_fill L d (pos + 1) ms = Some ms'" "list_all (gen_mbuf L) ms'"
    "map (\<lambda>m. pkt_fields_of L (mtod m)) ms' = map (\<lambda>a. Some (attr_fields a)) (take (length ms) (drop (pos + 1) d))"
    using Cons.IH [of "pos + 1"] Cons.prems by auto
  have "drop pos d = d ! pos # drop (pos + 1) d" using Cons_nth_drop_Suc [OF m(2)] by simp
  moreover have "gen_mbuf L (m\<lparr>mtod := q\<rparr>)" using q(2) Cons.prems(1) by (simp add: gen_mbuf_def)
  ultimately show ?case using q(1,3) ms' m(2) by simp
qed simp

lemma static_fill_overrun:
  assumes "pos \<le> length d" "length d < pos + length ms"
  shows "static_fill L d pos ms = None"
  using assms
proof (induction ms arbitrary: pos)
  case (Cons m ms)
  then show ?case using Cons.IH [of "pos + 1"] by (cases "set_hdr L (d ! pos) (mtod m)") simp_all
qed simp

definition static_ok :: "hdr_layout \<Rightarrow> pkt_attrs list \<Rightarrow> static_generator \<Rightarrow> bool" where
  "static_ok L d sg \<longleftrightarrow> pkt_data sg = d \<and> length (gen_pkts sg) = 32 \<and> list_all (gen_mbuf L) (gen_pkts sg)"

lemma static_batch_spec:
  assumes "layout_ok L" "static_ok L d sg" "cur_pos sg + 32 \<le> length d" "length d < 2 ^ 64"
  shows "\<exists>pkts sg'. static_batch L 32 sg = Some (pkts, sg') \<and> static_ok L d sg' \<and> cur_pos sg' = cur_pos sg + 32
    \<and> length pkts = 32 \<and> list_all (gen_mbuf L) pkts
    \<and> map (\<lambda>m. pkt_fields_of L (mtod m)) pkts = map (\<lambda>a. Some (attr_fields a)) (take 32 (drop (cur_pos sg) d))"
proof -
  have ok: "pkt_data sg = d" "length (gen_pkts sg) = 32" "list_all (gen_mbuf L) (gen_pkts sg)"
    using assms(2) by (simp_all add: static_ok_def)
  obtain ms where ms: "static_fill L d (cur_pos sg) (gen_pkts sg) = Some ms" "list_all (gen_mbuf L) ms"
    "map (\<lambda>m. pkt_fields_of L (mtod m)) ms = map (\<lambda>a. Some (attr_fields a)) (take 32 (drop (cur_pos sg) d))"
    using static_fill_spec [OF assms(1) ok(3), of "cur_pos sg" d] assms(3) ok(2) by auto
  have "length ms = 32" using arg_cong [OF ms(3), of length] assms(3) by simp
  then show ?thesis using ms ok assms(3,4) by (simp add: static_batch_def static_ok_def take_bit_64_id)
qed

lemma static_batch_overrun:
  assumes "static_ok L d sg" "cur_pos sg \<le> length d" "length d < cur_pos sg + 32"
  shows "static_batch L 32 sg = None"
  using assms static_fill_overrun [of "cur_pos sg" d "gen_pkts sg" L] by (simp add: static_batch_def static_ok_def)

text \<open>The packets of \<open>rand_generator\<close> have addresses below 256 and ports below 10.\<close>

lemma four_elements: "4 \<le> length rs \<Longrightarrow> \<exists>a b c d rs'. rs = a # b # c # d # rs'"
  by (auto simp: numeral_eq_Suc Suc_le_length_iff)

definition rand_fields :: "pkt_fields \<Rightarrow> bool" where
  "rand_fields f \<longleftrightarrow> p_src_addr f < 256 \<and> p_dst_addr f < 256
     \<and> (case p_ports f of None \<Rightarrow> False | Some (sp, dp) \<Rightarrow> sp < 10 \<and> dp < 10)"

lemma rand_fill_spec:
  assumes "layout_ok L" "list_all (gen_mbuf L) ms" "4 * length ms \<le> length rs"
  shows "\<exists>ms'. rand_fill L rs ms = Some (ms', drop (4 * length ms) rs) \<and> list_all (gen_mbuf L) ms' \<and> length ms' = length ms
    \<and> list_all (\<lambda>m. \<exists>f. pkt_fields_of L (mtod m) = Some f \<and> rand_fields f) ms'"
  using assms(2,3)
proof (induction ms arbitrary: rs)
  case (Cons m ms)
  have "4 \<le> length rs" using Cons.prems(2) by simp
  then obtain r1 r2 r3 r4 rs' where rs: "rs = r1 # r2 # r3 # r4 # rs'" using four_elements by blast
  have "4 * length (m # ms) = Suc (Suc (Suc (Suc (4 * length ms))))" by simp
  then have drop: "drop (4 * length (m # ms)) rs = drop (4 * length ms) rs'" using rs by (simp only: drop_Suc_Cons)
  let ?a = "\<lparr>sip = r1 mod 256, dip = r2 mod 256, sport = r3 mod 10, dport = r4 mod 10\<rparr>"
  have m: "tcp_buf L (mtod m)" using Cons.prems(1) by (simp add: gen_mbuf_def)
  obtain q where q: "set_hdr L ?a (mtod m) = Some q" "tcp_buf L q" "pkt_fields_of L q = Some (attr_fields ?a)"
    using set_hdr_spec [OF assms(1) m] by blast
  obtain ms' where ms': "rand_fill L rs' ms = Some (ms', drop (4 * length ms) rs')" "list_all (gen_mbuf L) ms'" "length ms' = length ms"
    "list_all (\<lambda>m. \<exists>f. pkt_fields_of L (mtod m) = Some f \<and> rand_fields f) ms'"
    using Cons.IH [of rs'] Cons.prems rs by auto
  have "rand_fields (attr_fields ?a)" by (simp add: rand_fields_def attr_fields_def)
  then have "\<exists>f. pkt_fields_of L q = Some f \<and> rand_fields f" using q(3) by blast
  moreover have "gen_mbuf L (m\<lparr>mtod := q\<rparr>)" using q(2) Cons.prems(1) by (simp add: gen_mbuf_def)
  ultimately show ?case using q(1) ms' rs unfolding drop by simp
qed simp

lemma rand_batch_spec:
  assumes "layout_ok L" "list_all (gen_mbuf L) ms" "length ms = 32" "128 \<le> length rs"
  shows "\<exists>ms'. rand_batch L 32 (ms, rs) = Some (ms', ms', drop 128 rs) \<and> list_all (gen_mbuf L) ms' \<and> length ms' = 32
    \<and> list_all (\<lambda>m. pkt_ok L m \<and> headers_inside L m \<and> rand_fields (fields_of L m)) ms'"
proof -
  have take: "take 32 ms = ms" "drop 32 ms = []" "4 * length ms = 128" using assms(3) by simp_all
  obtain ms' where ms': "rand_fill L rs ms = Some (ms', drop (4 * length ms) rs)" "list_all (gen_mbuf L) ms'" "length ms' = length ms"
    "list_all (\<lambda>m. \<exists>f. pkt_fields_of L (mtod m) = Some f \<and> rand_fields f) ms'"
    using rand_fill_spec [OF assms(1,2), of rs] assms(4) take(3) by auto
  have "pkt_ok L m \<and> headers_inside L m \<and> rand_fields (fields_of L m)" if m: "m \<in> set ms'" for m
  proof -
    obtain f where f: "pkt_fields_of L (mtod m) = Some f" "rand_fields f" using ms'(4) m by (auto simp: list_all_iff)
    have "gen_mbuf L m" using ms'(2) m by (simp add: list_all_iff)
    from gen_mbuf_fields [OF assms(1) this f(1)] show ?thesis using f by (simp add: fields_of_def)
  qed
  then have "list_all (\<lambda>m. pkt_ok L m \<and> headers_inside L m \<and> rand_fields (fields_of L m)) ms'" by (simp add: list_all_iff)
  then show ?thesis using ms'(1-3) take assms(3) by (intro exI [of _ ms']) (simp add: rand_batch_def)
qed

lemma zipf_attrs_total:
  assumes "sorted z1" "sorted z2" "length rs = 4 * n"
  shows "\<exists>d. zipf_attrs z1 z2 rs = Some d \<and> length d = n"
  using assms(3)
proof (induction n arbitrary: rs)
  case (Suc n)
  then have "4 \<le> length rs" by simp
  then obtain r1 r2 r3 r4 rs' where r: "rs = r1 # r2 # r3 # r4 # rs'" using four_elements by blast
  then have rs: "rs = r1 # r2 # r3 # r4 # rs'" "length rs' = 4 * n" using Suc.prems by simp_all
  note z = zipf_next_position [OF assms(1)] zipf_next_position [OF assms(2)]
  obtain a b c d where "zipf_next z1 r1 = Some a" "zipf_next z1 r2 = Some b" "zipf_next z2 r3 = Some c" "zipf_next z2 r4 = Some d"
    using z(1) [of r1] z(1) [of r2] z(2) [of r3] z(2) [of r4] by blast
  moreover obtain as where "zipf_attrs z1 z2 rs' = Some as" "length as = n" using Suc.IH [OF rs(2)] by blast
  ultimately show ?case using rs(1) by simp
qed simp

lemma init_pkts_spec:
  assumes "layout_ok L" "list_all (\<lambda>m. pkt_len m = HEADER_SIZE \<and> buf_ok (mtod m)) ms"
  shows "\<exists>ms'. init_pkts L be16 ms = Some ms' \<and> list_all (gen_mbuf L) ms' \<and> length ms' = length ms"
  using assms(2)
proof (induction ms)
  case (Cons m ms)
  obtain q where q: "init_hdr L be16 (mtod m) = Some q" "tcp_buf L q"
    using init_hdr_spec [OF assms(1), of "mtod m" be16] Cons.prems by auto
  obtain ms' where "init_pkts L be16 ms = Some ms'" "list_all (gen_mbuf L) ms'" "length ms' = length ms" using Cons by auto
  moreover have "gen_mbuf L (m\<lparr>mtod := q\<rparr>)" using q(2) Cons.prems by (simp add: gen_mbuf_def)
  ultimately show ?case using q(1) by simp
qed simp

lemma static_generator_new_spec:
  assumes "layout_ok L" "length bufs = 32" "list_all buf_ok bufs"
  shows "\<exists>sg. static_generator_new L be16 (Inr bufs) d = Some (Inr sg) \<and> static_ok L d sg \<and> cur_pos sg = 0"
proof -
  let ?ms = "map (\<lambda>p. \<lparr>pkt_len = take_bit 16 HEADER_SIZE, mtod = p\<rparr>) bufs"
  have "list_all (\<lambda>m. pkt_len m = HEADER_SIZE \<and> buf_ok (mtod m)) ?ms"
    using assms(3) by (simp add: list_all_iff HEADER_SIZE_def take_bit_eq_mod)
  then obtain ms where "init_pkts L be16 ?ms = Some ms" "list_all (gen_mbuf L) ms" "length ms = 32"
    using init_pkts_spec [OF assms(1)] assms(2) by fastforce
  then show ?thesis by (simp add: static_generator_new_def new_pkts_def mbuf_alloc_bulk_def static_ok_def)
qed

subsection \<open>Turns of a load\<close>

text \<open>What a store says of the fields of its packets.\<close>

definition stored_fields :: "hdr_layout \<Rightarrow> packet_store \<Rightarrow> pkt_fields option list" where
  "stored_fields L s = map (\<lambda>p. pkt_fields_of L (cells_of (snd p))) (store_pkts s)"

text \<open>The state of a load of the packets \<open>d\<close> into a store that had the fields \<open>F\<close> and the tail \<open>o0\<close>.\<close>

definition loading :: "hdr_layout \<Rightarrow> pkt_attrs list \<Rightarrow> pkt_fields option list \<Rightarrow> nat \<Rightarrow>
    packet_generator \<times> static_generator \<times> packet_store \<Rightarrow> bool" where
  "loading L d F o0 st \<longleftrightarrow> (case st of (g, sg, s) \<Rightarrow>
     pkt_limit g = length d \<and> tot_sent_pkts g = cur_pos sg \<and> cur_pos sg \<le> length d \<and> 32 dvd cur_pos sg
     \<and> static_ok L d sg \<and> store_exact L s \<and> dtail (base s) = o0 + 62 * cur_pos sg
     \<and> stored_fields L s = F @ map (\<lambda>a. Some (attr_fields a)) (take (cur_pos sg) d))"

text \<open>The store has room for all packets.\<close>

definition load_fits :: "pkt_attrs list \<Rightarrow> pkt_fields option list \<Rightarrow> nat \<Rightarrow> bool" where
  "load_fits d F o0 \<longleftrightarrow> length F + length d + 96 < 2 ^ 27 \<and> o0 + 62 * length d < 2 ^ 40"

lemma loading_num:
  assumes "loading L d F o0 (g, sg, s)"
  shows "num_pkts s = length F + cur_pos sg"
proof -
  have "length (stored_fields L s) = length F + cur_pos sg" using assms by (simp add: loading_def)
  then show ?thesis by (simp add: stored_fields_def store_pkts_def)
qed

lemma burst_len_gen: "list_all (gen_mbuf L) ms \<Longrightarrow> burst_len ms = 62 * length ms"
  by (induction ms) (simp_all add: burst_len_def gen_mbuf_def HEADER_SIZE_def)

lemma send_batch:
  assumes "layout_ok L" "loading L d F o0 (g, sg, s)" "load_fits d F o0" "cur_pos sg + 32 \<le> length d" "secs < 2 ^ 32"
    and "tot_sent_pkts g' = tot_sent_pkts g + 32" "pkt_limit g' = pkt_limit g"
  shows "\<exists>pkts sg' s'. static_batch L 32 sg = Some (pkts, sg') \<and> vport_send L secs pkts 32 s = Some (32, s')
    \<and> cur_pos sg' = cur_pos sg + 32 \<and> loading L d F o0 (g', sg', s')"
proof -
  have ld: "pkt_limit g = length d" "tot_sent_pkts g = cur_pos sg" "32 dvd cur_pos sg" "static_ok L d sg" "store_exact L s"
    "dtail (base s) = o0 + 62 * cur_pos sg"
    "stored_fields L s = F @ map (\<lambda>a. Some (attr_fields a)) (take (cur_pos sg) d)"
    using assms(2) by (simp_all add: loading_def)
  have fits: "length F + length d + 96 < 2 ^ 27" "o0 + 62 * length d < 2 ^ 40" using assms(3) by (simp_all add: load_fits_def)
  obtain pkts sg' where b: "static_batch L 32 sg = Some (pkts, sg')" "static_ok L d sg'" "cur_pos sg' = cur_pos sg + 32"
    "length pkts = 32" "list_all (gen_mbuf L) pkts"
    "map (\<lambda>m. pkt_fields_of L (mtod m)) pkts = map (\<lambda>a. Some (attr_fields a)) (take 32 (drop (cur_pos sg) d))"
    using static_batch_spec [OF assms(1) ld(4) assms(4)] fits(1) by auto
  have field: "\<exists>f. pkt_fields_of L (mtod m) = Some f" if "m \<in> set pkts" for m
  proof -
    have "pkt_fields_of L (mtod m) \<in> set (map (\<lambda>a. Some (attr_fields a)) (take 32 (drop (cur_pos sg) d)))"
      using that b(6) by (metis image_eqI list.set_map)
    then show ?thesis by auto
  qed
  have m: "pkt_ok L m \<and> headers_inside L m \<and> pkt_len m = 54 \<and> pkt_fields_of L (cells_of (pkt_bytes m)) = pkt_fields_of L (mtod m)"
    if "m \<in> set pkts" for m
    using gen_mbuf_fields [OF assms(1)] field [OF that] b(5) that by (fastforce simp: list_all_iff)
  have "burst_small L secs pkts s"
    using m b(4) assms(4,5) fits ld(6) loading_num [OF assms(2)] burst_len_gen [OF b(5)] by (auto simp: burst_small_def)
  then obtain s' where s': "insert_pktburst L secs pkts s = Some s'" "store_exact L s'"
    "store_pkts s' = store_pkts s @ map (\<lambda>m. (secs, pkt_bytes m)) pkts" "dtail (base s') = dtail (base s) + burst_len pkts"
    using insert_pktburst_keeps_exact [OF ld(5)] by blast
  have "stored_fields L s' = stored_fields L s @ map (\<lambda>m. pkt_fields_of L (mtod m)) pkts"
    using m by (simp add: stored_fields_def s'(3))
  then have "stored_fields L s' = F @ map (\<lambda>a. Some (attr_fields a)) (take (cur_pos sg + 32) d)"
    using ld(7) b(6) by (simp add: take_add)
  then have "loading L d F o0 (g', sg', s')"
    using ld b(2,3,4,5) s'(2,4) assms(4,6,7) burst_len_gen [OF b(5)] by (simp add: loading_def)
  then show ?thesis using b s'(1) by (simp add: vport_send_def)
qed

lemma gen_grant_keeps:
  assumes "gen_grant rnd tb g = (g1, ok)"
  shows "tot_sent_pkts g1 = tot_sent_pkts g \<and> pkt_limit g1 = pkt_limit g \<and> gen_rate g1 = gen_rate g
    \<and> time_limit g1 = time_limit g \<and> (gen_rate g = 0 \<longrightarrow> ok)"
  using assms by (auto simp: gen_grant_def split: if_splits prod.splits)

lemma gen_report_keeps:
  "tot_sent_pkts (gen_report g) = tot_sent_pkts g \<and> pkt_limit (gen_report g) = pkt_limit g
    \<and> gen_rate (gen_report g) = gen_rate g \<and> time_limit (gen_report g) = time_limit g"
  by (simp add: gen_report_def)

abbreviation static_turn :: "(real \<Rightarrow> real) \<Rightarrow> hdr_layout \<Rightarrow> nat \<Rightarrow> nat \<Rightarrow> packet_generator \<times> static_generator \<times> packet_store \<Rightarrow>
    (packet_generator \<times> static_generator \<times> packet_store) option" where
  "static_turn rnd L \<equiv> load_turn rnd (static_batch L) (vport_send L)"

abbreviation static_run :: "(real \<Rightarrow> real) \<Rightarrow> hdr_layout \<Rightarrow> nat \<Rightarrow> (nat \<times> nat \<times> nat) list \<Rightarrow>
    packet_generator \<times> static_generator \<times> packet_store \<Rightarrow>
    ((packet_generator \<times> static_generator \<times> packet_store) + (packet_generator \<times> static_generator \<times> packet_store)) option" where
  "static_run rnd L \<equiv> load_run rnd (static_batch L) (vport_send L)"

lemma static_turn_step:
  assumes "layout_ok L" "loading L d F o0 (g, sg, s)" "load_fits d F o0" "cur_pos sg + 32 \<le> length d" "secs < 2 ^ 32"
  shows "\<exists>g' sg' s'. static_turn rnd L tb secs (g, sg, s) = Some (g', sg', s') \<and> loading L d F o0 (g', sg', s')
    \<and> gen_rate g' = gen_rate g \<and> time_limit g' = time_limit g
    \<and> cur_pos sg' \<ge> cur_pos sg \<and> (gen_rate g = 0 \<longrightarrow> cur_pos sg' = cur_pos sg + 32)"
proof -
  obtain g1 ok where g1: "gen_grant rnd tb g = (g1, ok)" by fastforce
  note k = gen_grant_keeps [OF g1]
  show ?thesis
  proof (cases ok)
    case False
    have "loading L d F o0 (gen_report g1, sg, s)"
      using assms(2) k gen_report_keeps [of g1] by (simp add: loading_def)
    then show ?thesis using k g1 False gen_report_keeps [of g1] by (simp add: load_turn_def)
  next
    case True
    let ?g = "gen_report (gen_send 32 g1)"
    have sent: "tot_sent_pkts g + 32 < 2 ^ 64" using assms(2-4) by (simp add: loading_def load_fits_def)
    have r: "tot_sent_pkts ?g = tot_sent_pkts g + 32" "pkt_limit ?g = pkt_limit g" "gen_rate ?g = gen_rate g" "time_limit ?g = time_limit g"
      using k sent gen_report_keeps [of "gen_send 32 g1"] by (simp_all add: gen_send_def take_bit_64_id)
    from send_batch [OF assms r(1,2)] obtain pkts sg' s' where
      "static_batch L 32 sg = Some (pkts, sg')" "vport_send L secs pkts 32 s = Some (32, s')"
      "cur_pos sg' = cur_pos sg + 32" "loading L d F o0 (?g, sg', s')" by blast
    then show ?thesis using g1 True r(3,4) by (simp add: load_turn_def RTE_BURST_SIZE_def)
  qed
qed

lemma next_multiple: "a < b \<Longrightarrow> 32 dvd a \<Longrightarrow> 32 dvd b \<Longrightarrow> a + 32 \<le> b" for a b :: nat
  by (elim dvdE) simp

lemma static_run_spec:
  assumes "layout_ok L" "load_fits d F o0" "32 dvd length d"
    and "loading L d F o0 (g, sg, s)" "time_limit g = 0" "list_all (\<lambda>(now, tb, secs). secs < 2 ^ 32) ts"
  shows "\<exists>r. static_run rnd L start ts (g, sg, s) = Some r
    \<and> (case r of Inl st \<Rightarrow> loading L d F o0 st | Inr st \<Rightarrow> loading L d F o0 st \<and> cur_pos (fst (snd st)) = length d)
    \<and> (gen_rate g = 0 \<longrightarrow> length d < cur_pos sg + 32 * length ts \<longrightarrow> (\<exists>st. r = Inr st))"
  using assms(4-6)
proof (induction ts arbitrary: g sg s)
  case (Cons t ts)
  obtain now tb secs where t: "t = (now, tb, secs)" by (cases t)
  have ld: "pkt_limit g = length d" "tot_sent_pkts g = cur_pos sg" "cur_pos sg \<le> length d" "32 dvd cur_pos sg"
    using Cons.prems(1) by (simp_all add: loading_def)
  show ?case
  proof (cases "gen_running start now g")
    case False
    then have "cur_pos sg = length d" using ld Cons.prems(2) by (simp add: gen_running_def)
    then show ?thesis using False t Cons.prems(1) by simp
  next
    case True
    then have "cur_pos sg + 32 \<le> length d" using next_multiple assms(3) ld by (simp add: gen_running_def)
    then obtain g' sg' s' where st: "static_turn rnd L tb secs (g, sg, s) = Some (g', sg', s')" "loading L d F o0 (g', sg', s')"
      "gen_rate g' = gen_rate g" "time_limit g' = time_limit g" "gen_rate g = 0 \<longrightarrow> cur_pos sg' = cur_pos sg + 32"
      using static_turn_step [OF assms(1) Cons.prems(1) assms(2), of secs rnd tb] Cons.prems(3) t by auto
    obtain r where "static_run rnd L start ts (g', sg', s') = Some r"
      "case r of Inl st \<Rightarrow> loading L d F o0 st | Inr st \<Rightarrow> loading L d F o0 st \<and> cur_pos (fst (snd st)) = length d"
      "gen_rate g' = 0 \<longrightarrow> length d < cur_pos sg' + 32 * length ts \<longrightarrow> (\<exists>st. r = Inr st)"
      using Cons.IH [OF st(2)] Cons.prems(2,3) st(4) by auto
    then show ?thesis using True t st(1,3,5) by auto
  qed
qed (simp add: loading_def)

lemma static_run_overrun:
  assumes "layout_ok L" "load_fits d F o0" "\<not> 32 dvd length d"
    and "loading L d F o0 (g, sg, s)" "time_limit g = 0" "gen_rate g = 0" "list_all (\<lambda>(now, tb, secs). secs < 2 ^ 32) ts"
    and "length d < cur_pos sg + 32 * length ts"
  shows "static_run rnd L start ts (g, sg, s) = None"
  using assms(4-)
proof (induction ts arbitrary: g sg s)
  case (Cons t ts)
  obtain now tb secs where t: "t = (now, tb, secs)" by (cases t)
  have ld: "pkt_limit g = length d" "tot_sent_pkts g = cur_pos sg" "cur_pos sg \<le> length d" "32 dvd cur_pos sg" "static_ok L d sg"
    using Cons.prems(1) by (simp_all add: loading_def)
  have "cur_pos sg \<noteq> length d" using ld(4) assms(3) by auto
  then have run: "gen_running start now g" using ld Cons.prems(2) by (simp add: gen_running_def)
  show ?case
  proof (cases "cur_pos sg + 32 \<le> length d")
    case True
    then obtain g' sg' s' where "static_turn rnd L tb secs (g, sg, s) = Some (g', sg', s')" "loading L d F o0 (g', sg', s')"
      "gen_rate g' = gen_rate g" "time_limit g' = time_limit g" "gen_rate g = 0 \<longrightarrow> cur_pos sg' = cur_pos sg + 32"
      using static_turn_step [OF assms(1) Cons.prems(1) assms(2), of secs rnd tb] Cons.prems(4) t by auto
    then show ?thesis using Cons.IH [of g' sg' s'] Cons.prems t run by simp
  next
    case False
    then have "static_batch L 32 sg = None" using static_batch_overrun [OF ld(5,3)] by simp
    then show ?thesis
      using run t Cons.prems(3) by (simp add: load_turn_def gen_grant_def RTE_BURST_SIZE_def)
  qed
qed (simp add: loading_def)

section \<open>Loads of the filter benchmark\<close>

lemma load_start:
  assumes "layout_ok L" "length bufs = 32" "list_all buf_ok bufs" "store_exact L s"
  shows "\<exists>sg. static_generator_new L be16 (Inr bufs) d = Some (Inr sg) \<and> cur_pos sg = 0
    \<and> loading L d (stored_fields L s) (dtail (base s)) (packet_generator_new rnd t0 rate 0 (length d), sg, s)"
proof -
  obtain sg where "static_generator_new L be16 (Inr bufs) d = Some (Inr sg)" "static_ok L d sg" "cur_pos sg = 0"
    using static_generator_new_spec [OF assms(1-3)] by blast
  then show ?thesis using assms(4) by (simp add: loading_def packet_generator_new_def)
qed

lemma stored_fields_length: "length (stored_fields L s) = num_pkts s"
  by (simp add: stored_fields_def store_pkts_def)

lemma load_data_spec:
  assumes "layout_ok L" "length bufs = 32" "list_all buf_ok bufs" "store_exact L s" "32 dvd length d"
    and "num_pkts s + length d + 96 < 2 ^ 27" "dtail (base s) + 62 * length d < 2 ^ 40"
    and "list_all (\<lambda>(now, tb, secs). secs < 2 ^ 32) ts"
  shows "\<exists>r. load_data rnd L be16 (Inr bufs) rate t0 start ts d s = Some (Inr r)
    \<and> (\<forall>g sg s'. r = Inr (g, sg, s') \<longrightarrow> store_exact L s' \<and> tot_sent_pkts g = length d
         \<and> stored_fields L s' = stored_fields L s @ map (\<lambda>a. Some (attr_fields a)) d)
    \<and> (rate = 0 \<longrightarrow> length d < 32 * length ts \<longrightarrow> (\<exists>st. r = Inr st))"
proof -
  let ?g = "packet_generator_new rnd t0 rate 0 (length d)"
  obtain sg where sg: "static_generator_new L be16 (Inr bufs) d = Some (Inr sg)" "cur_pos sg = 0"
    "loading L d (stored_fields L s) (dtail (base s)) (?g, sg, s)" using load_start [OF assms(1-4)] by blast
  have fits: "load_fits d (stored_fields L s) (dtail (base s))"
    using assms(6,7) by (simp add: load_fits_def stored_fields_length)
  have g: "time_limit ?g = 0" "gen_rate ?g = rate" by (simp_all add: packet_generator_new_def)
  obtain r where r: "static_run rnd L start ts (?g, sg, s) = Some r"
    "case r of Inl st \<Rightarrow> loading L d (stored_fields L s) (dtail (base s)) st
      | Inr st \<Rightarrow> loading L d (stored_fields L s) (dtail (base s)) st \<and> cur_pos (fst (snd st)) = length d"
    "rate = 0 \<longrightarrow> length d < 32 * length ts \<longrightarrow> (\<exists>st. r = Inr st)"
    using static_run_spec [OF assms(1) fits assms(5) sg(3) g(1) assms(8), where rnd = rnd and start = start, unfolded sg(2) g(2) add_0]
    by (elim exE conjE) (rule that)
  have "store_exact L s' \<and> tot_sent_pkts g = length d \<and> stored_fields L s' = stored_fields L s @ map (\<lambda>a. Some (attr_fields a)) d"
    if "r = Inr (g, sg, s')" for g sg s'
    using r(2) that by (simp add: loading_def)
  then show ?thesis using r(1,3) sg(1) by (simp add: load_data_def)
qed

text \<open>
  C23. A load stores the packets it was asked to. For a multiple of 32 packets and a store that has room, the load
  is never undefined, at any rate and with any clock. When it ends, the store has its old packets
  followed by packets with the addresses and ports of the array, in its order, its indexes and characters are still exact,
  and the generator has counted the packets. Without a rate limit, it ends after one turn per 32 packets.
\<close>

theorem load_data_stores:
  assumes "layout_ok L" "length bufs = 32" "list_all buf_ok bufs" "store_exact L s" "32 dvd length d"
    and "num_pkts s + length d + 96 < 2 ^ 27" "dtail (base s) + 62 * length d < 2 ^ 40"
    and "list_all (\<lambda>(now, tb, secs). secs < 2 ^ 32) ts"
  shows "\<exists>r. load_data rnd L be16 (Inr bufs) rate t0 start ts d s = Some (Inr r)
    \<and> (\<forall>g sg s'. r = Inr (g, sg, s') \<longrightarrow> store_exact L s' \<and> tot_sent_pkts g = length d
         \<and> stored_fields L s' = stored_fields L s @ map (\<lambda>a. Some (attr_fields a)) d)
    \<and> (rate = 0 \<longrightarrow> length d < 32 * length ts \<longrightarrow> (\<exists>st. r = Inr st))"
  by (rule load_data_spec [OF assms])

text \<open>
  A load of any other number of packets reads behind the array. The generator fills whole batches of 32, so the last
  batch takes attributes from behind the end of the array.
\<close>

theorem load_data_overrun:
  assumes "layout_ok L" "length bufs = 32" "list_all buf_ok bufs" "store_exact L s" "\<not> 32 dvd length d"
    and "num_pkts s + length d + 96 < 2 ^ 27" "dtail (base s) + 62 * length d < 2 ^ 40"
    and "list_all (\<lambda>(now, tb, secs). secs < 2 ^ 32) ts" "length d < 32 * length ts"
  shows "load_data rnd L be16 (Inr bufs) 0 t0 start ts d s = None"
proof -
  let ?g = "packet_generator_new rnd t0 0 0 (length d)"
  obtain sg where sg: "static_generator_new L be16 (Inr bufs) d = Some (Inr sg)" "cur_pos sg = 0"
    "loading L d (stored_fields L s) (dtail (base s)) (?g, sg, s)" using load_start [OF assms(1-4)] by blast
  have "load_fits d (stored_fields L s) (dtail (base s))"
    using assms(6,7) by (simp add: load_fits_def stored_fields_length)
  then have "static_run rnd L start ts (?g, sg, s) = None"
    using static_run_overrun [OF assms(1) _ assms(5) sg(3) _ _ assms(8)] sg(2) assms(9) by (simp add: packet_generator_new_def)
  then show ?thesis using sg(1) by (simp add: load_data_def)
qed

definition zero_buf :: packet where
  "zero_buf = (\<lambda>i. if i < 54 then Some 0 else None)"

lemma zero_bufs: "length (replicate 32 zero_buf) = 32" "list_all buf_ok (replicate 32 zero_buf)"
  by (auto simp: list_all_iff buf_ok_def zero_buf_def HEADER_SIZE_def)

theorem load_data_stores_witness:
  "\<exists>s r. packet_store_init = Some s
    \<and> load_data (\<lambda>x. x) wire_layout (\<lambda>v. v) (Inr (replicate 32 zero_buf)) 0 0 0
        [(0, 0, 1500000000), (1, 1, 1500000000), (2, 2, 1500000000)]
        (replicate 64 \<lparr>sip = 1, dip = 2, sport = 3, dport = 4\<rparr>) s = Some (Inr (Inr r))
    \<and> stored_fields wire_layout (snd (snd r)) = replicate 64 (Some \<lparr>p_src_addr = 1, p_dst_addr = 2, p_ports = Some (3, 4)\<rparr>)"
proof -
  let ?d = "replicate 64 \<lparr>sip = 1, dip = 2, sport = 3, dport = 4\<rparr>"
  let ?ts = "[(0, 0, 1500000000), (1, 1, 1500000000), (2, 2, 1500000000 :: nat)]"
  obtain s where s: "packet_store_init = Some s" "store_exact wire_layout s" "store_pkts s = []" "dtail (base s) = 0"
    using packet_store_init_exact by blast
  have n: "num_pkts s = 0" "stored_fields wire_layout s = []" using s(3) by (simp_all add: store_pkts_def stored_fields_def)
  have "32 dvd length ?d" "num_pkts s + length ?d + 96 < 2 ^ 27" "dtail (base s) + 62 * length ?d < 2 ^ 40"
    "list_all (\<lambda>(now, tb, secs). secs < 2 ^ 32) ?ts" "length ?d < 32 * length ?ts" using s(4) n(1) by simp_all
  note load = load_data_stores [OF wire_layout_ok zero_bufs s(2) this(1-4), of "\<lambda>x. x" "\<lambda>v. v" 0 0 0]
  then obtain g sg s' where "load_data (\<lambda>x. x) wire_layout (\<lambda>v. v) (Inr (replicate 32 zero_buf)) 0 0 0 ?ts ?d s = Some (Inr (Inr (g, sg, s')))"
    "stored_fields wire_layout s' = map (\<lambda>a. Some (attr_fields a)) ?d" using n(2) by auto
  then show ?thesis using s(1) by (intro exI [of _ s] exI [of _ "(g, sg, s')"]) (simp add: attr_fields_def map_replicate_const)
qed

theorem load_data_overrun_witness:
  "\<exists>s. packet_store_init = Some s
    \<and> load_data (\<lambda>x. x) wire_layout (\<lambda>v. v) (Inr (replicate 32 zero_buf)) 0 0 0 [(0, 0, 1500000000)]
        (replicate 20 \<lparr>sip = 1, dip = 2, sport = 3, dport = 4\<rparr>) s = None"
proof -
  obtain s where s: "packet_store_init = Some s" "store_exact wire_layout s" "store_pkts s = []" "dtail (base s) = 0"
    using packet_store_init_exact by blast
  have "num_pkts s = 0" using s(3) by (simp add: store_pkts_def)
  then show ?thesis
    using s(1,4) load_data_overrun [OF wire_layout_ok zero_bufs s(2), of "replicate 20 \<lparr>sip = 1, dip = 2, sport = 3, dport = 4\<rparr>"
        "[(0, 0, 1500000000)]"] by auto
qed

end
