(* ===== verification/Zipf_Table.thy ===== *)
theory Zipf_Table
  imports Traffic_Generator
begin

section \<open>The table of the Zipf generator (rand_generators.h)\<close>

text \<open>
  \<open>pow\<close> of the C library is the argument \<open>pw\<close>, the rounding to a \<open>double\<close> the argument \<open>rnd\<close>. \<open>None\<close> is a failed
  assertion of the constructor.
\<close>

definition zipf_sum :: "(real \<Rightarrow> real) \<Rightarrow> (real \<Rightarrow> real \<Rightarrow> real) \<Rightarrow> real \<Rightarrow> nat \<Rightarrow> real" where
  "zipf_sum rnd pw expo n = foldl (\<lambda>sum i. rnd (sum + rnd (1 / pw (rnd (real i)) expo))) 0 [1..<n + 1]"

fun zipf_fill :: "(real \<Rightarrow> real) \<Rightarrow> (real \<Rightarrow> real \<Rightarrow> real) \<Rightarrow> real \<Rightarrow> real \<Rightarrow> real \<Rightarrow> nat list \<Rightarrow> real list" where
  "zipf_fill rnd pw expo c sumc [] = []"
| "zipf_fill rnd pw expo c sumc (i # is) =
     (let s = rnd (sumc + rnd (c / pw (rnd (real (i + 1))) expo)) in s # zipf_fill rnd pw expo c s is)"

definition generate_zipf :: "(real \<Rightarrow> real) \<Rightarrow> (real \<Rightarrow> real \<Rightarrow> real) \<Rightarrow> real \<Rightarrow> nat \<Rightarrow> real list" where
  "generate_zipf rnd pw theta n =
     (let expo = rnd (1 - theta); c = rnd (1 / zipf_sum rnd pw expo n) in zipf_fill rnd pw expo c 0 [0..<n])"

definition zipf_generator :: "(real \<Rightarrow> real) \<Rightarrow> (real \<Rightarrow> real \<Rightarrow> real) \<Rightarrow> real \<Rightarrow> nat \<Rightarrow> real list option" where
  "zipf_generator rnd pw theta n =
     (if 0 < n \<and> 0 \<le> theta \<and> theta \<le> 1 then Some (generate_zipf rnd pw theta n) else None)"

section \<open>Any table ascends\<close>

text \<open>A power of a number that is not negative is not negative, and anything to the power 0 is 1.\<close>

definition pow_ok :: "(real \<Rightarrow> real \<Rightarrow> real) \<Rightarrow> bool" where
  "pow_ok pw \<longleftrightarrow> (\<forall>x y. 0 \<le> x \<longrightarrow> 0 \<le> pw x y) \<and> (\<forall>x. pw x 0 = 1)"

lemma pow_ok_powr: "pow_ok (\<lambda>x y. if y = 0 then 1 else x powr y)"
  by (simp add: pow_ok_def)

lemma zipf_sum_nonneg:
  assumes "fp_rounding rnd" "pow_ok pw"
  shows "0 \<le> zipf_sum rnd pw expo n"
proof -
  have "0 \<le> foldl (\<lambda>sum i. rnd (sum + rnd (1 / pw (rnd (real i)) expo))) a is" if "0 \<le> a" for a "is"
    using that fp_roundingD(4) [OF assms(1)] assms(2) by (induction "is" arbitrary: a) (simp_all add: pow_ok_def)
  then show ?thesis by (simp add: zipf_sum_def)
qed

lemma zipf_fill_length [simp]: "length (zipf_fill rnd pw expo c sumc is) = length is"
  by (induction "is" arbitrary: sumc) (simp_all add: Let_def)

lemma zipf_fill_sorted:
  assumes "fp_rounding rnd" "pow_ok pw" "0 \<le> c" "rnd sumc = sumc"
  shows "sorted (sumc # zipf_fill rnd pw expo c sumc is)"
  using assms(4)
proof (induction "is" arbitrary: sumc)
  case (Cons i "is")
  note f = fp_roundingD [OF assms(1)]
  let ?s = "rnd (sumc + rnd (c / pw (rnd (real (i + 1))) expo))"
  have "0 \<le> rnd (c / pw (rnd (real (i + 1))) expo)" using f(4) assms(2,3) by (simp add: pow_ok_def)
  then have "rnd sumc \<le> ?s" by (intro f(1)) simp
  then have le: "sumc \<le> ?s" using Cons.prems by simp
  have "sorted (?s # zipf_fill rnd pw expo c ?s is)" by (intro Cons.IH f(2))
  then show ?case using le by (auto simp: Let_def)
qed simp

lemma zipf_generator_table:
  assumes "fp_rounding rnd" "pow_ok pw" "0 < n" "0 \<le> theta" "theta \<le> 1"
  shows "\<exists>z. zipf_generator rnd pw theta n = Some z \<and> sorted z \<and> length z = n"
proof -
  note f = fp_roundingD [OF assms(1)]
  let ?e = "rnd (1 - theta)"
  let ?c = "rnd (1 / zipf_sum rnd pw ?e n)"
  have "0 \<le> ?c" using zipf_sum_nonneg [OF assms(1,2)] by (intro f(4)) simp
  then have "sorted (0 # zipf_fill rnd pw ?e ?c 0 [0..<n])" using f(3) by (intro zipf_fill_sorted [OF assms(1,2)])
  then show ?thesis using assms(3-5) by (simp add: zipf_generator_def generate_zipf_def Let_def)
qed

section \<open>The skew 1 is the uniform distribution\<close>

lemma zipf_sum_flat: "pow_ok pw \<Longrightarrow> zipf_sum (\<lambda>x. x) pw 0 n = real n"
  by (induction n) (simp_all add: zipf_sum_def pow_ok_def)

lemma zipf_fill_flat:
  assumes "pow_ok pw"
  shows "zipf_fill (\<lambda>x. x) pw 0 c (real i * c) [i..<i + k] = map (\<lambda>j. real (j + 1) * c) [i..<i + k]"
proof (induction k arbitrary: i)
  case (Suc k)
  have "[i..<i + Suc k] = i # [Suc i..<Suc i + k]" by (simp add: upt_rec)
  moreover have "real i * c + c / pw (real (i + 1)) 0 = real (Suc i) * c" using assms by (simp add: pow_ok_def algebra_simps)
  ultimately show ?case using Suc [of "Suc i"] by (simp add: Let_def)
qed simp

lemma zipf_generator_uniform:
  assumes "pow_ok pw" "0 < n"
  shows "zipf_generator (\<lambda>x. x) pw 1 n = Some (map (\<lambda>j. real (j + 1) / real n) [0..<n])"
proof -
  have "zipf_fill (\<lambda>x. x) pw 0 (1 / real n) 0 [0..<n] = map (\<lambda>j. real (j + 1) * (1 / real n)) [0..<n]"
    using zipf_fill_flat [OF assms(1), of "1 / real n" 0 n] by simp
  then show ?thesis using assms by (simp add: zipf_generator_def generate_zipf_def zipf_sum_flat)
qed

text \<open>
  The generators of the benchmarks have the skew 1, which is the uniform distribution: without rounding errors a
  random number below 1 gives its part of the range, each value with the same share; the random number 1
  gives the value behind the last.
\<close>

lemma zipf_next_uniform:
  assumes "pow_ok pw" "0 < n" "0 \<le> r" "r \<le> 1"
  shows "\<exists>z. zipf_generator (\<lambda>x. x) pw 1 n = Some z \<and> zipf_next z r = Some (nat \<lfloor>r * real n\<rfloor>)"
proof -
  let ?z = "map (\<lambda>j. real (j + 1) / real n) [0..<n]"
  have nth: "?z ! i = real (i + 1) / real n" if "i < n" for i using that by simp
  have sorted: "sorted ?z" using assms(2) by (auto simp: sorted_iff_nth_mono divide_right_mono)
  obtain k where k: "zipf_next ?z r = Some k" "\<forall>i < k. ?z ! i \<le> r" "k < n \<longrightarrow> r < ?z ! k" "k \<le> n"
    using zipf_search_spec [OF sorted, of 0 n r] by (auto simp: zipf_next_def)
  have hi: "r * real n < real k + 1"
  proof (cases "k < n")
    case True
    then show ?thesis using k(3) nth [OF True] assms(2) by (simp add: field_simps)
  next
    case False
    have "r * real n \<le> real n" using mult_right_mono [OF assms(4), of "real n"] by simp
    then show ?thesis using False k(4) by simp
  qed
  have lo: "real k \<le> r * real n"
  proof (cases k)
    case (Suc j)
    then have "real (j + 1) / real n \<le> r" using k(2,4) nth [of j] by simp
    then show ?thesis using Suc assms(2) by (simp add: field_simps)
  qed (use assms(3) in simp)
  have "\<lfloor>r * real n\<rfloor> = int k" using lo hi by (intro floor_unique) simp_all
  then show ?thesis using zipf_generator_uniform [OF assms(1,2)] k(1) by simp
qed

end
