(* ===== verification/Bench_Loading.thy ===== *)
theory Bench_Loading
  imports Packet_Loading Zipf_Table
begin

section \<open>Loads through the rate limiter (packet_bench.cc, storage_bench.cc)\<close>

text \<open>
  The packet benchmark gives every worker a part of an array of packets and lets it insert them through the
  rate limiter, a template over generator and port. A turn has the clock before and after the pause and the second
  \<open>insert_pktburst\<close> reads.
\<close>

definition BURST_SIZE :: nat where "BURST_SIZE = 32"
definition RL_BATCH_SIZE :: nat where "RL_BATCH_SIZE = 65536"

subsection \<open>The loop\<close>

definition rl_load_turn ::
  "(real \<Rightarrow> real) \<Rightarrow> (nat \<Rightarrow> 'g \<Rightarrow> (mbuf list \<times> 'g) option) \<Rightarrow> (nat \<Rightarrow> mbuf list \<Rightarrow> nat \<Rightarrow> 'v \<Rightarrow> (nat \<times> 'v) option) \<Rightarrow>
   nat \<times> nat \<times> nat \<Rightarrow> (rate_limiter \<times> nat) \<times> 'g \<times> 'v \<Rightarrow> ((rate_limiter \<times> nat) \<times> 'g \<times> 'v) option" where
  "rl_load_turn rnd batch send t st =
     (case t of (now, after, secs) \<Rightarrow> case st of (ge, x, v) \<Rightarrow> do {
        (pkts, x') \<leftarrow> batch BURST_SIZE x;
        (sent, v') \<leftarrow> send secs pkts BURST_SIZE v;
        Some (fst (rl_turn rnd RL_BATCH_SIZE (sent, now, after) ge), x', v') })"

fun rl_load_run ::
  "(real \<Rightarrow> real) \<Rightarrow> (nat \<Rightarrow> 'g \<Rightarrow> (mbuf list \<times> 'g) option) \<Rightarrow> (nat \<Rightarrow> mbuf list \<Rightarrow> nat \<Rightarrow> 'v \<Rightarrow> (nat \<times> 'v) option) \<Rightarrow>
   (nat \<times> nat \<times> nat) list \<Rightarrow> (rate_limiter \<times> nat) \<times> 'g \<times> 'v \<Rightarrow>
   (((rate_limiter \<times> nat) \<times> 'g \<times> 'v) + ((rate_limiter \<times> nat) \<times> 'g \<times> 'v)) option" where
  "rl_load_run rnd batch send ts st =
     (if rl_tot_sent_pkts (fst (fst st)) < rl_pkt_limit (fst (fst st)) then
        (case ts of
           [] \<Rightarrow> Some (Inl st)
         | t # ts' \<Rightarrow> do { st' \<leftarrow> rl_load_turn rnd batch send t st; rl_load_run rnd batch send ts' st' })
      else Some (Inr st))"

declare rl_load_run.simps [simp del]

subsection \<open>The packets of the benchmarks\<close>

definition bench_attrs :: "(real \<Rightarrow> real) \<Rightarrow> (real \<Rightarrow> real \<Rightarrow> real) \<Rightarrow> real list \<Rightarrow> pkt_attrs list option" where
  "bench_attrs rnd pw rs = do {
     z1 \<leftarrow> zipf_generator rnd pw 1 256;
     z2 \<leftarrow> zipf_generator rnd pw 1 10;
     zipf_attrs z1 z2 rs }"

lemma bench_attrs_total:
  assumes "fp_rounding rnd" "pow_ok pw" "length rs = 4 * n"
  shows "\<exists>d. bench_attrs rnd pw rs = Some d \<and> length d = n"
proof -
  obtain z1 z2 where "zipf_generator rnd pw 1 256 = Some z1" "zipf_generator rnd pw 1 10 = Some z2" "sorted z1" "sorted z2"
    using zipf_generator_table [OF assms(1,2), of 256 1] zipf_generator_table [OF assms(1,2), of 10 1] by auto
  then show ?thesis using zipf_attrs_total [of z1 z2 rs n] assms(3) by (simp add: bench_attrs_def)
qed

subsection \<open>The packet benchmark\<close>

text \<open>
  How many packets a worker loads, and at which rate: the limit is divided by the number of threads, an
  unsigned division that is undefined for none.
\<close>

definition worker_rate :: "nat \<Rightarrow> nat \<Rightarrow> nat option" where
  "worker_rate rate num_threads = (if num_threads = 0 then None else Some (rate div num_threads))"

definition worker_pkts :: "nat \<Rightarrow> nat" where
  "worker_pkts rate = (if rate \<noteq> 0 then min 4000000 rate * 10 else 60000000)"

text \<open>
  A worker: its number, what the memory pool gives it, the time it starts at and its clock readings. It ends the process if
  it gets no buffers. The threads are run one after the other here; their bursts on the common store may interleave.
\<close>

record bench_worker =
  w_id :: nat
  w_got :: "int + packet list"
  w_epoch :: nat
  w_turns :: "(nat \<times> nat \<times> nat) list"

datatype bench_result = Exited int | Running packet_store | Finished packet_store

definition run_worker :: "(real \<Rightarrow> real) \<Rightarrow> hdr_layout \<Rightarrow> (nat \<Rightarrow> nat) \<Rightarrow> nat \<Rightarrow> nat \<Rightarrow> pkt_attrs list \<Rightarrow> bench_worker \<Rightarrow>
    packet_store \<Rightarrow> bench_result option" where
  "run_worker rnd L be16 rate cnt data w s = do {
     r \<leftarrow> static_generator_new L be16 (w_got w) (drop (w_id w * cnt) data);
     (case r of
        Inl ret \<Rightarrow> Some (Exited ret)
      | Inr sg \<Rightarrow> do {
          e \<leftarrow> rl_load_run rnd (static_batch L) (vport_send L) (w_turns w) ((rate_limiter_new rate cnt, w_epoch w), sg, s);
          Some (case e of Inl (_, _, s') \<Rightarrow> Running s' | Inr (_, _, s') \<Rightarrow> Finished s') }) }"

fun run_workers :: "(real \<Rightarrow> real) \<Rightarrow> hdr_layout \<Rightarrow> (nat \<Rightarrow> nat) \<Rightarrow> nat \<Rightarrow> nat \<Rightarrow> pkt_attrs list \<Rightarrow> bench_worker list \<Rightarrow>
    packet_store \<Rightarrow> bench_result option" where
  "run_workers rnd L be16 rate cnt data [] s = Some (Finished s)"
| "run_workers rnd L be16 rate cnt data (w # ws) s = do {
     r \<leftarrow> run_worker rnd L be16 rate cnt data w s;
     (case r of Finished s' \<Rightarrow> run_workers rnd L be16 rate cnt data ws s' | _ \<Rightarrow> Some r) }"

text \<open>\<open>load_packets\<close>: the random numbers give four attributes for every packet of every worker.\<close>

definition packet_bench_load :: "(real \<Rightarrow> real) \<Rightarrow> (real \<Rightarrow> real \<Rightarrow> real) \<Rightarrow> hdr_layout \<Rightarrow> (nat \<Rightarrow> nat) \<Rightarrow> real list \<Rightarrow> nat \<Rightarrow>
    bench_worker list \<Rightarrow> packet_store \<Rightarrow> bench_result option" where
  "packet_bench_load rnd pw L be16 rs rate ws s = do {
     wr \<leftarrow> worker_rate rate (length ws);
     let n = worker_pkts wr in do {
       data \<leftarrow> bench_attrs rnd pw (take (4 * (length ws * n)) rs);
       run_workers rnd L be16 wr n data ws s } }"

subsection \<open>The storage benchmark\<close>

text \<open>
  Its generator has the same text, but the constructor assigns the parameter \<open>pkt_data\<close> to itself, so the member of the
  same name stays uninitialised and every packet of a batch is read through it.
\<close>

record storage_generator =
  sg_pos :: nat
  sg_data :: "pkt_attrs list option"
  sg_pkts :: "mbuf list"

definition storage_generator_new :: "hdr_layout \<Rightarrow> (nat \<Rightarrow> nat) \<Rightarrow> int + packet list \<Rightarrow> pkt_attrs list \<Rightarrow>
    (int + storage_generator) option" where
  "storage_generator_new L be16 got d = do {
     r \<leftarrow> new_pkts L be16 got;
     Some (case r of Inl ret \<Rightarrow> Inl ret | Inr ms \<Rightarrow> Inr \<lparr>sg_pos = 0, sg_data = None, sg_pkts = ms\<rparr>) }"

definition storage_batch :: "hdr_layout \<Rightarrow> nat \<Rightarrow> storage_generator \<Rightarrow> (mbuf list \<times> storage_generator) option" where
  "storage_batch L n g =
     (if n = 0 then Some (sg_pkts g, g)
      else if n \<le> length (sg_pkts g) then do {
        d \<leftarrow> sg_data g;
        ms \<leftarrow> static_fill L d (sg_pos g) (take n (sg_pkts g));
        let pkts = ms @ drop n (sg_pkts g) in
        Some (pkts, g\<lparr>sg_pkts := pkts, sg_pos := take_bit 64 (sg_pos g + n)\<rparr>) }
      else None)"

text \<open>One interval, and the loop over them, with the numbers that are written after each: packets and bytes.\<close>

fun storage_intervals :: "(real \<Rightarrow> real) \<Rightarrow> hdr_layout \<Rightarrow> (nat \<Rightarrow> nat) \<Rightarrow> nat \<Rightarrow> pkt_attrs list \<Rightarrow> bench_worker list \<Rightarrow>
    packet_store \<Rightarrow> (nat \<times> nat) list \<Rightarrow> (bench_result \<times> (nat \<times> nat) list) option" where
  "storage_intervals rnd L be16 interval data [] s out = Some (Finished s, out)"
| "storage_intervals rnd L be16 interval data (w # ws) s out = do {
     r \<leftarrow> storage_generator_new L be16 (w_got w) (drop (w_id w * interval) data);
     (case r of
        Inl ret \<Rightarrow> Some (Exited ret, out)
      | Inr sg \<Rightarrow> do {
          e \<leftarrow> rl_load_run rnd (storage_batch L) (vport_send L) (w_turns w) ((rate_limiter_new 0 interval, w_epoch w), sg, s);
          (case e of
             Inl (_, _, s') \<Rightarrow> Some (Running s', out)
           | Inr (_, _, s') \<Rightarrow> do {
               f \<leftarrow> storage_footprint (base s');
               storage_intervals rnd L be16 interval data ws s' (out @ [(num_pkts s', storage_total f)]) }) }) }"

declare storage_intervals.simps [simp del]
lemmas interval_turn = storage_intervals.simps(2)
lemmas interval_end [simp] = storage_intervals.simps(1)

text \<open>\<open>num_pkts / interval\<close> intervals; the division is undefined for the interval 0.\<close>

definition storage_bench_load :: "(real \<Rightarrow> real) \<Rightarrow> (real \<Rightarrow> real \<Rightarrow> real) \<Rightarrow> hdr_layout \<Rightarrow> (nat \<Rightarrow> nat) \<Rightarrow> real list \<Rightarrow> nat \<Rightarrow> nat \<Rightarrow>
    bench_worker list \<Rightarrow> packet_store \<Rightarrow> (bench_result \<times> (nat \<times> nat) list) option" where
  "storage_bench_load rnd pw L be16 rs num interval ws s = do {
     data \<leftarrow> bench_attrs rnd pw (take (4 * num) rs);
     (if interval = 0 then None else storage_intervals rnd L be16 interval data (take (num div interval) ws) s []) }"

section \<open>What the workers load\<close>

definition rl_loading :: "hdr_layout \<Rightarrow> pkt_attrs list \<Rightarrow> pkt_fields option list \<Rightarrow> nat \<Rightarrow> nat \<Rightarrow>
    (rate_limiter \<times> nat) \<times> static_generator \<times> packet_store \<Rightarrow> bool" where
  "rl_loading L d F o0 limit st \<longleftrightarrow> (case st of (ge, sg, s) \<Rightarrow>
     rl_pkt_limit (fst ge) = limit \<and> rl_tot_sent_pkts (fst ge) = cur_pos sg
     \<and> loading L d F o0 (packet_generator_new (\<lambda>x. x) 0 0 0 (length d)\<lparr>tot_sent_pkts := cur_pos sg\<rparr>, sg, s))"

lemma rl_turn_sent:
  assumes "rl_tot_sent_pkts (fst ge) + sent < 2 ^ 64"
  shows "rl_pkt_limit (fst (fst (rl_turn rnd b (sent, now, after) ge))) = rl_pkt_limit (fst ge)"
    "rl_tot_sent_pkts (fst (fst (rl_turn rnd b (sent, now, after) ge))) = rl_tot_sent_pkts (fst ge) + sent"
  using assms by (simp_all add: rl_turn_def Let_def take_bit_64_id)

lemma rl_turn_step:
  assumes "layout_ok L" "rl_loading L d F o0 limit (ge, sg, s)" "load_fits d F o0" "cur_pos sg + 32 \<le> length d" "secs < 2 ^ 32"
  shows "\<exists>ge' sg' s'. rl_load_turn rnd (static_batch L) (vport_send L) (now, after, secs) (ge, sg, s) = Some (ge', sg', s')
    \<and> rl_loading L d F o0 limit (ge', sg', s') \<and> cur_pos sg' = cur_pos sg + 32"
proof -
  let ?mark = "\<lambda>n. packet_generator_new (\<lambda>x. x) 0 0 0 (length d)\<lparr>tot_sent_pkts := n\<rparr>"
  have ld: "rl_pkt_limit (fst ge) = limit" "rl_tot_sent_pkts (fst ge) = cur_pos sg" "loading L d F o0 (?mark (cur_pos sg), sg, s)"
    using assms(2) by (simp_all add: rl_loading_def)
  obtain pkts sg' s' where b: "static_batch L 32 sg = Some (pkts, sg')" "vport_send L secs pkts 32 s = Some (32, s')"
    "cur_pos sg' = cur_pos sg + 32" "loading L d F o0 (?mark (cur_pos sg + 32), sg', s')"
    using send_batch [OF assms(1) ld(3) assms(3-5), of "?mark (cur_pos sg + 32)"] by auto
  have "cur_pos sg + 32 < 2 ^ 64" using assms(3,4) by (simp add: load_fits_def)
  then have "rl_loading L d F o0 limit (fst (rl_turn rnd RL_BATCH_SIZE (32, now, after) ge), sg', s')"
    using rl_turn_sent [of ge 32 rnd RL_BATCH_SIZE now after] ld(1,2) b(3,4) by (simp add: rl_loading_def)
  then show ?thesis using b by (simp add: rl_load_turn_def BURST_SIZE_def)
qed

text \<open>The packets a load of at least \<open>n\<close> takes: whole bursts.\<close>

definition burst_up :: "nat \<Rightarrow> nat" where
  "burst_up n = 32 * ((n + 31) div 32)"

lemma burst_up_bounds: "n \<le> burst_up n" "burst_up n \<le> n + 31" "32 dvd burst_up n"
  by (simp_all add: burst_up_def)

lemma burst_up_le: "c < n \<Longrightarrow> 32 dvd c \<Longrightarrow> c + 32 \<le> burst_up n"
  using burst_up_bounds(1,3) [of n] by (intro next_multiple) simp_all

lemma burst_up_least: "n \<le> c \<Longrightarrow> 32 dvd c \<Longrightarrow> burst_up n \<le> c"
  using burst_up_bounds(2,3) [of n] next_multiple [of c "burst_up n"] by (cases "burst_up n \<le> c") simp_all

lemma burst_up_self: "32 dvd n \<Longrightarrow> burst_up n = n"
  using burst_up_bounds(1) [of n] burst_up_least [of n n] by simp

lemma rl_load_spec:
  assumes "layout_ok L" "load_fits d F o0" "burst_up limit \<le> length d"
    and "rl_loading L d F o0 limit (ge, sg, s)" "cur_pos sg \<le> burst_up limit" "list_all (\<lambda>(now, after, secs). secs < 2 ^ 32) ts"
    and "burst_up limit \<le> cur_pos sg + 32 * length ts"
  shows "\<exists>st. rl_load_run rnd (static_batch L) (vport_send L) ts (ge, sg, s) = Some (Inr st)
    \<and> rl_loading L d F o0 limit st \<and> cur_pos (fst (snd st)) = burst_up limit"
  using assms(4-7)
proof (induction ts arbitrary: ge sg s)
  case Nil
  then show ?case using burst_up_bounds(1) [of limit] by (simp add: rl_load_run.simps rl_loading_def)
next
  case (Cons t ts)
  obtain now after secs where t: "t = (now, after, secs)" by (cases t)
  have ld: "rl_pkt_limit (fst ge) = limit" "rl_tot_sent_pkts (fst ge) = cur_pos sg" "32 dvd cur_pos sg"
    using Cons.prems(1) by (simp_all add: rl_loading_def loading_def)
  show ?case
  proof (cases "cur_pos sg < limit")
    case False
    then have "burst_up limit \<le> cur_pos sg" using ld(3) by (intro burst_up_least) simp_all
    then have "cur_pos sg = burst_up limit" using Cons.prems(2) by simp
    then show ?thesis using False ld Cons.prems(1) by (simp add: rl_load_run.simps)
  next
    case True
    have up: "cur_pos sg + 32 \<le> burst_up limit" using burst_up_le [OF True ld(3)] .
    have le: "cur_pos sg + 32 \<le> length d" using up assms(3) by simp
    have secs: "secs < 2 ^ 32" using Cons.prems(3) t by simp
    obtain ge' sg' s' where st: "rl_load_turn rnd (static_batch L) (vport_send L) t (ge, sg, s) = Some (ge', sg', s')"
      "rl_loading L d F o0 limit (ge', sg', s')" "cur_pos sg' = cur_pos sg + 32"
      using rl_turn_step [OF assms(1) Cons.prems(1) assms(2) le secs] t by blast
    have "\<exists>st. rl_load_run rnd (static_batch L) (vport_send L) ts (ge', sg', s') = Some (Inr st)
        \<and> rl_loading L d F o0 limit st \<and> cur_pos (fst (snd st)) = burst_up limit"
      using Cons.prems(3,4) up st(3) by (intro Cons.IH [OF st(2)]) simp_all
    then show ?thesis
      using True ld st(1) by (simp add: rl_load_run.simps [of _ _ _ "t # ts"])
  qed
qed

lemma rl_load_overrun:
  assumes "layout_ok L" "load_fits d F o0" "length d < burst_up limit" "limit \<le> length d"
    and "rl_loading L d F o0 limit (ge, sg, s)" "list_all (\<lambda>(now, after, secs). secs < 2 ^ 32) ts"
    and "burst_up limit \<le> cur_pos sg + 32 * length ts" "cur_pos sg \<le> length d"
  shows "rl_load_run rnd (static_batch L) (vport_send L) ts (ge, sg, s) = None"
  using assms(5-8)
proof (induction ts arbitrary: ge sg s)
  case Nil
  then show ?case using assms(3) by simp
next
  case (Cons t ts)
  obtain now after secs where t: "t = (now, after, secs)" by (cases t)
  have secs: "secs < 2 ^ 32" using Cons.prems(2) t by simp
  have ld: "rl_pkt_limit (fst ge) = limit" "rl_tot_sent_pkts (fst ge) = cur_pos sg" "32 dvd cur_pos sg" "static_ok L d sg"
    using Cons.prems(1) by (simp_all add: rl_loading_def loading_def)
  have "cur_pos sg < limit"
    using burst_up_least [of limit "cur_pos sg"] ld(3) Cons.prems(4) assms(3) by (cases "cur_pos sg < limit") simp_all
  then have run: "rl_tot_sent_pkts (fst ge) < rl_pkt_limit (fst ge)" using ld by simp
  show ?case
  proof (cases "cur_pos sg + 32 \<le> length d")
    case True
    obtain ge' sg' s' where st: "rl_load_turn rnd (static_batch L) (vport_send L) t (ge, sg, s) = Some (ge', sg', s')"
      "rl_loading L d F o0 limit (ge', sg', s')" "cur_pos sg' = cur_pos sg + 32"
      using rl_turn_step [OF assms(1) Cons.prems(1) assms(2) True secs] t by blast
    have "rl_load_run rnd (static_batch L) (vport_send L) ts (ge', sg', s') = None"
      using Cons.prems(2,3) True st(3) by (intro Cons.IH [OF st(2)]) simp_all
    then show ?thesis using run st(1) by (simp add: rl_load_run.simps [of _ _ _ "t # ts"])
  next
    case False
    then have "static_batch L 32 sg = None" using static_batch_overrun [OF ld(4) Cons.prems(4)] by simp
    then show ?thesis using run t by (simp add: rl_load_run.simps rl_load_turn_def BURST_SIZE_def)
  qed
qed

text \<open>A worker that gets its buffers, reads a clock before 2106, and takes as many turns as its packets need.\<close>

definition worker_ok :: "nat \<Rightarrow> bench_worker \<Rightarrow> bool" where
  "worker_ok n w \<longleftrightarrow> (case w_got w of Inl _ \<Rightarrow> False | Inr bufs \<Rightarrow> length bufs = 32 \<and> list_all buf_ok bufs)
     \<and> list_all (\<lambda>(now, after, secs). secs < 2 ^ 32) (w_turns w) \<and> burst_up n \<le> 32 * length (w_turns w)"

lemma rl_load_start:
  assumes "layout_ok L" "worker_ok n w" "store_exact L s"
  shows "\<exists>sg. static_generator_new L be16 (w_got w) d = Some (Inr sg) \<and> cur_pos sg = 0
    \<and> rl_loading L d (stored_fields L s) (dtail (base s)) n ((rate_limiter_new rate n, t0), sg, s)"
proof -
  obtain bufs where b: "w_got w = Inr bufs" "length bufs = 32" "list_all buf_ok bufs"
    using assms(2) by (auto simp: worker_ok_def split: sum.splits)
  obtain sg where sg: "static_generator_new L be16 (Inr bufs) d = Some (Inr sg)" "cur_pos sg = 0"
    "loading L d (stored_fields L s) (dtail (base s)) (packet_generator_new (\<lambda>x. x) 0 0 0 (length d), sg, s)"
    using load_start [OF assms(1) b(2,3) assms(3), of be16 d "\<lambda>x. x" 0 0] by blast
  have "packet_generator_new (\<lambda>x. x) 0 0 0 (length d)\<lparr>tot_sent_pkts := 0\<rparr> = packet_generator_new (\<lambda>x. x) 0 0 0 (length d)"
    by (simp add: packet_generator_new_def)
  then show ?thesis using sg b(1) by (simp add: rl_loading_def rate_limiter_new_def)
qed

lemma run_worker_spec:
  assumes "layout_ok L" "worker_ok n w" "store_exact L s" "burst_up n \<le> length (drop (w_id w * n) data)"
    and "load_fits (drop (w_id w * n) data) (stored_fields L s) (dtail (base s))"
  shows "\<exists>s'. run_worker rnd L be16 rate n data w s = Some (Finished s') \<and> store_exact L s'
    \<and> stored_fields L s' = stored_fields L s @ map (\<lambda>a. Some (attr_fields a)) (take (burst_up n) (drop (w_id w * n) data))
    \<and> dtail (base s') = dtail (base s) + 62 * burst_up n"
proof -
  let ?d = "drop (w_id w * n) data"
  obtain sg where sg: "static_generator_new L be16 (w_got w) ?d = Some (Inr sg)" "cur_pos sg = 0"
    "rl_loading L ?d (stored_fields L s) (dtail (base s)) n ((rate_limiter_new rate n, w_epoch w), sg, s)"
    using rl_load_start [OF assms(1-3)] by blast
  obtain ge sg' s' where "rl_load_run rnd (static_batch L) (vport_send L) (w_turns w) ((rate_limiter_new rate n, w_epoch w), sg, s)
      = Some (Inr (ge, sg', s'))"
    "rl_loading L ?d (stored_fields L s) (dtail (base s)) n (ge, sg', s')" "cur_pos sg' = burst_up n"
    using rl_load_spec [OF assms(1,5,4) sg(3), of "w_turns w" rnd] assms(2) sg(2) by (auto simp: worker_ok_def)
  then show ?thesis using sg(1) by (simp add: run_worker_def rl_loading_def loading_def)
qed

lemma run_worker_overrun:
  assumes "layout_ok L" "worker_ok n w" "store_exact L s" "length (drop (w_id w * n) data) < burst_up n"
    and "n \<le> length (drop (w_id w * n) data)"
    and "load_fits (drop (w_id w * n) data) (stored_fields L s) (dtail (base s))"
  shows "run_worker rnd L be16 rate n data w s = None"
proof -
  let ?d = "drop (w_id w * n) data"
  obtain sg where sg: "static_generator_new L be16 (w_got w) ?d = Some (Inr sg)" "cur_pos sg = 0"
    "rl_loading L ?d (stored_fields L s) (dtail (base s)) n ((rate_limiter_new rate n, w_epoch w), sg, s)"
    using rl_load_start [OF assms(1-3)] by blast
  have "rl_load_run rnd (static_batch L) (vport_send L) (w_turns w) ((rate_limiter_new rate n, w_epoch w), sg, s) = None"
    using rl_load_overrun [OF assms(1,6,4,5) sg(3), of "w_turns w" rnd] assms(2) sg(2) by (simp add: worker_ok_def)
  then show ?thesis using sg(1) by (simp add: run_worker_def)
qed

lemma ids_done: "map f [] = [i..<k] \<Longrightarrow> k \<le> i" for i k :: nat
  using upt_eq_Nil_conv [of i k] by auto

lemma ids_next:
  assumes "map f (w # ws) = [i..<k]"
  shows "i < k" "f w = i" "map f ws = [Suc i..<k]"
proof -
  show "i < k" using assms upt_eq_Nil_conv [of i k] by (cases "i < k") auto
  then show "f w = i" "map f ws = [Suc i..<k]" using assms upt_conv_Cons [of i k] by simp_all
qed

lemma run_workers_spec:
  assumes "layout_ok L" "32 dvd n" "length data = k * n" "N + k * n + 96 < 2 ^ 27" "D + 62 * (k * n) < 2 ^ 40"
    and "list_all (worker_ok n) ws" "map w_id ws = [i..<k]" "store_exact L s" "i \<le> k"
    and "num_pkts s = N + i * n" "dtail (base s) = D + 62 * (i * n)"
  shows "\<exists>s'. run_workers rnd L be16 rate n data ws s = Some (Finished s') \<and> store_exact L s'
    \<and> stored_fields L s' = stored_fields L s @ map (\<lambda>a. Some (attr_fields a)) (drop (i * n) data)"
  using assms(6-)
proof (induction ws arbitrary: i s)
  case Nil
  then show ?case using ids_done [of w_id i k] assms(3) by simp
next
  case (Cons w ws)
  have i: "i < k" "w_id w = i" "map w_id ws = [Suc i..<k]" using ids_next [OF Cons.prems(2)] by simp_all
  have ik: "i * n + n \<le> k * n" using i(1) by (metis Suc_leI add.commute mult_Suc mult_le_mono1)
  have up: "burst_up n = n" using assms(2) by (rule burst_up_self)
  have fits: "load_fits (drop (w_id w * n) data) (stored_fields L s) (dtail (base s))"
    unfolding load_fits_def stored_fields_length length_drop Cons.prems(5,6) assms(3) i(2)
    using assms(4,5) ik by (intro conjI; linarith)
  have len: "burst_up n \<le> length (drop (w_id w * n) data)" using up assms(3) ik i(2) by simp
  have ok: "worker_ok n w" using Cons.prems(1) by simp
  obtain s1 where s1: "run_worker rnd L be16 rate n data w s = Some (Finished s1)" "store_exact L s1"
    "stored_fields L s1 = stored_fields L s @ map (\<lambda>a. Some (attr_fields a)) (take n (drop (i * n) data))"
    "dtail (base s1) = dtail (base s) + 62 * n"
    using run_worker_spec [OF assms(1) ok Cons.prems(3) len fits] unfolding up i by blast
  have "num_pkts s1 = num_pkts s + n"
    using arg_cong [OF s1(3), of length] ik assms(3) by (simp add: stored_fields_length)
  then have step: "num_pkts s1 = N + Suc i * n" "dtail (base s1) = D + 62 * (Suc i * n)" using Cons.prems(5,6) s1(4) by simp_all
  obtain s' where s': "run_workers rnd L be16 rate n data ws s1 = Some (Finished s')" "store_exact L s'"
    "stored_fields L s' = stored_fields L s1 @ map (\<lambda>a. Some (attr_fields a)) (drop (Suc i * n) data)"
    using Cons.IH [OF _ i(3) s1(2) _ step] Cons.prems(1) i(1) by auto
  have "take n (drop (i * n) data) @ drop (Suc i * n) data = drop (i * n) data"
    using append_take_drop_id [of n "drop (i * n) data"] by (simp add: add.commute)
  then have "stored_fields L s' = stored_fields L s @ map (\<lambda>a. Some (attr_fields a)) (drop (i * n) data)"
    using s'(3) s1(3) by (metis append.assoc map_append)
  then show ?case using s1(1) s'(1,2) by simp
qed

lemma run_workers_overrun:
  assumes "layout_ok L" "\<not> 32 dvd n" "length data = k * n" "N + k * burst_up n + 96 < 2 ^ 27" "D + 62 * (k * burst_up n) < 2 ^ 40"
    and "list_all (worker_ok n) ws" "map w_id ws = [i..<k]" "store_exact L s" "i < k"
    and "num_pkts s = N + i * burst_up n" "dtail (base s) = D + 62 * (i * burst_up n)"
  shows "run_workers rnd L be16 rate n data ws s = None"
  using assms(6-)
proof (induction ws arbitrary: i s)
  case Nil
  then show ?case using ids_done [of w_id i k] by simp
next
  case (Cons w ws)
  have i: "w_id w = i" "map w_id ws = [Suc i..<k]" using ids_next [OF Cons.prems(2)] by simp_all
  obtain j where j: "k = i + Suc j" using Cons.prems(4) less_imp_Suc_add by auto
  have up: "n \<le> burst_up n" by (rule burst_up_bounds)
  then have jn: "j * n \<le> j * burst_up n" by simp
  have len: "length (drop (w_id w * n) data) = Suc j * n" using assms(3) i(1) j by (simp add: add_mult_distrib)
  have ok: "worker_ok n w" using Cons.prems(1) by simp
  have fits: "load_fits (drop (w_id w * n) data) (stored_fields L s) (dtail (base s))"
    unfolding load_fits_def stored_fields_length len Cons.prems(5,6)
    using assms(4,5) up jn by (simp_all add: j add_mult_distrib; linarith)
  show ?case
  proof (cases "burst_up n \<le> Suc j * n")
    case False
    then have "run_worker rnd L be16 rate n data w s = None"
      using run_worker_overrun [OF assms(1) ok Cons.prems(3) _ _ fits] len by simp
    then show ?thesis by simp
  next
    case True
    then have le: "burst_up n \<le> length (drop (w_id w * n) data)" using len by simp
    obtain s1 where s1: "run_worker rnd L be16 rate n data w s = Some (Finished s1)" "store_exact L s1"
      "stored_fields L s1 = stored_fields L s @ map (\<lambda>a. Some (attr_fields a)) (take (burst_up n) (drop (w_id w * n) data))"
      "dtail (base s1) = dtail (base s) + 62 * burst_up n"
      using run_worker_spec [OF assms(1) ok Cons.prems(3) le fits] by blast
    have "num_pkts s1 = num_pkts s + burst_up n"
      using arg_cong [OF s1(3), of length] True len by (simp add: stored_fields_length)
    then have step: "num_pkts s1 = N + Suc i * burst_up n" "dtail (base s1) = D + 62 * (Suc i * burst_up n)"
      using Cons.prems(5,6) s1(4) by simp_all
    have "j \<noteq> 0"
    proof
      assume "j = 0"
      then have "burst_up n = n" using True up by simp
      then show False using burst_up_bounds(3) [of n] assms(2) by simp
    qed
    then have "run_workers rnd L be16 rate n data ws s1 = None"
      using Cons.IH [OF _ i(2) s1(2) _ step] Cons.prems(1) j by simp
    then show ?thesis using s1(1) by simp
  qed
qed


section \<open>Properties\<close>

lemma worker_pkts_pos: "0 < worker_pkts r"
  by (simp add: worker_pkts_def)


text \<open>
  The storage benchmark never completes an interval. Its generator reads the packets through a member that the
  constructor does not set, so the first batch is undefined; only if the interval is longer than the load
  does it end, with nothing loaded.
\<close>

theorem storage_bench_load_undefined:
  assumes "layout_ok L" "fp_rounding rnd" "pow_ok pw" "4 * num \<le> length rs" "worker_ok interval w" "w_turns w \<noteq> []"
  shows "storage_bench_load rnd pw L be16 rs num interval (w # ws) s = (if interval \<le> num then None else Some (Finished s, []))"
proof -
  have "length (take (4 * num) rs) = 4 * num" using assms(4) by simp
  then obtain data where data: "bench_attrs rnd pw (take (4 * num) rs) = Some data"
    using bench_attrs_total [OF assms(2,3)] by blast
  obtain bufs where b: "w_got w = Inr bufs" "length bufs = 32" "list_all buf_ok bufs"
    using assms(5) by (auto simp: worker_ok_def split: sum.splits)
  obtain t ts where ts: "w_turns w = t # ts" using assms(6) by (cases "w_turns w") auto
  obtain sg where sg: "static_generator_new L be16 (Inr bufs) (drop (w_id w * interval) data) = Some (Inr sg)"
    "static_ok L (drop (w_id w * interval) data) sg"
    using static_generator_new_spec [OF assms(1) b(2,3)] by blast
  have ms: "new_pkts L be16 (Inr bufs) = Some (Inr (gen_pkts sg))" "length (gen_pkts sg) = 32"
    using sg by (auto simp: static_generator_new_def static_ok_def split: sum.splits bind_split_asm)
  have batch: "storage_batch L 32 \<lparr>sg_pos = 0, sg_data = None, sg_pkts = gen_pkts sg\<rparr> = None"
    using ms(2) by (simp add: storage_batch_def)
  have run: "rl_load_run rnd (storage_batch L) (vport_send L) (w_turns w)
      ((rate_limiter_new 0 interval, w_epoch w), \<lparr>sg_pos = 0, sg_data = None, sg_pkts = gen_pkts sg\<rparr>, s) = None" if "0 < interval"
    using that batch ts by (simp add: rl_load_run.simps rate_limiter_new_def rl_load_turn_def BURST_SIZE_def split: prod.splits)
  have "storage_intervals rnd L be16 interval data (w # ws') s out = None" if "0 < interval" for ws' out
    using run [OF that] b(1) ms(1) by (simp add: interval_turn storage_generator_new_def)
  moreover have "take (num div interval) (w # ws) = w # take (num div interval - 1) ws" if "0 < interval" "interval \<le> num"
    using that div_greater_zero_iff [of num interval] by (simp add: take_Cons')
  moreover have "num div interval = 0" if "num < interval" using that by simp
  ultimately show ?thesis using data unfolding storage_bench_load_def by (cases "interval = 0"; cases "interval \<le> num") simp_all
qed

lemma zero_worker:
  "worker_ok 160 \<lparr>w_id = 0, w_got = Inr (replicate 32 zero_buf), w_epoch = 0, w_turns = replicate 5 (0, 0, 1500000000)\<rparr>"
  "worker_ok 10 \<lparr>w_id = 0, w_got = Inr (replicate 32 zero_buf), w_epoch = 0, w_turns = replicate 5 (0, 0, 1500000000)\<rparr>"
  using zero_bufs by (simp_all add: worker_ok_def burst_up_def list_all_iff [of _ "replicate _ _"])


theorem storage_bench_load_undefined_witness:
  "\<exists>s. packet_store_init = Some s
    \<and> storage_bench_load (\<lambda>x. x) (\<lambda>x y. if y = 0 then 1 else x powr y) wire_layout (\<lambda>v. v) (replicate 640 (1 / 2)) 160 160
        [\<lparr>w_id = 0, w_got = Inr (replicate 32 zero_buf), w_epoch = 0, w_turns = replicate 5 (0, 0, 1500000000)\<rparr>] s = None"
proof -
  let ?w = "\<lparr>w_id = 0, w_got = Inr (replicate 32 zero_buf), w_epoch = 0, w_turns = replicate 5 (0, 0, 1500000000 :: nat)\<rparr>"
  obtain s where s: "packet_store_init = Some s" using packet_store_init_exact by blast
  have "fp_rounding (\<lambda>x. x)" by (simp add: fp_rounding_def mono_def)
  from storage_bench_load_undefined [OF wire_layout_ok this pow_ok_powr, of 160 "replicate 640 (1 / 2)" 160 ?w "\<lambda>v. v" "[]" s]
  show ?thesis using s zero_worker(1) by (intro exI [of _ s]) simp
qed

end
