(* ===== verification/Character_Count.thy ===== *)
theory Character_Count
  imports Character_Query Netplay_Writer
begin

section \<open>Counting the packets of a character (packetstore.h)\<close>

text \<open>
  The query that counts packets is specialised: it adds the sizes of the lists of the seconds, and gets the lists with the operation that
  creates what is missing. The lists it creates are empty, which no other operation leaves in the index.
\<close>

definition chars_sound :: "time_char_index \<Rightarrow> bool" where
  "chars_sound ix \<longleftrightarrow> (\<forall>ts c l. ts < 2 ^ 32 \<longrightarrow> c < char_slots \<longrightarrow> char_list_at ts c ix = Some (Some l) \<longrightarrow>
     relaxed_invar entry_list_nbuckets l)"

lemma chars_ok_sound: "chars_ok ix \<Longrightarrow> chars_sound ix"
  by (auto simp: chars_ok_def chars_sound_def)

text \<open>Getting a list changes no entries.\<close>

lemma char_list_get_entries:
  assumes "ts < 2 ^ 32" "c < char_slots" "chars_sound ix"
  shows "\<exists>ix' l. char_list_get ts c ix = Some (ix', l) \<and> el_size l = length (char_entries ts c ix) \<and> chars_sound ix'
    \<and> (\<forall>ts' c'. ts' < 2 ^ 32 \<longrightarrow> c' < char_slots \<longrightarrow> char_entries ts' c' ix' = char_entries ts' c' ix)"
proof -
  obtain r where r: "char_list_at ts c ix = Some r" using char_list_at_total [OF assms(1,2), of ix] by auto
  define l where "l = (case r of None \<Rightarrow> new_entry_list | Some l \<Rightarrow> l)"
  have l: "relaxed_invar entry_list_nbuckets l" "relaxed_contents entry_list_nbuckets l = char_entries ts c ix"
    using assms r new_entry_list_invar
    by (auto simp: l_def chars_sound_def char_entries_def index_list_def split: option.splits)
  obtain ix1 where ix1: "char_list_get ts c ix = Some (ix1, l)" "char_list_at ts c ix1 = Some (Some l)"
    "\<forall>ts' c'. ts' < 2 ^ 32 \<longrightarrow> c' < char_slots \<longrightarrow> (ts', c') \<noteq> (ts, c) \<longrightarrow> char_list_at ts' c' ix1 = char_list_at ts' c' ix"
    using char_list_get_spec [OF assms(1,2), of ix] r by (auto simp: l_def)
  have "el_size l = length (char_entries ts c ix)" using relaxed.size_contents [OF l(1)] l(2) by (simp add: el_size_def)
  moreover have "relaxed_invar entry_list_nbuckets k"
    if "ts' < 2 ^ 32" "c' < char_slots" "char_list_at ts' c' ix1 = Some (Some k)" for ts' c' k
    using that ix1(2,3) l(1) assms(3) by (cases "(ts', c') = (ts, c)") (auto simp: chars_sound_def)
  moreover have "char_entries ts' c' ix1 = char_entries ts' c' ix" if "ts' < 2 ^ 32" "c' < char_slots" for ts' c'
    using that ix1(2,3) l(2) by (cases "(ts', c') = (ts, c)") (auto simp: char_entries_def index_list_def)
  ultimately show ?thesis using ix1(1) by (auto simp: chars_sound_def)
qed

lemma count_characters_spec:
  assumes "c < char_slots" "chars_sound ix" "a \<le> b + 1" "b + 1 < 2 ^ 32"
    and "res + length (concat (map (\<lambda>t. char_entries t c ix) [a..<b + 1])) < 2 ^ 64"
  shows "\<exists>ix'. count_characters c a b res ix = Some (ix', res + length (concat (map (\<lambda>t. char_entries t c ix) [a..<b + 1])))
    \<and> chars_sound ix' \<and> (\<forall>ts c'. ts < 2 ^ 32 \<longrightarrow> c' < char_slots \<longrightarrow> char_entries ts c' ix' = char_entries ts c' ix)"
  using assms(2,3,5)
proof (induction "b + 1 - a" arbitrary: a res ix)
  case 0
  then show ?case by (simp add: count_characters.simps)
next
  case (Suc n)
  have a: "a \<le> b" "a < 2 ^ 32" using Suc.hyps(2) assms(4) by simp_all
  then have upt: "[a..<b + 1] = a # [a + 1..<b + 1]" by (simp add: upt_conv_Cons)
  obtain ix1 l where g: "char_list_get a c ix = Some (ix1, l)" "el_size l = length (char_entries a c ix)" "chars_sound ix1"
    "\<forall>ts c'. ts < 2 ^ 32 \<longrightarrow> c' < char_slots \<longrightarrow> char_entries ts c' ix1 = char_entries ts c' ix"
    using char_list_get_entries [OF a(2) assms(1) Suc.prems(1)] by blast
  have same: "map (\<lambda>t. char_entries t c ix1) [a + 1..<b + 1] = map (\<lambda>t. char_entries t c ix) [a + 1..<b + 1]"
    using g(4) assms(1,4) by (intro map_cong) auto
  have sum: "res + length (char_entries a c ix) + length (concat (map (\<lambda>t. char_entries t c ix) [a + 1..<b + 1])) < 2 ^ 64"
    using Suc.prems(3) unfolding upt by simp
  then have "res + length (char_entries a c ix) < 2 ^ 64" by simp
  then have wrap: "take_bit 64 (res + el_size l) = res + length (char_entries a c ix)" "take_bit 32 (a + 1) = a + 1"
    using g(2) a assms(4) by (simp_all add: take_bit_64_id take_bit_id)
  have hyps: "n = b + 1 - (a + 1)" "a + 1 \<le> b + 1" using Suc.hyps(2) a(1) by simp_all
  have bound: "res + length (char_entries a c ix) + length (concat (map (\<lambda>t. char_entries t c ix1) [a + 1..<b + 1])) < 2 ^ 64"
    unfolding same by (rule sum)
  note Suc.hyps(1) [OF hyps(1) g(3) hyps(2) bound]
  then obtain ix' where "count_characters c (a + 1) b (res + length (char_entries a c ix)) ix1
      = Some (ix', res + length (char_entries a c ix) + length (concat (map (\<lambda>t. char_entries t c ix) [a + 1..<b + 1])))"
    "chars_sound ix'" "\<forall>ts c'. ts < 2 ^ 32 \<longrightarrow> c' < char_slots \<longrightarrow> char_entries ts c' ix' = char_entries ts c' ix1"
    unfolding same by blast
  then show ?case using g(1,4) a(1) wrap unfolding upt by (simp add: count_characters.simps [of c a])
qed

text \<open>The count of the seconds up to the largest one does not end: the counter of the loop is as wide as the seconds.\<close>

lemma count_characters_endless:
  assumes "ts < 2 ^ 32"
  shows "count_characters c ts (2 ^ 32 - 1) res ix = None"
proof -
  let ?P = "\<lambda>c ts e (res :: nat) (ix :: time_char_index) (r :: time_char_index \<times> nat). e = 2 ^ 32 - 1 \<longrightarrow> \<not> ts < (2 ^ 32 :: nat)"
  have "count_characters c ts e res ix = Some r \<Longrightarrow> e = 2 ^ 32 - 1 \<longrightarrow> \<not> ts < 2 ^ 32" for e r
  proof (rule count_characters.raw_induct [of ?P], intro impI notI)
    fix f c ts e res ix r
    assume ih: "\<And>c ts e res ix r. f c ts e res ix = Some r \<Longrightarrow> e = 2 ^ 32 - 1 \<longrightarrow> \<not> ts < (2 ^ 32 :: nat)"
      and run: "(if ts \<le> e then char_list_get ts c ix \<bind> (\<lambda>(ix1, l). f c (take_bit 32 (ts + 1)) e (take_bit 64 (res + el_size l)) ix1)
        else Some (ix, res)) = Some r" and e: "e = 2 ^ 32 - 1" "ts < 2 ^ 32"
    obtain ix1 l where "f c (take_bit 32 (ts + 1)) e (take_bit 64 (res + el_size l)) ix1 = Some r"
      using run e by (auto simp: bind_Some_iff split: if_splits)
    then show False using ih e(1) take_bit_nat_less_exp [of 32 "ts + 1"] by blast
  qed
  then show ?thesis using assms by (metis not_Some_eq)
qed

section \<open>Stores that differ by empty lists\<close>

definition recounted :: "packet_store \<Rightarrow> packet_store \<Rightarrow> bool" where
  "recounted s s' \<longleftrightarrow> (\<exists>ix. s' = s\<lparr>char_idx := ix\<rparr> \<and> chars_sound ix
     \<and> (\<forall>ts c. ts < 2 ^ 32 \<longrightarrow> c < char_slots \<longrightarrow> char_entries ts c ix = char_entries ts c (char_idx s)))"

lemma recounted_refl: "chars_sound (char_idx s) \<Longrightarrow> recounted s s"
  unfolding recounted_def by (intro exI [of _ "char_idx s"]) simp

lemma recounted_trans: "recounted s s' \<Longrightarrow> recounted s' s'' \<Longrightarrow> recounted s s''"
  by (auto simp: recounted_def)

lemma recounted_same:
  assumes "recounted s s'"
  shows "base s' = base s" "filters s' = filters s" "num_filters s' = num_filters s" "num_pkts s' = num_pkts s"
    "store_pkts s' = store_pkts s" "chars_sound (char_idx s')" "stored_match L s' = stored_match L s"
proof -
  obtain ix where s': "s' = s\<lparr>char_idx := ix\<rparr>" "chars_sound ix" using assms by (auto simp: recounted_def)
  then show "base s' = base s" "filters s' = filters s" "num_filters s' = num_filters s" "num_pkts s' = num_pkts s"
    "store_pkts s' = store_pkts s" "chars_sound (char_idx s')"
    by (simp_all add: num_pkts_def store_pkts_def)
  then show "stored_match L s' = stored_match L s" by (simp only: stored_match_def fun_eq_iff) simp
qed

lemma recounted_exact:
  assumes "recounted s s'" "num_filters s \<le> MAX_FILTERS" "char_exact L c n0 s"
  shows "char_exact L c n0 s'"
proof -
  have "c < char_slots" using assms(2,3) by (simp add: char_exact_def MAX_FILTERS_def char_slots_def)
  moreover obtain ix where "s' = s\<lparr>char_idx := ix\<rparr>"
    "\<forall>ts c. ts < 2 ^ 32 \<longrightarrow> c < char_slots \<longrightarrow> char_entries ts c ix = char_entries ts c (char_idx s)"
    using assms(1) by (auto simp: recounted_def)
  ultimately show ?thesis using assms(3) recounted_same(4,7) [OF assms(1)] by (simp add: char_exact_def)
qed

lemma count_exact:
  assumes "char_exact L c n0 s" "chars_sound (char_idx s)" "num_filters s \<le> MAX_FILTERS" "num_pkts s < 2 ^ 34" "a \<le> b" "b + 1 < 2 ^ 32"
  shows "\<exists>s'. query_character_count c a b s
      = Some (s', card {i. n0 \<le> i \<and> i < num_pkts s \<and> (\<exists>t. a \<le> t \<and> t \<le> b \<and> stored_match L s c t i)}) \<and> recounted s s'"
proof -
  let ?M = "{i. n0 \<le> i \<and> i < num_pkts s \<and> (\<exists>t. a \<le> t \<and> t \<le> b \<and> stored_match L s c t i)}"
  let ?ids = "concat (map (\<lambda>t. filter (stored_match L s c t) [n0..<num_pkts s]) [a..<b + 1])"
  have c: "c < char_slots" using assms(1,3) by (simp add: char_exact_def MAX_FILTERS_def char_slots_def)
  have ids: "concat (map (\<lambda>t. char_entries t c (char_idx s)) [a..<b + 1]) = ?ids"
    using assms(1,6) by (auto simp: char_exact_def intro!: arg_cong [where f = concat])
  have "set ?ids = ?M" by auto
  moreover have "distinct ?ids" by (rule distinct_concat_filter [OF stored_match_second]) simp_all
  ultimately have len: "length ?ids = card ?M" using distinct_card by metis
  have "card ?M \<le> card {..<num_pkts s}" by (rule card_mono) auto
  then have small: "0 + length (concat (map (\<lambda>t. char_entries t c (char_idx s)) [a..<b + 1])) < 2 ^ 64"
    unfolding ids len using assms(4) by simp
  have "a \<le> b + 1" using assms(5) by simp
  from count_characters_spec [OF c assms(2) this assms(6) small]
  obtain ix where ix: "count_characters c a b 0 (char_idx s) = Some (ix, card ?M)" "chars_sound ix"
    "\<forall>ts c'. ts < 2 ^ 32 \<longrightarrow> c' < char_slots \<longrightarrow> char_entries ts c' ix = char_entries ts c' (char_idx s)"
    unfolding ids len by auto
  have "take_bit 32 a = a" "take_bit 32 b = b" using assms(5,6) by (simp_all add: take_bit_id)
  then have "query_character_count c a b s = Some (s\<lparr>char_idx := ix\<rparr>, card ?M)" using ix(1) by (simp add: query_character_count_def)
  moreover have "recounted s (s\<lparr>char_idx := ix\<rparr>)" using ix(2,3) unfolding recounted_def by blast
  ultimately show ?thesis by blast
qed

text \<open>
  Counting is exact, and changes no entry. For a character added when the store held \<open>n0\<close> packets, the count for the
  seconds from \<open>a\<close> to \<open>b\<close> is the number of packets stored since then, in those seconds, that one of the filters of the character
  accepts; the packets and the entries of all characters stay as they are.
\<close>

theorem character_count_exact:
  assumes "char_exact L c n0 s" "chars_sound (char_idx s)" "num_filters s \<le> MAX_FILTERS" "num_pkts s < 2 ^ 34" "a \<le> b" "b + 1 < 2 ^ 32"
  shows "\<exists>s'. query_character_count c a b s
      = Some (s', card {i. n0 \<le> i \<and> i < num_pkts s \<and> (\<exists>t. a \<le> t \<and> t \<le> b \<and> stored_match L s c t i)})
    \<and> store_pkts s' = store_pkts s \<and> (\<forall>c' n. char_exact L c' n s \<longrightarrow> char_exact L c' n s')"
  using count_exact [OF assms] recounted_same(5) recounted_exact [OF _ assms(3)] by blast

section \<open>A count breaks a later query\<close>

lemma char_scan_to_list:
  assumes "t < k" "k \<le> snd (cr_range r)" "k < 2 ^ 64" "char_list_at k (cr_char_id r) (cr_index r) = Some (Some l)"
    and "\<forall>j. t < j \<longrightarrow> j < k \<longrightarrow> char_list_at j (cr_char_id r) (cr_index r) = Some None"
  shows "char_scan r t None = Some (k, Some l)"
  using assms(1,5)
proof (induction "k - t" arbitrary: t)
  case (Suc n)
  have wrap: "take_bit 64 (t + 1) = Suc t" using Suc.prems(1) assms(3) by (simp add: take_bit_id)
  show ?case
  proof (cases "Suc t = k")
    case True
    then show ?thesis using assms(2,4) wrap by (simp add: char_scan.simps)
  next
    case False
    then have t: "Suc t < k" "n = k - Suc t" using Suc by auto
    then have "char_scan r t None = char_scan r (Suc t) None" using Suc.prems assms(2) wrap by (simp add: char_scan.simps [of r t])
    then show ?thesis using Suc.hyps(1) [OF t(2,1)] Suc.prems(2) by auto
  qed
qed simp

lemma empty_char_list_undefined:
  assumes "fst (cr_range r) < k" "k \<le> snd (cr_range r)" "snd (cr_range r) + 1 < 2 ^ 64"
    and "char_list_at k (cr_char_id r) (cr_index r) = Some (Some new_entry_list)"
    and "\<forall>j. fst (cr_range r) \<le> j \<longrightarrow> j < k \<longrightarrow> char_list_at j (cr_char_id r) (cr_index r) = Some None"
  shows "char_iterate r = None"
proof -
  have stop: "char_stop r = snd (cr_range r) + 1" using assms(3) by (simp add: char_stop_def take_bit_id)
  have "char_scan r (fst (cr_range r)) None = Some (k, Some new_entry_list)"
    using char_scan_to_list [OF assms(1,2) _ assms(4)] assms(2,3,5) by simp
  then have "char_begin r = Some \<lparr>ci_res = Some r, ci_idx = 0, ci_ts = k, ci_list = Some new_entry_list\<rparr>"
    using assms(1,2,5) stop by (simp add: char_begin_def char_advance_def list_exhausted_def)
  then show ?thesis
    using assms(2) stop new_list_unwritten
    by (simp add: char_iterate_def char_iterate_from.simps char_eq_def char_end_def char_get_def)
qed

lemma no_entries_no_char_list:
  assumes "chars_ok ix" "ts < 2 ^ 32" "c < char_slots" "char_entries ts c ix = []"
  shows "char_list_at ts c ix = Some None"
proof -
  obtain l where "char_list_at ts c ix = Some l" using char_list_at_total [OF assms(2,3), of ix] by auto
  then show ?thesis using assms by (cases l) (auto simp: chars_ok_def char_entries_def index_list_def)
qed

text \<open>
  C21. A count breaks a later enumeration. When a character has no packet in the seconds from \<open>a\<close> to \<open>t\<close>, counting its packets
  of the second \<open>t\<close> answers 0 and leaves an empty list; the query that enumerates the packets of the character for a range that starts
  at \<open>a\<close> and covers \<open>t\<close>, which gave an answer before, then reads an entry that was never written.
\<close>

theorem count_breaks_character_query:
  assumes "chars_ok (char_idx s)" "c < char_slots" "a < t" "t \<le> b" "b + 1 < 2 ^ 32"
    and "\<forall>k. a \<le> k \<longrightarrow> k \<le> t \<longrightarrow> char_entries k c (char_idx s) = []"
  shows "\<exists>s'. query_character_count c t t s = Some (s', 0) \<and> store_pkts s' = store_pkts s
    \<and> character_execute agg_result_set c a b s \<noteq> None \<and> character_execute agg_result_set c a b s' = None"
proof -
  let ?ix = "char_idx s"
  have small: "t < 2 ^ 32" "take_bit 32 a = a" "take_bit 32 b = b" "take_bit 32 t = t" "take_bit 32 (t + 1) = t + 1"
    using assms(3-5) by (simp_all add: take_bit_id)
  have none: "char_list_at k c ?ix = Some None" if "a \<le> k" "k \<le> t" for k
    using no_entries_no_char_list [OF assms(1) _ assms(2)] assms(6) that small(1) by simp
  obtain ix where ix: "char_list_get t c ?ix = Some (ix, new_entry_list)" "char_list_at t c ix = Some (Some new_entry_list)"
    "\<forall>ts c'. ts < 2 ^ 32 \<longrightarrow> c' < char_slots \<longrightarrow> (ts, c') \<noteq> (t, c) \<longrightarrow> char_list_at ts c' ix = char_list_at ts c' ?ix"
    using char_list_get_spec [OF small(1) assms(2), of ?ix] none [of t] assms(3) by auto
  let ?s = "s\<lparr>char_idx := ix\<rparr>"
  have "el_size new_entry_list = 0" by (simp add: el_size_def new_entry_list_def relaxed_size_def relaxed_init_def)
  then have "count_characters c t t 0 ?ix = Some (ix, 0)" using ix(1) small(5) by (simp add: count_characters.simps)
  then have count: "query_character_count c t t s = Some (?s, 0)" using small(4) by (simp add: query_character_count_def)
  let ?r = "complex_character_lookup c a b s" and ?r' = "complex_character_lookup c a b ?s"
  have r: "cr_index ?r = ?ix" "cr_char_id ?r = c" "cr_range ?r = (a, b)" "cr_index ?r' = ix" "cr_char_id ?r' = c" "cr_range ?r' = (a, b)"
    using small(2,3) by (simp_all add: complex_character_lookup_def char_filter_def)
  have "cr_ok ?r" using assms(1-5) r by (simp add: cr_ok_def)
  then have "character_execute agg_result_set c a b s \<noteq> None"
    using char_iterate_spec [of ?r] small(2,3) by (simp add: character_execute_def query_character_def)
  moreover have "char_list_at j c ix = Some None" if "a \<le> j" "j < t" for j
    using ix(3) none that small(1) assms(2) by simp
  then have "char_iterate ?r' = None"
    using empty_char_list_undefined [of ?r' t] r(4-6) ix(2) assms(3-5) by simp
  then have "character_execute agg_result_set c a b ?s = None"
    using small(2,3) by (simp add: character_execute_def query_character_def)
  moreover have "store_pkts ?s = store_pkts s" by (simp add: store_pkts_def num_pkts_def)
  ultimately show ?thesis using count by (intro exI [of _ ?s]) simp
qed

theorem count_breaks_character_query_witness:
  "\<exists>s s'. packet_store_init = Some s \<and> query_character_count 0 1500000000 1500000000 s = Some (s', 0)
    \<and> character_execute agg_result_set 0 1499999990 1500000005 s' = None"
proof -
  obtain s where s: "packet_store_init = Some s" "pstore_ok s" "\<forall>ts c. ts < 2 ^ 32 \<longrightarrow> c < char_slots \<longrightarrow> char_entries ts c (char_idx s) = []"
    using new_store_room by blast
  have "chars_ok (char_idx s)" using s(2) by (simp add: pstore_ok_def)
  then show ?thesis
    using count_breaks_character_query [of s 0 1499999990 1500000000 1500000005] s(1,3) by (auto simp: char_slots_def)
qed

theorem character_count_exact_witness:
  "\<exists>s s1 s' s''. packet_store_init = Some s \<and> add_complex_character [from_80] s = Some (s1, 0)
     \<and> insert_pktburst wire_layout 1500000000 [tcp_pkt] s1 = Some s'
     \<and> query_character_count 0 1499999999 1500000001 s' = Some (s'', 1) \<and> store_pkts s'' = [(1500000000, tcp_bytes)]"
proof -
  obtain s s1 s' where s: "packet_store_init = Some s" "add_complex_character [from_80] s = Some (s1, 0)"
     "insert_pktburst wire_layout 1500000000 [tcp_pkt] s1 = Some s'" and ok: "pstore_ok s'" "char_exact wire_layout 0 0 s'"
     and p: "store_pkts s' = [(1500000000, tcp_bytes)]" "filters s' 0 = [from_80]"
    using char_query_store by (elim exE conjE) (rule that)
  have n: "num_pkts s' = 1" using arg_cong [OF p(1), of length] by (simp add: store_pkts_def)
  have "stored_match wire_layout s' 0 t 0 \<longleftrightarrow> t = 1500000000" for t
    using p tcp_fields_inside(1)
    by (auto simp: stored_match_def char_matches_def accepts_def from_80_def in_range_def)
  then have "{i. 0 \<le> i \<and> i < num_pkts s' \<and> (\<exists>t. 1499999999 \<le> t \<and> t \<le> 1500000001 \<and> stored_match wire_layout s' 0 t i)} = {0}"
    using n by auto
  moreover have "chars_sound (char_idx s')" "num_filters s' \<le> MAX_FILTERS" "num_pkts s' < 2 ^ 34"
    using ok(1) chars_ok_sound by (simp_all add: pstore_ok_def)
  ultimately show ?thesis
    using s p(1) character_count_exact [OF ok(2), of 1499999999 1500000001] by auto
qed

end
