(* ===== verification/Filter_Bench.thy ===== *)
theory Filter_Bench
  imports Bench_Options Bench_Loading Character_Count
begin

section \<open>The filter benchmark (filter_bench.cc)\<close>

text \<open>
  The benchmark as a state and its actions. The memory pool belongs to DPDK: \<open>get\<close> is \<open>rte_mempool_get_bulk\<close> with the pool it
  leaves. The random numbers, the clock readings and the times the casts are built at are inputs of an
  action. An action may end the process (\<open>Exits\<close>), may still be loading when its readings are used up (\<open>Loads\<close>), and is
  \<open>None\<close> where the code is undefined. The threads of a measurement are run one after the other.
\<close>

datatype bench_stop = Exits string | Loads

type_synonym 'a bench_run = "(bench_stop + 'a) option"

record 'p filter_benchmark =
  fb_rate :: nat
  fb_filters :: "string list"
  fb_casts :: "query_plan list"
  fb_characters :: "nat list"
  fb_end_time :: "nat option"
  fb_pool :: 'p
  fb_store :: packet_store

record bench_input =
  in_draws :: "real list"
  in_t0 :: nat
  in_start :: nat
  in_turns :: "(nat \<times> nat \<times> nat) list"
  in_end :: nat
  in_nows :: "nat list"
  in_times :: "(nat \<times> nat) list list"

record bench_machine =
  bm_rnd :: "real \<Rightarrow> real"
  bm_pow :: "real \<Rightarrow> real \<Rightarrow> real"
  bm_layout :: hdr_layout
  bm_be16 :: "nat \<Rightarrow> nat"

text \<open>\<open>std::getline\<close> in a loop: the lines of a file, the last one without its end if it is not empty.\<close>

fun getlines_from :: "string \<Rightarrow> string \<Rightarrow> string list" where
  "getlines_from cur [] = (if cur = [] then [] else [cur])"
| "getlines_from cur (c # cs) = (if c = CHR 0x0A then cur # getlines_from [] cs else getlines_from (cur @ [c]) cs)"

definition load_filters :: "string \<Rightarrow> string option \<Rightarrow> bench_stop + string list" where
  "load_filters path file = (case file of
     None \<Rightarrow> Inl (Exits (''Could not open query file '' @ path)) | Some text \<Rightarrow> Inr (getlines_from [] text))"

definition uncaught :: "'a result \<Rightarrow> 'a bench_run" where
  "uncaught r = map_option (\<lambda>v. case v of Inl msg \<Rightarrow> Inl (Exits msg) | Inr x \<Rightarrow> Inr x) r"

fun add_complex_chars :: "nat list \<Rightarrow> string list \<Rightarrow> packet_store \<Rightarrow> (packet_store \<times> nat list) bench_run" where
  "add_complex_chars (now # nows) (ex # exs) s = do {
     r \<leftarrow> uncaught (character_build s now ex);
     (case r of
        Inl e \<Rightarrow> Some (Inl e)
      | Inr (s1, c) \<Rightarrow> do {
          r' \<leftarrow> add_complex_chars nows exs s1;
          Some (case r' of Inl e \<Rightarrow> Inl e | Inr (s2, cs) \<Rightarrow> Inr (s2, c # cs)) }) }"
| "add_complex_chars nows [] s = Some (Inr (s, []))"
| "add_complex_chars [] (ex # exs) s = None"

fun build_casts :: "nat list \<Rightarrow> string list \<Rightarrow> packet_store \<Rightarrow> query_plan list bench_run" where
  "build_casts (now # nows) (ex # exs) s = do {
     r \<leftarrow> uncaught (cast_build s now ex);
     (case r of
        Inl e \<Rightarrow> Some (Inl e)
      | Inr c \<Rightarrow> do {
          r' \<leftarrow> build_casts nows exs s;
          Some (case r' of Inl e \<Rightarrow> Inl e | Inr cs \<Rightarrow> Inr (c # cs)) }) }"
| "build_casts nows [] s = Some (Inr [])"
| "build_casts [] (ex # exs) s = None"

definition filter_benchmark_new :: "nat \<Rightarrow> string \<Rightarrow> string option \<Rightarrow> nat list \<Rightarrow> 'p \<Rightarrow> 'p filter_benchmark bench_run" where
  "filter_benchmark_new load_rate path file nows pool = do {
     s \<leftarrow> packet_store_init;
     (case load_filters path file of
        Inl e \<Rightarrow> Some (Inl e)
      | Inr fs \<Rightarrow> do {
          r \<leftarrow> add_complex_chars nows fs s;
          Some (case r of
            Inl e \<Rightarrow> Inl e
          | Inr (s', cs) \<Rightarrow> Inr \<lparr>fb_rate = load_rate, fb_filters = fs, fb_casts = [], fb_characters = cs, fb_end_time = None,
              fb_pool = pool, fb_store = s'\<rparr>) }) }"

text \<open>\<open>load_data\<close> with the generation of the packets, the buffers of the pool, and the casts.\<close>

definition bench_load :: "bench_machine \<Rightarrow> (nat \<Rightarrow> 'p \<Rightarrow> (int + packet list) \<times> 'p) \<Rightarrow> bench_input \<Rightarrow> nat \<Rightarrow>
    'p filter_benchmark \<Rightarrow> 'p filter_benchmark bench_run" where
  "bench_load M get inp n fb = do {
     data \<leftarrow> bench_attrs (bm_rnd M) (bm_pow M) (take (4 * n) (in_draws inp));
     (case get RTE_BURST_SIZE (fb_pool fb) of (got, pool') \<Rightarrow> do {
        r \<leftarrow> load_data (bm_rnd M) (bm_layout M) (bm_be16 M) got (fb_rate fb) (in_t0 inp) (in_start inp) (in_turns inp) data (fb_store fb);
        (case r of
           Inl ret \<Rightarrow> Some (Inl (Exits ''Error allocating packets''))
         | Inr (Inl _) \<Rightarrow> Some (Inl Loads)
         | Inr (Inr (g, sg, s')) \<Rightarrow> do {
             c \<leftarrow> build_casts (in_nows inp) (fb_filters fb) s';
             Some (case c of
               Inl e \<Rightarrow> Inl e
             | Inr cs \<Rightarrow> Inr (fb\<lparr>fb_casts := cs, fb_end_time := Some (take_bit 32 (in_end inp)), fb_pool := pool', fb_store := s'\<rparr>)) }) }) }"

subsection \<open>Latencies\<close>

definition CAST_COUNT :: nat where "CAST_COUNT = 100"
definition CHAR_COUNT :: nat where "CHAR_COUNT = 100000"

text \<open>
  A query returns the store it leaves, and its count. A cast only reads the store; counting a character creates the lists it
  does not find. Characters are counted for the last second of the load, a member that is set by \<open>load_data\<close>.
\<close>

type_synonym count_run = "packet_store \<Rightarrow> (packet_store \<times> nat) option"

definition count_cast :: "hdr_layout \<Rightarrow> query_plan \<Rightarrow> count_run" where
  "count_cast L c s = map_option (Pair s) (cast_execute L agg_count c s)"

definition count_char :: "nat option \<Rightarrow> nat \<Rightarrow> count_run" where
  "count_char end_time c s = do { t \<leftarrow> end_time; query_character_count c t t s }"

text \<open>A query is repeated once per pair of clock readings; the sums of its counts and of the times.\<close>

fun repeat_query :: "(real \<Rightarrow> real) \<Rightarrow> count_run \<Rightarrow> (nat \<times> nat) list \<Rightarrow> nat \<Rightarrow> real \<Rightarrow> packet_store \<Rightarrow>
    (packet_store \<times> nat \<times> real) option" where
  "repeat_query rnd q [] tot avg s = Some (s, tot, avg)"
| "repeat_query rnd q ((start, stop) # ts) tot avg s = do {
     (s', cnt) \<leftarrow> q s;
     repeat_query rnd q ts (take_bit 64 (tot + cnt)) (rnd (avg + rnd (real (sub64 stop start)))) s' }"

definition latency_row :: "(real \<Rightarrow> real) \<Rightarrow> nat \<Rightarrow> count_run \<Rightarrow> (nat \<times> nat) list \<Rightarrow> packet_store \<Rightarrow>
    (packet_store \<times> nat \<times> real) option" where
  "latency_row rnd repeat_max q ts s =
     (if length ts = repeat_max \<and> 0 < repeat_max then do {
        (s', tot, avg) \<leftarrow> repeat_query rnd q ts 0 0 s;
        Some (s', tot div repeat_max, rnd (avg / rnd (real repeat_max))) }
      else None)"

fun latency_rows :: "(real \<Rightarrow> real) \<Rightarrow> nat \<Rightarrow> ('q \<Rightarrow> count_run) \<Rightarrow> 'q list \<Rightarrow> (nat \<times> nat) list list \<Rightarrow> packet_store \<Rightarrow>
    (packet_store \<times> (nat \<times> real) list) option" where
  "latency_rows rnd n run [] tss s = Some (s, [])"
| "latency_rows rnd n run (q # qs) (ts # tss) s = do {
     (s1, row) \<leftarrow> latency_row rnd n (run q) ts s; (s2, rows) \<leftarrow> latency_rows rnd n run qs tss s1; Some (s2, row # rows) }"
| "latency_rows rnd n run (q # qs) [] s = None"

type_synonym 'p bench_rows = "('p filter_benchmark \<times> (nat \<times> real) list) option"

definition keep_store :: "'p filter_benchmark \<Rightarrow> (packet_store \<times> 'a) option \<Rightarrow> ('p filter_benchmark \<times> 'a) option" where
  "keep_store fb r = map_option (\<lambda>(s, x). (fb\<lparr>fb_store := s\<rparr>, x)) r"

definition bench_cast_latency :: "bench_machine \<Rightarrow> bench_input \<Rightarrow> 'p filter_benchmark \<Rightarrow> 'p bench_rows" where
  "bench_cast_latency M inp fb =
     keep_store fb (latency_rows (bm_rnd M) CAST_COUNT (count_cast (bm_layout M)) (fb_casts fb) (in_times inp) (fb_store fb))"

definition bench_char_latency :: "bench_machine \<Rightarrow> bench_input \<Rightarrow> 'p filter_benchmark \<Rightarrow> 'p bench_rows" where
  "bench_char_latency M inp fb =
     keep_store fb (latency_rows (bm_rnd M) CHAR_COUNT (count_char (fb_end_time fb)) (fb_characters fb) (in_times inp) (fb_store fb))"

subsection \<open>Throughput\<close>

text \<open>
  A thread repeats its query; its rates are per second, from two readings in microseconds. A rate is \<open>None\<close> where the
  floating-point division is by zero and its result not a number that is finite.
\<close>

fun sum_query :: "count_run \<Rightarrow> nat \<Rightarrow> nat \<Rightarrow> count_run" where
  "sum_query q 0 n s = Some (s, n)"
| "sum_query q (Suc k) n s = do { (s', cnt) \<leftarrow> q s; sum_query q k (take_bit 64 (n + cnt)) s' }"

type_synonym rate = "real option"

definition rate_div :: "(real \<Rightarrow> real) \<Rightarrow> nat \<Rightarrow> real \<Rightarrow> rate" where
  "rate_div rnd n secs = (if secs = 0 then None else Some (rnd (rnd (real n) / secs)))"

definition rate_add :: "(real \<Rightarrow> real) \<Rightarrow> rate \<Rightarrow> rate \<Rightarrow> rate" where
  "rate_add rnd a b = do { x \<leftarrow> a; y \<leftarrow> b; Some (rnd (x + y)) }"

definition thread_rates :: "(real \<Rightarrow> real) \<Rightarrow> nat \<Rightarrow> count_run \<Rightarrow> nat \<times> nat \<Rightarrow> packet_store \<Rightarrow> (packet_store \<times> rate \<times> rate) option" where
  "thread_rates rnd k q t s = do {
     (s', n) \<leftarrow> sum_query q k 0 s;
     let totsecs = rnd (rnd (real (sub64 (snd t) (fst t))) / 1000000) in
     Some (s', rate_div rnd k totsecs, rate_div rnd n totsecs) }"

fun throughput_sum :: "(real \<Rightarrow> real) \<Rightarrow> nat \<Rightarrow> count_run \<Rightarrow> (nat \<times> nat) list \<Rightarrow> rate \<times> rate \<Rightarrow> packet_store \<Rightarrow>
    (packet_store \<times> rate \<times> rate) option" where
  "throughput_sum rnd k q [] tot s = Some (s, tot)"
| "throughput_sum rnd k q (t # ts) tot s = do {
     (s', qr, pr) \<leftarrow> thread_rates rnd k q t s;
     throughput_sum rnd k q ts (rate_add rnd (fst tot) qr, rate_add rnd (snd tot) pr) s' }"

fun throughput_rows :: "(real \<Rightarrow> real) \<Rightarrow> nat \<Rightarrow> nat \<Rightarrow> ('q \<Rightarrow> count_run) \<Rightarrow> 'q list \<Rightarrow> (nat \<times> nat) list list \<Rightarrow> packet_store \<Rightarrow>
    (packet_store \<times> (rate \<times> rate) list) option" where
  "throughput_rows rnd k threads run [] tss s = Some (s, [])"
| "throughput_rows rnd k threads run (q # qs) (ts # tss) s =
     (if length ts = threads then do {
        (s1, row) \<leftarrow> throughput_sum rnd k (run q) ts (Some 0, Some 0) s;
        (s2, rows) \<leftarrow> throughput_rows rnd k threads run qs tss s1;
        Some (s2, row # rows) }
      else None)"
| "throughput_rows rnd k threads run (q # qs) [] s = None"

text \<open>The loop of the casts runs over the filters, and reads the cast of each.\<close>

type_synonym 'p bench_rates = "('p filter_benchmark \<times> (rate \<times> rate) list) option"

definition bench_cast_throughput :: "bench_machine \<Rightarrow> bench_input \<Rightarrow> nat \<Rightarrow> 'p filter_benchmark \<Rightarrow> 'p bench_rates" where
  "bench_cast_throughput M inp threads fb =
     keep_store fb (throughput_rows (bm_rnd M) CAST_COUNT threads
       (\<lambda>qid. if qid < length (fb_casts fb) then count_cast (bm_layout M) (fb_casts fb ! qid) else (\<lambda>s. None))
       [0..<length (fb_filters fb)] (in_times inp) (fb_store fb))"

text \<open>
  How often a character is queried: two seconds of batches, with a division by the length of a batch. The pauses of
  the pacer between the queries change only the clock readings.
\<close>

definition char_qcount :: "nat \<Rightarrow> nat \<Rightarrow> nat option" where
  "char_qcount bsize batch_ms = (if batch_ms = 0 then None else Some (take_bit 64 (bsize * (2000 div batch_ms))))"

definition bench_char_throughput :: "bench_machine \<Rightarrow> bench_input \<Rightarrow> nat \<Rightarrow> nat \<Rightarrow> nat \<Rightarrow> 'p filter_benchmark \<Rightarrow> 'p bench_rates" where
  "bench_char_throughput M inp bsize batch_ms threads fb =
     keep_store fb
       (if fb_characters fb = [] \<or> threads = 0
        then throughput_rows (bm_rnd M) 0 threads (count_char (fb_end_time fb)) (fb_characters fb) (in_times inp) (fb_store fb)
        else do {
          k \<leftarrow> char_qcount bsize batch_ms;
          throughput_rows (bm_rnd M) k threads (count_char (fb_end_time fb)) (fb_characters fb) (in_times inp) (fb_store fb) })"

subsection \<open>The program\<close>

text \<open>What an action writes: rows of counts and latencies, or rows of rates.\<close>

datatype bench_output = Latencies "(nat \<times> real) list" | Rates "(rate \<times> rate) list" | Loaded

definition bench_step :: "bench_machine \<Rightarrow> (nat \<Rightarrow> 'p \<Rightarrow> (int + packet list) \<times> 'p) \<Rightarrow> bench_action \<Rightarrow> bench_input \<Rightarrow>
    'p filter_benchmark \<Rightarrow> ('p filter_benchmark \<times> bench_output) bench_run" where
  "bench_step M get a inp fb =
     (case a of
        Load_data n \<Rightarrow> map_option (\<lambda>r. case r of Inl e \<Rightarrow> Inl e | Inr fb' \<Rightarrow> Inr (fb', Loaded)) (bench_load M get inp n fb)
      | Cast_latency \<Rightarrow> map_option (\<lambda>(fb', rows). Inr (fb', Latencies rows)) (bench_cast_latency M inp fb)
      | Char_latency \<Rightarrow> map_option (\<lambda>(fb', rows). Inr (fb', Latencies rows)) (bench_char_latency M inp fb)
      | Cast_throughput t \<Rightarrow> map_option (\<lambda>(fb', rows). Inr (fb', Rates rows)) (bench_cast_throughput M inp t fb)
      | Char_throughput b ms t \<Rightarrow> map_option (\<lambda>(fb', rows). Inr (fb', Rates rows)) (bench_char_throughput M inp b ms t fb))"

fun bench_steps :: "bench_machine \<Rightarrow> (nat \<Rightarrow> 'p \<Rightarrow> (int + packet list) \<times> 'p) \<Rightarrow> (bench_action \<times> bench_input) list \<Rightarrow>
    'p filter_benchmark \<Rightarrow> ('p filter_benchmark \<times> bench_output list) bench_run" where
  "bench_steps M get [] fb = Some (Inr (fb, []))"
| "bench_steps M get ((a, inp) # as) fb = do {
     r \<leftarrow> bench_step M get a inp fb;
     (case r of
        Inl e \<Rightarrow> Some (Inl e)
      | Inr (fb1, out) \<Rightarrow> do {
          r' \<leftarrow> bench_steps M get as fb1;
          Some (case r' of Inl e \<Rightarrow> Inl e | Inr (fb2, outs) \<Rightarrow> Inr (fb2, out # outs)) }) }"


text \<open>
  \<open>main\<close>: the file is the query file, if it can be opened; the inputs of the actions are numbered. Of the loop of
  \<open>latency-trend\<close> at most \<open>k\<close> turns are run.
\<close>

definition filter_bench_main :: "bench_machine \<Rightarrow> (nat \<Rightarrow> 'p \<Rightarrow> (int + packet list) \<times> 'p) \<Rightarrow> getopt_event list \<Rightarrow> string list \<Rightarrow>
    string option \<Rightarrow> nat list \<Rightarrow> 'p \<Rightarrow> nat \<Rightarrow> (nat \<Rightarrow> bench_input) \<Rightarrow> ('p filter_benchmark \<times> bench_output list) bench_run" where
  "filter_bench_main M get evs rest file nows pool k inputs = do {
     r \<leftarrow> uncaught (filter_bench_args evs rest);
     (case r of
        Inl e \<Rightarrow> Some (Inl e)
      | Inr (opts, path) \<Rightarrow> do {
          r1 \<leftarrow> filter_benchmark_new (fb_load_rate opts) path file nows pool;
          (case r1 of
             Inl e \<Rightarrow> Some (Inl e)
           | Inr fb \<Rightarrow>
               (case bench_actions k opts of
                  None \<Rightarrow> Some (Inl (Exits (''Unknown benchmark type: '' @ bench_type opts)))
                | Some as \<Rightarrow> bench_steps M get (zip as (map inputs [0..<length as])) fb)) }) }"

subsection \<open>The programs packet\_bench and storage\_bench\<close>

definition packet_loader_filters :: "string \<Rightarrow> string option \<Rightarrow> nat list \<Rightarrow> packet_store \<Rightarrow> (packet_store \<times> nat list) bench_run" where
  "packet_loader_filters path file nows s =
     (case file of
        None \<Rightarrow> Some (Inl (Exits (''Could not open filters file '' @ path)))
      | Some text \<Rightarrow> add_complex_chars nows (getlines_from [] text) s)"

definition packet_loader_new :: "string option \<Rightarrow> string option \<Rightarrow> nat list \<Rightarrow> (packet_store \<times> nat list) bench_run" where
  "packet_loader_new filters_file file nows = do {
     s \<leftarrow> packet_store_init;
     (case filters_file of
        None \<Rightarrow> Some (Inr (s, []))
      | Some path \<Rightarrow> packet_loader_filters path file nows s) }"

definition packet_bench_main :: "bench_machine \<Rightarrow> getopt_event list \<Rightarrow> string option \<Rightarrow> nat list \<Rightarrow> real list \<Rightarrow>
    (nat \<Rightarrow> bench_worker) \<Rightarrow> bench_result bench_run" where
  "packet_bench_main M evs file nows rs workers = do {
     opts \<leftarrow> packet_bench_args evs;
     r \<leftarrow> packet_loader_new (pb_filters_file opts) file nows;
     (case r of
        Inl e \<Rightarrow> Some (Inl e)
      | Inr (s, cs) \<Rightarrow> map_option Inr (packet_bench_load (bm_rnd M) (bm_pow M) (bm_layout M) (bm_be16 M) rs (pb_rate_limit opts)
          (map workers [0..<pb_threads opts]) s)) }"

definition storage_bench_main :: "bench_machine \<Rightarrow> getopt_event list \<Rightarrow> real list \<Rightarrow> bench_worker list \<Rightarrow>
    (bench_result \<times> (nat \<times> nat) list) option" where
  "storage_bench_main M evs rs ws = do {
     (num, interval) \<leftarrow> storage_bench_args evs;
     s \<leftarrow> packet_store_init;
     storage_bench_load (bm_rnd M) (bm_pow M) (bm_layout M) (bm_be16 M) rs num interval ws s }"

lemma packet_bench_no_threads: "packet_bench_load rnd pw L be16 rs rate [] s = None"
  by (simp add: packet_bench_load_def worker_rate_def)

section \<open>What the measurements report\<close>

text \<open>A query that counts \<open>c\<close> and stays in a set of stores, from every store of it.\<close>

definition counts_to :: "(packet_store \<Rightarrow> bool) \<Rightarrow> count_run \<Rightarrow> nat \<Rightarrow> bool" where
  "counts_to R q c \<longleftrightarrow> (\<forall>s. R s \<longrightarrow> (\<exists>s'. q s = Some (s', c) \<and> R s'))"

lemma counts_toE:
  assumes "counts_to R q c" "R s"
  obtains s' where "q s = Some (s', c)" "R s'"
  using assms by (auto simp: counts_to_def)

lemma repeat_query_count:
  assumes "counts_to R q c" "R s" "tot + length ts * c < 2 ^ 64"
  shows "\<exists>s' avg'. repeat_query rnd q ts tot avg s = Some (s', tot + length ts * c, avg') \<and> R s'"
  using assms(2,3)
proof (induction ts arbitrary: tot avg s)
  case (Cons t ts)
  obtain start stop where t: "t = (start, stop)" by (cases t)
  obtain s1 where s1: "q s = Some (s1, c)" "R s1" using counts_toE [OF assms(1) Cons.prems(1)] .
  have le: "tot + c + length ts * c < 2 ^ 64" using Cons.prems by simp
  then have "tot + c < 2 ^ 64" by simp
  then have "take_bit 64 (tot + c) = tot + c" by (simp add: take_bit_64_id)
  then show ?case using Cons.IH [OF s1(2) le] s1(1) t by (simp add: add.assoc)
qed simp

lemma latency_row_count:
  assumes "counts_to R q c" "R s" "length ts = n" "0 < n" "n * c < 2 ^ 64"
  shows "\<exists>s' avg. latency_row rnd n q ts s = Some (s', c, avg) \<and> R s'"
proof -
  obtain s' avg where "repeat_query rnd q ts 0 0 s = Some (s', n * c, avg)" "R s'"
    using repeat_query_count [OF assms(1,2), of 0 ts rnd 0] assms(3,5) by auto
  then show ?thesis using assms(3,4) by (simp add: latency_row_def)
qed

lemma latency_rows_count:
  assumes "list_all2 (\<lambda>q c. counts_to R (run q) c \<and> n * c < 2 ^ 64) qs cs" "0 < n" "length tss = length qs"
    and "list_all (\<lambda>ts. length ts = n) tss" "R s"
  shows "\<exists>s' rows. latency_rows rnd n run qs tss s = Some (s', rows) \<and> map fst rows = cs \<and> R s'"
  using assms(1,3-)
proof (induction qs cs arbitrary: tss s rule: list_all2_induct)
  case (Cons q qs c cs)
  obtain ts tss' where tss: "tss = ts # tss'" using Cons.prems(1) by (cases tss) auto
  obtain s1 avg where row: "latency_row rnd n (run q) ts s = Some (s1, c, avg)" "R s1"
    using latency_row_count [of R "run q" c s ts n rnd] Cons.hyps Cons.prems(2,3) assms(2) tss by auto
  obtain s2 rows where "latency_rows rnd n run qs tss' s1 = Some (s2, rows)" "map fst rows = cs" "R s2"
    using Cons.IH [of tss' s1] Cons.prems tss row(2) by auto
  then show ?case using row(1) tss by simp
qed simp

text \<open>A cast of one predicate, planned on the store.\<close>

definition predicate_cast :: "packet_store \<Rightarrow> query_plan \<Rightarrow> index_filter \<Rightarrow> bool" where
  "predicate_cast s P f \<longleftrightarrow> (\<exists>now attr op val. build_index_filter s now attr op val = Some (Inr f)
     \<and> plan s now (Predicate attr op val) = Some (Inr P)) \<and> filter_inside s f"

abbreviation matching :: "hdr_layout \<Rightarrow> packet_store \<Rightarrow> index_filter \<Rightarrow> nat set" where
  "matching L s f \<equiv> {i. i < num_pkts s \<and> pkt_matches L s [f] i}"

lemma matching_card: "card (matching L s f) \<le> num_pkts s"
  using card_mono [of "{..<num_pkts s}" "matching L s f"] by auto

lemma count_cast_predicate:
  assumes "pstore_ok s" "Query_Data.complete L s" "predicate_cast s P f"
  shows "counts_to (\<lambda>s'. s' = s) (count_cast L P) (card (matching L s f))"
proof -
  obtain now attr op val where f: "build_index_filter s now attr op val = Some (Inr f)" "filter_inside s f"
    and P: "plan s now (Predicate attr op val) = Some (Inr P)" using assms(3) by (auto simp: predicate_cast_def)
  show ?thesis using predicate_cast_exact [OF assms(1,2) f] P by (auto simp: count_cast_def counts_to_def)
qed

abbreviation accepted :: "hdr_layout \<Rightarrow> packet_store \<Rightarrow> nat \<Rightarrow> nat \<Rightarrow> nat \<Rightarrow> nat set" where
  "accepted L s t c n0 \<equiv> {i. n0 \<le> i \<and> i < num_pkts s \<and> stored_match L s c t i}"

lemma accepted_card: "card (accepted L s t c n0) \<le> num_pkts s"
  using card_mono [of "{..<num_pkts s}" "accepted L s t c n0"] by auto

lemma count_char_accepted:
  assumes "pstore_ok s" "char_exact L c n0 s" "t + 1 < 2 ^ 32"
  shows "counts_to (recounted s) (count_char (Some t) c) (card (accepted L s t c n0))"
  unfolding counts_to_def
proof (intro allI impI)
  fix s1 assume r: "recounted s s1"
  note same = recounted_same [OF r]
  have m: "num_filters s \<le> MAX_FILTERS" "num_pkts s < 2 ^ 34" using assms(1) by (simp_all add: pstore_ok_def)
  have "{i. n0 \<le> i \<and> i < num_pkts s1 \<and> (\<exists>t'. t \<le> t' \<and> t' \<le> t \<and> stored_match L s1 c t' i)} = accepted L s t c n0"
    unfolding same(4,7) by (auto dest: antisym)
  then obtain s2 where "query_character_count c t t s1 = Some (s2, card (accepted L s t c n0))" "recounted s1 s2"
    using count_exact [OF recounted_exact [OF r m(1) assms(2)] same(6) _ _ order_refl assms(3)] m same(3,4) by auto
  then show "\<exists>s'. count_char (Some t) c s1 = Some (s', card (accepted L s t c n0)) \<and> recounted s s'"
    using recounted_trans [OF r] by (auto simp: count_char_def)
qed


text \<open>The throughput of characters divides by the length of a batch, which is 0 unless it is set.\<close>

lemma char_throughput_zero_ms:
  assumes "fb_characters fb \<noteq> []" "0 < threads"
  shows "bench_char_throughput M inp b 0 threads fb = None"
  using assms by (simp add: bench_char_throughput_def char_qcount_def keep_store_def)

section \<open>Buffers of the memory pool\<close>

text \<open>
  What the code relies on: a request for \<open>n\<close> buffers is met in full if as many are available, and takes
  nothing otherwise. No operation of the benchmark gives buffers back.
\<close>

definition bulk_pool :: "(nat \<Rightarrow> 'p \<Rightarrow> (int + packet list) \<times> 'p) \<Rightarrow> ('p \<Rightarrow> nat) \<Rightarrow> bool" where
  "bulk_pool get avail \<longleftrightarrow> (\<forall>n p. case get n p of
     (Inl ret, p') \<Rightarrow> avail p < n \<and> avail p' = avail p
   | (Inr bufs, p') \<Rightarrow> n \<le> avail p \<and> avail p' = avail p - n \<and> length bufs = n \<and> list_all buf_ok bufs)"

lemma load_data_error: "load_data rnd L be16 (Inl ret) rate t0 start ts d s = Some (Inl ret)"
  by (simp add: load_data_def static_generator_new_def new_pkts_def mbuf_alloc_bulk_def)

lemma bench_load_pool:
  assumes "bulk_pool get avail" "bench_load M get inp n fb = Some (Inr fb')"
  shows "avail (fb_pool fb') + 32 = avail (fb_pool fb)"
proof -
  obtain got pool' where g: "get 32 (fb_pool fb) = (got, pool')" by fastforce
  have p: "case (got, pool') of
      (Inl ret, p') \<Rightarrow> avail (fb_pool fb) < 32 \<and> avail p' = avail (fb_pool fb)
    | (Inr bufs, p') \<Rightarrow> 32 \<le> avail (fb_pool fb) \<and> avail p' = avail (fb_pool fb) - 32 \<and> length bufs = 32 \<and> list_all buf_ok bufs"
    unfolding g [symmetric] by (rule assms(1) [unfolded bulk_pool_def, THEN spec, THEN spec])
  show ?thesis
  proof (cases got)
    case (Inl ret)
    then show ?thesis using assms(2) g load_data_error
      by (auto simp: bench_load_def RTE_BURST_SIZE_def split: bind_split_asm)
  next
    case (Inr bufs)
    then have "avail pool' + 32 = avail (fb_pool fb)" using p by simp
    then show ?thesis using assms(2) g
      by (auto simp: bench_load_def RTE_BURST_SIZE_def split: bind_split_asm sum.splits)
  qed
qed

lemma keep_store_pool: "keep_store fb r = Some (fb', x) \<Longrightarrow> fb_pool fb' = fb_pool fb"
  by (auto simp: keep_store_def)

lemma measures_keep_pool:
  "bench_cast_latency M inp fb = Some (fb', rows) \<Longrightarrow> fb_pool fb' = fb_pool fb"
  "bench_char_latency M inp fb = Some (fb', rows) \<Longrightarrow> fb_pool fb' = fb_pool fb"
  "bench_cast_throughput M inp threads fb = Some (fb', rates) \<Longrightarrow> fb_pool fb' = fb_pool fb"
  "bench_char_throughput M inp b ms threads fb = Some (fb', rates) \<Longrightarrow> fb_pool fb' = fb_pool fb"
  unfolding bench_cast_latency_def bench_char_latency_def bench_cast_throughput_def bench_char_throughput_def
  by (rule keep_store_pool, assumption)+

lemma bench_step_pool:
  assumes "bulk_pool get avail" "bench_step M get a inp fb = Some (Inr (fb', out))"
  shows "avail (fb_pool fb') + 32 * length (load_sizes [a]) = avail (fb_pool fb)"
proof (cases a)
  case (Load_data n)
  then obtain z where "bench_load M get inp n fb = Some z" "(case z of Inl e \<Rightarrow> Inl e | Inr fb' \<Rightarrow> Inr (fb', Loaded)) = Inr (fb', out)"
    using assms(2) by (auto simp: bench_step_def)
  then have "bench_load M get inp n fb = Some (Inr fb')" by (cases z) simp_all
  then show ?thesis using bench_load_pool [OF assms(1)] Load_data by simp
qed (use assms(2) in \<open>auto simp: bench_step_def dest: measures_keep_pool\<close>)

lemma bench_steps_pool:
  assumes "bulk_pool get avail" "bench_steps M get as fb = Some (Inr (fb', outs))"
  shows "avail (fb_pool fb') + 32 * length (load_sizes (map fst as)) = avail (fb_pool fb)"
  using assms(2)
proof (induction as arbitrary: fb outs)
  case (Cons ai as)
  obtain a inp where ai: "ai = (a, inp)" by (cases ai)
  obtain fb1 out outs' where s: "bench_step M get a inp fb = Some (Inr (fb1, out))" "bench_steps M get as fb1 = Some (Inr (fb', outs'))"
    using Cons.prems ai by (auto split: bind_split_asm sum.splits)
  have "load_sizes (map fst (ai # as)) = load_sizes [a] @ load_sizes (map fst as)"
    using ai load_sizes_simps(7) [of "[a]" "map fst as"] by simp
  then show ?case using bench_step_pool [OF assms(1) s(1)] Cons.IH [OF s(2)] by simp
qed simp

text \<open>
  Every load keeps 32 buffers of the memory pool. A run of the benchmark that completes has taken 32 buffers for each of its loads, so it has at
  most 8 of them with the 256 buffers of \<open>init_dpdk\<close>.
\<close>

theorem loads_use_up_pool:
  assumes "bulk_pool get avail" "bench_steps M get as fb = Some (Inr (fb', outs))"
  shows "avail (fb_pool fb') + 32 * length (load_sizes (map fst as)) = avail (fb_pool fb)"
  by (rule bench_steps_pool [OF assms])

lemma trend_never_completes:
  assumes "bulk_pool get avail" "avail (fb_pool fb) = 256" "bench_type opts = ''latency-trend''"
    and "90000000 \<le> fb_num_pkts opts" "fb_num_pkts opts < 2 ^ 64 - trend_batch" "9 \<le> k"
    and "bench_actions k opts = Some (map fst as)"
  shows "bench_steps M get as fb \<noteq> Some (Inr r)"
proof
  assume r: "bench_steps M get as fb = Some (Inr r)"
  have "map fst as = trend_actions k trend_batch (fb_num_pkts opts)" using assms(3,7) by (simp add: bench_actions_def Let_def)
  then have "load_sizes (map fst as) = replicate (min k (fb_num_pkts opts div trend_batch)) trend_batch"
    using trend_loads [OF assms(5), of k 1] by simp
  moreover have "9 \<le> fb_num_pkts opts div trend_batch" using assms(4) by (simp add: trend_batch_def less_eq_div_iff_mult_less_eq)
  ultimately have "8 < length (load_sizes (map fst as))" using assms(6) by simp
  moreover obtain fb' outs where "r = (fb', outs)" by (cases r)
  ultimately show False using bench_steps_pool [OF assms(1), of M as fb fb' outs] r assms(2) by simp
qed

section \<open>Examples\<close>

definition wire_machine :: bench_machine where
  "wire_machine = \<lparr>bm_rnd = \<lambda>x. x, bm_pow = \<lambda>x y. if y = 0 then 1 else x powr y, bm_layout = wire_layout, bm_be16 = \<lambda>v. v\<rparr>"

definition timed_input :: "nat \<Rightarrow> bench_input" where
  "timed_input n = \<lparr>in_draws = [], in_t0 = 0, in_start = 0, in_turns = [], in_end = 0, in_nows = [], in_times = [replicate n (0, 5)]\<rparr>"

definition one_query :: "query_plan \<Rightarrow> packet_store \<Rightarrow> nat filter_benchmark" where
  "one_query P s = \<lparr>fb_rate = 0, fb_filters = [], fb_casts = [P], fb_characters = [0], fb_end_time = Some 1500000000, fb_pool = 256,
     fb_store = s\<rparr>"

lemma one_pkt_store:
  "\<exists>s. store_exact wire_layout s \<and> char_exact wire_layout 0 0 s \<and> store_pkts s = [(1500000000, tcp_bytes)]
    \<and> filters s 0 = [from_80]"
proof -
  obtain s s1 s' where s: "packet_store_init = Some s" "add_complex_character [from_80] s = Some (s1, 0)"
    "insert_pktburst wire_layout 1500000000 [tcp_pkt] s1 = Some s'" and c: "char_exact wire_layout 0 0 s'"
    "store_pkts s' = [(1500000000, tcp_bytes)]" "filters s' 0 = [from_80]"
    using char_query_store by (elim exE conjE) (rule that)
  have e: "store_exact wire_layout s" "store_pkts s = []" "num_filters s = 0" "dtail (base s) = 0"
    using packet_store_init_exact [of wire_layout] s(1) by (metis option.inject)+
  have e1: "store_exact wire_layout s1" "store_pkts s1 = []" "dtail (base s1) = 0"
    using add_character_keeps_exact [OF e(1), of "[from_80]"] e(2-4) s(2) by (auto simp: MAX_FILTERS_def)
  have "num_pkts s1 = 0" using e1(2) by (simp add: store_pkts_def)
  then have "burst_small wire_layout 1500000000 [tcp_pkt] s1"
    using e1(3) tcp_pkt_ok headers_inside_tcp(1) by (simp add: burst_small_def burst_len_def tcp_pkt_def)
  from insert_pktburst_keeps_exact [OF e1(1) this] have "store_exact wire_layout s'" using s(3) by auto
  then show ?thesis using c by blast
qed


text \<open>A pool that counts its buffers.\<close>

definition counted_pool :: "nat \<Rightarrow> nat \<Rightarrow> (int + packet list) \<times> nat" where
  "counted_pool n k = (if n \<le> k then (Inr (replicate n zero_buf), k - n) else (Inl (- 2), k))"

lemma counted_pool_bulk: "bulk_pool counted_pool (\<lambda>k. k)"
proof -
  have "buf_ok zero_buf" using zero_bufs(2) by (simp add: list_all_iff)
  then show ?thesis by (simp add: bulk_pool_def counted_pool_def list_all_iff)
qed

theorem loads_use_up_pool_witness:
  "\<exists>s fb outs. packet_store_init = Some s
    \<and> bench_steps wire_machine counted_pool [(Load_data 32, \<lparr>in_draws = replicate 128 0, in_t0 = 0, in_start = 0,
          in_turns = [(0, 0, 1500000000), (1, 1, 1500000000)], in_end = 1500000000, in_nows = [], in_times = []\<rparr>)]
        \<lparr>fb_rate = 0, fb_filters = [], fb_casts = [], fb_characters = [], fb_end_time = None, fb_pool = 256, fb_store = s\<rparr>
      = Some (Inr (fb, outs)) \<and> fb_pool fb = 224"
proof -
  let ?ts = "[(0, 0, 1500000000), (1, 1, 1500000000 :: nat)] :: (nat \<times> nat \<times> nat) list"
  let ?inp = "\<lparr>in_draws = replicate 128 0, in_t0 = 0, in_start = 0, in_turns = ?ts, in_end = 1500000000, in_nows = [], in_times = []\<rparr>"
  obtain s where s: "packet_store_init = Some s" "store_exact wire_layout s" "store_pkts s = []" "dtail (base s) = 0"
    using packet_store_init_exact by blast
  let ?fb = "\<lparr>fb_rate = 0, fb_filters = [], fb_casts = [], fb_characters = [], fb_end_time = None, fb_pool = 256 :: nat, fb_store = s\<rparr>"
  have n: "num_pkts s = 0" using s(3) by (simp add: store_pkts_def)
  have fp: "fp_rounding (\<lambda>x. x)" by (simp add: fp_rounding_def mono_def)
  obtain data where data: "bench_attrs (\<lambda>x. x) (\<lambda>x y. if y = 0 then 1 else x powr y) (replicate 128 0) = Some data" "length data = 32"
    using bench_attrs_total [OF fp pow_ok_powr, of "replicate 128 0" 32] by auto
  have "\<exists>st. load_data (\<lambda>x. x) wire_layout (\<lambda>v. v) (Inr (replicate 32 zero_buf)) 0 0 0 ?ts data s = Some (Inr (Inr st))"
    using load_data_spec [OF wire_layout_ok zero_bufs s(2), of data ?ts "\<lambda>x. x" "\<lambda>v. v" 0 0 0] data(2) s(4) n by fastforce
  then obtain g sg s' where ld: "load_data (\<lambda>x. x) wire_layout (\<lambda>v. v) (Inr (replicate 32 zero_buf)) 0 0 0 ?ts data s
      = Some (Inr (Inr (g, sg, s')))" by auto
  have "bench_load wire_machine counted_pool ?inp 32 ?fb
      = Some (Inr (?fb\<lparr>fb_casts := [], fb_end_time := Some 1500000000, fb_pool := 224, fb_store := s'\<rparr>))"
    using data(1) ld by (simp add: bench_load_def wire_machine_def counted_pool_def RTE_BURST_SIZE_def take_bit_id)
  then have run: "bench_steps wire_machine counted_pool [(Load_data 32, ?inp)] ?fb
      = Some (Inr (?fb\<lparr>fb_casts := [], fb_end_time := Some 1500000000, fb_pool := 224, fb_store := s'\<rparr>, [Loaded]))"
    by (simp add: bench_step_def)
  from loads_use_up_pool [OF counted_pool_bulk this] show ?thesis using s(1) run by auto
qed

end
