(* ===== verification/Dpdk_Init.thy ===== *)
theory Dpdk_Init
  imports Netplay_Daemon
begin

section \<open>Initialisation of DPDK and its ports (dpdk\_utils.h, pmd\_init.h, ovs\_init.h, bess\_init.h)\<close>

text \<open>
  The code calls DPDK and acts on its answers. A function of DPDK is a call with its arguments; what it
  answers is an argument of the model, a function of all calls up to it: a number, 0 for a null pointer. The calls
  that were made are the state. A result is \<open>Inl\<close> when an exception is thrown or the process ends, and \<open>None\<close> is undefined
  behaviour. Flags that are distinct bits are sets.
\<close>

datatype txq_flag = ETH_TXQ_FLAGS_NOVLANOFFL | ETH_TXQ_FLAGS_NOMULTSEGS | ETH_TXQ_FLAGS_NOXSUMS

datatype rss_flag = ETH_RSS_IP | ETH_RSS_UDP | ETH_RSS_TCP | ETH_RSS_SCTP

datatype eth_mode = ETH_LINK_SPEED_AUTONEG | ETH_MQ_RX_RSS | ETH_MQ_TX_NONE | RTE_FDIR_MODE_NONE | Zeroed

record eth_conf =
  link_speeds :: eth_mode
  rx_mq_mode :: eth_mode
  hw_strip_crc :: bool
  tx_mq_mode :: eth_mode
  lpbk_mode :: nat
  rss_hf :: "rss_flag set"
  fdir_mode :: eth_mode
  intr_lsc :: bool

datatype dpdk_call =
    Dev_configure int nat nat eth_conf
  | Promiscuous_enable int
  | Lcore_to_socket int
  | Rx_queue_setup int nat nat int "bool option"
  | Tx_queue_setup int nat nat int "txq_flag set option"
  | Dev_start int
  | Ring_lookup string
  | Eth_from_rings string nat nat
  | Eal_init "string list"
  | Process_secondary
  | Pool_create string nat nat nat int
  | Thread_affinity nat

type_synonym dpdk = "dpdk_call list \<Rightarrow> int"

type_synonym calls = "dpdk_call list"

definition call :: "dpdk \<Rightarrow> dpdk_call \<Rightarrow> calls \<Rightarrow> int \<times> calls" where
  "call A c h = (A (h @ [c]), h @ [c])"

subsection \<open>Ports of a poll-mode driver\<close>

definition default_eth_conf :: eth_conf where
  "default_eth_conf = \<lparr>link_speeds = ETH_LINK_SPEED_AUTONEG, rx_mq_mode = ETH_MQ_RX_RSS, hw_strip_crc = True,
     tx_mq_mode = ETH_MQ_TX_NONE, lpbk_mode = 0, rss_hf = {ETH_RSS_IP, ETH_RSS_UDP, ETH_RSS_TCP, ETH_RSS_SCTP},
     fdir_mode = RTE_FDIR_MODE_NONE, intr_lsc = False\<rparr>"

definition tx_flags :: "bool \<Rightarrow> bool \<Rightarrow> txq_flag set" where
  "tx_flags tso csumoffload = {ETH_TXQ_FLAGS_NOVLANOFFL} \<union> (if tso then {} else {ETH_TXQ_FLAGS_NOMULTSEGS})
     \<union> (if csumoffload then {} else {ETH_TXQ_FLAGS_NOXSUMS})"

text \<open>
  The loop over the queues of one direction: the socket of the core, which the code reads from the array it was given, and the
  setup of the queue, with the flag to drop packets, or no configuration; the first error ends it.
\<close>

fun setup_queues :: "dpdk \<Rightarrow> (nat \<Rightarrow> int \<Rightarrow> dpdk_call) \<Rightarrow> int list \<Rightarrow> nat \<Rightarrow> nat \<Rightarrow> calls \<Rightarrow> (int \<times> calls) option" where
  "setup_queues A mk cores i 0 h = Some (0, h)"
| "setup_queues A mk cores i (Suc k) h =
     (if i < length cores then
        (case call A (Lcore_to_socket (cores ! i)) h of (sid, h1) \<Rightarrow>
          (case call A (mk i sid) h1 of (ret, h2) \<Rightarrow>
             if ret \<noteq> 0 then Some (ret, h2) else setup_queues A mk cores (i + 1) k h2))
      else None)"

definition ENODEV :: int where "ENODEV = 19"

text \<open>
  \<open>RTE_MAX_ETHPORTS\<close> is the argument \<open>maxp\<close>, the array of the devices the argument \<open>attached\<close>. The port is compared with the number of ports only
  from above.
\<close>

definition init_pmd_port :: "dpdk \<Rightarrow> int \<Rightarrow> (nat \<Rightarrow> bool) \<Rightarrow> int \<Rightarrow> nat \<Rightarrow> nat \<Rightarrow> int list \<Rightarrow> int list \<Rightarrow> nat \<Rightarrow> nat \<Rightarrow>
    bool \<Rightarrow> bool \<Rightarrow> bool \<Rightarrow> calls \<Rightarrow> (int \<times> calls) option" where
  "init_pmd_port A maxp attached port rxqs txqs rxq_core txq_core nrxd ntxd loopback tso csumoffload h =
     (if maxp \<le> port then Some (- ENODEV, h)
      else if port < 0 then None
      else if \<not> attached (nat port) then Some (- ENODEV, h)
      else
        (case call A (Dev_configure port rxqs txqs (default_eth_conf\<lparr>lpbk_mode := (if loopback then 1 else 0)\<rparr>)) h of (ret, h1) \<Rightarrow>
          if ret \<noteq> 0 then Some (ret, h1)
          else
            (case call A (Promiscuous_enable port) h1 of (_, h2) \<Rightarrow> do {
               (ret, h3) \<leftarrow> setup_queues A (\<lambda>i sid. Rx_queue_setup port i nrxd sid (Some True)) rxq_core 0 rxqs h2;
               (if ret \<noteq> 0 then Some (ret, h3)
                else do {
                  (ret, h4) \<leftarrow> setup_queues A (\<lambda>i sid. Tx_queue_setup port i ntxd sid (Some (tx_flags tso csumoffload))) txq_core 0 txqs h3;
                  (if ret \<noteq> 0 then Some (ret, h4)
                   else (case call A (Dev_start port) h4 of (ret, h5) \<Rightarrow> Some (ret, h5))) }) })))"

definition pmd_init :: "dpdk \<Rightarrow> int \<Rightarrow> (nat \<Rightarrow> bool) \<Rightarrow> string \<Rightarrow> calls \<Rightarrow> ((string + int) \<times> calls) option" where
  "pmd_init A maxp attached iface h = do {
     port \<leftarrow> atoi iface;
     (ret, h') \<leftarrow> init_pmd_port A maxp attached port 1 1 [0] [0] 256 256 False False False h;
     Some (if ret \<noteq> 0 then Inl ''Could not intialize port'' else Inr port, h') }"

subsection \<open>Ports of rings: Open vSwitch and BESS\<close>

text \<open>\<open>snprintf\<close> into an array of \<open>n\<close> characters keeps one for the end of the string.\<close>

definition snprintf :: "nat \<Rightarrow> string \<Rightarrow> string" where
  "snprintf n s = take (n - 1) s"

definition Q_NAME :: nat where "Q_NAME = 64"

definition null_conf :: eth_conf where
  "null_conf = \<lparr>link_speeds = Zeroed, rx_mq_mode = Zeroed, hw_strip_crc = False, tx_mq_mode = Zeroed, lpbk_mode = 0, rss_hf = {},
     fdir_mode = Zeroed, intr_lsc = False\<rparr>"

definition ovs_ring_init :: "dpdk \<Rightarrow> string \<Rightarrow> calls \<Rightarrow> (string + int) \<times> calls" where
  "ovs_ring_init A iface h =
     (case call A (Ring_lookup (snprintf Q_NAME (iface @ ''_tx''))) h of (rxq, h1) \<Rightarrow>
       if rxq = 0 then (Inl ''could not find rx rte_ring'', h1)
       else (case call A (Ring_lookup (snprintf Q_NAME (iface @ ''_rx''))) h1 of (txq, h2) \<Rightarrow>
         if txq = 0 then (Inl ''could not find tx rte_ring'', h2)
         else (case call A (Eth_from_rings (snprintf Q_NAME iface) 1 1) h2 of (port, h3) \<Rightarrow>
           if port < 0 then (Inl ''Could not create eth device for ring'', h3)
           else (case call A (Rx_queue_setup port 0 32 0 None) h3 of (ret, h4) \<Rightarrow>
             if ret \<noteq> 0 then (Inl ''rte_eth_rx_queue_setup() failed'', h4)
             else (case call A (Tx_queue_setup port 0 32 0 None) h4 of (ret, h5) \<Rightarrow>
               if ret \<noteq> 0 then (Inl ''rte_eth_tx_queue_setup() failed'', h5) else (Inr port, h5))))))"

text \<open>
  BESS leaves the address of a description in a file: the file may not open (\<open>None\<close>), be too short, or have a null pointer.
\<close>

record rte_ring_bar =
  bar_name :: string
  num_inc_q :: nat
  num_out_q :: nat

datatype bess_file = Too_short | Null_bar | Bar rte_ring_bar

definition PORT_FNAME_LEN :: nat where "PORT_FNAME_LEN = 128 + 256"

definition bess_port_file :: "string \<Rightarrow> string" where
  "bess_port_file port_name = snprintf PORT_FNAME_LEN (''/tmp/sn_vports/'' @ port_name)"

fun ring_queues :: "dpdk \<Rightarrow> (nat \<Rightarrow> dpdk_call) \<Rightarrow> nat \<Rightarrow> nat \<Rightarrow> calls \<Rightarrow> bool \<times> calls" where
  "ring_queues A mk i 0 h = (True, h)"
| "ring_queues A mk i (Suc k) h =
     (case call A (mk i) h of (ret, h1) \<Rightarrow> if ret \<noteq> 0 then (False, h1) else ring_queues A mk (i + 1) k h1)"

definition bess_ring_init :: "dpdk \<Rightarrow> (string \<Rightarrow> bess_file option) \<Rightarrow> string \<Rightarrow> calls \<Rightarrow> (string + int) \<times> calls" where
  "bess_ring_init A file port_name h =
     (case file (bess_port_file port_name) of
        None \<Rightarrow> (Inl ''Could not open port file'', h)
      | Some Too_short \<Rightarrow> (Inl ''Invalid number of bytes read'', h)
      | Some Null_bar \<Rightarrow> (Inl ''Could not find bar'', h)
      | Some (Bar bar) \<Rightarrow>
          (case call A (Eth_from_rings (bar_name bar) (num_inc_q bar) (num_out_q bar)) h of (port, h1) \<Rightarrow>
            if port = - 1 then (Inl ''Could not create eth ring'', h1)
            else (case call A (Dev_configure port (num_inc_q bar) (num_out_q bar) null_conf) h1 of (ret, h2) \<Rightarrow>
              if ret < 0 then (Inl ''Could not configure port'', h2)
              else (case ring_queues A (\<lambda>i. Rx_queue_setup port i 32 0 None) 0 (num_inc_q bar) h2 of (ok, h3) \<Rightarrow>
                if \<not> ok then (Inl ''rte_eth_rx_queue_setup() failed'', h3)
                else (case ring_queues A (\<lambda>i. Tx_queue_setup port i 32 0 None) 0 (num_out_q bar) h3 of (ok, h4) \<Rightarrow>
                  if \<not> ok then (Inl ''rte_eth_tx_queue_setup() failed'', h4) else (Inr port, h4))))))"

subsection \<open>The environment of DPDK\<close>

text \<open>The number of NUMA nodes from the contents of a file of the kernel, and whether the file is left open.\<close>

definition get_numa_count :: "string option \<Rightarrow> (int \<times> bool) option" where
  "get_numa_count file = (case file of
     None \<Rightarrow> Some (1, False)
   | Some (c # d # rest) \<Rightarrow>
       (if c = CHR ''0'' \<and> d = CHR ''-''
        then (case scan_number rest of
                None \<Rightarrow> Some (1, False)
              | Some (cnt, _) \<Rightarrow> if - (2 ^ 31) \<le> cnt \<and> cnt + 1 < 2 ^ 31 then Some (cnt + 1, True) else None)
        else Some (1, False))
   | Some _ \<Rightarrow> Some (1, False))"

definition print_int :: "int \<Rightarrow> string" where
  "print_int i = (if i < 0 then CHR ''-'' # dec_digits (nat (- i)) else dec_digits (nat i))"

text \<open>\<open>%x\<close>, and the bit mask of one core: a shift that is defined for the cores 0 to 31.\<close>

definition hex_digit :: "nat \<Rightarrow> char" where
  "hex_digit d = (if d < 10 then char_of (48 + d) else char_of (87 + d))"

fun hex_digits :: "nat \<Rightarrow> string" where
  "hex_digits n = (if n < 16 then [hex_digit n] else hex_digits (n div 16) @ [hex_digit (n mod 16)])"

declare hex_digits.simps [simp del]

definition core_mask :: "int \<Rightarrow> string option" where
  "core_mask core = (if 0 \<le> core \<and> core < 32 then Some (''0x'' @ hex_digits (2 ^ nat core)) else None)"

text \<open>A string of \<open>sprintf\<close> that is written into an array of \<open>n\<close> characters, with its end.\<close>

definition sprintf_to :: "nat \<Rightarrow> string \<Rightarrow> string option" where
  "sprintf_to n s = (if length s < n then Some s else None)"

definition socket_mem :: "int \<Rightarrow> string" where
  "socket_mem numa_count = ''128'' @ concat (replicate (nat (numa_count - 1)) '',128'')"

text \<open>
  \<open>init_eal\<close>: the argument vector; a core above \<open>RTE_MAX_LCORE\<close>, the argument \<open>maxc\<close>, is refused.
\<close>

definition eal_argv :: "string \<Rightarrow> int \<Rightarrow> bool \<Rightarrow> int \<Rightarrow> string list option" where
  "eal_argv name core secondary numa_count = do {
     master \<leftarrow> sprintf_to 1024 (print_int core);
     bitmap \<leftarrow> core_mask core;
     mem \<leftarrow> sprintf_to 1024 (socket_mem numa_count);
     proc \<leftarrow> sprintf_to 256 (''netplay-'' @ name);
     Some ([proc] @ (if secondary then [''--proc-type'', ''secondary''] else [])
       @ [''--file-prefix'', name, ''-c'', bitmap, ''--master-lcore'', master, ''-n'', ''4'', ''--socket-mem'', mem]) }"

definition init_eal :: "dpdk \<Rightarrow> int \<Rightarrow> string option \<Rightarrow> string \<Rightarrow> int \<Rightarrow> bool \<Rightarrow> calls \<Rightarrow> ((string + int) \<times> calls) option" where
  "init_eal A maxc nodes name core secondary h = do {
     (numa_count, leaked) \<leftarrow> get_numa_count nodes;
     (if maxc < core then Some (Inr (- 1), h)
      else do {
        argv \<leftarrow> eal_argv name core secondary numa_count;
        (case call A (Eal_init argv) h of (ret, h1) \<Rightarrow>
          if secondary then
            (case call A Process_secondary h1 of (is_secondary, h2) \<Rightarrow>
              Some (if is_secondary = 0 then Inl ''Not a secondary process'' else Inr ret, h2))
          else Some (Inr ret, h1)) }) }"

text \<open>
  The secondary process takes the largest pool of those DPDK walks over, given with their sizes; the pointers may be null.
\<close>

definition find_mempool_helper :: "(nat \<times> 'm) option \<Rightarrow> (nat \<times> 'm) option \<Rightarrow> (nat \<times> 'm) option" where
  "find_mempool_helper mp result =
     (case mp of None \<Rightarrow> result
      | Some m \<Rightarrow> (case result of None \<Rightarrow> Some m | Some r \<Rightarrow> if fst r < fst m then Some m else result))"

definition find_secondary_mempool :: "(nat \<times> 'm) option list \<Rightarrow> string + nat \<times> 'm" where
  "find_secondary_mempool pools =
     (case fold find_mempool_helper pools None of None \<Rightarrow> Inl ''Could not find secondary mempool'' | Some m \<Rightarrow> Inr m)"

definition METADATA_SLOT_SIZE :: nat where "METADATA_SLOT_SIZE = 8"
definition NUM_PFRAMES :: nat where "NUM_PFRAMES = 256"
definition CACHE_SIZE :: nat where "CACHE_SIZE = 32"

definition init_mempool :: "dpdk \<Rightarrow> int \<Rightarrow> nat \<Rightarrow> nat \<Rightarrow> nat \<Rightarrow> calls \<Rightarrow> int \<times> calls" where
  "init_mempool A mcore mempool_size mcache_size metadata_slots h =
     (case call A (Lcore_to_socket mcore) h of (sid, h1) \<Rightarrow>
       call A (Pool_create (''pframe'' @ print_int sid) mempool_size mcache_size (take_bit 16 (metadata_slots * METADATA_SLOT_SIZE)) sid) h1)"

text \<open>
  \<open>init_dpdk\<close>. The name of a new pool is printed before the pool is compared with the null pointer. A pool is a pointer that \<open>pool_at\<close>
  reads, or one of the walk.
\<close>

definition init_dpdk :: "dpdk \<Rightarrow> int \<Rightarrow> string option \<Rightarrow> (nat \<times> int) option list \<Rightarrow> string \<Rightarrow> int \<Rightarrow> bool \<Rightarrow> calls \<Rightarrow>
    ((string + int) \<times> calls) option" where
  "init_dpdk A maxc nodes pools name core secondary h = do {
     (r, h1) \<leftarrow> init_eal A maxc nodes name core secondary h;
     (case r of
        Inl e \<Rightarrow> Some (Inl e, h1)
      | Inr ret \<Rightarrow>
          (if ret < 0 then Some (Inl ''init_eal() failed'', h1)
           else if secondary then Some (map_sum id snd (find_secondary_mempool pools), h1)
           else (case init_mempool A core NUM_PFRAMES CACHE_SIZE 1 h1 of (pool, h2) \<Rightarrow>
             if pool = 0 then None else Some (Inr pool, h2)))) }"

text \<open>\<open>init_thread\<close> binds a thread to its core; a core outside a set of CPUs is not set.\<close>

definition init_thread :: "dpdk \<Rightarrow> nat \<Rightarrow> calls \<Rightarrow> calls" where
  "init_thread A core h = snd (call A (Thread_affinity core) h)"

section \<open>The order of the calls\<close>

datatype setup_step = Configured | Rx_ready nat | Tx_ready nat | Started

fun setup_step_of :: "dpdk_call \<Rightarrow> setup_step option" where
  "setup_step_of (Dev_configure _ _ _ _) = Some Configured"
| "setup_step_of (Rx_queue_setup _ i _ _ _) = Some (Rx_ready i)"
| "setup_step_of (Tx_queue_setup _ i _ _ _) = Some (Tx_ready i)"
| "setup_step_of (Dev_start _) = Some Started"
| "setup_step_of _ = None"

text \<open>The steps of a port among the calls, with their answers.\<close>

fun answered_from :: "dpdk \<Rightarrow> calls \<Rightarrow> calls \<Rightarrow> (setup_step \<times> int) list" where
  "answered_from A p [] = []"
| "answered_from A p (c # cs) =
     (case setup_step_of c of None \<Rightarrow> [] | Some x \<Rightarrow> [(x, A (p @ [c]))]) @ answered_from A (p @ [c]) cs"

definition answered :: "dpdk \<Rightarrow> calls \<Rightarrow> (setup_step \<times> int) list" where
  "answered A h = answered_from A [] h"

lemma answered_Nil [simp]: "answered A [] = []"
  by (simp add: answered_def)

lemma answered_snoc:
  "answered A (h @ [c]) = answered A h @ (case setup_step_of c of None \<Rightarrow> [] | Some x \<Rightarrow> [(x, A (h @ [c]))])"
proof -
  have "answered_from A p (h @ [c]) = answered_from A p h
      @ (case setup_step_of c of None \<Rightarrow> [] | Some x \<Rightarrow> [(x, A (p @ h @ [c]))])" for p
    by (induction h arbitrary: p) (simp_all split: option.split)
  from this [of "[]"] show ?thesis unfolding answered_def append_Nil .
qed

text \<open>A sequence of steps that ran up to its first error: all answers before the last are 0, and all steps if the last is.\<close>

definition carried_out :: "setup_step list \<Rightarrow> (setup_step \<times> int) list \<Rightarrow> int \<Rightarrow> bool" where
  "carried_out xs as ret \<longleftrightarrow> (if ret = 0 then as = map (\<lambda>x. (x, 0)) xs
     else \<exists>ys x zs. xs = ys @ x # zs \<and> as = map (\<lambda>y. (y, 0)) ys @ [(x, ret)])"

lemma carried_out_append:
  assumes "carried_out xs as 0" "carried_out ys bs ret"
  shows "carried_out (xs @ ys) (as @ bs) ret"
proof (cases "ret = 0")
  case False
  then obtain us x vs where "ys = us @ x # vs" "bs = map (\<lambda>y. (y, 0)) us @ [(x, ret)]" using assms(2) by (auto simp: carried_out_def)
  then have "xs @ ys = (xs @ us) @ x # vs" "as @ bs = map (\<lambda>y. (y, 0)) (xs @ us) @ [(x, ret)]"
    using assms(1) by (simp_all add: carried_out_def)
  then show ?thesis using False unfolding carried_out_def by metis
qed (use assms in \<open>simp add: carried_out_def\<close>)

lemma carried_out_stops:
  assumes "carried_out xs as ret" "ret \<noteq> 0"
  shows "carried_out (xs @ ys) as ret"
proof -
  obtain us x vs where "xs = us @ x # vs" "as = map (\<lambda>y. (y, 0)) us @ [(x, ret)]" using assms by (auto simp: carried_out_def)
  then have "xs @ ys = us @ x # (vs @ ys)" "as = map (\<lambda>y. (y, 0)) us @ [(x, ret)]" by simp_all
  then show ?thesis using assms(2) unfolding carried_out_def by metis
qed

lemma carried_out_one: "carried_out [x] [(x, ret)] ret"
  by (auto simp: carried_out_def intro!: exI [of _ "[]"])

lemma setup_queues_ran:
  assumes "setup_queues A mk cores i k h = Some (ret, h')" "\<And>i sid. setup_step_of (mk i sid) = Some (x i)"
  shows "\<exists>as. answered A h' = answered A h @ as \<and> carried_out (map x [i..<i + k]) as ret"
  using assms(1)
proof (induction k arbitrary: i h)
  case 0
  then show ?case by (intro exI [of _ "[]"]) (simp add: carried_out_def)
next
  case (Suc k)
  obtain sid where sid: "call A (Lcore_to_socket (cores ! i)) h = (sid, h @ [Lcore_to_socket (cores ! i)])" by (simp add: call_def)
  let ?h1 = "h @ [Lcore_to_socket (cores ! i)]"
  let ?h2 = "?h1 @ [mk i sid]"
  have one: "answered A ?h2 = answered A h @ [(x i, A ?h2)]" unfolding answered_snoc by (simp add: assms(2))
  have upt: "[i..<i + Suc k] = [i] @ [i + 1..<i + 1 + k]" by (simp add: upt_rec)
  show ?case
  proof (cases "A ?h2 = 0")
    case False
    then have r: "ret = A ?h2" "h' = ?h2" using Suc.prems sid by (auto simp: call_def split: if_splits)
    then have "carried_out (map x [i..<i + Suc k]) [(x i, ret)] ret"
      using carried_out_stops [OF carried_out_one [of "x i" ret], of "map x [i + 1..<i + 1 + k]"] False unfolding upt by simp
    then show ?thesis using one r by auto
  next
    case True
    then have "setup_queues A mk cores (i + 1) k ?h2 = Some (ret, h')" using Suc.prems sid by (simp add: call_def split: if_splits)
    then obtain as where as: "answered A h' = answered A ?h2 @ as" "carried_out (map x [i + 1..<i + 1 + k]) as ret" using Suc.IH by blast
    have "carried_out [x i] [(x i, A ?h2)] 0" using carried_out_one [of "x i" 0] True by simp
    then have "carried_out ([x i] @ map x [i + 1..<i + 1 + k]) ([(x i, A ?h2)] @ as) ret" using as(2) by (rule carried_out_append)
    then show ?thesis using as(1) one upt by auto
  qed
qed

text \<open>The transmit queues and the start, after what has been carried out without an error.\<close>

lemma tx_and_start_ran:
  assumes "carried_out xs (answered A h3) 0" "\<And>i sid. setup_step_of (mk i sid) = Some (Tx_ready i)"
    and "do { (ret, h4) \<leftarrow> setup_queues A mk cores 0 txqs h3;
          (if ret \<noteq> 0 then Some (ret, h4) else Some (A (h4 @ [Dev_start port]), h4 @ [Dev_start port])) } = Some (ret, h)"
  shows "carried_out (xs @ map Tx_ready [0..<txqs] @ [Started]) (answered A h) ret"
proof -
  obtain r4 h4 where q4: "setup_queues A mk cores 0 txqs h3 = Some (r4, h4)"
    and k4: "(if r4 \<noteq> 0 then Some (r4, h4) else Some (A (h4 @ [Dev_start port]), h4 @ [Dev_start port])) = Some (ret, h)"
    using assms(3) by (auto split: bind_split_asm)
  obtain bs where bs: "answered A h4 = answered A h3 @ bs" "carried_out (map Tx_ready [0..<txqs]) bs r4"
    using setup_queues_ran [OF q4, of Tx_ready] assms(2) by auto
  have tx: "carried_out (xs @ map Tx_ready [0..<txqs]) (answered A h4) r4" using carried_out_append [OF assms(1) bs(2)] bs(1) by simp
  show ?thesis
  proof (cases "r4 = 0")
    case False
    then show ?thesis using k4 carried_out_stops [OF tx False, of "[Started]"] by simp
  next
    case r4: True
    then have "ret = A (h4 @ [Dev_start port])" "h = h4 @ [Dev_start port]" using k4 by auto
    then have "answered A h = answered A h4 @ [(Started, ret)]" by (simp add: answered_snoc)
    then show ?thesis using carried_out_append [OF tx [unfolded r4] carried_out_one [of Started ret]] by simp
  qed
qed

text \<open>
  C40. A port is started after its queues are set up. The calls for a port that exists are its configuration, the receive queues, the transmit
  queues, and the start, in this order and up to the first error: if the result is 0 all of them were made and answered 0, otherwise the
  result is the answer of the last one and all before it answered 0. For a port that does not exist there is no call.
\<close>

theorem init_pmd_port_order:
  assumes "init_pmd_port A maxp attached port rxqs txqs rxq_core txq_core nrxd ntxd loopback tso csum [] = Some (ret, h)"
  shows "if port < maxp \<and> attached (nat port)
    then carried_out (Configured # map Rx_ready [0..<rxqs] @ map Tx_ready [0..<txqs] @ [Started]) (answered A h) ret
    else ret = - ENODEV \<and> h = []"
proof (cases "port < maxp \<and> attached (nat port)")
  case False
  then show ?thesis using assms by (auto simp: init_pmd_port_def split: if_splits)
next
  case True
  let ?rx = "\<lambda>i sid. Rx_queue_setup port i nrxd sid (Some True)" and ?rxs = "map Rx_ready [0..<rxqs]"
  let ?tx = "\<lambda>i sid. Tx_queue_setup port i ntxd sid (Some (tx_flags tso csum))" and ?txs = "map Tx_ready [0..<txqs]"
  let ?c = "Dev_configure port rxqs txqs (default_eth_conf\<lparr>lpbk_mode := (if loopback then 1 else 0)\<rparr>)"
  let ?h2 = "[?c, Promiscuous_enable port]"
  have conf: "answered A [?c] = [(Configured, A [?c])]" "answered A ?h2 = [(Configured, A [?c])]"
    using answered_snoc [of A "[]" ?c] answered_snoc [of A "[?c]" "Promiscuous_enable port"] by simp_all
  have rest: "carried_out (Configured # zs) as ret'" if "carried_out [Configured] as ret'" "ret' \<noteq> 0" for as ret' zs
    using carried_out_stops [OF that, of zs] by simp
  show ?thesis
  proof (cases "A [?c] = 0")
    case False
    then have "ret = A [?c]" "h = [?c]" using assms True by (auto simp: init_pmd_port_def call_def split: if_splits)
    then show ?thesis using rest [OF _ False] carried_out_one conf(1) True by simp
  next
    case c0: True
    obtain r3 h3 where q3: "setup_queues A ?rx rxq_core 0 rxqs ?h2 = Some (r3, h3)"
      and k3: "(if r3 \<noteq> 0 then Some (r3, h3) else do {
          (ret, h4) \<leftarrow> setup_queues A ?tx txq_core 0 txqs h3;
          (if ret \<noteq> 0 then Some (ret, h4) else Some (A (h4 @ [Dev_start port]), h4 @ [Dev_start port])) }) = Some (ret, h)"
      using assms True c0 by (auto simp: init_pmd_port_def call_def split: if_splits bind_split_asm)
    obtain as where as: "answered A h3 = answered A ?h2 @ as" "carried_out ?rxs as r3"
      using setup_queues_ran [OF q3, of Rx_ready] by auto
    have rx: "carried_out (Configured # ?rxs) (answered A h3) r3"
      using carried_out_append [OF _ as(2), of "[Configured]" "[(Configured, 0)]"] carried_out_one [of Configured 0] as(1) conf(2) c0 by simp
    show ?thesis
    proof (cases "r3 = 0")
      case False
      then show ?thesis using k3 carried_out_stops [OF rx False, of "?txs @ [Started]"] True by simp
    next
      case r3: True
      then show ?thesis using tx_and_start_ran [OF rx [unfolded r3], of ?tx txq_core txqs port ret h] k3 True by simp
    qed
  qed
qed

theorem init_pmd_port_order_witness:
  "\<exists>h. init_pmd_port (\<lambda>h. 0) 32 (\<lambda>p. p = 3) 3 1 1 [0] [0] 256 256 False False False [] = Some (0, h)
    \<and> answered (\<lambda>h. 0) h = [(Configured, 0), (Rx_ready 0, 0), (Tx_ready 0, 0), (Started, 0)]"
proof -
  obtain h where h: "init_pmd_port (\<lambda>h. 0) 32 (\<lambda>p. p = 3) 3 1 1 [0] [0] 256 256 False False False [] = Some (0, h)"
    by (simp add: init_pmd_port_def call_def numeral_eq_Suc)
  show ?thesis using init_pmd_port_order [OF h] h by (simp add: carried_out_def)
qed

text \<open>A negative number of a port passes the comparison and is read before the array of the devices.\<close>

lemma pmd_negative_port:
  assumes "atoi iface = Some port" "port < 0" "0 \<le> maxp"
  shows "pmd_init A maxp attached iface h = None"
  using assms by (simp add: pmd_init_def init_pmd_port_def)

section \<open>The environment\<close>

text \<open>The secondary process takes the first of the largest pools, and fails only if there is none.\<close>

lemma find_mempool_fold:
  fixes pools :: "(nat \<times> 'm) option list"
  shows "case fold find_mempool_helper pools r of
      None \<Rightarrow> r = None \<and> set pools \<subseteq> {None}
    | Some m \<Rightarrow> (r = Some m \<or> Some m \<in> set pools) \<and> (\<forall>q. r = Some q \<or> Some q \<in> set pools \<longrightarrow> fst q \<le> fst m)"
proof (induction pools arbitrary: r)
  case (Cons p pools)
  let ?r = "find_mempool_helper p r"
  have r: "case ?r of None \<Rightarrow> r = None \<and> p = None
    | Some m \<Rightarrow> (r = Some m \<or> p = Some m) \<and> (\<forall>q. r = Some q \<or> p = Some q \<longrightarrow> fst q \<le> fst m)"
    by (cases p; cases r) (auto simp: find_mempool_helper_def)
  show ?case
  proof (cases "fold find_mempool_helper pools ?r")
    case None
    then show ?thesis using Cons.IH [of ?r] r by auto
  next
    case (Some m)
    then have ih: "?r = Some m \<or> Some m \<in> set pools" "\<forall>q. ?r = Some q \<or> Some q \<in> set pools \<longrightarrow> fst q \<le> fst m"
      using Cons.IH [of ?r] by simp_all
    have "fst q \<le> fst m" if q: "r = Some q \<or> p = Some q" for q
    proof -
      obtain x y where xy: "q = (x, y)" by (cases q)
      obtain m' where "?r = Some m'" "fst q \<le> fst m'" using r q xy by (cases ?r) auto
      then show ?thesis using ih(2) by fastforce
    qed
    moreover have "r = Some m \<or> Some m \<in> set (p # pools)" using ih(1) r by auto
    ultimately show ?thesis using Some ih(2) by auto
  qed
qed (simp split: option.split)

lemma find_secondary_mempool_spec:
  "(case find_secondary_mempool pools of
      Inl _ \<Rightarrow> set pools \<subseteq> {None}
    | Inr m \<Rightarrow> Some m \<in> set pools \<and> (\<forall>q. Some q \<in> set pools \<longrightarrow> fst q \<le> fst m))"
  using find_mempool_fold [where r = None and pools = pools] by (auto simp: find_secondary_mempool_def split: option.splits)

text \<open>
  The queues of a ring are found by their names, which are cut off after 63 characters: two names of an interface are different if it
  has at most 60 characters, and the same if it has at least 63, so that the port sends to the ring it receives from.
\<close>

lemma ovs_queue_names:
  "length iface \<le> 60 \<Longrightarrow> snprintf Q_NAME (iface @ ''_tx'') \<noteq> snprintf Q_NAME (iface @ ''_rx'')"
  "63 \<le> length iface \<Longrightarrow> snprintf Q_NAME (iface @ ''_tx'') = snprintf Q_NAME (iface @ ''_rx'')"
  by (simp_all add: snprintf_def Q_NAME_def)

text \<open>
  A process starts on the cores 0 to 31 only: the mask of a higher core is the undefined shift, although all cores up to
  \<open>RTE_MAX_LCORE\<close> pass the check.
\<close>

lemma eal_argv_core:
  assumes "length name < 248" "numa \<le> 256"
  shows "(\<exists>argv. eal_argv name core secondary numa = Some argv) \<longleftrightarrow> 0 \<le> core \<and> core < 32"
proof -
  have mem: "length (socket_mem numa) < 1024"
  proof -
    have "nat (numa - 1) \<le> 255" using assms(2) by simp
    then show ?thesis by (simp add: socket_mem_def length_concat sum_list_replicate)
  qed
  have "length (print_int core) < 1024" if "0 \<le> core" "core < 32"
  proof -
    have "length (dec_digits n) \<le> 2" if "n < 100" for n
    proof (cases "n < 10")
      case True
      then show ?thesis by (simp add: dec_digits.simps [of n])
    next
      case False
      then have "n div 10 < 10" using that by simp
      then show ?thesis using False by (simp add: dec_digits.simps [of n] dec_digits.simps [of "n div 10"])
    qed
    then have "length (dec_digits (nat core)) \<le> 2" using that by simp
    then show ?thesis using that by (simp add: print_int_def)
  qed
  then show ?thesis using mem assms(1) by (auto simp: eal_argv_def sprintf_to_def core_mask_def split: bind_splits)
qed

text \<open>A pool that could not be created is used before it is compared with the null pointer.\<close>

lemma init_dpdk_no_pool:
  assumes "init_eal A maxc nodes name core False h = Some (Inr ret, h1)" "0 \<le> ret" "\<And>h n s k m sid. A (h @ [Pool_create n s k m sid]) = 0"
  shows "init_dpdk A maxc nodes pools name core False h = None"
proof -
  obtain pool h2 where p: "init_mempool A core NUM_PFRAMES CACHE_SIZE 1 h1 = (pool, h2)" by fastforce
  then have "pool = 0" using assms(3) [of "h1 @ [Lcore_to_socket core]"] by (auto simp: init_mempool_def call_def)
  then show ?thesis using assms(1,2) p by (simp add: init_dpdk_def)
qed

end
