(* ===== verification/Daemon_Start.thy ===== *)
theory Daemon_Start
  imports Dpdk_Init Traffic_Generator
begin

section \<open>Starting the daemon (netplayd.cc, netplayd.h)\<close>

text \<open>
  What \<open>main\<close> does after the options: the check of the user, the lock of the pid file, the redirection of the
  output, DPDK, and the ports. What the operating system answers is given; \<open>Inl\<close> is the end of the
  process with its message, and \<open>None\<close> undefined behaviour.
\<close>

subsection \<open>The pid file\<close>

datatype flock_answer = Lock_taken | Would_block | Lock_error

text \<open>The answers of \<open>open\<close>, \<open>flock\<close>, \<open>read\<close>, \<open>ftruncate\<close>, \<open>lseek\<close>, \<open>write\<close> and \<open>getpid\<close>.\<close>

record pidfile_os =
  os_open :: bool
  os_flock :: flock_answer
  os_read :: "string option"
  os_ftruncate :: bool
  os_lseek :: bool
  os_write :: bool
  os_pid :: int

text \<open>\<open>sscanf\<close> with \<open>%d\<close>: the variable keeps an indeterminate value if there is no number, which is then printed.\<close>

definition sscanf_int :: "string \<Rightarrow> int option" where
  "sscanf_int buf = do {
     (v, _) \<leftarrow> scan_number (takeWhile (\<lambda>c. c \<noteq> CHR 0x00) buf);
     (if - (2 ^ 31) \<le> v \<and> v < 2 ^ 31 then Some v else None) }"

definition pid_line :: "int \<Rightarrow> string" where
  "pid_line pid = print_int pid @ [CHR 0x0A]"

definition another_instance :: "int \<Rightarrow> string" where
  "another_instance pid = ''ERROR: There is another netplayd instance running (PID='' @ print_int pid @ '')''"

text \<open>The result is the contents of the file; at most 1023 characters of an old one are read.\<close>

definition lock_pidfile :: "pidfile_os \<Rightarrow> string \<Rightarrow> string result" where
  "lock_pidfile e path =
     (if \<not> os_open e then rthrow (''Could not open pidfile: '' @ path)
      else case os_flock e of
        Lock_error \<Rightarrow> rthrow (''Could not lock pidfile: '' @ path)
      | Would_block \<Rightarrow>
          (case os_read e of
             None \<Rightarrow> rthrow (''Could not read from pidfile: '' @ path)
           | Some buf \<Rightarrow>
               (if buf = [] then rthrow (''Could not read from pidfile: '' @ path)
                else do { pid \<leftarrow> sscanf_int (take 1023 buf); rthrow (another_instance pid) }))
      | Lock_taken \<Rightarrow>
          (if \<not> os_ftruncate e then rthrow (''Could not truncate pidfile: '' @ path)
           else if \<not> os_lseek e then rthrow (''Could not seek to beginning of pidfile: '' @ path)
           else if \<not> os_write e then rthrow (''Could not write to pidfile: '' @ path)
           else rreturn (pid_line (os_pid e))))"

subsection \<open>The output\<close>

text \<open>The names of the log files are printed into arrays of 64 characters.\<close>

definition log_file_stderr :: "string \<Rightarrow> string option" where
  "log_file_stderr prefix = sprintf_to 64 (prefix @ ''/netplayd.stderr'')"

definition log_file_stdout :: "string \<Rightarrow> string option" where
  "log_file_stdout prefix = sprintf_to 64 (prefix @ ''/netplayd.stdout'')"

definition redirect_output :: "(string \<Rightarrow> bool) \<Rightarrow> string \<Rightarrow> unit result" where
  "redirect_output freopen path = do {
     err \<leftarrow> log_file_stderr path;
     (if \<not> freopen err then rthrow (''Could not redirect output to logfile: '' @ err)
      else do {
        out \<leftarrow> log_file_stdout path;
        (if \<not> freopen out then rthrow (''Could not redirect output to logfile: '' @ out) else rreturn ()) }) }"

definition check_user :: "nat \<Rightarrow> unit result" where
  "check_user euid = (if euid \<noteq> 0 then rthrow ''ERROR: You need root privilege to run NetPlay daemon'' else rreturn ())"

subsection \<open>The ports\<close>

text \<open>\<open>start\<close> creates the port of an interface when it is first used; an exception of its initialiser ends the process.\<close>

fun daemon_vports :: "(string \<Rightarrow> calls \<Rightarrow> (string + int) \<times> calls) \<Rightarrow> interface_map \<Rightarrow> (string \<rightharpoonup> int) \<Rightarrow> calls \<Rightarrow>
    (string + (string \<rightharpoonup> int)) \<times> calls" where
  "daemon_vports init [] pm h = (Inr pm, h)"
| "daemon_vports init ((core, iface) # m) pm h =
     (case pm iface of
        Some _ \<Rightarrow> daemon_vports init m pm h
      | None \<Rightarrow> (case init iface h of
          (Inl e, h') \<Rightarrow> (Inl e, h')
        | (Inr port, h') \<Rightarrow> daemon_vports init m (pm(iface \<mapsto> port)) h'))"

subsection \<open>The program\<close>

record daemon_os =
  os_euid :: nat
  os_pidfile :: pidfile_os
  os_freopen :: "string \<Rightarrow> bool"
  os_dpdk :: dpdk
  os_max_lcore :: int
  os_nodes :: "string option"
  os_pools :: "(nat \<times> int) option list"
  os_bess :: "string \<Rightarrow> bess_file option"

definition attach_ports :: "daemon_os \<Rightarrow> string \<Rightarrow> interface_map \<Rightarrow> calls \<Rightarrow> (string \<rightharpoonup> int) result" where
  "attach_ports e vswitch m h =
     (if vswitch = ''ovs'' then Some (fst (daemon_vports (ovs_ring_init (os_dpdk e)) m Map.empty h))
      else if vswitch = ''bess'' then Some (fst (daemon_vports (bess_ring_init (os_dpdk e) (os_bess e)) m Map.empty h))
      else rthrow (''Virtual Switch interface '' @ vswitch @ '' is not yet supported.''))"

text \<open>
  \<open>main\<close>, up to the ports of the writers. A failure to detach is only reported.
\<close>

definition netplayd_main :: "daemon_os \<Rightarrow> getopt_event list \<Rightarrow> string list \<Rightarrow> (daemon_options \<times> (string \<rightharpoonup> int)) result" where
  "netplayd_main e evs rest =
     rbind (daemon_args evs rest) (\<lambda>(opts, vswitch).
     rbind (check_user (os_euid e)) (\<lambda>_.
     rbind (case pidfile opts of None \<Rightarrow> rreturn [] | Some f \<Rightarrow> lock_pidfile (os_pidfile e) f) (\<lambda>_.
     rbind (case logprefix opts of None \<Rightarrow> rreturn () | Some p \<Rightarrow> redirect_output (os_freopen e) p) (\<lambda>_. do {
       (r, h) \<leftarrow> init_dpdk (os_dpdk e) (os_max_lcore e) (os_nodes e) (os_pools e) vswitch (master_core opts) True [];
       rbind (Some r) (\<lambda>pool. rbind (attach_ports e vswitch (writer_mapping opts) h) (\<lambda>pm. rreturn (opts, pm))) }))))"

subsection \<open>Rates\<close>

text \<open>
  Packets per second from two counts and two times in microseconds, a number that is not finite if the times are the same.
\<close>

definition pkt_rate :: "(real \<Rightarrow> real) \<Rightarrow> nat \<times> nat \<Rightarrow> nat \<times> nat \<Rightarrow> real option" where
  "pkt_rate rnd from to =
     (let dt = sub64 (snd to) (snd from) in
      if dt = 0 then None else Some (rnd (rnd (rnd (real (sub64 (fst to) (fst from))) * 1000000) / rnd (real dt))))"

text \<open>\<open>monitor\<close> for a number of turns, and \<open>bench\<close>; a reading is a number of packets and the time.\<close>

fun monitor_lines :: "(real \<Rightarrow> real) \<Rightarrow> nat \<times> nat \<Rightarrow> nat \<times> nat \<Rightarrow> (nat \<times> nat) list \<Rightarrow> (nat \<times> real option \<times> real option) list" where
  "monitor_lines rnd start epoch [] = []"
| "monitor_lines rnd start epoch (r # rs) =
     (sub64 (snd r) (snd start), pkt_rate rnd epoch r, pkt_rate rnd start r) # monitor_lines rnd start r rs"

definition monitor :: "(real \<Rightarrow> real) \<Rightarrow> (nat \<times> nat) list \<Rightarrow> (nat \<times> real option \<times> real option) list" where
  "monitor rnd rs = (case rs of [] \<Rightarrow> [] | r # rs' \<Rightarrow> monitor_lines rnd r r rs')"

definition bench_line :: "(real \<Rightarrow> real) \<Rightarrow> interface_map \<Rightarrow> nat \<times> nat \<Rightarrow> nat \<times> nat \<Rightarrow> nat \<times> real option" where
  "bench_line rnd m start stop = (length m, pkt_rate rnd start stop)"

section \<open>Properties\<close>

lemma scan_pid_line: "0 \<le> pid \<Longrightarrow> pid < 2 ^ 31 \<Longrightarrow> sscanf_int (pid_line pid) = Some pid"
proof -
  assume pid: "0 \<le> pid" "pid < 2 ^ 31"
  have nl: "\<not> is_digit CHR 0x0A" by (simp add: is_digit_def)
  have "takeWhile (\<lambda>c. c \<noteq> CHR 0x00) (dec_digits (nat pid) @ [CHR 0x0A]) = dec_digits (nat pid) @ [CHR 0x0A]"
    using dec_digits_digits by (fastforce simp: takeWhile_eq_all_conv is_digit_def)
  then show ?thesis using pid scan_digits [of "[CHR 0x0A]" "nat pid"] nl by (simp add: sscanf_int_def pid_line_def print_int_def)
qed

text \<open>A path that is too long for the names of the log files: 48 characters or more.\<close>

lemma log_prefix_length:
  "log_file_stderr prefix = None \<longleftrightarrow> 48 \<le> length prefix" "log_file_stdout prefix = None \<longleftrightarrow> 48 \<le> length prefix"
  by (simp_all add: log_file_stderr_def log_file_stdout_def sprintf_to_def)

text \<open>No system call follows a failed check of the user, and no switch but two gets ports.\<close>

lemma netplayd_needs_root:
  "daemon_args evs rest = Some (Inr (opts, vswitch)) \<Longrightarrow> os_euid e \<noteq> 0
    \<Longrightarrow> netplayd_main e evs rest = rthrow ''ERROR: You need root privilege to run NetPlay daemon''"
  by (simp add: netplayd_main_def check_user_def rbind_def rthrow_def rreturn_def)

subsection \<open>One port per interface\<close>

lemma daemon_vports_spec:
  assumes "daemon_vports init m pm h = (Inr pm', h')"
  shows "dom pm' = dom pm \<union> snd ` set m \<and> pm \<subseteq>\<^sub>m pm'"
  using assms
proof (induction m arbitrary: pm h)
  case (Cons e m)
  obtain core iface where e: "e = (core, iface)" by (cases e)
  show ?case
  proof (cases "pm iface")
    case None
    obtain r h1 where r: "init iface h = (r, h1)" by fastforce
    then obtain port where port: "r = Inr port" "daemon_vports init m (pm(iface \<mapsto> port)) h1 = (Inr pm', h')"
      using Cons.prems None e by (cases r) auto
    have "pm \<subseteq>\<^sub>m pm(iface \<mapsto> port)" using None by (auto simp: map_le_def)
    moreover have ih: "dom pm' = dom (pm(iface \<mapsto> port)) \<union> snd ` set m \<and> pm(iface \<mapsto> port) \<subseteq>\<^sub>m pm'" by (rule Cons.IH [OF port(2)])
    ultimately have "pm \<subseteq>\<^sub>m pm'" by (blast intro: map_le_trans)
    then show ?thesis using ih e by auto
  next
    case (Some x)
    then show ?thesis using Cons e by (auto simp: insert_absorb)
  qed
qed simp

subsection \<open>Several daemons\<close>

text \<open>
  The calls of \<open>lock_pidfile\<close> as steps of processes that share the file. \<open>flock\<close> gives the lock to one process at a time and takes it back when the
  process ends, which it may at any time; a process that does not get it reads the file later, when other processes may have changed it. A process is
  the number the operating system gives it.
\<close>

datatype pid_phase = Starting | Locked | Emptied | Running | Turned_away | Reported "int option" | Ended

record pid_state =
  pid_file :: string
  lock_holder :: "nat option"
  pid_phase_of :: "nat \<Rightarrow> pid_phase"

inductive pid_step :: "pid_state \<Rightarrow> pid_state \<Rightarrow> bool" where
  flock: "pid_phase_of s i = Starting \<Longrightarrow> lock_holder s = None \<Longrightarrow>
    pid_step s (s\<lparr>lock_holder := Some i, pid_phase_of := (pid_phase_of s)(i := Locked)\<rparr>)"
| flock_fails: "pid_phase_of s i = Starting \<Longrightarrow> lock_holder s = Some j \<Longrightarrow>
    pid_step s (s\<lparr>pid_phase_of := (pid_phase_of s)(i := Turned_away)\<rparr>)"
| read_pid: "pid_phase_of s i = Turned_away \<Longrightarrow>
    pid_step s (s\<lparr>pid_phase_of := (pid_phase_of s)(i := Reported (if pid_file s = [] then None else sscanf_int (take 1023 (pid_file s))))\<rparr>)"
| ftruncate: "pid_phase_of s i = Locked \<Longrightarrow>
    pid_step s (s\<lparr>pid_file := [], pid_phase_of := (pid_phase_of s)(i := Emptied)\<rparr>)"
| write_pid: "pid_phase_of s i = Emptied \<Longrightarrow>
    pid_step s (s\<lparr>pid_file := pid_line (int i), pid_phase_of := (pid_phase_of s)(i := Running)\<rparr>)"
| ends: "pid_phase_of s i \<in> {Locked, Emptied, Running} \<Longrightarrow>
    pid_step s (s\<lparr>lock_holder := None, pid_phase_of := (pid_phase_of s)(i := Ended)\<rparr>)"

definition pid_initial :: "string \<Rightarrow> pid_state" where
  "pid_initial file = \<lparr>pid_file = file, lock_holder = None, pid_phase_of = \<lambda>i. Starting\<rparr>"

definition holds_lock :: "pid_phase \<Rightarrow> bool" where
  "holds_lock p \<longleftrightarrow> p = Locked \<or> p = Emptied \<or> p = Running"

definition pid_inv :: "pid_state \<Rightarrow> bool" where
  "pid_inv s \<longleftrightarrow> (\<forall>i. holds_lock (pid_phase_of s i) \<longleftrightarrow> lock_holder s = Some i)
     \<and> (\<forall>i. pid_phase_of s i = Running \<longrightarrow> pid_file s = pid_line (int i))"

lemma holds_lock_simps [simp]:
  "\<not> holds_lock Starting" "holds_lock Locked" "holds_lock Emptied" "holds_lock Running" "\<not> holds_lock Turned_away"
  "\<not> holds_lock (Reported r)" "\<not> holds_lock Ended"
  by (simp_all add: holds_lock_def)

lemma pid_inv_others:
  assumes "pid_inv s" "holds_lock (pid_phase_of s i)" "j \<noteq> i"
  shows "lock_holder s = Some i" "\<not> holds_lock (pid_phase_of s j)" "pid_phase_of s j \<noteq> Running"
proof -
  show "lock_holder s = Some i" using assms(1,2) by (simp add: pid_inv_def)
  then show n: "\<not> holds_lock (pid_phase_of s j)" using assms(1,3) by (simp add: pid_inv_def)
  show "pid_phase_of s j \<noteq> Running" using n by auto
qed

lemma pid_inv_update:
  assumes "\<And>j. j \<noteq> i \<Longrightarrow> holds_lock (pid_phase_of s j) \<longleftrightarrow> lock_holder s' = Some j"
    and "\<And>j. j \<noteq> i \<Longrightarrow> pid_phase_of s j = Running \<Longrightarrow> pid_file s' = pid_line (int j)"
    and "holds_lock p \<longleftrightarrow> lock_holder s' = Some i" "p = Running \<Longrightarrow> pid_file s' = pid_line (int i)"
    and "pid_phase_of s' = (pid_phase_of s)(i := p)"
  shows "pid_inv s'"
  using assms by (auto simp: pid_inv_def)

lemma pid_step_inv:
  assumes "pid_step s s'" "pid_inv s"
  shows "pid_inv s'"
  using assms(1)
proof cases
  case (flock i)
  then show ?thesis using assms(2) by (intro pid_inv_update [of i s s' Locked]) (auto simp: pid_inv_def)
next
  case (flock_fails i j)
  then have "lock_holder s \<noteq> Some i" using assms(2) by (metis holds_lock_simps(1) pid_inv_def)
  then show ?thesis using assms(2) flock_fails by (intro pid_inv_update [of i s s' Turned_away]) (auto simp: pid_inv_def)
next
  case (read_pid i)
  then have "lock_holder s \<noteq> Some i" using assms(2) by (metis holds_lock_simps(5) pid_inv_def)
  then show ?thesis using assms(2) read_pid(1)
    by (intro pid_inv_update [of i s s' "Reported (if pid_file s = [] then None else sscanf_int (take 1023 (pid_file s)))"])
      (auto simp: pid_inv_def)
next
  case (ftruncate i)
  then have "holds_lock (pid_phase_of s i)" by simp
  note o = pid_inv_others [OF assms(2) this]
  have "lock_holder s = Some i" using assms(2) ftruncate(2) by (metis holds_lock_simps(3,2) pid_inv_def)
  then show ?thesis using ftruncate o by (intro pid_inv_update [of i s s' Emptied]) auto
next
  case (write_pid i)
  then have "holds_lock (pid_phase_of s i)" by simp
  note o = pid_inv_others [OF assms(2) this]
  have "lock_holder s = Some i" using assms(2) write_pid(2) by (metis holds_lock_simps(3) pid_inv_def)
  then show ?thesis using write_pid o by (intro pid_inv_update [of i s s' Running]) auto
next
  case (ends i)
  then have "holds_lock (pid_phase_of s i)" by auto
  note o = pid_inv_others [OF assms(2) this]
  show ?thesis using ends o by (intro pid_inv_update [of i s s' Ended]) auto
qed

lemma pid_reach_inv: "pid_step\<^sup>*\<^sup>* (pid_initial file) s \<Longrightarrow> pid_inv s"
proof (induction rule: rtranclp_induct)
  case base
  then show ?case by (simp add: pid_inv_def pid_initial_def holds_lock_def)
qed (rule pid_step_inv)

lemma dec_digits_length: "n < 10 ^ k \<Longrightarrow> 0 < k \<Longrightarrow> length (dec_digits n) \<le> k"
proof (induction k arbitrary: n)
  case (Suc k)
  show ?case
  proof (cases "n < 10")
    case True
    then show ?thesis by (simp add: dec_digits.simps [of n])
  next
    case False
    then have "k \<noteq> 0" using Suc.prems(1) by (cases k) auto
    moreover have "n div 10 < 10 ^ k" using Suc.prems(1) by (simp add: div_less_iff_less_mult mult.commute)
    ultimately have "length (dec_digits (n div 10)) \<le> k" using Suc.IH by simp
    then show ?thesis using False by (simp add: dec_digits.simps [of n])
  qed
qed simp

text \<open>
  C34. At most one daemon runs, and the others say which. In every state that processes sharing a pid file can reach, at most one is
  running, and the file then has its number, which is what \<open>lock_pidfile\<close> of any other process reads and
  reports before it ends.
\<close>

theorem one_daemon_runs:
  assumes "pid_step\<^sup>*\<^sup>* (pid_initial file) s" "pid_phase_of s i = Running" "int i < 2 ^ 31"
  shows "(\<forall>j. pid_phase_of s j = Running \<longrightarrow> j = i) \<and> lock_holder s = Some i
    \<and> lock_pidfile \<lparr>os_open = True, os_flock = Would_block, os_read = Some (pid_file s), os_ftruncate = t, os_lseek = l, os_write = w, os_pid = p\<rparr> f
      = rthrow (another_instance (int i))"
proof -
  have inv: "pid_inv s" using assms(1) by (rule pid_reach_inv)
  then have h: "lock_holder s = Some i" "pid_file s = pid_line (int i)" using assms(2) by (auto simp: pid_inv_def holds_lock_def)
  have "j = i" if "pid_phase_of s j = Running" for j using inv that h(1) by (auto simp: pid_inv_def holds_lock_def)
  moreover have "length (dec_digits i) \<le> 10"
    using dec_digits_length [of i 10] assms(3) by simp
  then have "take 1023 (pid_line (int i)) = pid_line (int i)" by (simp add: pid_line_def print_int_def)
  moreover have "pid_line (int i) \<noteq> []" by (simp add: pid_line_def)
  ultimately show ?thesis using h scan_pid_line [of "int i"] assms(3) by (simp add: lock_pidfile_def)
qed

lemma pid_step_flock:
  "pid_phase_of s i = Starting \<Longrightarrow> lock_holder s = None \<Longrightarrow>
    pid_step\<^sup>*\<^sup>* s (s\<lparr>lock_holder := Some i, pid_file := pid_line (int i), pid_phase_of := (pid_phase_of s)(i := Running)\<rparr>)"
proof -
  assume s: "pid_phase_of s i = Starting" "lock_holder s = None"
  let ?a = "s\<lparr>lock_holder := Some i, pid_phase_of := (pid_phase_of s)(i := Locked)\<rparr>"
  let ?b = "?a\<lparr>pid_file := [], pid_phase_of := (pid_phase_of ?a)(i := Emptied)\<rparr>"
  let ?c = "?b\<lparr>pid_file := pid_line (int i), pid_phase_of := (pid_phase_of ?b)(i := Running)\<rparr>"
  have "pid_step s ?a" "pid_step ?a ?b" "pid_step ?b ?c"
    by (rule pid_step.flock [OF s]) (rule pid_step.ftruncate pid_step.write_pid, simp)+
  then have "pid_step\<^sup>*\<^sup>* s ?c" by (meson rtranclp.rtrancl_into_rtrancl rtranclp.rtrancl_refl)
  then show ?thesis by simp
qed

theorem one_daemon_runs_witness:
  "\<exists>s. pid_step\<^sup>*\<^sup>* (pid_initial ''17'') s \<and> pid_phase_of s 42 = Running
    \<and> lock_pidfile \<lparr>os_open = True, os_flock = Would_block, os_read = Some (pid_file s), os_ftruncate = True, os_lseek = True,
          os_write = True, os_pid = 7\<rparr> default_pid_file
      = Some (Inl ''ERROR: There is another netplayd instance running (PID=42)'')"
proof -
  obtain s where s: "pid_step\<^sup>*\<^sup>* (pid_initial ''17'') s" "pid_phase_of s 42 = Running"
    using pid_step_flock [of "pid_initial ''17''" 42] by (auto simp: pid_initial_def)
  have msg: "another_instance 42 = ''ERROR: There is another netplayd instance running (PID=42)''"
    by (simp add: another_instance_def print_int_def dec_digits.simps char_of_def bit_Suc_0_iff)
  have "int 42 < 2 ^ 31" by simp
  from one_daemon_runs [OF s this, of True True True 7 default_pid_file] have
    "lock_pidfile \<lparr>os_open = True, os_flock = Would_block, os_read = Some (pid_file s), os_ftruncate = True, os_lseek = True,
          os_write = True, os_pid = 7\<rparr> default_pid_file = Some (Inl (another_instance 42))"
    unfolding rthrow_def by (elim conjE) simp
  then show ?thesis using s unfolding msg by (intro exI [of _ s] conjI)
qed

end
