(* ===== verification/Spec2Isabelle.thy ===== *)
theory Spec2Isabelle
  imports Bit_Utils Monolog_Concurrent Monolog_Atomic Concurrent_Tiers Concurrent_Log Concurrent_Index Concurrent_Characters Concurrent_Queries
    Query_Aggregates Store_Session Log_Session Filter_Bench Daemon_Start
begin

text \<open>
  \<^bold>\<open>NetPlay: the packet store, its queries, the daemon and the packet generator.\<close>

  NetPlay receives packets from a virtual switch, keeps them in an append-only store with indexes, and
  answers queries on the stored packets. All paths below are relative to \<^verbatim>\<open>src/\<close>.

  \<^bold>\<open>Parts and how they interact.\<close>
  \<^item> The log store (\<^verbatim>\<open>logstore/include\<close>) is built from logs that only grow. Bytes of records go into the
    data log, the place and length of every record into the offset log, and the identifiers of the records that have a
    given token into the lists of a tiered index. A record becomes visible when the read
    counter of the offset log passes its identifier.
  \<^item> The packet store (\<^verbatim>\<open>netplayd/include/packetstore.h\<close>) is a log store with five indexes (addresses, ports,
    timestamp) and an index of complex characters, stored filters whose matches are recorded at insertion.
    A burst reserves identifiers and bytes once, then indexes and appends packet by packet and publishes all of them.
  \<^item> Queries are strings. The parser makes a tree without negations, \<^verbatim>\<open>netplay_utils\<close> turns its predicates into
    ranges of keys, the planner picks for every clause the filter with the fewest entries and turns the
    others into a packet filter, and the store enumerates the entries of the chosen range through that filter.
  \<^item> The daemon (\<^verbatim>\<open>netplayd\<close>) starts one writer per core; a writer polls a port and inserts what it receives.
    The packet generator (\<^verbatim>\<open>pktgen\<close>) and the benchmark tools send packets under limits of rate, time and number.

  \<^bold>\<open>Conventions.\<close> A result \<^verbatim>\<open>None\<close> is undefined behaviour of C++: a null pointer, an access outside an
  array, an entry that was never written, an overflow of a signed integer, or a loop that does not end.
  In code that throws, \<open>'a result\<close> is \<open>(string + 'a) option\<close> with \<open>Inl\<close> the exception. Counters and keys are
  natural numbers with their wrap-around written as \<open>take_bit\<close>, bit patterns are words. State is passed explicitly;
  pointers to indexes are positions in a heap of index objects, since the store and the packet store
  share them. What the program gets from outside (clock, received bursts, results of \<^verbatim>\<open>getopt_long\<close>, answers of DPDK and of
  system calls) is an argument.

  \<^bold>\<open>Theories, in the order of the program.\<close>
  \<^item> \<^verbatim>\<open>Prelude\<close>: shared types, numerals, results, list and arithmetic lemmas.
  \<^item> \<^verbatim>\<open>Bit_Utils\<close>: \<^verbatim>\<open>utils.h\<close>: \<^verbatim>\<open>highest_bit\<close> in both variants and the big-endian casts.
  \<^item> \<^verbatim>\<open>Log_Interfaces\<close>: the locales \<open>array_log\<close> (a write is read back, other cells are kept) and \<open>append_log\<close> (an
    append refines appending to a list, entries are never lost).
  \<^item> \<^verbatim>\<open>Monolog_Base, Monolog, Monolog_Concurrent\<close>: \<^verbatim>\<open>monolog.h\<close>: the bucketed array, the relaxed and the
    linearizable log on it with their iterators, and concurrent \<^verbatim>\<open>push_back\<close> as a step relation over its atomic
    operations. They interpret \<open>array_log\<close> and \<open>append_log\<close>.
  \<^item> \<^verbatim>\<open>Monolog_Atomic\<close>: \<^verbatim>\<open>monolog.h\<close>: the base over atomic cells, a further instance of \<open>array_log\<close>.
  \<^item> \<^verbatim>\<open>Monolog_Linear\<close>: \<^verbatim>\<open>monolog.h\<close> and \<^verbatim>\<open>datalog.h\<close>: the blocks of bytes with their overflow buffer; interprets \<open>array_log\<close>.
  \<^item> \<^verbatim>\<open>Offset_Log\<close>: \<^verbatim>\<open>offsetlog.h\<close>: packing, lookup, and the protocol by which concurrent bursts reserve and
    publish identifiers, a step relation with an invariant by rule induction, progress and the empty burst.
  \<^item> \<^verbatim>\<open>Tiered_Index\<close>: \<^verbatim>\<open>tieredindex.h\<close>: indexlets of depth one to four under the locales \<open>key_index\<close> and
    \<open>entry_index\<close>, and the eight index types; \<open>add_entry\<close> refines an update of a multimap.
  \<^item> \<^verbatim>\<open>Entry_Cursor, Filter_Result\<close>: \<^verbatim>\<open>filterresult.h\<close>: the locale of an iterator over the lists of a
    range, and the enumeration of a token range as its instance.
  \<^item> \<^verbatim>\<open>Relaxed_Concurrent\<close>: \<^verbatim>\<open>monolog.h\<close>: \<^verbatim>\<open>push_back\<close> and \<^verbatim>\<open>push_back_range\<close> of several threads on one
    list of entries, as a step relation over their atomic operations, and what a filter result reads meanwhile.
  \<^item> \<^verbatim>\<open>Concurrent_Tiers\<close>: \<^verbatim>\<open>tieredindex.h\<close>: threads that add entries to one index and create its arrays and lists, on objects with
    addresses, in atomic steps; \<open>index_view\<close> leads back to the indexes of \<open>Tiered_Index\<close>.
  \<^item> \<^verbatim>\<open>Session_Refinement\<close>: sessions of requests, and the locale \<open>service_refinement\<close>: a component that answers every request as its
    specification allows does so in every session.
  \<^item> \<^verbatim>\<open>Log_Store\<close>: \<^verbatim>\<open>logstore.h\<close>, \<^verbatim>\<open>tokens.h\<close>, \<^verbatim>\<open>streamlog.h\<close>: insertion, lookup, extraction, filters, streams,
    handles and sizes; insertion refines appending to a list of records.
  \<^item> \<^verbatim>\<open>Log_Session\<close>: the log store as a service on a list of records, an instance of \<open>service_refinement\<close>.
  \<^item> \<^verbatim>\<open>Expression, Query_Parser\<close>: \<^verbatim>\<open>expression.h\<close>, \<^verbatim>\<open>query_parser.h\<close>: trees, negation, lexer and parser.
  \<^item> \<^verbatim>\<open>Packet_Headers, Packet_Filter, Complex_Character\<close>: \<^verbatim>\<open>packet_attributes.h\<close>, \<^verbatim>\<open>packet_filter.h\<close>,
    \<^verbatim>\<open>complex_character_index.h\<close>.
  \<^item> \<^verbatim>\<open>Packet_Store, Packet_Insert, Packet_Burst\<close>: \<^verbatim>\<open>packetstore.h\<close>, \<^verbatim>\<open>query_plan.h\<close>, \<^verbatim>\<open>aggregates.h\<close>: the store, what
    one packet changes, what a burst changes.
  \<^item> \<^verbatim>\<open>Netplay_Utils, Query_Semantics, Address_Strings\<close>: \<^verbatim>\<open>netplay_utils.h\<close>: ranges of predicates, reduction of
    clauses and its meaning, the strings of addresses and prefixes.
  \<^item> \<^verbatim>\<open>Query_Planner, Query_Count, Query_Data, Query_Correct, Query_Results\<close>: \<^verbatim>\<open>query_planner.h\<close>, \<^verbatim>\<open>cast_builder.h\<close>,
    \<^verbatim>\<open>character_builder.h\<close>: plans, exact counts, the relation of indexes and stored bytes, and
    the theorems on queries.
  \<^item> \<^verbatim>\<open>Query_Aggregates\<close>: \<^verbatim>\<open>aggregates.h\<close>: what the aggregates compute, in any order of the results.
  \<^item> \<^verbatim>\<open>Character_Query, Character_Count\<close>: queries on complex characters, the second instance of \<open>entry_cursor\<close>, and
    the counts, which create the lists they do not find.
  \<^item> \<^verbatim>\<open>Store_Exact\<close>: all invariants of the packet store in one, kept by insertions and new characters,
    on which the room a burst needs is a bound on numbers.
  \<^item> \<^verbatim>\<open>Query_Meaning, Store_Session\<close>: the meaning of a query string without indexes, and the packet store as a service on a list of
    packets and a list of characters, the second instance of \<open>service_refinement\<close>.
  \<^item> \<^verbatim>\<open>Step_Refinement, Concurrent_Writers, Concurrent_Log, Concurrent_Index, Concurrent_Characters, Concurrent_Queries\<close>:
    \<^verbatim>\<open>insert_pktburst\<close> of several handles as steps that interleave: a refinement of the protocol of \<open>Offset_Log\<close> (the locale \<open>step_refinement\<close>), the packets that
    can be read as a prefix of the bursts in the order of their identifiers, the entries of the five indexes, the lists of the
    characters, and a query that runs during a burst.
  \<^item> \<^verbatim>\<open>Netplay_Writer, Netplay_Daemon, Daemon_Start\<close>: \<^verbatim>\<open>netplay_writer.h\<close>, \<^verbatim>\<open>netplayd.h\<close>, \<^verbatim>\<open>netplayd.cc\<close>: polling, options,
    and the start of the daemon with the lock of the pid file, alone and with several processes.
  \<^item> \<^verbatim>\<open>Dpdk_Init\<close>: \<^verbatim>\<open>dpdk/include\<close>: the calls of DPDK that initialise the environment, the memory pool and the ports, and what
    the code does on each answer.
  \<^item> \<^verbatim>\<open>Traffic_Generator, Zipf_Table, Pktgen_Options\<close>: \<^verbatim>\<open>token_bucket.h\<close>, \<^verbatim>\<open>pktgen.h\<close>, \<^verbatim>\<open>pktgen.cc\<close>, \<^verbatim>\<open>rate_limiter.h\<close>,
    \<^verbatim>\<open>rand_generators.h\<close>.
  \<^item> \<^verbatim>\<open>Packet_Generators, Packet_Loading\<close>: the generators of \<^verbatim>\<open>pktgen.h\<close> and \<^verbatim>\<open>filter_bench.cc\<close>, writing headers into buffers, the
    port of \<^verbatim>\<open>bench_vport.h\<close> that inserts into a store, and the load of the filter benchmark, which joins generator loop, header
    layout, insertion and indexes.
  \<^item> \<^verbatim>\<open>Bench_Loading, Bench_Options, Filter_Bench\<close>: \<^verbatim>\<open>packet_bench.cc\<close>, \<^verbatim>\<open>storage_bench.cc\<close>, \<^verbatim>\<open>filter_bench.cc\<close>,
    \<^verbatim>\<open>cpu_utilization.h\<close>: the loads of the workers through the rate limiter, the options, and the filter benchmark as a
    state with the actions its types call.

  \<^bold>\<open>What the lemmas show.\<close> The invariant \<open>log_store_ok\<close> and its extension \<open>pstore_ok\<close> are established
  by the constructors and kept by every insertion. \<open>store_pkts\<close> abstracts a packet store to the list of its packets with their
  seconds, and a burst appends to that list. \<open>complete\<close> says that every index list holds exactly the ascending
  identifiers of the packets with that key; bursts keep it, and on complete stores a query of one predicate is
  exact, while a query in disjunctive normal form returns every match and at most one packet too many per
  clause, since the first entry of a clause is not filtered. \<open>char_exact\<close> is the counterpart for characters. These lemmas join
  in two theorems on whole sessions, \<open>packet_store_refines_service\<close> and \<open>log_store_refines_service\<close>: from a new store on, every sequence of
  requests inside stated bounds is answered, as the abstract service answers it. Under every
  interleaving of writers the identifiers below the read counter have their offsets and whole packets, the bursts take effect in the
  order of their identifiers, every published packet is in the lists of its keys, once, and the oldest burst can always proceed;
  a character is exact for the packets whose identifiers are handed out after it was added, while packets of bursts begun before may be missing. A list of entries
  holds what was appended to it when no call is in progress, and so does an index, however threads race to create its lists; adding to both is wait-free. But a position is counted before its value is
  stored, so a query that runs meanwhile can read an entry that was never written. The loads of the benchmarks store the packets
  they drew, and the counts the latency benchmark reports are exact; how many loads a memory pool permits, in which order a port is
  initialised, and that at most one daemon runs are theorems on the drivers. The parser ends, and builds trees the planner accepts or rejects with an exception. Where the code does
  not do what its context asks of it, a theorem states what it does instead.

  \<^bold>\<open>Bounds and fuel.\<close> The parser recurses on fuel \<open>3 * length + 3\<close>, proved to be enough for every
  input. Loops that may run for ever (iterators, the wait in \<^verbatim>\<open>end\<close>, the scan for the next list) are
  \<open>partial_function (option)\<close>, and the theorems on them show that they return. Room is explicit: \<open>insert_room\<close> and \<open>burst_room\<close>
  say that lists, identifiers and bytes stay within the capacity the logs have (buckets times
  bucket size), as the code does not check it. Ranges of queries must end before the last key of their index because the
  iterator reads one list behind. The layout of DPDK's header structs is the parameter \<open>hdr_layout\<close>, instantiated in the
  witnesses by the layout on the wire; rounding of \<^verbatim>\<open>double\<close> is the parameter \<open>rnd\<close> with the hypothesis \<open>fp_rounding\<close>,
  instantiated by the identity.

  \<^bold>\<open>Not modelled.\<close> DPDK itself, of which only the calls and the answers appear. The operating system apart from
  its answers: detaching, \<^verbatim>\<open>umask\<close>, the creation and the affinity of threads, the crash handlers. What is printed, apart
  from the numbers of the benchmarks and of \<^verbatim>\<open>monitor\<close>; the threads that sample the CPU. Two operations of
  \<^verbatim>\<open>__atomic_monolog_base\<close> that do not compile. Memory is never exhausted and never freed, the pool of packet buffers
  excepted; the weak memory order of the machine is not modelled, atomic operations are interleaved. Concurrency is modelled for
  \<^verbatim>\<open>push_back\<close> of both logs, for the offset log, for the bursts of several writers on the logs of one store, and for the pid file. In the
  steps of the writers one packet is entered in the indexes, or the range of a burst in the timestamp index, in one step; the appends to one list and the
  additions to one index are taken apart in \<open>Relaxed_Concurrent\<close> and \<open>Concurrent_Tiers\<close>. All other operations are as one thread runs them, also
  the counts of characters by the threads of the filter benchmark.

  \<^bold>\<open>Open.\<close> The atomic steps of the additions to an index inside the steps of the writers.
\<close>

end
